(* ===== verification/Prelude.thy ===== *)
theory Prelude
  imports Main "HOL-Library.Word" "HOL-Library.Monad_Syntax"
begin

text \<open>
  Shared vocabulary of the development: the fixed-width integer types of
  \<^verbatim>\<open>include/kernel/types.h\<close> as words (arithmetic wraps, as the unsigned C types do), the
  alignment macros of that header, and the generic facts about words, lists and loop counters
  that the component theories use. The collection \<open>unat_simps\<close> holds the equations that
  move a machine-word expression to the natural numbers.
\<close>

unbundle bit_operations_syntax

named_theorems unat_simps \<open>equations that read machine words as natural numbers\<close>

section \<open>Fixed-width types and macros (include/kernel/types.h)\<close>

type_synonym u8 = "8 word"
type_synonym u16 = "16 word"
type_synonym u32 = "32 word"
type_synonym u64 = "64 word"
type_synonym i32 = "32 word" \<comment> \<open>read with \<open>sint\<close>, compared with \<open>sint\<close>\<close>
type_synonym usize = u64
type_synonym physaddr = u64
type_synonym virtaddr = u64

definition ALIGN_UP :: "'a::len word \<Rightarrow> 'a word \<Rightarrow> 'a word" where
  "ALIGN_UP x align = (x + align - 1) AND NOT (align - 1)"

definition ALIGN_DOWN :: "'a::len word \<Rightarrow> 'a word \<Rightarrow> 'a word" where
  "ALIGN_DOWN x align = x AND NOT (align - 1)"

section \<open>Words read as natural numbers\<close>

lemma unat_add1_less [unat_simps]:
  fixes f n :: "'a::len word"
  assumes "f < n"
  shows "unat (f + 1) = Suc (unat f)"
proof -
  have "unat f + 1 \<le> unat n" using assms by (simp add: word_less_nat_alt)
  also have "unat n < 2 ^ LENGTH('a)" by (rule unsigned_less)
  finally have "unat f + unat (1 :: 'a word) < 2 ^ LENGTH('a)" by simp
  then show ?thesis by (simp add: unat_add_lem [THEN iffD1])
qed

lemma unat_plus_simple:
  fixes x y :: "'a::len word"
  shows "unat x + unat y < 2 ^ LENGTH('a) \<Longrightarrow> unat (x + y) = unat x + unat y"
  by (rule unat_add_lem [THEN iffD1])

lemma unat_times_simple:
  fixes x y :: "'a::len word"
  shows "unat x * unat y < 2 ^ LENGTH('a) \<Longrightarrow> unat (x * y) = unat x * unat y"
  by (rule unat_mult_lem [THEN iffD1])

lemma unat_minus_simple:
  fixes x y :: "'a::len word"
  shows "unat y \<le> unat x \<Longrightarrow> unat (x - y) = unat x - unat y"
  by (simp add: unat_sub word_le_nat_alt)

lemma unat_and_not_mask:
  fixes x :: "'a::len word"
  shows "unat (x AND NOT (mask n)) = unat x div 2 ^ n * 2 ^ n"
proof -
  have "unat (x AND NOT (mask n)) = push_bit n (drop_bit n (unat x))"
    by (rule bit_eqI) (auto simp: bit_simps dest: bit_imp_le_length)
  then show ?thesis by (simp add: push_bit_eq_mult drop_bit_eq_div)
qed

lemma unat_of_nat_eq:
  "n < 2 ^ LENGTH('a) \<Longrightarrow> unat (of_nat n :: 'a::len word) = n"
  by (simp add: unat_of_nat take_bit_nat_eq_self)

lemma u64_lt: "unat (x :: u64) < 2 ^ 64"
proof -
  have "unat x < 2 ^ LENGTH(64)" by (rule unsigned_less)
  then show ?thesis by simp
qed

lemma u32_lt: "unat (x :: u32) < 4294967296"
  using unsigned_less [of x] by simp

lemma of_nat_unat_id: "of_nat (unat x) = (x :: 'a::len word)"
  by simp

lemma word_eq_of_nat: "unat x = n \<Longrightarrow> (x :: 'a::len word) = of_nat n"
  by auto

section \<open>Alignment\<close>

lemma ALIGN_DOWN_8 [unat_simps]:
  "unat (ALIGN_DOWN (x :: u64) 8) = unat x div 8 * 8"
  using unat_and_not_mask [of x 3] by (simp add: ALIGN_DOWN_def mask_eq_exp_minus_1)

lemma ALIGN_DOWN_4096 [unat_simps]:
  "unat (ALIGN_DOWN (x :: u64) 4096) = unat x div 4096 * 4096"
  using unat_and_not_mask [of x 12] by (simp add: ALIGN_DOWN_def mask_eq_exp_minus_1)

lemma ALIGN_UP_eq_DOWN: "ALIGN_UP x a = ALIGN_DOWN (x + (a - 1)) a"
  by (simp add: ALIGN_UP_def ALIGN_DOWN_def algebra_simps)

lemma ALIGN_UP_8:
  assumes "unat (x :: u64) + 7 < 2 ^ 64"
  shows "unat (ALIGN_UP x 8) = (unat x + 7) div 8 * 8"
  using assms by (simp add: ALIGN_UP_eq_DOWN ALIGN_DOWN_8 unat_plus_simple)

lemma ALIGN_UP_8_dvd: "8 dvd unat (ALIGN_UP (x :: u64) 8)"
  by (simp add: ALIGN_UP_eq_DOWN ALIGN_DOWN_8)

end
