(* ===== verification/Vfs.thy ===== *)
theory Vfs
  imports Prelude "HOL-Library.Sublist"
begin

text \<open>
  The read-only file system of \<^verbatim>\<open>fs/vfs.c\<close> and the image builder \<^verbatim>\<open>tools/mkfs.py\<close> it has to agree
  with. The disk is an argument: \<open>disk lba\<close> is the 512-byte sector the driver delivers, or \<open>None\<close>
  when \<open>arch_disk_read_sector\<close> returns false. A byte buffer is a list; writing past its end is a
  memory error and makes the whole call \<open>None\<close>, as does a string comparison that runs off the end of
  the sector buffer.
\<close>

section \<open>State and data\<close>

type_synonym disk = "u32 \<rightharpoonup> u8 list"

record superblock =
  sb_magic :: u32
  sb_file_count :: u32
  sb_dir_start_sector :: u32
  sb_data_start_sector :: u32

record vfs =
  available :: bool
  sb :: superblock

definition MKFS_MAGIC :: u32 where
  "MKFS_MAGIC = 0x4D4B4653"

definition SECTOR_SIZE :: u32 where
  "SECTOR_SIZE = 512"

definition DIR_ENTRY_SIZE :: u32 where
  "DIR_ENTRY_SIZE = 64"

definition ENTRIES_PER_SECTOR :: u32 where
  "ENTRIES_PER_SECTOR = SECTOR_SIZE div DIR_ENTRY_SIZE"

definition NAME_LEN :: nat where
  "NAME_LEN = 32"

text \<open>A little-endian 32-bit load, as a field access of the packed structures compiles to.\<close>

definition le32 :: "u8 list \<Rightarrow> nat \<Rightarrow> u32" where
  "le32 b off = ucast (b ! off) + 256 * ucast (b ! (off + 1)) + 65536 * ucast (b ! (off + 2))
     + 16777216 * ucast (b ! (off + 3))"

definition read_superblock :: "u8 list \<Rightarrow> superblock" where
  "read_superblock b = \<lparr>sb_magic = le32 b 0, sb_file_count = le32 b 4,
     sb_dir_start_sector = le32 b 8, sb_data_start_sector = le32 b 12\<rparr>"

record dirent =
  de_name :: "u8 list"
  de_start_sector :: u32
  de_size_bytes :: u32

text \<open>The entry at byte offset \<open>off\<close>; its name is what lies in memory from there on.\<close>

definition read_dirent :: "u8 list \<Rightarrow> nat \<Rightarrow> dirent" where
  "read_dirent b off = \<lparr>de_name = drop off b, de_start_sector = le32 b (off + NAME_LEN),
     de_size_bytes = le32 b (off + NAME_LEN + 4)\<rparr>"

section \<open>Operations\<close>

fun str_eq :: "u8 list \<Rightarrow> u8 list \<Rightarrow> bool option" where
  "str_eq (a # as) (b # bs) =
     (if a \<noteq> 0 \<and> b \<noteq> 0 then (if a \<noteq> b then Some False else str_eq as bs) else Some (a = b))"
| "str_eq _ _ = None"

definition vfs_init :: "bool \<Rightarrow> disk \<Rightarrow> vfs \<Rightarrow> vfs" where
  "vfs_init arch_disk_available disk v =
     (if \<not> arch_disk_available then v
      else case disk 0 of
        None \<Rightarrow> v
      | Some sector \<Rightarrow>
          let raw = read_superblock sector
          in if sb_magic raw \<noteq> MKFS_MAGIC then v else v\<lparr>sb := raw, available := True\<rparr>)"

definition vfs_available :: "vfs \<Rightarrow> bool" where
  "vfs_available v = available v"

text \<open>The innermost loop: \<open>dst[copied + b] = tmp[b]\<close> for \<open>b < chunk\<close>.\<close>

function copy_bytes :: "u32 \<Rightarrow> u32 \<Rightarrow> u32 \<Rightarrow> u8 list \<Rightarrow> u8 list \<Rightarrow> u8 list option" where
  "copy_bytes b chunk copied tmp dst =
     (if b < chunk then
        if unat (copied + b) < length dst
        then copy_bytes (b + 1) chunk copied tmp (dst[unat (copied + b) := tmp ! unat b])
        else None
      else Some dst)"
  by pat_completeness auto
termination
  by (relation "measure (\<lambda>(b, chunk, copied, tmp, dst). unat chunk - unat b)")
    (auto simp: unat_add1_less word_less_nat_alt)

function copy_file :: "disk \<Rightarrow> u32 \<Rightarrow> u32 \<Rightarrow> u32 \<Rightarrow> u32 \<Rightarrow> u32 \<Rightarrow> u8 list \<Rightarrow> (bool \<times> u8 list) option" where
  "copy_file disk start_sector sectors_needed to_copy s copied dst =
     (if s < sectors_needed \<and> copied < to_copy then
        case disk (start_sector + s) of
          None \<Rightarrow> Some (False, dst)
        | Some tmp \<Rightarrow>
            let chunk0 = to_copy - copied;
                chunk = (if chunk0 > SECTOR_SIZE then SECTOR_SIZE else chunk0)
            in do {
              dst' \<leftarrow> copy_bytes 0 chunk copied tmp dst;
              copy_file disk start_sector sectors_needed to_copy (s + 1) (copied + chunk) dst'
            }
      else Some (True, dst))"
  by pat_completeness auto
termination
  by (relation "measure (\<lambda>(disk, st, n, t, s, c, dst). unat n - unat s)")
    (auto simp: unat_add1_less word_less_nat_alt)

text \<open>The result of a call: the return value, the buffer afterwards, and the value stored in
  \<open>*out_size\<close>, if any.\<close>

type_synonym read_result = "bool \<times> u8 list \<times> u32 option"

definition read_entry :: "disk \<Rightarrow> dirent \<Rightarrow> u8 list \<Rightarrow> u32 \<Rightarrow> read_result option" where
  "read_entry disk e buf buf_size =
     (let sz = de_size_bytes e;
          to_copy = (if sz < buf_size then sz else buf_size);
          sectors_needed = (sz + SECTOR_SIZE - 1) div SECTOR_SIZE
      in do {
        (ok, dst) \<leftarrow> copy_file disk (de_start_sector e) sectors_needed to_copy 0 0 buf;
        Some (if ok then (True, dst, Some sz) else (False, dst, None))
      })"

text \<open>The loop over the entries of one directory sector; \<open>Some None\<close> when none of them matches.\<close>

function scan_entries :: "disk \<Rightarrow> u8 list \<Rightarrow> u8 list \<Rightarrow> u32 \<Rightarrow> u32 \<Rightarrow> u8 list \<Rightarrow> u32 \<Rightarrow> read_result option option" where
  "scan_entries disk name sector n i buf buf_size =
     (if i < n then
        let e = read_dirent sector (unat (i * DIR_ENTRY_SIZE))
        in do {
          eq \<leftarrow> str_eq (de_name e) name;
          if eq then map_option Some (read_entry disk e buf buf_size)
          else scan_entries disk name sector n (i + 1) buf buf_size
        }
      else Some None)"
  by pat_completeness auto
termination
  by (relation "measure (\<lambda>(disk, name, sector, n, i, buf, bs). unat n - unat i)")
    (auto simp: unat_add1_less word_less_nat_alt)

function scan_dir :: "disk \<Rightarrow> u8 list \<Rightarrow> u32 \<Rightarrow> u32 \<Rightarrow> u8 list \<Rightarrow> u32 \<Rightarrow> read_result option" where
  "scan_dir disk name remaining dir_sector buf buf_size =
     (if remaining > 0 then
        case disk dir_sector of
          None \<Rightarrow> Some (False, buf, None)
        | Some sector \<Rightarrow>
            let n = (if remaining < ENTRIES_PER_SECTOR then remaining else ENTRIES_PER_SECTOR)
            in do {
              r \<leftarrow> scan_entries disk name sector n 0 buf buf_size;
              case r of
                Some res \<Rightarrow> Some res
              | None \<Rightarrow> scan_dir disk name (remaining - n) (dir_sector + 1) buf buf_size
            }
      else Some (False, buf, None))"
  by pat_completeness auto
termination
  by (relation "measure (\<lambda>(disk, name, remaining, ds, buf, bs). unat remaining)")
    (auto simp: word_less_nat_alt ENTRIES_PER_SECTOR_def SECTOR_SIZE_def DIR_ENTRY_SIZE_def unat_minus_simple)

definition vfs_read_file :: "disk \<Rightarrow> vfs \<Rightarrow> u8 list \<Rightarrow> u8 list \<Rightarrow> u32 \<Rightarrow> read_result option" where
  "vfs_read_file disk v name buf buf_size =
     (if \<not> available v then Some (False, buf, None)
      else scan_dir disk name (sb_file_count (sb v)) (sb_dir_start_sector (sb v)) buf buf_size)"

section \<open>The image builder\<close>

text \<open>Python integers are unbounded; \<open>pack_I\<close> is \<open>struct.pack("<I", v)\<close>, which raises for a value
  that does not fit. File names are given as bytes, \<open>name.encode("ascii")\<close> raises outside ASCII.\<close>

definition pack_I :: "nat \<Rightarrow> u8 list option" where
  "pack_I v = (if v < 2 ^ 32
     then Some [of_nat (v mod 256), of_nat (v div 256 mod 256), of_nat (v div 65536 mod 256), of_nat (v div 16777216)]
     else None)"

definition ljust :: "nat \<Rightarrow> u8 list \<Rightarrow> u8 list" where
  "ljust n b = b @ replicate (n - length b) 0"

definition encode_ascii :: "u8 list \<Rightarrow> u8 list option" where
  "encode_ascii b = (if \<forall>c \<in> set b. c < 128 then Some b else None)"

definition file_name :: "u8 list \<Rightarrow> u8 list" where
  "file_name path = take (NAME_LEN - 1) (rev (takeWhile (\<lambda>c. c \<noteq> 47) (rev path)))"

definition sectors_of :: "nat \<Rightarrow> nat" where
  "sectors_of n = (n + 512 - 1) div 512"

fun layout_entries :: "nat \<Rightarrow> (u8 list \<times> u8 list) list \<Rightarrow> (u8 list \<times> nat \<times> nat) list" where
  "layout_entries cursor [] = []"
| "layout_entries cursor ((path, data) # files) =
     (file_name path, cursor, length data) # layout_entries (cursor + sectors_of (length data)) files"

definition encode_entry :: "u8 list \<times> nat \<times> nat \<Rightarrow> u8 list option" where
  "encode_entry e = (case e of (name, start_sector, sz) \<Rightarrow> do {
     nm \<leftarrow> encode_ascii name;
     st \<leftarrow> pack_I start_sector;
     szb \<leftarrow> pack_I sz;
     Some (ljust 64 (ljust NAME_LEN nm @ st @ szb)) })"

fun encode_entries :: "(u8 list \<times> nat \<times> nat) list \<Rightarrow> u8 list option" where
  "encode_entries [] = Some []"
| "encode_entries (e # es) = do { b \<leftarrow> encode_entry e; bs \<leftarrow> encode_entries es; Some (b @ bs) }"

definition pad_sector :: "u8 list \<Rightarrow> u8 list" where
  "pad_sector data = data @ replicate (nat ((- int (length data)) mod 512)) 0"

definition mkfs :: "(u8 list \<times> u8 list) list \<Rightarrow> u8 list option" where
  "mkfs files = do {
     let file_count = length files;
     let dir_sectors = (file_count * 64 + 512 - 1) div 512;
     let dir_start = 1;
     let data_start = dir_start + dir_sectors;
     let entries = layout_entries data_start files;
     m \<leftarrow> pack_I 0x4D4B4653; fc \<leftarrow> pack_I file_count; ds \<leftarrow> pack_I dir_start; da \<leftarrow> pack_I data_start;
     dir \<leftarrow> encode_entries entries;
     Some (ljust 512 (m @ fc @ ds @ da) @ ljust (dir_sectors * 512) dir @ concat (map (pad_sector \<circ> snd) files))
   }"

text \<open>Serving an image as a disk: sectors past its end cannot be read.\<close>

definition image_disk :: "u8 list \<Rightarrow> disk" where
  "image_disk img lba = (if (unat lba + 1) * 512 \<le> length img
     then Some (take 512 (drop (unat lba * 512) img)) else None)"

section \<open>Reading a file\<close>

lemma vfs_consts [simp]: "SECTOR_SIZE = 512" "DIR_ENTRY_SIZE = 64" "ENTRIES_PER_SECTOR = 8" "NAME_LEN = 32"
  by (simp_all add: SECTOR_SIZE_def DIR_ENTRY_SIZE_def ENTRIES_PER_SECTOR_def NAME_LEN_def)

declare copy_bytes.simps [simp del] copy_file.simps [simp del] scan_entries.simps [simp del] scan_dir.simps [simp del]

lemma list_update_window:
  assumes "c < length dst" "Suc m \<le> length tmp" "c + Suc m \<le> length dst"
  shows "take (Suc c) (dst[c := tmp ! 0]) @ take m (drop 1 tmp) @ drop (c + Suc m) (dst[c := tmp ! 0])
    = take c dst @ take (Suc m) tmp @ drop (c + Suc m) dst"
proof -
  obtain x xs where "tmp = x # xs" using assms(2) by (cases tmp) auto
  then show ?thesis using assms(1) by (simp add: take_Suc_conv_app_nth)
qed

lemma copy_bytes_spec:
  assumes "b \<le> chunk" "unat copied + unat chunk \<le> length dst" "unat copied + unat chunk < 2 ^ 32"
    "unat chunk \<le> length tmp"
  shows "copy_bytes b chunk copied tmp dst =
    Some (take (unat copied + unat b) dst @ take (unat chunk - unat b) (drop (unat b) tmp)
      @ drop (unat copied + unat chunk) dst)"
  using assms
proof (induction b chunk copied tmp dst rule: copy_bytes.induct)
  case (1 b chunk copied tmp dst)
  show ?case
  proof (cases "b < chunk")
    case True
    then have lt: "unat b < unat chunk" by (simp add: word_less_nat_alt)
    have u: "unat (copied + b) = unat copied + unat b" using lt 1(4) by (simp add: unat_plus_simple)
    have u1: "unat (b + 1) = unat b + 1" using lt u32_lt [of chunk] by (simp add: unat_plus_simple)
    let ?d = "dst[unat copied + unat b := tmp ! unat b]"
    obtain m where m: "unat chunk = unat b + Suc m" using lt less_iff_Suc_add by auto
    have "copy_bytes b chunk copied tmp dst = copy_bytes (b + 1) chunk copied tmp ?d"
      using True lt u 1(3) by (subst copy_bytes.simps) simp
    also have "\<dots> = Some (take (Suc (unat copied + unat b)) ?d @ take m (drop (Suc (unat b)) tmp)
        @ drop (unat copied + unat chunk) ?d)"
      using 1(1) [OF True] lt u u1 1(3-5) m by (simp add: word_le_nat_alt)
    also have "\<dots> = Some (take (unat copied + unat b) dst @ take (Suc m) (drop (unat b) tmp)
        @ drop (unat copied + unat b + Suc m) dst)"
      using list_update_window [of "unat copied + unat b" dst m "drop (unat b) tmp"] 1(3,5)
      by (simp add: m add.assoc)
    finally show ?thesis by (simp add: m add.assoc)
  next
    case False
    then have "b = chunk" using 1(2) by simp
    then show ?thesis by (subst copy_bytes.simps) simp
  qed
qed

lemma window_step:
  assumes "c + k \<le> T" "T \<le> length dst" "T \<le> length D" "k \<le> n"
  defines "dst' \<equiv> take c dst @ take k (take n (drop c D)) @ drop (c + k) dst"
  shows "take (c + k) dst' @ take (T - (c + k)) (drop (c + k) D) @ drop T dst'
    = take c dst @ take (T - c) (drop c D) @ drop T dst" "length dst' = length dst"
proof -
  have k: "take k (take n (drop c D)) = take k (drop c D)" using assms(4) by simp
  have l: "length (take c dst) = c" "length (take k (drop c D)) = k" using assms(1-3) by simp_all
  have "take (c + k) dst' = take c dst @ take k (drop c D)" unfolding dst'_def k using l by simp
  moreover have "drop T dst' = drop T dst" unfolding dst'_def k using l assms(1) by simp
  moreover have "take k (drop c D) @ take (T - (c + k)) (drop (c + k) D) = take (T - c) (drop c D)"
    using take_add [of k "T - (c + k)" "drop c D"] assms(1) by (simp add: add.commute)
  ultimately show "take (c + k) dst' @ take (T - (c + k)) (drop (c + k) D) @ drop T dst'
    = take c dst @ take (T - c) (drop c D) @ drop T dst" by (metis append.assoc)
  show "length dst' = length dst" unfolding dst'_def k using l assms(1,2) by simp
qed

lemma copy_file_step:
  assumes "s < need" "copied < to_copy" "disk (st + s) = Some tmp" "copy_bytes 0 chunk copied tmp dst = Some d"
    and "chunk = (if SECTOR_SIZE < to_copy - copied then SECTOR_SIZE else to_copy - copied)"
  shows "copy_file disk st need to_copy s copied dst = copy_file disk st need to_copy (s + 1) (copied + chunk) d"
  using assms by (subst copy_file.simps) auto

lemma copy_file_spec:
  assumes "\<forall>j < unat need. disk (st + of_nat j) = Some (take 512 (drop (512 * j) D))"
    and "length D = 512 * unat need" "length D < 2 ^ 32" "unat to_copy \<le> length D" "unat to_copy \<le> length dst"
    and "s \<le> need" "unat copied = min (512 * unat s) (unat to_copy)"
  shows "copy_file disk st need to_copy s copied dst =
    Some (True, take (unat copied) dst @ take (unat to_copy - unat copied) (drop (unat copied) D) @ drop (unat to_copy) dst)"
  using assms
proof (induction disk st need to_copy s copied dst rule: copy_file.induct)
  case (1 disk st need to_copy s copied dst)
  note D = 1(2-6) and sn = 1(7) and cop = 1(8)
  show ?case
  proof (cases "s < need \<and> copied < to_copy")
    case True
    then have lt: "unat s < unat need" "unat copied < unat to_copy" by (simp_all add: word_less_nat_alt)
    then have c: "unat copied = 512 * unat s" using cop by simp
    let ?tmp = "take 512 (drop (512 * unat s) D)"
    have tmp: "disk (st + s) = Some ?tmp" using D(1) lt(1) by force
    define chunk where "chunk = (if to_copy - copied > 512 then 512 else to_copy - copied)"
    have ud: "unat (to_copy - copied) = unat to_copy - unat copied" using lt(2) by (simp add: unat_minus_simple)
    have uk: "unat chunk = min 512 (unat to_copy - unat copied)"
      using ud by (simp add: chunk_def word_less_nat_alt)
    have sum: "unat copied + unat chunk \<le> unat to_copy" using uk lt(2) by simp
    have us: "unat (s + 1) = unat s + 1" using lt(1) u32_lt [of need] by (simp add: unat_plus_simple)
    have uc: "unat (copied + chunk) = unat copied + unat chunk"
      using sum u32_lt [of to_copy] by (simp add: unat_plus_simple)
    have "512 * Suc (unat s) \<le> 512 * unat need" using lt(1) by (intro mult_le_mono2) simp
    then have lt512: "length ?tmp = 512" using D(2) by simp
    let ?d = "take (unat copied) dst @ take (unat chunk) ?tmp @ drop (unat copied + unat chunk) dst"
    have cb: "copy_bytes 0 chunk copied ?tmp dst = Some ?d"
      using copy_bytes_spec [of 0 chunk copied dst ?tmp] sum D(3-5) uk lt512 by simp
    have w: "unat copied + unat chunk \<le> unat to_copy" "unat to_copy \<le> length dst" "unat to_copy \<le> length D"
      "unat chunk \<le> 512" using sum D uk by simp_all
    note ws = window_step [OF w, folded c]
    have "copy_file disk st need to_copy s copied dst = copy_file disk st need to_copy (s + 1) (copied + chunk) ?d"
      using True by (intro copy_file_step [of s need copied to_copy disk st, OF _ _ tmp cb]) (simp_all add: chunk_def)
    also have "\<dots> = Some (True, take (unat (copied + chunk)) ?d
        @ take (unat to_copy - unat (copied + chunk)) (drop (unat (copied + chunk)) D) @ drop (unat to_copy) ?d)"
    proof (rule 1(1) [OF True tmp refl _ cb])
      show "chunk = (if SECTOR_SIZE < to_copy - copied then SECTOR_SIZE else to_copy - copied)"
        by (simp add: chunk_def)
      show "unat to_copy \<le> length ?d" using ws(2) D(5) c by simp
      show "unat (copied + chunk) = min (512 * unat (s + 1)) (unat to_copy)" using uc us uk c lt(2) by simp
    qed (use D us lt(1) in \<open>auto simp: word_le_nat_alt\<close>)
    finally show ?thesis using ws(1) uc c by simp
  next
    case False
    then have "unat copied = unat to_copy \<or> s = need"
      using cop sn by (auto simp: word_less_nat_alt word_le_nat_alt word_unat_eq_iff)
    then have "unat copied = unat to_copy" using cop D(2,4) by auto
    then show ?thesis using False by (subst copy_file.simps) auto
  qed
qed

lemma read_entry_spec:
  assumes "\<forall>j < sectors_of (unat (de_size_bytes e)). disk (de_start_sector e + of_nat j) = Some (take 512 (drop (512 * j) D))"
    and "length D = 512 * sectors_of (unat (de_size_bytes e))" "length D < 2 ^ 32"
    and "unat (de_size_bytes e) + 511 < 2 ^ 32" "unat buf_size \<le> length buf"
  shows "read_entry disk e buf buf_size = Some (True,
    take (min (unat (de_size_bytes e)) (unat buf_size)) D @ drop (min (unat (de_size_bytes e)) (unat buf_size)) buf,
    Some (de_size_bytes e))"
proof -
  let ?sz = "de_size_bytes e"
  let ?to = "if ?sz < buf_size then ?sz else buf_size"
  have to: "unat ?to = min (unat ?sz) (unat buf_size)" by (simp add: word_less_nat_alt min_def)
  have "?sz + 512 - 1 = ?sz + 511" by simp
  then have "unat (?sz + 512 - 1) = unat ?sz + 511" using assms(4) by (simp only:) (simp add: unat_plus_simple)
  then have need: "unat ((?sz + 512 - 1) div 512) = sectors_of (unat ?sz)"
    by (simp only: unat_div sectors_of_def) simp
  have "unat ?sz \<le> 512 * sectors_of (unat ?sz)" unfolding sectors_of_def by linarith
  then have "copy_file disk (de_start_sector e) ((?sz + 512 - 1) div 512) ?to 0 0 buf =
    Some (True, take (unat ?to) D @ drop (unat ?to) buf)"
    using copy_file_spec [of "(?sz + 512 - 1) div 512" disk "de_start_sector e" D ?to buf 0 0] assms to need by simp
  then show ?thesis unfolding read_entry_def to by (simp add: Let_def to)
qed

section \<open>Searching the directory\<close>

lemma str_eq_nul:
  "0 \<notin> set a \<Longrightarrow> 0 \<notin> set b \<Longrightarrow> str_eq (a @ 0 # x) (b @ 0 # y) = Some (a = b)"
proof (induction a arbitrary: b)
  case Nil
  then show ?case by (cases b) auto
next
  case (Cons c a)
  then show ?case by (cases b) auto
qed

lemma unat_entry_offset: "unat i < 8 \<Longrightarrow> unat (i * 64 :: u32) = 64 * unat i"
  by (simp add: unat_times_simple mult.commute)

lemma scan_entries_hit:
  assumes "\<forall>j. unat i \<le> j \<and> j < k \<longrightarrow> str_eq (de_name (read_dirent sector (64 * j))) name = Some False"
    and "str_eq (de_name (read_dirent sector (64 * k))) name = Some True"
    and "unat i \<le> k" "k < unat n" "n \<le> 8"
  shows "scan_entries disk name sector n i buf bs = map_option Some (read_entry disk (read_dirent sector (64 * k)) buf bs)"
  using assms
proof (induction disk name sector n i buf bs rule: scan_entries.induct)
  case (1 disk name sector n i buf bs)
  have n8: "unat n \<le> 8" using 1(6) by (simp add: word_le_nat_alt)
  have lt: "i < n" "unat i < 8" using 1(4,5) n8 by (simp_all add: word_less_nat_alt)
  note off = unat_entry_offset [OF lt(2)]
  show ?case
  proof (cases "unat i = k")
    case True
    then show ?thesis using lt off 1(3) by (subst scan_entries.simps) simp
  next
    case False
    then have ik: "unat i < k" using 1(4) by simp
    then have no: "str_eq (de_name (read_dirent sector (64 * unat i))) name = Some False" using 1(2) by simp
    have u: "unat (i + 1) = unat i + 1" using lt(2) by (simp add: unat_plus_simple)
    have "scan_entries disk name sector n (i + 1) buf bs = map_option Some (read_entry disk (read_dirent sector (64 * k)) buf bs)"
      using ik u 1(2-6) no off by (intro 1(1) [OF lt(1) refl]) auto
    then show ?thesis using lt(1) off no by (subst scan_entries.simps) simp
  qed
qed

lemma scan_entries_miss:
  assumes "\<forall>j. unat i \<le> j \<and> j < unat n \<longrightarrow> str_eq (de_name (read_dirent sector (64 * j))) name = Some False" "n \<le> 8"
  shows "scan_entries disk name sector n i buf bs = Some None"
  using assms
proof (induction disk name sector n i buf bs rule: scan_entries.induct)
  case (1 disk name sector n i buf bs)
  have n8: "unat n \<le> 8" using 1(3) by (simp add: word_le_nat_alt)
  show ?case
  proof (cases "i < n")
    case True
    then have lt: "unat i < unat n" by (simp add: word_less_nat_alt)
    note off = unat_entry_offset [of i]
    have no: "str_eq (de_name (read_dirent sector (64 * unat i))) name = Some False" using 1(2) lt by simp
    have u: "unat (i + 1) = unat i + 1" using lt n8 by (simp add: unat_plus_simple)
    have "scan_entries disk name sector n (i + 1) buf bs = Some None"
      using lt n8 u 1(2,3) no off by (intro 1(1) [OF True refl]) auto
    then show ?thesis using True off no lt n8 by (subst scan_entries.simps) simp
  next
    case False
    then show ?thesis by (subst scan_entries.simps) simp
  qed
qed

text \<open>Entry \<open>J\<close> of a directory whose sectors are \<open>f 0\<close>, \<open>f 1\<close>, and so on.\<close>

definition entry_at :: "(nat \<Rightarrow> u8 list) \<Rightarrow> nat \<Rightarrow> dirent" where
  "entry_at f J = read_dirent (f (J div 8)) (64 * (J mod 8))"

lemma entry_at_in: "j < 8 \<Longrightarrow> read_dirent (f q) (64 * j) = entry_at f (8 * q + j)"
  by (simp add: entry_at_def)

lemma scan_dir_found:
  assumes "remaining > 0" "disk ds = Some sector" "n = (if remaining < 8 then remaining else 8)"
    and "scan_entries disk name sector n 0 buf bs = map_option Some r"
  shows "scan_dir disk name remaining ds buf bs = r"
  using assms by (subst scan_dir.simps) (cases r; auto)

lemma scan_dir_next:
  assumes "remaining > 0" "disk ds = Some sector" "n = (if remaining < 8 then remaining else 8)"
    and "scan_entries disk name sector n 0 buf bs = Some None"
  shows "scan_dir disk name remaining ds buf bs = scan_dir disk name (remaining - n) (ds + 1) buf bs"
  using assms by (subst scan_dir.simps) auto

lemma scan_dir_hit:
  assumes sect: "\<forall>q \<le> K div 8. disk (dir + of_nat q) = Some (f q)"
    and miss: "\<forall>J < K. str_eq (de_name (entry_at f J)) name = Some False"
    and hit: "str_eq (de_name (entry_at f K)) name = Some True"
    and K: "K < N" "N < 2 ^ 32" "8 * q \<le> K"
  shows "scan_dir disk name (of_nat (N - 8 * q)) (dir + of_nat q) buf bs = read_entry disk (entry_at f K) buf bs"
  using K(3)
proof (induction "K div 8 - q" arbitrary: q)
  case 0
  then have q: "q = K div 8" by simp
  let ?r = "of_nat (N - 8 * q) :: u32"
  let ?n = "if ?r < 8 then ?r else 8"
  have ur: "unat ?r = N - 8 * q" using K(2) by (simp add: unat_of_nat_eq)
  have r0: "?r > 0" using ur K(1) 0(2) by (simp add: word_less_nat_alt)
  have Kq: "K = 8 * q + K mod 8" "K mod 8 < 8" using q by simp_all
  then have "K mod 8 < N - 8 * q" using K(1) by linarith
  then have kn: "K mod 8 < unat ?n" using ur by (simp add: word_less_nat_alt)
  have n8: "?n \<le> 8" by (auto simp: word_less_nat_alt word_le_nat_alt)
  have e: "read_dirent (f q) (64 * (K mod 8)) = entry_at f K" by (simp add: entry_at_def q)
  have "scan_entries disk name (f q) ?n 0 buf bs = map_option Some (read_entry disk (read_dirent (f q) (64 * (K mod 8))) buf bs)"
  proof (rule scan_entries_hit [OF _ _ _ kn n8])
    show "str_eq (de_name (read_dirent (f q) (64 * (K mod 8)))) name = Some True" using hit e by simp
    show "\<forall>j. unat (0 :: u32) \<le> j \<and> j < K mod 8 \<longrightarrow> str_eq (de_name (read_dirent (f q) (64 * j))) name = Some False"
    proof (intro allI impI)
      fix j assume j: "unat (0 :: u32) \<le> j \<and> j < K mod 8"
      then have "j < 8" "8 * q + j < K" using Kq by linarith+
      then show "str_eq (de_name (read_dirent (f q) (64 * j))) name = Some False" using miss by (simp add: entry_at_in)
    qed
  qed simp
  from scan_dir_found [OF r0 _ _ this] show ?case using sect q e by simp
next
  case (Suc x)
  then have q: "q < K div 8" by simp
  then have more: "8 * Suc q \<le> K" by simp
  let ?r = "of_nat (N - 8 * q) :: u32"
  have ur: "unat ?r = N - 8 * q" using K(2) by (simp add: unat_of_nat_eq)
  have r8: "\<not> ?r < 8" "?r > 0" using ur K(1) more by (simp_all add: word_less_nat_alt)
  have "scan_entries disk name (f q) 8 0 buf bs = Some None"
  proof (rule scan_entries_miss)
    show "\<forall>j. unat (0 :: u32) \<le> j \<and> j < unat (8 :: u32) \<longrightarrow> str_eq (de_name (read_dirent (f q) (64 * j))) name = Some False"
    proof (intro allI impI)
      fix j assume j: "unat (0 :: u32) \<le> j \<and> j < unat (8 :: u32)"
      then have "j < 8" "8 * q + j < K" using more by auto
      then show "str_eq (de_name (read_dirent (f q) (64 * j))) name = Some False" using miss by (simp add: entry_at_in)
    qed
  qed simp
  moreover have "disk (dir + of_nat q) = Some (f q)" using sect q by simp
  moreover have "?r - 8 = of_nat (N - 8 * Suc q)" using more K(1) by (simp add: of_nat_diff)
  moreover have "dir + of_nat q + 1 = dir + of_nat (Suc q)" by simp
  moreover have "scan_dir disk name (of_nat (N - 8 * Suc q)) (dir + of_nat (Suc q)) buf bs = read_entry disk (entry_at f K) buf bs"
    using Suc.hyps(1) [of "Suc q"] Suc.hyps(2) more by simp
  ultimately show ?case using r8 by (subst scan_dir.simps) (simp add: add.commute add.left_commute)
qed

lemma scan_dir_miss:
  assumes sect: "\<forall>q < (N + 7) div 8. disk (dir + of_nat q) = Some (f q)"
    and miss: "\<forall>J < N. str_eq (de_name (entry_at f J)) name = Some False" and N: "N < 2 ^ 32"
  shows "scan_dir disk name (of_nat (N - 8 * q)) (dir + of_nat q) buf bs = Some (False, buf, None)"
proof (induction "N - 8 * q" arbitrary: q rule: less_induct)
  case less
  let ?r = "of_nat (N - 8 * q) :: u32"
  let ?n = "if ?r < 8 then ?r else 8"
  have ur: "unat ?r = N - 8 * q" using N by (simp add: unat_of_nat_eq)
  show ?case
  proof (cases "8 * q < N")
    case False
    then show ?thesis by (subst scan_dir.simps) simp
  next
    case True
    then have r0: "?r > 0" using ur by (simp add: word_less_nat_alt)
    have un: "unat ?n = min 8 (N - 8 * q)" using ur by (simp add: word_less_nat_alt)
    have q: "disk (dir + of_nat q) = Some (f q)" using sect True by simp
    have se: "scan_entries disk name (f q) ?n 0 buf bs = Some None"
    proof (rule scan_entries_miss)
      show "\<forall>j. unat (0 :: u32) \<le> j \<and> j < unat ?n \<longrightarrow> str_eq (de_name (read_dirent (f q) (64 * j))) name = Some False"
      proof (intro allI impI)
        fix j assume "unat (0 :: u32) \<le> j \<and> j < unat ?n"
        then have "j < 8" "8 * q + j < N" using un by auto
        then show "str_eq (de_name (read_dirent (f q) (64 * j))) name = Some False" using miss by (simp add: entry_at_in)
      qed
    qed (simp add: word_less_nat_alt word_le_nat_alt)
    have rn: "?r - ?n = of_nat (N - 8 * Suc q)"
    proof (rule word_unat_eq_iff [THEN iffD2])
      have "unat (?r - ?n) = unat ?r - unat ?n" using ur un by (intro unat_minus_simple) simp
      moreover have "unat (of_nat (N - 8 * Suc q) :: u32) = N - 8 * Suc q" using N by (intro unat_of_nat_eq) simp
      moreover have "N - 8 * q - min 8 (N - 8 * q) = N - 8 * Suc q" by simp
      ultimately show "unat (?r - ?n) = unat (of_nat (N - 8 * Suc q) :: u32)" unfolding un ur by (simp only:)
    qed
    have "scan_dir disk name (of_nat (N - 8 * Suc q)) (dir + of_nat (Suc q)) buf bs = Some (False, buf, None)"
      using True by (intro less) simp
    then have "scan_dir disk name (?r - ?n) (dir + of_nat q + 1) buf bs = Some (False, buf, None)"
      unfolding rn by (simp add: add.commute add.left_commute)
    then show ?thesis using scan_dir_next [of ?r disk "dir + of_nat q" "f q" ?n name buf bs, OF r0 q refl se] by simp
  qed
qed

section \<open>What the image builder writes\<close>

lemma pack_I_length: "pack_I v = Some b \<Longrightarrow> length b = 4"
  by (auto simp: pack_I_def split: if_splits)

lemma bytes_sum:
  fixes v a b c r0 r1 r2 :: nat
  assumes "v = a * 256 + r0" "a = b * 256 + r1" "b = c * 256 + r2"
  shows "r0 + 256 * r1 + 65536 * r2 + 16777216 * c = v"
  unfolding assms by simp

lemma le32_pack_I:
  assumes "pack_I v = Some b"
  shows "le32 (xs @ b @ ys) (length xs) = of_nat v"
proof -
  have b: "b = [of_nat (v mod 256), of_nat (v div 256 mod 256), of_nat (v div 65536 mod 256), of_nat (v div 16777216)]"
    and v: "v < 4294967296" using assms by (auto simp: pack_I_def split: if_splits)
  have u: "ucast (of_nat n :: u8) = (of_nat n :: u32)" if "n < 256" for n
    using that by (simp add: word_unat_eq_iff unat_of_nat_eq unsigned_ucast_eq take_bit_nat_eq_self_iff)
  have d: "v div 16777216 < 256" using v by (simp add: less_mult_imp_div_less)
  have "le32 (xs @ b @ ys) (length xs) = of_nat (v mod 256) + 256 * of_nat (v div 256 mod 256)
      + 65536 * of_nat (v div 65536 mod 256) + 16777216 * of_nat (v div 16777216)"
    unfolding le32_def b by (simp add: nth_append u d)
  also have "\<dots> = of_nat (v mod 256 + 256 * (v div 256 mod 256) + 65536 * (v div 65536 mod 256) + 16777216 * (v div 16777216))"
    by simp
  also have "v mod 256 + 256 * (v div 256 mod 256) + 65536 * (v div 65536 mod 256) + 16777216 * (v div 16777216) = v"
  proof -
    have d: "v div 65536 = v div 256 div 256" "v div 16777216 = v div 256 div 256 div 256"
      by (simp_all add: div_mult2_eq [symmetric])
    show ?thesis unfolding d by (rule bytes_sum) simp_all
  qed
  finally show ?thesis .
qed

lemma ljust_length: "length b \<le> n \<Longrightarrow> length (ljust n b) = n"
  by (simp add: ljust_def)

lemma file_name_short: "length (file_name p) \<le> 31"
  by (simp add: file_name_def)

lemma file_name_subset: "set (file_name p) \<subseteq> set p"
  using set_take_subset [of 31 "rev (takeWhile (\<lambda>c. c \<noteq> 47) (rev p))"] set_takeWhileD
  unfolding file_name_def by fastforce

lemma sectors_of_bounds: "n \<le> 512 * sectors_of n" "512 * sectors_of n < n + 512"
  unfolding sectors_of_def by linarith+

lemma sectors_of_split: "n = 512 * q + r \<Longrightarrow> 0 < r \<Longrightarrow> r < 512 \<Longrightarrow> sectors_of n = Suc q"
  unfolding sectors_of_def by (intro div_nat_eqI) simp_all

lemma pad_to_sector: "n = 512 * q + r \<Longrightarrow> r < 512 \<Longrightarrow>
    n + (if r = 0 then 0 else 512 - r) = 512 * (if r = 0 then q else Suc q)"
  by simp

lemma pad_sector_length: "length (pad_sector d) = 512 * sectors_of (length d)"
proof -
  let ?n = "length d"
  have n: "?n = 512 * (?n div 512) + ?n mod 512" "?n mod 512 < 512" by simp_all
  have "int ?n mod 512 = int (?n mod 512)" by (simp add: zmod_int)
  then have "(- int ?n) mod 512 = (if ?n mod 512 = 0 then 0 else 512 - int (?n mod 512))"
    using zmod_zminus1_eq_if [of "int ?n" 512] by simp
  then have "nat ((- int ?n) mod 512) = (if ?n mod 512 = 0 then 0 else 512 - ?n mod 512)"
    by (simp only: split: if_split) (simp add: nat_diff_distrib)
  moreover have "sectors_of ?n = (if ?n mod 512 = 0 then ?n div 512 else Suc (?n div 512))"
  proof (cases "?n mod 512 = 0")
    case True
    then show ?thesis unfolding sectors_of_def using n by (intro div_nat_eqI) simp_all
  next
    case False
    then have "sectors_of ?n = Suc (?n div 512)"
      using sectors_of_split [OF n(1) _ n(2)] by simp
    then show ?thesis using False by simp
  qed
  moreover have "?n + (if ?n mod 512 = 0 then 0 else 512 - ?n mod 512)
      = 512 * (if ?n mod 512 = 0 then ?n div 512 else Suc (?n div 512))"
    using pad_to_sector [OF n] by simp
  ultimately show ?thesis unfolding pad_sector_def by (simp only: length_append length_replicate)
qed

lemma encode_entry_shape:
  assumes "encode_entry (nm, st, sz) = Some b" "length nm \<le> 31"
  shows "length b = 64" "\<exists>z. b = nm @ 0 # z" "st < 2 ^ 32" "sz < 2 ^ 32"
    "le32 (b @ ys) 32 = of_nat st" "le32 (b @ ys) 36 = of_nat sz"
proof -
  obtain s1 s2 where s: "pack_I st = Some s1" "pack_I sz = Some s2" "b = ljust 64 (ljust 32 nm @ s1 @ s2)"
    using assms(1) by (auto simp: encode_entry_def encode_ascii_def bind_eq_Some_conv split: if_splits)
  have l: "length (ljust 32 nm) = 32" using assms(2) by (simp add: ljust_length)
  note p = pack_I_length [OF s(1)] pack_I_length [OF s(2)]
  show "length b = 64" unfolding s(3) using l p by (simp add: ljust_def)
  have "ljust 32 nm = nm @ 0 # replicate (31 - length nm) 0"
    using assms(2) by (simp add: ljust_def Suc_diff_le replicate_Suc [symmetric] del: replicate_Suc)
  then show "\<exists>z. b = nm @ 0 # z" unfolding s(3) ljust_def [of 64] by simp
  show "st < 2 ^ 32" "sz < 2 ^ 32" using s(1,2) by (auto simp: pack_I_def split: if_splits)
  show "le32 (b @ ys) 32 = of_nat st" "le32 (b @ ys) 36 = of_nat sz"
    using le32_pack_I [OF s(1), of "ljust 32 nm"] le32_pack_I [OF s(2), of "ljust 32 nm @ s1"] l p
    unfolding s(3) ljust_def [of 64] by simp_all
qed

lemma encode_entries_append:
  "encode_entries (xs @ ys) = do { a \<leftarrow> encode_entries xs; b \<leftarrow> encode_entries ys; Some (a @ b) }"
  by (induction xs) (auto simp: Option.bind_assoc split: Option.bind_split)

lemma encode_entries_length:
  "encode_entries es = Some b \<Longrightarrow> \<forall>e \<in> set es. length (fst e) \<le> 31 \<Longrightarrow> length b = 64 * length es"
proof (induction es arbitrary: b)
  case (Cons e es)
  obtain nm st sz where e: "e = (nm, st, sz)" by (cases e)
  obtain b1 b2 where "encode_entry (nm, st, sz) = Some b1" "encode_entries es = Some b2" "b = b1 @ b2"
    using Cons.prems(1) e by (auto simp: bind_eq_Some_conv)
  then show ?case using Cons.IH Cons.prems(2) e encode_entry_shape(1) by auto
qed simp

definition cursor_after :: "nat \<Rightarrow> (u8 list \<times> u8 list) list \<Rightarrow> nat" where
  "cursor_after c files = c + sum_list (map (sectors_of \<circ> length \<circ> snd) files)"

lemma layout_entries_append:
  "layout_entries c (xs @ ys) = layout_entries c xs @ layout_entries (cursor_after c xs) ys"
  by (induction xs arbitrary: c) (auto simp: cursor_after_def add.assoc)

lemma layout_entries_names: "e \<in> set (layout_entries c files) \<Longrightarrow> length (fst e) \<le> 31"
  by (induction c files rule: layout_entries.induct) (auto simp: file_name_short)

lemma layout_entries_length [simp]: "length (layout_entries c files) = length files"
  by (induction c files rule: layout_entries.induct) auto

lemma data_length: "length (concat (map (pad_sector \<circ> snd) files)) = 512 * (cursor_after 0 files)"
  by (induction files) (auto simp: cursor_after_def pad_sector_length)

lemma mkfs_parts:
  assumes "mkfs files = Some img"
  obtains S0 dir dsec where "dsec = (length files * 64 + 511) div 512"
    "img = S0 @ ljust (dsec * 512) dir @ concat (map (pad_sector \<circ> snd) files)" "length S0 = 512"
    "encode_entries (layout_entries (1 + dsec) files) = Some dir" "length dir = 64 * length files"
    "length (ljust (dsec * 512) dir) = 512 * dsec" "1 + dsec < 2 ^ 32" "length files < 2 ^ 32"
    "le32 S0 0 = MKFS_MAGIC" "le32 S0 4 = of_nat (length files)" "le32 S0 8 = 1"
proof -
  define dsec where "dsec = (length files * 64 + 511) div 512"
  have eq: "length files * 64 + 512 - 1 = length files * 64 + 511" by simp
  obtain m fc st da dir where p: "pack_I 0x4D4B4653 = Some m" "pack_I (length files) = Some fc" "pack_I 1 = Some st"
    "pack_I (1 + dsec) = Some da" "encode_entries (layout_entries (1 + dsec) files) = Some dir"
    "img = ljust 512 (m @ fc @ st @ da) @ ljust (dsec * 512) dir @ concat (map (pad_sector \<circ> snd) files)"
    using assms unfolding mkfs_def Let_def eq dsec_def [symmetric] by (auto simp: bind_eq_Some_conv)
  note l = p(1-4) [THEN pack_I_length]
  let ?S = "ljust 512 (m @ fc @ st @ da)"
  have dl: "length dir = 64 * length files"
    using encode_entries_length [OF p(5)] layout_entries_names by auto
  have "64 * length files \<le> 512 * dsec" unfolding dsec_def by linarith
  then have "length (ljust (dsec * 512) dir) = 512 * dsec" using dl by (simp add: ljust_def)
  moreover have "length ?S = 512" using l by (simp add: ljust_def)
  moreover have "1 + dsec < 2 ^ 32" "length files < 2 ^ 32"
    using p(2,4) by (auto simp: pack_I_def split: if_splits)
  moreover have "le32 ?S 0 = MKFS_MAGIC" "le32 ?S 4 = of_nat (length files)" "le32 ?S 8 = 1"
    using le32_pack_I [OF p(1), of "[]"] le32_pack_I [OF p(2), of m] le32_pack_I [OF p(3), of "m @ fc"] l
    by (simp_all add: ljust_def MKFS_MAGIC_def)
  ultimately show thesis using that [OF dsec_def p(6) _ p(5) dl] by blast
qed

lemma image_disk_at:
  assumes "img = A @ M @ Z" "length A = 512 * k" "j * 512 + 512 \<le> length M" "length img \<le> 512 * 2 ^ 32" "unat lba = k + j"
  shows "image_disk img lba = Some (take 512 (drop (512 * j) M))"
proof -
  have "drop (unat lba * 512) img = drop (512 * j) (M @ Z)"
    using assms(1,2,5) by (simp add: algebra_simps)
  then have "take 512 (drop (unat lba * 512) img) = take 512 (drop (512 * j) M)" using assms(3) by simp
  moreover have "(unat lba + 1) * 512 \<le> length img" using assms(1-3,5) by (simp add: algebra_simps)
  ultimately show ?thesis by (simp add: image_disk_def)
qed

lemma le32_drop: "off \<le> length b \<Longrightarrow> le32 b (off + k) = le32 (drop off b) k"
  by (simp add: le32_def add.assoc)

lemma read_dirent_drop:
  "off \<le> length b \<Longrightarrow> read_dirent b off = \<lparr>de_name = drop off b, de_start_sector = le32 (drop off b) 32,
     de_size_bytes = le32 (drop off b) 36\<rparr>"
  using le32_drop [of off b 32] le32_drop [of off b 36] by (simp add: read_dirent_def add.assoc)

text \<open>Entry \<open>J\<close> of the directory as the reader sees it.\<close>

lemma entry_at_mkfs:
  assumes "files = ys @ (path, d) # zs" "encode_entries (layout_entries c files) = Some dir"
    and "64 * length files \<le> 512 * dsec" "length files = N"
  defines "f \<equiv> \<lambda>q. take 512 (drop (512 * q) (ljust (dsec * 512) dir))"
  shows "\<exists>z. de_name (entry_at f (length ys)) = file_name path @ 0 # z"
    "de_start_sector (entry_at f (length ys)) = of_nat (cursor_after c ys)"
    "de_size_bytes (entry_at f (length ys)) = of_nat (length d)" "length d < 2 ^ 32"
proof -
  let ?J = "length ys"
  obtain b1 e b2 where e: "encode_entries (layout_entries c ys) = Some b1"
    "encode_entry (file_name path, cursor_after c ys, length d) = Some e" "dir = b1 @ e @ b2"
    using assms(2) by (auto simp: assms(1) layout_entries_append encode_entries_append bind_eq_Some_conv)
  note sh = encode_entry_shape [OF e(2) file_name_short]
  have lb: "length b1 = 64 * ?J" using encode_entries_length [OF e(1)] layout_entries_names by auto
  have ld: "length dir = 64 * length files" using encode_entries_length [OF assms(2)] layout_entries_names by auto
  have J: "512 * (?J div 8) + 64 * (?J mod 8) = 64 * ?J" "64 * (?J mod 8) + 64 \<le> 512"
    using mult_div_mod_eq [of 8 ?J] by linarith+
  have "?J < length files" by (simp add: assms(1))
  then have "?J div 8 < dsec" using assms(3) by (intro less_mult_imp_div_less) simp
  then have "512 * (?J div 8) + 512 \<le> 512 * dsec" by simp
  then have fl: "length (f (?J div 8)) = 512" unfolding f_def using ld assms(3) by (simp add: ljust_def)
  have "drop (64 * (?J mod 8)) (f (?J div 8)) = take (512 - 64 * (?J mod 8)) (drop (64 * ?J) (ljust (dsec * 512) dir))"
    unfolding f_def using J(1) by (simp add: drop_take add.commute)
  also have "drop (64 * ?J) (ljust (dsec * 512) dir) = e @ b2 @ replicate (dsec * 512 - length dir) 0"
    unfolding ljust_def e(3) using lb by simp
  finally have dr: "drop (64 * (?J mod 8)) (f (?J div 8)) = e @ take (512 - 64 * (?J mod 8) - 64) (b2 @ replicate (dsec * 512 - length dir) 0)"
    using J(2) sh(1) by simp
  have r: "entry_at f ?J = \<lparr>de_name = drop (64 * (?J mod 8)) (f (?J div 8)),
      de_start_sector = le32 (drop (64 * (?J mod 8)) (f (?J div 8))) 32,
      de_size_bytes = le32 (drop (64 * (?J mod 8)) (f (?J div 8))) 36\<rparr>"
    unfolding entry_at_def using fl J(2) by (intro read_dirent_drop) simp
  show "\<exists>z. de_name (entry_at f ?J) = file_name path @ 0 # z" using sh(2) unfolding r dr by auto
  show "de_start_sector (entry_at f ?J) = of_nat (cursor_after c ys)"
    "de_size_bytes (entry_at f ?J) = of_nat (length d)" unfolding r dr using sh(5,6) by simp_all
  show "length d < 2 ^ 32" using sh(4) .
qed

section \<open>Properties\<close>

text \<open>The disk may have more sectors than the image.\<close>

lemma mkfs_read_back:
  assumes mk: "mkfs files = Some img" and files: "files = ys @ (path, d) # zs"
    and first: "file_name path \<notin> file_name ` fst ` set ys"
    and nul: "\<forall>f \<in> set files. 0 \<notin> set (fst f)"
    and dk: "image_disk img \<subseteq>\<^sub>m dk"
    and size: "length img \<le> 512 * 2 ^ 32" "length d + 511 < 2 ^ 32" and buf: "unat buf_size \<le> length buf"
  shows "vfs_read_file dk (vfs_init True dk v) (file_name path @ [0]) buf buf_size =
    Some (True, take (min (length d) (unat buf_size)) d @ drop (min (length d) (unat buf_size)) buf,
      Some (of_nat (length d)))"
proof -
  obtain S0 dir dsec where p: "dsec = (length files * 64 + 511) div 512"
    "img = S0 @ ljust (dsec * 512) dir @ concat (map (pad_sector \<circ> snd) files)" "length S0 = 512"
    "encode_entries (layout_entries (1 + dsec) files) = Some dir" "length dir = 64 * length files"
    "length (ljust (dsec * 512) dir) = 512 * dsec" "1 + dsec < 2 ^ 32" "length files < 2 ^ 32"
    "le32 S0 0 = MKFS_MAGIC" "le32 S0 4 = of_nat (length files)" "le32 S0 8 = 1"
    by (rule mkfs_parts [OF mk])
  let ?dk = dk and ?K = "length ys"
  define f where "f = (\<lambda>q. take 512 (drop (512 * q) (ljust (dsec * 512) dir)))"
  have sees: "dk l = Some x" if "image_disk img l = Some x" for l x using dk that by (auto simp: map_le_def dom_def)
  have cap: "64 * length files \<le> 512 * dsec" unfolding p(1) by linarith
  have "image_disk img 0 = Some (take 512 (drop (512 * 0) S0))"
    using image_disk_at [of img "[]" S0 _ 0 0 0] p(2,3) size(1) by simp
  then have s0: "?dk 0 = Some S0" using p(3) sees by simp
  let ?v = "vfs_init True ?dk v"
  have v: "available ?v" "sb_file_count (sb ?v) = of_nat (length files)" "sb_dir_start_sector (sb ?v) = 1"
    using s0 p(9-11) by (simp_all add: vfs_init_def read_superblock_def Let_def)
  have sect: "?dk (1 + of_nat q) = Some (f q)" if "q < dsec" for q
  proof -
    have "unat (1 + of_nat q :: u32) = 1 + q" using that p(7) by (simp add: unat_plus_simple unat_of_nat_eq)
    moreover have "q * 512 + 512 \<le> length (ljust (dsec * 512) dir)" using that p(6) by simp
    ultimately show ?thesis unfolding f_def using image_disk_at [OF p(2), of 1 q] p(3) size(1) sees by simp
  qed
  have nulf: "0 \<notin> set (file_name (fst x))" if "x \<in> set files" for x
    using nul that file_name_subset by blast
  note K = entry_at_mkfs [OF files p(4) cap refl, folded f_def]
  have hit: "str_eq (de_name (entry_at f ?K)) (file_name path @ [0]) = Some True"
  proof -
    obtain z where z: "de_name (entry_at f ?K) = file_name path @ 0 # z" using K(1) by blast
    have "0 \<notin> set (file_name path)" using nulf [of "(path, d)"] by (simp add: files)
    then show ?thesis unfolding z using str_eq_nul [of "file_name path" "file_name path" z "[]"] by simp
  qed
  have miss: "str_eq (de_name (entry_at f J)) (file_name path @ [0]) = Some False" if J: "J < ?K" for J
  proof -
    let ?x = "ys ! J"
    have x: "files = take J ys @ (fst ?x, snd ?x) # (drop (Suc J) ys @ (path, d) # zs)" "?x \<in> set ys"
      using files J id_take_nth_drop [of J ys] by auto
    have "length (take J ys) = J" using J by simp
    then obtain z where z: "de_name (entry_at f J) = file_name (fst ?x) @ 0 # z"
      using entry_at_mkfs(1) [OF x(1) p(4) cap refl, folded f_def] by auto
    have "file_name (fst ?x) \<in> file_name ` fst ` set ys" using x(2) by (intro imageI)
    then have "file_name (fst ?x) \<noteq> file_name path" using first by metis
    moreover have "0 \<notin> set (file_name (fst ?x))" "0 \<notin> set (file_name path)"
      using nulf [of ?x] nulf [of "(path, d)"] x(2) files by auto
    ultimately show ?thesis unfolding z
      using str_eq_nul [of "file_name (fst ?x)" "file_name path" z "[]"] by simp
  qed
  have K8: "?K div 8 < dsec" using cap files by simp
  have "scan_dir ?dk (file_name path @ [0]) (of_nat (length files - 8 * 0)) (1 + of_nat 0) buf buf_size
      = read_entry ?dk (entry_at f ?K) buf buf_size"
    using scan_dir_hit [of ?K ?dk 1 f "file_name path @ [0]" "length files" 0 buf buf_size] sect K8 hit miss p(8) files by simp
  then have run: "vfs_read_file ?dk ?v (file_name path @ [0]) buf buf_size = read_entry ?dk (entry_at f ?K) buf buf_size"
    using v by (simp add: vfs_read_file_def)
  let ?e = "entry_at f ?K" and ?D = "pad_sector d"
  have ud: "unat (de_size_bytes ?e) = length d" using K(3,4) by (simp add: unat_of_nat_eq)
  have data: "img = (S0 @ ljust (dsec * 512) dir @ concat (map (pad_sector \<circ> snd) ys)) @ ?D @ concat (map (pad_sector \<circ> snd) zs)"
    unfolding p(2) files by simp
  have dlen: "length (S0 @ ljust (dsec * 512) dir @ concat (map (pad_sector \<circ> snd) ys)) = 512 * cursor_after (1 + dsec) ys"
    using p(3,6) data_length [of ys] by (simp add: cursor_after_def)
  have "?dk (de_start_sector ?e + of_nat j) = Some (take 512 (drop (512 * j) ?D))" if j: "j < sectors_of (length d)" for j
  proof -
    have "j * 512 + 512 \<le> length ?D" using j by (simp add: pad_sector_length)
    moreover from this have "512 * (cursor_after (1 + dsec) ys + j) + 512 \<le> length img"
      using arg_cong [OF data, of length] dlen by simp
    then have "512 * (cursor_after (1 + dsec) ys + j) + 512 \<le> 512 * 2 ^ 32" using size(1) by (rule order_trans)
    then have "cursor_after (1 + dsec) ys + j < 2 ^ 32" by simp
    then have "unat (de_start_sector ?e + of_nat j) = cursor_after (1 + dsec) ys + j"
      unfolding K(2) by (simp add: unat_of_nat_eq flip: of_nat_add)
    ultimately show ?thesis using image_disk_at [OF data dlen _ size(1)] sees by blast
  qed
  then have "read_entry ?dk ?e buf buf_size = Some (True,
      take (min (length d) (unat buf_size)) ?D @ drop (min (length d) (unat buf_size)) buf, Some (de_size_bytes ?e))"
    using read_entry_spec [of ?e ?dk ?D buf_size buf] ud size(2) buf sectors_of_bounds(2) [of "length d"]
    by (simp add: pad_sector_length)
  then show ?thesis using run K(3) by (simp add: pad_sector_def)
qed

text \<open>Property C20. The reader and the image builder agree: for every file put into an image by
  \<^verbatim>\<open>tools/mkfs.py\<close>, after \<open>vfs_init\<close> on that image, \<open>vfs_read_file\<close> with the (truncated) base name
  succeeds, delivers the first \<open>buf_size\<close> bytes of the file, leaves the rest of the buffer alone and
  reports the true size. Names contain no NUL, the file is the first of its name, the image has at
  most \<open>2 ^ 32\<close> sectors and the file is at least 512 bytes short of 4 GB.\<close>

theorem mkfs_vfs_round_trip:
  assumes mk: "mkfs files = Some img" and files: "files = ys @ (path, d) # zs"
    and first: "file_name path \<notin> file_name ` fst ` set ys"
    and nul: "\<forall>f \<in> set files. 0 \<notin> set (fst f)"
    and size: "length img \<le> 512 * 2 ^ 32" "length d + 511 < 2 ^ 32" and buf: "unat buf_size \<le> length buf"
  shows "vfs_read_file (image_disk img) (vfs_init True (image_disk img) v) (file_name path @ [0]) buf buf_size =
    Some (True, take (min (length d) (unat buf_size)) d @ drop (min (length d) (unat buf_size)) buf,
      Some (of_nat (length d)))"
  using mkfs_read_back [OF mk files first nul map_le_refl size buf] .

text \<open>Two small files, \<open>a\<close> and \<open>b\<close>; the second is read into a buffer of four bytes.\<close>

definition demo_files :: "(u8 list \<times> u8 list) list" where
  "demo_files = [([97], [1, 2, 3]), ([47, 98], [7, 8])]"

lemma demo_mkfs: "\<exists>img. mkfs demo_files = Some img \<and> length img = 2048"
  by (simp add: mkfs_def demo_files_def pack_I_def encode_entry_def encode_ascii_def file_name_def ljust_def
      pad_sector_def sectors_of_def Let_def)

theorem mkfs_vfs_round_trip_witness:
  "\<exists>img. mkfs demo_files = Some img \<and>
     vfs_read_file (image_disk img) (vfs_init True (image_disk img) \<lparr>available = False, sb = undefined\<rparr>)
       [98, 0] [0, 0, 0, 0] 4 = Some (True, [7, 8, 0, 0], Some 2)"
proof -
  obtain img where img: "mkfs demo_files = Some img" "length img = 2048" using demo_mkfs by blast
  have "vfs_read_file (image_disk img) (vfs_init True (image_disk img) \<lparr>available = False, sb = undefined\<rparr>)
      (file_name [47, 98] @ [0]) [0, 0, 0, 0] 4 = Some (True, take (min (length [7, 8 :: u8]) (unat (4 :: u32))) [7, 8]
        @ drop (min (length [7, 8 :: u8]) (unat (4 :: u32))) [0, 0, 0, 0], Some (of_nat (length [7, 8 :: u8])))"
    by (rule mkfs_vfs_round_trip [OF img(1), of "[([97], [1, 2, 3])]" _ _ "[]"])
      (use img(2) in \<open>simp_all add: demo_files_def file_name_def\<close>)
  then show ?thesis using img(1) by (simp add: file_name_def)
qed

text \<open>A name that no directory entry carries is reported as absent: if all entries of a
  readable directory compare unequal, \<open>vfs_read_file\<close> returns false without touching the buffer; it
  also does so when the file system was never found.\<close>

theorem vfs_read_missing:
  assumes "\<forall>q < (N + 7) div 8. disk (sb_dir_start_sector (sb v) + of_nat q) = Some (f q)"
    and "\<forall>J < N. str_eq (de_name (entry_at f J)) name = Some False"
    and "sb_file_count (sb v) = of_nat N" "N < 2 ^ 32"
  shows "vfs_read_file disk v name buf buf_size = Some (False, buf, None)"
proof -
  have "scan_dir disk name (of_nat (N - 8 * q)) (sb_dir_start_sector (sb v) + of_nat q) buf buf_size = Some (False, buf, None)" for q
    by (rule scan_dir_miss [OF assms(1,2,4)])
  from this [of 0] show ?thesis using assms(3) by (simp add: vfs_read_file_def)
qed

theorem vfs_read_missing_witness:
  "vfs_read_file (\<lambda>_. None) \<lparr>available = True, sb = \<lparr>sb_magic = MKFS_MAGIC, sb_file_count = 0,
     sb_dir_start_sector = 1, sb_data_start_sector = 1\<rparr>\<rparr> [98, 0] [5] 1 = Some (False, [5], None)"
  by (rule vfs_read_missing [of 0]) simp_all

text \<open>A file whose directory entry claims a size within 511 bytes of 4 GB is reported as
  read successfully although not a single byte is copied: \<open>size + SECTOR_SIZE - 1\<close> wraps and no
  sector is considered needed.\<close>

theorem vfs_read_huge_file_copies_nothing:
  assumes "2 ^ 32 - 511 \<le> unat (de_size_bytes e)"
  shows "read_entry disk e buf buf_size = Some (True, buf, Some (de_size_bytes e))"
proof -
  have "unat (de_size_bytes e + 511) = unat (de_size_bytes e) + 511 - 2 ^ 32"
    using assms u32_lt [of "de_size_bytes e"] by (simp add: unat_word_ariths mod_if)
  then have "unat (de_size_bytes e + 511) < 512" using u32_lt [of "de_size_bytes e"] by simp
  then have "unat ((de_size_bytes e + 511) div 512) = 0" by (simp add: unat_div)
  then have "(de_size_bytes e + 512 - 1) div 512 = 0" by (simp add: unat_eq_0 add.commute)
  then show ?thesis unfolding read_entry_def Let_def vfs_consts by (subst copy_file.simps) simp
qed

theorem vfs_read_huge_file_copies_nothing_witness:
  "read_entry (\<lambda>_. None) \<lparr>de_name = [98, 0], de_start_sector = 2, de_size_bytes = 0xFFFFFFFF\<rparr> [5] 1
     = Some (True, [5], Some 0xFFFFFFFF)"
  using vfs_read_huge_file_copies_nothing [of "\<lparr>de_name = [98, 0], de_start_sector = 2, de_size_bytes = 0xFFFFFFFF\<rparr>"]
  by simp

end
