(* ===== verification/Font.thy ===== *)
theory Font
  imports Prelude
begin

text \<open>
  The 8x8 bitmap font, \<^verbatim>\<open>arch/x86_64/drivers/font8x8.c\<close>, and its aarch64 copy: a glyph is eight rows,
  the most significant bit leftmost. The two files define the same function.
\<close>

definition glyph_blank :: "u8 list" where "glyph_blank = [0, 0, 0, 0, 0, 0, 0, 0]"
definition glyph_space :: "u8 list" where "glyph_space = [0x00, 0x00, 0x00, 0x00, 0x00, 0x00, 0x00, 0x00]"
definition glyph_excl :: "u8 list" where "glyph_excl = [0x20, 0x20, 0x20, 0x20, 0x20, 0x00, 0x20, 0x00]"
definition glyph_comma :: "u8 list" where "glyph_comma = [0x00, 0x00, 0x00, 0x00, 0x00, 0x30, 0x30, 0x40]"
definition glyph_minus :: "u8 list" where "glyph_minus = [0x00, 0x00, 0x00, 0xFC, 0x00, 0x00, 0x00, 0x00]"
definition glyph_dot :: "u8 list" where "glyph_dot = [0x00, 0x00, 0x00, 0x00, 0x00, 0x30, 0x30, 0x00]"
definition glyph_colon :: "u8 list" where "glyph_colon = [0x00, 0x30, 0x30, 0x00, 0x30, 0x30, 0x00, 0x00]"
definition glyph_0 :: "u8 list" where "glyph_0 = [0x78, 0x84, 0x84, 0x84, 0x84, 0x84, 0x78, 0x00]"
definition glyph_1 :: "u8 list" where "glyph_1 = [0x20, 0x60, 0x20, 0x20, 0x20, 0x20, 0x70, 0x00]"
definition glyph_2 :: "u8 list" where "glyph_2 = [0x78, 0x84, 0x04, 0x08, 0x10, 0x20, 0xFC, 0x00]"
definition glyph_3 :: "u8 list" where "glyph_3 = [0x78, 0x84, 0x04, 0x38, 0x04, 0x84, 0x78, 0x00]"
definition glyph_4 :: "u8 list" where "glyph_4 = [0x18, 0x28, 0x48, 0x88, 0xFC, 0x08, 0x08, 0x00]"
definition glyph_5 :: "u8 list" where "glyph_5 = [0xFC, 0x80, 0xF8, 0x04, 0x04, 0x84, 0x78, 0x00]"
definition glyph_6 :: "u8 list" where "glyph_6 = [0x78, 0x80, 0x80, 0xF8, 0x84, 0x84, 0x78, 0x00]"
definition glyph_7 :: "u8 list" where "glyph_7 = [0xFC, 0x04, 0x08, 0x10, 0x20, 0x20, 0x20, 0x00]"
definition glyph_8 :: "u8 list" where "glyph_8 = [0x78, 0x84, 0x84, 0x78, 0x84, 0x84, 0x78, 0x00]"
definition glyph_9 :: "u8 list" where "glyph_9 = [0x78, 0x84, 0x84, 0x7C, 0x04, 0x04, 0x78, 0x00]"
definition glyph_A :: "u8 list" where "glyph_A = [0x30, 0x48, 0x84, 0x84, 0xFC, 0x84, 0x84, 0x00]"
definition glyph_B :: "u8 list" where "glyph_B = [0xF8, 0x84, 0x84, 0xF8, 0x84, 0x84, 0xF8, 0x00]"
definition glyph_C :: "u8 list" where "glyph_C = [0x78, 0x84, 0x80, 0x80, 0x80, 0x84, 0x78, 0x00]"
definition glyph_D :: "u8 list" where "glyph_D = [0xF8, 0x84, 0x84, 0x84, 0x84, 0x84, 0xF8, 0x00]"
definition glyph_E :: "u8 list" where "glyph_E = [0xFC, 0x80, 0x80, 0xF8, 0x80, 0x80, 0xFC, 0x00]"
definition glyph_F :: "u8 list" where "glyph_F = [0xFC, 0x80, 0x80, 0xF8, 0x80, 0x80, 0x80, 0x00]"
definition glyph_G :: "u8 list" where "glyph_G = [0x78, 0x84, 0x80, 0x9C, 0x84, 0x84, 0x78, 0x00]"
definition glyph_H :: "u8 list" where "glyph_H = [0x84, 0x84, 0x84, 0xFC, 0x84, 0x84, 0x84, 0x00]"
definition glyph_I :: "u8 list" where "glyph_I = [0x70, 0x20, 0x20, 0x20, 0x20, 0x20, 0x70, 0x00]"
definition glyph_J :: "u8 list" where "glyph_J = [0x18, 0x08, 0x08, 0x08, 0x88, 0x88, 0x70, 0x00]"
definition glyph_K :: "u8 list" where "glyph_K = [0x88, 0x90, 0xA0, 0xC0, 0xA0, 0x90, 0x88, 0x00]"
definition glyph_L :: "u8 list" where "glyph_L = [0x80, 0x80, 0x80, 0x80, 0x80, 0x80, 0xFC, 0x00]"
definition glyph_M :: "u8 list" where "glyph_M = [0x82, 0xC6, 0xAA, 0x92, 0x82, 0x82, 0x82, 0x00]"
definition glyph_N :: "u8 list" where "glyph_N = [0x82, 0xC2, 0xA2, 0x92, 0x8A, 0x86, 0x82, 0x00]"
definition glyph_O :: "u8 list" where "glyph_O = [0x78, 0x84, 0x84, 0x84, 0x84, 0x84, 0x78, 0x00]"
definition glyph_P :: "u8 list" where "glyph_P = [0xF8, 0x84, 0x84, 0xF8, 0x80, 0x80, 0x80, 0x00]"
definition glyph_Q :: "u8 list" where "glyph_Q = [0x78, 0x84, 0x84, 0x84, 0x84, 0x88, 0x7A, 0x00]"
definition glyph_R :: "u8 list" where "glyph_R = [0xF8, 0x84, 0x84, 0xF8, 0x90, 0x88, 0x84, 0x00]"
definition glyph_S :: "u8 list" where "glyph_S = [0x78, 0x80, 0x80, 0x78, 0x04, 0x04, 0xF8, 0x00]"
definition glyph_T :: "u8 list" where "glyph_T = [0xFC, 0x20, 0x20, 0x20, 0x20, 0x20, 0x20, 0x00]"
definition glyph_U :: "u8 list" where "glyph_U = [0x84, 0x84, 0x84, 0x84, 0x84, 0x84, 0x78, 0x00]"
definition glyph_V :: "u8 list" where "glyph_V = [0x84, 0x84, 0x84, 0x84, 0x48, 0x48, 0x30, 0x00]"
definition glyph_W :: "u8 list" where "glyph_W = [0x82, 0x82, 0x82, 0x92, 0xAA, 0xC6, 0x82, 0x00]"
definition glyph_X :: "u8 list" where "glyph_X = [0x84, 0x48, 0x30, 0x30, 0x48, 0x84, 0x84, 0x00]"
definition glyph_Y :: "u8 list" where "glyph_Y = [0x84, 0x48, 0x30, 0x20, 0x20, 0x20, 0x20, 0x00]"
definition glyph_Z :: "u8 list" where "glyph_Z = [0xFC, 0x04, 0x08, 0x10, 0x20, 0x40, 0xFC, 0x00]"

definition font8x8_glyph :: "u8 \<Rightarrow> u8 list" where
  "font8x8_glyph c =
     (let c = (if c \<ge> 97 \<and> c \<le> 122 then c - 32 else c)
      in if c = 32 then glyph_space
      else if c = 33 then glyph_excl
      else if c = 44 then glyph_comma
      else if c = 45 then glyph_minus
      else if c = 46 then glyph_dot
      else if c = 58 then glyph_colon
      else if c = 48 then glyph_0
      else if c = 49 then glyph_1
      else if c = 50 then glyph_2
      else if c = 51 then glyph_3
      else if c = 52 then glyph_4
      else if c = 53 then glyph_5
      else if c = 54 then glyph_6
      else if c = 55 then glyph_7
      else if c = 56 then glyph_8
      else if c = 57 then glyph_9
      else if c = 65 then glyph_A
      else if c = 66 then glyph_B
      else if c = 67 then glyph_C
      else if c = 68 then glyph_D
      else if c = 69 then glyph_E
      else if c = 70 then glyph_F
      else if c = 71 then glyph_G
      else if c = 72 then glyph_H
      else if c = 73 then glyph_I
      else if c = 74 then glyph_J
      else if c = 75 then glyph_K
      else if c = 76 then glyph_L
      else if c = 77 then glyph_M
      else if c = 78 then glyph_N
      else if c = 79 then glyph_O
      else if c = 80 then glyph_P
      else if c = 81 then glyph_Q
      else if c = 82 then glyph_R
      else if c = 83 then glyph_S
      else if c = 84 then glyph_T
      else if c = 85 then glyph_U
      else if c = 86 then glyph_V
      else if c = 87 then glyph_W
      else if c = 88 then glyph_X
      else if c = 89 then glyph_Y
      else if c = 90 then glyph_Z
      else glyph_blank)"

text \<open>The aarch64 copy, as a table from characters to glyphs.\<close>

definition glyphs_a64 :: "(u8 \<times> u8 list) list" where
  "glyphs_a64 = [
    (32, [0x00, 0x00, 0x00, 0x00, 0x00, 0x00, 0x00, 0x00]),
    (33, [0x20, 0x20, 0x20, 0x20, 0x20, 0x00, 0x20, 0x00]),
    (44, [0x00, 0x00, 0x00, 0x00, 0x00, 0x30, 0x30, 0x40]),
    (45, [0x00, 0x00, 0x00, 0xFC, 0x00, 0x00, 0x00, 0x00]),
    (46, [0x00, 0x00, 0x00, 0x00, 0x00, 0x30, 0x30, 0x00]),
    (58, [0x00, 0x30, 0x30, 0x00, 0x30, 0x30, 0x00, 0x00]),
    (48, [0x78, 0x84, 0x84, 0x84, 0x84, 0x84, 0x78, 0x00]),
    (49, [0x20, 0x60, 0x20, 0x20, 0x20, 0x20, 0x70, 0x00]),
    (50, [0x78, 0x84, 0x04, 0x08, 0x10, 0x20, 0xFC, 0x00]),
    (51, [0x78, 0x84, 0x04, 0x38, 0x04, 0x84, 0x78, 0x00]),
    (52, [0x18, 0x28, 0x48, 0x88, 0xFC, 0x08, 0x08, 0x00]),
    (53, [0xFC, 0x80, 0xF8, 0x04, 0x04, 0x84, 0x78, 0x00]),
    (54, [0x78, 0x80, 0x80, 0xF8, 0x84, 0x84, 0x78, 0x00]),
    (55, [0xFC, 0x04, 0x08, 0x10, 0x20, 0x20, 0x20, 0x00]),
    (56, [0x78, 0x84, 0x84, 0x78, 0x84, 0x84, 0x78, 0x00]),
    (57, [0x78, 0x84, 0x84, 0x7C, 0x04, 0x04, 0x78, 0x00]),
    (65, [0x30, 0x48, 0x84, 0x84, 0xFC, 0x84, 0x84, 0x00]),
    (66, [0xF8, 0x84, 0x84, 0xF8, 0x84, 0x84, 0xF8, 0x00]),
    (67, [0x78, 0x84, 0x80, 0x80, 0x80, 0x84, 0x78, 0x00]),
    (68, [0xF8, 0x84, 0x84, 0x84, 0x84, 0x84, 0xF8, 0x00]),
    (69, [0xFC, 0x80, 0x80, 0xF8, 0x80, 0x80, 0xFC, 0x00]),
    (70, [0xFC, 0x80, 0x80, 0xF8, 0x80, 0x80, 0x80, 0x00]),
    (71, [0x78, 0x84, 0x80, 0x9C, 0x84, 0x84, 0x78, 0x00]),
    (72, [0x84, 0x84, 0x84, 0xFC, 0x84, 0x84, 0x84, 0x00]),
    (73, [0x70, 0x20, 0x20, 0x20, 0x20, 0x20, 0x70, 0x00]),
    (74, [0x18, 0x08, 0x08, 0x08, 0x88, 0x88, 0x70, 0x00]),
    (75, [0x88, 0x90, 0xA0, 0xC0, 0xA0, 0x90, 0x88, 0x00]),
    (76, [0x80, 0x80, 0x80, 0x80, 0x80, 0x80, 0xFC, 0x00]),
    (77, [0x82, 0xC6, 0xAA, 0x92, 0x82, 0x82, 0x82, 0x00]),
    (78, [0x82, 0xC2, 0xA2, 0x92, 0x8A, 0x86, 0x82, 0x00]),
    (79, [0x78, 0x84, 0x84, 0x84, 0x84, 0x84, 0x78, 0x00]),
    (80, [0xF8, 0x84, 0x84, 0xF8, 0x80, 0x80, 0x80, 0x00]),
    (81, [0x78, 0x84, 0x84, 0x84, 0x84, 0x88, 0x7A, 0x00]),
    (82, [0xF8, 0x84, 0x84, 0xF8, 0x90, 0x88, 0x84, 0x00]),
    (83, [0x78, 0x80, 0x80, 0x78, 0x04, 0x04, 0xF8, 0x00]),
    (84, [0xFC, 0x20, 0x20, 0x20, 0x20, 0x20, 0x20, 0x00]),
    (85, [0x84, 0x84, 0x84, 0x84, 0x84, 0x84, 0x78, 0x00]),
    (86, [0x84, 0x84, 0x84, 0x84, 0x48, 0x48, 0x30, 0x00]),
    (87, [0x82, 0x82, 0x82, 0x92, 0xAA, 0xC6, 0x82, 0x00]),
    (88, [0x84, 0x48, 0x30, 0x30, 0x48, 0x84, 0x84, 0x00]),
    (89, [0x84, 0x48, 0x30, 0x20, 0x20, 0x20, 0x20, 0x00]),
    (90, [0xFC, 0x04, 0x08, 0x10, 0x20, 0x40, 0xFC, 0x00])]"

definition font8x8_glyph_a64 :: "u8 \<Rightarrow> u8 list" where
  "font8x8_glyph_a64 c =
     (let c = (if c \<ge> 97 \<and> c \<le> 122 then c - 32 else c)
      in case map_of glyphs_a64 c of Some g \<Rightarrow> g | None \<Rightarrow> [0, 0, 0, 0, 0, 0, 0, 0])"

lemmas glyph_defs = glyph_blank_def glyph_space_def glyph_excl_def glyph_comma_def glyph_minus_def glyph_dot_def glyph_colon_def glyph_0_def glyph_1_def glyph_2_def glyph_3_def glyph_4_def glyph_5_def glyph_6_def glyph_7_def glyph_8_def glyph_9_def glyph_A_def glyph_B_def glyph_C_def glyph_D_def glyph_E_def glyph_F_def glyph_G_def glyph_H_def glyph_I_def glyph_J_def glyph_K_def glyph_L_def glyph_M_def glyph_N_def glyph_O_def glyph_P_def glyph_Q_def glyph_R_def glyph_S_def glyph_T_def glyph_U_def glyph_V_def glyph_W_def glyph_X_def glyph_Y_def glyph_Z_def

lemma font_copies_agree: "font8x8_glyph_a64 c = font8x8_glyph c"
proof -
  have step: "(case map_of ((k, g) # xs) d of Some g \<Rightarrow> g | None \<Rightarrow> z) = (if d = k then g else case map_of xs d of Some g \<Rightarrow> g | None \<Rightarrow> z)"
    for k d :: u8 and g xs and z :: "u8 list" by simp
  have nil: "(case map_of [] d of Some g \<Rightarrow> g | None \<Rightarrow> z) = z" for d :: u8 and z :: "u8 list" by simp
  show ?thesis unfolding font8x8_glyph_a64_def font8x8_glyph_def Let_def glyphs_a64_def step nil glyph_defs ..
qed

lemma length_glyph [simp]: "length (font8x8_glyph c) = 8"
  unfolding font8x8_glyph_def Let_def glyph_defs by (simp only: if_distrib [of length] list.size cong: if_cong) simp

end
