(* ===== verification/Pmm.thy ===== *)
theory Pmm
  imports Prelude
begin

text \<open>
  The physical memory manager of \<^verbatim>\<open>mm/pmm.c\<close>: a bitmap with one bit per 4 KB frame (1 = used).
  The record \<open>pmm\<close> holds the file's four static variables; the bitmap is a list of bytes, and
  \<open>bitmap_addr\<close> is the address the C pointer holds. Loops over a \<open>u64\<close> counter are functions
  with that counter as an argument. The abstract view of a state is \<open>free_set\<close>, the set of
  frame numbers that may be handed out; \<open>pmm_inv\<close> says that the bitmap has the right length
  and that the counter of free frames is exact; \<open>pmm_ok\<close> adds that frame 0, whose address is also the
  answer of a failed allocation, is not free.

  The bitmap lies in the memory that it manages, and the model keeps its bytes apart from the
  frames handed out. That is faithful as long as no frame of the bitmap is free or given to a client;
  \<open>bitmap_apart\<close> states it of the allocator, and \<open>pmm_init\<close> establishes it when the bitmap ends on a
  frame boundary (\<open>pmm_init_apart\<close>). When it does not, the frame with its last bytes stays free
  (\<open>pmm_init_bitmap_tail_handed_out\<close>), and the client that gets this frame writes over the bitmap.
\<close>

section \<open>State and bit operations\<close>

record mem_region =
  region_base :: physaddr
  region_length :: u64

record pmm =
  bitmap :: "u8 list"
  bitmap_addr :: u64
  bitmap_bytes :: u64
  total_frames :: u64
  free_frames :: u64

definition PMM_FRAME_SIZE :: u64 where
  "PMM_FRAME_SIZE = 4096"

definition bit_set :: "u64 \<Rightarrow> pmm \<Rightarrow> pmm" where
  "bit_set frame p = p\<lparr>bitmap := (bitmap p)[unat (frame div 8) :=
     (bitmap p ! unat (frame div 8)) OR push_bit (unat (frame mod 8)) 1]\<rparr>"

definition bit_clear :: "u64 \<Rightarrow> pmm \<Rightarrow> pmm" where
  "bit_clear frame p = p\<lparr>bitmap := (bitmap p)[unat (frame div 8) :=
     (bitmap p ! unat (frame div 8)) AND NOT (push_bit (unat (frame mod 8)) 1)]\<rparr>"

definition bit_test :: "pmm \<Rightarrow> u64 \<Rightarrow> bool" where
  "bit_test p frame \<longleftrightarrow>
     (drop_bit (unat (frame mod 8)) (bitmap p ! unat (frame div 8))) AND 1 \<noteq> 0"

section \<open>Operations\<close>

function mark_loop :: "bool \<Rightarrow> u64 \<Rightarrow> u64 \<Rightarrow> pmm \<Rightarrow> pmm" where
  "mark_loop used f lst p =
     (if f < lst \<and> f < total_frames p then
        mark_loop used (f + 1) lst
          (if used then
             (if \<not> bit_test p f
              then (bit_set f p)\<lparr>free_frames := free_frames p - 1\<rparr> else p)
           else
             (if bit_test p f
              then (bit_clear f p)\<lparr>free_frames := free_frames p + 1\<rparr> else p))
      else p)"
  by pat_completeness auto
termination
  by (relation "measure (\<lambda>(used, f, lst, p). unat lst - unat f)")
    (auto simp: unat_add1_less word_less_nat_alt)

definition mark_range :: "physaddr \<Rightarrow> physaddr \<Rightarrow> bool \<Rightarrow> pmm \<Rightarrow> pmm" where
  "mark_range start end used p =
     (let first = start div PMM_FRAME_SIZE;
          lst = ALIGN_DOWN end PMM_FRAME_SIZE div PMM_FRAME_SIZE
      in mark_loop used first lst p)"

definition highest_address :: "mem_region list \<Rightarrow> physaddr" where
  "highest_address regions =
     foldl (\<lambda>highest r. let top = region_base r + region_length r
                        in if top > highest then top else highest) 0 regions"

definition pmm_init :: "mem_region list \<Rightarrow> physaddr \<Rightarrow> physaddr \<Rightarrow> pmm" where
  "pmm_init regions reserved_start reserved_end =
     (let total = highest_address regions div PMM_FRAME_SIZE;
          nbytes = (total + 7) div 8;
          addr = ALIGN_UP reserved_end 8;
          bitmap_end = addr + nbytes;
          p0 = \<lparr>bitmap = replicate (unat nbytes) 0xFF, bitmap_addr = addr,
                bitmap_bytes = nbytes, total_frames = total, free_frames = 0\<rparr>;
          p1 = foldl (\<lambda>p r. mark_range (region_base r) (region_base r + region_length r) False p)
                 p0 regions
      in mark_range reserved_start bitmap_end True p1)"

function alloc_scan :: "u64 \<Rightarrow> pmm \<Rightarrow> physaddr \<times> pmm" where
  "alloc_scan f p =
     (if f < total_frames p then
        if \<not> bit_test p f
        then (f * PMM_FRAME_SIZE, (bit_set f p)\<lparr>free_frames := free_frames p - 1\<rparr>)
        else alloc_scan (f + 1) p
      else (0, p))"
  by pat_completeness auto
termination
  by (relation "measure (\<lambda>(f, p). unat (total_frames p) - unat f)")
    (auto simp: unat_add1_less word_less_nat_alt)

definition pmm_alloc_frame :: "pmm \<Rightarrow> physaddr \<times> pmm" where
  "pmm_alloc_frame p = alloc_scan 0 p"

definition pmm_free_frame :: "physaddr \<Rightarrow> pmm \<Rightarrow> pmm" where
  "pmm_free_frame addr p =
     (let f = addr div PMM_FRAME_SIZE
      in if f \<ge> total_frames p \<or> \<not> bit_test p f then p
         else (bit_clear f p)\<lparr>free_frames := free_frames p + 1\<rparr>)"

function bit_set_loop :: "u64 \<Rightarrow> u64 \<Rightarrow> pmm \<Rightarrow> pmm" where
  "bit_set_loop i hi p = (if i < hi then bit_set_loop (i + 1) hi (bit_set i p) else p)"
  by pat_completeness auto
termination
  by (relation "measure (\<lambda>(i, hi, p). unat hi - unat i)")
    (auto simp: unat_add1_less word_less_nat_alt)

function alloc_frames_scan :: "u64 \<Rightarrow> u64 \<Rightarrow> u64 \<Rightarrow> u64 \<Rightarrow> pmm \<Rightarrow> physaddr \<times> pmm" where
  "alloc_frames_scan count f run_start run_len p =
     (if f < total_frames p then
        if bit_test p f then alloc_frames_scan count (f + 1) run_start 0 p
        else
          let run_start' = (if run_len = 0 then f else run_start);
              run_len' = run_len + 1
          in if run_len' = count
             then (run_start' * PMM_FRAME_SIZE,
                   (bit_set_loop run_start' (run_start' + count) p)
                     \<lparr>free_frames := free_frames p - count\<rparr>)
             else alloc_frames_scan count (f + 1) run_start' run_len' p
      else (0, p))"
  by pat_completeness auto
termination
  by (relation "measure (\<lambda>(count, f, run_start, run_len, p). unat (total_frames p) - unat f)")
    (auto simp: unat_add1_less word_less_nat_alt)

definition pmm_alloc_frames :: "u64 \<Rightarrow> pmm \<Rightarrow> physaddr \<times> pmm" where
  "pmm_alloc_frames count p = (if count = 0 then (0, p) else alloc_frames_scan count 0 0 0 p)"

function free_frames_loop :: "u64 \<Rightarrow> u64 \<Rightarrow> pmm \<Rightarrow> pmm" where
  "free_frames_loop f hi p =
     (if f < hi \<and> f < total_frames p then
        free_frames_loop (f + 1) hi
          (if bit_test p f then (bit_clear f p)\<lparr>free_frames := free_frames p + 1\<rparr> else p)
      else p)"
  by pat_completeness auto
termination
  by (relation "measure (\<lambda>(f, hi, p). unat hi - unat f)")
    (auto simp: unat_add1_less word_less_nat_alt)

definition pmm_free_frames :: "physaddr \<Rightarrow> u64 \<Rightarrow> pmm \<Rightarrow> pmm" where
  "pmm_free_frames addr count p =
     (let first = addr div PMM_FRAME_SIZE in free_frames_loop first (first + count) p)"

definition pmm_total_frames :: "pmm \<Rightarrow> u64" where
  "pmm_total_frames p = total_frames p"

definition pmm_free_frame_count :: "pmm \<Rightarrow> u64" where
  "pmm_free_frame_count p = free_frames p"

declare mark_loop.simps [simp del] alloc_scan.simps [simp del] bit_set_loop.simps [simp del]
  alloc_frames_scan.simps [simp del] free_frames_loop.simps [simp del]

section \<open>The abstract view\<close>

text \<open>\<open>frame_used\<close> reads the bitmap at a natural frame number, \<open>free_set\<close> is the set of
  frames the allocator may hand out.\<close>

definition frame_used :: "pmm \<Rightarrow> nat \<Rightarrow> bool" where
  "frame_used p n \<longleftrightarrow> bit (bitmap p ! (n div 8)) (n mod 8)"

definition free_set :: "pmm \<Rightarrow> nat set" where
  "free_set p = {n. n < unat (total_frames p) \<and> \<not> frame_used p n}"

definition pmm_geom :: "pmm \<Rightarrow> bool" where
  "pmm_geom p \<longleftrightarrow> bitmap_bytes p = (total_frames p + 7) div 8
     \<and> length (bitmap p) = unat (bitmap_bytes p)
     \<and> unat (total_frames p) < 2 ^ 52"

definition pmm_inv :: "pmm \<Rightarrow> bool" where
  "pmm_inv p \<longleftrightarrow> pmm_geom p \<and> free_frames p = of_nat (card (free_set p))"

lemma frame_cong: "n div 8 = m div 8 \<Longrightarrow> n mod 8 = m mod 8 \<Longrightarrow> n = (m :: nat)"
  by (metis div_mult_mod_eq)

lemma bit_test_iff: "bit_test p f \<longleftrightarrow> frame_used p (unat f)"
  by (simp add: bit_test_def frame_used_def bit_iff_odd_drop_bit and_one_eq unat_div unat_mod odd_iff_mod_2_eq_one)

lemma finite_free_set [simp, intro]: "finite (free_set p)"
  by (rule finite_subset [of _ "{..<unat (total_frames p)}"]) (auto simp: free_set_def)

lemma free_set_bound: "n \<in> free_set p \<Longrightarrow> n < unat (total_frames p)"
  by (simp add: free_set_def)

lemma bitmap_index:
  assumes "pmm_geom p" "n < unat (total_frames p)"
  shows "n div 8 < length (bitmap p)"
proof -
  have "unat (total_frames p + 7) = unat (total_frames p) + 7"
    using assms(1) by (simp add: unat_plus_simple pmm_geom_def)
  then have "length (bitmap p) = (unat (total_frames p) + 7) div 8"
    using assms(1) by (simp add: unat_div pmm_geom_def)
  then show ?thesis using assms(2) by simp
qed

text \<open>Facts that any two states with the same geometry share.\<close>

lemma bit_set_frame [simp]:
  "total_frames (bit_set f p) = total_frames p" "bitmap_bytes (bit_set f p) = bitmap_bytes p"
  "length (bitmap (bit_set f p)) = length (bitmap p)" "free_frames (bit_set f p) = free_frames p"
  "bitmap_addr (bit_set f p) = bitmap_addr p"
  by (simp_all add: bit_set_def)

lemma bit_clear_frame [simp]:
  "total_frames (bit_clear f p) = total_frames p" "bitmap_bytes (bit_clear f p) = bitmap_bytes p"
  "length (bitmap (bit_clear f p)) = length (bitmap p)" "free_frames (bit_clear f p) = free_frames p"
  "bitmap_addr (bit_clear f p) = bitmap_addr p"
  by (simp_all add: bit_clear_def)

lemma frame_used_free_frames [simp]: "frame_used (p\<lparr>free_frames := c\<rparr>) n = frame_used p n"
  by (simp add: frame_used_def)

lemma free_set_free_frames [simp]: "free_set (p\<lparr>free_frames := c\<rparr>) = free_set p"
  by (simp add: free_set_def)

lemma frame_used_bit_set:
  assumes "unat f div 8 < length (bitmap p)"
  shows "frame_used (bit_set f p) n \<longleftrightarrow> n = unat f \<or> frame_used p n"
proof (cases "n div 8 = unat f div 8")
  case True
  then show ?thesis using assms frame_cong [of n "unat f"]
    by (auto simp: frame_used_def bit_set_def unat_div unat_mod bit_simps)
next
  case False
  then show ?thesis by (auto simp: frame_used_def bit_set_def unat_div)
qed

lemma frame_used_bit_clear:
  assumes "unat f div 8 < length (bitmap p)"
  shows "frame_used (bit_clear f p) n \<longleftrightarrow> n \<noteq> unat f \<and> frame_used p n"
proof (cases "n div 8 = unat f div 8")
  case True
  then show ?thesis using assms frame_cong [of n "unat f"]
    by (auto simp: frame_used_def bit_clear_def unat_div unat_mod bit_simps)
next
  case False
  then show ?thesis by (auto simp: frame_used_def bit_clear_def unat_div)
qed

lemma pmm_geom_bit_ops [simp]:
  "pmm_geom (bit_set f p) = pmm_geom p" "pmm_geom (bit_clear f p) = pmm_geom p"
  "pmm_geom (p\<lparr>free_frames := c\<rparr>) = pmm_geom p"
  by (simp_all add: pmm_geom_def)

lemma pmm_inv_geom [simp]: "pmm_inv p \<Longrightarrow> pmm_geom p"
  by (simp add: pmm_inv_def)

lemma free_set_bit_set:
  "pmm_geom p \<Longrightarrow> f < total_frames p \<Longrightarrow> free_set (bit_set f p) = free_set p - {unat f}"
  by (auto simp: free_set_def frame_used_bit_set bitmap_index word_less_nat_alt)

lemma free_set_bit_clear:
  "pmm_geom p \<Longrightarrow> f < total_frames p \<Longrightarrow> free_set (bit_clear f p) = insert (unat f) (free_set p)"
  by (auto simp: free_set_def frame_used_bit_clear bitmap_index word_less_nat_alt)

lemma pmm_inv_bit_set:
  assumes "pmm_inv p" "f < total_frames p" "\<not> bit_test p f"
  shows "pmm_inv ((bit_set f p)\<lparr>free_frames := free_frames p - 1\<rparr>)"
proof -
  have mem: "unat f \<in> free_set p"
    using assms(2,3) by (simp add: free_set_def bit_test_iff word_less_nat_alt)
  then have "card (free_set p) \<ge> 1" by (metis One_nat_def Suc_leI card_gt_0_iff empty_iff finite_free_set)
  then show ?thesis
    using assms mem by (simp add: pmm_inv_def free_set_bit_set)
qed

lemma pmm_inv_bit_clear:
  assumes "pmm_inv p" "f < total_frames p" "bit_test p f"
  shows "pmm_inv ((bit_clear f p)\<lparr>free_frames := free_frames p + 1\<rparr>)"
proof -
  have "unat f \<notin> free_set p" using assms(3) by (simp add: free_set_def bit_test_iff)
  then show ?thesis using assms by (simp add: pmm_inv_def free_set_bit_clear)
qed

lemma bit_test_free_set: "f < total_frames p \<Longrightarrow> bit_test p f \<longleftrightarrow> unat f \<notin> free_set p"
  by (simp add: bit_test_iff free_set_def word_less_nat_alt)

section \<open>Marking a range\<close>

definition mark_step :: "bool \<Rightarrow> u64 \<Rightarrow> pmm \<Rightarrow> pmm" where
  "mark_step used f p =
     (if used then (if \<not> bit_test p f then (bit_set f p)\<lparr>free_frames := free_frames p - 1\<rparr> else p)
      else (if bit_test p f then (bit_clear f p)\<lparr>free_frames := free_frames p + 1\<rparr> else p))"

lemma mark_loop_step:
  "mark_loop used f lst p =
     (if f < lst \<and> f < total_frames p then mark_loop used (f + 1) lst (mark_step used f p) else p)"
  by (subst mark_loop.simps) (simp add: mark_step_def)

lemma mark_step_frame [simp]:
  "total_frames (mark_step used f p) = total_frames p" "bitmap_addr (mark_step used f p) = bitmap_addr p"
  by (simp_all add: mark_step_def)

lemma mark_step_inv:
  "pmm_inv p \<Longrightarrow> f < total_frames p \<Longrightarrow> pmm_inv (mark_step used f p)"
  by (simp add: mark_step_def pmm_inv_bit_set pmm_inv_bit_clear)

lemma mark_step_free_set:
  "pmm_geom p \<Longrightarrow> f < total_frames p \<Longrightarrow>
     free_set (mark_step used f p) = (if used then free_set p - {unat f} else insert (unat f) (free_set p))"
  by (auto simp: mark_step_def free_set_bit_set free_set_bit_clear bit_test_free_set)

lemma mark_loop_spec:
  assumes "pmm_inv p"
  shows "pmm_inv (mark_loop used f lst p)
    \<and> total_frames (mark_loop used f lst p) = total_frames p
    \<and> bitmap_addr (mark_loop used f lst p) = bitmap_addr p
    \<and> free_set (mark_loop used f lst p) =
        (if used then free_set p - {unat f..<unat lst}
         else free_set p \<union> ({unat f..<unat lst} \<inter> {..<unat (total_frames p)}))"
  using assms
proof (induction "unat lst - unat f" arbitrary: f p)
  case 0
  then have "\<not> f < lst" "{unat f..<unat lst} = {}" by (auto simp: word_less_nat_alt)
  then show ?case using 0 by (subst (1 2 3 4) mark_loop_step) simp
next
  case (Suc k)
  show ?case
  proof (cases "f < lst \<and> f < total_frames p")
    case True
    have range: "{unat f..<unat lst} = insert (unat f) {unat (f + 1)..<unat lst}"
      using True by (auto simp: unat_add1_less [of f lst] word_less_nat_alt)
    have "k = unat lst - unat (f + 1)" using Suc.hyps(2) True by (simp add: unat_add1_less [of f lst])
    note IH = Suc.hyps(1) [OF this, of "mark_step used f p"]
    show ?thesis
      using IH True Suc.prems
      by (subst (1 2 3 4) mark_loop_step)
        (auto simp: mark_step_inv mark_step_free_set range word_less_nat_alt)
  next
    case False
    then have "used \<Longrightarrow> free_set p - {unat f..<unat lst} = free_set p"
      "{unat f..<unat lst} \<inter> {..<unat (total_frames p)} = {}"
      by (auto simp: word_less_nat_alt dest: free_set_bound)
    then show ?thesis using False Suc.prems by (subst (1 2 3 4) mark_loop_step) auto
  qed
qed

definition frames_of :: "physaddr \<Rightarrow> physaddr \<Rightarrow> nat set" where
  "frames_of start end = {unat start div 4096..<unat end div 4096}"

lemma mark_range_spec:
  assumes "pmm_inv p"
  shows "pmm_inv (mark_range start end used p)"
    and "total_frames (mark_range start end used p) = total_frames p"
    and "bitmap_addr (mark_range start end used p) = bitmap_addr p"
    and "free_set (mark_range start end used p) =
        (if used then free_set p - frames_of start end
         else free_set p \<union> (frames_of start end \<inter> {..<unat (total_frames p)}))"
  using mark_loop_spec [OF assms]
  by (simp_all add: mark_range_def Let_def PMM_FRAME_SIZE_def unat_div ALIGN_DOWN_4096 frames_of_def)

section \<open>Initialisation\<close>

definition release_regions :: "mem_region list \<Rightarrow> pmm \<Rightarrow> pmm" where
  "release_regions regions p =
     foldl (\<lambda>p r. mark_range (region_base r) (region_base r + region_length r) False p) p regions"

definition usable_frames :: "mem_region list \<Rightarrow> nat set" where
  "usable_frames regions =
     (\<Union>r \<in> set regions. frames_of (region_base r) (region_base r + region_length r))"

lemma release_regions_spec:
  assumes "pmm_inv p"
  shows "pmm_inv (release_regions regions p)
    \<and> total_frames (release_regions regions p) = total_frames p
    \<and> bitmap_addr (release_regions regions p) = bitmap_addr p
    \<and> free_set (release_regions regions p) =
        free_set p \<union> (usable_frames regions \<inter> {..<unat (total_frames p)})"
  using assms
proof (induction regions arbitrary: p)
  case Nil
  then show ?case by (simp add: release_regions_def usable_frames_def)
next
  case (Cons r rs)
  let ?q = "mark_range (region_base r) (region_base r + region_length r) False p"
  have "release_regions (r # rs) p = release_regions rs ?q" by (simp add: release_regions_def)
  then show ?case
    using Cons.IH [of ?q] mark_range_spec [OF Cons.prems]
    by (auto simp: usable_frames_def)
qed

definition pmm_start :: "mem_region list \<Rightarrow> physaddr \<Rightarrow> pmm" where
  "pmm_start regions reserved_end =
     (let total = highest_address regions div PMM_FRAME_SIZE; nbytes = (total + 7) div 8
      in \<lparr>bitmap = replicate (unat nbytes) 0xFF, bitmap_addr = ALIGN_UP reserved_end 8,
          bitmap_bytes = nbytes, total_frames = total, free_frames = 0\<rparr>)"

definition bitmap_end :: "mem_region list \<Rightarrow> physaddr \<Rightarrow> physaddr" where
  "bitmap_end regions reserved_end =
     ALIGN_UP reserved_end 8 + (highest_address regions div PMM_FRAME_SIZE + 7) div 8"

lemma pmm_init_eq:
  "pmm_init regions rs re =
     mark_range rs (bitmap_end regions re) True (release_regions regions (pmm_start regions re))"
  by (simp add: pmm_init_def pmm_start_def release_regions_def bitmap_end_def Let_def)

lemma frame_count_bound: "unat ((x :: u64) div 4096) < 2 ^ 52"
proof -
  show ?thesis using u64_lt [of x] by (simp add: unat_div)
qed

lemma bit_0xFF: "k < 8 \<Longrightarrow> bit (0xFF :: u8) k"
proof -
  assume "k < 8"
  moreover have "(0xFF :: u8) = mask 8" by (simp add: mask_eq_exp_minus_1)
  ultimately show ?thesis by (simp only: bit_mask_iff) simp
qed

lemma pmm_start_spec:
  "pmm_inv (pmm_start regions re)" "free_set (pmm_start regions re) = {}"
  "total_frames (pmm_start regions re) = highest_address regions div 4096"
  "bitmap_addr (pmm_start regions re) = ALIGN_UP re 8"
proof -
  let ?p = "pmm_start regions re"
  have geom: "pmm_geom ?p"
    using frame_count_bound [of "highest_address regions"]
    by (simp add: pmm_geom_def pmm_start_def Let_def PMM_FRAME_SIZE_def)
  have "frame_used ?p n" if "n < unat (total_frames ?p)" for n
  proof -
    have "bitmap ?p ! (n div 8) = 0xFF"
      using bitmap_index [OF geom that] by (simp add: pmm_start_def Let_def)
    then show ?thesis using bit_0xFF [of "n mod 8"] by (simp add: frame_used_def)
  qed
  then show free: "free_set ?p = {}" by (auto simp: free_set_def)
  then show "pmm_inv ?p" using geom by (simp add: pmm_inv_def) (simp add: pmm_start_def Let_def)
qed (simp_all add: pmm_start_def Let_def PMM_FRAME_SIZE_def)

lemma pmm_init_spec:
  "pmm_inv (pmm_init regions rs re)"
  "total_frames (pmm_init regions rs re) = highest_address regions div 4096"
  "bitmap_addr (pmm_init regions rs re) = ALIGN_UP re 8"
  "free_set (pmm_init regions rs re) =
     (usable_frames regions \<inter> {..<unat (highest_address regions) div 4096})
       - frames_of rs (bitmap_end regions re)"
  using release_regions_spec [OF pmm_start_spec(1), of regions regions re] pmm_start_spec [of regions re]
    mark_range_spec [of "release_regions regions (pmm_start regions re)" rs "bitmap_end regions re" True]
  by (simp_all add: pmm_init_eq unat_div)

section \<open>The bitmap's own memory\<close>

text \<open>The frames that hold at least one of the bytes from \<open>a\<close> up to \<open>b\<close>, and those that hold a byte of the bitmap. The model
  keeps the bitmap apart from the frames that are handed out, so it speaks about the program only while no
  frame of the bitmap can be handed out: \<open>bitmap_apart\<close>. \<open>mark_range\<close> rounds the end of the reserved range down, so \<open>pmm_init\<close>
  provides this when the bitmap ends on a frame boundary.\<close>

definition frames_touched :: "nat \<Rightarrow> nat \<Rightarrow> nat set" where
  "frames_touched a b = (\<lambda>x. x div 4096) ` {a..<b}"

definition bitmap_frames :: "pmm \<Rightarrow> nat set" where
  "bitmap_frames p = frames_touched (unat (bitmap_addr p)) (unat (bitmap_addr p) + unat (bitmap_bytes p))"

definition bitmap_apart :: "pmm \<Rightarrow> bool" where
  "bitmap_apart p \<longleftrightarrow> bitmap_frames p \<inter> free_set p = {}"

lemma frames_touched_mono: "a \<le> a' \<Longrightarrow> b' \<le> b \<Longrightarrow> frames_touched a' b' \<subseteq> frames_touched a b"
  by (auto simp: frames_touched_def)

lemma frames_touched_aligned:
  assumes "4096 dvd b"
  shows "frames_touched a b = {a div 4096..<b div 4096}"
proof -
  obtain k where k: "b = 4096 * k" using assms by blast
  have "n \<in> frames_touched a b" if "a div 4096 \<le> n" "n < k" for n
  proof (cases "a \<le> 4096 * n")
    case True
    then show ?thesis using that k by (auto simp: frames_touched_def intro: image_eqI [of _ _ "4096 * n"])
  next
    case False
    then have "n = a div 4096" using that(1) by linarith
    then show ?thesis using that(2) k by (auto simp: frames_touched_def intro!: image_eqI [of _ _ a])
  qed
  moreover have "frames_touched a b \<subseteq> {a div 4096..<k}" using k by (auto simp: frames_touched_def intro: div_le_mono)
  ultimately show ?thesis using k by fastforce
qed

lemma bitmap_frames_eq:
  assumes "pmm_inv p" "pmm_inv q" "total_frames p = total_frames q" "bitmap_addr p = bitmap_addr q"
  shows "bitmap_frames p = bitmap_frames q"
  using assms by (simp add: bitmap_frames_def pmm_inv_def pmm_geom_def)

lemma bitmap_end_unat:
  assumes "unat re < 2 ^ 62"
  shows "unat (bitmap_end regions re) = unat (ALIGN_UP re 8) + unat (bitmap_bytes (pmm_init regions rs re))"
    "unat re \<le> unat (ALIGN_UP re 8)"
proof -
  let ?n = "(highest_address regions div PMM_FRAME_SIZE + 7) div 8"
  have h: "unat (highest_address regions div PMM_FRAME_SIZE) < 2 ^ 52"
    using frame_count_bound [of "highest_address regions"] by (simp add: PMM_FRAME_SIZE_def)
  then have n: "unat ?n < 2 ^ 52" by (simp add: unat_div unat_plus_simple less_mult_imp_div_less)
  have a: "unat (ALIGN_UP re 8) = (unat re + 7) div 8 * 8" using ALIGN_UP_8 [of re] assms by simp
  moreover have "unat re \<le> (unat re + 7) div 8 * 8" "(unat re + 7) div 8 * 8 \<le> unat re + 7" by linarith+
  ultimately show "unat re \<le> unat (ALIGN_UP re 8)" by simp
  have "bitmap_bytes (pmm_init regions rs re) = ?n"
    using pmm_init_spec(1,2) [of regions rs re] by (simp add: pmm_inv_def pmm_geom_def PMM_FRAME_SIZE_def)
  then show "unat (bitmap_end regions re) = unat (ALIGN_UP re 8) + unat (bitmap_bytes (pmm_init regions rs re))"
    using n a \<open>(unat re + 7) div 8 * 8 \<le> unat re + 7\<close> assms by (simp add: bitmap_end_def unat_plus_simple)
qed

text \<open>A bitmap that ends on a frame boundary: no frame with a byte of the reserved range or of the bitmap is free.\<close>

lemma pmm_init_apart:
  assumes "unat rs \<le> unat re" "unat re < 2 ^ 62" "4096 dvd unat (bitmap_end regions re)"
  shows "frames_of rs (bitmap_end regions re) = frames_touched (unat rs) (unat (bitmap_end regions re))"
    "frames_touched (unat rs) (unat re) \<inter> free_set (pmm_init regions rs re) = {}" "bitmap_apart (pmm_init regions rs re)"
proof -
  let ?p = "pmm_init regions rs re" and ?T = "frames_touched (unat rs) (unat (bitmap_end regions re))"
  note u = bitmap_end_unat(1) [OF assms(2), of regions rs] bitmap_end_unat(2) [OF assms(2)]
  show T: "frames_of rs (bitmap_end regions re) = ?T" by (simp add: frames_touched_aligned [OF assms(3)] frames_of_def)
  have f: "?T \<inter> free_set ?p = {}" unfolding pmm_init_spec(4) T by blast
  have "frames_touched (unat rs) (unat re) \<subseteq> ?T" "bitmap_frames ?p \<subseteq> ?T"
    unfolding bitmap_frames_def pmm_init_spec(3) u(1) using u(2) assms(1) by (intro frames_touched_mono; simp)+
  then show "frames_touched (unat rs) (unat re) \<inter> free_set ?p = {}" "bitmap_apart ?p" using f by (auto simp: bitmap_apart_def)
qed

lemma highest_address_bound: "r \<in> set regions \<Longrightarrow> region_base r + region_length r \<le> highest_address regions"
proof -
  let ?f = "\<lambda>h r. let top = region_base r + region_length r in if top > h then top else h"
  have m: "h \<le> foldl ?f h rs" for h rs
  proof (induction rs arbitrary: h)
    case (Cons a rs)
    then show ?case by (auto simp: Let_def intro: order_trans [OF less_imp_le])
  qed simp
  have "region_base r + region_length r \<le> foldl ?f h rs" if "r \<in> set rs" for h rs
    using that
  proof (induction rs arbitrary: h)
    case (Cons a rs)
    then show ?case using m [of "?f h a" rs] by (auto simp: Let_def split: if_splits intro: order_trans)
  qed simp
  then show "r \<in> set regions \<Longrightarrow> region_base r + region_length r \<le> highest_address regions" by (simp add: highest_address_def)
qed

section \<open>Single frames\<close>

lemma alloc_scan_spec:
  assumes "pmm_inv p"
  shows "(\<exists>n. unat f \<le> n \<and> n \<in> free_set p \<and> (\<forall>m. unat f \<le> m \<and> m < n \<longrightarrow> m \<notin> free_set p)
            \<and> alloc_scan f p = (of_nat n * 4096,
                (bit_set (of_nat n) p)\<lparr>free_frames := free_frames p - 1\<rparr>))
       \<or> ((\<forall>n \<in> free_set p. n < unat f) \<and> alloc_scan f p = (0, p))"
proof (induction f p rule: alloc_scan.induct)
  case (1 f p)
  show ?case
  proof (cases "f < total_frames p \<and> bit_test p f")
    case True
    then have step: "alloc_scan f p = alloc_scan (f + 1) p" by (subst alloc_scan.simps) simp
    have "unat f \<notin> free_set p" using True bit_test_free_set by blast
    moreover have "unat (f + 1) = Suc (unat f)" using True by (simp add: unat_add1_less [of f "total_frames p"])
    ultimately show ?thesis using 1 True unfolding step by (metis Suc_leD Suc_leI le_neq_implies_less less_antisym)
  next
    case False
    show ?thesis
    proof (cases "f < total_frames p")
      case True
      with False have "unat f \<in> free_set p" using bit_test_free_set by blast
      moreover have "alloc_scan f p = (f * 4096, (bit_set f p)\<lparr>free_frames := free_frames p - 1\<rparr>)"
        using True False by (subst alloc_scan.simps) (simp add: PMM_FRAME_SIZE_def)
      ultimately show ?thesis by (intro disjI1 exI [of _ "unat f"]) auto
    next
      case none: False
      then have "alloc_scan f p = (0, p)" by (subst alloc_scan.simps) simp
      moreover have "\<forall>n \<in> free_set p. n < unat f"
        using none by (auto simp: word_less_nat_alt dest: free_set_bound)
      ultimately show ?thesis by blast
    qed
  qed
qed

lemma unat_of_free:
  assumes "pmm_geom p" "n \<in> free_set p"
  shows "unat (of_nat n :: u64) = n" "(of_nat n :: u64) < total_frames p"
    "unat (of_nat n * 4096 :: u64) = n * 4096"
proof -
  have n: "n < 2 ^ 52" using assms free_set_bound [of n p] by (auto simp: pmm_geom_def)
  then show u: "unat (of_nat n :: u64) = n" by (simp add: unat_of_nat_eq)
  then show "(of_nat n :: u64) < total_frames p"
    using free_set_bound [OF assms(2)] by (simp add: word_less_nat_alt)
  show "unat (of_nat n * 4096 :: u64) = n * 4096" using n u by (simp add: unat_times_simple)
qed

text \<open>The two outcomes of \<open>pmm_alloc_frame\<close>: the lowest free frame is taken, or there is none.\<close>

lemma pmm_alloc_frame_cases [consumes 1, case_names found full]:
  assumes "pmm_inv p"
  obtains (found) n p' where "n \<in> free_set p" "\<forall>m \<in> free_set p. n \<le> m"
      "pmm_alloc_frame p = (of_nat n * 4096, p')" "pmm_inv p'" "free_set p' = free_set p - {n}"
      "total_frames p' = total_frames p" "bitmap_addr p' = bitmap_addr p"
    | (full) "free_set p = {}" "pmm_alloc_frame p = (0, p)"
  using alloc_scan_spec [OF assms, of 0]
proof (elim disjE exE conjE)
  fix n
  let ?p' = "(bit_set (of_nat n) p)\<lparr>free_frames := free_frames p - 1\<rparr>"
  assume n: "n \<in> free_set p" and least: "\<forall>m. unat (0 :: u64) \<le> m \<and> m < n \<longrightarrow> m \<notin> free_set p"
    and eq: "alloc_scan 0 p = (of_nat n * 4096, ?p')"
  note u = unat_of_free [OF _ n]
  have "\<not> bit_test p (of_nat n)" using u n assms by (simp add: bit_test_free_set)
  then have "pmm_inv ?p'" using pmm_inv_bit_set [OF assms u(2)] assms by simp
  moreover have "free_set ?p' = free_set p - {n}"
    using assms u by (simp add: free_set_bit_set)
  ultimately show thesis
    using least n eq by (intro found [of n ?p']) (auto simp: pmm_alloc_frame_def intro: leI)
qed (auto simp: pmm_alloc_frame_def intro: full)

lemma pmm_free_frame_spec:
  assumes "pmm_inv p"
  shows "pmm_inv (pmm_free_frame addr p)"
    and "total_frames (pmm_free_frame addr p) = total_frames p"
    and "bitmap_addr (pmm_free_frame addr p) = bitmap_addr p"
    and "free_set (pmm_free_frame addr p) =
       (if unat addr div 4096 < unat (total_frames p)
        then insert (unat addr div 4096) (free_set p) else free_set p)"
proof -
  let ?f = "addr div PMM_FRAME_SIZE"
  have f: "unat ?f = unat addr div 4096" by (simp add: PMM_FRAME_SIZE_def unat_div)
  show "pmm_inv (pmm_free_frame addr p)"
    using assms by (auto simp: pmm_free_frame_def Let_def pmm_inv_bit_clear)
  show "free_set (pmm_free_frame addr p) =
       (if unat addr div 4096 < unat (total_frames p)
        then insert (unat addr div 4096) (free_set p) else free_set p)"
    using assms bit_test_free_set [of ?f p] free_set_bit_clear [of p ?f]
    by (auto simp: pmm_free_frame_def Let_def f [symmetric] word_less_nat_alt word_le_nat_alt)
qed (simp_all add: pmm_free_frame_def Let_def)

section \<open>Runs of frames\<close>

lemma bit_set_loop_spec:
  assumes "pmm_geom p" "hi \<le> total_frames p"
  shows "pmm_geom (bit_set_loop i hi p)
    \<and> total_frames (bit_set_loop i hi p) = total_frames p
    \<and> bitmap_addr (bit_set_loop i hi p) = bitmap_addr p
    \<and> free_set (bit_set_loop i hi p) = free_set p - {unat i..<unat hi}"
  using assms
proof (induction i hi p rule: bit_set_loop.induct)
  case (1 i hi p)
  show ?case
  proof (cases "i < hi")
    case True
    have "{unat i..<unat hi} = insert (unat i) {unat (i + 1)..<unat hi}"
      using True by (auto simp: unat_add1_less [of i hi] word_less_nat_alt)
    then show ?thesis
      using 1 True by (subst (1 2 3 4) bit_set_loop.simps) (auto simp: free_set_bit_set)
  next
    case False
    then have "{unat i..<unat hi} = {}" by (auto simp: word_less_nat_alt)
    then show ?thesis using False 1(2) by (subst (1 2 3 4) bit_set_loop.simps) simp
  qed
qed

lemma free_frames_loop_eq: "free_frames_loop f hi p = mark_loop False f hi p"
  by (induction f hi p rule: free_frames_loop.induct)
    (subst free_frames_loop.simps, subst mark_loop.simps, simp)

lemma pmm_free_frames_spec:
  assumes "pmm_inv p"
  shows "pmm_inv (pmm_free_frames addr count p)"
    and "total_frames (pmm_free_frames addr count p) = total_frames p"
    and "bitmap_addr (pmm_free_frames addr count p) = bitmap_addr p"
    and "free_set (pmm_free_frames addr count p) = free_set p \<union>
       ({unat addr div 4096..<unat (addr div 4096 + count)} \<inter> {..<unat (total_frames p)})"
  using mark_loop_spec [OF assms, of False "addr div 4096" "addr div 4096 + count"]
  by (simp_all add: pmm_free_frames_def free_frames_loop_eq PMM_FRAME_SIZE_def unat_div Let_def)

text \<open>\<open>run_at p n c\<close>: the \<open>c\<close> frames from \<open>n\<close> on are free. \<open>scan_inv\<close> is the loop
  invariant of the search: the current run is maximal to the left and shorter than \<open>count\<close>,
  and no run of \<open>count\<close> frames ends before \<open>f\<close>.\<close>

definition run_at :: "pmm \<Rightarrow> nat \<Rightarrow> nat \<Rightarrow> bool" where
  "run_at p n c \<longleftrightarrow> {n..<n + c} \<subseteq> free_set p"

definition scan_inv :: "u64 \<Rightarrow> u64 \<Rightarrow> u64 \<Rightarrow> u64 \<Rightarrow> pmm \<Rightarrow> bool" where
  "scan_inv count f run_start run_len p \<longleftrightarrow>
     unat run_len \<le> unat f \<and> unat run_len < unat count
     \<and> {unat f - unat run_len..<unat f} \<subseteq> free_set p
     \<and> (0 < unat run_len \<longrightarrow> unat run_start = unat f - unat run_len)
     \<and> (unat run_len < unat f \<longrightarrow> unat f - unat run_len - 1 \<notin> free_set p)
     \<and> (\<forall>n. n + unat count \<le> unat f \<longrightarrow> \<not> run_at p n (unat count))"

lemma run_at_member: "run_at p n c \<Longrightarrow> n \<le> m \<Longrightarrow> m < n + c \<Longrightarrow> m \<in> free_set p"
  by (auto simp: run_at_def)

lemma scan_inv_used:
  assumes "scan_inv count f run_start run_len p" "f < total_frames p" "bit_test p f"
  shows "scan_inv count (f + 1) run_start 0 p"
proof -
  have f: "unat (f + 1) = Suc (unat f)" using assms(2) by (rule unat_add1_less)
  have nf: "unat f \<notin> free_set p" using assms(2,3) bit_test_free_set by blast
  have "\<not> run_at p n (unat count)" if "n + unat count \<le> Suc (unat f)" for n
  proof (cases "n + unat count = Suc (unat f)")
    case True
    then have "n \<le> unat f" "unat f < n + unat count" using assms(1) by (auto simp: scan_inv_def)
    then show ?thesis using nf run_at_member by blast
  next
    case False
    then show ?thesis using that assms(1) by (simp add: scan_inv_def)
  qed
  then show ?thesis using assms(1) nf f by (auto simp: scan_inv_def)
qed

lemma scan_inv_free:
  assumes "scan_inv count f run_start run_len p" "f < total_frames p" "\<not> bit_test p f"
    "run_len + 1 \<noteq> count"
  shows "scan_inv count (f + 1) (if run_len = 0 then f else run_start) (run_len + 1) p"
proof -
  have f: "unat (f + 1) = Suc (unat f)" using assms(2) by (rule unat_add1_less)
  have free: "unat f \<in> free_set p" using assms(2,3) bit_test_free_set by blast
  have "run_len < count" using assms(1) by (simp add: scan_inv_def word_less_nat_alt)
  then have l: "unat (run_len + 1) = Suc (unat run_len)" by (rule unat_add1_less)
  have lt: "Suc (unat run_len) < unat count"
    using assms(1,4) l by (metis Suc_lessI scan_inv_def word_unat_eq_iff)
  have "\<not> run_at p n (unat count)" if "n + unat count \<le> Suc (unat f)" for n
  proof (cases "n + unat count = Suc (unat f)")
    case True
    let ?m = "unat f - unat run_len - 1"
    have "n \<le> ?m" "?m < n + unat count" "unat run_len < unat f" using True lt by auto
    moreover have "?m \<notin> free_set p" using assms(1) \<open>unat run_len < unat f\<close> by (simp add: scan_inv_def)
    ultimately show ?thesis using run_at_member by blast
  next
    case False
    then show ?thesis using that assms(1) by (simp add: scan_inv_def)
  qed
  moreover have "{unat f - unat run_len..<Suc (unat f)} \<subseteq> free_set p"
    using assms(1) free by (auto simp: scan_inv_def less_Suc_eq)
  moreover have "unat (if run_len = 0 then f else run_start) = unat f - unat run_len"
    using assms(1) by (auto simp: scan_inv_def unat_gt_0)
  ultimately show ?thesis using assms(1) f l lt by (auto simp: scan_inv_def)
qed

lemma alloc_frames_scan_hit:
  assumes "f < total_frames p" "\<not> bit_test p f" "run_len + 1 = count"
  shows "alloc_frames_scan count f run_start run_len p =
     ((if run_len = 0 then f else run_start) * 4096,
      (bit_set_loop (if run_len = 0 then f else run_start)
         ((if run_len = 0 then f else run_start) + count) p)\<lparr>free_frames := free_frames p - count\<rparr>)"
  using assms by (subst alloc_frames_scan.simps) (simp add: PMM_FRAME_SIZE_def Let_def)

lemma alloc_frames_scan_spec:
  assumes "pmm_inv p" "scan_inv count f run_start run_len p"
  shows "(\<exists>n. run_at p n (unat count) \<and> (\<forall>m < n. \<not> run_at p m (unat count))
            \<and> alloc_frames_scan count f run_start run_len p = (of_nat n * 4096,
                (bit_set_loop (of_nat n) (of_nat n + count) p)\<lparr>free_frames := free_frames p - count\<rparr>))
       \<or> ((\<forall>n. \<not> run_at p n (unat count)) \<and> alloc_frames_scan count f run_start run_len p = (0, p))"
  using assms
proof (induction count f run_start run_len p rule: alloc_frames_scan.induct)
  case (1 count f run_start run_len p)
  let ?rs = "if run_len = 0 then f else run_start"
  note inv = "1.prems"(2)
  consider (over) "\<not> f < total_frames p" | (used) "f < total_frames p" "bit_test p f"
    | (hit) "f < total_frames p" "\<not> bit_test p f" "run_len + 1 = count"
    | (more) "f < total_frames p" "\<not> bit_test p f" "run_len + 1 \<noteq> count" by blast
  then show ?case
  proof cases
    case over
    have "\<not> run_at p n (unat count)" for n
    proof
      assume run: "run_at p n (unat count)"
      have "n + unat count - 1 \<in> free_set p"
        using run_at_member [OF run, of "n + unat count - 1"] inv by (auto simp: scan_inv_def)
      then have "n + unat count \<le> unat f"
        using over inv free_set_bound [of "n + unat count - 1" p] by (auto simp: word_less_nat_alt scan_inv_def)
      then show False using run inv by (simp add: scan_inv_def)
    qed
    then show ?thesis using over by (subst (1 2) alloc_frames_scan.simps) simp
  next
    case used
    then have "alloc_frames_scan count f run_start run_len p = alloc_frames_scan count (f + 1) run_start 0 p"
      by (subst alloc_frames_scan.simps) simp
    then show ?thesis using "1.IH"(1) [OF used "1.prems"(1) scan_inv_used [OF inv used]] by simp
  next
    case hit
    let ?n = "unat f - unat run_len"
    have "run_len < count" using inv by (simp add: scan_inv_def word_less_nat_alt)
    from unat_add1_less [OF this] have c: "unat count = Suc (unat run_len)" using hit(3) by simp
    have rs: "unat ?rs = ?n" using inv by (auto simp: scan_inv_def unat_gt_0)
    then have rs': "?rs = of_nat ?n" by (rule word_eq_of_nat)
    have "unat run_len \<le> unat f" using inv by (simp add: scan_inv_def)
    then have "{?n..<?n + unat count} = insert (unat f) {?n..<unat f}" unfolding c by auto
    moreover have "unat f \<in> free_set p" using hit bit_test_free_set by blast
    ultimately have "run_at p ?n (unat count)" using inv by (simp add: scan_inv_def run_at_def)
    moreover have "\<forall>m < ?n. \<not> run_at p m (unat count)" using inv c by (auto simp: scan_inv_def)
    moreover have "alloc_frames_scan count f run_start run_len p = (of_nat ?n * 4096,
        (bit_set_loop (of_nat ?n) (of_nat ?n + count) p)\<lparr>free_frames := free_frames p - count\<rparr>)"
      unfolding rs' [symmetric] by (rule alloc_frames_scan_hit [OF hit])
    ultimately show ?thesis by blast
  next
    case more
    then have "alloc_frames_scan count f run_start run_len p
        = alloc_frames_scan count (f + 1) ?rs (run_len + 1) p"
      by (subst alloc_frames_scan.simps) (simp add: Let_def)
    then show ?thesis
      using "1.IH"(2) [OF more(1,2) refl refl more(3) "1.prems"(1) scan_inv_free [OF inv more]] by simp
  qed
qed

lemma run_at_bound:
  assumes "run_at p n c" "0 < c"
  shows "n + c \<le> unat (total_frames p)" "n \<in> free_set p"
  using free_set_bound [of "n + c - 1" p] run_at_member [OF assms(1), of "n + c - 1"]
    run_at_member [OF assms(1), of n] assms(2)
  by auto

lemma pmm_alloc_frames_cases [consumes 2, case_names found full]:
  assumes "pmm_inv p" "count \<noteq> 0"
  obtains (found) n p' where "run_at p n (unat count)" "\<forall>m < n. \<not> run_at p m (unat count)"
      "pmm_alloc_frames count p = (of_nat n * 4096, p')" "pmm_inv p'"
      "free_set p' = free_set p - {n..<n + unat count}"
      "total_frames p' = total_frames p" "bitmap_addr p' = bitmap_addr p"
      "p' = (bit_set_loop (of_nat n) (of_nat n + count) p)\<lparr>free_frames := free_frames p - count\<rparr>"
    | (full) "\<forall>n. \<not> run_at p n (unat count)" "pmm_alloc_frames count p = (0, p)"
proof -
  have c: "0 < unat count" using assms(2) by (simp add: unat_gt_0)
  have "scan_inv count 0 0 0 p" using c by (auto simp: scan_inv_def)
  from alloc_frames_scan_spec [OF assms(1) this] show thesis
  proof (elim disjE exE conjE)
    fix n
    let ?p' = "(bit_set_loop (of_nat n) (of_nat n + count) p)\<lparr>free_frames := free_frames p - count\<rparr>"
    assume run: "run_at p n (unat count)" and least: "\<forall>m < n. \<not> run_at p m (unat count)"
      and eq: "alloc_frames_scan count 0 0 0 p = (of_nat n * 4096, ?p')"
    note b = run_at_bound [OF run c]
    have un: "unat (of_nat n :: u64) = n" using unat_of_free [OF _ b(2)] assms(1) by simp
    have "unat (of_nat n + count) = n + unat count"
      using un b(1) u64_lt [of "total_frames p"] by (simp add: unat_plus_simple)
    then have spec: "pmm_geom ?p'" "total_frames ?p' = total_frames p" "bitmap_addr ?p' = bitmap_addr p"
      "free_set ?p' = free_set p - {n..<n + unat count}"
      using bit_set_loop_spec [of p "of_nat n + count" "of_nat n"] assms(1) b(1) un
      by (simp_all add: word_le_nat_alt)
    have sub: "{n..<n + unat count} \<subseteq> free_set p" using run by (simp add: run_at_def)
    then have "unat count \<le> card (free_set p)"
      using card_mono [OF finite_free_set sub] by simp
    then have "pmm_inv ?p'"
      using spec assms(1) card_Diff_subset [OF _ sub] by (simp add: pmm_inv_def)
    then show thesis using found [OF run least _ _ spec(4,2,3) refl] eq assms(2)
      by (simp add: pmm_alloc_frames_def)
  qed (auto simp: pmm_alloc_frames_def assms(2) intro: full)
qed

section \<open>Equality of allocator states\<close>

lemma frame_used_bit_set_loop:
  assumes "pmm_geom p" "hi \<le> total_frames p"
  shows "frame_used (bit_set_loop i hi p) n \<longleftrightarrow> unat i \<le> n \<and> n < unat hi \<or> frame_used p n"
  using assms
proof (induction i hi p rule: bit_set_loop.induct)
  case (1 i hi p)
  show ?case
  proof (cases "i < hi")
    case True
    then have "i < total_frames p" using 1(3) by simp
    then have "unat i div 8 < length (bitmap p)" using bitmap_index [OF 1(2)] by (simp add: word_less_nat_alt)
    then show ?thesis using 1 True
      by (subst bit_set_loop.simps)
        (auto simp: frame_used_bit_set unat_add1_less [of i hi] word_less_nat_alt)
  next
    case False
    then show ?thesis by (subst bit_set_loop.simps) (auto simp: word_less_nat_alt)
  qed
qed

lemma frame_used_mark_step:
  assumes "pmm_geom p" "f < total_frames p"
  shows "frame_used (mark_step used f p) n \<longleftrightarrow> (if n = unat f then used else frame_used p n)"
  using assms bitmap_index [OF assms(1), of "unat f"]
  by (auto simp: mark_step_def frame_used_bit_set frame_used_bit_clear bit_test_iff word_less_nat_alt)

lemma mark_step_geom [simp]: "pmm_geom (mark_step used f p) = pmm_geom p"
  by (simp add: mark_step_def)

lemma frame_used_mark_loop:
  assumes "pmm_geom p" "lst \<le> total_frames p"
  shows "frame_used (mark_loop used f lst p) n \<longleftrightarrow>
     (if unat f \<le> n \<and> n < unat lst then used else frame_used p n)"
  using assms
proof (induction "unat lst - unat f" arbitrary: f p)
  case 0
  then show ?case by (subst mark_loop_step) (auto simp: word_less_nat_alt)
next
  case (Suc k)
  then have lt: "f < lst" "f < total_frames p" by (auto simp: word_less_nat_alt word_le_nat_alt)
  have "k = unat lst - unat (f + 1)" using Suc.hyps(2) lt by (simp add: unat_add1_less [of f lst])
  from Suc.hyps(1) [OF this, of "mark_step used f p"] show ?case
    using lt Suc.prems
    by (subst mark_loop_step)
      (auto simp: frame_used_mark_step unat_add1_less [of f lst] word_less_nat_alt)
qed

lemma bitmap_eqI:
  assumes "length (bitmap p) = length (bitmap q)" "\<And>n. frame_used p n = frame_used q n"
  shows "bitmap p = bitmap q"
proof (rule nth_equalityI)
  fix i assume "i < length (bitmap p)"
  show "bitmap p ! i = bitmap q ! i"
  proof (rule bit_word_eqI)
    fix k assume "k < LENGTH(8)"
    then have "(8 * i + k) div 8 = i" "(8 * i + k) mod 8 = k" by simp_all
    then show "bit (bitmap p ! i) k = bit (bitmap q ! i) k"
      using assms(2) [of "8 * i + k"] by (simp add: frame_used_def)
  qed
qed (rule assms(1))

lemma pmm_eqI:
  assumes "pmm_inv p" "pmm_inv q" "total_frames p = total_frames q" "bitmap_addr p = bitmap_addr q"
    "\<And>n. frame_used p n = frame_used q n"
  shows "p = q"
proof -
  have "bitmap p = bitmap q" using assms by (intro bitmap_eqI) (auto simp: pmm_inv_def pmm_geom_def)
  moreover have "free_set p = free_set q" using assms(3,5) by (simp add: free_set_def)
  ultimately show ?thesis using assms by (simp add: pmm_inv_def pmm_geom_def)
qed

section \<open>The allocator as an interface\<close>

text \<open>
  What the kernel heap, the page tables and the device drivers rely on. The state type is
  abstract; \<open>frames_free\<close> is the set of frame numbers the provider may still hand out. Frame 0
  is never among them, because address 0 is the error value of the two allocation calls.
\<close>

locale frame_allocator =
  fixes frame_inv :: "'s \<Rightarrow> bool"
    and frames_free :: "'s \<Rightarrow> nat set"
    and alloc_frame :: "'s \<Rightarrow> u64 \<times> 's"
    and alloc_run :: "u64 \<Rightarrow> 's \<Rightarrow> u64 \<times> 's"
    and free_frame :: "u64 \<Rightarrow> 's \<Rightarrow> 's"
  assumes zero_not_free: "frame_inv s \<Longrightarrow> 0 \<notin> frames_free s"
    and finite_free: "frame_inv s \<Longrightarrow> finite (frames_free s)"
    and alloc_frame_ok: "frame_inv s \<Longrightarrow> alloc_frame s = (a, s') \<Longrightarrow> a \<noteq> 0 \<Longrightarrow>
          frame_inv s' \<and> 4096 dvd unat a \<and> unat a div 4096 \<in> frames_free s
          \<and> frames_free s' = frames_free s - {unat a div 4096}"
    and alloc_frame_fail: "frame_inv s \<Longrightarrow> alloc_frame s = (0, s') \<Longrightarrow> s' = s \<and> frames_free s = {}"
    and alloc_run_ok: "frame_inv s \<Longrightarrow> alloc_run c s = (a, s') \<Longrightarrow> a \<noteq> 0 \<Longrightarrow>
          frame_inv s' \<and> 4096 dvd unat a \<and> c \<noteq> 0
          \<and> {unat a div 4096..<unat a div 4096 + unat c} \<subseteq> frames_free s
          \<and> frames_free s' = frames_free s - {unat a div 4096..<unat a div 4096 + unat c}"
    and alloc_run_fail: "frame_inv s \<Longrightarrow> alloc_run c s = (0, s') \<Longrightarrow> s' = s
          \<and> (c = 0 \<or> (\<forall>n. \<not> {n..<n + unat c} \<subseteq> frames_free s))"
    and free_frame_ok: "frame_inv s \<Longrightarrow> unat a div 4096 \<noteq> 0 \<Longrightarrow>
          frame_inv (free_frame a s) \<and> frames_free s \<subseteq> frames_free (free_frame a s)
          \<and> frames_free (free_frame a s) \<subseteq> insert (unat a div 4096) (frames_free s)"

primrec alloc_seq :: "('s \<Rightarrow> u64 \<times> 's) \<Rightarrow> nat \<Rightarrow> 's \<Rightarrow> u64 list \<times> 's" where
  "alloc_seq alloc 0 s = ([], s)"
| "alloc_seq alloc (Suc n) s =
     (let (a, s1) = alloc s; (as, s2) = alloc_seq alloc n s1 in (a # as, s2))"

context frame_allocator
begin

lemma alloc_frame_state:
  assumes "frame_inv s" "alloc_frame s = (a, s')"
  shows "frame_inv s'" "frames_free s' \<subseteq> frames_free s"
    "a \<noteq> 0 \<longleftrightarrow> frames_free s \<noteq> {}"
  using alloc_frame_ok [OF assms] alloc_frame_fail [OF assms(1), of s'] assms
  by (cases "a = 0"; auto)+

lemma alloc_seq_spec:
  assumes "frame_inv s" "alloc_seq alloc_frame n s = (as, s')" "n \<le> card (frames_free s)"
  shows "frame_inv s' \<and> 0 \<notin> set as \<and> distinct as \<and> length as = n
    \<and> frames_free s' = frames_free s - (\<lambda>a. unat a div 4096) ` set as
    \<and> (\<lambda>a. unat a div 4096) ` set as \<subseteq> frames_free s"
  using assms
proof (induction n arbitrary: s as s')
  case 0
  then show ?case by simp
next
  case (Suc n)
  obtain a s1 where one: "alloc_frame s = (a, s1)" by (cases "alloc_frame s")
  obtain as1 where rest: "alloc_seq alloc_frame n s1 = (as1, s')" and as: "as = a # as1"
    using Suc.prems(2) one by (auto split: prod.splits)
  have "frames_free s \<noteq> {}" using Suc.prems(3) by auto
  then have a0: "a \<noteq> 0" using alloc_frame_state(3) [OF Suc.prems(1) one] by simp
  note ok = alloc_frame_ok [OF Suc.prems(1) one a0]
  have "n \<le> card (frames_free s1)"
    using ok Suc.prems(3) finite_free [OF Suc.prems(1)] by simp
  from Suc.IH [OF _ rest this] ok a0 show ?case
    by (force simp: as)
qed

end

definition pmm_ok :: "pmm \<Rightarrow> bool" where
  "pmm_ok p \<longleftrightarrow> pmm_inv p \<and> 0 \<notin> free_set p"

lemma pmm_alloc_frame_ok:
  assumes "pmm_ok p" "pmm_alloc_frame p = (a, p')" "a \<noteq> 0"
  shows "pmm_ok p' \<and> 4096 dvd unat a \<and> unat a div 4096 \<in> free_set p
    \<and> free_set p' = free_set p - {unat a div 4096}"
proof -
  have inv: "pmm_inv p" using assms(1) by (simp add: pmm_ok_def)
  from inv show ?thesis
  proof (cases rule: pmm_alloc_frame_cases)
    case (found n q)
    have "unat a = n * 4096" using found(1,3) assms(2) unat_of_free(3) [of p n] inv by simp
    then show ?thesis using found assms by (auto simp: pmm_ok_def)
  next
    case full
    then show ?thesis using assms by simp
  qed
qed

lemma pmm_alloc_frames_ok:
  assumes "pmm_ok p" "pmm_alloc_frames c p = (a, p')" "a \<noteq> 0"
  shows "pmm_ok p' \<and> 4096 dvd unat a \<and> c \<noteq> 0
    \<and> {unat a div 4096..<unat a div 4096 + unat c} \<subseteq> free_set p
    \<and> free_set p' = free_set p - {unat a div 4096..<unat a div 4096 + unat c}"
proof -
  have inv: "pmm_inv p" using assms(1) by (simp add: pmm_ok_def)
  have c: "c \<noteq> 0" using assms(2,3) by (auto simp: pmm_alloc_frames_def)
  from inv c show ?thesis
  proof (cases rule: pmm_alloc_frames_cases)
    case (found n q)
    have "n \<in> free_set p" using run_at_bound(2) [OF found(1)] c by (simp add: unat_gt_0)
    then have "unat a = n * 4096" using found(3) assms(2) unat_of_free(3) [of p n] inv by simp
    then show ?thesis using found assms(1,2) c by (auto simp: pmm_ok_def run_at_def)
  next
    case full
    then show ?thesis using assms by simp
  qed
qed

lemma pmm_alloc_frame_zero:
  assumes "pmm_ok p" "pmm_alloc_frame p = (0, p')"
  shows "p' = p \<and> free_set p = {}"
proof -
  have inv: "pmm_inv p" using assms(1) by (simp add: pmm_ok_def)
  from inv show ?thesis
  proof (cases rule: pmm_alloc_frame_cases)
    case (found n q)
    then have "n * 4096 = 0" using assms(2) unat_of_free(3) [of p n] inv by simp
    then show ?thesis using found(1) assms(1) by (simp add: pmm_ok_def)
  next
    case full
    then show ?thesis using assms by simp
  qed
qed

lemma pmm_alloc_frames_zero:
  assumes "pmm_ok p" "pmm_alloc_frames c p = (0, p')"
  shows "p' = p \<and> (c = 0 \<or> (\<forall>n. \<not> {n..<n + unat c} \<subseteq> free_set p))"
proof (cases "c = 0")
  case False
  have inv: "pmm_inv p" using assms(1) by (simp add: pmm_ok_def)
  from inv False show ?thesis
  proof (cases rule: pmm_alloc_frames_cases)
    case (found n q)
    have n: "n \<in> free_set p" using run_at_bound(2) [OF found(1)] False by (simp add: unat_gt_0)
    then have "n * 4096 = 0" using found(3) assms(2) unat_of_free(3) [of p n] inv by simp
    then show ?thesis using n assms(1) by (simp add: pmm_ok_def)
  next
    case full
    then show ?thesis using assms(2) by (simp add: run_at_def)
  qed
qed (use assms(2) in \<open>simp add: pmm_alloc_frames_def\<close>)

lemma pmm_free_frame_ok:
  assumes "pmm_ok p" "unat a div 4096 \<noteq> 0"
  shows "pmm_ok (pmm_free_frame a p) \<and> free_set p \<subseteq> free_set (pmm_free_frame a p)
    \<and> free_set (pmm_free_frame a p) \<subseteq> insert (unat a div 4096) (free_set p)"
  using assms pmm_free_frame_spec [of p a] by (auto simp: pmm_ok_def)

interpretation frames: frame_allocator pmm_ok free_set pmm_alloc_frame pmm_alloc_frames pmm_free_frame
proof (unfold_locales, goal_cases)
  case (1 s)
  then show ?case by (simp add: pmm_ok_def)
next
  case (2 s)
  then show ?case by simp
next
  case (3 s a s')
  then show ?case by (rule pmm_alloc_frame_ok)
next
  case (4 s s')
  then show ?case by (rule pmm_alloc_frame_zero)
next
  case (5 s c a s')
  then show ?case by (rule pmm_alloc_frames_ok)
next
  case (6 s c s')
  then show ?case by (rule pmm_alloc_frames_zero)
next
  case (7 s a)
  then show ?case by (rule pmm_free_frame_ok)
qed

section \<open>Properties\<close>

lemma free_count_exact:
  assumes "pmm_inv p"
  shows "unat (pmm_free_frame_count p) = card (free_set p)"
proof -
  have "card (free_set p) \<le> card {..<unat (total_frames p)}"
    by (rule card_mono) (auto simp: free_set_def)
  also have "\<dots> < 2 ^ 52" using assms by (simp add: pmm_inv_def pmm_geom_def)
  finally show ?thesis
    using assms by (simp add: pmm_free_frame_count_def pmm_inv_def unat_of_nat_eq)
qed

text \<open>Property C6. After \<open>pmm_init\<close> on regions that start on frame boundaries, with a bitmap that ends on one, the invariant
  holds; the free frames are exactly the frames that lie within one of the regions and hold no byte of the range from the
  start of the kernel image to the end of the bitmap; in particular no frame of the bitmap can be handed out;
  and the counter \<open>pmm_free_frame_count\<close> is their exact number.\<close>

theorem pmm_init_exact:
  assumes "\<forall>r \<in> set regions. 4096 dvd unat (region_base r) \<and> unat (region_base r) + unat (region_length r) < 2 ^ 64"
    and "unat rs \<le> unat re" "unat re < 2 ^ 62" "4096 dvd unat (bitmap_end regions re)"
  shows "pmm_inv (pmm_init regions rs re) \<and> bitmap_apart (pmm_init regions rs re)
   \<and> free_set (pmm_init regions rs re) =
       {n. (\<exists>r \<in> set regions. unat (region_base r) \<le> n * 4096 \<and> n * 4096 + 4096 \<le> unat (region_base r) + unat (region_length r))
          \<and> n \<notin> frames_touched (unat rs) (unat (bitmap_end regions re))}
   \<and> unat (pmm_free_frame_count (pmm_init regions rs re)) = card (free_set (pmm_init regions rs re))"
proof -
  let ?T = "frames_touched (unat rs) (unat (bitmap_end regions re))"
  have in_region: "n \<in> frames_of (region_base r) (region_base r + region_length r) \<longleftrightarrow>
      unat (region_base r) \<le> n * 4096 \<and> n * 4096 + 4096 \<le> unat (region_base r) + unat (region_length r)" if "r \<in> set regions" for n r
  proof -
    have r: "4096 dvd unat (region_base r)" "unat (region_base r) + unat (region_length r) < 2 ^ 64" using bspec [OF assms(1) that] by simp_all
    obtain k where k: "unat (region_base r) = 4096 * k" using r(1) by (rule dvdE)
    have top: "unat (region_base r + region_length r) = 4096 * k + unat (region_length r)"
      using r(2) k by (simp add: unat_plus_simple)
    have q: "n < m div 4096 \<longleftrightarrow> Suc n * 4096 \<le> m" for m
      using less_eq_div_iff_mult_less_eq [of 4096 "Suc n" m] by (simp only: Suc_le_eq)
    have e: "4096 * k div 4096 = k" "k \<le> n \<longleftrightarrow> 4096 * k \<le> n * 4096" "Suc n * 4096 = n * 4096 + 4096" by simp_all
    show ?thesis unfolding frames_of_def atLeastLessThan_iff top k q by (simp only: e)
  qed
  have "n < unat (highest_address regions) div 4096"
    if "r \<in> set regions" "n \<in> frames_of (region_base r) (region_base r + region_length r)" for n r
    using highest_address_bound [OF that(1)] that(2) div_le_mono [of _ "unat (highest_address regions)" 4096]
    by (fastforce simp: frames_of_def word_le_nat_alt)
  then have "usable_frames regions \<inter> {..<unat (highest_address regions) div 4096} =
      {n. \<exists>r \<in> set regions. unat (region_base r) \<le> n * 4096 \<and> n * 4096 + 4096 \<le> unat (region_base r) + unat (region_length r)}"
    using in_region by (auto simp: usable_frames_def)
  then have "free_set (pmm_init regions rs re) = {n. (\<exists>r \<in> set regions. unat (region_base r) \<le> n * 4096
      \<and> n * 4096 + 4096 \<le> unat (region_base r) + unat (region_length r)) \<and> n \<notin> ?T}"
    unfolding pmm_init_spec(4) pmm_init_apart(1) [OF assms(2-4)] by blast
  then show ?thesis using pmm_init_apart(3) [OF assms(2-4)] pmm_init_spec(1) free_count_exact by blast
qed

theorem pmm_init_exact_witness:
  "free_set (pmm_init [\<lparr>region_base = 0x100000, region_length = 0x700000\<rparr>] 0x100000 0x10FF00) = {272..<2048}
   \<and> unat (pmm_free_frame_count (pmm_init [\<lparr>region_base = 0x100000, region_length = 0x700000\<rparr>] 0x100000 0x10FF00)) = 1776"
proof -
  let ?rs = "[\<lparr>region_base = 0x100000, region_length = 0x700000\<rparr>]"
  have e: "bitmap_end ?rs 0x10FF00 = 0x110000" by (simp add: bitmap_end_def highest_address_def PMM_FRAME_SIZE_def ALIGN_UP_def)
  have d: "4096 dvd unat (bitmap_end ?rs 0x10FF00)" by (simp add: e)
  have T: "frames_touched (unat (0x100000 :: u64)) (unat (bitmap_end ?rs 0x10FF00)) = {256..<272}"
    by (simp add: frames_touched_aligned [OF d]) (simp add: e)
  have "\<forall>r \<in> set ?rs. 4096 dvd unat (region_base r) \<and> unat (region_base r) + unat (region_length r) < 2 ^ 64" by simp
  note x = pmm_init_exact [OF this _ _ d, of "0x100000", unfolded T]
  have "free_set (pmm_init ?rs 0x100000 0x10FF00) = {n. 0x100000 \<le> n * 4096 \<and> n * 4096 + 4096 \<le> 0x800000 \<and> n \<notin> {256..<272}}"
    using x by simp
  also have "\<dots> = {272..<2048}" by (rule set_eqI) (simp, presburger)
  finally have "free_set (pmm_init ?rs 0x100000 0x10FF00) = {272..<2048}" .
  then show ?thesis using x by simp
qed

text \<open>A small concrete machine for the witnesses: 24 KB of RAM at \<open>0x2000\<close>, the kernel image in
  \<open>[0x4000, 0x5000)\<close>.\<close>

definition demo_regions :: "mem_region list" where
  "demo_regions = [\<lparr>region_base = 0x2000, region_length = 0x6000\<rparr>]"

definition demo_pmm :: pmm where
  "demo_pmm = pmm_init demo_regions 0x4000 0x5000"

lemma demo_pmm_facts:
  "pmm_inv demo_pmm" "pmm_ok demo_pmm" "free_set demo_pmm = {2, 3, 5, 6, 7}"
proof -
  show inv: "pmm_inv demo_pmm" by (simp add: demo_pmm_def pmm_init_spec)
  have "free_set demo_pmm = ({2..<8} \<inter> {..<8}) - {4..<5}"
    by (simp add: demo_pmm_def pmm_init_spec usable_frames_def frames_of_def demo_regions_def
        highest_address_def bitmap_end_def ALIGN_UP_def PMM_FRAME_SIZE_def)
  also have "\<dots> = {2, 3, 5, 6, 7}" by auto
  finally show free: "free_set demo_pmm = {2, 3, 5, 6, 7}" .
  show "pmm_ok demo_pmm" using inv free by (simp add: pmm_ok_def)
qed

text \<open>Property C14. While frame 0 is not free, \<open>pmm_alloc_frame\<close> keeps the invariant and returns 0 exactly when no frame is
  free, and then changes nothing; otherwise it returns the lowest free frame, marks that frame
  and no other as used, and decrements the counter.\<close>

theorem pmm_alloc_frame_lowest:
  assumes "pmm_ok p" "pmm_alloc_frame p = (a, p')"
  shows "pmm_ok p' \<and> (a = 0 \<longleftrightarrow> free_set p = {}) \<and>
    (if free_set p = {} then p' = p
     else unat a = Min (free_set p) * 4096
          \<and> free_set p' = free_set p - {Min (free_set p)}
          \<and> unat (pmm_free_frame_count p') + 1 = unat (pmm_free_frame_count p))"
proof -
  have inv: "pmm_inv p" using assms(1) by (simp add: pmm_ok_def)
  from inv show ?thesis
  proof (cases rule: pmm_alloc_frame_cases)
    case (found n q)
    have min: "Min (free_set p) = n" using found(1,2) by (intro Min_eqI) auto
    have "card (free_set p - {n}) + 1 = card (free_set p)"
      using found(1) by (metis Suc_eq_plus1 card_Suc_Diff1 finite_free_set)
    moreover have "unat a = n * 4096" using found(1,3) assms(2) unat_of_free(3) [of p n] inv by simp
    moreover have "n \<noteq> 0" using found(1) assms(1) unfolding pmm_ok_def by metis
    then have "a \<noteq> 0" using \<open>unat a = n * 4096\<close> by auto
    ultimately show ?thesis
      using found assms free_count_exact [of p] free_count_exact [of q] by (auto simp: min pmm_ok_def)
  next
    case full
    then show ?thesis using assms by simp
  qed
qed

theorem pmm_alloc_frame_lowest_witness:
  "pmm_ok demo_pmm \<and> fst (pmm_alloc_frame demo_pmm) = 0x2000
   \<and> free_set (snd (pmm_alloc_frame demo_pmm)) = {3, 5, 6, 7}"
proof -
  have "unat (fst (pmm_alloc_frame demo_pmm)) = 2 * 4096 \<and> free_set (snd (pmm_alloc_frame demo_pmm)) = {3, 5, 6, 7}"
    using pmm_alloc_frame_lowest [OF demo_pmm_facts(2), of "fst (pmm_alloc_frame demo_pmm)"
      "snd (pmm_alloc_frame demo_pmm)"] demo_pmm_facts by auto
  then show ?thesis using demo_pmm_facts(2) by (simp add: word_unat_eq_iff)
qed

text \<open>Property C21. \<open>pmm_alloc_frames count\<close> is first fit over contiguous runs: if some run of
  \<open>count\<close> free frames exists it returns the lowest one and takes exactly those frames;
  otherwise it returns 0 and changes nothing. The invariant, counter included, is kept.\<close>

theorem pmm_alloc_frames_first_fit:
  assumes "pmm_inv p" "count \<noteq> 0" "pmm_alloc_frames count p = (a, p')"
  shows "pmm_inv p' \<and>
    (if \<exists>n. run_at p n (unat count)
     then a = of_nat (LEAST n. run_at p n (unat count)) * 4096
          \<and> free_set p' = free_set p - {unat a div 4096..<unat a div 4096 + unat count}
     else a = 0 \<and> p' = p)"
  using assms(1,2)
proof (cases rule: pmm_alloc_frames_cases)
  case (found n q)
  have least: "(LEAST n. run_at p n (unat count)) = n"
    using found(1,2) by (intro Least_equality) (auto intro: leI)
  have "n \<in> free_set p" using run_at_bound(2) [OF found(1)] assms(2) by (simp add: unat_gt_0)
  then have "unat (of_nat n * 4096 :: u64) = n * 4096" using unat_of_free(3) [of p n] assms(1) by simp
  then show ?thesis using found assms(3) least by auto
next
  case full
  then show ?thesis using assms by auto
qed

lemma demo_run: "(LEAST n. run_at demo_pmm n 3) = 5" "run_at demo_pmm 5 3"
proof -
  show run: "run_at demo_pmm 5 3" by (auto simp: run_at_def demo_pmm_facts)
  have "5 \<le> y" if "run_at demo_pmm y 3" for y
    using run_at_member [OF that, of y] run_at_member [OF that, of "y + 1"]
      run_at_member [OF that, of "y + 2"] by (auto simp: demo_pmm_facts)
  then show "(LEAST n. run_at demo_pmm n 3) = 5" using run by (intro Least_equality) auto
qed

theorem pmm_alloc_frames_first_fit_witness:
  "pmm_inv demo_pmm \<and> (3 :: u64) \<noteq> 0 \<and> fst (pmm_alloc_frames 3 demo_pmm) = 0x5000
   \<and> free_set (snd (pmm_alloc_frames 3 demo_pmm)) = {2, 3}"
proof -
  have c: "unat (3 :: u64) = 3" by simp
  have "\<exists>n. run_at demo_pmm n 3" using demo_run(2) by blast
  then show ?thesis
    using pmm_alloc_frames_first_fit [OF demo_pmm_facts(1), of 3 "fst (pmm_alloc_frames 3 demo_pmm)"
        "snd (pmm_alloc_frames 3 demo_pmm)", unfolded c demo_run] demo_pmm_facts
    by auto
qed

text \<open>Giving a run of frames back undoes its allocation completely: the allocator
  state, bitmap and counter included, is the one before the allocation.\<close>

theorem pmm_free_frames_undoes_alloc:
  assumes "pmm_ok p" "pmm_alloc_frames count p = (a, p')" "a \<noteq> 0"
  shows "pmm_free_frames a count p' = p"
proof -
  have inv: "pmm_inv p" and c: "count \<noteq> 0" using assms by (auto simp: pmm_ok_def pmm_alloc_frames_def)
  from inv c show ?thesis
  proof (cases rule: pmm_alloc_frames_cases)
    case (found n q)
    have q: "q = p'" and a: "a = of_nat n * 4096" using found(3) assms(2) by simp_all
    have c': "0 < unat count" using c by (simp add: unat_gt_0)
    note b = run_at_bound [OF found(1) c']
    have un: "unat (of_nat n :: u64) = n" "unat a = n * 4096"
      using unat_of_free [OF _ b(2)] inv a by simp_all
    have first: "a div 4096 = of_nat n" using un by (intro word_eq_of_nat) (simp add: unat_div)
    have hi: "unat (of_nat n + count) = n + unat count"
      using un b(1) u64_lt [of "total_frames p"] by (simp add: unat_plus_simple)
    have le: "of_nat n + count \<le> total_frames p" using hi b(1) by (simp add: word_le_nat_alt)
    have "frame_used (pmm_free_frames a count p') m = frame_used p m" for m
    proof -
      have "frame_used p' m \<longleftrightarrow> n \<le> m \<and> m < n + unat count \<or> frame_used p m"
        using found(8) frame_used_bit_set_loop [OF _ le, of "of_nat n" m] inv un hi by (simp add: q)
      moreover have "frame_used (pmm_free_frames a count p') m \<longleftrightarrow>
          (if n \<le> m \<and> m < n + unat count then False else frame_used p' m)"
        using frame_used_mark_loop [of p' "of_nat n + count" False "of_nat n" m] le found(4,6) un hi
        by (simp add: pmm_free_frames_def free_frames_loop_eq PMM_FRAME_SIZE_def first Let_def q)
      moreover have "\<not> frame_used p m" if "n \<le> m" "m < n + unat count"
        using run_at_member [OF found(1) that] by (simp add: free_set_def)
      ultimately show ?thesis by auto
    qed
    then show ?thesis
      using found pmm_free_frames_spec [of p' a count] inv by (intro pmm_eqI) (simp_all add: q)
  next
    case full
    then show ?thesis using assms by simp
  qed
qed

theorem pmm_free_frames_undoes_alloc_witness:
  "fst (pmm_alloc_frames 2 demo_pmm) \<noteq> 0
   \<and> pmm_free_frames (fst (pmm_alloc_frames 2 demo_pmm)) 2 (snd (pmm_alloc_frames 2 demo_pmm)) = demo_pmm"
proof -
  have "\<not> (\<forall>n. \<not> {n..<n + unat (2 :: u64)} \<subseteq> free_set demo_pmm)"
    by (auto simp: demo_pmm_facts intro!: exI [of _ 2])
  then have nz: "fst (pmm_alloc_frames 2 demo_pmm) \<noteq> 0"
    using frames.alloc_run_fail [OF demo_pmm_facts(2), of 2 "snd (pmm_alloc_frames 2 demo_pmm)"]
    by (cases "pmm_alloc_frames 2 demo_pmm") auto
  then show ?thesis
    using pmm_free_frames_undoes_alloc [OF demo_pmm_facts(2), of 2 "fst (pmm_alloc_frames 2 demo_pmm)"
        "snd (pmm_alloc_frames 2 demo_pmm)"]
    by simp
qed

text \<open>As long as enough frames are free, successive calls of \<open>pmm_alloc_frame\<close> all
  succeed and never hand out the same frame twice; the frames they return are exactly the ones
  that stop being free.\<close>

theorem pmm_allocations_distinct:
  assumes "pmm_ok p" "n \<le> card (free_set p)" "alloc_seq pmm_alloc_frame n p = (as, p')"
  shows "0 \<notin> set as \<and> distinct as \<and> length as = n \<and> pmm_ok p'
    \<and> (\<lambda>a. unat a div 4096) ` set as \<subseteq> free_set p
    \<and> free_set p' = free_set p - (\<lambda>a. unat a div 4096) ` set as"
  using frames.alloc_seq_spec [OF assms(1,3,2)] by blast

theorem pmm_allocations_distinct_witness:
  "distinct (fst (alloc_seq pmm_alloc_frame 5 demo_pmm))
   \<and> free_set (snd (alloc_seq pmm_alloc_frame 5 demo_pmm)) =
       {2, 3, 5, 6, 7} - (\<lambda>a. unat a div 4096) ` set (fst (alloc_seq pmm_alloc_frame 5 demo_pmm))"
  using pmm_allocations_distinct [OF demo_pmm_facts(2), of 5 "fst (alloc_seq pmm_alloc_frame 5 demo_pmm)"
      "snd (alloc_seq pmm_alloc_frame 5 demo_pmm)"]
  by (simp add: demo_pmm_facts)

lemma pmm_init_bitmap_bytes:
  "bitmap_bytes (pmm_init regions rs re) = (highest_address regions div 4096 + 7) div 8"
  using pmm_init_spec(1,2) [of regions rs re] by (simp add: pmm_inv_def pmm_geom_def)

text \<open>The reservation made by \<open>pmm_init\<close> rounds its end down to a frame boundary. When
  the bitmap does not end on a boundary and the kernel image starts at the lowest usable frame
  (the layout of the x86\_64 build), the first frame that \<open>pmm_alloc_frame\<close> hands out is the one
  that holds the last byte of the bitmap itself.\<close>

theorem pmm_init_bitmap_tail_handed_out:
  fixes regions rs re
  defines "p \<equiv> pmm_init regions rs re"
  assumes nowrap: "unat (bitmap_addr p) + unat (bitmap_bytes p) < 2 ^ 64"
    and unaligned: "(unat (bitmap_addr p) + unat (bitmap_bytes p)) mod 4096 \<noteq> 0"
    and usable: "(unat (bitmap_addr p) + unat (bitmap_bytes p)) div 4096
        \<in> usable_frames regions \<inter> {..<unat (total_frames p)}"
    and low: "\<forall>n \<in> usable_frames regions. unat rs div 4096 \<le> n"
  shows "unat (fst (pmm_alloc_frame p)) \<le> unat (bitmap_addr p) + unat (bitmap_bytes p) - 1
    \<and> unat (bitmap_addr p) + unat (bitmap_bytes p) - 1 < unat (fst (pmm_alloc_frame p)) + 4096"
proof -
  let ?lim = "unat (bitmap_addr p) + unat (bitmap_bytes p)"
  have inv: "pmm_inv p" by (simp add: p_def pmm_init_spec)
  have bend: "unat (bitmap_end regions re) = ?lim"
    using nowrap unfolding p_def pmm_init_bitmap_bytes pmm_init_spec(3)
    by (simp add: bitmap_end_def PMM_FRAME_SIZE_def unat_plus_simple)
  have free: "free_set p = (usable_frames regions \<inter> {..<unat (total_frames p)})
      - {unat rs div 4096..<?lim div 4096}"
    unfolding p_def pmm_init_spec(2) using pmm_init_spec(4) [of regions rs re] bend
    by (simp add: frames_of_def unat_div p_def)
  have min: "Min (free_set p) = ?lim div 4096"
  proof (rule Min_eqI)
    show "?lim div 4096 \<in> free_set p" using usable by (simp add: free)
    fix n assume "n \<in> free_set p"
    then show "?lim div 4096 \<le> n" using low by (auto simp: free)
  qed simp
  have mem: "?lim div 4096 \<in> free_set p" using usable by (simp add: free)
  have "fst (pmm_alloc_frame p) = of_nat (?lim div 4096) * 4096"
    using inv
  proof (cases rule: pmm_alloc_frame_cases)
    case (found n q)
    then have "Min (free_set p) = n" by (intro Min_eqI) auto
    then show ?thesis using found(3) min by simp
  next
    case full
    then show ?thesis using mem by simp
  qed
  then have "unat (fst (pmm_alloc_frame p)) = ?lim div 4096 * 4096"
    using unat_of_free(3) [OF _ mem] inv by simp
  moreover have "?lim div 4096 * 4096 + ?lim mod 4096 = ?lim" by simp
  moreover have "?lim mod 4096 < 4096" by simp
  ultimately show ?thesis using unaligned by linarith
qed

text \<open>The witness is a 128 MB machine as QEMU reports it: RAM from 1 MB on, the kernel image in
  \<open>[0x100000, 0x150123)\<close>. The bitmap ends at \<open>0x151124\<close> and the first frame handed out is
  \<open>0x151000\<close>.\<close>

definition qemu_regions :: "mem_region list" where
  "qemu_regions = [\<lparr>region_base = 0x100000, region_length = 0x7EE0000\<rparr>]"

lemma qemu_layout:
  "unat (bitmap_addr (pmm_init qemu_regions 0x100000 0x150123)) = 0x150128"
  "unat (bitmap_bytes (pmm_init qemu_regions 0x100000 0x150123)) = 4092"
  "unat (total_frames (pmm_init qemu_regions 0x100000 0x150123)) = 0x7FE0"
  "usable_frames qemu_regions = {0x100..<0x7FE0}"
  by (simp_all add: pmm_init_spec pmm_init_bitmap_bytes qemu_regions_def highest_address_def
      ALIGN_UP_def usable_frames_def frames_of_def)

theorem pmm_init_bitmap_tail_handed_out_witness:
  "unat (fst (pmm_alloc_frame (pmm_init qemu_regions 0x100000 0x150123))) \<le> 0x151123
   \<and> 0x151123 < unat (fst (pmm_alloc_frame (pmm_init qemu_regions 0x100000 0x150123))) + 4096"
  using pmm_init_bitmap_tail_handed_out [of qemu_regions "0x100000" "0x150123", unfolded qemu_layout]
  by simp

end
