(* ===== verification/Heap.thy ===== *)
theory Heap
  imports Pmm
begin

text \<open>
  The kernel heap of \<^verbatim>\<open>mm/heap.c\<close>: a list of arenas, each a contiguous run of frames obtained
  from the PMM and tiled by blocks that carry a header (size, free flag, next pointer). Memory is
  an explicit store: \<open>arena_at\<close> and \<open>block_at\<close> give the header found at an address, pointers are
  addresses and 0 is \<open>NULL\<close>. An operation returns \<open>None\<close> where the C code would dereference a
  pointer at which there is no header or would follow a cyclic list for ever; the theorems show
  that this never happens under the invariant \<open>heap_rep\<close>.

  The headers are written to frames obtained from the PMM, and the model changes nothing else by it. That is
  faithful while the heap's frames and the free frames hold no byte of the PMM's bitmap, the predicate
  \<open>bitmap_clear\<close>: it holds of the heap started over a PMM that satisfies \<open>bitmap_apart\<close>, and all operations
  keep it (last section).
\<close>

section \<open>State\<close>

record heap_block =
  hb_size :: usize
  hb_free :: bool
  hb_next :: u64

record heap_arena =
  ha_next :: u64
  ha_frame_count :: u64
  ha_first_block :: u64

record heap =
  heap_pmm :: pmm
  arena_list :: u64
  arena_at :: "u64 \<rightharpoonup> heap_arena"
  block_at :: "u64 \<rightharpoonup> heap_block"

definition HEAP_MIN_ARENA_FRAMES :: u64 where
  "HEAP_MIN_ARENA_FRAMES = 16"

definition HEAP_ALIGN :: usize where
  "HEAP_ALIGN = 8"

definition sizeof_arena :: usize where
  "sizeof_arena = 24"

definition sizeof_block :: usize where
  "sizeof_block = 24"

section \<open>Operations\<close>

definition align_up :: "usize \<Rightarrow> usize \<Rightarrow> usize" where
  "align_up n a = (n + a - 1) AND NOT (a - 1)"

definition grow_heap :: "usize \<Rightarrow> heap \<Rightarrow> u64 \<times> heap" where
  "grow_heap min_bytes h =
     (let needed = sizeof_arena + sizeof_block + min_bytes;
          frames0 = (needed + PMM_FRAME_SIZE - 1) div PMM_FRAME_SIZE;
          frames = (if frames0 < HEAP_MIN_ARENA_FRAMES then HEAP_MIN_ARENA_FRAMES else frames0);
          (base, p) = pmm_alloc_frames frames (heap_pmm h)
      in if base = 0 then (0, h\<lparr>heap_pmm := p\<rparr>)
         else
           let arena = base;
               block = arena + sizeof_arena
           in (arena,
               h\<lparr>heap_pmm := p,
                 block_at := (block_at h)(block \<mapsto>
                   \<lparr>hb_size = frames * PMM_FRAME_SIZE - sizeof_arena - sizeof_block,
                    hb_free = True, hb_next = 0\<rparr>),
                 arena_at := (arena_at h)(arena \<mapsto>
                   \<lparr>ha_next = arena_list h, ha_frame_count = frames, ha_first_block = block\<rparr>),
                 arena_list := arena\<rparr>))"

definition alloc_from_block :: "u64 \<Rightarrow> usize \<Rightarrow> heap \<Rightarrow> (u64 \<times> heap) option" where
  "alloc_from_block block sz h =
     do {
       k \<leftarrow> block_at h block;
       let remainder = hb_size k - sz;
       let (k1, blks) =
         (if remainder > sizeof_block + HEAP_ALIGN then
            let split = block + sizeof_block + sz
            in (k\<lparr>hb_size := sz, hb_next := split\<rparr>,
                (block_at h)(split \<mapsto> \<lparr>hb_size = remainder - sizeof_block,
                                         hb_free = True, hb_next = hb_next k\<rparr>))
          else (k, block_at h));
       Some (block + sizeof_block, h\<lparr>block_at := blks(block \<mapsto> k1\<lparr>hb_free := False\<rparr>)\<rparr>)
     }"

definition heap_init :: "heap \<Rightarrow> heap" where
  "heap_init h = snd (grow_heap 0 h)"

partial_function (option) find_block :: "(u64 \<rightharpoonup> heap_block) \<Rightarrow> u64 \<Rightarrow> usize \<Rightarrow> u64 option" where
  "find_block blks block need =
     (if block = 0 then Some 0
      else do {
        k \<leftarrow> blks block;
        if hb_free k \<and> need \<le> hb_size k then Some block
        else find_block blks (hb_next k) need
      })"

partial_function (option) find_fit :: "heap \<Rightarrow> u64 \<Rightarrow> usize \<Rightarrow> u64 option" where
  "find_fit h arena need =
     (if arena = 0 then Some 0
      else do {
        ar \<leftarrow> arena_at h arena;
        b \<leftarrow> find_block (block_at h) (ha_first_block ar) need;
        if b \<noteq> 0 then Some b else find_fit h (ha_next ar) need
      })"

definition kmalloc :: "usize \<Rightarrow> heap \<Rightarrow> (u64 \<times> heap) option" where
  "kmalloc sz h =
     (if sz = 0 then Some (0, h)
      else
        let aligned = align_up sz HEAP_ALIGN
        in do {
          b \<leftarrow> find_fit h (arena_list h) aligned;
          if b \<noteq> 0 then alloc_from_block b aligned h
          else
            let (arena, h1) = grow_heap aligned h
            in if arena = 0 then Some (0, h1)
               else do {
                 ar \<leftarrow> arena_at h1 arena;
                 alloc_from_block (ha_first_block ar) aligned h1
               }
        })"

definition kfree :: "u64 \<Rightarrow> heap \<Rightarrow> heap option" where
  "kfree ptr h =
     (if ptr = 0 then Some h
      else
        let block = ptr - sizeof_block
        in do {
          k \<leftarrow> block_at h block;
          let blks = (block_at h)(block \<mapsto> k\<lparr>hb_free := True\<rparr>);
          if hb_next k \<noteq> 0 then do {
            nx \<leftarrow> blks (hb_next k);
            Some (if hb_free nx
                  then h\<lparr>block_at := blks(block \<mapsto> k\<lparr>hb_free := True,
                         hb_size := hb_size k + (sizeof_block + hb_size nx), hb_next := hb_next nx\<rparr>)\<rparr>
                  else h\<lparr>block_at := blks\<rparr>)
          }
          else Some (h\<lparr>block_at := blks\<rparr>)
        })"

section \<open>Block chains\<close>

text \<open>\<open>chain blks p e nx bs\<close>: the blocks \<open>bs\<close> tile the addresses from \<open>p\<close> to \<open>e\<close> without gaps,
  each block's next pointer is the following block, the last one's is \<open>nx\<close>, and sizes are
  multiples of 8.\<close>

fun first_of :: "u64 list \<Rightarrow> u64 \<Rightarrow> u64" where
  "first_of [] nx = nx"
| "first_of (b # bs) nx = b"

fun chain :: "(u64 \<rightharpoonup> heap_block) \<Rightarrow> nat \<Rightarrow> nat \<Rightarrow> u64 \<Rightarrow> u64 list \<Rightarrow> bool" where
  "chain blks p e nx [] \<longleftrightarrow> p = e"
| "chain blks p e nx (b # bs) \<longleftrightarrow> unat b = p \<and>
     (case blks b of None \<Rightarrow> False
      | Some k \<Rightarrow> 8 dvd unat (hb_size k) \<and> hb_next k = first_of bs nx
          \<and> chain blks (p + 24 + unat (hb_size k)) e nx bs)"

lemma first_of_append: "first_of (xs @ ys) nx = first_of xs (first_of ys nx)"
  by (cases xs) auto

lemma chain_le: "chain blks p e nx bs \<Longrightarrow> p + 24 * length bs \<le> e"
  by (induction bs arbitrary: p) (fastforce split: option.splits)+

lemma chain_append:
  "chain blks p e nx (xs @ ys) \<longleftrightarrow>
     (\<exists>m. chain blks p m (first_of ys nx) xs \<and> chain blks m e nx ys)"
  by (induction xs arbitrary: p) (auto simp: first_of_append split: option.splits)

lemma chain_cong:
  "(\<And>b. b \<in> set bs \<Longrightarrow> blks b = blks' b) \<Longrightarrow> chain blks p e nx bs = chain blks' p e nx bs"
  by (induction bs arbitrary: p) (auto split: option.splits)

lemma chain_member:
  assumes "chain blks p e nx bs" "b \<in> set bs"
  obtains k where "blks b = Some k" "p \<le> unat b" "unat b + 24 + unat (hb_size k) \<le> e" "8 dvd unat (hb_size k)"
  using assms
proof (induction bs arbitrary: p thesis)
  case Nil
  then show ?case by simp
next
  case (Cons c bs)
  then obtain k where k: "blks c = Some k" "unat c = p" "8 dvd unat (hb_size k)"
    "chain blks (p + 24 + unat (hb_size k)) e nx bs" by (auto split: option.splits)
  show ?case
  proof (cases "b = c")
    case True
    then show ?thesis using Cons.prems(1) [of k] k chain_le [OF k(4)] by simp
  next
    case False
    then have "b \<in> set bs" using Cons.prems(3) by simp
    from Cons.IH [OF _ k(4) this] Cons.prems(1) show ?thesis by (metis add_leD1)
  qed
qed

lemma chain_aligned: "chain blks p e nx bs \<Longrightarrow> 8 dvd p \<Longrightarrow> b \<in> set bs \<Longrightarrow> 8 dvd unat b"
  by (induction bs arbitrary: p) (auto split: option.splits)

lemma chain_separated:
  assumes "chain blks p e nx bs" "b \<in> set bs" "c \<in> set bs" "b \<noteq> c" "blks b = Some k" "blks c = Some l"
  shows "unat b + 24 + unat (hb_size k) \<le> unat c \<or> unat c + 24 + unat (hb_size l) \<le> unat b"
  using assms
proof (induction bs arbitrary: p)
  case Nil
  then show ?case by simp
next
  case (Cons x bs)
  then obtain j where j: "blks x = Some j" "unat x = p"
    "chain blks (p + 24 + unat (hb_size j)) e nx bs" by (auto split: option.splits)
  show ?case
  proof (cases "b = x \<or> c = x")
    case True
    then show ?thesis
    proof
      assume "b = x"
      with Cons.prems have "c \<in> set bs" "j = k" using j by auto
      then show ?thesis using chain_member [OF j(3)] j \<open>b = x\<close> by metis
    next
      assume "c = x"
      with Cons.prems have "b \<in> set bs" "j = l" using j by auto
      then show ?thesis using chain_member [OF j(3)] j \<open>c = x\<close> by metis
    qed
  next
    case False
    then show ?thesis using Cons.IH [OF j(3)] Cons.prems by auto
  qed
qed

lemma chain_distinct: "chain blks p e nx bs \<Longrightarrow> distinct bs"
proof (induction bs arbitrary: p)
  case Nil
  then show ?case by simp
next
  case (Cons b bs)
  then obtain k where k: "chain blks (p + 24 + unat (hb_size k)) e nx bs" "unat b = p" "blks b = Some k"
    by (auto split: option.splits)
  then have "b \<notin> set bs" using chain_member [OF k(1), of b] by force
  then show ?case using Cons.IH [OF k(1)] by simp
qed

lemma chain_unique:
  "chain blks p e 0 bs \<Longrightarrow> chain blks p e 0 cs \<Longrightarrow> 0 < p \<Longrightarrow> bs = cs"
proof (induction bs arbitrary: p cs)
  case Nil
  then show ?case using chain_le [of blks p e 0 cs] by (cases cs) auto
next
  case (Cons b bs)
  then obtain c cs' where cs: "cs = c # cs'"
    using chain_le [of blks p e 0 "b # bs"] by (cases cs) auto
  then have "b = c" using Cons.prems by (simp add: word_unat_eq_iff)
  then show ?case using Cons cs by (auto split: option.splits)
qed

lemma chain_replace:
  assumes "chain blks p e nx (xs @ mid @ ys)"
    and "\<And>m n. chain blks m n (first_of ys nx) mid \<Longrightarrow> chain blks' m n (first_of ys nx) mid'"
    and "\<And>b. b \<in> set xs \<union> set ys \<Longrightarrow> blks' b = blks b"
    and "first_of mid' (first_of ys nx) = first_of mid (first_of ys nx)"
  shows "chain blks' p e nx (xs @ mid' @ ys)"
proof -
  from assms(1) obtain m n where c: "chain blks p m (first_of mid (first_of ys nx)) xs"
    "chain blks m n (first_of ys nx) mid" "chain blks n e nx ys"
    by (auto simp: chain_append first_of_append)
  have "chain blks' p m (first_of mid' (first_of ys nx)) xs"
    using c(1) assms(3,4) chain_cong [of xs blks' blks] by simp
  moreover have "chain blks' n e nx ys" using c(3) assms(3) chain_cong [of ys blks' blks] by simp
  ultimately show ?thesis using assms(2) [OF c(2)] by (auto simp: chain_append first_of_append)
qed

lemma chain_set_free:
  "blks b = Some k \<Longrightarrow> chain (blks(b \<mapsto> k\<lparr>hb_free := f\<rparr>)) p e nx bs = chain blks p e nx bs"
  by (induction bs arbitrary: p) (auto split: option.splits)

definition fits :: "(u64 \<rightharpoonup> heap_block) \<Rightarrow> usize \<Rightarrow> u64 \<Rightarrow> bool" where
  "fits blks need b \<longleftrightarrow> (case blks b of None \<Rightarrow> False | Some k \<Rightarrow> hb_free k \<and> need \<le> hb_size k)"

definition first_fit :: "(u64 \<rightharpoonup> heap_block) \<Rightarrow> usize \<Rightarrow> u64 list \<Rightarrow> u64" where
  "first_fit blks need bs = (case find (fits blks need) bs of None \<Rightarrow> 0 | Some b \<Rightarrow> b)"

lemma find_block_chain:
  "chain blks p e 0 bs \<Longrightarrow> 0 < p \<Longrightarrow> find_block blks (first_of bs 0) need = Some (first_fit blks need bs)"
proof (induction bs arbitrary: p)
  case Nil
  then show ?case by (subst find_block.simps) (simp add: first_fit_def)
next
  case (Cons b bs)
  then have "b \<noteq> 0" by auto
  then show ?case using Cons
    by (subst find_block.simps) (auto simp: first_fit_def fits_def split: option.splits)
qed

section \<open>The heap invariant\<close>

text \<open>\<open>heap_rep h L\<close>: \<open>L\<close> lists the arenas of \<open>h\<close> in list order, each with its blocks. Every arena is
  a run of frames the PMM no longer owns, arenas are disjoint, and the blocks of an arena tile it
  from behind the arena header to its end.\<close>

type_synonym layout = "(u64 \<times> u64 list) list"

fun arena_path :: "(u64 \<rightharpoonup> heap_arena) \<Rightarrow> u64 \<Rightarrow> u64 list \<Rightarrow> bool" where
  "arena_path ars p [] \<longleftrightarrow> p = 0"
| "arena_path ars p (a # as) \<longleftrightarrow> p = a \<and> a \<noteq> 0 \<and>
     (case ars a of None \<Rightarrow> False | Some ar \<Rightarrow> arena_path ars (ha_next ar) as)"

definition arena_frames :: "heap \<Rightarrow> u64 \<Rightarrow> nat set" where
  "arena_frames h a = (case arena_at h a of None \<Rightarrow> {}
     | Some ar \<Rightarrow> {unat a div 4096..<unat a div 4096 + unat (ha_frame_count ar)})"

definition arena_end :: "heap \<Rightarrow> u64 \<Rightarrow> nat" where
  "arena_end h a = (case arena_at h a of None \<Rightarrow> 0
     | Some ar \<Rightarrow> unat a + unat (ha_frame_count ar) * 4096)"

definition arena_ok :: "heap \<Rightarrow> u64 \<times> u64 list \<Rightarrow> bool" where
  "arena_ok h x \<longleftrightarrow> (case x of (a, bs) \<Rightarrow>
     (\<exists>ar. arena_at h a = Some ar \<and> ha_first_block ar = first_of bs 0)
     \<and> 4096 dvd unat a \<and> 0 < unat a \<and> arena_end h a < 2 ^ 64
     \<and> bs \<noteq> [] \<and> chain (block_at h) (unat a + 24) (arena_end h a) 0 bs
     \<and> arena_frames h a \<inter> free_set (heap_pmm h) = {})"

definition heap_rep :: "heap \<Rightarrow> layout \<Rightarrow> bool" where
  "heap_rep h L \<longleftrightarrow> pmm_ok (heap_pmm h)
     \<and> arena_path (arena_at h) (arena_list h) (map fst L)
     \<and> (\<forall>x \<in> set L. arena_ok h x)
     \<and> distinct (map fst L)
     \<and> (\<forall>a \<in> set (map fst L). \<forall>b \<in> set (map fst L). a \<noteq> b \<longrightarrow>
          arena_frames h a \<inter> arena_frames h b = {})"

definition all_blocks :: "layout \<Rightarrow> u64 list" where
  "all_blocks L = concat (map snd L)"

text \<open>The live allocations of a set of blocks: payload address and payload size.\<close>

definition live_in :: "(u64 \<rightharpoonup> heap_block) \<Rightarrow> u64 set \<Rightarrow> (nat \<times> nat) set" where
  "live_in blks B = {(unat b + 24, unat (hb_size k)) | b k. b \<in> B \<and> blks b = Some k \<and> \<not> hb_free k}"

definition live_of :: "heap \<Rightarrow> layout \<Rightarrow> (nat \<times> nat) set" where
  "live_of h L = live_in (block_at h) (set (all_blocks L))"

lemma all_blocks_append [simp]: "all_blocks (L1 @ x # L2) = all_blocks L1 @ snd x @ all_blocks L2"
  by (simp add: all_blocks_def)

lemma all_blocks_Cons [simp]: "all_blocks (x # L) = snd x @ all_blocks L" "all_blocks [] = []"
  by (simp_all add: all_blocks_def)

lemma in_all_blocks: "b \<in> set (all_blocks L) \<longleftrightarrow> (\<exists>x \<in> set L. b \<in> set (snd x))"
  by (auto simp: all_blocks_def)

lemma arena_frame_iff:
  assumes "arena_ok h (a, bs)"
  shows "x div 4096 \<in> arena_frames h a \<longleftrightarrow> unat a \<le> x \<and> x < arena_end h a"
proof -
  from assms obtain ar where ar: "arena_at h a = Some ar" and "4096 dvd unat a"
    by (auto simp: arena_ok_def)
  then obtain q where q: "unat a = 4096 * q" by (auto elim: dvdE)
  then show ?thesis using ar by (auto simp: arena_frames_def arena_end_def)
qed

lemma block_in_arena:
  assumes "arena_ok h (a, bs)" "b \<in> set bs"
  obtains k where "block_at h b = Some k" "unat a + 24 \<le> unat b"
    "unat b + 24 + unat (hb_size k) \<le> arena_end h a" "8 dvd unat (hb_size k)"
    "arena_end h a < 2 ^ 64" "unat b div 4096 \<in> arena_frames h a"
proof -
  have c: "chain (block_at h) (unat a + 24) (arena_end h a) 0 bs" and e: "arena_end h a < 2 ^ 64"
    using assms(1) by (auto simp: arena_ok_def)
  obtain k where k: "block_at h b = Some k" "unat a + 24 \<le> unat b"
    "unat b + 24 + unat (hb_size k) \<le> arena_end h a" "8 dvd unat (hb_size k)"
    using chain_member [OF c assms(2)] by metis
  moreover have "unat b div 4096 \<in> arena_frames h a"
    using arena_frame_iff [OF assms(1)] k(2,3) by simp
  ultimately show thesis using e that by blast
qed

lemma heap_rep_mid:
  assumes "heap_rep h (L1 @ (a, bs) # L2)"
  shows "arena_ok h (a, bs)"
    "\<And>c cs. (c, cs) \<in> set L1 \<union> set L2 \<Longrightarrow> arena_ok h (c, cs) \<and> arena_frames h c \<inter> arena_frames h a = {}"
proof -
  show "arena_ok h (a, bs)" using assms by (simp add: heap_rep_def)
  fix c cs assume c: "(c, cs) \<in> set L1 \<union> set L2"
  let ?L = "L1 @ (a, bs) # L2"
  have dis: "distinct (map fst ?L)" and all: "\<forall>x \<in> set ?L. arena_ok h x"
    and sep: "\<forall>a \<in> set (map fst ?L). \<forall>b \<in> set (map fst ?L). a \<noteq> b \<longrightarrow> arena_frames h a \<inter> arena_frames h b = {}"
    using assms unfolding heap_rep_def by blast+
  have cin: "c \<in> fst ` (set L1 \<union> set L2)" using c by (metis fst_conv imageI)
  then have "c \<noteq> a" using dis by auto
  moreover have "c \<in> set (map fst ?L)" "a \<in> set (map fst ?L)" using cin by auto
  ultimately have "arena_frames h c \<inter> arena_frames h a = {}" using sep by blast
  moreover have "arena_ok h (c, cs)" using all c by auto
  ultimately show "arena_ok h (c, cs) \<and> arena_frames h c \<inter> arena_frames h a = {}" by blast
qed

text \<open>Changing block headers inside one arena only affects that arena's chain.\<close>

lemma heap_rep_update:
  assumes rep: "heap_rep h (L1 @ (a, bs) # L2)"
    and frame: "\<And>x. unat x div 4096 \<notin> arena_frames h a \<Longrightarrow> blks x = block_at h x"
    and chn: "chain blks (unat a + 24) (arena_end h a) 0 bs'"
    and ne: "bs' \<noteq> []" "first_of bs' 0 = first_of bs 0"
  shows "heap_rep (h\<lparr>block_at := blks\<rparr>) (L1 @ (a, bs') # L2)"
proof -
  let ?h = "h\<lparr>block_at := blks\<rparr>"
  have same: "arena_frames ?h = arena_frames h" "arena_end ?h = arena_end h"
    by (simp_all add: arena_frames_def arena_end_def fun_eq_iff)
  have "arena_ok ?h (a, bs')"
    using heap_rep_mid(1) [OF rep] chn ne by (auto simp: arena_ok_def same)
  moreover have "arena_ok ?h (c, cs)" if c: "(c, cs) \<in> set L1 \<union> set L2" for c cs
  proof -
    note o = heap_rep_mid(2) [OF rep c]
    have "blks b = block_at h b" if "b \<in> set cs" for b
      using block_in_arena [of h c cs b] o that frame by (metis disjoint_iff)
    then show ?thesis using o chain_cong [of cs blks "block_at h"] by (auto simp: arena_ok_def same)
  qed
  ultimately have "\<forall>x \<in> set (L1 @ (a, bs') # L2). arena_ok ?h x" by auto
  moreover have "map fst (L1 @ (a, bs') # L2) = map fst (L1 @ (a, bs) # L2)" by simp
  ultimately show ?thesis using rep unfolding heap_rep_def same by simp
qed

lemma live_in_Un: "live_in blks (A \<union> B) = live_in blks A \<union> live_in blks B"
  by (auto simp: live_in_def)

lemma live_in_cong: "(\<And>b. b \<in> B \<Longrightarrow> blks b = blks' b) \<Longrightarrow> live_in blks B = live_in blks' B"
  by (auto simp: live_in_def) (metis)+

lemma heap_blocks_separated:
  assumes "heap_rep h L" "b \<in> set (all_blocks L)" "c \<in> set (all_blocks L)" "b \<noteq> c"
    "block_at h b = Some k" "block_at h c = Some l"
  shows "unat b + 24 + unat (hb_size k) \<le> unat c \<or> unat c + 24 + unat (hb_size l) \<le> unat b"
proof -
  from assms(2,3) obtain a bs a' cs where x: "(a, bs) \<in> set L" "b \<in> set bs" "(a', cs) \<in> set L" "c \<in> set cs"
    by (auto simp: in_all_blocks)
  have ok: "arena_ok h (a, bs)" "arena_ok h (a', cs)" using assms(1) x by (auto simp: heap_rep_def)
  show ?thesis
  proof (cases "a = a'")
    case True
    then have "bs = cs" using assms(1) x(1,3) eq_key_imp_eq_value [of L a bs cs] by (simp add: heap_rep_def)
    then show ?thesis
      using chain_separated [of "block_at h" "unat a + 24" "arena_end h a" 0 bs b c k l] ok x assms
      by (auto simp: arena_ok_def)
  next
    case False
    moreover have "a \<in> set (map fst L)" "a' \<in> set (map fst L)" using x(1,3) by force+
    ultimately have "arena_frames h a \<inter> arena_frames h a' = {}" using assms(1) unfolding heap_rep_def by blast
    then have dis: "\<not> (unat a \<le> y \<and> y < arena_end h a \<and> unat a' \<le> y \<and> y < arena_end h a')" for y
      using arena_frame_iff [OF ok(1)] arena_frame_iff [OF ok(2)] by blast
    obtain "unat a + 24 \<le> unat b" "unat b + 24 + unat (hb_size k) \<le> arena_end h a"
      using block_in_arena [OF ok(1) x(2)] assms(5) by (metis option.inject)
    moreover obtain "unat a' + 24 \<le> unat c" "unat c + 24 + unat (hb_size l) \<le> arena_end h a'"
      using block_in_arena [OF ok(2) x(4)] assms(6) by (metis option.inject)
    ultimately show ?thesis using dis [of "unat b"] dis [of "unat c"] by linarith
  qed
qed

section \<open>Searching and splitting\<close>

lemma find_append: "find P (xs @ ys) = (case find P xs of None \<Rightarrow> find P ys | Some x \<Rightarrow> Some x)"
  by (induction xs) auto

lemma find_fit_path:
  "arena_path (arena_at h) p (map fst L) \<Longrightarrow> \<forall>x \<in> set L. arena_ok h x \<Longrightarrow>
     find_fit h p need = Some (first_fit (block_at h) need (all_blocks L))"
proof (induction L arbitrary: p)
  case Nil
  then show ?case by (subst find_fit.simps) (simp add: first_fit_def)
next
  case (Cons x L)
  obtain a bs where x: "x = (a, bs)" by (cases x)
  have ok: "arena_ok h (a, bs)" using Cons.prems(2) x by simp
  then obtain ar where ar: "arena_at h a = Some ar" "ha_first_block ar = first_of bs 0" "0 < unat a"
    and chn: "chain (block_at h) (unat a + 24) (arena_end h a) 0 bs" by (auto simp: arena_ok_def)
  have path: "p = a" "a \<noteq> 0" "arena_path (arena_at h) (ha_next ar) (map fst L)"
    using Cons.prems(1) x ar(1) by auto
  have fb: "find_block (block_at h) (first_of bs 0) need = Some (first_fit (block_at h) need bs)"
    using find_block_chain [OF chn] by simp
  have rest: "find_fit h (ha_next ar) need = Some (first_fit (block_at h) need (all_blocks L))"
    using Cons.IH [OF path(3)] Cons.prems(2) by simp
  have "b \<noteq> 0" if "find (fits (block_at h) need) bs = Some b" for b
    using block_in_arena [OF ok, of b] that by (auto simp: find_Some_iff) (metis nth_mem)
  then show ?case
    using fb rest path ar x
    by (subst find_fit.simps) (auto simp: first_fit_def find_append split: option.splits)
qed

lemma find_fit_spec:
  "heap_rep h L \<Longrightarrow>
     find_fit h (arena_list h) need = Some (first_fit (block_at h) need (all_blocks L))"
  by (rule find_fit_path) (auto simp: heap_rep_def)

lemma heap_block_facts:
  assumes "heap_rep h L" "b \<in> set (all_blocks L)"
  obtains k where "block_at h b = Some k" "24 < unat b" "unat b + 24 + unat (hb_size k) < 2 ^ 64"
    "8 dvd unat (hb_size k)" "8 dvd unat b"
proof -
  from assms obtain a bs where x: "(a, bs) \<in> set L" "b \<in> set bs" by (auto simp: in_all_blocks)
  have ok: "arena_ok h (a, bs)" using assms(1) x by (auto simp: heap_rep_def)
  from block_in_arena [OF this x(2)] obtain k where k: "block_at h b = Some k" "unat a + 24 \<le> unat b"
    "unat b + 24 + unat (hb_size k) \<le> arena_end h a" "8 dvd unat (hb_size k)" "arena_end h a < 2 ^ 64"
    by metis
  have "4096 dvd unat a" "0 < unat a" and chn: "chain (block_at h) (unat a + 24) (arena_end h a) 0 bs"
    using ok by (auto simp: arena_ok_def)
  then have "8 dvd unat a" using dvd_trans [of 8 4096 "unat a"] by simp
  then have "8 dvd unat b" using chain_aligned [OF chn _ x(2)] by simp
  then show thesis using that [OF k(1)] k \<open>0 < unat a\<close> by simp
qed

lemma live_in_insert:
  "blks b = Some k \<Longrightarrow> live_in blks (insert b B) =
     (if hb_free k then {} else {(unat b + 24, unat (hb_size k))}) \<union> live_in blks B"
  by (auto simp: live_in_def)

lemma live_in_upd_other: "b \<notin> B \<Longrightarrow> live_in (blks(b := v)) B = live_in blks B"
  by (rule live_in_cong) auto

lemma live_in_upd:
  assumes "b \<in> B" "blks b = Some k"
  shows "live_in (blks(b \<mapsto> k')) B = (if hb_free k' then {} else {(unat b + 24, unat (hb_size k'))})
     \<union> live_in blks (B - {b})"
    and "live_in blks B = (if hb_free k then {} else {(unat b + 24, unat (hb_size k))})
     \<union> live_in blks (B - {b})"
  using live_in_insert [of "blks(b \<mapsto> k')" b k' "B - {b}"] live_in_insert [of blks b k "B - {b}"]
    live_in_upd_other [of b "B - {b}" blks "Some k'"] assms
  by (simp_all add: insert_absorb)

lemma heap_split_at:
  assumes "b \<in> set (all_blocks L)"
  obtains L1 a xs ys L2 where "L = L1 @ (a, xs @ b # ys) # L2"
proof -
  from assms obtain a bs where "(a, bs) \<in> set L" "b \<in> set bs" by (auto simp: in_all_blocks)
  then show thesis using that by (metis split_list)
qed

lemma sizes [simp]: "sizeof_block = 24" "sizeof_arena = 24" "HEAP_ALIGN = 8" "PMM_FRAME_SIZE = 4096"
  by (simp_all add: sizeof_block_def sizeof_arena_def HEAP_ALIGN_def PMM_FRAME_SIZE_def)

text \<open>Address arithmetic inside a block that ends below \<open>2 ^ 64\<close>.\<close>

lemma unat_in_block:
  assumes "unat b + 24 + unat sz < 2 ^ 64" "unat need \<le> unat sz"
  shows "unat (b + 24 :: u64) = unat b + 24" "unat (b + 24 + need :: u64) = unat b + 24 + unat need"
  using assms by (simp_all add: unat_plus_simple)

lemma alloc_from_block_exact:
  assumes rep: "heap_rep h L" and b: "b \<in> set (all_blocks L)" and k: "block_at h b = Some k"
    and small: "unat (hb_size k) \<le> unat need + 32" and fit: "need \<le> hb_size k" and free: "hb_free k"
  shows "\<exists>h'. alloc_from_block b need h = Some (b + 24, h') \<and> heap_rep h' L
     \<and> live_of h' L = insert (unat b + 24, unat (hb_size k)) (live_of h L)
     \<and> heap_pmm h' = heap_pmm h"
proof -
  let ?blks = "(block_at h)(b \<mapsto> k\<lparr>hb_free := False\<rparr>)"
  have "\<not> hb_size k - need > 32"
    using small fit by (simp add: word_less_nat_alt unat_minus_simple word_le_nat_alt)
  then have run: "alloc_from_block b need h = Some (b + 24, h\<lparr>block_at := ?blks\<rparr>)"
    using k by (simp add: alloc_from_block_def)
  from b obtain L1 a xs ys L2 where L: "L = L1 @ (a, xs @ b # ys) # L2" by (rule heap_split_at)
  note ok = heap_rep_mid(1) [OF rep [unfolded L]]
  have chn: "chain (block_at h) (unat a + 24) (arena_end h a) 0 (xs @ b # ys)"
    using ok by (auto simp: arena_ok_def)
  have rep': "heap_rep (h\<lparr>block_at := ?blks\<rparr>) L"
    unfolding L
  proof (rule heap_rep_update [OF rep [unfolded L]])
    show "chain ?blks (unat a + 24) (arena_end h a) 0 (xs @ b # ys)"
      using chn k by (simp add: chain_set_free)
    show "?blks x = block_at h x" if "unat x div 4096 \<notin> arena_frames h a" for x
      using block_in_arena [OF ok, of b] that by (metis fun_upd_other in_set_conv_decomp)
  qed simp_all
  have "live_of (h\<lparr>block_at := ?blks\<rparr>) L = insert (unat b + 24, unat (hb_size k)) (live_of h L)"
    using live_in_upd(1) [of b "set (all_blocks L)" "block_at h" k "k\<lparr>hb_free := False\<rparr>"]
      live_in_upd(2) [of b "set (all_blocks L)" "block_at h" k] b k free
    by (simp add: live_of_def)
  then show ?thesis using run rep' by auto
qed

lemma alloc_from_block_split:
  assumes rep: "heap_rep h L" and b: "b \<in> set (all_blocks L)" and k: "block_at h b = Some k"
    and big: "unat need + 32 < unat (hb_size k)" and free: "hb_free k" and dvd: "8 dvd unat need"
  shows "\<exists>h' L'. alloc_from_block b need h = Some (b + 24, h') \<and> heap_rep h' L'
     \<and> live_of h' L' = insert (unat b + 24, unat need) (live_of h L)
     \<and> heap_pmm h' = heap_pmm h"
proof -
  let ?s = "b + 24 + need"
  let ?ks = "\<lparr>hb_size = hb_size k - need - 24, hb_free = True, hb_next = hb_next k\<rparr>"
  let ?kb = "k\<lparr>hb_size := need, hb_next := ?s, hb_free := False\<rparr>"
  let ?blks = "(block_at h)(?s \<mapsto> ?ks, b \<mapsto> ?kb)"
  let ?h = "h\<lparr>block_at := ?blks\<rparr>"
  obtain bnd: "unat b + 24 + unat (hb_size k) < 2 ^ 64" and dvdk: "8 dvd unat (hb_size k)"
    using heap_block_facts [OF rep b] k by (metis option.inject)
  have us: "unat ?s = unat b + 24 + unat need" "unat (b + 24) = unat b + 24"
    using unat_in_block [OF bnd, of need] big by simp_all
  have uk: "unat (hb_size k - need) = unat (hb_size k) - unat need"
    "unat (hb_size k - need - 24) = unat (hb_size k) - unat need - 24"
    using big by (simp_all add: unat_minus_simple)
  have run: "alloc_from_block b need h = Some (b + 24, ?h)"
    using k big uk by (simp add: alloc_from_block_def word_less_nat_alt Let_def)
  have sb: "?s \<noteq> b"
  proof
    assume "?s = b"
    then have "unat ?s = unat b" by (simp only:)
    then show False using us by linarith
  qed
  have fresh: "c \<noteq> ?s" if c: "c \<in> set (all_blocks L)" for c
  proof (cases "c = b")
    case False
    obtain l where "block_at h c = Some l" using heap_block_facts [OF rep c] by metis
    then show ?thesis using heap_blocks_separated [OF rep c b False _ k] us big by auto
  qed (use sb in auto)
  from b obtain L1 a xs ys L2 where L: "L = L1 @ (a, xs @ b # ys) # L2" by (rule heap_split_at)
  note ok = heap_rep_mid(1) [OF rep [unfolded L]]
  have chn: "chain (block_at h) (unat a + 24) (arena_end h a) 0 (xs @ [b] @ ys)"
    using ok by (auto simp: arena_ok_def)
  have bxy: "b \<notin> set xs \<union> set ys" using chain_distinct [OF chn] by auto
  have chn': "chain ?blks (unat a + 24) (arena_end h a) 0 (xs @ [b, ?s] @ ys)"
  proof (rule chain_replace [OF chn])
    show "?blks c = block_at h c" if "c \<in> set xs \<union> set ys" for c
      using that bxy fresh [of c] by (auto simp: L)
    show "chain ?blks m n (first_of ys 0) [b, ?s]" if "chain (block_at h) m n (first_of ys 0) [b]" for m n
      using that k sb us uk big dvd dvdk by auto
  qed simp
  let ?L' = "L1 @ (a, xs @ [b, ?s] @ ys) # L2"
  have "heap_rep ?h ?L'"
  proof (rule heap_rep_update [OF rep [unfolded L] _ chn'])
    obtain kk where kk: "block_at h b = Some kk" "unat a + 24 \<le> unat b"
      "unat b + 24 + unat (hb_size kk) \<le> arena_end h a" "unat b div 4096 \<in> arena_frames h a"
      using block_in_arena [OF ok, of b] by auto
    then have "unat ?s div 4096 \<in> arena_frames h a"
      using arena_frame_iff [OF ok, of "unat ?s"] us big k by simp
    then show "?blks x = block_at h x" if "unat x div 4096 \<notin> arena_frames h a" for x
      using that kk(4) by auto
  qed (auto simp: first_of_append)
  moreover have "live_of ?h ?L' = insert (unat b + 24, unat need) (live_of h L)"
  proof -
    let ?B = "set (all_blocks L)"
    have B: "set (all_blocks ?L') = insert ?s ?B" by (auto simp: L)
    have "live_in ?blks (insert ?s ?B) = live_in ?blks ?B"
      using live_in_insert [of ?blks ?s ?ks ?B] sb by simp
    also have "\<dots> = insert (unat b + 24, unat need) (live_in ((block_at h)(?s \<mapsto> ?ks)) (?B - {b}))"
      using live_in_upd(1) [of b ?B "(block_at h)(?s \<mapsto> ?ks)" k ?kb] b k sb by simp
    also have "live_in ((block_at h)(?s \<mapsto> ?ks)) (?B - {b}) = live_in (block_at h) (?B - {b})"
      using fresh by (intro live_in_upd_other) auto
    also have "\<dots> = live_in (block_at h) ?B"
      using live_in_upd(2) [of b ?B "block_at h" k] b k free by simp
    finally have live: "live_in ?blks (insert ?s ?B) = insert (unat b + 24, unat need) (live_in (block_at h) ?B)" .
    have "block_at ?h = ?blks" by simp
    then show ?thesis unfolding live_of_def B live [symmetric] by (simp only:)
  qed
  ultimately show ?thesis using run by auto
qed

lemma alloc_from_block_spec:
  assumes "heap_rep h L" "b \<in> set (all_blocks L)" "fits (block_at h) need b" "8 dvd unat need"
  shows "\<exists>h' L' n. alloc_from_block b need h = Some (b + 24, h') \<and> heap_rep h' L'
     \<and> unat need \<le> n \<and> n \<le> unat need + 32
     \<and> live_of h' L' = insert (unat b + 24, n) (live_of h L) \<and> heap_pmm h' = heap_pmm h"
proof -
  obtain k where k: "block_at h b = Some k" "hb_free k" "need \<le> hb_size k"
    using assms(3) by (auto simp: fits_def split: option.splits)
  show ?thesis
  proof (cases "unat (hb_size k) \<le> unat need + 32")
    case True
    from alloc_from_block_exact [OF assms(1,2) k(1) True k(3,2)] k(3) True show ?thesis
      by (metis word_le_nat_alt)
  next
    case False
    then have "unat need + 32 < unat (hb_size k)" by simp
    from alloc_from_block_split [OF assms(1,2) k(1) this k(2) assms(4)] show ?thesis
      by (metis le_add1 order_refl)
  qed
qed

section \<open>Growing the heap\<close>

definition arena_request :: "usize \<Rightarrow> u64" where
  "arena_request min_bytes =
     (let frames0 = (24 + 24 + min_bytes + 4096 - 1) div 4096
      in if frames0 < 16 then 16 else frames0)"

lemma arena_request_facts:
  assumes "unat min_bytes < 2 ^ 63"
  shows "unat (arena_request min_bytes) * 4096 \<ge> 48 + unat min_bytes"
    "16 \<le> unat (arena_request min_bytes)" "unat (arena_request min_bytes) < 2 ^ 52"
proof -
  define q where "q = (24 + 24 + min_bytes + 4096 - 1) div 4096"
  have r: "arena_request min_bytes = (if q < 16 then 16 else q)"
    by (simp only: arena_request_def q_def Let_def)
  have "24 + 24 + min_bytes + 4096 - 1 = min_bytes + 4143" by simp
  then have "unat (24 + 24 + min_bytes + 4096 - 1) = unat min_bytes + 4143"
    using assms by (simp only: ) (simp add: unat_plus_simple)
  then have f: "unat q = (unat min_bytes + 4143) div 4096" unfolding q_def
    by (simp only: unat_div) simp
  have up: "48 + m \<le> (m + 4143) div 4096 * 4096" for m :: nat
    using div_mult_mod_eq [of "m + 4143" 4096] mod_less_divisor [of 4096 "m + 4143"] by linarith
  have "(unat min_bytes + 4143) div 4096 < 2 ^ 52" using assms by (intro less_mult_imp_div_less) simp
  then have "48 + unat min_bytes \<le> unat q * 4096" "unat q < 2 ^ 52" using up f by simp_all
  then show "unat (arena_request min_bytes) * 4096 \<ge> 48 + unat min_bytes"
    "16 \<le> unat (arena_request min_bytes)" "unat (arena_request min_bytes) < 2 ^ 52"
    unfolding r by (auto simp: word_less_nat_alt)
qed


text \<open>The state after a successful \<open>grow_heap\<close> that obtained the frames at \<open>base\<close>.\<close>

definition add_arena :: "u64 \<Rightarrow> u64 \<Rightarrow> pmm \<Rightarrow> heap \<Rightarrow> heap" where
  "add_arena base frames p h =
     h\<lparr>heap_pmm := p,
       block_at := (block_at h)(base + 24 \<mapsto>
         \<lparr>hb_size = frames * 4096 - 24 - 24, hb_free = True, hb_next = 0\<rparr>),
       arena_at := (arena_at h)(base \<mapsto>
         \<lparr>ha_next = arena_list h, ha_frame_count = frames, ha_first_block = base + 24\<rparr>),
       arena_list := base\<rparr>"

lemma grow_heap_eq:
  "grow_heap m h = (let (base, p) = pmm_alloc_frames (arena_request m) (heap_pmm h)
     in if base = 0 then (0, h\<lparr>heap_pmm := p\<rparr>) else (base, add_arena base (arena_request m) p h))"
  by (simp only: grow_heap_def arena_request_def add_arena_def HEAP_MIN_ARENA_FRAMES_def Let_def sizes)

lemma arena_path_cong:
  "(\<And>a. a \<in> set as \<Longrightarrow> ars' a = ars a) \<Longrightarrow> arena_path ars' p as = arena_path ars p as"
  by (induction as arbitrary: p) (auto split: option.splits)

lemma heap_rep_cons:
  assumes "heap_rep h L" "pmm_ok (heap_pmm h')" "arena_list h' = a" "a \<noteq> 0"
    and "arena_at h' a = Some ar" "arena_path (arena_at h') (ha_next ar) (map fst L)"
    and "arena_ok h' (a, bs)" "\<forall>x \<in> set L. arena_ok h' x"
    and old: "\<And>c. c \<in> set (map fst L) \<Longrightarrow> c \<noteq> a \<and> arena_frames h' c = arena_frames h c
                \<and> arena_frames h c \<inter> arena_frames h' a = {}"
  shows "heap_rep h' ((a, bs) # L)"
proof -
  have sep: "\<forall>c \<in> set (map fst L). \<forall>d \<in> set (map fst L). c \<noteq> d \<longrightarrow> arena_frames h' c \<inter> arena_frames h' d = {}"
    using assms(1) old unfolding heap_rep_def by metis
  have new: "\<forall>c \<in> set (map fst L). arena_frames h' c \<inter> arena_frames h' a = {}" using old by metis
  have "a \<notin> set (map fst L)" "distinct (map fst L)" using old assms(1) by (blast, simp add: heap_rep_def)
  moreover have "\<forall>c \<in> set (map fst ((a, bs) # L)). \<forall>d \<in> set (map fst ((a, bs) # L)). c \<noteq> d \<longrightarrow>
     arena_frames h' c \<inter> arena_frames h' d = {}"
    using sep new by (simp add: Int_commute)
  ultimately show ?thesis using assms(2-8) unfolding heap_rep_def by simp
qed

lemma add_arena_rep:
  assumes rep: "heap_rep h L" and p: "pmm_ok p" "base \<noteq> 0" "4096 dvd unat base"
    and run: "{unat base div 4096..<unat base div 4096 + unat fr} \<subseteq> free_set (heap_pmm h)"
    and free: "free_set p = free_set (heap_pmm h) - {unat base div 4096..<unat base div 4096 + unat fr}"
    and fr: "16 \<le> unat fr" "unat fr < 2 ^ 52"
  defines "h' \<equiv> add_arena base fr p h"
  shows "heap_rep h' ((base, [base + 24]) # L)" "live_of h' ((base, [base + 24]) # L) = live_of h L"
    "block_at h' (base + 24) = Some \<lparr>hb_size = fr * 4096 - 24 - 24, hb_free = True, hb_next = 0\<rparr>"
    "unat (fr * 4096 - 24 - 24) = unat fr * 4096 - 48"
proof -
  let ?F = "{unat base div 4096..<unat base div 4096 + unat fr}"
  have "unat base div 4096 + unat fr \<le> unat (total_frames (heap_pmm h))"
    using run_at_bound(1) [of "heap_pmm h" "unat base div 4096" "unat fr"] run fr(1) by (simp add: run_at_def)
  moreover have "unat (total_frames (heap_pmm h)) < 4503599627370496"
    using rep by (simp add: heap_rep_def pmm_ok_def pmm_inv_def pmm_geom_def)
  moreover have b: "unat base = unat base div 4096 * 4096" using p(3) by simp
  ultimately have "unat base + unat fr * 4096 < 18446744073709551616" by linarith
  then have bnd: "unat base + unat fr * 4096 < 2 ^ 64" by simp
  have us: "unat (base + 24) = unat base + 24" using bnd fr by (simp add: unat_plus_simple)
  have m: "unat (fr * 4096) = unat fr * 4096" using fr by (simp add: unat_times_simple)
  then show sz: "unat (fr * 4096 - 24 - 24) = unat fr * 4096 - 48" using fr by (simp add: unat_minus_simple)
  have b0: "0 < unat base" using p(2) by (simp add: unat_gt_0)
  have new: "arena_at h' base = Some \<lparr>ha_next = arena_list h, ha_frame_count = fr, ha_first_block = base + 24\<rparr>"
    by (simp add: h'_def add_arena_def)
  show blk: "block_at h' (base + 24) = Some \<lparr>hb_size = fr * 4096 - 24 - 24, hb_free = True, hb_next = 0\<rparr>"
    by (simp add: h'_def add_arena_def)
  have fields: "arena_list h' = base" "heap_pmm h' = p" by (simp_all add: h'_def add_arena_def)
  have fresh: "a \<noteq> base \<and> arena_frames h' a = arena_frames h a \<and> arena_end h' a = arena_end h a
     \<and> arena_frames h a \<inter> ?F = {} \<and> arena_ok h' (a, bs) \<and> (\<forall>c \<in> set bs. c \<noteq> base + 24)"
    if x: "(a, bs) \<in> set L" for a bs
  proof -
    have ok: "arena_ok h (a, bs)" using rep x by (auto simp: heap_rep_def)
    then have dis: "arena_frames h a \<inter> free_set (heap_pmm h) = {}" "arena_frames h a \<inter> ?F = {}"
      using run by (auto simp: arena_ok_def)
    obtain c where c: "c \<in> set bs" using ok by (cases bs) (auto simp: arena_ok_def)
    have nb: "d \<noteq> base + 24" if "d \<in> set bs" for d
    proof
      assume d: "d = base + 24"
      obtain "unat a + 24 \<le> unat d" "unat d \<le> arena_end h a" "unat d div 4096 \<in> arena_frames h a"
        using block_in_arena [OF ok \<open>d \<in> set bs\<close>] by (metis add_leD1)
      moreover have "unat d div 4096 \<in> ?F" using us d b fr by auto
      ultimately show False using dis by blast
    qed
    have "unat a div 4096 \<in> arena_frames h a"
      using arena_frame_iff [OF ok, of "unat a"] block_in_arena [OF ok c] by force
    moreover have "unat base div 4096 \<in> ?F" using fr by simp
    ultimately have ne: "a \<noteq> base" using dis(2) by blast
    then have same: "arena_at h' a = arena_at h a" by (simp add: h'_def add_arena_def)
    then have fe: "arena_frames h' a = arena_frames h a" "arena_end h' a = arena_end h a"
      by (simp_all add: arena_frames_def arena_end_def)
    have "chain (block_at h') q e 0 bs = chain (block_at h) q e 0 bs" for q e
      using nb by (intro chain_cong) (simp add: h'_def add_arena_def)
    then have "arena_ok h' (a, bs)" using ok dis(1) free same fe
      by (auto simp: arena_ok_def h'_def add_arena_def)
    then show ?thesis using ne fe dis(2) nb by blast
  qed
  have nfe: "arena_frames h' base = ?F" "arena_end h' base = unat base + unat fr * 4096"
    by (simp_all add: arena_frames_def arena_end_def new)
  have "arena_ok h' (base, [base + 24])"
    using new blk us p(3) b0 bnd free sz fr by (simp add: arena_ok_def nfe) (auto simp: h'_def add_arena_def)
  moreover have old: "a \<noteq> base \<and> arena_frames h' a = arena_frames h a \<and> arena_frames h a \<inter> ?F = {}"
    if a: "a \<in> set (map fst L)" for a
  proof -
    obtain bs where "(a, bs) \<in> set L" using a by auto
    from fresh [OF this] show ?thesis by blast
  qed
  moreover have "arena_path (arena_at h') (arena_list h) (map fst L)"
  proof -
    have "arena_at h' a = arena_at h a" if "a \<in> set (map fst L)" for a
      using old [OF that] by (simp add: h'_def add_arena_def)
    then show ?thesis using rep arena_path_cong [of "map fst L" "arena_at h'" "arena_at h"]
      by (simp add: heap_rep_def)
  qed
  moreover have "\<forall>x \<in> set L. arena_ok h' x" using fresh by auto
  ultimately show "heap_rep h' ((base, [base + 24]) # L)"
    using p(1) nfe(1) by (intro heap_rep_cons [OF rep _ _ p(2) new]) (simp_all add: fields)
  have "live_in (block_at h') (set (all_blocks L)) = live_in (block_at h) (set (all_blocks L))"
  proof (rule live_in_cong)
    fix c assume "c \<in> set (all_blocks L)"
    then have "c \<noteq> base + 24" using fresh unfolding in_all_blocks by (metis prod.collapse)
    then show "block_at h' c = block_at h c" by (simp add: h'_def add_arena_def)
  qed
  then show "live_of h' ((base, [base + 24]) # L) = live_of h L"
    using live_in_insert [of "block_at h'", OF blk, of "set (all_blocks L)"] by (simp add: live_of_def)
qed

lemma grow_heap_cases [consumes 2, case_names grown full]:
  assumes rep: "heap_rep h L" and m: "unat m < 2 ^ 63"
  obtains (grown) base h' ar where "grow_heap m h = (base, h')" "base \<noteq> 0"
      "heap_rep h' ((base, [base + 24]) # L)" "live_of h' ((base, [base + 24]) # L) = live_of h L"
      "arena_at h' base = Some ar" "ha_first_block ar = base + 24" "fits (block_at h') m (base + 24)"
    | (full) "grow_heap m h = (0, h)" "\<forall>n. \<not> run_at (heap_pmm h) n (unat (arena_request m))"
proof -
  obtain base p where al: "pmm_alloc_frames (arena_request m) (heap_pmm h) = (base, p)" by fastforce
  have ok: "pmm_ok (heap_pmm h)" using rep by (simp add: heap_rep_def)
  note req = arena_request_facts [OF m]
  show thesis
  proof (cases "base = 0")
    case True
    with frames.alloc_run_fail [OF ok al [unfolded True]] req al show thesis
      by (intro full) (auto simp: grow_heap_eq run_at_def)
  next
    case False
    note r = frames.alloc_run_ok [OF ok al False]
    let ?h = "add_arena base (arena_request m) p h"
    have "grow_heap m h = (base, ?h)" using al False by (simp add: grow_heap_eq)
    moreover have "arena_at ?h base = Some \<lparr>ha_next = arena_list h, ha_frame_count = arena_request m,
        ha_first_block = base + 24\<rparr>" by (simp add: add_arena_def)
    moreover note facts = add_arena_rep [OF rep _ False _ _ _ req(2,3), of p]
    ultimately show thesis
      using r False req(1) facts by (intro grown) (auto simp: fits_def word_le_nat_alt)
  qed
qed

section \<open>Allocation and release\<close>

lemma align_up_8: "align_up n 8 = ALIGN_UP n 8"
  by (simp add: align_up_def ALIGN_UP_def)

lemma live_free_absent: "blks b = Some k \<Longrightarrow> hb_free k \<Longrightarrow> (unat b + 24, n) \<notin> live_in blks B"
  by (auto simp: live_in_def word_unat_eq_iff [symmetric])

lemma live_member:
  assumes "(q, n) \<in> live_of h L"
  obtains b k where "b \<in> set (all_blocks L)" "block_at h b = Some k" "\<not> hb_free k" "q = unat b + 24" "n = unat (hb_size k)"
  using assms by (auto simp: live_of_def live_in_def)

lemma live_of_disjoint:
  assumes "heap_rep h L" "(p, m) \<in> live_of h L" "(q, n) \<in> live_of h L" "(p, m) \<noteq> (q, n)"
  shows "p + m + 24 \<le> q \<or> q + n + 24 \<le> p"
proof -
  obtain b k where b: "b \<in> set (all_blocks L)" "block_at h b = Some k" "p = unat b + 24" "m = unat (hb_size k)"
    using live_member [OF assms(2)] by metis
  obtain c l where c: "c \<in> set (all_blocks L)" "block_at h c = Some l" "q = unat c + 24" "n = unat (hb_size l)"
    using live_member [OF assms(3)] by metis
  have "b \<noteq> c" using assms(4) b c by auto
  from heap_blocks_separated [OF assms(1) b(1) c(1) this b(2) c(2)] show ?thesis using b c by linarith
qed

lemma alloc_from_block_live:
  assumes "heap_rep h L" "b \<in> set (all_blocks L)" "fits (block_at h) need b" "8 dvd unat need"
  obtains h' L' n where "alloc_from_block b need h = Some (b + 24, h')" "heap_rep h' L'"
    "unat need \<le> n" "n \<le> unat need + 32" "live_of h' L' = insert (unat (b + 24), n) (live_of h L)"
    "b + 24 \<noteq> 0" "8 dvd unat (b + 24)" "\<forall>m. (unat (b + 24), m) \<notin> live_of h L"
proof -
  from alloc_from_block_spec [OF assms] obtain h' L' n where a: "alloc_from_block b need h = Some (b + 24, h')"
    "heap_rep h' L'" "unat need \<le> n" "n \<le> unat need + 32"
    "live_of h' L' = insert (unat b + 24, n) (live_of h L)" by metis
  obtain k where k: "block_at h b = Some k" "24 < unat b" "unat b + 24 + unat (hb_size k) < 2 ^ 64" "8 dvd unat b"
    using heap_block_facts [OF assms(1,2)] by metis
  have u: "unat (b + 24) = unat b + 24" using k(3) by (simp add: unat_plus_simple)
  have "hb_free k" using assms(3) k(1) by (simp add: fits_def)
  then have "\<forall>m. (unat b + 24, m) \<notin> live_of h L"
    using live_free_absent [of "block_at h", OF k(1)] by (simp add: live_of_def)
  moreover have "b + 24 \<noteq> 0" using u by (metis add_is_0 unat_0 zero_neq_numeral)
  ultimately show thesis using a u k(4) by (intro that [of h' L' n]) auto
qed

lemma first_fit_found:
  assumes "heap_rep h L" "first_fit (block_at h) need (all_blocks L) = b" "b \<noteq> 0"
  shows "b \<in> set (all_blocks L)" "fits (block_at h) need b"
  using assms(2,3) by (auto simp: first_fit_def find_Some_iff split: option.splits)

lemma first_fit_none:
  assumes "heap_rep h L" "first_fit (block_at h) need (all_blocks L) = 0"
  shows "\<forall>b \<in> set (all_blocks L). \<not> fits (block_at h) need b"
proof (cases "find (fits (block_at h) need) (all_blocks L)")
  case None
  then show ?thesis by (auto simp: find_None_iff)
next
  case (Some b)
  then have "b \<in> set (all_blocks L)" by (auto simp: find_Some_iff)
  moreover have "b = 0" using Some assms(2) by (simp add: first_fit_def)
  ultimately show ?thesis using heap_block_facts [OF assms(1), of b] by auto
qed

lemma kmalloc_cases [consumes 3, case_names served refused]:
  assumes rep: "heap_rep h L" and sz: "0 < unat sz" "unat sz < 2 ^ 62"
  obtains (served) ptr h' L' n where "kmalloc sz h = Some (ptr, h')" "heap_rep h' L'" "ptr \<noteq> 0"
      "8 dvd unat ptr" "unat sz \<le> n" "n \<le> unat sz + 39"
      "live_of h' L' = insert (unat ptr, n) (live_of h L)" "\<forall>m. (unat ptr, m) \<notin> live_of h L"
    | (refused) "kmalloc sz h = Some (0, h)"
      "\<forall>b \<in> set (all_blocks L). \<not> fits (block_at h) (align_up sz HEAP_ALIGN) b"
      "\<forall>n. \<not> run_at (heap_pmm h) n (unat (arena_request (align_up sz HEAP_ALIGN)))"
proof -
  let ?al = "align_up sz 8"
  have al: "unat ?al = (unat sz + 7) div 8 * 8" "8 dvd unat ?al"
    using ALIGN_UP_8 [of sz] sz by (simp_all add: align_up_8)
  then have b: "unat sz \<le> unat ?al" "unat ?al \<le> unat sz + 7" by linarith+
  then have b39: "unat ?al + 32 \<le> unat sz + 39" by simp
  have m: "unat ?al < 2 ^ 63" using b sz by simp
  let ?b = "first_fit (block_at h) ?al (all_blocks L)"
  have sz0: "sz \<noteq> 0" using sz by auto
  have run: "kmalloc sz h = (if ?b \<noteq> 0 then alloc_from_block ?b ?al h else
      let (arena, h1) = grow_heap ?al h in if arena = 0 then Some (0, h1)
      else do { ar \<leftarrow> arena_at h1 arena; alloc_from_block (ha_first_block ar) ?al h1 })"
    using find_fit_spec [OF rep, of ?al] sz0 by (simp add: kmalloc_def Let_def)
  show thesis
  proof (cases "?b = 0")
    case False
    note ff = first_fit_found [OF rep refl False]
    obtain h' L' n where a: "alloc_from_block (?b) ?al h = Some (?b + 24, h')" "heap_rep h' L'"
      "unat ?al \<le> n" "n \<le> unat ?al + 32" "live_of h' L' = insert (unat (?b + 24), n) (live_of h L)"
      "?b + 24 \<noteq> 0" "8 dvd unat (?b + 24)" "\<forall>m. (unat (?b + 24), m) \<notin> live_of h L"
      by (rule alloc_from_block_live [OF rep ff al(2)])
    show thesis
      by (rule served [OF _ a(2,6,7) order_trans [OF b(1) a(3)] order_trans [OF a(4) b39]]) (use run False a in simp_all)
  next
    case True
    from rep m show thesis
    proof (cases rule: grow_heap_cases)
      case (grown base h1 ar)
      have mem: "base + 24 \<in> set (all_blocks ((base, [base + 24]) # L))" by simp
      obtain h' L' n where a: "alloc_from_block (base + 24) ?al h1 = Some (base + 24 + 24, h')" "heap_rep h' L'"
      "unat ?al \<le> n" "n \<le> unat ?al + 32" "live_of h' L' = insert (unat (base + 24 + 24), n) (live_of h1 ((base, [base + 24]) # L))"
      "base + 24 + 24 \<noteq> 0" "8 dvd unat (base + 24 + 24)" "\<forall>m. (unat (base + 24 + 24), m) \<notin> live_of h1 ((base, [base + 24]) # L)"
      by (rule alloc_from_block_live [OF grown(3) mem grown(7) al(2)])
    show thesis
      by (rule served [OF _ a(2,6,7) order_trans [OF b(1) a(3)] order_trans [OF a(4) b39]]) (use run True grown a in simp_all)
    next
      case full
      then show thesis using run True first_fit_none [OF rep True] by (intro refused) auto
    qed
  qed
qed

lemma live_in_free_add:
  "blks b = Some k \<Longrightarrow> hb_free k \<Longrightarrow> live_in blks (insert b B) = live_in blks B"
  using live_in_insert [of blks b k B] by simp

text \<open>Releasing a block, before coalescing.\<close>

lemma set_free_spec:
  assumes rep: "heap_rep h L" and b: "b \<in> set (all_blocks L)" and k: "block_at h b = Some k" and used: "\<not> hb_free k"
  defines "h' \<equiv> h\<lparr>block_at := (block_at h)(b \<mapsto> k\<lparr>hb_free := True\<rparr>)\<rparr>"
  shows "heap_rep h' L" "live_of h' L = live_of h L - {(unat b + 24, unat (hb_size k))}"
proof -
  from b obtain L1 a xs ys L2 where L: "L = L1 @ (a, xs @ b # ys) # L2" by (rule heap_split_at)
  note ok = heap_rep_mid(1) [OF rep [unfolded L]]
  show "heap_rep h' L" unfolding L h'_def
  proof (rule heap_rep_update [OF rep [unfolded L]])
    show "chain ((block_at h)(b \<mapsto> k\<lparr>hb_free := True\<rparr>)) (unat a + 24) (arena_end h a) 0 (xs @ b # ys)"
      using ok k by (simp add: chain_set_free arena_ok_def)
    show "((block_at h)(b \<mapsto> k\<lparr>hb_free := True\<rparr>)) x = block_at h x"
      if "unat x div 4096 \<notin> arena_frames h a" for x
      using block_in_arena [OF ok, of b] that by (metis fun_upd_other in_set_conv_decomp)
  qed simp_all
  have "(unat b + 24, unat (hb_size k)) \<notin> live_in (block_at h) (set (all_blocks L) - {b})"
    by (auto simp: live_in_def word_unat_eq_iff [symmetric])
  then show "live_of h' L = live_of h L - {(unat b + 24, unat (hb_size k))}"
    using live_in_upd(1) [of b "set (all_blocks L)" "block_at h" k "k\<lparr>hb_free := True\<rparr>"]
      live_in_upd(2) [of b "set (all_blocks L)" "block_at h" k] b k used
    by (simp add: live_of_def h'_def)
qed

text \<open>Absorbing a free successor into a free block.\<close>

lemma coalesce_spec:
  assumes rep: "heap_rep h (L1 @ (a, xs @ [b, c] @ ys) # L2)"
    and k: "block_at h b = Some k" "hb_free k" and l: "block_at h c = Some l" "hb_free l"
  defines "h' \<equiv> h\<lparr>block_at := (block_at h)(b \<mapsto> k\<lparr>hb_size := hb_size k + (24 + hb_size l), hb_next := hb_next l\<rparr>)\<rparr>"
  shows "heap_rep h' (L1 @ (a, xs @ [b] @ ys) # L2)"
    "live_of h' (L1 @ (a, xs @ [b] @ ys) # L2) = live_of h (L1 @ (a, xs @ [b, c] @ ys) # L2)"
proof -
  let ?L = "L1 @ (a, xs @ [b, c] @ ys) # L2" and ?L' = "L1 @ (a, xs @ [b] @ ys) # L2"
  let ?k = "k\<lparr>hb_size := hb_size k + (24 + hb_size l), hb_next := hb_next l\<rparr>"
  let ?blks = "(block_at h)(b \<mapsto> ?k)"
  note ok = heap_rep_mid(1) [OF rep]
  have chn: "chain (block_at h) (unat a + 24) (arena_end h a) 0 (xs @ [b, c] @ ys)"
    using ok by (auto simp: arena_ok_def)
  have bxy: "b \<notin> set xs \<union> set ys" using chain_distinct [OF chn] by auto
  have cb: "unat c + 24 + unat (hb_size l) < 2 ^ 64"
    using block_in_arena [OF ok, of c] l(1) by fastforce
  have next_c: "unat c = unat b + 24 + unat (hb_size k)"
    using chn k(1) l(1) by (auto simp: chain_append)
  have su: "unat (hb_size k + (24 + hb_size l)) = unat (hb_size k) + (24 + unat (hb_size l))"
    using cb next_c by (simp add: unat_plus_simple)
  have chn': "chain ?blks (unat a + 24) (arena_end h a) 0 (xs @ [b] @ ys)"
  proof (rule chain_replace [OF chn])
    show "chain ?blks m n (first_of ys 0) [b]" if "chain (block_at h) m n (first_of ys 0) [b, c]" for m n
      using that k l su by auto
  qed (use bxy in auto)
  show "heap_rep h' ?L'" unfolding h'_def
  proof (rule heap_rep_update [OF rep _ chn'])
    show "?blks x = block_at h x" if "unat x div 4096 \<notin> arena_frames h a" for x
      using block_in_arena [OF ok, of b] that by fastforce
  qed (auto simp: first_of_append)
  let ?R = "set (all_blocks L1) \<union> set xs \<union> set ys \<union> set (all_blocks L2)"
  have B: "set (all_blocks ?L) = insert b (insert c ?R)" "set (all_blocks ?L') = insert b ?R" by auto
  have bR: "b \<notin> ?R - {b}" by simp
  have "live_in ?blks (insert b ?R) = live_in ?blks (?R - {b})"
    using live_in_free_add [of ?blks b ?k "?R - {b}"] k(2) by simp
  also have "\<dots> = live_in (block_at h) (?R - {b})" by (rule live_in_upd_other [OF bR])
  also have "\<dots> = live_in (block_at h) (insert b ?R)"
    using live_in_free_add [of "block_at h" b k "?R - {b}"] k by simp
  also have "\<dots> = live_in (block_at h) (insert b (insert c ?R))"
    using live_in_free_add [of "block_at h" c l "insert b ?R"] l by (simp add: insert_commute)
  finally have live: "live_in ?blks (insert b ?R) = live_in (block_at h) (insert b (insert c ?R))" .
  have "block_at h' = ?blks" by (simp add: h'_def)
  then show "live_of h' ?L' = live_of h ?L" unfolding live_of_def B live [symmetric] by (simp only:)
qed

lemma kfree_spec:
  assumes rep: "heap_rep h L" and live: "(unat ptr, n) \<in> live_of h L"
  obtains h' L' where "kfree ptr h = Some h'" "heap_rep h' L'"
    "live_of h' L' = live_of h L - {(unat ptr, n)}" "heap_pmm h' = heap_pmm h"
proof -
  obtain b k where b: "b \<in> set (all_blocks L)" "block_at h b = Some k" "\<not> hb_free k"
    "unat ptr = unat b + 24" "n = unat (hb_size k)"
    using live_member [OF live] by metis
  let ?h = "h\<lparr>block_at := (block_at h)(b \<mapsto> k\<lparr>hb_free := True\<rparr>)\<rparr>"
  note f = set_free_spec [OF rep b(1-3)]
  have p0: "ptr \<noteq> 0" using b(4) by auto
  have "unat (ptr - 24) = unat b" using b(4) by (simp add: unat_minus_simple)
  then have pb: "ptr - 24 = b" by (simp add: word_unat_eq_iff)
  from b(1) obtain L1 a xs zs L2 where L: "L = L1 @ (a, xs @ b # zs) # L2" by (rule heap_split_at)
  have ok: "arena_ok h (a, xs @ b # zs)" using heap_rep_mid(1) [OF rep [unfolded L]] .
  then have nx: "hb_next k = first_of zs 0" using b(2) by (auto simp: arena_ok_def chain_append)
  show thesis
  proof (cases zs)
    case Nil
    then have "kfree ptr h = Some ?h" using nx p0 pb b(2) by (simp add: kfree_def Let_def)
    then show thesis using that f b(4,5) by simp
  next
    case (Cons c ys)
    have c: "c \<in> set (all_blocks L)" by (simp add: L Cons)
    have "chain (block_at h) (unat a + 24) (arena_end h a) 0 (xs @ b # zs)" using ok by (auto simp: arena_ok_def)
    from chain_distinct [OF this] have "distinct (xs @ b # zs)" .
    then have "c \<noteq> b" using Cons by auto
    obtain l where l: "block_at h c = Some l" "24 < unat c" using heap_block_facts [OF rep c] by metis
    have c0: "hb_next k \<noteq> 0" "hb_next k = c" using nx Cons l(2) by auto
    show thesis
    proof (cases "hb_free l")
      case False
      then have "kfree ptr h = Some ?h" using c0 l p0 pb b(2) \<open>c \<noteq> b\<close> by (simp add: kfree_def Let_def)
      then show thesis using that f b(4,5) by simp
    next
      case True
      let ?k = "k\<lparr>hb_free := True\<rparr>"
      let ?h2 = "?h\<lparr>block_at := (block_at ?h)(b \<mapsto> ?k\<lparr>hb_size := hb_size ?k + (24 + hb_size l), hb_next := hb_next l\<rparr>)\<rparr>"
      have "kfree ptr h = Some ?h2" using c0 l True p0 pb b(2) \<open>c \<noteq> b\<close> by (simp add: kfree_def Let_def)
      moreover have rep1: "heap_rep ?h (L1 @ (a, xs @ [b, c] @ ys) # L2)" using f(1) L Cons by simp
      note m = coalesce_spec [OF rep1, of ?k l]
      ultimately show thesis using that [of ?h2] m f(2) True l \<open>c \<noteq> b\<close> b(4,5) L Cons by simp
    qed
  qed
qed

section \<open>The layout is determined by the store\<close>

lemma arena_path_unique: "arena_path ars p as \<Longrightarrow> arena_path ars p bs \<Longrightarrow> as = bs"
proof (induction as arbitrary: p bs)
  case Nil
  then show ?case by (cases bs) auto
next
  case (Cons a as)
  then show ?case by (cases bs) (auto split: option.splits)
qed

lemma heap_rep_unique:
  assumes "heap_rep h L" "heap_rep h M"
  shows "L = M"
proof (rule pair_list_eqI)
  show fsts: "map fst L = map fst M"
    using assms arena_path_unique [of "arena_at h" "arena_list h"] by (simp add: heap_rep_def)
  show "map snd L = map snd M"
  proof (rule nth_equalityI)
    show len: "length (map snd L) = length (map snd M)" using fsts by (metis length_map)
    fix i assume "i < length (map snd L)"
    then have i: "i < length L" "i < length M" using len by simp_all
    then have a: "fst (L ! i) = fst (M ! i)" using fsts by (metis nth_map)
    have "arena_ok h (L ! i)" "arena_ok h (M ! i)" using assms i by (simp_all add: heap_rep_def)
    then have "arena_ok h (fst (L ! i), snd (L ! i))" "arena_ok h (fst (L ! i), snd (M ! i))"
      using a by (metis prod.collapse)+
    then show "map snd L ! i = map snd M ! i"
      using chain_unique [of "block_at h" "unat (fst (L ! i)) + 24"] i by (auto simp: arena_ok_def)
  qed
qed

definition heap_inv :: "heap \<Rightarrow> bool" where
  "heap_inv h \<longleftrightarrow> (\<exists>L. heap_rep h L)"

definition live :: "heap \<Rightarrow> (nat \<times> nat) set" where
  "live h = {x. \<exists>L. heap_rep h L \<and> x \<in> live_of h L}"

lemma live_eq: "heap_rep h L \<Longrightarrow> live h = live_of h L"
  unfolding live_def using heap_rep_unique by blast

section \<open>The allocator interface\<close>

text \<open>What the scheduler, the loader and the drivers rely on: \<open>extents\<close> is the set of buffers
  (address, length) handed out and not yet released.\<close>

locale kernel_allocator =
  fixes heap_ok :: "'s \<Rightarrow> bool"
    and extents :: "'s \<Rightarrow> (nat \<times> nat) set"
    and malloc :: "usize \<Rightarrow> 's \<Rightarrow> (u64 \<times> 's) option"
    and release :: "u64 \<Rightarrow> 's \<Rightarrow> 's option"
  assumes malloc_total: "heap_ok s \<Longrightarrow> 0 < unat sz \<Longrightarrow> unat sz < 2 ^ 62 \<Longrightarrow> \<exists>p s'. malloc sz s = Some (p, s')"
    and malloc_ok: "heap_ok s \<Longrightarrow> 0 < unat sz \<Longrightarrow> unat sz < 2 ^ 62 \<Longrightarrow> malloc sz s = Some (p, s') \<Longrightarrow> p \<noteq> 0 \<Longrightarrow>
          heap_ok s' \<and> 8 dvd unat p
          \<and> (\<exists>n \<ge> unat sz. extents s' = insert (unat p, n) (extents s) \<and> (\<forall>m. (unat p, m) \<notin> extents s))"
    and malloc_fail: "heap_ok s \<Longrightarrow> 0 < unat sz \<Longrightarrow> unat sz < 2 ^ 62 \<Longrightarrow> malloc sz s = Some (0, s') \<Longrightarrow> s' = s"
    and malloc_zero: "malloc 0 s = Some (0, s)"
    and release_ok: "heap_ok s \<Longrightarrow> (unat p, n) \<in> extents s \<Longrightarrow>
          \<exists>s'. release p s = Some s' \<and> heap_ok s' \<and> extents s' = extents s - {(unat p, n)}"
    and release_null: "release 0 s = Some s"
    and separate: "heap_ok s \<Longrightarrow> (x, m) \<in> extents s \<Longrightarrow> (y, n) \<in> extents s \<Longrightarrow> (x, m) \<noteq> (y, n) \<Longrightarrow>
          x + m \<le> y \<or> y + n \<le> x"

datatype heap_op = Malloc usize | Kfree u64

fun heap_exec :: "(usize \<Rightarrow> 's \<Rightarrow> (u64 \<times> 's) option) \<Rightarrow> (u64 \<Rightarrow> 's \<Rightarrow> 's option) \<Rightarrow> heap_op list \<Rightarrow> 's \<Rightarrow>
    (u64 list \<times> 's) option" where
  "heap_exec malloc release [] s = Some ([], s)"
| "heap_exec malloc release (Malloc sz # ops) s = do {
     (p, s1) \<leftarrow> malloc sz s;
     (ps, s2) \<leftarrow> heap_exec malloc release ops s1;
     Some (p # ps, s2) }"
| "heap_exec malloc release (Kfree p # ops) s = do {
     s1 \<leftarrow> release p s;
     heap_exec malloc release ops s1 }"

context kernel_allocator
begin

lemma malloc_state:
  assumes "heap_ok s" "0 < unat sz" "unat sz < 2 ^ 62" "malloc sz s = Some (p, s')"
  shows "heap_ok s'" "extents s \<subseteq> extents s'" "p \<noteq> 0 \<Longrightarrow> \<exists>n \<ge> unat sz. (unat p, n) \<in> extents s'"
  using malloc_ok [OF assms] malloc_fail [OF assms(1-3), of s'] assms(1,4)
  by (cases "p = 0"; force)+

lemma malloc_separate:
  assumes "heap_ok s" "0 < unat sz" "unat sz < 2 ^ 62" "malloc sz s = Some (p, s')" "p \<noteq> 0" "(q, n) \<in> extents s"
  shows "unat p + unat sz \<le> q \<or> q + n \<le> unat p"
proof -
  obtain m where m: "unat sz \<le> m" "extents s' = insert (unat p, m) (extents s)" "(unat p, n) \<notin> extents s" "heap_ok s'"
    using malloc_ok [OF assms(1-5)] by blast
  have "(unat p, m) \<noteq> (q, n)" using m(3) assms(6) by auto
  then show ?thesis using separate [OF m(4), of "unat p" m q n] m(1,2) assms(6) by auto
qed

lemma malloc_release:
  assumes "heap_ok s" "0 < unat sz" "unat sz < 2 ^ 62" "malloc sz s = Some (p, s')" "p \<noteq> 0"
  shows "\<exists>s2. release p s' = Some s2 \<and> heap_ok s2 \<and> extents s2 = extents s"
proof -
  obtain m where m: "extents s' = insert (unat p, m) (extents s)" "(unat p, m) \<notin> extents s" "heap_ok s'"
    using malloc_ok [OF assms(1-5)] by blast
  then show ?thesis using release_ok [OF m(3), of p m] by auto
qed

lemma malloc_many:
  assumes "heap_ok s" "\<forall>sz \<in> set szs. 0 < unat sz \<and> unat sz < 2 ^ 62"
  shows "\<exists>ps s'. heap_exec malloc release (map Malloc szs) s = Some (ps, s') \<and> heap_ok s'
     \<and> length ps = length szs \<and> extents s \<subseteq> extents s'
     \<and> (\<forall>i < length ps. ps ! i \<noteq> 0 \<longrightarrow> (\<exists>n \<ge> unat (szs ! i). (unat (ps ! i), n) \<in> extents s'))
     \<and> (\<forall>i < length ps. ps ! i \<noteq> 0 \<longrightarrow> (\<forall>m. (unat (ps ! i), m) \<notin> extents s))
     \<and> (\<forall>i j. i < j \<longrightarrow> j < length ps \<longrightarrow> ps ! i \<noteq> 0 \<longrightarrow> ps ! i \<noteq> ps ! j)"
  using assms
proof (induction szs arbitrary: s)
  case Nil
  then show ?case by simp
next
  case (Cons sz szs)
  have sz: "0 < unat sz" "unat sz < 2 ^ 62" using Cons.prems(2) by auto
  obtain p s1 where p: "malloc sz s = Some (p, s1)" using malloc_total [OF Cons.prems(1) sz] by blast
  note st = malloc_state [OF Cons.prems(1) sz p]
  obtain ps s' where ps: "heap_exec malloc release (map Malloc szs) s1 = Some (ps, s')" "heap_ok s'"
    "length ps = length szs" "extents s1 \<subseteq> extents s'"
    "\<forall>i < length ps. ps ! i \<noteq> 0 \<longrightarrow> (\<exists>n \<ge> unat (szs ! i). (unat (ps ! i), n) \<in> extents s')"
    "\<forall>i < length ps. ps ! i \<noteq> 0 \<longrightarrow> (\<forall>m. (unat (ps ! i), m) \<notin> extents s1)"
    "\<forall>i j. i < j \<longrightarrow> j < length ps \<longrightarrow> ps ! i \<noteq> 0 \<longrightarrow> ps ! i \<noteq> ps ! j"
    using Cons.IH [OF st(1)] Cons.prems(2) by auto
  have first: "\<exists>n \<ge> unat sz. (unat p, n) \<in> extents s1" "\<forall>m. (unat p, m) \<notin> extents s" if "p \<noteq> 0"
    using malloc_ok [OF Cons.prems(1) sz p that] st(3) [OF that] by blast+
  have "ps ! j \<noteq> p" if "p \<noteq> 0" "j < length ps" for j using first(1) [OF that(1)] ps(6) that by metis
  then show ?case
    using p ps st first by (intro exI [of _ "p # ps"] exI [of _ s']) (auto simp: nth_Cons split: nat.splits)
qed

end

lemma kmalloc_inv:
  assumes "heap_inv h" "0 < unat sz" "unat sz < 2 ^ 62" "kmalloc sz h = Some (p, h')" "p \<noteq> 0"
  shows "heap_inv h' \<and> 8 dvd unat p
    \<and> (\<exists>n \<ge> unat sz. live h' = insert (unat p, n) (live h) \<and> (\<forall>m. (unat p, m) \<notin> live h))"
proof -
  obtain L where L: "heap_rep h L" using assms(1) by (auto simp: heap_inv_def)
  from L assms(2,3) show ?thesis
  proof (cases rule: kmalloc_cases)
    case (served ptr h2 L' n)
    then show ?thesis using assms(4) live_eq [OF L] live_eq [OF served(2)] by (auto simp: heap_inv_def)
  qed (use assms(4,5) in simp)
qed

lemma kfree_inv:
  assumes "heap_inv h" "(unat p, n) \<in> live h"
  shows "\<exists>h'. kfree p h = Some h' \<and> heap_inv h' \<and> live h' = live h - {(unat p, n)}"
proof -
  obtain L where L: "heap_rep h L" using assms(1) by (auto simp: heap_inv_def)
  have "(unat p, n) \<in> live_of h L" using assms(2) live_eq [OF L] by simp
  from kfree_spec [OF L this] show ?thesis using live_eq [OF L] live_eq by (metis heap_inv_def)
qed

interpretation kheap: kernel_allocator heap_inv live kmalloc kfree
proof (unfold_locales, goal_cases)
  case (1 s sz)
  then show ?case by (metis heap_inv_def kmalloc_cases)
next
  case (2 s sz p s')
  then show ?case by (rule kmalloc_inv)
next
  case (3 s sz s')
  then obtain L where L: "heap_rep s L" by (auto simp: heap_inv_def)
  from L 3(2,3) show ?case by (cases rule: kmalloc_cases) (use 3(4) in auto)
next
  case (4 s)
  then show ?case by (simp add: kmalloc_def)
next
  case (5 s p n)
  then show ?case by (rule kfree_inv)
next
  case (6 s)
  then show ?case by (simp add: kfree_def)
next
  case (7 s p m q n)
  then obtain L where L: "heap_rep s L" by (auto simp: heap_inv_def)
  then show ?case using live_of_disjoint [OF L] 7 live_eq [OF L] by (metis add_leD1)
qed

section \<open>Properties\<close>

text \<open>Property C28. \<open>kmalloc\<close> of a size below \<open>2 ^ 62\<close> always returns and never follows a wild
  pointer. Either it hands out an 8-byte aligned buffer of at least the requested size and at most
  39 bytes more, disjoint (header included) from every live buffer, and the set of live buffers
  grows by exactly that one; or it returns \<open>NULL\<close> and leaves the heap untouched, and then no free
  block is large enough and the PMM has no run of frames for a new arena.\<close>

theorem kmalloc_correct:
  assumes "heap_rep h L" "0 < unat sz" "unat sz < 2 ^ 62"
  shows "\<exists>ptr h'. kmalloc sz h = Some (ptr, h') \<and> heap_inv h' \<and>
    (if ptr = 0 then h' = h
        \<and> (\<forall>b \<in> set (all_blocks L). \<not> fits (block_at h) (align_up sz 8) b)
        \<and> (\<forall>n. \<not> run_at (heap_pmm h) n (unat (arena_request (align_up sz 8))))
     else 8 dvd unat ptr \<and> (\<exists>n. unat sz \<le> n \<and> n \<le> unat sz + 39
        \<and> live h' = insert (unat ptr, n) (live h)
        \<and> (\<forall>(q, m) \<in> live h. unat ptr + n + 24 \<le> q \<or> q + m + 24 \<le> unat ptr)))"
  using assms
proof (cases rule: kmalloc_cases)
  case (served ptr h' L' n)
  have "unat ptr + n + 24 \<le> q \<or> q + m + 24 \<le> unat ptr" if "(q, m) \<in> live h" for q m
    using live_of_disjoint [OF served(2), of "unat ptr" n q m] served(7,8) that live_eq [OF assms(1)] by auto
  then show ?thesis using served live_eq [OF assms(1)] live_eq [OF served(2)]
    by (intro exI [of _ ptr] exI [of _ h']) (auto simp: heap_inv_def)
next
  case refused
  then show ?thesis using assms(1) by (intro exI [of _ 0] exI [of _ h]) (auto simp: heap_inv_def)
qed

text \<open>A concrete heap: one arena at \<open>0x4000\<close> (the frame reserved in \<open>demo_pmm\<close>) with a used block of
  104 bytes followed by a free block of 3920 bytes.\<close>

definition demo_heap :: heap where
  "demo_heap = \<lparr>heap_pmm = demo_pmm, arena_list = 0x4000,
     arena_at = [0x4000 \<mapsto> \<lparr>ha_next = 0, ha_frame_count = 1, ha_first_block = 0x4018\<rparr>],
     block_at = [0x4018 \<mapsto> \<lparr>hb_size = 104, hb_free = False, hb_next = 0x4098\<rparr>,
                 0x4098 \<mapsto> \<lparr>hb_size = 3920, hb_free = True, hb_next = 0\<rparr>]\<rparr>"

lemma demo_heap_rep: "heap_rep demo_heap [(0x4000, [0x4018, 0x4098])]"
  using demo_pmm_facts
  by (simp add: heap_rep_def demo_heap_def arena_ok_def arena_end_def arena_frames_def)

lemma demo_heap_live: "live demo_heap = {(0x4030, 104)}"
  unfolding live_eq [OF demo_heap_rep] live_of_def live_in_def by (auto simp: demo_heap_def)

theorem kmalloc_correct_witness:
  "heap_rep demo_heap [(0x4000, [0x4018, 0x4098])]
   \<and> (\<exists>ptr h'. kmalloc 100 demo_heap = Some (ptr, h') \<and> heap_inv h' \<and> ptr \<noteq> 0
        \<and> (\<exists>n \<ge> 100. live h' = {(unat ptr, n), (0x4030, 104)}))"
proof -
  have "fits (block_at demo_heap) (align_up 100 8) 0x4098"
    by (simp add: fits_def demo_heap_def align_up_def)
  then show ?thesis
    using kmalloc_correct [OF demo_heap_rep, of 100] demo_heap_rep demo_heap_live by (force split: if_splits)
qed

text \<open>Property C32. \<open>kfree\<close> of a live buffer always returns; afterwards the invariant holds again and
  exactly that buffer is gone from the live set, also when the block is merged with a free
  successor. \<open>kfree(NULL)\<close> does nothing.\<close>

theorem kfree_releases_exactly:
  assumes "heap_inv h" "(unat ptr, n) \<in> live h"
  shows "(\<exists>h'. kfree ptr h = Some h' \<and> heap_inv h' \<and> live h' = live h - {(unat ptr, n)})
    \<and> kfree 0 h = Some h"
  using kheap.release_ok [OF assms] kheap.release_null by blast

theorem kfree_releases_exactly_witness:
  "(unat (0x4030 :: u64), 104) \<in> live demo_heap
   \<and> (\<exists>h'. kfree 0x4030 demo_heap = Some h' \<and> heap_inv h' \<and> live h' = {})"
  using kfree_releases_exactly [of demo_heap "0x4030" 104] demo_heap_rep
  by (auto simp: demo_heap_live heap_inv_def)

lemma heap_init_spec:
  assumes "pmm_ok (heap_pmm h)" "arena_list h = 0"
  shows "heap_inv (heap_init h) \<and> live (heap_init h) = {}
    \<and> ((\<exists>n. run_at (heap_pmm h) n 16) \<longrightarrow>
        (\<exists>a k. heap_rep (heap_init h) [(a, [a + 24])] \<and> block_at (heap_init h) (a + 24) = Some k
           \<and> hb_free k \<and> unat (hb_size k) = 65488))"
proof -
  have rep: "heap_rep h []" using assms by (simp add: heap_rep_def)
  have req: "arena_request 0 = 16" by (simp add: arena_request_def)
  have none: "live_of h [] = {}" by (simp add: live_of_def live_in_def)
  obtain base p where al: "pmm_alloc_frames 16 (heap_pmm h) = (base, p)" by fastforce
  show ?thesis
  proof (cases "base = 0")
    case True
    then have "heap_init h = h" "\<not> (\<exists>n. run_at (heap_pmm h) n 16)"
      using frames.alloc_run_fail [OF assms(1) al [unfolded True]] al
      by (auto simp: heap_init_def grow_heap_eq req run_at_def)
    then show ?thesis using rep live_eq [OF rep] none by (auto simp: heap_inv_def)
  next
    case False
    note r = frames.alloc_run_ok [OF assms(1) al False]
    have i: "heap_init h = add_arena base 16 p h" using al False by (simp add: heap_init_def grow_heap_eq req)
    note a = add_arena_rep [OF rep _ False, of p 16]
    show ?thesis
      using r a live_eq [OF a(1)] none unfolding i by (auto simp: heap_inv_def)
  qed
qed

text \<open>Started on an empty heap over a well-formed PMM, \<open>heap_init\<close> establishes the
  invariant with no live buffer; if the PMM has 16 contiguous free frames the heap then owns one
  arena whose single free block holds 65488 bytes.\<close>

theorem heap_init_establishes:
  assumes "pmm_ok (heap_pmm h)" "arena_list h = 0"
  shows "heap_inv (heap_init h) \<and> live (heap_init h) = {}
    \<and> ((\<exists>n. run_at (heap_pmm h) n 16) \<longrightarrow>
        (\<exists>a k. heap_rep (heap_init h) [(a, [a + 24])] \<and> block_at (heap_init h) (a + 24) = Some k
           \<and> hb_free k \<and> unat (hb_size k) = 65488))"
  using assms by (rule heap_init_spec)

definition boot_heap :: heap where
  "boot_heap = \<lparr>heap_pmm = demo_pmm, arena_list = 0, arena_at = (\<lambda>_. None), block_at = (\<lambda>_. None)\<rparr>"

theorem heap_init_establishes_witness:
  "pmm_ok demo_pmm \<and> heap_inv (heap_init boot_heap) \<and> live (heap_init boot_heap) = {}"
  using heap_init_establishes [of boot_heap] demo_pmm_facts by (simp add: boot_heap_def)

text \<open>The sum \<open>n + a - 1\<close> in \<open>align_up\<close> wraps for requests within 8 bytes of \<open>2 ^ 64\<close>:
  if any block is free, such a request does not fail but is answered with a non-NULL pointer to a
  buffer of at most 32 bytes.\<close>

theorem kmalloc_huge_request_served_small:
  assumes "heap_rep h L" "b \<in> set (all_blocks L)" "block_at h b = Some k" "hb_free k"
    and "2 ^ 64 - 8 < unat sz"
  shows "\<exists>ptr h' n. kmalloc sz h = Some (ptr, h') \<and> ptr \<noteq> 0 \<and> n \<le> 32
    \<and> live h' = insert (unat ptr, n) (live h)"
proof -
  have al: "align_up sz 8 = 0"
  proof -
    have "unat (sz + 7) = unat sz + 7 - 2 ^ 64"
      using assms(5) u64_lt [of sz] by (simp add: unat_word_ariths mod_if)
    then have "unat (sz + 7) < 8" using u64_lt [of sz] by simp
    then have "unat (ALIGN_DOWN (sz + 7) 8) = 0" by (simp add: ALIGN_DOWN_8)
    then show ?thesis by (simp add: align_up_8 ALIGN_UP_eq_DOWN unat_eq_0)
  qed
  let ?b = "first_fit (block_at h) 0 (all_blocks L)"
  have "fits (block_at h) 0 b" using assms(3,4) by (simp add: fits_def)
  then have b0: "?b \<noteq> 0" using first_fit_none [OF assms(1), of 0] assms(2) by blast
  note ff = first_fit_found [OF assms(1) refl b0]
  obtain h' L' n where a: "alloc_from_block ?b 0 h = Some (?b + 24, h')" "heap_rep h' L'"
    "unat (0 :: usize) \<le> n" "n \<le> unat (0 :: usize) + 32" "live_of h' L' = insert (unat (?b + 24), n) (live_of h L)"
    "?b + 24 \<noteq> 0" "8 dvd unat (?b + 24)" "\<forall>m. (unat (?b + 24), m) \<notin> live_of h L"
    by (rule alloc_from_block_live [OF assms(1) ff]) simp_all
  have "sz \<noteq> 0" using assms(5) by auto
  then have "kmalloc sz h = Some (?b + 24, h')"
    using a(1) b0 find_fit_spec [OF assms(1), of 0] by (simp add: kmalloc_def al Let_def)
  then show ?thesis using a live_eq [OF assms(1)] live_eq [OF a(2)] by auto
qed

theorem kmalloc_huge_request_served_small_witness:
  "\<exists>ptr h' n. kmalloc 0xFFFFFFFFFFFFFFFF demo_heap = Some (ptr, h') \<and> ptr \<noteq> 0 \<and> n \<le> 32
     \<and> live h' = {(unat ptr, n), (0x4030, 104)}"
  using kmalloc_huge_request_served_small [OF demo_heap_rep, of "0x4098"
      "\<lparr>hb_size = 3920, hb_free = True, hb_next = 0\<rparr>" "0xFFFFFFFFFFFFFFFF"] demo_heap_live
  by (simp add: demo_heap_def)

section \<open>The frames of the heap\<close>

definition heap_frames :: "heap \<Rightarrow> nat set" where
  "heap_frames h = {f. \<exists>L. heap_rep h L \<and> (\<exists>a \<in> set (map fst L). f \<in> arena_frames h a)}"

lemma heap_frames_eq: "heap_rep h L \<Longrightarrow> heap_frames h = \<Union>(arena_frames h ` set (map fst L))"
  unfolding heap_frames_def using heap_rep_unique by blast

lemma heap_frames_used: "heap_frames h \<inter> free_set (heap_pmm h) = {}"
  by (fastforce simp: heap_frames_def heap_rep_def arena_ok_def)

lemma heap_frames_same:
  assumes "heap_inv h" "heap_inv h'" "arena_list h' = arena_list h" "arena_at h' = arena_at h"
  shows "heap_frames h' = heap_frames h"
proof -
  obtain L L' where L: "heap_rep h L" "heap_rep h' L'" using assms(1,2) by (auto simp: heap_inv_def)
  have "map fst L' = map fst L"
    using L assms(3,4) arena_path_unique [of "arena_at h" "arena_list h" "map fst L" "map fst L'"] by (simp add: heap_rep_def)
  moreover have "arena_frames h' = arena_frames h" using assms(4) by (simp add: arena_frames_def fun_eq_iff)
  ultimately show ?thesis by (simp add: heap_frames_eq [OF L(1)] heap_frames_eq [OF L(2)])
qed

lemma alloc_from_block_arenas:
  "alloc_from_block b n h = Some (p, h') \<Longrightarrow> arena_list h' = arena_list h \<and> arena_at h' = arena_at h \<and> heap_pmm h' = heap_pmm h"
  by (auto simp: alloc_from_block_def Let_def split: bind_splits if_splits)

lemma kfree_arenas: "kfree p h = Some h' \<Longrightarrow> arena_list h' = arena_list h \<and> arena_at h' = arena_at h \<and> heap_pmm h' = heap_pmm h"
  by (auto simp: kfree_def Let_def split: if_splits option.splits bind_splits)

text \<open>The heap grows only into free frames.\<close>

lemma kmalloc_frames:
  assumes "heap_inv h" "0 < unat sz" "unat sz < 2 ^ 62" "kmalloc sz h = Some (p, h')"
  shows "heap_frames h' \<subseteq> heap_frames h \<union> free_set (heap_pmm h)"
proof -
  obtain L where L: "heap_rep h L" using assms(1) by (auto simp: heap_inv_def)
  have inv: "heap_inv h'" using kheap.malloc_state(1) [OF assms] .
  let ?al = "align_up sz HEAP_ALIGN"
  have m: "unat ?al < 2 ^ 63" using ALIGN_UP_8 [of sz] assms(3) by (simp add: align_up_8)
  have sz0: "sz \<noteq> 0" using assms(2) by auto
  have same: ?thesis if "alloc_from_block b n h = Some (p, h')" for b n
    using heap_frames_same [OF assms(1) inv] alloc_from_block_arenas [OF that] by simp
  from L m show ?thesis
  proof (cases rule: grow_heap_cases)
    case (grown base h1 ar)
    have h1: "heap_inv h1" using grown(3) by (auto simp: heap_inv_def)
    obtain q where q: "pmm_alloc_frames (arena_request ?al) (heap_pmm h) = (base, q)" "h1 = add_arena base (arena_request ?al) q h"
      using grown(1,2) by (auto simp: grow_heap_eq split: prod.splits if_splits)
    have ok: "pmm_ok (heap_pmm h)" using L by (simp add: heap_rep_def)
    have "arena_frames h1 base \<subseteq> free_set (heap_pmm h)"
      using frames.alloc_run_ok [OF ok q(1) grown(2)] by (simp add: arena_frames_def q(2) add_arena_def)
    moreover have "arena_frames h1 c = arena_frames h c" if "c \<in> set (map fst L)" for c
      using grown(3) that by (auto simp: heap_rep_def arena_frames_def q(2) add_arena_def)
    ultimately have F: "heap_frames h1 \<subseteq> heap_frames h \<union> free_set (heap_pmm h)"
      unfolding heap_frames_eq [OF L] heap_frames_eq [OF grown(3)] by auto
    have "heap_frames h' = heap_frames h1" if "alloc_from_block b n h1 = Some (p, h')" for b n
      using heap_frames_same [OF h1 inv] alloc_from_block_arenas [OF that] by simp
    then show ?thesis using assms(4) same F grown(1,2) sz0
      by (auto simp: kmalloc_def Let_def split: bind_splits if_splits)
  next
    case full
    then show ?thesis using assms(4) same sz0 by (auto simp: kmalloc_def Let_def split: bind_splits if_splits)
  qed
qed

text \<open>Frames that do not belong to the heap may be given back behind its back.\<close>

lemma heap_inv_pmm_change:
  assumes "heap_inv h" "pmm_ok p" "heap_frames h \<inter> free_set p = {}"
  shows "heap_inv (h\<lparr>heap_pmm := p\<rparr>)" "live (h\<lparr>heap_pmm := p\<rparr>) = live h" "heap_frames (h\<lparr>heap_pmm := p\<rparr>) = heap_frames h"
proof -
  obtain L where L: "heap_rep h L" using assms(1) by (auto simp: heap_inv_def)
  have f: "arena_frames (h\<lparr>heap_pmm := p\<rparr>) a = arena_frames h a" "arena_end (h\<lparr>heap_pmm := p\<rparr>) a = arena_end h a" for a
    by (simp_all add: arena_frames_def arena_end_def)
  have "arena_ok (h\<lparr>heap_pmm := p\<rparr>) x" if "x \<in> set L" for x
    using L that assms(3) unfolding heap_frames_eq [OF L] heap_rep_def arena_ok_def f by (cases x) force
  then have r: "heap_rep (h\<lparr>heap_pmm := p\<rparr>) L" using L assms(2) unfolding heap_rep_def f by simp
  then show i: "heap_inv (h\<lparr>heap_pmm := p\<rparr>)" by (auto simp: heap_inv_def)
  show "live (h\<lparr>heap_pmm := p\<rparr>) = live h" using live_eq [OF L] live_eq [OF r] by (simp add: live_of_def)
  show "heap_frames (h\<lparr>heap_pmm := p\<rparr>) = heap_frames h" by (rule heap_frames_same [OF assms(1) i]) simp_all
qed

text \<open>In particular, other components take frames from the allocator that the heap grows from.\<close>

lemma heap_inv_shrink:
  assumes "heap_inv h" "pmm_ok p" "free_set p \<subseteq> free_set (heap_pmm h)"
  shows "heap_inv (h\<lparr>heap_pmm := p\<rparr>)" "live (h\<lparr>heap_pmm := p\<rparr>) = live h"
  using heap_inv_pmm_change [OF assms(1,2)] heap_frames_used [of h] assms(3) by blast+

lemma heap_inv_pmm: "heap_inv h \<Longrightarrow> pmm_ok (heap_pmm h)"
  by (auto simp: heap_inv_def heap_rep_def)

lemma kmalloc_returns:
  assumes "heap_inv h" "0 < unat sz" "unat sz < 2 ^ 62"
  obtains p h' where "kmalloc sz h = Some (p, h')" "heap_inv h'" "p = 0 \<longrightarrow> h' = h"
proof -
  obtain L where "heap_rep h L" using assms(1) by (auto simp: heap_inv_def)
  from this assms(2,3) show thesis
  proof (cases rule: kmalloc_cases)
    case (served ptr h' L' n)
    then have "heap_inv h'" unfolding heap_inv_def by blast
    then show thesis using that [of ptr h'] served(1,3) by simp
  next
    case refused
    then show thesis using that [of 0 h] assms(1) by simp
  qed
qed

lemma pmm_alloc_frame_shrinks:
  assumes "pmm_ok p" "pmm_alloc_frame p = (a, p')"
  shows "pmm_ok p' \<and> free_set p' \<subseteq> free_set p"
proof -
  have "pmm_inv p" using assms(1) by (simp add: pmm_ok_def)
  then show ?thesis using assms by (cases rule: pmm_alloc_frame_cases) (auto simp: pmm_ok_def)
qed

section \<open>The heap and the bitmap\<close>

text \<open>The headers of the heap are not kept in the memory in which the PMM's bitmap lies. That is what the program does as long as
  the heap owns no frame of the bitmap and cannot get one; the operations keep it so.\<close>

definition bitmap_clear :: "heap \<Rightarrow> bool" where
  "bitmap_clear h \<longleftrightarrow> bitmap_frames (heap_pmm h) \<inter> (free_set (heap_pmm h) \<union> heap_frames h) = {}"

lemma alloc_run_bitmap:
  assumes "pmm_ok p" "pmm_alloc_frames c p = (a, p')"
  shows "bitmap_frames p' = bitmap_frames p" "free_set p' \<subseteq> free_set p"
proof -
  have inv: "pmm_inv p" using assms(1) by (simp add: pmm_ok_def)
  have "bitmap_frames p' = bitmap_frames p \<and> free_set p' \<subseteq> free_set p"
  proof (cases "c = 0")
    case False
    with inv show ?thesis
    proof (cases rule: pmm_alloc_frames_cases)
      case (found n q)
      then show ?thesis using assms(2) bitmap_frames_eq [OF found(4) inv found(6,7)] by auto
    next
      case full
      then show ?thesis using assms(2) by simp
    qed
  qed (use assms(2) in \<open>simp add: pmm_alloc_frames_def\<close>)
  then show "bitmap_frames p' = bitmap_frames p" "free_set p' \<subseteq> free_set p" by blast+
qed

lemma grow_heap_bitmap: "grow_heap m h = (a, h') \<Longrightarrow> \<exists>b. pmm_alloc_frames (arena_request m) (heap_pmm h) = (b, heap_pmm h')"
  by (auto simp: grow_heap_eq add_arena_def Let_def split: prod.splits if_splits)

lemma kmalloc_bitmap:
  assumes "pmm_ok (heap_pmm h)" "kmalloc sz h = Some (p, h')"
  shows "bitmap_frames (heap_pmm h') = bitmap_frames (heap_pmm h)" "free_set (heap_pmm h') \<subseteq> free_set (heap_pmm h)"
proof -
  have "heap_pmm h' = heap_pmm h \<or> (\<exists>m a h1. grow_heap m h = (a, h1) \<and> heap_pmm h' = heap_pmm h1)"
    using assms(2) by (auto simp: kmalloc_def Let_def dest!: alloc_from_block_arenas split: bind_splits if_splits prod.splits)
  then have "bitmap_frames (heap_pmm h') = bitmap_frames (heap_pmm h) \<and> free_set (heap_pmm h') \<subseteq> free_set (heap_pmm h)"
    using grow_heap_bitmap alloc_run_bitmap [OF assms(1)] by (metis order_refl)
  then show "bitmap_frames (heap_pmm h') = bitmap_frames (heap_pmm h)" "free_set (heap_pmm h') \<subseteq> free_set (heap_pmm h)" by blast+
qed

lemma kmalloc_clear:
  assumes "heap_inv h" "bitmap_clear h" "0 < unat sz" "unat sz < 2 ^ 62" "kmalloc sz h = Some (p, h')"
  shows "bitmap_clear h'"
  using kmalloc_bitmap [OF _ assms(5)] kmalloc_frames [OF assms(1,3-5)] heap_inv_pmm [OF assms(1)] assms(2) unfolding bitmap_clear_def by blast

lemma kfree_clear:
  assumes "heap_inv h" "heap_inv h'" "bitmap_clear h" "kfree p h = Some h'"
  shows "bitmap_clear h'"
  using heap_frames_same [OF assms(1,2)] kfree_arenas [OF assms(4)] assms(3) by (simp add: bitmap_clear_def)

lemma heap_init_clear:
  assumes "pmm_ok (heap_pmm h)" "bitmap_apart (heap_pmm h)" "arena_list h = 0"
  shows "bitmap_clear (heap_init h)"
proof -
  have rep: "heap_rep h []" using assms by (simp add: heap_rep_def)
  obtain base p where al: "pmm_alloc_frames (arena_request 0) (heap_pmm h) = (base, p)" by fastforce
  note b = alloc_run_bitmap [OF assms(1) al]
  have "heap_pmm (heap_init h) = p" using al by (simp add: heap_init_def grow_heap_eq add_arena_def)
  moreover have "heap_frames (heap_init h) \<subseteq> free_set (heap_pmm h)"
  proof (cases "base = 0")
    case True
    then have "heap_init h = h\<lparr>heap_pmm := p\<rparr>" "p = heap_pmm h"
      using al frames.alloc_run_fail [OF assms(1) al [unfolded True]] by (simp_all add: heap_init_def grow_heap_eq)
    then show ?thesis using heap_frames_eq [OF rep] by simp
  next
    case False
    note r = frames.alloc_run_ok [OF assms(1) al False]
    have i: "heap_init h = add_arena base (arena_request 0) p h" using al False by (simp add: heap_init_def grow_heap_eq)
    have "heap_rep (heap_init h) [(base, [base + 24])]" unfolding i
      by (rule add_arena_rep(1) [OF rep _ False]) (use r in \<open>auto simp: arena_request_def\<close>)
    then show ?thesis using r by (simp add: heap_frames_eq i arena_frames_def add_arena_def)
  qed
  ultimately show ?thesis using b assms(2) unfolding bitmap_clear_def bitmap_apart_def by blast
qed

text \<open>The states of a heap that starts empty over a PMM whose bitmap lies in no free frame, and that is only used through its
  interface, by callers that release live buffers only and request fewer than \<open>2 ^ 62\<close> bytes.\<close>

inductive heap_reach :: "heap \<Rightarrow> bool" where
  init: "pmm_ok (heap_pmm h) \<Longrightarrow> bitmap_apart (heap_pmm h) \<Longrightarrow> arena_list h = 0 \<Longrightarrow> heap_reach (heap_init h)"
| malloc: "heap_reach h \<Longrightarrow> unat sz < 2 ^ 62 \<Longrightarrow> kmalloc sz h = Some (p, h') \<Longrightarrow> heap_reach h'"
| free: "heap_reach h \<Longrightarrow> (unat p, n) \<in> live h \<Longrightarrow> kfree p h = Some h' \<Longrightarrow> heap_reach h'"

lemma heap_reach_inv: "heap_reach h \<Longrightarrow> heap_inv h \<and> bitmap_clear h"
proof (induction rule: heap_reach.induct)
  case (init h)
  then show ?case using heap_init_spec [of h] heap_init_clear [of h] by blast
next
  case (malloc h sz p h')
  then show ?case
    using kheap.malloc_state(1) [of h sz p h'] kmalloc_clear [of h sz p h'] kheap.malloc_zero [of h] unat_gt_0 [of sz]
    by (cases "sz = 0") auto
next
  case (free h p n h')
  then have "heap_inv h'" using kheap.release_ok by fastforce
  then show ?case using free kfree_clear [of h h' p] by blast
qed

lemma live_in_owned_frames:
  assumes "heap_rep h L" "(q, n) \<in> live_of h L" "q \<le> x" "x < q + n"
  shows "x div 4096 \<in> heap_frames h"
proof -
  obtain b k where b: "b \<in> set (all_blocks L)" "block_at h b = Some k" "q = unat b + 24" "n = unat (hb_size k)"
    using live_member [OF assms(2)] by metis
  then obtain a bs where x: "(a, bs) \<in> set L" "b \<in> set bs" by (auto simp: in_all_blocks)
  have ok: "arena_ok h (a, bs)" using assms(1) x by (auto simp: heap_rep_def)
  have "unat a + 24 \<le> unat b" "unat b + 24 + unat (hb_size k) \<le> arena_end h a"
    using block_in_arena [OF ok x(2)] b(2) by (metis option.inject)+
  then have "x div 4096 \<in> arena_frames h a" using arena_frame_iff [OF ok] b assms(3,4) by simp
  then show ?thesis unfolding heap_frames_eq [OF assms(1)] using x(1) by force
qed

text \<open>Property C29. In every state reached from \<open>heap_init\<close> by calls of \<open>kmalloc\<close> and \<open>kfree\<close>, live
  buffers do not overlap, and no byte of a live buffer lies in a frame that the PMM can still hand
  out, so no page table, user page or driver buffer allocated later aliases it, nor in a frame of the PMM's bitmap, so
  that neither the buffers nor the headers of the heap are written over the bitmap. The heap is started over a PMM whose bitmap
  lies in no free frame.\<close>

theorem heap_buffers_isolated:
  assumes "heap_reach h" "(p, m) \<in> live h" "p \<le> x" "x < p + m"
  shows "x div 4096 \<notin> free_set (heap_pmm h) \<and> heap_frames h \<inter> bitmap_frames (heap_pmm h) = {} \<and> x div 4096 \<in> heap_frames h
    \<and> (\<forall>(q, n) \<in> live h. q \<le> x \<and> x < q + n \<longrightarrow> (q, n) = (p, m))"
proof -
  have inv: "heap_inv h" "bitmap_clear h" using heap_reach_inv [OF assms(1)] by blast+
  then obtain L where L: "heap_rep h L" unfolding heap_inv_def by blast
  have "(q, n) = (p, m)" if "(q, n) \<in> live h" "q \<le> x" "x < q + n" for q n
    using kheap.separate [OF inv(1) that(1) assms(2)] that assms(3,4) by linarith
  then show ?thesis
    using live_in_owned_frames [OF L _ assms(3,4)] assms(2) live_eq [OF L] heap_frames_used [of h] inv(2) unfolding bitmap_clear_def by blast
qed

text \<open>A machine with 61 free frames, the bitmap in the last 8 bytes of the kernel's frame, its heap after boot, and after one allocation of 100 bytes.\<close>

definition boot_heap_big :: heap where
  "boot_heap_big = \<lparr>heap_pmm = pmm_init [\<lparr>region_base = 0x2000, region_length = 0x3E000\<rparr>] 0x2000 0x2FF8,
     arena_list = 0, arena_at = (\<lambda>_. None), block_at = (\<lambda>_. None)\<rparr>"

lemma boot_heap_big_pmm:
  "pmm_ok (heap_pmm boot_heap_big)" "arena_list boot_heap_big = 0" "run_at (heap_pmm boot_heap_big) 3 16" "bitmap_apart (heap_pmm boot_heap_big)"
proof -
  let ?rs = "[\<lparr>region_base = 0x2000, region_length = 0x3E000\<rparr>]"
  have e: "bitmap_end ?rs 0x2FF8 = 0x3000" by (simp add: bitmap_end_def highest_address_def PMM_FRAME_SIZE_def ALIGN_UP_def)
  have f: "free_set (heap_pmm boot_heap_big) = ({2..<64} \<inter> {..<64}) - {2..<3}"
    by (simp add: boot_heap_big_def pmm_init_spec usable_frames_def frames_of_def highest_address_def e)
  show "run_at (heap_pmm boot_heap_big) 3 16" unfolding run_at_def f by (rule subsetI) simp
  have "pmm_inv (heap_pmm boot_heap_big)" by (simp add: boot_heap_big_def pmm_init_spec)
  then show "pmm_ok (heap_pmm boot_heap_big)" unfolding pmm_ok_def f by simp
  show "bitmap_apart (heap_pmm boot_heap_big)" using pmm_init_apart(3) [of "0x2000" "0x2FF8" ?rs] e by (simp add: boot_heap_big_def)
qed (simp add: boot_heap_big_def)

lemma big_heap_reach:
  obtains p h n where "kmalloc 100 (heap_init boot_heap_big) = Some (p, h)" "heap_reach h"
    "(unat p, n) \<in> live h" "100 \<le> n"
proof -
  obtain a k where a: "heap_rep (heap_init boot_heap_big) [(a, [a + 24])]"
    "block_at (heap_init boot_heap_big) (a + 24) = Some k" "hb_free k" "unat (hb_size k) = 65488"
    using heap_init_spec [OF boot_heap_big_pmm(1,2)] boot_heap_big_pmm(3) by blast
  then have fit: "fits (block_at (heap_init boot_heap_big)) (align_up 100 8) (a + 24)"
    by (simp add: fits_def align_up_def word_le_nat_alt)
  have "0 < unat (100 :: usize)" "unat (100 :: usize) < 2 ^ 62" by simp_all
  with a(1) show thesis
  proof (cases rule: kmalloc_cases)
    case (served ptr h' L' n)
    have "heap_reach h'"
      using heap_reach.malloc [OF heap_reach.init [OF boot_heap_big_pmm(1,4,2)] _ served(1)] by simp
    then show thesis using that [OF served(1), of n] served live_eq [OF served(2)] by simp
  next
    case refused
    then show thesis using fit by simp
  qed
qed

theorem heap_buffers_isolated_witness:
  "\<exists>p h n. kmalloc 100 (heap_init boot_heap_big) = Some (p, h) \<and> heap_reach h \<and> (unat p, n) \<in> live h
     \<and> unat p div 4096 \<notin> free_set (heap_pmm h) \<and> unat p div 4096 \<notin> bitmap_frames (heap_pmm h)"
proof -
  obtain p h n where a: "kmalloc 100 (heap_init boot_heap_big) = Some (p, h)" "heap_reach h"
    "(unat p, n) \<in> live h" "100 \<le> n" by (rule big_heap_reach)
  then show ?thesis using heap_buffers_isolated [OF a(2,3), of "unat p"] by auto
qed

end
