(* ===== verification/Mem.thy ===== *)
theory Mem
  imports Prelude
begin

text \<open>
  Byte-addressed memory. The kernel runs identity-mapped and treats physical addresses as pointers, so
  page tables, device rings and loaded programs are all bytes of one memory \<open>u64 \<Rightarrow> u8\<close>. Multi-byte
  accesses are little endian, as on both architectures. The lemmas here reduce an access of one width
  after a store of another to a comparison of addresses.
\<close>

type_synonym mem = "u64 \<Rightarrow> u8"

section \<open>Bytes\<close>

definition load_bytes :: "nat \<Rightarrow> mem \<Rightarrow> u64 \<Rightarrow> u8 list" where
  "load_bytes n m a = map (\<lambda>i. m (a + of_nat i)) [0..<n]"

definition store_bytes :: "u8 list \<Rightarrow> u64 \<Rightarrow> mem \<Rightarrow> mem" where
  "store_bytes bs a m = (\<lambda>x. if unat (x - a) < length bs then bs ! unat (x - a) else m x)"

definition word_bytes :: "nat \<Rightarrow> 'a::len word \<Rightarrow> u8 list" where
  "word_bytes n w = map (\<lambda>i. ucast (drop_bit (8 * i) w)) [0..<n]"

definition bytes_word :: "u8 list \<Rightarrow> 'a::len word" where
  "bytes_word bs = foldr (\<lambda>b w. ucast b OR push_bit 8 w) bs 0"

definition load64 :: "mem \<Rightarrow> u64 \<Rightarrow> u64" where
  "load64 m a = bytes_word (load_bytes 8 m a)"

definition store64 :: "u64 \<Rightarrow> u64 \<Rightarrow> mem \<Rightarrow> mem" where
  "store64 a v m = store_bytes (word_bytes 8 v) a m"

definition load32 :: "mem \<Rightarrow> u64 \<Rightarrow> u32" where
  "load32 m a = bytes_word (load_bytes 4 m a)"

definition store32 :: "u64 \<Rightarrow> u32 \<Rightarrow> mem \<Rightarrow> mem" where
  "store32 a v m = store_bytes (word_bytes 4 v) a m"

definition load16 :: "mem \<Rightarrow> u64 \<Rightarrow> u16" where
  "load16 m a = bytes_word (load_bytes 2 m a)"

definition store16 :: "u64 \<Rightarrow> u16 \<Rightarrow> mem \<Rightarrow> mem" where
  "store16 a v m = store_bytes (word_bytes 2 v) a m"

section \<open>Words from bytes\<close>

lemma bit_bytes_word:
  "bit (bytes_word bs :: 'a::len word) k \<longleftrightarrow> k < LENGTH('a) \<and> k < 8 * length bs \<and> bit (bs ! (k div 8)) (k mod 8)"
proof (induction bs arbitrary: k)
  case Nil then show ?case by (simp add: bytes_word_def)
next
  case (Cons b bs)
  have s: "bytes_word (b # bs) = (ucast b OR push_bit 8 (bytes_word bs) :: 'a word)" by (simp add: bytes_word_def)
  show ?case
  proof (cases "k < 8")
    case True
    then show ?thesis unfolding s by (simp add: bit_or_iff bit_push_bit_iff bit_unsigned_iff possible_bit_word)
  next
    case False
    then obtain j where k: "k = j + 8" using that [of "k - 8"] by simp
    have "\<not> bit b (j + 8)" using bit_imp_le_length [of b "j + 8"] by auto
    then have "bit (bytes_word (b # bs) :: 'a word) k \<longleftrightarrow> k < LENGTH('a) \<and> bit (bytes_word bs :: 'a word) j"
      unfolding s k by (simp add: bit_or_iff bit_push_bit_iff bit_unsigned_iff possible_bit_word)
    also have "\<dots> \<longleftrightarrow> k < LENGTH('a) \<and> j < 8 * length bs \<and> bit (bs ! (j div 8)) (j mod 8)"
      unfolding Cons.IH k by auto
    moreover have "(b # bs) ! (k div 8) = bs ! (j div 8)" "k mod 8 = j mod 8" "k < 8 * length (b # bs) \<longleftrightarrow> j < 8 * length bs"
      unfolding k by (simp_all add: div_add_self2)
    ultimately show ?thesis by (simp only:)
  qed
qed

lemma bytes_word_bytes:
  assumes "LENGTH('a::len) = 8 * n"
  shows "bytes_word (word_bytes n (w :: 'a word)) = w"
proof (rule bit_word_eqI)
  fix k assume "k < LENGTH('a)"
  then have k: "k < 8 * n" "k div 8 < n" using assms by auto
  have "bit (word_bytes n w ! (k div 8)) (k mod 8) = bit w k"
    using k by (simp add: word_bytes_def bit_simps)
  then show "bit (bytes_word (word_bytes n w) :: 'a word) k = bit w k"
    using k assms by (simp add: bit_bytes_word word_bytes_def)
qed

lemma length_word_bytes [simp]: "length (word_bytes n w) = n"
  by (simp add: word_bytes_def)

lemma length_load_bytes [simp]: "length (load_bytes n m a) = n"
  by (simp add: load_bytes_def)

section \<open>Loads after stores\<close>

lemma load_store_same:
  assumes "length bs < 2 ^ 64"
  shows "load_bytes (length bs) (store_bytes bs a m) a = bs"
proof -
  have "unat (of_nat i :: u64) = i" if "i < length bs" for i
    using that assms by (simp add: unat_of_nat_eq)
  then show ?thesis by (auto simp: load_bytes_def store_bytes_def intro: nth_equalityI)
qed

lemma load_store_other:
  assumes "\<And>i. i < n \<Longrightarrow> length bs \<le> unat (b + of_nat i - a)"
  shows "load_bytes n (store_bytes bs a m) b = load_bytes n m b"
proof -
  have "\<not> unat (b + of_nat i - a) < length bs" if "i < n" for i using assms that by (simp add: not_less)
  then show ?thesis by (simp add: load_bytes_def store_bytes_def)
qed

lemma load64_store64_same [simp]: "load64 (store64 a v m) a = v"
  using load_store_same [of "word_bytes 8 v" a m] bytes_word_bytes [of 8 v]
  by (simp add: load64_def store64_def)

lemma load32_store32_same [simp]: "load32 (store32 a v m) a = v"
  using load_store_same [of "word_bytes 4 v" a m] bytes_word_bytes [of 4 v]
  by (simp add: load32_def store32_def)

lemma load16_store16_same [simp]: "load16 (store16 a v m) a = v"
  using load_store_same [of "word_bytes 2 v" a m] bytes_word_bytes [of 2 v]
  by (simp add: load16_def store16_def)

lemma dvd_8_iff: "8 dvd unat (w :: u64) \<longleftrightarrow> take_bit 3 w = 0"
proof -
  have "unat (take_bit 3 w) = unat w mod 8" by (simp add: unat_mod_distrib take_bit_eq_mod)
  then have "take_bit 3 w = 0 \<longleftrightarrow> unat w mod 8 = 0" by (simp add: word_unat_eq_iff)
  then show ?thesis by (simp add: dvd_eq_mod_eq_0)
qed

lemma unat_diff_aligned:
  assumes "8 dvd unat (a :: u64)" "8 dvd unat b"
  shows "8 dvd unat (b - a)"
proof -
  have "(2 :: u64) ^ 3 dvd a" "(2 :: u64) ^ 3 dvd b" using assms by (simp_all add: dvd_8_iff take_bit_eq_0_iff)
  then have "(2 :: u64) ^ 3 dvd b - a" by (rule dvd_diff [rotated])
  then show ?thesis by (simp add: dvd_8_iff take_bit_eq_0_iff)
qed

lemma aligned_apart:
  assumes "8 dvd unat (a :: u64)" "8 dvd unat b" "a \<noteq> b" "i < 8"
  shows "8 \<le> unat (b + of_nat i - a)"
proof -
  let ?d = "unat (b - a)"
  have d: "8 dvd ?d" using unat_diff_aligned assms by blast
  have "?d \<noteq> 0" using assms(3) word_unat_eq_iff [of "b - a" 0] by simp
  then have ge: "8 \<le> ?d" using d by (auto elim: dvdE)
  have lt: "?d < 2 ^ 64" by (rule u64_lt)
  obtain q where q: "?d = 8 * q" using d by (auto elim: dvdE)
  have "q < 2 ^ 61" using lt by (simp add: q)
  then have "?d + i < 2 ^ 64" using q assms(4) by simp
  then have "unat ((b - a) + of_nat i) = ?d + i" using assms(4) by (simp add: unat_plus_simple unat_of_nat_eq)
  moreover have "b + of_nat i - a = (b - a) + of_nat i" by simp
  ultimately show ?thesis using ge by (simp only:)
qed

lemma load64_store64_other:
  assumes "8 dvd unat a" "8 dvd unat b" "a \<noteq> b"
  shows "load64 (store64 a v m) b = load64 m b"
proof -
  have "load_bytes 8 (store_bytes (word_bytes 8 v) a m) b = load_bytes 8 m b"
    using aligned_apart [OF assms] by (intro load_store_other) simp
  then show ?thesis by (simp add: load64_def store64_def)
qed

section \<open>Tables of 512 entries\<close>

definition page_aligned :: "u64 \<Rightarrow> bool" where
  "page_aligned t \<longleftrightarrow> 4096 dvd unat t"

definition entry_addr :: "u64 \<Rightarrow> nat \<Rightarrow> u64" where
  "entry_addr t i = t + 8 * of_nat i"

definition pt_get :: "mem \<Rightarrow> u64 \<Rightarrow> nat \<Rightarrow> u64" where
  "pt_get m t i = load64 m (entry_addr t i)"

definition pt_set :: "u64 \<Rightarrow> nat \<Rightarrow> u64 \<Rightarrow> mem \<Rightarrow> mem" where
  "pt_set t i v m = store64 (entry_addr t i) v m"

lemma unat_entry_addr:
  assumes "page_aligned t" "i < 512"
  shows "unat (entry_addr t i) = unat t + 8 * i"
proof -
  obtain q where q: "unat t = 4096 * q" using assms(1) by (auto simp: page_aligned_def elim: dvdE)
  have "4096 * q < 2 ^ 64" using u64_lt [of t] q by simp
  then have "q < 2 ^ 52" by simp
  then have lt: "unat t + 8 * i < 2 ^ 64" using q assms(2) by simp
  have "unat (8 * of_nat i :: u64) = 8 * i"
    using assms(2) unat_times_simple [of "8 :: u64" "of_nat i"] by (simp add: unat_of_nat_eq)
  then show ?thesis using lt by (simp add: entry_addr_def unat_plus_simple)
qed

lemma split_4096: "4096 * p + a = 4096 * q + b \<Longrightarrow> a < 4096 \<Longrightarrow> b < 4096 \<Longrightarrow> p = q \<and> a = (b :: nat)"
proof -
  assume e: "4096 * p + a = 4096 * q + b" and lt: "a < 4096" "b < 4096"
  have "p = (4096 * p + a) div 4096" "q = (4096 * q + b) div 4096" using lt by simp_all
  then have "p = q" using e by metis
  with e show ?thesis by simp
qed

lemma entry_addr_inj:
  assumes "page_aligned t" "page_aligned u" "i < 512" "j < 512"
  shows "entry_addr t i = entry_addr u j \<longleftrightarrow> t = u \<and> i = j"
proof
  assume "entry_addr t i = entry_addr u j"
  then have e: "unat t + 8 * i = unat u + 8 * j" using unat_entry_addr assms by metis
  obtain p q where "unat t = 4096 * p" "unat u = 4096 * q" using assms by (auto simp: page_aligned_def elim!: dvdE)
  with e assms split_4096 [of p "8 * i" q "8 * j"] have "p = q \<and> i = j" by simp
  then show "t = u \<and> i = j" using \<open>unat t = 4096 * p\<close> \<open>unat u = 4096 * q\<close> by (simp add: word_unat_eq_iff)
qed simp

lemma pt_get_set [simp]:
  assumes "page_aligned t" "page_aligned u" "i < 512" "j < 512"
  shows "pt_get (pt_set t i v m) u j = (if t = u \<and> i = j then v else pt_get m u j)"
proof -
  have "8 dvd unat (entry_addr t i)" "8 dvd unat (entry_addr u j)"
    using assms by (auto simp: unat_entry_addr page_aligned_def intro: dvd_trans [of 8 4096] dvd_add)
  then show ?thesis using entry_addr_inj [OF assms] load64_store64_other
    by (auto simp: pt_get_def pt_set_def)
qed

text \<open>Clearing a whole table.\<close>

definition zero_page :: "u64 \<Rightarrow> mem \<Rightarrow> mem" where
  "zero_page t m = fold (\<lambda>i. pt_set t i 0) [0..<512] m"

lemma fold_pt_set:
  assumes "page_aligned t" "page_aligned u" "j < 512" "n \<le> 512"
  shows "pt_get (fold (\<lambda>i. pt_set t i 0) [0..<n] m) u j = (if t = u \<and> j < n then 0 else pt_get m u j)"
  using assms(4)
proof (induction n)
  case (Suc n)
  then show ?case using assms by (auto simp: less_Suc_eq)
qed simp

lemma pt_get_zero_page [simp]:
  assumes "page_aligned t" "page_aligned u" "j < 512"
  shows "pt_get (zero_page t m) u j = (if t = u then 0 else pt_get m u j)"
  using fold_pt_set [of t u j 512] assms by (simp add: zero_page_def)

end
