(* ===== verification/PageTable.thy ===== *)
theory PageTable
  imports Heap Mem
begin

text \<open>
  Multi-level page tables, independent of the entry format. The two virtual memory managers
  (\<^verbatim>\<open>arch/x86_64/mm/vmm.c\<close>, four levels, and \<^verbatim>\<open>arch/aarch64/mm/vmm.c\<close>, three levels) have the same shape:
  tables of 512 entries in physical frames, entries that are absent, or point to a table of the next
  level, or are blocks (huge pages). This theory holds the shared machine state, the abstract view of a
  tree of tables (\<open>tset\<close>, \<open>wf_tables\<close>, \<open>walk\<close>, \<open>lookup\<close>) and the lemmas about growing, cloning and
  freeing trees, proved once in the locale \<open>paging\<close>. Levels count down to 0, the table of leaves.
\<close>

section \<open>State\<close>

datatype tlb_op = Invlpg u64 | Flush_all

record vm =
  vm_mem :: mem
  vm_heap :: heap
  kernel_root :: physaddr
  root_reg :: u64
  as_at :: "u64 \<rightharpoonup> physaddr"
  tlb_log :: "tlb_op list"

abbreviation vm_pmm :: "('x) vm_scheme \<Rightarrow> pmm" where
  "vm_pmm s \<equiv> heap_pmm (vm_heap s)"

abbreviation frame_no :: "u64 \<Rightarrow> nat" where
  "frame_no a \<equiv> unat a div 4096"

definition vm_alloc :: "('x) vm_scheme \<Rightarrow> u64 \<times> ('x) vm_scheme" where
  "vm_alloc s = (let (a, p) = pmm_alloc_frame (vm_pmm s) in (a, s\<lparr>vm_heap := (vm_heap s)\<lparr>heap_pmm := p\<rparr>\<rparr>))"

definition vm_free :: "u64 \<Rightarrow> ('x) vm_scheme \<Rightarrow> ('x) vm_scheme" where
  "vm_free a s = s\<lparr>vm_heap := (vm_heap s)\<lparr>heap_pmm := pmm_free_frame a (vm_pmm s)\<rparr>\<rparr>"

definition zeroed_table :: "u64 \<Rightarrow> ('x) vm_scheme \<Rightarrow> ('x) vm_scheme" where
  "zeroed_table t s = s\<lparr>vm_mem := zero_page t (vm_mem s)\<rparr>"

definition vm_set :: "u64 \<Rightarrow> nat \<Rightarrow> u64 \<Rightarrow> ('x) vm_scheme \<Rightarrow> ('x) vm_scheme" where
  "vm_set t i e s = s\<lparr>vm_mem := pt_set t i e (vm_mem s)\<rparr>"

section \<open>Trees of tables\<close>

record pt_format =
  pf_present :: "u64 \<Rightarrow> bool"
  pf_block :: "u64 \<Rightarrow> bool"
  pf_mask :: u64

definition is_table :: "pt_format \<Rightarrow> u64 \<Rightarrow> bool" where
  "is_table f e \<longleftrightarrow> pf_present f e \<and> \<not> pf_block f e"

definition child :: "pt_format \<Rightarrow> u64 \<Rightarrow> u64" where
  "child f e = e AND pf_mask f"

definition vidx :: "nat \<Rightarrow> u64 \<Rightarrow> nat" where
  "vidx n v = unat (drop_bit (12 + 9 * n) v AND 0x1FF)"

fun walk :: "pt_format \<Rightarrow> mem \<Rightarrow> nat \<Rightarrow> u64 \<Rightarrow> u64 \<Rightarrow> u64 option" where
  "walk f m 0 t v = Some t"
| "walk f m (Suc n) t v =
     (let e = pt_get m t (vidx (Suc n) v) in if is_table f e then walk f m n (child f e) v else None)"

text \<open>The leaf entry for an address; an address without a table of leaves has the absent entry 0.\<close>

definition lookup :: "pt_format \<Rightarrow> mem \<Rightarrow> nat \<Rightarrow> u64 \<Rightarrow> u64 \<Rightarrow> u64" where
  "lookup f m n t v = (case walk f m n t v of None \<Rightarrow> 0 | Some p \<Rightarrow> pt_get m p (vidx 0 v))"

fun tset :: "pt_format \<Rightarrow> mem \<Rightarrow> nat \<Rightarrow> u64 \<Rightarrow> u64 set" where
  "tset f m 0 t = {t}"
| "tset f m (Suc n) t =
     insert t (\<Union>i \<in> {i. i < 512 \<and> is_table f (pt_get m t i)}. tset f m n (child f (pt_get m t i)))"

fun wf_tables :: "pt_format \<Rightarrow> mem \<Rightarrow> nat \<Rightarrow> u64 \<Rightarrow> bool" where
  "wf_tables f m 0 t \<longleftrightarrow> page_aligned t \<and> t \<noteq> 0"
| "wf_tables f m (Suc n) t \<longleftrightarrow> page_aligned t \<and> t \<noteq> 0 \<and>
     (\<forall>i < 512. is_table f (pt_get m t i) \<longrightarrow>
        wf_tables f m n (child f (pt_get m t i)) \<and> t \<notin> tset f m n (child f (pt_get m t i)) \<and>
        (\<forall>j < 512. j \<noteq> i \<longrightarrow> is_table f (pt_get m t j) \<longrightarrow>
           tset f m n (child f (pt_get m t i)) \<inter> tset f m n (child f (pt_get m t j)) = {}))"

definition agree :: "u64 set \<Rightarrow> mem \<Rightarrow> mem \<Rightarrow> bool" where
  "agree T m m' \<longleftrightarrow> (\<forall>t \<in> T. \<forall>i < 512. pt_get m' t i = pt_get m t i)"

text \<open>Only the tables in \<open>T\<close> and frames numbered in \<open>F\<close> may have been written.\<close>

definition kept_outside :: "u64 set \<Rightarrow> nat set \<Rightarrow> mem \<Rightarrow> mem \<Rightarrow> bool" where
  "kept_outside T F m m' \<longleftrightarrow>
     (\<forall>u. page_aligned u \<longrightarrow> u \<notin> T \<longrightarrow> frame_no u \<notin> F \<longrightarrow> (\<forall>i < 512. pt_get m' u i = pt_get m u i))"

definition in_use :: "pmm \<Rightarrow> u64 set \<Rightarrow> bool" where
  "in_use p T \<longleftrightarrow> (\<forall>t \<in> T. frame_no t \<notin> free_set p)"

lemma vidx_lt [simp]: "vidx n v < 512"
proof -
  have "(0x1FF :: u64) = mask 9" by (simp add: mask_eq_exp_minus_1)
  then have "vidx n v = unat (take_bit 9 (drop_bit (12 + 9 * n) v))" by (simp add: vidx_def take_bit_eq_mask)
  then show ?thesis using take_bit_nat_less_exp [of 9 "unat (drop_bit (12 + 9 * n) v)"]
    by (simp add: unsigned_take_bit_eq)
qed

lemma root_in_tset [simp]: "t \<in> tset f m n t"
  by (cases n) simp_all

lemma wf_root: "wf_tables f m n t \<Longrightarrow> page_aligned t \<and> t \<noteq> 0"
  by (cases n) simp_all

lemma wf_aligned: "wf_tables f m n t \<Longrightarrow> u \<in> tset f m n t \<Longrightarrow> page_aligned u \<and> u \<noteq> 0"
  by (induction n arbitrary: t) auto

lemma wf_child:
  assumes "wf_tables f m (Suc n) t" "i < 512" "is_table f (pt_get m t i)"
  shows "wf_tables f m n (child f (pt_get m t i))" "t \<notin> tset f m n (child f (pt_get m t i))"
  using assms by simp_all

lemma wf_disjoint:
  assumes "wf_tables f m (Suc n) t" "i < 512" "j < 512" "i \<noteq> j" "is_table f (pt_get m t i)" "is_table f (pt_get m t j)"
  shows "tset f m n (child f (pt_get m t i)) \<inter> tset f m n (child f (pt_get m t j)) = {}"
proof -
  have "\<forall>j < 512. j \<noteq> i \<longrightarrow> is_table f (pt_get m t j) \<longrightarrow>
      tset f m n (child f (pt_get m t i)) \<inter> tset f m n (child f (pt_get m t j)) = {}"
    using assms(1,2,5) by simp
  then show ?thesis using assms(3,4,6) by blast
qed

lemma wf_SucI:
  assumes "page_aligned t" "t \<noteq> 0"
    "\<And>i. i < 512 \<Longrightarrow> is_table f (pt_get m t i) \<Longrightarrow>
       wf_tables f m n (child f (pt_get m t i)) \<and> t \<notin> tset f m n (child f (pt_get m t i))"
    "\<And>i j. i < 512 \<Longrightarrow> j < 512 \<Longrightarrow> i \<noteq> j \<Longrightarrow> is_table f (pt_get m t i) \<Longrightarrow> is_table f (pt_get m t j) \<Longrightarrow>
       tset f m n (child f (pt_get m t i)) \<inter> tset f m n (child f (pt_get m t j)) = {}"
  shows "wf_tables f m (Suc n) t"
proof -
  have "\<forall>j < 512. j \<noteq> i \<longrightarrow> is_table f (pt_get m t j) \<longrightarrow>
      tset f m n (child f (pt_get m t i)) \<inter> tset f m n (child f (pt_get m t j)) = {}"
    if "i < 512" "is_table f (pt_get m t i)" for i
    using that assms(4) [of i] by blast
  then show ?thesis using assms(1-3) by simp
qed

lemma tset_child:
  "i < 512 \<Longrightarrow> is_table f (pt_get m t i) \<Longrightarrow> u \<in> tset f m n (child f (pt_get m t i)) \<Longrightarrow> u \<in> tset f m (Suc n) t"
  by auto

lemma tset_Suc_cases:
  assumes "u \<in> tset f m (Suc n) t"
  obtains "u = t" | i where "i < 512" "is_table f (pt_get m t i)" "u \<in> tset f m n (child f (pt_get m t i))"
  using assms by auto

lemma agree_mono: "agree T m m' \<Longrightarrow> S \<subseteq> T \<Longrightarrow> agree S m m'"
  by (auto simp: agree_def)

lemma agree_cong:
  assumes "agree (tset f m n t) m m'"
  shows "tset f m' n t = tset f m n t \<and> (wf_tables f m' n t \<longleftrightarrow> wf_tables f m n t)
     \<and> walk f m' n t v = walk f m n t v \<and> lookup f m' n t v = lookup f m n t v"
  using assms
proof (induction n arbitrary: t)
  case 0
  then show ?case by (simp add: agree_def lookup_def)
next
  case (Suc n)
  have e: "pt_get m' t i = pt_get m t i" if "i < 512" for i
    using Suc.prems that by (auto simp: agree_def)
  have IH: "tset f m' n (child f (pt_get m t i)) = tset f m n (child f (pt_get m t i))"
    "wf_tables f m' n (child f (pt_get m t i)) \<longleftrightarrow> wf_tables f m n (child f (pt_get m t i))"
    "walk f m' n (child f (pt_get m t i)) v = walk f m n (child f (pt_get m t i)) v"
    "lookup f m' n (child f (pt_get m t i)) v = lookup f m n (child f (pt_get m t i)) v"
    if "i < 512" "is_table f (pt_get m t i)" for i
  proof -
    have "agree (tset f m n (child f (pt_get m t i))) m m'"
      by (rule agree_mono [OF Suc.prems]) (use that in auto)
    from Suc.IH [OF this] show
      "tset f m' n (child f (pt_get m t i)) = tset f m n (child f (pt_get m t i))"
      "wf_tables f m' n (child f (pt_get m t i)) \<longleftrightarrow> wf_tables f m n (child f (pt_get m t i))"
      "walk f m' n (child f (pt_get m t i)) v = walk f m n (child f (pt_get m t i)) v"
      "lookup f m' n (child f (pt_get m t i)) v = lookup f m n (child f (pt_get m t i)) v" by blast+
  qed
  have "tset f m' (Suc n) t = tset f m (Suc n) t" using e IH(1) by auto
  moreover have "wf_tables f m' (Suc n) t \<longleftrightarrow> wf_tables f m (Suc n) t" using e IH(1,2) by auto
  moreover have "walk f m' (Suc n) t v = walk f m (Suc n) t v" using e IH(3) by (simp add: Let_def)
  moreover have "lookup f m' (Suc n) t v = lookup f m (Suc n) t v"
    using e IH(4) [of "vidx (Suc n) v"] by (simp add: lookup_def Let_def)
  ultimately show ?case by blast
qed

lemma walk_in_tset: "walk f m n t v = Some p \<Longrightarrow> p \<in> tset f m n t"
proof (induction n arbitrary: t)
  case (Suc n)
  let ?e = "pt_get m t (vidx (Suc n) v)"
  have e: "is_table f ?e" "walk f m n (child f ?e) v = Some p"
    using Suc.prems by (simp_all add: Let_def split: if_splits)
  show ?case by (rule tset_child [OF vidx_lt e(1) Suc.IH [OF e(2)]])
qed simp

text \<open>Two addresses that reach the same table of leaves agree on all upper indices.\<close>

lemma walk_same_table:
  assumes "wf_tables f m n t" "walk f m n t v = Some p" "walk f m n t v' = Some p" "0 < k" "k \<le> n"
  shows "vidx k v = vidx k v'"
  using assms
proof (induction n arbitrary: t)
  case (Suc n)
  let ?i = "vidx (Suc n) v" and ?j = "vidx (Suc n) v'"
  have i: "is_table f (pt_get m t ?i)" "walk f m n (child f (pt_get m t ?i)) v = Some p"
    using Suc.prems(2) by (auto simp: Let_def split: if_splits)
  have j: "is_table f (pt_get m t ?j)" "walk f m n (child f (pt_get m t ?j)) v' = Some p"
    using Suc.prems(3) by (auto simp: Let_def split: if_splits)
  have "?i = ?j"
  proof (rule ccontr)
    assume "?i \<noteq> ?j"
    then have "tset f m n (child f (pt_get m t ?i)) \<inter> tset f m n (child f (pt_get m t ?j)) = {}"
      using wf_disjoint [OF Suc.prems(1) vidx_lt vidx_lt] i(1) j(1) by blast
    then show False using walk_in_tset [OF i(2)] walk_in_tset [OF j(2)] by blast
  qed
  moreover have "wf_tables f m n (child f (pt_get m t ?i))" using wf_child [OF Suc.prems(1) vidx_lt i(1)] by blast
  moreover have "k = Suc n \<or> k \<le> n" using Suc.prems(5) by auto
  ultimately show ?case
    using Suc.IH [OF _ i(2)] j(2) Suc.prems(4) by metis
qed simp

text \<open>Writing an entry of the table of leaves of \<open>v\<close> changes the entry of the addresses on that page
  and no other, and no structure.\<close>

lemma leaf_write:
  assumes "wf_tables f m n t" "walk f m n t v = Some p" "i < 512"
  shows "tset f (pt_set p i e m) n t = tset f m n t \<and> wf_tables f (pt_set p i e m) n t
     \<and> walk f (pt_set p i e m) n t v' = walk f m n t v'"
  using assms
proof (induction n arbitrary: t)
  case (Suc n)
  let ?m = "pt_set p i e m" and ?k = "vidx (Suc n) v"
  have t: "page_aligned t" using Suc.prems(1) by simp
  have k: "is_table f (pt_get m t ?k)" "walk f m n (child f (pt_get m t ?k)) v = Some p"
    using Suc.prems(2) by (auto simp: Let_def split: if_splits)
  have wk: "wf_tables f m n (child f (pt_get m t ?k))" using wf_child [OF Suc.prems(1) vidx_lt k(1)] by blast
  have pk: "p \<in> tset f m n (child f (pt_get m t ?k))" using walk_in_tset [OF k(2)] .
  have p: "page_aligned p" using wf_aligned [OF wk pk] by simp
  have "t \<notin> tset f m n (child f (pt_get m t ?k))" using wf_child [OF Suc.prems(1) vidx_lt k(1)] by blast
  then have e: "pt_get ?m t j = pt_get m t j" if "j < 512" for j
    using pk p t Suc.prems(3) that by auto
  have IH: "tset f ?m n (child f (pt_get m t j)) = tset f m n (child f (pt_get m t j))
     \<and> wf_tables f ?m n (child f (pt_get m t j))
     \<and> walk f ?m n (child f (pt_get m t j)) v' = walk f m n (child f (pt_get m t j)) v'"
    if j: "j < 512" "is_table f (pt_get m t j)" for j
  proof (cases "j = ?k")
    case True then show ?thesis using Suc.IH [OF wk k(2) Suc.prems(3)] by simp
  next
    case False
    have wj: "wf_tables f m n (child f (pt_get m t j))" using wf_child [OF Suc.prems(1) j] by blast
    have "p \<notin> tset f m n (child f (pt_get m t j))"
      using wf_disjoint [OF Suc.prems(1) j(1) vidx_lt False j(2) k(1)] pk by blast
    then have "agree (tset f m n (child f (pt_get m t j))) m ?m"
      using p wf_aligned [OF wj] Suc.prems(3) by (auto simp: agree_def)
    from agree_cong [OF this] wj show ?thesis by blast
  qed
  have "tset f ?m (Suc n) t = tset f m (Suc n) t" using e IH by auto
  moreover have "wf_tables f ?m (Suc n) t"
  proof (rule wf_SucI)
    show "page_aligned t" "t \<noteq> 0" using Suc.prems(1) by simp_all
    show "wf_tables f ?m n (child f (pt_get ?m t j)) \<and> t \<notin> tset f ?m n (child f (pt_get ?m t j))"
      if "j < 512" "is_table f (pt_get ?m t j)" for j
      using that e IH wf_child [OF Suc.prems(1)] by simp
    show "tset f ?m n (child f (pt_get ?m t i)) \<inter> tset f ?m n (child f (pt_get ?m t j)) = {}"
      if "i < 512" "j < 512" "i \<noteq> j" "is_table f (pt_get ?m t i)" "is_table f (pt_get ?m t j)" for i j
      using that e IH wf_disjoint [OF Suc.prems(1), of i j] by simp
  qed
  moreover have "walk f ?m (Suc n) t v' = walk f m (Suc n) t v'" using e IH by (simp add: Let_def)
  ultimately show ?case by blast
qed simp

definition same_page :: "nat \<Rightarrow> u64 \<Rightarrow> u64 \<Rightarrow> bool" where
  "same_page n v v' \<longleftrightarrow> (\<forall>k \<le> n. vidx k v = vidx k v')"

lemma walk_same_page: "same_page n v v' \<Longrightarrow> walk f m n t v = walk f m n t v'"
  by (induction n arbitrary: t) (simp_all add: same_page_def Let_def)

lemma leaf_write_lookup:
  assumes "wf_tables f m n t" "walk f m n t v = Some p"
  shows "lookup f (pt_set p (vidx 0 v) e m) n t v' = (if same_page n v v' then e else lookup f m n t v')"
proof -
  have w: "walk f (pt_set p (vidx 0 v) e m) n t v' = walk f m n t v'" using leaf_write [OF assms vidx_lt] by blast
  have p: "page_aligned p" using wf_aligned [OF assms(1) walk_in_tset [OF assms(2)]] by simp
  show ?thesis
  proof (cases "same_page n v v'")
    case True
    then have "walk f m n t v' = Some p" "vidx 0 v' = vidx 0 v"
      using walk_same_page [OF True, of f m t] assms(2) by (simp_all add: same_page_def)
    then show ?thesis using True p w by (simp add: lookup_def)
  next
    case False
    show ?thesis
    proof (cases "walk f m n t v'")
      case None then show ?thesis using False w by (simp add: lookup_def)
    next
      case (Some q)
      have q: "page_aligned q" using wf_aligned [OF assms(1) walk_in_tset [OF Some]] by simp
      have "\<not> (p = q \<and> vidx 0 v = vidx 0 v')"
      proof
        assume pq: "p = q \<and> vidx 0 v = vidx 0 v'"
        then have "vidx k v = vidx k v'" if "k \<le> n" for k
          using walk_same_table [OF assms(1,2)] Some that by (cases "k = 0") auto
        then show False using False by (simp add: same_page_def)
      qed
      then show ?thesis using False w Some p q by (auto simp: lookup_def)
    qed
  qed
qed

declare wf_tables.simps(2) [simp del] tset.simps(2) [simp del]

section \<open>Growing a tree\<close>

text \<open>Physical memory stays below \<open>2 ^ 48\<close> bytes, the range both entry formats can address.\<close>

definition phys_ok :: "pmm \<Rightarrow> bool" where
  "phys_ok p \<longleftrightarrow> pmm_ok p \<and> unat (total_frames p) \<le> 2 ^ 36"

definition ready :: "pt_format \<Rightarrow> nat \<Rightarrow> u64 \<Rightarrow> ('x) vm_scheme \<Rightarrow> bool" where
  "ready f n t s \<longleftrightarrow> phys_ok (vm_pmm s) \<and> wf_tables f (vm_mem s) n t \<and> in_use (vm_pmm s) (tset f (vm_mem s) n t)"

text \<open>No block on the way down.\<close>

fun unblocked :: "pt_format \<Rightarrow> mem \<Rightarrow> nat \<Rightarrow> u64 \<Rightarrow> u64 \<Rightarrow> bool" where
  "unblocked f m 0 t v \<longleftrightarrow> True"
| "unblocked f m (Suc n) t v \<longleftrightarrow> \<not> pf_block f (pt_get m t (vidx (Suc n) v))
     \<and> (pf_present f (pt_get m t (vidx (Suc n) v)) \<longrightarrow> unblocked f m n (child f (pt_get m t (vidx (Suc n) v))) v)"

lemma unblocked_cong: "agree (tset f m n t) m m' \<Longrightarrow> unblocked f m' n t v = unblocked f m n t v"
proof (induction n arbitrary: t)
  case (Suc n)
  let ?i = "vidx (Suc n) v"
  have e: "pt_get m' t ?i = pt_get m t ?i" using Suc.prems by (simp add: agree_def)
  show ?case
  proof (cases "is_table f (pt_get m t ?i)")
    case True
    have "agree (tset f m n (child f (pt_get m t ?i))) m m'"
      by (rule agree_mono [OF Suc.prems]) (use True tset_child [OF vidx_lt] in blast)
    from Suc.IH [OF this] show ?thesis by (simp add: e)
  next
    case False then show ?thesis by (auto simp: e is_table_def)
  qed
qed simp

text \<open>A step that may add tables (in frames that were free) to the tree at \<open>t\<close> but changes no
  translation and touches nothing else that is in use.\<close>

definition grows :: "pt_format \<Rightarrow> nat \<Rightarrow> u64 \<Rightarrow> ('x) vm_scheme \<Rightarrow> ('x) vm_scheme \<Rightarrow> bool" where
  "grows f n t s s' \<longleftrightarrow>
     phys_ok (vm_pmm s') \<and> wf_tables f (vm_mem s') n t
     \<and> (\<forall>v. lookup f (vm_mem s') n t v = lookup f (vm_mem s) n t v)
     \<and> (\<forall>v. unblocked f (vm_mem s) n t v \<longrightarrow> unblocked f (vm_mem s') n t v)
     \<and> tset f (vm_mem s) n t \<subseteq> tset f (vm_mem s') n t
     \<and> tset f (vm_mem s') n t \<subseteq> tset f (vm_mem s) n t \<union> {u. frame_no u \<in> free_set (vm_pmm s)}
     \<and> in_use (vm_pmm s') (tset f (vm_mem s') n t)
     \<and> free_set (vm_pmm s') \<subseteq> free_set (vm_pmm s)
     \<and> kept_outside (tset f (vm_mem s) n t) (free_set (vm_pmm s)) (vm_mem s) (vm_mem s')"

lemma ready_grows_refl: "ready f n t s \<Longrightarrow> grows f n t s s"
  by (simp add: ready_def grows_def kept_outside_def)

lemma grows_ready: "grows f n t s s' \<Longrightarrow> ready f n t s'"
  by (simp add: ready_def grows_def)

lemma grows_trans:
  assumes "grows f n t s1 s2" "grows f n t s2 s3"
  shows "grows f n t s1 s3"
proof -
  let ?T = "\<lambda>s. tset f (vm_mem s) n t" and ?F = "\<lambda>s. free_set (vm_pmm s)"
  have s: "?T s2 \<subseteq> ?T s1 \<union> {u. frame_no u \<in> ?F s1}" "?F s2 \<subseteq> ?F s1"
    "?T s3 \<subseteq> ?T s2 \<union> {u. frame_no u \<in> ?F s2}"
    using assms by (simp_all add: grows_def)
  then have "?T s3 \<subseteq> ?T s1 \<union> {u. frame_no u \<in> ?F s1}" by auto
  moreover have "kept_outside (?T s1) (?F s1) (vm_mem s1) (vm_mem s3)"
    unfolding kept_outside_def
  proof (intro allI impI)
    fix u i assume u: "page_aligned u" "u \<notin> ?T s1" "frame_no u \<notin> ?F s1" and i: "i < (512 :: nat)"
    then have "u \<notin> ?T s2" "frame_no u \<notin> ?F s2" using s by auto
    moreover have "kept_outside (?T s1) (?F s1) (vm_mem s1) (vm_mem s2)" "kept_outside (?T s2) (?F s2) (vm_mem s2) (vm_mem s3)"
      using assms by (simp_all add: grows_def)
    ultimately show "pt_get (vm_mem s3) u i = pt_get (vm_mem s1) u i" using u i by (simp add: kept_outside_def)
  qed
  moreover have "?T s1 \<subseteq> ?T s3" "?F s3 \<subseteq> ?F s1" using assms by (auto simp: grows_def)
  ultimately show ?thesis using assms unfolding grows_def by presburger
qed

text \<open>Growing one child of a table grows the whole tree.\<close>

lemma grows_subtree:
  assumes r: "ready f (Suc n) t s" and i: "i < 512" "is_table f (pt_get (vm_mem s) t i)"
    and g: "grows f n (child f (pt_get (vm_mem s) t i)) s s'"
  shows "grows f (Suc n) t s s'" "\<And>j. j < 512 \<Longrightarrow> pt_get (vm_mem s') t j = pt_get (vm_mem s) t j"
proof -
  let ?m = "vm_mem s" and ?m' = "vm_mem s'" and ?F = "free_set (vm_pmm s)"
  let ?c = "\<lambda>j. child f (pt_get ?m t j)"
  have wf: "wf_tables f ?m (Suc n) t" and use: "in_use (vm_pmm s) (tset f ?m (Suc n) t)" using r by (simp_all add: ready_def)
  have kept: "kept_outside (tset f ?m n (?c i)) ?F ?m ?m'" using g by (simp add: grows_def)
  have t: "page_aligned t" "t \<noteq> 0" "frame_no t \<notin> ?F" using wf_root [OF wf] use by (auto simp: in_use_def)
  have "t \<notin> tset f ?m n (?c i)" using wf_child [OF wf i] by blast
  then show e: "\<And>j. j < 512 \<Longrightarrow> pt_get ?m' t j = pt_get ?m t j" using kept t by (simp add: kept_outside_def)
  have other: "agree (tset f ?m n (?c j)) ?m ?m'" if j: "j < 512" "is_table f (pt_get ?m t j)" "j \<noteq> i" for j
    unfolding agree_def
  proof (intro ballI allI impI)
    fix u k assume u: "u \<in> tset f ?m n (?c j)" and k: "k < (512 :: nat)"
    have "u \<notin> tset f ?m n (?c i)" using wf_disjoint [OF wf j(1) i(1) j(3) j(2) i(2)] u by blast
    moreover have "frame_no u \<notin> ?F" using use tset_child [OF j(1,2) u] by (auto simp: in_use_def)
    moreover have "page_aligned u" using wf_aligned [OF wf_child(1) [OF wf j(1,2)] u] by simp
    ultimately show "pt_get ?m' u k = pt_get ?m u k" using kept k by (simp add: kept_outside_def)
  qed
  have sub: "tset f ?m n (?c j) \<subseteq> tset f ?m' n (?c j) \<and> tset f ?m' n (?c j) \<subseteq> tset f ?m n (?c j) \<union> {u. frame_no u \<in> ?F}
      \<and> wf_tables f ?m' n (?c j) \<and> (\<forall>v. lookup f ?m' n (?c j) v = lookup f ?m n (?c j) v)
      \<and> (j \<noteq> i \<longrightarrow> tset f ?m' n (?c j) = tset f ?m n (?c j))"
    if j: "j < 512" "is_table f (pt_get ?m t j)" for j
  proof (cases "j = i")
    case True then show ?thesis using g by (simp add: grows_def)
  next
    case False
    from agree_cong [OF other [OF j False]] wf_child(1) [OF wf j] show ?thesis by blast
  qed
  have T1: "tset f ?m (Suc n) t \<subseteq> tset f ?m' (Suc n) t"
  proof
    fix u assume "u \<in> tset f ?m (Suc n) t"
    then show "u \<in> tset f ?m' (Suc n) t"
    proof (cases rule: tset_Suc_cases)
      case (2 j)
      then have "is_table f (pt_get ?m' t j)" "u \<in> tset f ?m' n (child f (pt_get ?m' t j))" using sub [OF 2(1,2)] e by auto
      then show ?thesis by (rule tset_child [OF 2(1)])
    qed simp
  qed
  have T2: "u \<in> tset f ?m (Suc n) t \<or> frame_no u \<in> ?F" if "u \<in> tset f ?m' (Suc n) t" for u
    using that
  proof (cases rule: tset_Suc_cases)
    case (2 j)
    then have j: "is_table f (pt_get ?m t j)" "u \<in> tset f ?m' n (?c j)" using e by simp_all
    then show ?thesis using sub [OF 2(1) j(1)] tset_child [OF 2(1) j(1)] by blast
  qed simp
  have T: "tset f ?m (Suc n) t \<subseteq> tset f ?m' (Suc n) t" "tset f ?m' (Suc n) t \<subseteq> tset f ?m (Suc n) t \<union> {u. frame_no u \<in> ?F}"
    using T1 T2 by blast+
  have wf': "wf_tables f ?m' (Suc n) t"
  proof (rule wf_SucI [OF t(1,2)])
    fix j assume j: "j < 512" "is_table f (pt_get ?m' t j)"
    then show "wf_tables f ?m' n (child f (pt_get ?m' t j)) \<and> t \<notin> tset f ?m' n (child f (pt_get ?m' t j))"
      using sub [of j] wf_child(2) [OF wf, of j] t(3) e by fastforce
  next
    fix j k assume jk: "j < 512" "k < 512" "j \<noteq> k" "is_table f (pt_get ?m' t j)" "is_table f (pt_get ?m' t k)"
    then have tab: "is_table f (pt_get ?m t j)" "is_table f (pt_get ?m t k)" using e by simp_all
    have nf: "frame_no u \<notin> ?F" if "u \<in> tset f ?m n (?c l)" "l < 512" "is_table f (pt_get ?m t l)" for u l
      using use tset_child [OF that(2,3,1)] by (auto simp: in_use_def)
    note d = wf_disjoint [OF wf jk(1-3) tab]
    have "tset f ?m' n (?c j) \<inter> tset f ?m' n (?c k) = {}"
    proof (cases "j = i")
      case True
      then have "tset f ?m' n (?c k) = tset f ?m n (?c k)" using sub [OF jk(2) tab(2)] jk(3) by blast
      then show ?thesis using sub [OF jk(1) tab(1)] d nf [OF _ jk(2) tab(2)] by blast
    next
      case False
      then have "tset f ?m' n (?c j) = tset f ?m n (?c j)" using sub [OF jk(1) tab(1)] by blast
      then show ?thesis using sub [OF jk(2) tab(2)] d nf [OF _ jk(1) tab(1)] by blast
    qed
    then show "tset f ?m' n (child f (pt_get ?m' t j)) \<inter> tset f ?m' n (child f (pt_get ?m' t k)) = {}"
      using e jk by simp
  qed
  have look: "lookup f ?m' (Suc n) t v = lookup f ?m (Suc n) t v" for v
    using sub [of "vidx (Suc n) v"] e by (simp add: lookup_def Let_def)
  have use': "in_use (vm_pmm s') (tset f ?m' (Suc n) t)"
    unfolding in_use_def
  proof
    fix u assume u: "u \<in> tset f ?m' (Suc n) t"
    show "frame_no u \<notin> free_set (vm_pmm s')"
    proof (cases "u \<in> tset f ?m' n (?c i)")
      case True then show ?thesis using g by (auto simp: grows_def in_use_def)
    next
      case False
      from u have "u \<in> tset f ?m (Suc n) t"
      proof (cases rule: tset_Suc_cases)
        case (2 j)
        then have j: "is_table f (pt_get ?m t j)" "u \<in> tset f ?m' n (?c j)" using e by simp_all
        then have "j \<noteq> i" using False by blast
        then have "u \<in> tset f ?m n (?c j)" using sub [OF 2(1) j(1)] j(2) by blast
        then show ?thesis by (rule tset_child [OF 2(1) j(1)])
      qed simp
      then show ?thesis using use g by (auto simp: in_use_def grows_def)
    qed
  qed
  have unb: "unblocked f ?m' (Suc n) t v" if v: "unblocked f ?m (Suc n) t v" for v
  proof (cases "is_table f (pt_get ?m t (vidx (Suc n) v))")
    case True
    then have "unblocked f ?m n (?c (vidx (Suc n) v)) v" using v by (simp add: is_table_def)
    then have "unblocked f ?m' n (?c (vidx (Suc n) v)) v"
      using g unblocked_cong [OF other [OF vidx_lt True]] by (cases "vidx (Suc n) v = i") (auto simp: grows_def)
    then show ?thesis using v e [OF vidx_lt] by simp
  next
    case False then show ?thesis using v e [OF vidx_lt] by (simp add: is_table_def)
  qed
  have "kept_outside (tset f ?m (Suc n) t) ?F ?m ?m'"
    using kept tset_child [OF i] unfolding kept_outside_def by blast
  then show "grows f (Suc n) t s s'" using g T wf' look use' unb by (simp add: grows_def)
qed

lemma leaf_write_unblocked:
  assumes "wf_tables f m n t" "walk f m n t v = Some p" "i < 512"
  shows "unblocked f (pt_set p i e m) n t v' = unblocked f m n t v'"
  using assms
proof (induction n arbitrary: t)
  case (Suc n)
  let ?m = "pt_set p i e m" and ?k = "vidx (Suc n) v" and ?j = "vidx (Suc n) v'"
  have k: "is_table f (pt_get m t ?k)" "walk f m n (child f (pt_get m t ?k)) v = Some p"
    using Suc.prems(2) by (auto simp: Let_def split: if_splits)
  have wk: "wf_tables f m n (child f (pt_get m t ?k))" using wf_child [OF Suc.prems(1) vidx_lt k(1)] by blast
  have pk: "p \<in> tset f m n (child f (pt_get m t ?k))" using walk_in_tset [OF k(2)] .
  have p: "page_aligned p" using wf_aligned [OF wk pk] by simp
  have "t \<notin> tset f m n (child f (pt_get m t ?k))" using wf_child [OF Suc.prems(1) vidx_lt k(1)] by blast
  then have e: "pt_get ?m t ?j = pt_get m t ?j" using pk p wf_root [OF Suc.prems(1)] Suc.prems(3) by auto
  have "unblocked f ?m n (child f (pt_get m t ?j)) v' = unblocked f m n (child f (pt_get m t ?j)) v'" if t: "is_table f (pt_get m t ?j)"
  proof (cases "?j = ?k")
    case True then show ?thesis using Suc.IH [OF wk k(2) Suc.prems(3)] by simp
  next
    case False
    have wj: "wf_tables f m n (child f (pt_get m t ?j))" using wf_child [OF Suc.prems(1) vidx_lt t] by blast
    have "p \<notin> tset f m n (child f (pt_get m t ?j))"
      using wf_disjoint [OF Suc.prems(1) vidx_lt vidx_lt False t k(1)] pk by blast
    then have "agree (tset f m n (child f (pt_get m t ?j))) m ?m"
      using p wf_aligned [OF wj] Suc.prems(3) by (auto simp: agree_def)
    then show ?thesis by (rule unblocked_cong)
  qed
  then show ?case using e by (auto simp: is_table_def)
qed simp

text \<open>One step down, making the table if it is missing; 0 stands for \<open>NULL\<close>. \<open>widen\<close> says how an
  existing entry is rewritten, if at all.\<close>

definition descend :: "pt_format \<Rightarrow> (u64 \<Rightarrow> u64) \<Rightarrow> (u64 \<Rightarrow> u64) option \<Rightarrow> u64 \<Rightarrow> nat \<Rightarrow> ('x) vm_scheme \<Rightarrow> u64 \<times> ('x) vm_scheme" where
  "descend f new widen parent i s =
     (let e = pt_get (vm_mem s) parent i
      in if pf_block f e then (0, s)
         else
           let s = (if \<not> pf_present f e then
                      let (frame, s) = vm_alloc s in vm_set parent i (new frame) (zeroed_table frame s)
                    else case widen of None \<Rightarrow> s | Some w \<Rightarrow> vm_set parent i (w e) s)
           in (child f (pt_get (vm_mem s) parent i), s))"

fun create :: "pt_format \<Rightarrow> (u64 \<Rightarrow> u64) \<Rightarrow> (u64 \<Rightarrow> u64) option \<Rightarrow> nat \<Rightarrow> u64 \<Rightarrow> u64 \<Rightarrow> ('x) vm_scheme \<Rightarrow> u64 \<times> ('x) vm_scheme" where
  "create f new widen 0 t v s = (t, s)"
| "create f new widen (Suc n) t v s =
     (let (c, s) = descend f new widen t (vidx (Suc n) v) s in if c = 0 then (0, s) else create f new widen n c v s)"

lemma vm_set_simps [simp]:
  "vm_mem (vm_set t i e s) = pt_set t i e (vm_mem s)" "vm_heap (vm_set t i e s) = vm_heap s"
  "vm_mem (zeroed_table t s) = zero_page t (vm_mem s)" "vm_heap (zeroed_table t s) = vm_heap s"
  by (simp_all add: vm_set_def zeroed_table_def)

lemma vm_alloc_mem: "vm_alloc s = (a, s') \<Longrightarrow> vm_mem s' = vm_mem s"
  by (auto simp: vm_alloc_def Let_def split: prod.splits)

lemma pmm_alloc_total:
  assumes "pmm_ok p" "pmm_alloc_frame p = (a, p')"
  shows "total_frames p' = total_frames p"
proof -
  have "pmm_inv p" using assms(1) by (simp add: pmm_ok_def)
  then show ?thesis using assms(2) by (cases rule: pmm_alloc_frame_cases) simp_all
qed

lemma vm_alloc_cases:
  assumes "phys_ok (vm_pmm s)" "free_set (vm_pmm s) \<noteq> {}"
  obtains a s' where "vm_alloc s = (a, s')" "a \<noteq> 0" "page_aligned a" "unat a < 2 ^ 48" "frame_no a \<in> free_set (vm_pmm s)"
    "phys_ok (vm_pmm s')" "free_set (vm_pmm s') = free_set (vm_pmm s) - {frame_no a}" "vm_mem s' = vm_mem s"
proof -
  obtain a p where a: "pmm_alloc_frame (vm_pmm s) = (a, p)" by (cases "pmm_alloc_frame (vm_pmm s)")
  have ok: "pmm_ok (vm_pmm s)" using assms(1) by (simp add: phys_ok_def)
  have a0: "a \<noteq> 0" using frames.alloc_frame_state(3) [OF ok a] assms(2) by simp
  note f = pmm_alloc_frame_ok [OF ok a a0]
  have "frame_no a < 2 ^ 36"
    using f free_set_bound [of "frame_no a" "vm_pmm s"] assms(1) by (auto simp: phys_ok_def)
  then have lt: "unat a < 2 ^ 48" by (simp add: div_less_iff_less_mult)
  have "total_frames p = total_frames (vm_pmm s)" using pmm_alloc_total [OF ok a] .
  then show thesis
    using that [of a "s\<lparr>vm_heap := (vm_heap s)\<lparr>heap_pmm := p\<rparr>\<rparr>"] a a0 f lt assms(1)
    by (simp add: vm_alloc_def page_aligned_def phys_ok_def)
qed

locale paging =
  fixes f :: pt_format
    and new_entry :: "u64 \<Rightarrow> u64 \<Rightarrow> u64" \<comment> \<open>flags, frame\<close>
    and widen :: "u64 \<Rightarrow> (u64 \<Rightarrow> u64) option"
    and link :: "u64 \<Rightarrow> u64 \<Rightarrow> u64" \<comment> \<open>child, old entry\<close>
  assumes zero_absent: "\<not> pf_present f 0" "\<not> pf_block f 0"
    and child_aligned: "page_aligned (child f e)"
    and new_table: "page_aligned a \<Longrightarrow> unat a < 2 ^ 48 \<Longrightarrow> is_table f (new_entry fl a) \<and> child f (new_entry fl a) = a"
    and widen_table: "widen fl = Some w \<Longrightarrow> is_table f e \<Longrightarrow> is_table f (w e) \<and> child f (w e) = child f e"
    and link_table: "is_table f e \<Longrightarrow> page_aligned a \<Longrightarrow> unat a < 2 ^ 48 \<Longrightarrow>
       is_table f (link a e) \<and> child f (link a e) = a"
begin

lemma zero_not_table [simp]: "\<not> is_table f 0"
  using zero_absent by (simp add: is_table_def)

text \<open>A cleared page is a tree of one table.\<close>

lemma empty_table:
  assumes "page_aligned a" "a \<noteq> 0" "\<And>i. i < 512 \<Longrightarrow> pt_get m a i = 0"
  shows "tset f m n a = {a}" "wf_tables f m n a" "lookup f m n a v = 0" "unblocked f m n a v"
proof -
  show "tset f m n a = {a}" using assms by (cases n) (auto simp: tset.simps(2))
  show "wf_tables f m n a" using assms by (cases n) (auto intro: wf_SucI)
  show "lookup f m n a v = 0" using assms by (cases n) (auto simp: lookup_def)
  show "unblocked f m n a v" using assms zero_absent by (cases n) auto
qed

text \<open>Replacing the entry \<open>i\<close> of the root by one with the same child, or an absent entry by a new
  empty table.\<close>

lemma descend_existing:
  fixes fl :: u64
  assumes r: "ready f (Suc n) t s" and i: "i < 512" and e: "is_table f (pt_get (vm_mem s) t i)"
  defines "s' \<equiv> (case widen fl of None \<Rightarrow> s | Some w \<Rightarrow> vm_set t i (w (pt_get (vm_mem s) t i)) s)"
  shows "grows f (Suc n) t s s'" "is_table f (pt_get (vm_mem s') t i)"
    "child f (pt_get (vm_mem s') t i) = child f (pt_get (vm_mem s) t i)"
    "agree (tset f (vm_mem s) n (child f (pt_get (vm_mem s) t i))) (vm_mem s) (vm_mem s')"
    "vm_heap s' = vm_heap s"
proof -
  let ?m = "vm_mem s" and ?m' = "vm_mem s'"
  have wf: "wf_tables f ?m (Suc n) t" using r by (simp add: ready_def)
  have t: "page_aligned t" "t \<noteq> 0" using wf_root [OF wf] by simp_all
  have ent: "pt_get ?m' u j = (if u = t \<and> j = i then (case widen fl of None \<Rightarrow> pt_get ?m t i | Some w \<Rightarrow> w (pt_get ?m t i)) else pt_get ?m u j)"
    if "page_aligned u" "j < 512" for u j
    using that t(1) i by (cases "widen fl") (simp_all add: s'_def)
  have same: "is_table f (pt_get ?m' t j) = is_table f (pt_get ?m t j)"
    "is_table f (pt_get ?m t j) \<Longrightarrow> child f (pt_get ?m' t j) = child f (pt_get ?m t j)" if "j < 512" for j
    using ent [OF t(1) that] e widen_table [of fl _ "pt_get ?m t i"] by (cases "widen fl"; auto)+
  show "is_table f (pt_get ?m' t i)" "child f (pt_get ?m' t i) = child f (pt_get ?m t i)" using same i e by blast+
  show heap: "vm_heap s' = vm_heap s" by (cases "widen fl") (simp_all add: s'_def)
  have ag: "agree (tset f ?m n (child f (pt_get ?m t j))) ?m ?m'" if j: "j < 512" "is_table f (pt_get ?m t j)" for j
    unfolding agree_def
  proof (intro ballI allI impI)
    fix u k assume u: "u \<in> tset f ?m n (child f (pt_get ?m t j))" and k: "k < (512 :: nat)"
    have "u \<noteq> t" using wf_child(2) [OF wf j] u by blast
    then show "pt_get ?m' u k = pt_get ?m u k" using ent [OF _ k] wf_aligned [OF wf_child(1) [OF wf j] u] by simp
  qed
  then show "agree (tset f ?m n (child f (pt_get ?m t i))) ?m ?m'" using i e by blast
  have sub: "tset f ?m' n (child f (pt_get ?m' t j)) = tset f ?m n (child f (pt_get ?m t j))
      \<and> wf_tables f ?m' n (child f (pt_get ?m' t j)) \<and> lookup f ?m' n (child f (pt_get ?m' t j)) v = lookup f ?m n (child f (pt_get ?m t j)) v"
    if j: "j < 512" "is_table f (pt_get ?m t j)" for j v
    using agree_cong [OF ag [OF j], of v] wf_child(1) [OF wf j] same(2) [OF j] by simp
  have T: "tset f ?m' (Suc n) t = tset f ?m (Suc n) t" using sub same by (auto simp: tset.simps(2))
  have "wf_tables f ?m' (Suc n) t"
    by (rule wf_SucI [OF t]) (use sub same wf_child [OF wf] wf_disjoint [OF wf] in \<open>simp_all\<close>)
  moreover have "lookup f ?m' (Suc n) t v = lookup f ?m (Suc n) t v" for v
    using sub [of "vidx (Suc n) v" v] same [of "vidx (Suc n) v"] by (simp add: lookup_def Let_def)
  moreover have "kept_outside (tset f ?m (Suc n) t) (free_set (vm_pmm s)) ?m ?m'"
    using ent by (auto simp: kept_outside_def)
  moreover have "unblocked f ?m' (Suc n) t v" if v: "unblocked f ?m (Suc n) t v" for v
  proof (cases "is_table f (pt_get ?m t (vidx (Suc n) v))")
    case True
    then have "unblocked f ?m' n (child f (pt_get ?m t (vidx (Suc n) v))) v"
      using v unblocked_cong [OF ag [OF vidx_lt True]] by (simp add: is_table_def)
    then show ?thesis using same [OF vidx_lt, of "Suc n" v] True by (simp add: is_table_def)
  next
    case False
    then have "vidx (Suc n) v \<noteq> i" using e by auto
    then show ?thesis using ent [OF t(1) vidx_lt, of "Suc n" v] v False by (simp add: is_table_def)
  qed
  ultimately show "grows f (Suc n) t s s'" using r T heap by (simp add: grows_def ready_def)
qed

lemma descend_new:
  fixes fl :: u64
  assumes r: "ready f (Suc n) t s" and i: "i < 512" and e: "\<not> pf_present f (pt_get (vm_mem s) t i)"
    and a: "vm_alloc s = (a, s1)" "a \<noteq> 0" "page_aligned a" "unat a < 2 ^ 48" "frame_no a \<in> free_set (vm_pmm s)"
      "phys_ok (vm_pmm s1)" "free_set (vm_pmm s1) = free_set (vm_pmm s) - {frame_no a}" "vm_mem s1 = vm_mem s"
  defines "s' \<equiv> vm_set t i (new_entry fl a) (zeroed_table a s1)"
  shows "grows f (Suc n) t s s'" "is_table f (pt_get (vm_mem s') t i)" "child f (pt_get (vm_mem s') t i) = a"
    "\<And>j. j < 512 \<Longrightarrow> pt_get (vm_mem s') a j = 0"
proof -
  let ?m = "vm_mem s" and ?m' = "vm_mem s'"
  have wf: "wf_tables f ?m (Suc n) t" and use: "in_use (vm_pmm s) (tset f ?m (Suc n) t)" using r by (simp_all add: ready_def)
  have t: "page_aligned t" "t \<noteq> 0" "frame_no t \<notin> free_set (vm_pmm s)" using wf_root [OF wf] use by (auto simp: in_use_def)
  have at: "a \<noteq> t" using a(5) t(3) by auto
  have ent: "pt_get ?m' u j = (if u = t \<and> j = i then new_entry fl a else if u = a then 0 else pt_get ?m u j)"
    if "page_aligned u" "j < 512" for u j
    using that t(1) i a(3,8) at by (auto simp: s'_def)
  note new = new_table [OF a(3,4), of fl]
  show z: "\<And>j. j < 512 \<Longrightarrow> pt_get ?m' a j = 0" using ent a(3) at by simp
  show ti: "is_table f (pt_get ?m' t i)" "child f (pt_get ?m' t i) = a" using ent [OF t(1) i] new by simp_all
  have old: "\<not> is_table f (pt_get ?m t i)" using e by (simp add: is_table_def)
  have ej: "pt_get ?m' t j = pt_get ?m t j" if "j < 512" "j \<noteq> i" for j using ent [OF t(1) that(1)] that(2) at by simp
  have ag: "agree (tset f ?m n (child f (pt_get ?m t j))) ?m ?m'" if j: "j < 512" "is_table f (pt_get ?m t j)" for j
    unfolding agree_def
  proof (intro ballI allI impI)
    fix u k assume u: "u \<in> tset f ?m n (child f (pt_get ?m t j))" and k: "k < (512 :: nat)"
    have "u \<noteq> t" using wf_child(2) [OF wf j] u by blast
    moreover have "frame_no u \<notin> free_set (vm_pmm s)" using use tset_child [OF j u] by (auto simp: in_use_def)
    then have "u \<noteq> a" using a(5) by auto
    ultimately show "pt_get ?m' u k = pt_get ?m u k" using ent [OF _ k] wf_aligned [OF wf_child(1) [OF wf j] u] by simp
  qed
  have sub: "tset f ?m' n (child f (pt_get ?m' t j)) = tset f ?m n (child f (pt_get ?m t j))
      \<and> wf_tables f ?m' n (child f (pt_get ?m' t j)) \<and> lookup f ?m' n (child f (pt_get ?m' t j)) v = lookup f ?m n (child f (pt_get ?m t j)) v"
    if j: "j < 512" "is_table f (pt_get ?m t j)" "j \<noteq> i" for j v
    using agree_cong [OF ag [OF j(1,2)], of v] wf_child(1) [OF wf j(1,2)] ej [OF j(1,3)] by simp
  note emp = empty_table [OF a(3,2), where m = ?m', OF z]
  have fresh: "a \<notin> tset f ?m (Suc n) t" using use a(5) by (auto simp: in_use_def)
  have T: "tset f ?m' (Suc n) t = insert a (tset f ?m (Suc n) t)"
  proof -
    have same: "is_table f (pt_get ?m' t j) \<longleftrightarrow> j = i \<or> is_table f (pt_get ?m t j)" if "j < 512" for j
      using ti(1) ej [OF that] by (cases "j = i") auto
    have "{j. j < 512 \<and> is_table f (pt_get ?m' t j)} = insert i {j. j < 512 \<and> is_table f (pt_get ?m t j)}"
      using i same by auto
    moreover have "(\<Union>j \<in> {j. j < 512 \<and> is_table f (pt_get ?m t j)}. tset f ?m' n (child f (pt_get ?m' t j)))
       = (\<Union>j \<in> {j. j < 512 \<and> is_table f (pt_get ?m t j)}. tset f ?m n (child f (pt_get ?m t j)))"
      using sub old by (intro SUP_cong) auto
    ultimately show ?thesis using emp(1) ti(2) by (auto simp: tset.simps(2))
  qed
  have wf': "wf_tables f ?m' (Suc n) t"
  proof (rule wf_SucI [OF t(1,2)])
    fix j assume j: "j < 512" "is_table f (pt_get ?m' t j)"
    show "wf_tables f ?m' n (child f (pt_get ?m' t j)) \<and> t \<notin> tset f ?m' n (child f (pt_get ?m' t j))"
    proof (cases "j = i")
      case True then show ?thesis using emp(1,2) ti(2) at by auto
    next
      case False
      then have "is_table f (pt_get ?m t j)" using j ej by simp
      then show ?thesis using sub [OF j(1) _ False] wf_child(2) [OF wf j(1)] by simp
    qed
  next
    fix j k assume jk: "j < 512" "k < 512" "j \<noteq> k" "is_table f (pt_get ?m' t j)" "is_table f (pt_get ?m' t k)"
    have na: "a \<notin> tset f ?m' n (child f (pt_get ?m' t l))" if "l < 512" "l \<noteq> i" "is_table f (pt_get ?m' t l)" for l
      using sub [OF that(1) _ that(2)] that fresh tset_child [OF that(1), of f ?m t a n] ej by auto
    show "tset f ?m' n (child f (pt_get ?m' t j)) \<inter> tset f ?m' n (child f (pt_get ?m' t k)) = {}"
    proof (cases "j = i \<or> k = i")
      case True then show ?thesis using na jk emp(1) ti(2) by auto
    next
      case False
      then have "is_table f (pt_get ?m t j)" "is_table f (pt_get ?m t k)" using jk ej by simp_all
      then show ?thesis using sub [OF jk(1)] sub [OF jk(2)] wf_disjoint [OF wf jk(1-3)] False by simp
    qed
  qed
  have look: "lookup f ?m' (Suc n) t v = lookup f ?m (Suc n) t v" for v
  proof (cases "vidx (Suc n) v = i")
    case True then show ?thesis using ti emp(3) [of n v] old by (simp add: lookup_def Let_def)
  next
    case False
    then show ?thesis using sub [of "vidx (Suc n) v" v] ej [of "vidx (Suc n) v"] by (simp add: lookup_def Let_def)
  qed
  have h: "vm_heap s' = vm_heap s1" by (simp add: s'_def)
  have "in_use (vm_pmm s') (tset f ?m' (Suc n) t)" using use a(7) unfolding T h by (auto simp: in_use_def)
  moreover have "kept_outside (tset f ?m (Suc n) t) (free_set (vm_pmm s)) ?m ?m'"
    using ent a(5) by (auto simp: kept_outside_def)
  moreover have "unblocked f ?m' (Suc n) t v" if v: "unblocked f ?m (Suc n) t v" for v
  proof (cases "vidx (Suc n) v = i")
    case True
    then show ?thesis using ti emp(4) [of n v] by (simp add: is_table_def)
  next
    case False
    then show ?thesis using v ej [OF vidx_lt, of "Suc n" v] unblocked_cong [OF ag [OF vidx_lt]] by (auto simp: is_table_def)
  qed
  ultimately show "grows f (Suc n) t s s'" using wf' look a(5-7) unfolding grows_def T h by auto
qed

lemma create_spec:
  assumes "ready f n t s" "unblocked f (vm_mem s) n t v" "n \<le> card (free_set (vm_pmm s))"
  obtains c s' where "create f (new_entry fl) (widen fl) n t v s = (c, s')" "c \<noteq> 0" "grows f n t s s'"
    "walk f (vm_mem s') n t v = Some c"
  using assms
proof (induction n arbitrary: t s thesis)
  case 0
  show ?case by (rule "0.prems"(1) [of t s])
      (use wf_root [of f "vm_mem s" 0 t] "0.prems"(2) in \<open>auto simp: ready_grows_refl ready_def\<close>)
next
  case (Suc n)
  let ?i = "vidx (Suc n) v"
  let ?e = "pt_get (vm_mem s) t ?i"
  have nb: "\<not> pf_block f ?e" using Suc.prems(3) by simp
  have "\<exists>c s1. descend f (new_entry fl) (widen fl) t ?i s = (c, s1) \<and> grows f (Suc n) t s s1
      \<and> is_table f (pt_get (vm_mem s1) t ?i) \<and> child f (pt_get (vm_mem s1) t ?i) = c
      \<and> unblocked f (vm_mem s1) n c v \<and> n \<le> card (free_set (vm_pmm s1))"
  proof (cases "pf_present f ?e")
    case True
    then have e: "is_table f ?e" using nb by (simp add: is_table_def)
    note d = descend_existing [OF Suc.prems(2) vidx_lt e, where fl = fl]
    have "unblocked f (vm_mem s) n (child f ?e) v" using Suc.prems(3) True by simp
    then show ?thesis using d unblocked_cong [OF d(4)] True nb Suc.prems(4)
      by (auto simp: descend_def Let_def split: option.splits)
  next
    case False
    have ok: "phys_ok (vm_pmm s)" using Suc.prems(2) by (simp add: ready_def)
    have ne: "free_set (vm_pmm s) \<noteq> {}" using Suc.prems(4) by auto
    obtain a s1 where a: "vm_alloc s = (a, s1)" "a \<noteq> 0" "page_aligned a" "unat a < 2 ^ 48" "frame_no a \<in> free_set (vm_pmm s)"
      "phys_ok (vm_pmm s1)" "free_set (vm_pmm s1) = free_set (vm_pmm s) - {frame_no a}" "vm_mem s1 = vm_mem s"
      by (rule vm_alloc_cases [OF ok ne])
    define s2 where "s2 = vm_set t ?i (new_entry fl a) (zeroed_table a s1)"
    note d = descend_new [OF Suc.prems(2) vidx_lt False a, where fl = fl, folded s2_def]
    have "descend f (new_entry fl) (widen fl) t ?i s = (a, s2)"
      using a(1) False nb d(3) by (simp add: descend_def Let_def s2_def)
    moreover have "n \<le> card (free_set (vm_pmm s2))" using Suc.prems(4) a(5,7) by (simp add: s2_def)
    ultimately show ?thesis using d empty_table(4) [OF a(3,2) d(4)] by metis
  qed
  then obtain c s1 where d: "descend f (new_entry fl) (widen fl) t ?i s = (c, s1)" and g1: "grows f (Suc n) t s s1"
    and c: "is_table f (pt_get (vm_mem s1) t ?i)" "child f (pt_get (vm_mem s1) t ?i) = c"
    and u: "unblocked f (vm_mem s1) n c v" "n \<le> card (free_set (vm_pmm s1))" by blast
  have r1: "ready f (Suc n) t s1" using grows_ready [OF g1] .
  then have wf1: "wf_tables f (vm_mem s1) (Suc n) t" by (simp add: ready_def)
  have "ready f n c s1"
    using r1 wf_child(1) [OF wf1 vidx_lt c(1)] tset_child [OF vidx_lt c(1)] c(2) by (auto simp: ready_def in_use_def)
  from Suc.IH [OF _ this u] obtain c' s' where IH: "create f (new_entry fl) (widen fl) n c v s1 = (c', s')" "c' \<noteq> 0"
    "grows f n c s1 s'" "walk f (vm_mem s') n c v = Some c'" by blast
  have "c \<noteq> 0" using wf_root [OF wf_child(1) [OF wf1 vidx_lt c(1)]] c(2) by simp
  then have "create f (new_entry fl) (widen fl) (Suc n) t v s = (c', s')" using d IH(1) by simp
  moreover have g2: "grows f (Suc n) t s1 s'" and e: "\<And>j. j < 512 \<Longrightarrow> pt_get (vm_mem s') t j = pt_get (vm_mem s1) t j"
    using grows_subtree [OF r1 vidx_lt c(1)] c(2) IH(3) by blast+
  moreover have "walk f (vm_mem s') (Suc n) t v = Some c'" using e [OF vidx_lt] c IH(4) by simp
  ultimately show ?case using Suc.prems(1) IH(2) grows_trans [OF g1 g2] by blast
qed

text \<open>Mapping: build the path, write the leaf. All other pages of the tree keep their entries, and
  whatever is in use outside the tree is untouched.\<close>

lemma map_spec:
  assumes r: "ready f n t s" and u: "unblocked f (vm_mem s) n t v" "n \<le> card (free_set (vm_pmm s))"
  obtains c s' where "create f (new_entry fl) (widen fl) n t v s = (c, s')" "c \<noteq> 0"
    "\<And>v'. lookup f (pt_set c (vidx 0 v) e (vm_mem s')) n t v' = (if same_page n v v' then e else lookup f (vm_mem s) n t v')"
    "ready f n t (vm_set c (vidx 0 v) e s')"
    "kept_outside (tset f (vm_mem s) n t) (free_set (vm_pmm s)) (vm_mem s) (pt_set c (vidx 0 v) e (vm_mem s'))"
    "free_set (vm_pmm s') \<subseteq> free_set (vm_pmm s)"
    "tset f (pt_set c (vidx 0 v) e (vm_mem s')) n t \<subseteq> tset f (vm_mem s) n t \<union> {u. frame_no u \<in> free_set (vm_pmm s)}"
    "\<And>v'. unblocked f (vm_mem s) n t v' \<Longrightarrow> unblocked f (pt_set c (vidx 0 v) e (vm_mem s')) n t v'"
proof -
  obtain c s' where c: "create f (new_entry fl) (widen fl) n t v s = (c, s')" "c \<noteq> 0" and g: "grows f n t s s'"
    and w: "walk f (vm_mem s') n t v = Some c" by (rule create_spec [OF r u])
  have wf: "wf_tables f (vm_mem s') n t" using g by (simp add: grows_def)
  note l = leaf_write [OF wf w vidx_lt, of 0 v e]
  have look: "lookup f (pt_set c (vidx 0 v) e (vm_mem s')) n t v' = (if same_page n v v' then e else lookup f (vm_mem s) n t v')" for v'
    using leaf_write_lookup [OF wf w, of e v'] g by (simp add: grows_def)
  have ct: "c \<in> tset f (vm_mem s') n t" using walk_in_tset [OF w] .
  have ca: "page_aligned c" using wf_aligned [OF wf ct] by simp
  have kept: "kept_outside (tset f (vm_mem s) n t) (free_set (vm_pmm s)) (vm_mem s) (pt_set c (vidx 0 v) e (vm_mem s'))"
    unfolding kept_outside_def
  proof (intro allI impI)
    fix x i assume x: "page_aligned x" "x \<notin> tset f (vm_mem s) n t" "frame_no x \<notin> free_set (vm_pmm s)" "i < (512 :: nat)"
    then have "c \<noteq> x" using g ct by (auto simp: grows_def)
    moreover have "pt_get (vm_mem s') x i = pt_get (vm_mem s) x i" using g x by (simp add: grows_def kept_outside_def)
    ultimately show "pt_get (pt_set c (vidx 0 v) e (vm_mem s')) x i = pt_get (vm_mem s) x i" using x ca by simp
  qed
  have "ready f n t (vm_set c (vidx 0 v) e s')" using g l by (simp add: ready_def grows_def)
  moreover have "unblocked f (pt_set c (vidx 0 v) e (vm_mem s')) n t v'" if "unblocked f (vm_mem s) n t v'" for v'
    using that g leaf_write_unblocked [OF wf w vidx_lt, of 0 v e v'] by (simp add: grows_def)
  ultimately show thesis using that [OF c look] kept g l by (simp add: grows_def)
qed

end

section \<open>Cloning and freeing a tree\<close>

primrec clone_tree :: "pt_format \<Rightarrow> (u64 \<Rightarrow> u64 \<Rightarrow> u64) \<Rightarrow> nat \<Rightarrow> u64 \<Rightarrow> ('x) vm_scheme \<Rightarrow> u64 \<times> ('x) vm_scheme" where
  "clone_tree f lnk 0 src s =
     (let (a, s) = vm_alloc s; s = zeroed_table a s
      in (a, fold (\<lambda>i s. let e = pt_get (vm_mem s) src i
                          in if \<not> pf_present f e then s else vm_set a i e s) [0..<512] s))"
| "clone_tree f lnk (Suc n) src s =
     (let (a, s) = vm_alloc s; s = zeroed_table a s
      in (a, fold (\<lambda>i s. let e = pt_get (vm_mem s) src i
                          in if \<not> pf_present f e then s
                             else if pf_block f e then vm_set a i e s
                             else let (c, s) = clone_tree f lnk n (child f e) s in vm_set a i (lnk c e) s) [0..<512] s))"

primrec free_tree :: "pt_format \<Rightarrow> nat \<Rightarrow> u64 \<Rightarrow> ('x) vm_scheme \<Rightarrow> ('x) vm_scheme" where
  "free_tree f 0 t s = vm_free t s"
| "free_tree f (Suc n) t s =
     vm_free t (fold (\<lambda>i s. let e = pt_get (vm_mem s) t i in if is_table f e then free_tree f n (child f e) s else s) [0..<512] s)"

text \<open>An entry as the processor sees it: whatever is not present is absent.\<close>

definition seen :: "pt_format \<Rightarrow> u64 \<Rightarrow> u64" where
  "seen f e = (if pf_present f e then e else 0)"

lemma lookup_Suc:
  "lookup f m (Suc n) t v =
     (if is_table f (pt_get m t (vidx (Suc n) v)) then lookup f m n (child f (pt_get m t (vidx (Suc n) v))) v else 0)"
  by (simp add: lookup_def Let_def)

lemma finite_tset [simp]: "finite (tset f m n t)"
  by (induction n arbitrary: t) (auto simp: tset.simps(2))

lemma frame_no_inj: "page_aligned a \<Longrightarrow> page_aligned b \<Longrightarrow> frame_no a = frame_no b \<Longrightarrow> a = b"
  by (auto simp: page_aligned_def word_unat_eq_iff elim!: dvdE)

text \<open>Writing an entry of the root that was not a table before.\<close>

lemma set_entry_agree:
  assumes wf: "wf_tables f m (Suc n) a" and j: "j < 512" "is_table f (pt_get m a j)" and k: "k < 512"
  shows "agree (tset f m n (child f (pt_get m a j))) m (pt_set a k e m)"
  unfolding agree_def
proof (intro ballI allI impI)
  fix u i assume u: "u \<in> tset f m n (child f (pt_get m a j))" and i: "i < (512 :: nat)"
  have "u \<noteq> a" using wf_child(2) [OF wf j] u by blast
  then show "pt_get (pt_set a k e m) u i = pt_get m u i"
    using wf_aligned [OF wf_child(1) [OF wf j] u] wf_root [OF wf] i k by simp
qed

lemma set_leaf_entry:
  assumes wf: "wf_tables f m (Suc n) a" and k: "k < 512" "\<not> is_table f (pt_get m a k)" and e: "\<not> is_table f e"
  shows "tset f (pt_set a k e m) (Suc n) a = tset f m (Suc n) a" "wf_tables f (pt_set a k e m) (Suc n) a"
    "lookup f (pt_set a k e m) (Suc n) a v = lookup f m (Suc n) a v"
proof -
  let ?m = "pt_set a k e m"
  have a: "page_aligned a" "a \<noteq> 0" using wf_root [OF wf] by simp_all
  have ent: "pt_get ?m a j = (if j = k then e else pt_get m a j)" if "j < 512" for j using a k that by simp
  have tab: "is_table f (pt_get ?m a j) \<longleftrightarrow> is_table f (pt_get m a j)" if "j < 512" for j
    using ent [OF that] k e by simp
  have same: "pt_get ?m a j = pt_get m a j" if "j < 512" "is_table f (pt_get m a j)" for j
    using ent [OF that(1)] that k by auto
  note ag = agree_cong [OF set_entry_agree [OF wf _ _ k(1), of _ e]]
  show "tset f ?m (Suc n) a = tset f m (Suc n) a" using ag tab same by (auto simp: tset.simps(2))
  show "wf_tables f ?m (Suc n) a"
    by (rule wf_SucI [OF a]) (use ag tab same wf_child [OF wf] wf_disjoint [OF wf] in \<open>simp_all\<close>)
  show "lookup f ?m (Suc n) a v = lookup f m (Suc n) a v"
    using ag [of "vidx (Suc n) v" v] tab [of "vidx (Suc n) v"] same [of "vidx (Suc n) v"] by (simp add: lookup_Suc)
qed

lemma set_entry_unblocked:
  assumes wf: "wf_tables f m (Suc n) a" and k: "k < 512" and v: "vidx (Suc n) v \<noteq> k"
  shows "unblocked f (pt_set a k e m) (Suc n) a v = unblocked f m (Suc n) a v"
proof -
  let ?e = "pt_get m a (vidx (Suc n) v)"
  have e: "pt_get (pt_set a k e m) a (vidx (Suc n) v) = ?e" using wf_root [OF wf] k v by simp
  show ?thesis
  proof (cases "is_table f ?e")
    case True
    then show ?thesis using unblocked_cong [OF set_entry_agree [OF wf vidx_lt True k]] e by simp
  next
    case False then show ?thesis using e by (auto simp: is_table_def)
  qed
qed

lemma attach_subtree:
  assumes wf: "wf_tables f m (Suc n) a" and k: "k < 512" "\<not> is_table f (pt_get m a k)"
    and c: "wf_tables f m n c" "tset f m n c \<inter> tset f m (Suc n) a = {}" and e: "is_table f e" "child f e = c"
  shows "tset f (pt_set a k e m) (Suc n) a = tset f m (Suc n) a \<union> tset f m n c" "wf_tables f (pt_set a k e m) (Suc n) a"
    "lookup f (pt_set a k e m) (Suc n) a v = (if vidx (Suc n) v = k then lookup f m n c v else lookup f m (Suc n) a v)"
proof -
  let ?m = "pt_set a k e m"
  have a: "page_aligned a" "a \<noteq> 0" using wf_root [OF wf] by simp_all
  have ent: "pt_get ?m a j = (if j = k then e else pt_get m a j)" if "j < 512" for j using a k that by simp
  have "agree (tset f m n c) m ?m"
    unfolding agree_def
  proof (intro ballI allI impI)
    fix u i assume u: "u \<in> tset f m n c" and i: "i < (512 :: nat)"
    have "u \<noteq> a" using c(2) u by auto
    then show "pt_get ?m u i = pt_get m u i" using wf_aligned [OF c(1) u] a(1) i k(1) by simp
  qed
  note agc = agree_cong [OF this]
  note ag = agree_cong [OF set_entry_agree [OF wf _ _ k(1), of _ e]]
  have sub: "tset f ?m n (child f (pt_get ?m a j)) = (if j = k then tset f m n c else tset f m n (child f (pt_get m a j)))
      \<and> wf_tables f ?m n (child f (pt_get ?m a j)) \<and> a \<notin> tset f ?m n (child f (pt_get ?m a j))"
    if "j < 512" "is_table f (pt_get ?m a j)" for j
    using that ent [OF that(1)] agc ag [of j] c e wf_child [OF wf, of j] by (cases "j = k") auto
  have tabs: "{j. j < 512 \<and> is_table f (pt_get ?m a j)} = insert k {j. j < 512 \<and> is_table f (pt_get m a j)}"
    using ent k e by auto
  have "(\<Union>j \<in> {j. j < 512 \<and> is_table f (pt_get m a j)}. tset f ?m n (child f (pt_get ?m a j)))
       = (\<Union>j \<in> {j. j < 512 \<and> is_table f (pt_get m a j)}. tset f m n (child f (pt_get m a j)))"
  proof (rule SUP_cong)
    fix j assume "j \<in> {j. j < 512 \<and> is_table f (pt_get m a j)}"
    then have j: "j < 512" "is_table f (pt_get m a j)" "j \<noteq> k" using k(2) by auto
    then show "tset f ?m n (child f (pt_get ?m a j)) = tset f m n (child f (pt_get m a j))"
      using sub [of j] ent [of j] by simp
  qed simp
  then show "tset f ?m (Suc n) a = tset f m (Suc n) a \<union> tset f m n c"
    using agc ent [OF k(1)] e by (auto simp: tset.simps(2) tabs)
  show "wf_tables f ?m (Suc n) a"
  proof (rule wf_SucI [OF a])
    fix i j assume ij: "i < 512" "j < 512" "i \<noteq> j" "is_table f (pt_get ?m a i)" "is_table f (pt_get ?m a j)"
    have out: "tset f m n (child f (pt_get m a l)) \<inter> tset f m n c = {}" if "l < 512" "l \<noteq> k" "is_table f (pt_get ?m a l)" for l
      using c(2) tset_child [OF that(1), of f m a _ n] that ent [OF that(1)] by auto
    show "tset f ?m n (child f (pt_get ?m a i)) \<inter> tset f ?m n (child f (pt_get ?m a j)) = {}"
    proof (cases "i = k \<or> j = k")
      case True then show ?thesis using sub [OF ij(1,4)] sub [OF ij(2,5)] out [of i] out [of j] ij by auto
    next
      case False
      then have "is_table f (pt_get m a i)" "is_table f (pt_get m a j)" using ij ent by simp_all
      then show ?thesis using sub [OF ij(1,4)] sub [OF ij(2,5)] wf_disjoint [OF wf ij(1-3)] False by simp
    qed
  qed (use sub in blast)
  show "lookup f ?m (Suc n) a v = (if vidx (Suc n) v = k then lookup f m n c v else lookup f m (Suc n) a v)"
    using ag [of "vidx (Suc n) v" v] agc [of v] ent [of "vidx (Suc n) v"] ent [OF k(1)] e
    by (cases "vidx (Suc n) v = k") (simp_all add: lookup_Suc)
qed

lemma card_tset_Suc:
  assumes "wf_tables f m (Suc n) t"
  shows "card (tset f m (Suc n) t) = 1 + (\<Sum>i<512. if is_table f (pt_get m t i) then card (tset f m n (child f (pt_get m t i))) else 0)"
proof -
  let ?I = "{i. i < 512 \<and> is_table f (pt_get m t i)}"
  have "card (\<Union>i \<in> ?I. tset f m n (child f (pt_get m t i))) = (\<Sum>i \<in> ?I. card (tset f m n (child f (pt_get m t i))))"
    by (rule card_UN_disjoint) (use wf_disjoint [OF assms] in auto)
  also have "\<dots> = (\<Sum>i<512. if is_table f (pt_get m t i) then card (tset f m n (child f (pt_get m t i))) else 0)"
    by (subst sum.inter_filter [symmetric]) (auto intro: sum.cong)
  finally show ?thesis
    using wf_child(2) [OF assms] by (subst tset.simps(2), subst card_insert_disjoint) auto
qed

lemma card_free_minus:
  assumes "wf_tables f m n a" "\<And>u. u \<in> tset f m n a \<Longrightarrow> frame_no u \<in> free_set p"
  shows "card (free_set p - frame_no ` tset f m n a) = card (free_set p) - card (tset f m n a)"
proof -
  have "inj_on frame_no (tset f m n a)"
    using frame_no_inj wf_aligned [OF assms(1)] by (auto simp: inj_on_def)
  then show ?thesis using assms(2) by (subst card_Diff_subset) (auto simp: card_image)
qed

lemma kept_outside_trans:
  assumes "kept_outside S F m1 m2" "kept_outside S G m2 m3" "G \<subseteq> F"
  shows "kept_outside S F m1 m3"
  using assms unfolding kept_outside_def by (metis subsetD)

lemma kept_agree:
  assumes "kept_outside {} F m m'" "\<And>u. u \<in> T \<Longrightarrow> page_aligned u \<and> frame_no u \<notin> F"
  shows "agree T m m'"
  using assms by (auto simp: agree_def kept_outside_def)

text \<open>\<open>a\<close> is a copy of the tree \<open>src\<close>: made of frames that were free, as large as the original, and with
  the same visible entries.\<close>

definition cloned :: "pt_format \<Rightarrow> nat \<Rightarrow> u64 \<Rightarrow> u64 \<Rightarrow> ('x) vm_scheme \<Rightarrow> ('x) vm_scheme \<Rightarrow> bool" where
  "cloned f n src a s s' \<longleftrightarrow> ready f n a s'
     \<and> (\<forall>u \<in> tset f (vm_mem s') n a. frame_no u \<in> free_set (vm_pmm s))
     \<and> free_set (vm_pmm s') = free_set (vm_pmm s) - frame_no ` tset f (vm_mem s') n a
     \<and> card (tset f (vm_mem s') n a) = card (tset f (vm_mem s) n src)
     \<and> (\<forall>v. seen f (lookup f (vm_mem s') n a v) = seen f (lookup f (vm_mem s) n src v))
     \<and> (\<forall>v. unblocked f (vm_mem s) n src v \<longrightarrow> unblocked f (vm_mem s') n a v)
     \<and> kept_outside {} (free_set (vm_pmm s)) (vm_mem s) (vm_mem s')"

text \<open>The state of the copy after the first \<open>k\<close> entries of the root.\<close>

definition copied :: "pt_format \<Rightarrow> nat \<Rightarrow> u64 \<Rightarrow> u64 \<Rightarrow> ('x) vm_scheme \<Rightarrow> nat \<Rightarrow> ('x) vm_scheme \<Rightarrow> bool" where
  "copied f n src a s k sk \<longleftrightarrow> ready f (Suc n) a sk
     \<and> (\<forall>u \<in> tset f (vm_mem sk) (Suc n) a. frame_no u \<in> free_set (vm_pmm s))
     \<and> free_set (vm_pmm sk) = free_set (vm_pmm s) - frame_no ` tset f (vm_mem sk) (Suc n) a
     \<and> card (tset f (vm_mem sk) (Suc n) a) = 1 + (\<Sum>i<k. if is_table f (pt_get (vm_mem s) src i)
           then card (tset f (vm_mem s) n (child f (pt_get (vm_mem s) src i))) else 0)
     \<and> (\<forall>v. vidx (Suc n) v < k \<longrightarrow> seen f (lookup f (vm_mem sk) (Suc n) a v) = seen f (lookup f (vm_mem s) (Suc n) src v))
     \<and> (\<forall>v. vidx (Suc n) v < k \<longrightarrow> unblocked f (vm_mem s) (Suc n) src v \<longrightarrow> unblocked f (vm_mem sk) (Suc n) a v)
     \<and> (\<forall>i. k \<le> i \<longrightarrow> i < 512 \<longrightarrow> pt_get (vm_mem sk) a i = 0)
     \<and> kept_outside {} (free_set (vm_pmm s)) (vm_mem s) (vm_mem sk)"

context paging
begin

lemma cloned_start:
  assumes "phys_ok (vm_pmm s)" "free_set (vm_pmm s) \<noteq> {}"
  obtains a s1 where "vm_alloc s = (a, s1)" "page_aligned a" "a \<noteq> 0" "unat a < 2 ^ 48" "frame_no a \<in> free_set (vm_pmm s)"
    "\<forall>i < 512. pt_get (vm_mem (zeroed_table a s1)) a i = 0"
    "ready f n a (zeroed_table a s1)" "tset f (vm_mem (zeroed_table a s1)) n a = {a}"
    "free_set (vm_pmm (zeroed_table a s1)) = free_set (vm_pmm s) - {frame_no a}"
    "kept_outside {} (free_set (vm_pmm s)) (vm_mem s) (vm_mem (zeroed_table a s1))"
proof -
  obtain a s1 where a: "vm_alloc s = (a, s1)" "a \<noteq> 0" "page_aligned a" "unat a < 2 ^ 48" "frame_no a \<in> free_set (vm_pmm s)"
      "phys_ok (vm_pmm s1)" "free_set (vm_pmm s1) = free_set (vm_pmm s) - {frame_no a}" "vm_mem s1 = vm_mem s"
    by (rule vm_alloc_cases [OF assms])
  have z: "\<And>i. i < 512 \<Longrightarrow> pt_get (vm_mem (zeroed_table a s1)) a i = 0" using a(3) by simp
  note e = empty_table [OF a(3,2) z]
  have "kept_outside {} (free_set (vm_pmm s)) (vm_mem s) (vm_mem (zeroed_table a s1))"
    using a(3,5,8) by (auto simp: kept_outside_def)
  moreover have "ready f n a (zeroed_table a s1)" using e(1,2) a(6,7) by (simp add: ready_def in_use_def)
  ultimately show thesis using that [OF a(1,3,2,4,5) _ _ e(1)] z a(7) by simp
qed

lemma copied_none:
  assumes c: "copied f n src a s k sk" and k: "k < 512" and e: "\<not> is_table f (pt_get (vm_mem s) src k)"
  shows "copied f n src a s (Suc k) sk"
    and "copied f n src a s (Suc k) (vm_set a k (pt_get (vm_mem s) src k) sk)"
proof -
  let ?x = "pt_get (vm_mem s) src k"
  have nt: "\<not> is_table f (pt_get (vm_mem sk) a k)" and zero: "pt_get (vm_mem sk) a k = 0" and wf: "wf_tables f (vm_mem sk) (Suc n) a"
    using c k by (auto simp: copied_def ready_def)
  have 0: "lookup f (vm_mem sk) (Suc n) a v = 0" "lookup f (vm_mem s) (Suc n) src v = 0" if "vidx (Suc n) v = k" for v
    using nt e that by (simp_all add: lookup_Suc)
  have u0: "unblocked f (vm_mem sk) (Suc n) a v" if "vidx (Suc n) v = k" for v
    using that zero zero_absent by simp
  show "copied f n src a s (Suc k) sk" using c e 0 u0 unfolding copied_def less_Suc_eq by auto
  note l = set_leaf_entry [OF wf k nt e]
  have a: "page_aligned a" "frame_no a \<in> free_set (vm_pmm s)"
    using c wf_root [OF wf] by (auto simp: copied_def)
  have "kept_outside {} (free_set (vm_pmm s)) (vm_mem s) (pt_set a k ?x (vm_mem sk))"
    using c a k unfolding copied_def kept_outside_def by auto
  moreover have "\<forall>i. Suc k \<le> i \<longrightarrow> i < 512 \<longrightarrow> pt_get (pt_set a k ?x (vm_mem sk)) a i = 0"
    using c a k by (auto simp: copied_def)
  moreover have "unblocked f (pt_set a k ?x (vm_mem sk)) (Suc n) a v"
    if "vidx (Suc n) v < Suc k" "unblocked f (vm_mem s) (Suc n) src v" for v
  proof (cases "vidx (Suc n) v = k")
    case True then show ?thesis using that(2) e a k by (simp add: is_table_def)
  next
    case False
    then show ?thesis using c that set_entry_unblocked [OF wf k False] unfolding copied_def by auto
  qed
  ultimately show "copied f n src a s (Suc k) (vm_set a k ?x sk)"
    using c e l 0 unfolding copied_def ready_def by (auto simp: less_Suc_eq)
qed

lemma copied_source:
  assumes c: "copied f n src a s k sk" and r: "ready f (Suc n) src s"
  shows "agree (tset f (vm_mem s) (Suc n) src) (vm_mem s) (vm_mem sk)"
  using c r wf_aligned [of f "vm_mem s" "Suc n" src]
  by (intro kept_agree [of "free_set (vm_pmm s)"]) (auto simp: copied_def ready_def in_use_def)

lemma copied_child:
  assumes c: "copied f n src a s k sk" and r: "ready f (Suc n) src s" and k: "k < 512"
    and e: "is_table f (pt_get (vm_mem s) src k)" and room: "card (tset f (vm_mem s) (Suc n) src) \<le> card (free_set (vm_pmm s))"
  shows "pt_get (vm_mem sk) src k = pt_get (vm_mem s) src k"
    "ready f n (child f (pt_get (vm_mem s) src k)) sk"
    "tset f (vm_mem sk) n (child f (pt_get (vm_mem s) src k)) = tset f (vm_mem s) n (child f (pt_get (vm_mem s) src k))"
    "lookup f (vm_mem sk) n (child f (pt_get (vm_mem s) src k)) v = lookup f (vm_mem s) n (child f (pt_get (vm_mem s) src k)) v"
    "card (tset f (vm_mem sk) n (child f (pt_get (vm_mem s) src k))) \<le> card (free_set (vm_pmm sk))"
    "agree (tset f (vm_mem s) n (child f (pt_get (vm_mem s) src k))) (vm_mem s) (vm_mem sk)"
proof -
  let ?m = "vm_mem s" and ?mk = "vm_mem sk" and ?c = "child f (pt_get (vm_mem s) src k)"
  let ?x = "\<lambda>i. if is_table f (pt_get ?m src i) then card (tset f ?m n (child f (pt_get ?m src i))) else 0"
  have wf: "wf_tables f ?m (Suc n) src" and use: "in_use (vm_pmm s) (tset f ?m (Suc n) src)" using r by (simp_all add: ready_def)
  note ag = copied_source [OF c r]
  show "pt_get ?mk src k = pt_get ?m src k" using ag k by (simp add: agree_def)
  show agc: "agree (tset f ?m n ?c) ?m ?mk" by (rule agree_mono [OF ag]) (use tset_child [OF k e] in blast)
  note cong = agree_cong [OF agc]
  show T: "tset f ?mk n ?c = tset f ?m n ?c" and "lookup f ?mk n ?c v = lookup f ?m n ?c v" using cong by blast+
  have fk: "free_set (vm_pmm sk) = free_set (vm_pmm s) - frame_no ` tset f ?mk (Suc n) a" using c by (simp add: copied_def)
  have "in_use (vm_pmm sk) (tset f ?m n ?c)" using use fk tset_child [OF k e] by (auto simp: in_use_def)
  then show "ready f n ?c sk" using c cong wf_child(1) [OF wf k e] by (simp add: ready_def copied_def)
  have "card (free_set (vm_pmm sk)) = card (free_set (vm_pmm s)) - card (tset f ?mk (Suc n) a)"
    using c card_free_minus [of f ?mk "Suc n" a "vm_pmm s"] by (simp add: copied_def ready_def)
  also have "\<dots> = card (free_set (vm_pmm s)) - (1 + sum ?x {..<k})" using c by (simp add: copied_def)
  finally have F: "card (free_set (vm_pmm sk)) = card (free_set (vm_pmm s)) - (1 + sum ?x {..<k})" .
  have "sum ?x {..<Suc k} \<le> sum ?x {..<512}" by (rule sum_mono2) (use k in auto)
  then have "1 + sum ?x {..<k} + card (tset f ?m n ?c) \<le> card (free_set (vm_pmm s))"
    using room card_tset_Suc [OF wf] e by simp
  then show "card (tset f ?mk n ?c) \<le> card (free_set (vm_pmm sk))" using F T by simp
qed

lemma copied_table:
  assumes c: "copied f n src a s k sk" and r: "ready f (Suc n) src s" and k: "k < 512"
    and e: "is_table f (pt_get (vm_mem s) src k)" and room: "card (tset f (vm_mem s) (Suc n) src) \<le> card (free_set (vm_pmm s))"
    and d: "cloned f n (child f (pt_get (vm_mem s) src k)) b sk s1"
  shows "copied f n src a s (Suc k) (vm_set a k (link b (pt_get (vm_mem s) src k)) s1)"
proof -
  let ?m = "vm_mem s" and ?mk = "vm_mem sk" and ?m1 = "vm_mem s1" and ?e = "pt_get (vm_mem s) src k"
  let ?F = "free_set (vm_pmm s)" and ?Fk = "free_set (vm_pmm sk)" and ?c = "child f (pt_get (vm_mem s) src k)"
  note ch = copied_child [OF c r k e room]
  have wfa: "wf_tables f ?mk (Suc n) a" and usea: "in_use (vm_pmm sk) (tset f ?mk (Suc n) a)"
    and Fk: "?Fk = ?F - frame_no ` tset f ?mk (Suc n) a" and fresh: "\<And>u. u \<in> tset f ?mk (Suc n) a \<Longrightarrow> frame_no u \<in> ?F"
    and kk: "kept_outside {} ?F ?m ?mk" using c by (auto simp: copied_def ready_def)
  have k1: "kept_outside {} ?Fk ?mk ?m1" and wfb: "wf_tables f ?m1 n b" and freshb: "\<And>u. u \<in> tset f ?m1 n b \<Longrightarrow> frame_no u \<in> ?Fk"
    and F1: "free_set (vm_pmm s1) = ?Fk - frame_no ` tset f ?m1 n b" using d by (auto simp: cloned_def ready_def)
  have aga: "agree (tset f ?mk (Suc n) a) ?mk ?m1"
    using wf_aligned [OF wfa] usea by (intro kept_agree [OF k1]) (auto simp: in_use_def)
  note cong = agree_cong [OF aga]
  have a: "page_aligned a" "a \<noteq> 0" "frame_no a \<in> ?F" "frame_no a \<notin> ?Fk"
    using wf_root [OF wfa] fresh usea by (auto simp: in_use_def)
  have zero: "pt_get ?m1 a i = 0" if "k \<le> i" "i < 512" for i
    using c that k1 a by (simp add: copied_def kept_outside_def)
  then have nt: "\<not> is_table f (pt_get ?m1 a k)" using k by simp
  have disj: "tset f ?m1 n b \<inter> tset f ?m1 (Suc n) a = {}"
    using freshb usea cong by (auto simp: in_use_def)
  have b: "page_aligned b" "frame_no b \<in> ?F" using wf_root [OF wfb] freshb [of b] Fk by auto
  have "phys_ok (vm_pmm s)" using r by (simp add: ready_def)
  then have "unat b < 2 ^ 48" using free_set_bound [OF b(2)] by (simp add: phys_ok_def div_less_iff_less_mult)
  note lk = link_table [OF e b(1) this]
  have wfa1: "wf_tables f ?m1 (Suc n) a" using wfa cong by blast
  note at = attach_subtree [OF wfa1 k nt wfb disj, of "link b ?e"]
  let ?s2 = "vm_set a k (link b ?e) s1"
  have T: "tset f (vm_mem ?s2) (Suc n) a = tset f ?mk (Suc n) a \<union> tset f ?m1 n b" using at(1) lk cong by simp
  have ready: "ready f (Suc n) a ?s2"
    using at(2) lk d F1 usea freshb unfolding ready_def T in_use_def by (auto simp: cloned_def ready_def)
  have card: "card (tset f (vm_mem ?s2) (Suc n) a) = card (tset f ?mk (Suc n) a) + card (tset f ?m n ?c)"
    using disj cong d ch(3) unfolding T by (subst card_Un_disjoint) (auto simp: cloned_def)
  have look: "seen f (lookup f (vm_mem ?s2) (Suc n) a v) = seen f (lookup f ?m (Suc n) src v)" if "vidx (Suc n) v < Suc k" for v
  proof (cases "vidx (Suc n) v = k")
    case True
    then have "lookup f (vm_mem ?s2) (Suc n) a v = lookup f ?m1 n b v" using at(3) [of v] lk by simp
    also have "seen f \<dots> = seen f (lookup f ?mk n ?c v)" using d by (simp add: cloned_def)
    also have "lookup f ?mk n ?c v = lookup f ?m (Suc n) src v" using ch(4) e True by (simp add: lookup_Suc)
    finally show ?thesis .
  next
    case False
    then have "lookup f (vm_mem ?s2) (Suc n) a v = lookup f ?mk (Suc n) a v" using at(3) [of v] lk cong by simp
    then show ?thesis using c that False by (simp add: copied_def)
  qed
  have unb: "unblocked f (vm_mem ?s2) (Suc n) a v" if v: "vidx (Suc n) v < Suc k" "unblocked f ?m (Suc n) src v" for v
  proof (cases "vidx (Suc n) v = k")
    case True
    have "unblocked f ?m n ?c v" using v(2) True e by (simp add: is_table_def)
    then have "unblocked f ?mk n ?c v" using unblocked_cong [OF ch(6)] by simp
    then have "unblocked f ?m1 n b v" using d by (simp add: cloned_def)
    moreover have "agree (tset f ?m1 n b) ?m1 (vm_mem ?s2)"
      unfolding agree_def
    proof (intro ballI allI impI)
      fix u i assume u: "u \<in> tset f ?m1 n b" and i: "i < (512 :: nat)"
      have "u \<noteq> a" using disj u by auto
      then show "pt_get (vm_mem ?s2) u i = pt_get ?m1 u i" using wf_aligned [OF wfb u] a(1) i k by simp
    qed
    ultimately have "unblocked f (vm_mem ?s2) n b v" using unblocked_cong by blast
    then show ?thesis using True lk a(1) k by (simp add: is_table_def)
  next
    case False
    have "unblocked f ?mk (Suc n) a v" using c v False unfolding copied_def by auto
    then have "unblocked f ?m1 (Suc n) a v" using unblocked_cong [OF aga] by simp
    then show ?thesis using set_entry_unblocked [OF wfa1 k False] by simp
  qed
  have "kept_outside {} ?F ?m ?m1" by (rule kept_outside_trans [OF kk k1]) (use Fk in blast)
  then have "kept_outside {} ?F ?m (vm_mem ?s2)" using a k unfolding kept_outside_def by auto
  moreover have "free_set (vm_pmm ?s2) = ?F - frame_no ` tset f (vm_mem ?s2) (Suc n) a" using F1 Fk unfolding T by auto
  moreover have "\<forall>u \<in> tset f (vm_mem ?s2) (Suc n) a. frame_no u \<in> ?F" using fresh freshb Fk unfolding T by blast
  moreover have "\<forall>i. Suc k \<le> i \<longrightarrow> i < 512 \<longrightarrow> pt_get (vm_mem ?s2) a i = 0" using zero a k by auto
  moreover have "card (tset f (vm_mem ?s2) (Suc n) a) = 1 + (\<Sum>i<Suc k. if is_table f (pt_get ?m src i)
           then card (tset f ?m n (child f (pt_get ?m src i))) else 0)"
    using c e card by (simp add: copied_def)
  ultimately show ?thesis using ready look unb unfolding copied_def by blast
qed

lemma copy_leaves:
  assumes a: "page_aligned a" "page_aligned src" "src \<noteq> a" and z: "\<And>i. i < 512 \<Longrightarrow> pt_get (vm_mem s) a i = 0" and k: "k \<le> 512"
  defines "sk \<equiv> fold (\<lambda>i s. let e = pt_get (vm_mem s) src i in if \<not> pf_present f e then s else vm_set a i e s) [0..<k] s"
  shows "vm_heap sk = vm_heap s \<and> (\<forall>u i. page_aligned u \<longrightarrow> i < 512 \<longrightarrow>
     pt_get (vm_mem sk) u i = (if u = a then (if i < k then seen f (pt_get (vm_mem s) src i) else 0) else pt_get (vm_mem s) u i))"
  using k unfolding sk_def
proof (induction k)
  case 0
  then show ?case using z by simp
next
  case (Suc k)
  let ?sk = "fold (\<lambda>i s. let e = pt_get (vm_mem s) src i in if \<not> pf_present f e then s else vm_set a i e s) [0..<k] s"
  have IH: "vm_heap ?sk = vm_heap s" "\<And>u i. page_aligned u \<Longrightarrow> i < 512 \<Longrightarrow>
     pt_get (vm_mem ?sk) u i = (if u = a then (if i < k then seen f (pt_get (vm_mem s) src i) else 0) else pt_get (vm_mem s) u i)"
    using Suc by auto
  have e: "pt_get (vm_mem ?sk) src k = pt_get (vm_mem s) src k" using IH(2) [OF a(2), of k] Suc.prems a(3) by simp
  show ?case using IH Suc.prems a e by (auto simp: Let_def seen_def less_Suc_eq)
qed

lemma clone_spec:
  fixes s :: "'x vm_scheme"
  assumes "ready f n src s" "card (tset f (vm_mem s) n src) \<le> card (free_set (vm_pmm s))"
  shows "\<exists>a s'. clone_tree f link n src s = (a, s') \<and> cloned f n src a s s'"
  using assms
proof (induction n arbitrary: src s)
  case 0
  have ok: "phys_ok (vm_pmm s)" "page_aligned src" "frame_no src \<notin> free_set (vm_pmm s)"
    using "0.prems"(1) by (simp_all add: ready_def in_use_def)
  have ne: "free_set (vm_pmm s) \<noteq> {}" using "0.prems"(2) by auto
  obtain a s1 where a: "vm_alloc s = (a, s1)" "page_aligned a" "a \<noteq> 0" "unat a < 2 ^ 48" "frame_no a \<in> free_set (vm_pmm s)"
    "\<forall>i < 512. pt_get (vm_mem (zeroed_table a s1)) a i = 0"
    and rest: "ready f 0 a (zeroed_table a s1)" "tset f (vm_mem (zeroed_table a s1)) 0 a = {a}"
    "free_set (vm_pmm (zeroed_table a s1)) = free_set (vm_pmm s) - {frame_no a}"
    "kept_outside {} (free_set (vm_pmm s)) (vm_mem s) (vm_mem (zeroed_table a s1))"
    by (rule cloned_start [OF ok(1) ne, of 0])
  have sa: "src \<noteq> a" using ok(3) a(5) by auto
  define sk where "sk = fold (\<lambda>i s. let e = pt_get (vm_mem s) src i in if \<not> pf_present f e then s else vm_set a i e s) [0..<512] (zeroed_table a s1)"
  have h: "vm_heap sk = vm_heap s1" and ent: "\<And>u i. page_aligned u \<Longrightarrow> i < 512 \<Longrightarrow> pt_get (vm_mem sk) u i =
      (if u = a then seen f (pt_get (vm_mem (zeroed_table a s1)) src i) else pt_get (vm_mem (zeroed_table a s1)) u i)"
    using copy_leaves [OF a(2) ok(2) sa, of "zeroed_table a s1" 512] a(6) unfolding sk_def by auto
  have src: "pt_get (vm_mem (zeroed_table a s1)) src i = pt_get (vm_mem s) src i" if "i < 512" for i
    using rest(4) ok that by (simp add: kept_outside_def)
  have kept: "kept_outside {} (free_set (vm_pmm s)) (vm_mem s) (vm_mem sk)"
    using rest(4) ent a(5) unfolding kept_outside_def by metis
  have "seen f (lookup f (vm_mem sk) 0 a v) = seen f (lookup f (vm_mem s) 0 src v)" for v
    using ent [OF a(2) vidx_lt] src [OF vidx_lt] zero_absent by (simp add: lookup_def seen_def)
  then have "cloned f 0 src a s sk"
    using rest h kept a unfolding cloned_def ready_def by (simp add: in_use_def)
  moreover have "clone_tree f link 0 src s = (a, sk)" using a(1) by (simp add: sk_def)
  ultimately show ?case by blast
next
  case (Suc n)
  have ok: "phys_ok (vm_pmm s)" and wf: "wf_tables f (vm_mem s) (Suc n) src" using Suc.prems(1) by (simp_all add: ready_def)
  have "0 < card (tset f (vm_mem s) (Suc n) src)" by (simp add: card_tset_Suc [OF wf])
  then have ne: "free_set (vm_pmm s) \<noteq> {}" using Suc.prems(2) by auto
  obtain a s1 where a: "vm_alloc s = (a, s1)" "page_aligned a" "a \<noteq> 0" "unat a < 2 ^ 48" "frame_no a \<in> free_set (vm_pmm s)"
    "\<forall>i < 512. pt_get (vm_mem (zeroed_table a s1)) a i = 0"
    and rest: "ready f (Suc n) a (zeroed_table a s1)" "tset f (vm_mem (zeroed_table a s1)) (Suc n) a = {a}"
    "free_set (vm_pmm (zeroed_table a s1)) = free_set (vm_pmm s) - {frame_no a}"
    "kept_outside {} (free_set (vm_pmm s)) (vm_mem s) (vm_mem (zeroed_table a s1))"
    by (rule cloned_start [OF ok(1) ne, of "Suc n"])
  define step :: "nat \<Rightarrow> 'x vm_scheme \<Rightarrow> 'x vm_scheme" where "step = (\<lambda>i s. let e = pt_get (vm_mem s) src i in if \<not> pf_present f e then s
       else if pf_block f e then vm_set a i e s else let (c, s) = clone_tree f link n (child f e) s in vm_set a i (link c e) s)"
  note R = Suc.prems(1) and room = Suc.prems(2) and below = Suc.IH
  have "copied f n src a s k (fold step [0..<k] (zeroed_table a s1))" if "k \<le> 512" for k
    using that
  proof (induction k)
    case 0
    show ?case using rest a unfolding copied_def by simp
  next
    case (Suc k)
    let ?sk = "fold step [0..<k] (zeroed_table a s1)" and ?e = "pt_get (vm_mem s) src k"
    have c: "copied f n src a s k ?sk" and k: "k < 512" using Suc by simp_all
    have e: "pt_get (vm_mem ?sk) src k = ?e"
      using copied_source [OF c R] k by (simp add: agree_def)
    have st: "fold step [0..<Suc k] (zeroed_table a s1) = step k ?sk" by simp
    show ?case
    proof (cases "is_table f ?e")
      case False
      have "step k ?sk = ?sk \<or> step k ?sk = vm_set a k ?e ?sk"
        using False e unfolding step_def is_table_def by (auto simp: Let_def)
      then show ?thesis unfolding st using copied_none(1) [OF c k False] copied_none(2) [OF c k False] by auto
    next
      case True
      note ch = copied_child [OF c R k True room]
      obtain b s2 where b: "clone_tree f link n (child f ?e) ?sk = (b, s2)" "cloned f n (child f ?e) b ?sk s2"
        using below [OF ch(2,5)] by blast
      have "step k ?sk = vm_set a k (link b ?e) s2" using True b(1) e by (simp add: step_def is_table_def)
      then show ?thesis unfolding st using copied_table [OF c R k True room b(2)] by simp
    qed
  qed
  then have "copied f n src a s 512 (fold step [0..<512] (zeroed_table a s1))" by simp
  then have "cloned f (Suc n) src a s (fold step [0..<512] (zeroed_table a s1))"
    using card_tset_Suc [OF wf] unfolding copied_def cloned_def by auto
  moreover have "clone_tree f link (Suc n) src s = (a, fold step [0..<512] (zeroed_table a s1))"
    using a(1) by (simp add: step_def)
  ultimately show ?case by blast
qed

end

definition freed :: "u64 set \<Rightarrow> ('x) vm_scheme \<Rightarrow> ('x) vm_scheme \<Rightarrow> bool" where
  "freed T s s' \<longleftrightarrow> vm_mem s' = vm_mem s \<and> phys_ok (vm_pmm s') \<and> total_frames (vm_pmm s') = total_frames (vm_pmm s)
     \<and> free_set (vm_pmm s') = free_set (vm_pmm s) \<union> {i \<in> frame_no ` T. i < unat (total_frames (vm_pmm s))}"

lemma freed_trans: "freed S s1 s2 \<Longrightarrow> freed T s2 s3 \<Longrightarrow> freed (S \<union> T) s1 s3"
  by (auto simp: freed_def)

lemma freed_one:
  assumes "phys_ok (vm_pmm s)" "page_aligned t" "t \<noteq> 0"
  shows "freed {t} s (vm_free t s)"
proof -
  have inv: "pmm_inv (vm_pmm s)" using assms(1) by (simp add: phys_ok_def pmm_ok_def)
  have "frame_no t \<noteq> 0" using assms(2,3) frame_no_inj [of t 0] by (auto simp: page_aligned_def)
  then show ?thesis
    using assms pmm_free_frame_spec [OF inv, of t] by (auto simp: freed_def vm_free_def phys_ok_def pmm_ok_def)
qed

lemma free_tree_spec:
  fixes s :: "'x vm_scheme"
  assumes "wf_tables f (vm_mem s) n t" "phys_ok (vm_pmm s)"
  shows "freed (tset f (vm_mem s) n t) s (free_tree f n t s)"
  using assms
proof (induction n arbitrary: t s)
  case 0
  then show ?case using freed_one [of s t] by simp
next
  case (Suc n)
  let ?m = "vm_mem s"
  note wf = Suc.prems(1) and ok = Suc.prems(2) and below = Suc.IH
  define step :: "nat \<Rightarrow> 'x vm_scheme \<Rightarrow> 'x vm_scheme" where
    "step = (\<lambda>i s. let e = pt_get (vm_mem s) t i in if is_table f e then free_tree f n (child f e) s else s)"
  let ?T = "\<lambda>k. \<Union>i \<in> {i. i < k \<and> is_table f (pt_get ?m t i)}. tset f ?m n (child f (pt_get ?m t i))"
  have "freed (?T k) s (fold step [0..<k] s)" if "k \<le> 512" for k
    using that
  proof (induction k)
    case 0
    show ?case using ok by (simp add: freed_def)
  next
    case (Suc k)
    let ?sk = "fold step [0..<k] s" and ?e = "pt_get ?m t k"
    have fr: "freed (?T k) s ?sk" and k: "k < 512" using Suc by simp_all
    then have sk: "vm_mem ?sk = ?m" "phys_ok (vm_pmm ?sk)" "total_frames (vm_pmm ?sk) = total_frames (vm_pmm s)"
      by (simp_all add: freed_def)
    show ?case
    proof (cases "is_table f ?e")
      case False
      then have "{i. i < Suc k \<and> is_table f (pt_get ?m t i)} = {i. i < k \<and> is_table f (pt_get ?m t i)}"
        using less_Suc_eq by auto
      moreover have "step k ?sk = ?sk" using False sk(1) by (simp add: step_def)
      ultimately show ?thesis using fr by simp
    next
      case True
      have "freed (tset f ?m n (child f ?e)) ?sk (free_tree f n (child f ?e) ?sk)"
        using below [of ?sk "child f ?e"] wf_child(1) [OF wf k True] sk by simp
      moreover have "step k ?sk = free_tree f n (child f ?e) ?sk" using True sk(1) by (simp add: step_def)
      moreover have "{i. i < Suc k \<and> is_table f (pt_get ?m t i)} = insert k {i. i < k \<and> is_table f (pt_get ?m t i)}"
        using True less_Suc_eq by auto
      ultimately show ?thesis using freed_trans [OF fr] by (simp add: Un_commute)
    qed
  qed
  then have "freed (?T 512) s (fold step [0..<512] s)" by simp
  moreover from this have "freed {t} (fold step [0..<512] s) (vm_free t (fold step [0..<512] s))"
    using freed_one [of "fold step [0..<512] s" t] wf_root [OF wf] by (simp add: freed_def)
  ultimately have "freed (?T 512 \<union> {t}) s (free_tree f (Suc n) t s)"
    using freed_trans by (fastforce simp: step_def)
  then show ?case by (simp add: tset.simps(2))
qed

lemma fold_keep: "(\<And>i s. P (g i s) = P s) \<Longrightarrow> P (fold g is s) = P s"
  by (induction "is" arbitrary: s) simp_all

text \<open>The fields that table manipulation leaves alone.\<close>

definition rest_of :: "('x) vm_scheme \<Rightarrow> physaddr \<times> u64 \<times> (u64 \<rightharpoonup> physaddr) \<times> tlb_op list
    \<times> u64 \<times> (u64 \<rightharpoonup> heap_arena) \<times> (u64 \<rightharpoonup> heap_block) \<times> 'x" where
  "rest_of s = (kernel_root s, root_reg s, as_at s, tlb_log s,
     arena_list (vm_heap s), arena_at (vm_heap s), block_at (vm_heap s), vm.more s)"

lemma rest_of_simps [simp]:
  "rest_of (vm_set t i e s) = rest_of s" "rest_of (zeroed_table t s) = rest_of s" "rest_of (snd (vm_alloc s)) = rest_of s"
  "rest_of (vm_free t s) = rest_of s"
  by (simp_all add: rest_of_def vm_set_def zeroed_table_def vm_alloc_def vm_free_def Let_def split_def)

lemma create_rest: "rest_of (snd (create f new w n t v s)) = rest_of s"
proof (induction n arbitrary: t s)
  case (Suc n)
  have "rest_of (snd (descend f new w t i s)) = rest_of s" for i
    by (simp add: descend_def Let_def split_def split: option.splits)
  with Suc show ?case by (simp add: Let_def split_def)
qed simp

lemma clone_tree_rest: "rest_of (snd (clone_tree f l n t s)) = rest_of s"
proof (induction n arbitrary: t s)
  case 0
  show ?case by (simp add: Let_def split_def) (subst fold_keep [where P = rest_of]; simp)
next
  case (Suc n)
  show ?case by (simp add: Let_def split_def) (subst fold_keep [where P = rest_of]; simp add: Suc Let_def split_def)
qed

lemma free_tree_rest: "rest_of (free_tree f n t s) = rest_of s"
proof (induction n arbitrary: t s)
  case (Suc n)
  show ?case by (simp add: Let_def) (subst fold_keep [where P = rest_of]; simp add: Suc)
qed simp

section \<open>Addresses as bits\<close>

lemma page_aligned_bits: "page_aligned a \<longleftrightarrow> (\<forall>n < 12. \<not> bit a n)"
proof -
  have "unat (take_bit 12 a) = unat a mod 4096" by (simp add: take_bit_eq_mod unat_mod_distrib)
  then have "page_aligned a \<longleftrightarrow> take_bit 12 a = 0" by (simp add: page_aligned_def dvd_eq_mod_eq_0 word_unat_eq_iff)
  also have "\<dots> \<longleftrightarrow> (\<forall>n < 12. \<not> bit a n)"
    by (auto simp: bit_eq_iff bit_simps dest: bit_imp_le_length)
  finally show ?thesis .
qed

lemma small_addr_bits:
  assumes "page_aligned a" "unat a < 2 ^ 48" "bit a n"
  shows "12 \<le> n \<and> n < 48"
proof -
  have "12 \<le> n" using assms(1,3) page_aligned_bits by (meson not_le)
  moreover have "n < 48"
  proof (rule ccontr)
    assume "\<not> n < 48"
    then have "(2 :: nat) ^ 48 \<le> 2 ^ n" by (intro power_increasing) simp_all
    then have "unat a div 2 ^ n = 0" using assms(2) by (intro div_less) linarith
    moreover have "bit (unat a) n" using assms(3) by (simp add: bit_unsigned_iff)
    ultimately show False by (simp add: bit_iff_odd)
  qed
  ultimately show ?thesis by blast
qed

lemma bit_push_1: "bit (push_bit k 1 :: u64) n \<longleftrightarrow> n = k \<and> k < 64"
  unfolding bit_push_bit_iff bit_1_iff by auto

lemma bit_field: "bit (push_bit k (mask w) :: u64) n \<longleftrightarrow> k \<le> n \<and> n < k + w \<and> n < 64"
  unfolding bit_push_bit_iff bit_mask_iff by auto

lemma bit_0xFFF: "bit (0xFFF :: u64) n \<longleftrightarrow> n < 12"
proof -
  have "(0xFFF :: u64) = push_bit 0 (mask 12)" by (simp add: mask_eq_exp_minus_1)
  then show ?thesis using bit_field [of 0 12 n] by auto
qed

lemma and_push_1: "k < 64 \<Longrightarrow> (e :: u64) AND push_bit k 1 = 0 \<longleftrightarrow> \<not> bit e k"
  using and_exp_eq_0_iff_not_bit [of e k] by (simp add: push_bit_eq_mult)

section \<open>Several trees side by side\<close>

lemma other_tree_kept:
  assumes "ready f n root s" "T \<inter> tset f (vm_mem s) n root = {}" "kept_outside T (free_set (vm_pmm s)) (vm_mem s) m'"
  shows "tset f m' n root = tset f (vm_mem s) n root \<and> wf_tables f m' n root \<and> lookup f m' n root v = lookup f (vm_mem s) n root v"
proof -
  have wf: "wf_tables f (vm_mem s) n root" and use: "in_use (vm_pmm s) (tset f (vm_mem s) n root)"
    using assms(1) by (simp_all add: ready_def)
  have "agree (tset f (vm_mem s) n root) (vm_mem s) m'"
    unfolding agree_def
  proof (intro ballI allI impI)
    fix u i assume u: "u \<in> tset f (vm_mem s) n root" and i: "i < (512 :: nat)"
    then have "u \<notin> T" "frame_no u \<notin> free_set (vm_pmm s)" "page_aligned u"
      using assms(2) use wf_aligned [OF wf u] by (auto simp: in_use_def)
    then show "pt_get m' u i = pt_get (vm_mem s) u i" using assms(3) i by (simp add: kept_outside_def)
  qed
  from agree_cong [OF this, of v] wf show ?thesis by blast
qed

lemma ready_less:
  assumes "ready f n t s" "vm_mem s' = vm_mem s" "phys_ok (vm_pmm s')" "free_set (vm_pmm s') \<subseteq> free_set (vm_pmm s)"
  shows "ready f n t s'"
  using assms by (auto simp: ready_def in_use_def)

text \<open>After a clone the original is as it was, and the two trees share no table.\<close>

lemma cloned_apart:
  assumes "ready f n src s" "cloned f n src a s s1"
  shows "ready f n src s1" "tset f (vm_mem s1) n src \<inter> tset f (vm_mem s1) n a = {}"
    "lookup f (vm_mem s1) n src v = lookup f (vm_mem s) n src v"
proof -
  have k: "kept_outside {} (free_set (vm_pmm s)) (vm_mem s) (vm_mem s1)" and a: "ready f n a s1"
    and fresh: "\<And>u. u \<in> tset f (vm_mem s1) n a \<Longrightarrow> frame_no u \<in> free_set (vm_pmm s)"
    and F: "free_set (vm_pmm s1) \<subseteq> free_set (vm_pmm s)" using assms(2) by (auto simp: cloned_def)
  note o = other_tree_kept [OF assms(1) _ k]
  have use: "in_use (vm_pmm s) (tset f (vm_mem s) n src)" using assms(1) by (simp add: ready_def)
  show "ready f n src s1" using o F use a by (auto simp: ready_def in_use_def)
  show "tset f (vm_mem s1) n src \<inter> tset f (vm_mem s1) n a = {}" using o use fresh by (auto simp: in_use_def)
  show "lookup f (vm_mem s1) n src v = lookup f (vm_mem s) n src v" using o [of v] by simp
qed

section \<open>What the heap does to physical memory\<close>

lemma alloc_from_block_pmm: "alloc_from_block b sz h = Some (p, h') \<Longrightarrow> heap_pmm h' = heap_pmm h"
  by (auto simp: alloc_from_block_def Let_def split: option.splits if_splits prod.splits bind_splits)

lemma grow_heap_pmm:
  assumes "phys_ok (heap_pmm h)" "grow_heap sz h = (a, h')"
  shows "phys_ok (heap_pmm h') \<and> free_set (heap_pmm h') \<subseteq> free_set (heap_pmm h)"
proof -
  have "\<exists>c. heap_pmm (snd (grow_heap sz h)) = snd (pmm_alloc_frames c (heap_pmm h))"
    unfolding grow_heap_def Let_def split_def by auto
  then obtain c where c: "heap_pmm h' = snd (pmm_alloc_frames c (heap_pmm h))" using assms(2) by auto
  have inv: "pmm_inv (heap_pmm h)" and ok: "pmm_ok (heap_pmm h)" using assms(1) by (simp_all add: phys_ok_def pmm_ok_def)
  show ?thesis
  proof (cases "c = 0")
    case False
    from inv False show ?thesis
    proof (cases rule: pmm_alloc_frames_cases)
      case (found n p')
      then show ?thesis using c assms(1) by (auto simp: phys_ok_def pmm_ok_def)
    next
      case full then show ?thesis using c assms(1) by simp
    qed
  qed (use c assms(1) in \<open>simp add: pmm_alloc_frames_def\<close>)
qed

lemma kmalloc_pmm:
  assumes "phys_ok (heap_pmm h)" "kmalloc sz h = Some (p, h')"
  shows "phys_ok (heap_pmm h') \<and> free_set (heap_pmm h') \<subseteq> free_set (heap_pmm h)"
proof -
  have "heap_pmm h' = heap_pmm h \<or> (\<exists>a h1. grow_heap (align_up sz HEAP_ALIGN) h = (a, h1) \<and> heap_pmm h' = heap_pmm h1)"
    using assms(2) by (auto simp: kmalloc_def Let_def split: if_splits option.splits prod.splits bind_splits dest: alloc_from_block_pmm)
  then show ?thesis
  proof
    assume "\<exists>a h1. grow_heap (align_up sz HEAP_ALIGN) h = (a, h1) \<and> heap_pmm h' = heap_pmm h1"
    then obtain a h1 where "grow_heap (align_up sz HEAP_ALIGN) h = (a, h1)" "heap_pmm h' = heap_pmm h1" by blast
    then show ?thesis using grow_heap_pmm [OF assms(1)] by simp
  qed (use assms(1) in simp)
qed

lemma kfree_pmm: "kfree p h = Some h' \<Longrightarrow> heap_pmm h' = heap_pmm h"
  by (auto simp: kfree_def Let_def split: if_splits option.splits bind_splits)

context paging
begin

lemma clone_map_isolated:
  assumes r: "ready f n src s" and c: "cloned f n src a s s1"
    and s2: "vm_mem s2 = vm_mem s1" "phys_ok (vm_pmm s2)" "free_set (vm_pmm s2) \<subseteq> free_set (vm_pmm s1)"
    and u: "unblocked f (vm_mem s) n src v" "n \<le> card (free_set (vm_pmm s2))"
  obtains b s3 where "create f (new_entry fl) (widen fl) n a v s2 = (b, s3)" "b \<noteq> 0"
    "\<forall>v'. lookup f (pt_set b (vidx 0 v) e (vm_mem s3)) n a v' = (if same_page n v v' then e else lookup f (vm_mem s1) n a v')"
    "\<forall>v'. lookup f (pt_set b (vidx 0 v) e (vm_mem s3)) n src v' = lookup f (vm_mem s) n src v'"
proof -
  have ra: "ready f n a s2" using c ready_less [OF _ s2] by (simp add: cloned_def)
  have u2: "unblocked f (vm_mem s2) n a v" using c u(1) s2(1) by (simp add: cloned_def)
  note ap = cloned_apart [OF r c]
  have rs: "ready f n src s2" using ready_less [OF ap(1) s2] .
  obtain b s3 where b: "create f (new_entry fl) (widen fl) n a v s2 = (b, s3)" "b \<noteq> 0"
    "\<And>v'. lookup f (pt_set b (vidx 0 v) e (vm_mem s3)) n a v' = (if same_page n v v' then e else lookup f (vm_mem s2) n a v')"
    and k: "kept_outside (tset f (vm_mem s2) n a) (free_set (vm_pmm s2)) (vm_mem s2) (pt_set b (vidx 0 v) e (vm_mem s3))"
    by (rule map_spec [OF ra u2 u(2), of fl e]) blast
  have "tset f (vm_mem s2) n a \<inter> tset f (vm_mem s2) n src = {}" using ap(2) s2(1) by auto
  from other_tree_kept [OF rs this k] have "lookup f (pt_set b (vidx 0 v) e (vm_mem s3)) n src v' = lookup f (vm_mem s) n src v'" for v'
    using ap(3) s2(1) by simp
  then show thesis using that [OF b(1,2)] b(3) s2(1) by simp
qed

end

section \<open>Frames used by a mapping\<close>

lemma vm_alloc_frames:
  assumes "phys_ok (vm_pmm s)"
  shows "phys_ok (vm_pmm (snd (vm_alloc s))) \<and> card (free_set (vm_pmm s)) \<le> Suc (card (free_set (vm_pmm (snd (vm_alloc s)))))"
proof (cases "free_set (vm_pmm s) = {}")
  case True
  obtain a p where a: "pmm_alloc_frame (vm_pmm s) = (a, p)" by (cases "pmm_alloc_frame (vm_pmm s)")
  have "phys_ok p" using pmm_alloc_frame_shrinks [OF _ a] pmm_alloc_total [OF _ a] assms by (simp add: phys_ok_def)
  then show ?thesis using True by (simp add: vm_alloc_def a)
next
  case False
  obtain a s' where a: "vm_alloc s = (a, s')" "a \<noteq> 0" "page_aligned a" "unat a < 2 ^ 48" "frame_no a \<in> free_set (vm_pmm s)"
    "phys_ok (vm_pmm s')" "free_set (vm_pmm s') = free_set (vm_pmm s) - {frame_no a}" "vm_mem s' = vm_mem s"
    by (rule vm_alloc_cases [OF assms False])
  then show ?thesis by simp
qed

lemma create_frames:
  assumes "phys_ok (vm_pmm s)"
  shows "phys_ok (vm_pmm (snd (create f new w n t v s)))
    \<and> card (free_set (vm_pmm s)) \<le> n + card (free_set (vm_pmm (snd (create f new w n t v s))))"
  using assms
proof (induction n arbitrary: t s)
  case (Suc n)
  have d: "phys_ok (vm_pmm (snd (descend f new w t i s)))
      \<and> card (free_set (vm_pmm s)) \<le> Suc (card (free_set (vm_pmm (snd (descend f new w t i s)))))" for i
    using vm_alloc_frames [OF Suc.prems] Suc.prems by (auto simp: descend_def Let_def case_prod_beta split: option.split)
  let ?d = "descend f new w t (vidx (Suc n) v) s"
  show ?case using d [of "vidx (Suc n) v"] Suc.IH [of "snd ?d" "fst ?d"] by (auto simp: case_prod_beta)
qed simp

end
