(* ===== verification/Vmm_x86.thy ===== *)
theory Vmm_x86
  imports PageTable
begin

text \<open>
  The x86_64 virtual memory manager, \<^verbatim>\<open>arch/x86_64/mm/vmm.c\<close>, and the identity mapper of
  \<^verbatim>\<open>arch/x86_64/mm/paging.c\<close>, operation by operation. The static \<open>kernel_space\<close> is the field
  \<open>kernel_root\<close>; heap-allocated address spaces are entries of \<open>as_at\<close>. A dereference of a pointer
  without an object behind it is \<open>None\<close>. Each operation is then shown to be the corresponding
  operation of theory PageTable on the x86_64 entry format, whose laws the interpretation of the locale
  \<open>paging\<close> discharges.
\<close>

section \<open>Constants and handles\<close>

datatype aspace = Kernel_space | Heap_space u64

definition as_root :: "aspace \<Rightarrow> ('x) vm_scheme \<Rightarrow> physaddr option" where
  "as_root as s = (case as of Kernel_space \<Rightarrow> Some (kernel_root s) | Heap_space a \<Rightarrow> as_at s a)"

definition ADDR_MASK :: u64 where "ADDR_MASK = 0x000FFFFFFFFFF000"
definition VMM_PRESENT :: u64 where "VMM_PRESENT = push_bit 0 1"
definition VMM_WRITABLE :: u64 where "VMM_WRITABLE = push_bit 1 1"
definition VMM_USER :: u64 where "VMM_USER = push_bit 2 1"
definition VMM_HUGE :: u64 where "VMM_HUGE = push_bit 7 1"
definition sizeof_address_space :: usize where "sizeof_address_space = 8"

section \<open>vmm.c\<close>

definition get_or_create_table :: "u64 \<Rightarrow> nat \<Rightarrow> u64 \<Rightarrow> ('x) vm_scheme \<Rightarrow> u64 \<times> ('x) vm_scheme" where
  "get_or_create_table parent index flags s =
     (if pt_get (vm_mem s) parent index AND VMM_HUGE \<noteq> 0 then (0, s)
      else
        let s = (if pt_get (vm_mem s) parent index AND VMM_PRESENT = 0 then
                   let (frame, s) = vm_alloc s;
                       s = zeroed_table frame s
                   in vm_set parent index (frame OR VMM_PRESENT OR VMM_WRITABLE OR (flags AND VMM_USER)) s
                 else if flags AND VMM_USER \<noteq> 0 then
                   vm_set parent index (pt_get (vm_mem s) parent index OR VMM_USER) s
                 else s)
        in (pt_get (vm_mem s) parent index AND ADDR_MASK, s))"

text \<open>Levels run from 4 down to 1; level 0 is never reached.\<close>

primrec clone_table_level :: "nat \<Rightarrow> u64 \<Rightarrow> ('x) vm_scheme \<Rightarrow> u64 \<times> ('x) vm_scheme" where
  "clone_table_level 0 src s = (0, s)"
| "clone_table_level (Suc l) src s =
     (let (new_frame, s) = vm_alloc s;
          s = zeroed_table new_frame s
      in (new_frame,
          fold (\<lambda>i s.
            let e = pt_get (vm_mem s) src i
            in if e AND VMM_PRESENT = 0 then s
               else if l = 0 \<or> e AND VMM_HUGE \<noteq> 0 then vm_set new_frame i e s
               else
                 let (child_dst, s) = clone_table_level l (e AND ADDR_MASK) s
                 in vm_set new_frame i ((child_dst AND ADDR_MASK) OR (e AND 0xFFF)) s)
            [0..<512] s))"

primrec free_table_level :: "nat \<Rightarrow> u64 \<Rightarrow> ('x) vm_scheme \<Rightarrow> ('x) vm_scheme" where
  "free_table_level 0 table s = s"
| "free_table_level (Suc l) table s =
     vm_free table
       (if l > 0 then
          fold (\<lambda>i s.
            let e = pt_get (vm_mem s) table i
            in if e AND VMM_PRESENT \<noteq> 0 \<and> e AND VMM_HUGE = 0 then free_table_level l (e AND ADDR_MASK) s else s)
            [0..<512] s
        else s)"

text \<open>\<open>root_reg\<close> is CR3.\<close>

definition vmm_init :: "('x) vm_scheme \<Rightarrow> ('x) vm_scheme" where
  "vmm_init s = s\<lparr>kernel_root := root_reg s AND ADDR_MASK\<rparr>"

definition vmm_kernel_space :: aspace where
  "vmm_kernel_space = Kernel_space"

definition vmm_create_address_space :: "('x) vm_scheme \<Rightarrow> (aspace \<times> ('x) vm_scheme) option" where
  "vmm_create_address_space s =
     (let (new_pml4, s) = clone_table_level 4 (kernel_root s) s
      in do {
           (as, h) \<leftarrow> kmalloc sizeof_address_space (vm_heap s);
           if as = 0 then None
           else Some (Heap_space as, s\<lparr>vm_heap := h, as_at := (as_at s)(as \<mapsto> new_pml4)\<rparr>)
         })"

definition vmm_destroy_address_space :: "aspace \<Rightarrow> ('x) vm_scheme \<Rightarrow> ('x) vm_scheme option" where
  "vmm_destroy_address_space as s =
     (case as of
        Kernel_space \<Rightarrow> Some s
      | Heap_space a \<Rightarrow>
          do {
            pml4 \<leftarrow> as_at s a;
            let s = free_table_level 4 pml4 s;
            h \<leftarrow> kfree a (vm_heap s);
            Some (s\<lparr>vm_heap := h, as_at := (as_at s)(a := None)\<rparr>)
          })"

definition vmm_map :: "aspace \<Rightarrow> virtaddr \<Rightarrow> physaddr \<Rightarrow> u64 \<Rightarrow> ('x) vm_scheme \<Rightarrow> ('x) vm_scheme option" where
  "vmm_map as virt phys flags s =
     do {
       pml4 \<leftarrow> as_root as s;
       let i4 = unat (drop_bit 39 virt AND 0x1FF);
       let i3 = unat (drop_bit 30 virt AND 0x1FF);
       let i2 = unat (drop_bit 21 virt AND 0x1FF);
       let i1 = unat (drop_bit 12 virt AND 0x1FF);
       let (pdpt, s) = get_or_create_table pml4 i4 flags s;
       if pdpt = 0 then Some s
       else
         let (pd, s) = get_or_create_table pdpt i3 flags s
         in if pd = 0 then Some s
            else
              let (pt, s) = get_or_create_table pd i2 flags s
              in if pt = 0 then Some s
                 else Some (vm_set pt i1 ((phys AND ADDR_MASK)
                              OR (flags AND (VMM_PRESENT OR VMM_WRITABLE OR VMM_USER))) s)
     }"

definition vmm_unmap :: "aspace \<Rightarrow> virtaddr \<Rightarrow> ('x) vm_scheme \<Rightarrow> ('x) vm_scheme option" where
  "vmm_unmap as virt s =
     do {
       pml4 \<leftarrow> as_root as s;
       let i4 = unat (drop_bit 39 virt AND 0x1FF);
       let i3 = unat (drop_bit 30 virt AND 0x1FF);
       let i2 = unat (drop_bit 21 virt AND 0x1FF);
       let i1 = unat (drop_bit 12 virt AND 0x1FF);
       let e4 = pt_get (vm_mem s) pml4 i4;
       if e4 AND VMM_PRESENT = 0 \<or> e4 AND VMM_HUGE \<noteq> 0 then Some s
       else
         let e3 = pt_get (vm_mem s) (e4 AND ADDR_MASK) i3
         in if e3 AND VMM_PRESENT = 0 \<or> e3 AND VMM_HUGE \<noteq> 0 then Some s
            else
              let e2 = pt_get (vm_mem s) (e3 AND ADDR_MASK) i2
              in if e2 AND VMM_PRESENT = 0 \<or> e2 AND VMM_HUGE \<noteq> 0 then Some s
                 else
                   let s = vm_set (e2 AND ADDR_MASK) i1 0 s
                   in Some (s\<lparr>tlb_log := tlb_log s @ [Invlpg virt]\<rparr>)
     }"

definition vmm_translate :: "aspace \<Rightarrow> virtaddr \<Rightarrow> ('x) vm_scheme \<Rightarrow> physaddr option" where
  "vmm_translate as virt s =
     do {
       pml4 \<leftarrow> as_root as s;
       let i4 = unat (drop_bit 39 virt AND 0x1FF);
       let i3 = unat (drop_bit 30 virt AND 0x1FF);
       let i2 = unat (drop_bit 21 virt AND 0x1FF);
       let i1 = unat (drop_bit 12 virt AND 0x1FF);
       let e4 = pt_get (vm_mem s) pml4 i4;
       if e4 AND VMM_PRESENT = 0 \<or> e4 AND VMM_HUGE \<noteq> 0 then Some 0
       else
         let e3 = pt_get (vm_mem s) (e4 AND ADDR_MASK) i3
         in if e3 AND VMM_PRESENT = 0 \<or> e3 AND VMM_HUGE \<noteq> 0 then Some 0
            else
              let e2 = pt_get (vm_mem s) (e3 AND ADDR_MASK) i2
              in if e2 AND VMM_PRESENT = 0 \<or> e2 AND VMM_HUGE \<noteq> 0 then Some 0
                 else
                   let e1 = pt_get (vm_mem s) (e2 AND ADDR_MASK) i1
                   in if e1 AND VMM_PRESENT = 0 then Some 0
                      else Some ((e1 AND ADDR_MASK) OR (virt AND 0xFFF))
     }"

definition vmm_switch :: "aspace \<Rightarrow> ('x) vm_scheme \<Rightarrow> ('x) vm_scheme option" where
  "vmm_switch as s = do { root \<leftarrow> as_root as s; Some (s\<lparr>root_reg := root, tlb_log := tlb_log s @ [Flush_all]\<rparr>) }"

section \<open>paging.c\<close>

definition PAGE_PRESENT :: u64 where "PAGE_PRESENT = push_bit 0 1"
definition PAGE_WRITABLE :: u64 where "PAGE_WRITABLE = push_bit 1 1"
definition PAGE_HUGE :: u64 where "PAGE_HUGE = push_bit 7 1"
definition PAGE_ADDR_MASK :: u64 where "PAGE_ADDR_MASK = 0x000FFFFFFFFFF000"

definition get_pml4 :: "('x) vm_scheme \<Rightarrow> u64" where
  "get_pml4 s = root_reg s AND PAGE_ADDR_MASK"

definition ensure_table :: "u64 \<Rightarrow> nat \<Rightarrow> ('x) vm_scheme \<Rightarrow> u64 \<times> ('x) vm_scheme" where
  "ensure_table parent index s =
     (let s = (if pt_get (vm_mem s) parent index AND PAGE_PRESENT = 0 then
                 let (frame, s) = vm_alloc s;
                     s = zeroed_table frame s
                 in vm_set parent index (frame OR PAGE_PRESENT OR PAGE_WRITABLE) s
               else s)
      in (pt_get (vm_mem s) parent index AND PAGE_ADDR_MASK, s))"

definition identity_step :: "u64 \<Rightarrow> physaddr \<Rightarrow> ('x) vm_scheme \<Rightarrow> ('x) vm_scheme" where
  "identity_step pml4 addr s =
     (let pml4_i = unat (drop_bit 39 addr AND 0x1FF);
          pdp_i = unat (drop_bit 30 addr AND 0x1FF);
          pd_i = unat (drop_bit 21 addr AND 0x1FF);
          (pdp, s) = ensure_table pml4 pml4_i s;
          (pd, s) = ensure_table pdp pdp_i s
      in if pt_get (vm_mem s) pd pd_i AND PAGE_PRESENT = 0
         then vm_set pd pd_i (addr OR PAGE_PRESENT OR PAGE_WRITABLE OR PAGE_HUGE) s
         else s)"

partial_function (option) identity_loop :: "u64 \<Rightarrow> physaddr \<Rightarrow> physaddr \<Rightarrow> ('x) vm_scheme \<Rightarrow> ('x) vm_scheme option" where
  "identity_loop pml4 addr end_addr s =
     (if addr < end_addr then identity_loop pml4 (addr + 0x200000) end_addr (identity_step pml4 addr s) else Some s)"

definition paging_identity_map :: "physaddr \<Rightarrow> u64 \<Rightarrow> ('x) vm_scheme \<Rightarrow> ('x) vm_scheme option" where
  "paging_identity_map phys sz s =
     (let start = ALIGN_DOWN phys 0x200000;
          end_addr = ALIGN_UP (phys + sz) 0x200000;
          pml4 = get_pml4 s
      in do {
           s \<leftarrow> identity_loop pml4 start end_addr s;
           Some (s\<lparr>tlb_log := tlb_log s @ [Flush_all]\<rparr>)
         })"

section \<open>The entry format\<close>

definition x86_fmt :: pt_format where
  "x86_fmt = \<lparr>pf_present = (\<lambda>e. e AND VMM_PRESENT \<noteq> 0), pf_block = (\<lambda>e. e AND VMM_HUGE \<noteq> 0), pf_mask = ADDR_MASK\<rparr>"

definition x86_new :: "u64 \<Rightarrow> u64 \<Rightarrow> u64" where
  "x86_new flags a = a OR VMM_PRESENT OR VMM_WRITABLE OR (flags AND VMM_USER)"

definition x86_widen :: "u64 \<Rightarrow> (u64 \<Rightarrow> u64) option" where
  "x86_widen flags = (if flags AND VMM_USER \<noteq> 0 then Some (\<lambda>e. e OR VMM_USER) else None)"

definition x86_link :: "u64 \<Rightarrow> u64 \<Rightarrow> u64" where
  "x86_link c e = (c AND ADDR_MASK) OR (e AND 0xFFF)"

lemma flag_bits:
  "e AND VMM_PRESENT = 0 \<longleftrightarrow> \<not> bit e 0" "e AND VMM_HUGE = 0 \<longleftrightarrow> \<not> bit e 7"
  unfolding VMM_PRESENT_def VMM_HUGE_def by (rule and_push_1; simp)+

lemma bit_flags:
  "bit VMM_PRESENT n \<longleftrightarrow> n = 0" "bit VMM_WRITABLE n \<longleftrightarrow> n = 1" "bit VMM_USER n \<longleftrightarrow> n = 2" "bit VMM_HUGE n \<longleftrightarrow> n = 7"
  unfolding VMM_PRESENT_def VMM_WRITABLE_def VMM_USER_def VMM_HUGE_def bit_push_1 by auto

lemma bit_addr_mask: "bit ADDR_MASK n \<longleftrightarrow> 12 \<le> n \<and> n < 52"
proof -
  have "ADDR_MASK = push_bit 12 (mask 40)" by (simp add: ADDR_MASK_def mask_eq_exp_minus_1 push_bit_eq_mult)
  then show ?thesis using bit_field [of 12 40 n] by auto
qed

lemma x86_fmt_bits:
  "pf_present x86_fmt e \<longleftrightarrow> bit e 0" "pf_block x86_fmt e \<longleftrightarrow> bit e 7" "child x86_fmt e = e AND ADDR_MASK"
  "is_table x86_fmt e \<longleftrightarrow> bit e 0 \<and> \<not> bit e 7"
  by (simp_all add: x86_fmt_def flag_bits child_def is_table_def)

lemma mask_small:
  assumes "page_aligned a" "unat a < 2 ^ 48"
  shows "a AND ADDR_MASK = a"
  by (rule bit_word_eqI) (use small_addr_bits [OF assms] in \<open>force simp: bit_and_iff bit_addr_mask\<close>)

lemma mask_or:
  assumes "\<And>n. bit x n \<Longrightarrow> n < 12"
  shows "(a OR x) AND ADDR_MASK = a AND ADDR_MASK"
  by (rule bit_word_eqI) (use assms in \<open>force simp: bit_simps bit_addr_mask\<close>)

interpretation x86: paging x86_fmt x86_new x86_widen x86_link
proof unfold_locales
  show "\<not> pf_present x86_fmt 0" "\<not> pf_block x86_fmt 0" by (simp_all add: x86_fmt_bits)
  show "page_aligned (child x86_fmt e)" for e
    by (simp add: page_aligned_bits x86_fmt_bits bit_and_iff bit_addr_mask)
next
  fix a fl :: u64 assume a: "page_aligned a" "unat a < 2 ^ 48"
  have lo: "\<not> bit a 0" "\<not> bit a 7" using a(1) by (simp_all add: page_aligned_bits)
  have "(a OR (VMM_PRESENT OR VMM_WRITABLE OR (fl AND VMM_USER))) AND ADDR_MASK = a AND ADDR_MASK"
    by (rule mask_or) (auto simp: bit_simps bit_flags)
  then have "child x86_fmt (x86_new fl a) = a"
    using mask_small [OF a] by (simp add: x86_fmt_bits x86_new_def or.assoc)
  then show "is_table x86_fmt (x86_new fl a) \<and> child x86_fmt (x86_new fl a) = a"
    using lo by (simp add: x86_fmt_bits x86_new_def bit_simps bit_flags)
next
  fix fl w and e :: u64 assume "x86_widen fl = Some w" "is_table x86_fmt e"
  then show "is_table x86_fmt (w e) \<and> child x86_fmt (w e) = child x86_fmt e"
    using mask_or [of VMM_USER e] by (auto simp: x86_widen_def x86_fmt_bits bit_simps bit_flags split: if_splits)
next
  fix a e :: u64 assume e: "is_table x86_fmt e" and a: "page_aligned a" "unat a < 2 ^ 48"
  have lo: "\<not> bit a 7" using a(1) by (simp add: page_aligned_bits)
  have "(a OR (e AND 0xFFF)) AND ADDR_MASK = a AND ADDR_MASK"
    by (rule mask_or) (unfold bit_and_iff bit_0xFFF, blast)
  then have "child x86_fmt (x86_link a e) = a" using mask_small [OF a] by (simp add: x86_fmt_bits x86_link_def)
  then show "is_table x86_fmt (x86_link a e) \<and> child x86_fmt (x86_link a e) = a"
    using e lo unfolding x86_fmt_bits x86_link_def bit_or_iff bit_and_iff bit_0xFFF bit_addr_mask by simp
qed

section \<open>The operations as operations on trees\<close>

lemma get_or_create_descend:
  "get_or_create_table t i flags s = descend x86_fmt (x86_new flags) (x86_widen flags) t i s"
  by (simp add: get_or_create_table_def descend_def x86_fmt_bits flag_bits x86_new_def x86_widen_def Let_def split_def)

lemma vidx_shifts:
  "vidx 3 v = unat (drop_bit 39 v AND 0x1FF)" "vidx 2 v = unat (drop_bit 30 v AND 0x1FF)"
  "vidx 1 v = unat (drop_bit 21 v AND 0x1FF)" "vidx 0 v = unat (drop_bit 12 v AND 0x1FF)"
  by (simp_all add: vidx_def)

definition x86_leaf :: "physaddr \<Rightarrow> u64 \<Rightarrow> u64" where
  "x86_leaf phys flags = (phys AND ADDR_MASK) OR (flags AND (VMM_PRESENT OR VMM_WRITABLE OR VMM_USER))"

lemma vmm_map_create:
  "vmm_map as virt phys flags s =
     (case as_root as s of None \<Rightarrow> None
      | Some root \<Rightarrow>
          let (pt, s) = create x86_fmt (x86_new flags) (x86_widen flags) 3 root virt s
          in Some (if pt = 0 then s else vm_set pt (vidx 0 virt) (x86_leaf phys flags) s))"
  by (simp add: vmm_map_def get_or_create_descend numeral_3_eq_3 vidx_shifts [unfolded numeral_3_eq_3 numeral_2_eq_2 One_nat_def, symmetric]
      x86_leaf_def Let_def split_def split: option.splits)

lemma vmm_translate_lookup:
  "vmm_translate as virt s =
     (case as_root as s of None \<Rightarrow> None
      | Some root \<Rightarrow> Some (let e = lookup x86_fmt (vm_mem s) 3 root virt
                          in if pf_present x86_fmt e then (e AND ADDR_MASK) OR (virt AND 0xFFF) else 0))"
  by (auto simp: vmm_translate_def numeral_3_eq_3 vidx_shifts [unfolded numeral_3_eq_3 numeral_2_eq_2 One_nat_def, symmetric]
      x86_fmt_bits flag_bits Let_def lookup_def split: option.splits)

lemma clone_table_tree: "clone_table_level (Suc l) src s = clone_tree x86_fmt x86_link l src s"
proof (induction l arbitrary: src s)
  case 0
  show ?case unfolding clone_table_level.simps(2) clone_tree.simps by (simp add: x86_fmt_bits flag_bits Let_def cong: if_cong)
next
  case (Suc l)
  show ?case unfolding clone_table_level.simps(2) [of "Suc l"] clone_tree.simps Suc
    by (simp add: x86_fmt_bits flag_bits x86_link_def Let_def cong: if_cong)
qed

lemma free_table_tree: "free_table_level (Suc l) t s = free_tree x86_fmt l t s"
proof (induction l arbitrary: t s)
  case (Suc l)
  show ?case unfolding free_table_level.simps(2) [of "Suc l"] free_tree.simps Suc
    by (simp add: x86_fmt_bits flag_bits Let_def cong: if_cong)
qed simp

lemma x86_leaf_bits:
  assumes "flags AND VMM_PRESENT \<noteq> 0"
  shows "pf_present x86_fmt (x86_leaf phys flags)" "x86_leaf phys flags AND ADDR_MASK = phys AND ADDR_MASK"
proof -
  show "pf_present x86_fmt (x86_leaf phys flags)"
    using assms unfolding flag_bits x86_fmt_bits x86_leaf_def bit_or_iff bit_and_iff bit_flags by simp
  have "x86_leaf phys flags AND ADDR_MASK = (phys AND ADDR_MASK) AND ADDR_MASK"
    unfolding x86_leaf_def by (rule mask_or) (auto simp: bit_simps bit_flags)
  then show "x86_leaf phys flags AND ADDR_MASK = phys AND ADDR_MASK" by (simp add: and.assoc)
qed

lemma as_root_rest:
  assumes "rest_of s' = rest_of s"
  shows "as_root as s' = as_root as s"
  using assms by (simp add: as_root_def rest_of_def split: aspace.splits)

text \<open>\<open>same_page n\<close> compares the page numbers of two addresses.\<close>

lemma same_page_iff:
  "same_page n v v' \<longleftrightarrow> take_bit (9 * Suc n) (drop_bit 12 v) = take_bit (9 * Suc n) (drop_bit 12 v')"
proof
  have m: "(0x1FF :: u64) = mask 9" by (simp add: mask_eq_exp_minus_1)
  have idx: "vidx k v = vidx k v' \<longleftrightarrow> (\<forall>j < 9. bit v (12 + 9 * k + j) = bit v' (12 + 9 * k + j))" for k
  proof -
    have "vidx k v = vidx k v' \<longleftrightarrow> take_bit 9 (drop_bit (12 + 9 * k) v) = take_bit 9 (drop_bit (12 + 9 * k) v')"
      unfolding vidx_def m take_bit_eq_mask [symmetric] by (simp add: word_unat_eq_iff)
    also have "\<dots> \<longleftrightarrow> (\<forall>j < 9. bit v (12 + 9 * k + j) = bit v' (12 + 9 * k + j))"
    proof
      assume e: "take_bit 9 (drop_bit (12 + 9 * k) v) = take_bit 9 (drop_bit (12 + 9 * k) v')"
      show "\<forall>j < 9. bit v (12 + 9 * k + j) = bit v' (12 + 9 * k + j)"
        using arg_cong [OF e, of "\<lambda>w. bit w j" for j] by (auto simp: bit_take_bit_iff bit_drop_bit_eq)
    qed (auto intro!: bit_word_eqI simp: bit_take_bit_iff bit_drop_bit_eq)
    finally show ?thesis .
  qed
  show "take_bit (9 * Suc n) (drop_bit 12 v) = take_bit (9 * Suc n) (drop_bit 12 v')" if sp: "same_page n v v'"
  proof (rule bit_word_eqI)
    fix j
    have "bit v (12 + j) = bit v' (12 + j)" if j: "j < 9 * Suc n"
    proof -
      have "j div 9 \<le> n" using j by (simp add: less_Suc_eq_le [symmetric] div_less_iff_less_mult)
      then have "vidx (j div 9) v = vidx (j div 9) v'" using sp by (simp add: same_page_def)
      then have "bit v (12 + 9 * (j div 9) + j mod 9) = bit v' (12 + 9 * (j div 9) + j mod 9)"
        unfolding idx by (meson mod_less_divisor zero_less_numeral)
      then show ?thesis by (simp add: add.assoc)
    qed
    then show "bit (take_bit (9 * Suc n) (drop_bit 12 v)) j = bit (take_bit (9 * Suc n) (drop_bit 12 v')) j"
      unfolding bit_take_bit_iff bit_drop_bit_eq by auto
  qed
  show "same_page n v v'" if e: "take_bit (9 * Suc n) (drop_bit 12 v) = take_bit (9 * Suc n) (drop_bit 12 v')"
    unfolding same_page_def idx
  proof (intro allI impI)
    fix k j assume "k \<le> n" "j < (9 :: nat)"
    then have "9 * k + j < 9 * Suc n" by simp
    moreover have "bit (take_bit (9 * Suc n) (drop_bit 12 v)) (9 * k + j) = bit (take_bit (9 * Suc n) (drop_bit 12 v')) (9 * k + j)"
      using e by simp
    ultimately show "bit v (12 + 9 * k + j) = bit v' (12 + 9 * k + j)"
      unfolding bit_take_bit_iff bit_drop_bit_eq by (simp add: add.assoc)
  qed
qed

section \<open>Properties\<close>

text \<open>Property C15. Mapping a page and translating is a round trip on x86_64: when no huge page is in
  the way and the frame allocator can supply the up to three missing tables, \<open>vmm_map\<close> makes every
  address of that page translate to the given physical page plus its offset, leaves the translation of
  every other page of the address space as it was, and keeps the tables well formed.\<close>

theorem vmm_map_translate:
  assumes "as_root as s = Some root" "ready x86_fmt 3 root s" "unblocked x86_fmt (vm_mem s) 3 root virt"
    "3 \<le> card (free_set (vm_pmm s))" "flags AND VMM_PRESENT \<noteq> 0"
  shows "\<exists>s'. vmm_map as virt phys flags s = Some s' \<and> ready x86_fmt 3 root s'
     \<and> (\<forall>v. vmm_translate as v s' =
          (if take_bit 36 (drop_bit 12 virt) = take_bit 36 (drop_bit 12 v)
           then Some ((phys AND ADDR_MASK) OR (v AND 0xFFF)) else vmm_translate as v s))"
proof -
  obtain c s' where c: "create x86_fmt (x86_new flags) (x86_widen flags) 3 root virt s = (c, s')" "c \<noteq> 0"
    "\<And>v'. lookup x86_fmt (pt_set c (vidx 0 virt) (x86_leaf phys flags) (vm_mem s')) 3 root v' =
        (if same_page 3 virt v' then x86_leaf phys flags else lookup x86_fmt (vm_mem s) 3 root v')"
    "ready x86_fmt 3 root (vm_set c (vidx 0 virt) (x86_leaf phys flags) s')"
    by (rule x86.map_spec [OF assms(2-4), of flags "x86_leaf phys flags"]) blast
  let ?s = "vm_set c (vidx 0 virt) (x86_leaf phys flags) s'"
  have "rest_of s' = rest_of s" using create_rest [of x86_fmt "x86_new flags" "x86_widen flags" 3 root virt s] c(1) by simp
  then have root: "as_root as ?s = Some root" using as_root_rest [of ?s s as] assms(1) by simp
  have "vmm_map as virt phys flags s = Some ?s" using c(1,2) assms(1) by (simp add: vmm_map_create)
  moreover have "vmm_translate as v ?s = (if take_bit 36 (drop_bit 12 virt) = take_bit 36 (drop_bit 12 v)
      then Some ((phys AND ADDR_MASK) OR (v AND 0xFFF)) else vmm_translate as v s)" for v
    using c(3) [of v] root assms(1) x86_leaf_bits [OF assms(5), of phys] same_page_iff [of 3 virt v]
    by (simp add: vmm_translate_lookup)
  ultimately show ?thesis using c(4) by blast
qed

definition demo_vm :: vm where
  "demo_vm = \<lparr>vm_mem = (\<lambda>_. 0), vm_heap = demo_heap, kernel_root = 0x1000, root_reg = 0x1000, as_at = (\<lambda>_. None), tlb_log = []\<rparr>"

lemma zero_mem: "pt_get (\<lambda>_. 0) t i = 0"
proof -
  have "foldr (\<lambda>b w. ucast b OR push_bit 8 w) (replicate n (0 :: u8)) (0 :: u64) = 0" for n by (induction n) simp_all
  then show ?thesis by (simp add: pt_get_def load64_def load_bytes_def bytes_word_def map_replicate_const)
qed

lemma demo_vm_facts:
  "phys_ok (vm_pmm demo_vm)" "card (free_set (vm_pmm demo_vm)) = 5" "page_aligned 0x1000"
  "free_set (vm_pmm demo_vm) = {2, 3, 5, 6, 7}"
proof -
  have "total_frames demo_pmm = 8"
    by (simp add: demo_pmm_def pmm_init_spec demo_regions_def highest_address_def PMM_FRAME_SIZE_def)
  then show "phys_ok (vm_pmm demo_vm)" using demo_pmm_facts by (simp add: phys_ok_def demo_vm_def demo_heap_def)
  show "card (free_set (vm_pmm demo_vm)) = 5" "free_set (vm_pmm demo_vm) = {2, 3, 5, 6, 7}"
    using demo_pmm_facts by (simp_all add: demo_vm_def demo_heap_def)
  show "page_aligned 0x1000" by (simp add: page_aligned_def)
qed

lemma demo_vm_ready:
  "ready x86_fmt 3 0x1000 demo_vm" "unblocked x86_fmt (vm_mem demo_vm) 3 0x1000 v" "tset x86_fmt (vm_mem demo_vm) 3 0x1000 = {0x1000}"
proof -
  have z: "pt_get (vm_mem demo_vm) 0x1000 i = 0" for i by (simp add: demo_vm_def zero_mem)
  note e = x86.empty_table [of "0x1000" "vm_mem demo_vm", OF demo_vm_facts(3) _ z]
  show "unblocked x86_fmt (vm_mem demo_vm) 3 0x1000 v" "tset x86_fmt (vm_mem demo_vm) 3 0x1000 = {0x1000}" using e by simp_all
  show "ready x86_fmt 3 0x1000 demo_vm"
    using e(1,2) [of 3] demo_vm_facts(1,4) by (simp add: ready_def in_use_def)
qed

theorem vmm_map_translate_witness:
  "\<exists>s'. vmm_map Kernel_space 0x8000001000 0x7000 (VMM_PRESENT OR VMM_WRITABLE) demo_vm = Some s'
     \<and> vmm_translate Kernel_space 0x8000001234 s' = Some 0x7234"
proof -
  have f: "(VMM_PRESENT OR VMM_WRITABLE) AND VMM_PRESENT \<noteq> 0" unfolding flag_bits bit_or_iff bit_flags by simp
  have r: "as_root Kernel_space demo_vm = Some 0x1000" by (simp add: as_root_def demo_vm_def)
  have "(0x7000 AND ADDR_MASK) OR (0x8000001234 AND 0xFFF) = (0x7234 :: u64)"
    "take_bit 36 (drop_bit 12 0x8000001000) = take_bit 36 (drop_bit 12 (0x8000001234 :: u64))"
    by (simp_all add: ADDR_MASK_def)
  then show ?thesis
    using vmm_map_translate [OF r demo_vm_ready(1,2) _ f, of "0x8000001000" "0x7000"] demo_vm_facts(2) by force
qed

lemma create_space_cloned:
  assumes r: "ready x86_fmt 3 (kernel_root s) s" "card (tset x86_fmt (vm_mem s) 3 (kernel_root s)) \<le> card (free_set (vm_pmm s))"
    and c: "vmm_create_address_space s = Some (as, s2)"
  obtains a s1 where "cloned x86_fmt 3 (kernel_root s) a s s1" "vm_mem s2 = vm_mem s1" "phys_ok (vm_pmm s2)"
    "free_set (vm_pmm s2) \<subseteq> free_set (vm_pmm s1)" "as_root as s2 = Some a" "kernel_root s2 = kernel_root s"
    "\<exists>p. as = Heap_space p \<and> p \<noteq> 0"
proof -
  obtain a s1 where a: "clone_tree x86_fmt x86_link 3 (kernel_root s) s = (a, s1)" "cloned x86_fmt 3 (kernel_root s) a s s1"
    using x86.clone_spec [OF r] by blast
  have l: "clone_table_level 4 (kernel_root s) s = (a, s1)"
    using a(1) clone_table_tree [of 3 "kernel_root s" s] by simp
  obtain p h where k: "kmalloc sizeof_address_space (vm_heap s1) = Some (p, h)" "p \<noteq> 0"
    and s2: "as = Heap_space p" "s2 = s1\<lparr>vm_heap := h, as_at := (as_at s1)(p \<mapsto> a)\<rparr>"
    using c l by (auto simp: vmm_create_address_space_def Let_def split: option.splits if_splits bind_splits)
  have ok1: "phys_ok (vm_pmm s1)" using a(2) by (simp add: cloned_def ready_def)
  note h = kmalloc_pmm [OF ok1 k(1)]
  have "kernel_root s1 = kernel_root s"
    using clone_tree_rest [of x86_fmt x86_link 3 "kernel_root s" s] a(1) by (simp add: rest_of_def)
  then show thesis using that [OF a(2)] h k(2) s2 by (simp add: as_root_def)
qed

text \<open>Property C16. Address spaces are isolated on x86_64: a new address space starts with exactly the
  kernel's translations, creating it changes no translation of the kernel's, and mapping a page in it is
  visible there and nowhere else, in particular not in the kernel's address space.\<close>

theorem vmm_spaces_isolated:
  assumes "ready x86_fmt 3 (kernel_root s) s" "card (tset x86_fmt (vm_mem s) 3 (kernel_root s)) \<le> card (free_set (vm_pmm s))"
    and "vmm_create_address_space s = Some (as, s1)"
    and "unblocked x86_fmt (vm_mem s) 3 (kernel_root s) virt" "3 \<le> card (free_set (vm_pmm s1))" "flags AND VMM_PRESENT \<noteq> 0"
  shows "(\<forall>v. vmm_translate as v s1 = vmm_translate Kernel_space v s \<and> vmm_translate Kernel_space v s1 = vmm_translate Kernel_space v s)
     \<and> (\<exists>s2. vmm_map as virt phys flags s1 = Some s2
          \<and> vmm_translate as virt s2 = Some ((phys AND ADDR_MASK) OR (virt AND 0xFFF))
          \<and> (\<forall>v. vmm_translate Kernel_space v s2 = vmm_translate Kernel_space v s))"
proof -
  obtain a s0 where cl: "cloned x86_fmt 3 (kernel_root s) a s s0" and s1: "vm_mem s1 = vm_mem s0" "phys_ok (vm_pmm s1)"
    "free_set (vm_pmm s1) \<subseteq> free_set (vm_pmm s0)" "as_root as s1 = Some a" "kernel_root s1 = kernel_root s"
    by (rule create_space_cloned [OF assms(1-3)]) blast
  let ?e = "x86_leaf phys flags"
  obtain b s3 where b: "create x86_fmt (x86_new flags) (x86_widen flags) 3 a virt s1 = (b, s3)" "b \<noteq> 0"
    and own: "\<And>v. lookup x86_fmt (pt_set b (vidx 0 virt) ?e (vm_mem s3)) 3 a v =
       (if same_page 3 virt v then ?e else lookup x86_fmt (vm_mem s0) 3 a v)"
    and ker: "\<And>v. lookup x86_fmt (pt_set b (vidx 0 virt) ?e (vm_mem s3)) 3 (kernel_root s) v = lookup x86_fmt (vm_mem s) 3 (kernel_root s) v"
    using x86.clone_map_isolated [OF assms(1) cl s1(1-3) assms(4,5), of flags ?e] by metis
  let ?s2 = "vm_set b (vidx 0 virt) ?e s3"
  have rest: "rest_of ?s2 = rest_of s1"
    using create_rest [of x86_fmt "x86_new flags" "x86_widen flags" 3 a virt s1] b(1) by simp
  have kr: "as_root Kernel_space x = Some (kernel_root s)" if "kernel_root x = kernel_root s" for x :: "'a vm_scheme"
    using that by (simp add: as_root_def)
  have map: "vmm_map as virt phys flags s1 = Some ?s2" using b s1(4) by (simp add: vmm_map_create)
  have k2: "kernel_root ?s2 = kernel_root s" using rest s1(5) by (simp add: rest_of_def)
  have "vmm_translate as v s1 = vmm_translate Kernel_space v s" for v
    using cl s1(1,4) kr [of s] x86.zero_absent
    by (simp add: vmm_translate_lookup cloned_def seen_def Let_def) (metis x86.zero_absent(1))
  moreover have "vmm_translate Kernel_space v s1 = vmm_translate Kernel_space v s" for v
    using cloned_apart(3) [OF assms(1) cl] kr [of s] kr [of s1] s1(1,5) by (simp add: vmm_translate_lookup)
  moreover have "vmm_translate Kernel_space v ?s2 = vmm_translate Kernel_space v s" for v
    using ker kr [of s] kr [OF k2] by (simp add: vmm_translate_lookup)
  moreover have "as_root as ?s2 = Some a" using as_root_rest [OF rest] s1(4) by simp
  then have "vmm_translate as virt ?s2 = Some ((phys AND ADDR_MASK) OR (virt AND 0xFFF))"
    using own [of virt] x86_leaf_bits [OF assms(6), of phys] by (simp add: vmm_translate_lookup same_page_def)
  ultimately show ?thesis using map by blast
qed

text \<open>A small allocation from the demonstration heap, whatever the frame allocator's state.\<close>

lemma demo_kmalloc_8:
  assumes "arena_list h = arena_list demo_heap" "arena_at h = arena_at demo_heap" "block_at h = block_at demo_heap"
  shows "\<exists>h'. kmalloc 8 h = Some (0x40B0, h') \<and> heap_pmm h' = heap_pmm h"
proof -
  have "find_block (block_at h) 0x4018 8 = Some 0x4098"
    using assms by (subst find_block.simps, simp add: demo_heap_def, subst find_block.simps, simp)
  then have "find_fit h 0x4000 8 = Some 0x4098"
    using assms by (subst find_fit.simps) (simp add: demo_heap_def)
  then show ?thesis using assms by (simp add: kmalloc_def align_up_def alloc_from_block_def demo_heap_def Let_def)
qed

lemma demo_create:
  "\<exists>as s1. vmm_create_address_space demo_vm = Some (as, s1) \<and> 3 \<le> card (free_set (vm_pmm s1))"
proof -
  have k: "kernel_root demo_vm = 0x1000" by (simp add: demo_vm_def)
  have r: "ready x86_fmt 3 (kernel_root demo_vm) demo_vm" using demo_vm_ready by (simp add: k)
  have c: "card (tset x86_fmt (vm_mem demo_vm) 3 (kernel_root demo_vm)) \<le> card (free_set (vm_pmm demo_vm))"
    using demo_vm_ready(3) demo_vm_facts(2) by (simp add: k)
  obtain a s1 where a: "clone_tree x86_fmt x86_link 3 0x1000 demo_vm = (a, s1)" and cl: "cloned x86_fmt 3 0x1000 a demo_vm s1"
    using x86.clone_spec [OF r c] unfolding k by blast
  have l: "clone_table_level 4 0x1000 demo_vm = (a, s1)"
    using a clone_table_tree [of 3 "0x1000" demo_vm] by simp
  have "rest_of s1 = rest_of demo_vm" using clone_tree_rest [of x86_fmt x86_link 3 "0x1000" demo_vm] a by simp
  then obtain h where h: "kmalloc 8 (vm_heap s1) = Some (0x40B0, h)" "heap_pmm h = vm_pmm s1"
    using demo_kmalloc_8 [of "vm_heap s1"] by (auto simp: rest_of_def demo_vm_def)
  have "wf_tables x86_fmt (vm_mem s1) 3 a" "\<And>u. u \<in> tset x86_fmt (vm_mem s1) 3 a \<Longrightarrow> frame_no u \<in> free_set (vm_pmm demo_vm)"
    using cl by (auto simp: cloned_def ready_def)
  from card_free_minus [OF this] have "card (free_set (vm_pmm s1)) = 4"
    using cl demo_vm_ready(3) demo_vm_facts(2) by (simp add: cloned_def)
  then show ?thesis using h l by (simp add: vmm_create_address_space_def k sizeof_address_space_def)
qed

theorem vmm_spaces_isolated_witness:
  "\<exists>as s1 s2. vmm_create_address_space demo_vm = Some (as, s1)
     \<and> vmm_map as 0x80000000 0x7000 VMM_PRESENT s1 = Some s2
     \<and> vmm_translate as 0x80000000 s2 = Some 0x7000 \<and> vmm_translate Kernel_space 0x80000000 s2 = Some 0"
proof -
  have k: "kernel_root demo_vm = 0x1000" by (simp add: demo_vm_def)
  obtain as s1 where c: "vmm_create_address_space demo_vm = Some (as, s1)" "3 \<le> card (free_set (vm_pmm s1))"
    using demo_create by blast
  have f: "VMM_PRESENT AND VMM_PRESENT \<noteq> 0" unfolding flag_bits bit_flags by simp
  have r: "ready x86_fmt 3 (kernel_root demo_vm) demo_vm"
    "card (tset x86_fmt (vm_mem demo_vm) 3 (kernel_root demo_vm)) \<le> card (free_set (vm_pmm demo_vm))"
    "unblocked x86_fmt (vm_mem demo_vm) 3 (kernel_root demo_vm) 0x80000000"
    using demo_vm_ready demo_vm_facts(2) by (simp_all add: k)
  have z: "vmm_translate Kernel_space 0x80000000 demo_vm = Some 0"
    unfolding vmm_translate_def by (simp add: as_root_def demo_vm_def zero_mem Let_def)
  have "(0x7000 AND ADDR_MASK) OR (0x80000000 AND 0xFFF) = (0x7000 :: u64)" by (simp add: ADDR_MASK_def)
  then show ?thesis using vmm_spaces_isolated [OF r(1,2) c(1) r(3) c(2) f, of "0x7000"] c(1) z by metis
qed

text \<open>Property C17. Destroying an address space gives back exactly its page table frames: every frame of
  a table of that space becomes free, no other frame changes state (the pages the tables pointed to
  stay allocated), no memory is written, and the kernel's own space cannot be destroyed.\<close>

theorem vmm_destroy_frees_tables:
  assumes "as_at s p = Some root" "ready x86_fmt 3 root s"
    and "\<And>u. u \<in> tset x86_fmt (vm_mem s) 3 root \<Longrightarrow> frame_no u < unat (total_frames (vm_pmm s))"
    and "vmm_destroy_address_space (Heap_space p) s = Some s'"
  shows "free_set (vm_pmm s') = free_set (vm_pmm s) \<union> frame_no ` tset x86_fmt (vm_mem s) 3 root
     \<and> vm_mem s' = vm_mem s \<and> phys_ok (vm_pmm s') \<and> as_at s' p = None
     \<and> vmm_destroy_address_space Kernel_space s = Some s"
proof -
  have "freed (tset x86_fmt (vm_mem s) 3 root) s (free_tree x86_fmt 3 root s)"
    using assms(2) by (intro free_tree_spec) (auto simp: ready_def)
  moreover have "free_table_level 4 root s = free_tree x86_fmt 3 root s" using free_table_tree [of 3 root s] by simp
  moreover obtain h where "kfree p (vm_heap (free_table_level 4 root s)) = Some h"
    "s' = (free_table_level 4 root s)\<lparr>vm_heap := h, as_at := (as_at (free_table_level 4 root s))(p := None)\<rparr>"
    using assms(1,4) by (auto simp: vmm_destroy_address_space_def Let_def split: bind_splits)
  ultimately show ?thesis using assms(3) kfree_pmm by (auto simp: freed_def vmm_destroy_address_space_def)
qed

theorem vmm_destroy_frees_tables_witness:
  "let s = demo_vm\<lparr>as_at := [0x4030 \<mapsto> 0x1000]\<rparr>
   in \<exists>s'. vmm_destroy_address_space (Heap_space 0x4030) s = Some s' \<and> free_set (vm_pmm s') = {1, 2, 3, 5, 6, 7}"
proof -
  let ?s = "demo_vm\<lparr>as_at := [0x4030 \<mapsto> 0x1000]\<rparr>"
  have r: "ready x86_fmt 3 0x1000 ?s" and T: "tset x86_fmt (vm_mem ?s) 3 0x1000 = {0x1000}"
    using demo_vm_ready by (simp_all add: ready_def)
  have tf: "total_frames (vm_pmm ?s) = 8"
    by (simp add: demo_vm_def demo_heap_def demo_pmm_def pmm_init_spec demo_regions_def highest_address_def PMM_FRAME_SIZE_def)
  have f: "frame_no u < unat (total_frames (vm_pmm ?s))" if "u \<in> tset x86_fmt (vm_mem ?s) 3 0x1000" for u
    using that unfolding T tf by simp
  have "rest_of (free_table_level 4 0x1000 ?s) = rest_of ?s"
    using free_tree_rest [of x86_fmt 3 "0x1000" ?s] free_table_tree [of 3 "0x1000" ?s] by simp
  then have "block_at (vm_heap (free_table_level 4 0x1000 ?s)) = block_at demo_heap" by (simp add: rest_of_def demo_vm_def)
  then obtain h where "kfree 0x4030 (vm_heap (free_table_level 4 0x1000 ?s)) = Some h"
    by (simp add: kfree_def demo_heap_def Let_def)
  then obtain s' where s': "vmm_destroy_address_space (Heap_space 0x4030) ?s = Some s'"
    by (simp add: vmm_destroy_address_space_def Let_def)
  have as: "as_at ?s 0x4030 = Some 0x1000" by simp
  have "free_set (vm_pmm s') = {2, 3, 5, 6, 7} \<union> frame_no ` {0x1000}"
    using vmm_destroy_frees_tables [OF as r f s'] demo_vm_facts(4) unfolding T by simp
  then have "free_set (vm_pmm s') = {1, 2, 3, 5, 6, 7}" by auto
  then show ?thesis using s' by (simp add: Let_def)
qed

text \<open>When the frame allocator is empty, \<open>vmm_map\<close> neither maps the page nor reports an
  error: \<open>pmm_alloc_frame\<close> answers 0, and the code clears physical page 0 and links it into the page
  table as if it were a table.\<close>

theorem vmm_map_out_of_frames:
  assumes "as_root as s = Some root" "page_aligned root" "root \<noteq> 0" "pmm_ok (vm_pmm s)" "free_set (vm_pmm s) = {}"
    and "pt_get (vm_mem s) root (vidx 3 virt) = 0"
  shows "\<exists>s'. vmm_map as virt phys flags s = Some s' \<and> (\<forall>i < 512. pt_get (vm_mem s') 0 i = 0)
     \<and> pt_get (vm_mem s') root (vidx 3 virt) AND VMM_PRESENT \<noteq> 0 \<and> pt_get (vm_mem s') root (vidx 3 virt) AND ADDR_MASK = 0
     \<and> vmm_translate as virt s' = Some 0"
proof -
  obtain a p where a: "pmm_alloc_frame (vm_pmm s) = (a, p)" by (cases "pmm_alloc_frame (vm_pmm s)")
  have a0: "a = 0" using frames.alloc_frame_state(3) [OF assms(4) a] assms(5) by simp
  obtain s1 where al: "vm_alloc s = (0, s1)" and r1: "rest_of s1 = rest_of s" using a a0 rest_of_simps(3) [of s] by (simp add: vm_alloc_def)
  let ?e = "x86_new flags 0"
  define s' where "s' = vm_set root (vidx 3 virt) ?e (zeroed_table 0 s1)"
  have p0: "page_aligned 0" by (simp add: page_aligned_def)
  have ent: "pt_get (vm_mem s') root (vidx 3 virt) = ?e" using assms(2) by (simp add: s'_def)
  have zero: "pt_get (vm_mem s') 0 i = 0" if "i < 512" for i
    using assms(2,3) p0 that by (simp add: s'_def)
  have child: "is_table x86_fmt ?e \<and> child x86_fmt ?e = 0" using x86.new_table [of 0 flags] p0 by simp
  have "get_or_create_table root (vidx 3 virt) flags s = (child x86_fmt (pt_get (vm_mem s') root (vidx 3 virt)), s')"
    using assms(6) al by (simp add: get_or_create_descend descend_def x86.zero_absent Let_def s'_def)
  then have d: "get_or_create_table root (vidx 3 virt) flags s = (0, s')" unfolding ent using child by simp
  have "vmm_map as virt phys flags s = Some s'"
    using assms(1) d by (simp add: vmm_map_def vidx_shifts)
  moreover have "?e AND VMM_PRESENT \<noteq> 0" "?e AND ADDR_MASK = 0" using child by (simp_all add: x86_fmt_bits flag_bits)
  moreover have "as_root as s' = Some root"
    using assms(1) r1 as_root_rest [of s' s as] by (simp add: s'_def)
  then have "vmm_translate as virt s' = Some 0"
    using ent child zero [OF vidx_lt]
    by (simp add: vmm_translate_lookup x86.zero_absent numeral_3_eq_3 numeral_2_eq_2 lookup_def is_table_def Let_def)
  ultimately show ?thesis using zero ent by auto
qed

theorem vmm_map_out_of_frames_witness:
  "let s = demo_vm\<lparr>vm_heap := demo_heap\<lparr>heap_pmm := pmm_init [] 0 0\<rparr>\<rparr>
   in \<exists>s'. vmm_map Kernel_space 0x400000 0x7000 VMM_PRESENT s = Some s' \<and> vmm_translate Kernel_space 0x400000 s' = Some 0
        \<and> pt_get (vm_mem s') 0x1000 0 AND VMM_PRESENT \<noteq> 0"
proof -
  let ?s = "demo_vm\<lparr>vm_heap := demo_heap\<lparr>heap_pmm := pmm_init [] 0 0\<rparr>\<rparr>"
  have f: "free_set (vm_pmm ?s) = {}" by (simp add: pmm_init_spec usable_frames_def)
  have "pmm_inv (vm_pmm ?s)" by (simp add: pmm_init_spec)
  then have ok: "pmm_ok (vm_pmm ?s)" using f unfolding pmm_ok_def by simp
  have r: "as_root Kernel_space ?s = Some 0x1000" by (simp add: as_root_def demo_vm_def)
  have v: "vidx 3 0x400000 = 0" by (simp add: vidx_def)
  have z: "pt_get (vm_mem ?s) 0x1000 (vidx 3 0x400000) = 0" by (simp add: demo_vm_def zero_mem)
  show ?thesis
    using vmm_map_out_of_frames [OF r demo_vm_facts(3) _ ok f z, of "0x7000" VMM_PRESENT] unfolding v by (auto simp: Let_def)
qed

section \<open>The identity mapper ends\<close>

lemma identity_loop_bounded:
  assumes "unat addr + n * 0x200000 = unat e"
  shows "identity_loop t addr e s = Some (fold (identity_step t) (map (\<lambda>k. addr + of_nat k * 0x200000) [0..<n]) s)"
  using assms
proof (induction n arbitrary: addr s)
  case 0
  then have "addr = e" by (simp add: word_unat_eq_iff)
  then show ?case by (subst identity_loop.simps) simp
next
  case (Suc n)
  have lt: "addr < e" using Suc.prems by (simp add: word_less_nat_alt)
  have "unat (addr + 0x200000) = unat addr + 0x200000"
    using Suc.prems u64_lt [of e] unat_plus_simple [of addr "0x200000"] by (subst unat_word_ariths) simp
  then have "identity_loop t (addr + 0x200000) e (identity_step t addr s) =
      Some (fold (identity_step t) (map (\<lambda>k. (addr + 0x200000) + of_nat k * 0x200000) [0..<n]) (identity_step t addr s))"
    using Suc.prems by (intro Suc.IH) simp
  moreover have "[0..<Suc n] = 0 # map Suc [0..<n]" by (simp add: upt_conv_Cons map_Suc_upt del: upt_Suc)
  ultimately show ?case using lt
    by (subst identity_loop.simps) (simp add: comp_def algebra_simps del: upt_Suc)
qed

text \<open>\<open>paging_identity_map\<close> always returns, for every range, also one whose end wraps
  around: its loop is the bounded loop over the 2 MB pages from the rounded-down start to the rounded-up
  end (none when the end, after wrapping, is not above the start), and the TLB is flushed once after it.\<close>

theorem paging_identity_map_terminates:
  "let start = ALIGN_DOWN phys 0x200000; e = ALIGN_UP (phys + sz) 0x200000;
       s' = fold (identity_step (get_pml4 s)) (map (\<lambda>k. start + of_nat k * 0x200000) [0..<(unat e - unat start) div 0x200000]) s
   in paging_identity_map phys sz s = Some (s'\<lparr>tlb_log := tlb_log s' @ [Flush_all]\<rparr>)"
proof -
  let ?b = "ALIGN_DOWN phys 0x200000" and ?e = "ALIGN_UP (phys + sz) 0x200000"
  have al: "0x200000 dvd unat (ALIGN_DOWN x 0x200000)" for x :: u64
    using unat_and_not_mask [of x 21] by (simp add: ALIGN_DOWN_def mask_eq_exp_minus_1)
  then have "0x200000 dvd unat ?b" "0x200000 dvd unat ?e" by (simp_all only: ALIGN_UP_eq_DOWN)
  then have d: "0x200000 dvd unat ?e - unat ?b" by (rule dvd_diff_nat [rotated])
  show ?thesis
  proof (cases "unat ?b < unat ?e")
    case True
    then have "unat ?b + (unat ?e - unat ?b) div 0x200000 * 0x200000 = unat ?e" using d by simp
    from identity_loop_bounded [OF this, of "get_pml4 s" s] show ?thesis
      by (simp add: paging_identity_map_def Let_def)
  next
    case False
    then have "\<not> ?b < ?e" by (simp add: word_less_nat_alt)
    then show ?thesis using False by (simp add: paging_identity_map_def Let_def identity_loop.simps [of "get_pml4 s" ?b])
  qed
qed

end
