(* ===== verification/Framebuffer.thy ===== *)
theory Framebuffer
  imports Font Vmm_x86
begin

text \<open>
  The linear framebuffer drivers, \<^verbatim>\<open>arch/x86_64/drivers/framebuffer.c\<close> and the drawing half of
  \<^verbatim>\<open>arch/aarch64/drivers/framebuffer.c\<close>. The framebuffer is memory, so a drawing operation is a function
  on the byte memory of theory Mem. On x86_64 the driver holds a pointer to the mode that the boot
  loader reported (\<open>None\<close> before \<open>fb_init\<close>), on aarch64 a structure of its own. Signed overflow, which C
  leaves undefined, makes the line algorithm \<open>None\<close>.
\<close>

section \<open>x86_64\<close>

record fb_info =
  fb_present :: bool
  fb_addr :: physaddr
  fb_pitch :: u32
  fb_w :: u32
  fb_h :: u32
  fb_bpp :: u8

definition fb_init :: "fb_info \<Rightarrow> ('x) vm_scheme \<Rightarrow> (fb_info option \<times> ('x) vm_scheme) option" where
  "fb_init info s =
     (if \<not> fb_present info then Some (Some info, s)
      else do {
        s \<leftarrow> paging_identity_map (fb_addr info) (ucast (fb_pitch info) * ucast (fb_h info)) s;
        Some (Some info, s)
      })"

definition fb_available :: "fb_info option \<Rightarrow> bool" where
  "fb_available fb = (case fb of None \<Rightarrow> False | Some f \<Rightarrow> fb_present f)"

definition fb_width :: "fb_info option \<Rightarrow> u32" where
  "fb_width fb = (case fb of None \<Rightarrow> 0 | Some f \<Rightarrow> fb_w f)"

definition fb_height :: "fb_info option \<Rightarrow> u32" where
  "fb_height fb = (case fb of None \<Rightarrow> 0 | Some f \<Rightarrow> fb_h f)"

definition fb_put_pixel :: "fb_info option \<Rightarrow> u32 \<Rightarrow> u32 \<Rightarrow> u32 \<Rightarrow> mem \<Rightarrow> mem" where
  "fb_put_pixel fb x y rgb m =
     (case fb of None \<Rightarrow> m
      | Some f \<Rightarrow>
          if \<not> fb_present f \<or> x \<ge> fb_w f \<or> y \<ge> fb_h f then m
          else
            let row = fb_addr f + ucast y * ucast (fb_pitch f)
            in store32 (row + ucast x * 4) (rgb AND 0x00FFFFFF) m)"

text \<open>\<open>for (col = x; col < x1; col++) *p++ = color\<close>\<close>

primrec fill_row :: "nat \<Rightarrow> u64 \<Rightarrow> u32 \<Rightarrow> mem \<Rightarrow> mem" where
  "fill_row 0 p color m = m"
| "fill_row (Suc n) p color m = fill_row n (p + 4) color (store32 p color m)"

definition fb_fill_rect :: "fb_info option \<Rightarrow> u32 \<Rightarrow> u32 \<Rightarrow> u32 \<Rightarrow> u32 \<Rightarrow> u32 \<Rightarrow> mem \<Rightarrow> mem" where
  "fb_fill_rect fb x y w h rgb m =
     (case fb of None \<Rightarrow> m
      | Some f \<Rightarrow>
          if \<not> fb_present f then m
          else
            let x1 = x + w; y1 = y + h;
                x1 = (if x1 > fb_w f then fb_w f else x1);
                y1 = (if y1 > fb_h f then fb_h f else y1)
            in if x \<ge> x1 \<or> y \<ge> y1 then m
               else
                 let color = rgb AND 0x00FFFFFF
                 in fold (\<lambda>row m. fill_row (unat x1 - unat x) (fb_addr f + of_nat row * ucast (fb_pitch f) + ucast x * 4) color m)
                      [unat y..<unat y1] m)"

definition fb_clear :: "fb_info option \<Rightarrow> u32 \<Rightarrow> mem \<Rightarrow> mem" where
  "fb_clear fb rgb m =
     (case fb of None \<Rightarrow> m
      | Some f \<Rightarrow> if \<not> fb_present f then m else fb_fill_rect fb 0 0 (fb_w f) (fb_h f) rgb m)"

text \<open>A 32-bit signed result.\<close>

definition i32_val :: "int \<Rightarrow> int option" where
  "i32_val v = (if - (2 ^ 31) \<le> v \<and> v < 2 ^ 31 then Some v else None)"

partial_function (option) line_loop ::
    "(u32 \<Rightarrow> u32 \<Rightarrow> mem \<Rightarrow> mem) \<Rightarrow> int \<Rightarrow> int \<Rightarrow> int \<Rightarrow> int \<Rightarrow> int \<Rightarrow> int \<Rightarrow> int \<Rightarrow> int \<Rightarrow> int \<Rightarrow> mem \<Rightarrow> mem option" where
  "line_loop plot x1 y1 dx dy sx sy x0 y0 err m =
     (let m = plot (of_int x0) (of_int y0) m
      in if x0 = x1 \<and> y0 = y1 then Some m
         else do {
           e2 \<leftarrow> i32_val (2 * err);
           (err, x0) \<leftarrow> (if e2 \<ge> dy then do { err \<leftarrow> i32_val (err + dy); x0 \<leftarrow> i32_val (x0 + sx); Some (err, x0) }
                          else Some (err, x0));
           (err, y0) \<leftarrow> (if e2 \<le> dx then do { err \<leftarrow> i32_val (err + dx); y0 \<leftarrow> i32_val (y0 + sy); Some (err, y0) }
                          else Some (err, y0));
           line_loop plot x1 y1 dx dy sx sy x0 y0 err m
         })"

definition line_with :: "(u32 \<Rightarrow> u32 \<Rightarrow> mem \<Rightarrow> mem) \<Rightarrow> int \<Rightarrow> int \<Rightarrow> int \<Rightarrow> int \<Rightarrow> mem \<Rightarrow> mem option" where
  "line_with plot x0 y0 x1 y1 m =
     do {
       dx \<leftarrow> i32_val (if x1 > x0 then x1 - x0 else x0 - x1);
       let sx = (if x0 < x1 then 1 else - 1);
       dy \<leftarrow> i32_val (if y1 > y0 then y0 - y1 else y1 - y0);
       let sy = (if y0 < y1 then 1 else - 1);
       err \<leftarrow> i32_val (dx + dy);
       line_loop plot x1 y1 dx dy sx sy x0 y0 err m
     }"

definition fb_draw_line :: "fb_info option \<Rightarrow> int \<Rightarrow> int \<Rightarrow> int \<Rightarrow> int \<Rightarrow> u32 \<Rightarrow> mem \<Rightarrow> mem option" where
  "fb_draw_line fb x0 y0 x1 y1 rgb m = line_with (\<lambda>x y. fb_put_pixel fb x y rgb) x0 y0 x1 y1 m"

definition draw_glyph :: "u8 list \<Rightarrow> (u32 \<Rightarrow> u32 \<Rightarrow> u32 \<Rightarrow> mem \<Rightarrow> mem) \<Rightarrow> u32 \<Rightarrow> u32 \<Rightarrow> u32 \<Rightarrow> u32 \<Rightarrow> mem \<Rightarrow> mem" where
  "draw_glyph g plot x y fg bg m =
     fold (\<lambda>row m.
        let bits = g ! row
        in fold (\<lambda>col m.
             let on = drop_bit (7 - col) bits AND 1 \<noteq> 0
             in plot (x + of_nat col) (y + of_nat row) (if on then fg else bg) m) [0..<8] m) [0..<8] m"

definition fb_draw_char :: "fb_info option \<Rightarrow> u32 \<Rightarrow> u32 \<Rightarrow> u8 \<Rightarrow> u32 \<Rightarrow> u32 \<Rightarrow> mem \<Rightarrow> mem" where
  "fb_draw_char fb x y c fg bg m = draw_glyph (font8x8_glyph c) (fb_put_pixel fb) x y fg bg m"

text \<open>A string is the list of its bytes; drawing stops at the NUL.\<close>

fun draw_chars :: "(u32 \<Rightarrow> u32 \<Rightarrow> u8 \<Rightarrow> mem \<Rightarrow> mem) \<Rightarrow> u32 \<Rightarrow> u32 \<Rightarrow> u32 \<Rightarrow> u8 list \<Rightarrow> mem \<Rightarrow> mem" where
  "draw_chars draw x cx cy [] m = m"
| "draw_chars draw x cx cy (c # s) m =
     (if c = 0 then m
      else if c = 10 then draw_chars draw x x (cy + 8) s m
      else draw_chars draw x (cx + 8) cy s (draw cx cy c m))"

definition fb_draw_string :: "fb_info option \<Rightarrow> u32 \<Rightarrow> u32 \<Rightarrow> u8 list \<Rightarrow> u32 \<Rightarrow> u32 \<Rightarrow> mem \<Rightarrow> mem" where
  "fb_draw_string fb x y s fg bg m = draw_chars (\<lambda>cx cy c. fb_draw_char fb cx cy c fg bg) x x y s m"

section \<open>aarch64\<close>

record fb_state =
  fbs_present :: bool
  fbs_addr :: physaddr
  fbs_pitch :: u32
  fbs_width :: u32
  fbs_height :: u32

definition fb_available_a64 :: "fb_state \<Rightarrow> bool" where "fb_available_a64 fb = fbs_present fb"
definition fb_width_a64 :: "fb_state \<Rightarrow> u32" where "fb_width_a64 fb = fbs_width fb"
definition fb_height_a64 :: "fb_state \<Rightarrow> u32" where "fb_height_a64 fb = fbs_height fb"

definition fb_put_pixel_a64 :: "fb_state \<Rightarrow> u32 \<Rightarrow> u32 \<Rightarrow> u32 \<Rightarrow> mem \<Rightarrow> mem" where
  "fb_put_pixel_a64 fb x y rgb m =
     (if \<not> fbs_present fb \<or> x \<ge> fbs_width fb \<or> y \<ge> fbs_height fb then m
      else
        let row = fbs_addr fb + ucast y * ucast (fbs_pitch fb)
        in store32 (row + ucast x * 4) (rgb AND 0x00FFFFFF) m)"

definition fb_fill_rect_a64 :: "fb_state \<Rightarrow> u32 \<Rightarrow> u32 \<Rightarrow> u32 \<Rightarrow> u32 \<Rightarrow> u32 \<Rightarrow> mem \<Rightarrow> mem" where
  "fb_fill_rect_a64 fb x y w h rgb m =
     (if \<not> fbs_present fb then m
      else
        let x1 = x + w; y1 = y + h;
            x1 = (if x1 > fbs_width fb then fbs_width fb else x1);
            y1 = (if y1 > fbs_height fb then fbs_height fb else y1)
        in if x \<ge> x1 \<or> y \<ge> y1 then m
           else
             let color = rgb AND 0x00FFFFFF
             in fold (\<lambda>row m. fill_row (unat x1 - unat x) (fbs_addr fb + of_nat row * ucast (fbs_pitch fb) + ucast x * 4) color m)
                  [unat y..<unat y1] m)"

definition fb_clear_a64 :: "fb_state \<Rightarrow> u32 \<Rightarrow> mem \<Rightarrow> mem" where
  "fb_clear_a64 fb rgb m = (if \<not> fbs_present fb then m else fb_fill_rect_a64 fb 0 0 (fbs_width fb) (fbs_height fb) rgb m)"

definition fb_draw_line_a64 :: "fb_state \<Rightarrow> int \<Rightarrow> int \<Rightarrow> int \<Rightarrow> int \<Rightarrow> u32 \<Rightarrow> mem \<Rightarrow> mem option" where
  "fb_draw_line_a64 fb x0 y0 x1 y1 rgb m = line_with (\<lambda>x y. fb_put_pixel_a64 fb x y rgb) x0 y0 x1 y1 m"

definition fb_draw_char_a64 :: "fb_state \<Rightarrow> u32 \<Rightarrow> u32 \<Rightarrow> u8 \<Rightarrow> u32 \<Rightarrow> u32 \<Rightarrow> mem \<Rightarrow> mem" where
  "fb_draw_char_a64 fb x y c fg bg m = draw_glyph (font8x8_glyph_a64 c) (fb_put_pixel_a64 fb) x y fg bg m"

definition fb_draw_string_a64 :: "fb_state \<Rightarrow> u32 \<Rightarrow> u32 \<Rightarrow> u8 list \<Rightarrow> u32 \<Rightarrow> u32 \<Rightarrow> mem \<Rightarrow> mem" where
  "fb_draw_string_a64 fb x y s fg bg m = draw_chars (\<lambda>cx cy c. fb_draw_char_a64 fb cx cy c fg bg) x x y s m"

section \<open>Rectangles\<close>

text \<open>The reference for \<open>fb_fill_rect\<close>: one bounds-checked \<open>fb_put_pixel\<close> per pixel of the rectangle.\<close>

definition fill_pixels :: "fb_info option \<Rightarrow> nat \<Rightarrow> nat \<Rightarrow> nat \<Rightarrow> nat \<Rightarrow> u32 \<Rightarrow> mem \<Rightarrow> mem" where
  "fill_pixels fb x y w h rgb =
     fold (\<lambda>row. fold (\<lambda>col. fb_put_pixel fb (of_nat col) (of_nat row) rgb) [x..<x + w]) [y..<y + h]"

lemma fill_row_pixels:
  assumes "fb_present f" "unat y < unat (fb_h f)" "x + n \<le> unat (fb_w f)"
  shows "fill_row n (fb_addr f + ucast y * ucast (fb_pitch f) + of_nat x * 4) (rgb AND 0x00FFFFFF) m
    = fold (\<lambda>col. fb_put_pixel (Some f) (of_nat col) y rgb) [x..<x + n] m"
  using assms(3)
proof (induction n arbitrary: x m)
  case (Suc n)
  have u: "unat (of_nat x :: u32) = x" using Suc.prems u32_lt [of "fb_w f"] by (simp add: unat_of_nat_eq)
  then have c: "(ucast (of_nat x :: u32) :: u64) = of_nat x" using of_nat_unat [of "of_nat x :: u32"] by metis
  let ?b = "fb_addr f + ucast y * ucast (fb_pitch f)"
  have "fb_put_pixel (Some f) (of_nat x) y rgb m = store32 (?b + of_nat x * 4) (rgb AND 0x00FFFFFF) m"
    using assms(1,2) Suc.prems u c by (simp add: fb_put_pixel_def Let_def word_le_nat_alt)
  moreover have nxt: "?b + of_nat x * 4 + 4 = ?b + of_nat (Suc x) * 4" by simp
  moreover have "x < x + Suc n" by simp
  ultimately show ?case
    unfolding fill_row.simps nxt using Suc.IH [of "Suc x"] Suc.prems
    by (simp add: upt_conv_Cons del: upt_Suc of_nat_Suc)
qed simp

lemma fold_id: "(\<And>x m. x \<in> set xs \<Longrightarrow> g x m = m) \<Longrightarrow> fold g xs m = m"
  by (induction xs arbitrary: m) simp_all

lemma fold_clip:
  assumes "\<And>i m. k \<le> i \<Longrightarrow> i < b \<Longrightarrow> g i m = m" "a \<le> k"
  shows "fold g [a..<b] m = fold g [a..<min b k] m"
proof (cases "b \<le> k")
  case False
  then have "[a..<b] = [a..<k] @ [k..<b]" using assms(2) upt_add_eq_append [of a k "b - k"] by simp
  moreover have "fold g [k..<b] m' = m'" for m' by (rule fold_id) (use assms(1) in auto)
  ultimately show ?thesis using False by (simp add: min_def)
qed simp

lemma put_pixel_outside:
  assumes "unat (fb_w f) \<le> unat x \<or> unat (fb_h f) \<le> unat y"
  shows "fb_put_pixel (Some f) x y rgb m = m"
  using assms by (auto simp: fb_put_pixel_def word_le_nat_alt)

lemma fill_row_naive:
  assumes "fb_present f" "unat y < unat (fb_h f)" "unat x + n < 2 ^ 32" "unat x < unat (fb_w f)"
  shows "fill_row (min (unat x + n) (unat (fb_w f)) - unat x) (fb_addr f + ucast y * ucast (fb_pitch f) + ucast x * 4) (rgb AND 0x00FFFFFF) m
    = fold (\<lambda>col. fb_put_pixel (Some f) (of_nat col) y rgb) [unat x..<unat x + n] m"
proof -
  let ?k = "min (unat x + n) (unat (fb_w f)) - unat x"
  have "fold (\<lambda>col. fb_put_pixel (Some f) (of_nat col) y rgb) [unat x..<unat x + n] m
      = fold (\<lambda>col. fb_put_pixel (Some f) (of_nat col) y rgb) [unat x..<min (unat x + n) (unat (fb_w f))] m"
    using assms(3,4) by (intro fold_clip put_pixel_outside) (simp_all add: unat_of_nat_eq)
  moreover have "unat x + ?k = min (unat x + n) (unat (fb_w f))" using assms(4) by simp
  moreover have "fill_row ?k (fb_addr f + ucast y * ucast (fb_pitch f) + of_nat (unat x) * 4) (rgb AND 0x00FFFFFF) m
      = fold (\<lambda>col. fb_put_pixel (Some f) (of_nat col) y rgb) [unat x..<unat x + ?k] m"
    using assms(1,2,4) by (intro fill_row_pixels) simp_all
  ultimately show ?thesis by (simp del: of_nat_add)
qed

lemma fill_rect_clipped:
  assumes "fb_present f" "unat x + unat w < 2 ^ 32" "unat y + unat h < 2 ^ 32" "unat x < unat (fb_w f)" "unat y < unat (fb_h f)" "w \<noteq> 0" "h \<noteq> 0"
  shows "fb_fill_rect (Some f) x y w h rgb m =
    fold (\<lambda>row. fill_row (min (unat x + unat w) (unat (fb_w f)) - unat x) (fb_addr f + of_nat row * ucast (fb_pitch f) + ucast x * 4) (rgb AND 0x00FFFFFF))
      [unat y..<min (unat y + unat h) (unat (fb_h f))] m"
proof -
  have u: "unat (x + w) = unat x + unat w" "unat (y + h) = unat y + unat h" using assms(2,3) by (simp_all add: unat_plus_simple)
  have p: "0 < unat w" "0 < unat h" using assms(6,7) by (simp_all add: unat_gt_0)
  define x1 where "x1 = (if x + w > fb_w f then fb_w f else x + w)"
  define y1 where "y1 = (if y + h > fb_h f then fb_h f else y + h)"
  have "unat x1 = min (unat x + unat w) (unat (fb_w f))" "unat y1 = min (unat y + unat h) (unat (fb_h f))"
    using u by (simp_all add: x1_def y1_def word_less_nat_alt min_def)
  moreover from this have "\<not> x \<ge> x1" "\<not> y \<ge> y1" using assms(4,5) p by (simp_all add: word_le_nat_alt)
  ultimately show ?thesis using assms(1)
    by (simp add: fb_fill_rect_def x1_def [symmetric] y1_def [symmetric] Let_def)
qed

lemma fill_rect_empty:
  assumes "2 ^ 32 \<le> unat x + unat w \<or> 2 ^ 32 \<le> unat y + unat h \<or> unat (fb_w f) \<le> unat x \<or> unat (fb_h f) \<le> unat y \<or> w = 0 \<or> h = 0"
  shows "fb_fill_rect (Some f) x y w h rgb m = m"
proof -
  have wrap: "unat (a + b) < unat a" if "2 ^ 32 \<le> unat a + unat b" for a b :: u32
  proof -
    have "unat (a + b) = unat a + unat b - 2 ^ 32"
      using that u32_lt [of a] u32_lt [of b] by (simp add: unat_word_ariths le_mod_geq)
    then show ?thesis using that u32_lt [of b] by simp
  qed
  have "x \<ge> (if x + w > fb_w f then fb_w f else x + w) \<or> y \<ge> (if y + h > fb_h f then fb_h f else y + h)"
    using assms wrap [of x w] wrap [of y h] by (auto simp: word_le_nat_alt word_less_nat_alt)
  then show ?thesis by (simp add: fb_fill_rect_def Let_def)
qed

lemma fill_rect_pixels:
  "fb_fill_rect fb x y w h rgb m =
     (if unat x + unat w < 2 ^ 32 \<and> unat y + unat h < 2 ^ 32
      then fill_pixels fb (unat x) (unat y) (unat w) (unat h) rgb m else m)"
proof (cases fb)
  case None
  have "fold g xs m = m" if "\<And>x m. g x m = m" for g and xs :: "nat list" and m :: mem using that by (intro fold_id) simp
  then show ?thesis using None by (simp add: fb_fill_rect_def fill_pixels_def fb_put_pixel_def)
next
  case (Some f)
  have off: "fill_pixels fb (unat x) (unat y) (unat w) (unat h) rgb m = m"
    if "\<not> fb_present f \<or> unat (fb_w f) \<le> unat x \<or> unat (fb_h f) \<le> unat y \<or> w = 0 \<or> h = 0"
      "unat x + unat w < 2 ^ 32" "unat y + unat h < 2 ^ 32"
    unfolding fill_pixels_def Some
    by (intro fold_id, use that in \<open>auto simp: fb_put_pixel_def word_le_nat_alt unat_of_nat_eq intro!: fold_id\<close>)
  show ?thesis
  proof (cases "fb_present f \<and> unat x + unat w < 2 ^ 32 \<and> unat y + unat h < 2 ^ 32 \<and> unat x < unat (fb_w f)
      \<and> unat y < unat (fb_h f) \<and> w \<noteq> 0 \<and> h \<noteq> 0")
    case True
    let ?row = "\<lambda>row. fold (\<lambda>col. fb_put_pixel (Some f) (of_nat col) (of_nat row) rgb) [unat x..<unat x + unat w]"
    have "fill_pixels (Some f) (unat x) (unat y) (unat w) (unat h) rgb m = fold ?row [unat y..<min (unat y + unat h) (unat (fb_h f))] m"
      unfolding fill_pixels_def
      by (intro fold_clip fold_id put_pixel_outside) (use True in \<open>simp_all add: unat_of_nat_eq\<close>)
    also have "\<dots> = fb_fill_rect (Some f) x y w h rgb m"
    proof -
      have "?row row m = fill_row (min (unat x + unat w) (unat (fb_w f)) - unat x) (fb_addr f + of_nat row * ucast (fb_pitch f) + ucast x * 4) (rgb AND 0x00FFFFFF) m"
        if "row \<in> set [unat y..<min (unat y + unat h) (unat (fb_h f))]" for row m
      proof -
        have u: "unat (of_nat row :: u32) = row" using that True by (simp add: unat_of_nat_eq)
        then have c: "(ucast (of_nat row :: u32) :: u64) = of_nat row" using of_nat_unat [of "of_nat row :: u32"] by metis
        show ?thesis using fill_row_naive [of f "of_nat row" x "unat w" rgb m] True that u c by simp
      qed
      then have "fold ?row [unat y..<min (unat y + unat h) (unat (fb_h f))] m =
          fold (\<lambda>row. fill_row (min (unat x + unat w) (unat (fb_w f)) - unat x) (fb_addr f + of_nat row * ucast (fb_pitch f) + ucast x * 4) (rgb AND 0x00FFFFFF))
            [unat y..<min (unat y + unat h) (unat (fb_h f))] m"
        by (intro fold_cong) auto
      then show ?thesis using fill_rect_clipped [of f x w y h rgb m] True by simp
    qed
    finally show ?thesis using True Some by simp
  next
    case False
    moreover have "\<not> fb_present f \<Longrightarrow> fb_fill_rect (Some f) x y w h rgb m = m" by (simp add: fb_fill_rect_def)
    ultimately show ?thesis using off fill_rect_empty [of x w y h f rgb m] Some by auto
  qed
qed

section \<open>Lines\<close>

text \<open>One step of the line algorithm, seen from the longer axis: \<open>p\<close> and \<open>q\<close> are the lengths of the longer
  and the shorter side, \<open>i\<close> and \<open>j\<close> the steps taken along them, and twice the distance from the ideal
  line stays at most \<open>p\<close>.\<close>

definition near_line :: "int \<Rightarrow> int \<Rightarrow> int \<Rightarrow> int \<Rightarrow> bool" where
  "near_line p q i j \<longleftrightarrow> 0 \<le> i \<and> i \<le> p \<and> 0 \<le> j \<and> j \<le> q \<and> 2 * \<bar>j * p - i * q\<bar> \<le> p"

lemma abs_twice: "2 * \<bar>g :: int\<bar> \<le> p \<longleftrightarrow> 2 * g \<le> p \<and> - p \<le> 2 * g"
  by arith

lemma near_lineD:
  assumes "near_line p q i j"
  shows "0 \<le> i" "i \<le> p" "0 \<le> j" "j \<le> q" "2 * (j * p - i * q) \<le> p" "- p \<le> 2 * (j * p - i * q)"
  using assms unfolding near_line_def abs_twice by blast+

lemma near_lineI:
  assumes "0 \<le> i" "i \<le> p" "0 \<le> j" "j \<le> q" "2 * (j * p - i * q) \<le> p" "- p \<le> 2 * (j * p - i * q)"
  shows "near_line p q i j"
  unfolding near_line_def abs_twice using assms by blast

lemma near_line_step:
  assumes "near_line p q i j" "q \<le> p" "\<not> (i = p \<and> j = q)"
  shows "i < p" "q - 2 * p \<le> 2 * (j * p - i * q)"
    "2 * (j * p - i * q) \<le> 2 * q - p \<Longrightarrow> near_line p q (i + 1) (j + 1)"
    "\<not> 2 * (j * p - i * q) \<le> 2 * q - p \<Longrightarrow> near_line p q (i + 1) j"
proof -
  let ?G = "j * p - i * q"
  have r: "0 \<le> i" "i \<le> p" "0 \<le> j" "j \<le> q" and g: "2 * ?G \<le> p" "- p \<le> 2 * ?G"
    using near_lineD [OF assms(1)] by simp_all
  show lt: "i < p"
  proof (rule ccontr)
    assume "\<not> i < p"
    then have i: "i = p" using r by simp
    then have "0 < q - j" using assms(3) r by auto
    moreover have "2 * ((q - j) * p) \<le> p" using g(2) i by (simp add: algebra_simps)
    moreover have "0 < p" using \<open>0 < q - j\<close> r assms(2) by simp
    ultimately show False using mult_right_mono [of 1 "q - j" p] by simp
  qed
  show "q - 2 * p \<le> 2 * ?G" using g assms(2) by linarith
  have e: "(j + 1) * p - (i + 1) * q = ?G + p - q" "j * p - (i + 1) * q = ?G - q" by (simp_all add: algebra_simps)
  show "near_line p q (i + 1) (j + 1)" if c: "2 * ?G \<le> 2 * q - p"
  proof -
    have b: "2 * ((j + 1) * p - (i + 1) * q) \<le> p" "- p \<le> 2 * ((j + 1) * p - (i + 1) * q)"
      unfolding e using g c assms(2) by simp_all
    have "j + 1 \<le> q"
    proof (rule ccontr)
      assume "\<not> j + 1 \<le> q"
      then have j: "j = q" using r by simp
      have "(i + 1) * q \<le> p * q" using lt r by (intro mult_right_mono) simp_all
      then have "2 * ((q + 1) * p - p * q) \<le> p" using b(1) unfolding j by (simp add: algebra_simps)
      then show False using lt r by (simp add: algebra_simps)
    qed
    then show ?thesis using b r lt by (intro near_lineI) simp_all
  qed
  show "near_line p q (i + 1) j" if c: "\<not> 2 * ?G \<le> 2 * q - p"
    using r lt g c by (intro near_lineI) (simp_all add: algebra_simps)
qed

definition adjacent :: "int \<times> int \<Rightarrow> int \<times> int \<Rightarrow> bool" where
  "adjacent p q \<longleftrightarrow> \<bar>fst q - fst p\<bar> \<le> 1 \<and> \<bar>snd q - snd p\<bar> \<le> 1"

definition plot_all :: "(u32 \<Rightarrow> u32 \<Rightarrow> mem \<Rightarrow> mem) \<Rightarrow> (int \<times> int) list \<Rightarrow> mem \<Rightarrow> mem" where
  "plot_all plot = fold (\<lambda>(x, y). plot (of_int x) (of_int y))"

lemma i32_val_ok: "- (2 ^ 31) \<le> v \<Longrightarrow> v < 2 ^ 31 \<Longrightarrow> i32_val v = Some v"
  by (simp add: i32_val_def)

text \<open>What the loop does from a point of the line with \<open>n\<close> steps to go.\<close>

definition line_run :: "(u32 \<Rightarrow> u32 \<Rightarrow> mem \<Rightarrow> mem) \<Rightarrow> (int \<times> int \<Rightarrow> bool) \<Rightarrow> nat \<Rightarrow> int \<times> int \<Rightarrow> int \<times> int \<Rightarrow> mem \<Rightarrow> mem option \<Rightarrow> bool" where
  "line_run plot good n from to m r \<longleftrightarrow>
     (\<exists>pts. r = Some (plot_all plot pts m) \<and> length pts = Suc n \<and> hd pts = from \<and> last pts = to
        \<and> successively adjacent pts \<and> (\<forall>p \<in> set pts. good p))"

lemma line_run_Cons:
  assumes "line_run plot good n q to (plot (of_int x) (of_int y) m) r" "adjacent (x, y) q" "good (x, y)"
  shows "line_run plot good (Suc n) (x, y) to m r"
proof -
  obtain pts where p: "r = Some (plot_all plot pts (plot (of_int x) (of_int y) m))" "length pts = Suc n" "hd pts = q" "last pts = to"
    "successively adjacent pts" "\<forall>p \<in> set pts. good p" using assms(1) by (auto simp: line_run_def)
  then have "pts \<noteq> []" by auto
  then show ?thesis unfolding line_run_def using p assms(2,3)
    by (intro exI [of _ "(x, y) # pts"]) (auto simp: plot_all_def successively_Cons)
qed

lemma line_run_end: "good p \<Longrightarrow> line_run plot good 0 p p m (Some (plot (of_int (fst p)) (of_int (snd p)) m))"
  unfolding line_run_def by (intro exI [of _ "[p]"]) (auto simp: plot_all_def split_def)

text \<open>The longer side is horizontal.\<close>

lemma line_shallow:
  assumes side: "D \<le> dx" "dx < 2 ^ 29" and s: "sx \<in> {1, - 1}" "sy \<in> {1, - 1 :: int}"
    and box: "\<bar>xs\<bar> < 2 ^ 29" "\<bar>ys\<bar> < 2 ^ 29" and fin: "x1 = xs + sx * dx" "y1 = ys + sy * D"
    and inv: "near_line dx D a b" "n = nat (dx - a)" "x = xs + sx * a" "y = ys + sy * b" "err = b * dx - a * D + dx - D"
  shows "line_run plot (\<lambda>p. \<exists>a b. near_line dx D a b \<and> p = (xs + sx * a, ys + sy * b)) n (x, y) (x1, y1) m
    (line_loop plot x1 y1 dx (- D) sx sy x y err m)"
  using inv
proof (induction n arbitrary: a b x y err m)
  case 0
  have "a = dx \<and> b = D" using near_line_step(1) [OF "0.prems"(1) side(1)] "0.prems"(2) by fastforce
  then have xy: "x = x1" "y = y1" using "0.prems" fin by simp_all
  have "line_loop plot x1 y1 dx (- D) sx sy x y err m = Some (plot (of_int x) (of_int y) m)"
    using xy by (subst line_loop.simps) (simp add: Let_def)
  moreover have "\<exists>a b. near_line dx D a b \<and> (x, y) = (xs + sx * a, ys + sy * b)" using "0.prems" by blast
  ultimately show ?case using xy line_run_end [of _ "(x, y)"] by simp
next
  case (Suc n)
  have lt: "a < dx" using Suc.prems(2) by simp
  then have ne: "\<not> (a = dx \<and> b = D)" "x \<noteq> x1" using Suc.prems(3) fin(1) s(1) by auto
  note st = near_line_step [OF Suc.prems(1) side(1) ne(1)]
  have r: "0 \<le> a" "a \<le> dx" "0 \<le> b" "b \<le> D" and g: "2 * (b * dx - a * D) \<le> dx" "- dx \<le> 2 * (b * dx - a * D)"
    using near_lineD [OF Suc.prems(1)] by simp_all
  have e2: "i32_val (2 * err) = Some (2 * err)" and ex: "i32_val (err + - D) = Some (err + - D)"
    and ey: "i32_val (err + - D + dx) = Some (err + - D + dx)"
    unfolding Suc.prems(5) using g side r by (auto intro!: i32_val_ok)
  have xv: "i32_val (x + sx) = Some (x + sx)" and yv: "b < D \<Longrightarrow> i32_val (y + sy) = Some (y + sy)"
    unfolding Suc.prems(3,4) using s r lt side box by (auto intro!: i32_val_ok)
  have cx: "- D \<le> 2 * err" using st(2) unfolding Suc.prems(5) by simp
  have cy: "2 * err \<le> dx \<longleftrightarrow> 2 * (b * dx - a * D) \<le> 2 * D - dx" unfolding Suc.prems(5) by auto
  have nx: "x + sx = xs + sx * (a + 1)" "n = nat (dx - (a + 1))" using Suc.prems(2,3) lt by (simp_all add: algebra_simps)
  have good: "\<exists>a b. near_line dx D a b \<and> (x, y) = (xs + sx * a, ys + sy * b)" using Suc.prems by blast
  show ?case
  proof (cases "2 * err \<le> dx")
    case True
    note nl = st(3) [OF True [unfolded cy]]
    have yb: "b < D" using near_lineD(4) [OF nl] by simp
    have L: "line_loop plot x1 y1 dx (- D) sx sy x y err m =
        line_loop plot x1 y1 dx (- D) sx sy (x + sx) (y + sy) (err + - D + dx) (plot (of_int x) (of_int y) m)"
      using ne(2) e2 ex ey xv yv [OF yb] cx True by (subst line_loop.simps) (simp add: Let_def)
    have ny: "y + sy = ys + sy * (b + 1)" and nerr: "err + - D + dx = (b + 1) * dx - (a + 1) * D + dx - D"
      using Suc.prems(4,5) by (simp_all add: algebra_simps)
    have adj: "adjacent (x, y) (x + sx, y + sy)" using s by (auto simp: adjacent_def)
    show ?thesis unfolding L by (rule line_run_Cons [OF Suc.IH [OF nl nx(2,1) ny nerr] adj good])
  next
    case False
    note nl = st(4) [OF False [unfolded cy]]
    have L: "line_loop plot x1 y1 dx (- D) sx sy x y err m =
        line_loop plot x1 y1 dx (- D) sx sy (x + sx) y (err + - D) (plot (of_int x) (of_int y) m)"
      using ne(2) e2 ex xv cx False by (subst line_loop.simps) (simp add: Let_def)
    have nerr: "err + - D = b * dx - (a + 1) * D + dx - D" using Suc.prems(5) by (simp add: algebra_simps)
    have adj: "adjacent (x, y) (x + sx, y)" using s by (auto simp: adjacent_def)
    show ?thesis unfolding L by (rule line_run_Cons [OF Suc.IH [OF nl nx(2,1) Suc.prems(4) nerr] adj good])
  qed
qed

text \<open>The longer side is vertical.\<close>

lemma line_steep:
  assumes side: "dx \<le> D" "D < 2 ^ 29" and s: "sx \<in> {1, - 1}" "sy \<in> {1, - 1 :: int}"
    and box: "\<bar>xs\<bar> < 2 ^ 29" "\<bar>ys\<bar> < 2 ^ 29" and fin: "x1 = xs + sx * dx" "y1 = ys + sy * D"
    and inv: "near_line D dx b a" "n = nat (D - b)" "x = xs + sx * a" "y = ys + sy * b" "err = b * dx - a * D + dx - D"
  shows "line_run plot (\<lambda>p. \<exists>a b. near_line D dx b a \<and> p = (xs + sx * a, ys + sy * b)) n (x, y) (x1, y1) m
    (line_loop plot x1 y1 dx (- D) sx sy x y err m)"
  using inv
proof (induction n arbitrary: a b x y err m)
  case 0
  have "b = D \<and> a = dx" using near_line_step(1) [OF "0.prems"(1) side(1)] "0.prems"(2) by fastforce
  then have xy: "x = x1" "y = y1" using "0.prems" fin by simp_all
  have "line_loop plot x1 y1 dx (- D) sx sy x y err m = Some (plot (of_int x) (of_int y) m)"
    using xy by (subst line_loop.simps) (simp add: Let_def)
  moreover have "\<exists>a b. near_line D dx b a \<and> (x, y) = (xs + sx * a, ys + sy * b)" using "0.prems" by blast
  ultimately show ?case using xy line_run_end [of _ "(x, y)"] by simp
next
  case (Suc n)
  have lt: "b < D" using Suc.prems(2) by simp
  then have ne: "\<not> (b = D \<and> a = dx)" "y \<noteq> y1" using Suc.prems(4) fin(2) s(2) by auto
  note st = near_line_step [OF Suc.prems(1) side(1) ne(1)]
  have r: "0 \<le> a" "a \<le> dx" "0 \<le> b" "b \<le> D" and g: "2 * (a * D - b * dx) \<le> D" "- D \<le> 2 * (a * D - b * dx)"
    using near_lineD [OF Suc.prems(1)] by simp_all
  have e2: "i32_val (2 * err) = Some (2 * err)" and ex: "i32_val (err + - D) = Some (err + - D)"
    and ey: "i32_val (err + - D + dx) = Some (err + - D + dx)" and ez: "i32_val (err + dx) = Some (err + dx)"
    unfolding Suc.prems(5) using g side r by (auto intro!: i32_val_ok)
  have yv: "i32_val (y + sy) = Some (y + sy)" and xv: "a < dx \<Longrightarrow> i32_val (x + sx) = Some (x + sx)"
    unfolding Suc.prems(3,4) using s r lt side box by (auto intro!: i32_val_ok)
  have cy: "2 * err \<le> dx" using st(2) unfolding Suc.prems(5) by simp
  have cx: "- D \<le> 2 * err \<longleftrightarrow> 2 * (a * D - b * dx) \<le> 2 * dx - D" unfolding Suc.prems(5) by auto
  have ny: "y + sy = ys + sy * (b + 1)" "n = nat (D - (b + 1))" using Suc.prems(2,4) lt by (simp_all add: algebra_simps)
  have good: "\<exists>a b. near_line D dx b a \<and> (x, y) = (xs + sx * a, ys + sy * b)" using Suc.prems by blast
  show ?case
  proof (cases "- D \<le> 2 * err")
    case True
    note nl = st(3) [OF True [unfolded cx]]
    have xb: "a < dx" using near_lineD(4) [OF nl] by simp
    have L: "line_loop plot x1 y1 dx (- D) sx sy x y err m =
        line_loop plot x1 y1 dx (- D) sx sy (x + sx) (y + sy) (err + - D + dx) (plot (of_int x) (of_int y) m)"
      using ne(2) e2 ex ey yv xv [OF xb] cy True by (subst line_loop.simps) (simp add: Let_def)
    have nx: "x + sx = xs + sx * (a + 1)" and nerr: "err + - D + dx = (b + 1) * dx - (a + 1) * D + dx - D"
      using Suc.prems(3,5) by (simp_all add: algebra_simps)
    have adj: "adjacent (x, y) (x + sx, y + sy)" using s by (auto simp: adjacent_def)
    show ?thesis unfolding L by (rule line_run_Cons [OF Suc.IH [OF nl ny(2) nx ny(1) nerr] adj good])
  next
    case False
    note nl = st(4) [OF False [unfolded cx]]
    have L: "line_loop plot x1 y1 dx (- D) sx sy x y err m =
        line_loop plot x1 y1 dx (- D) sx sy x (y + sy) (err + dx) (plot (of_int x) (of_int y) m)"
      using ne(2) e2 ez yv cy False by (subst line_loop.simps) (simp add: Let_def)
    have nerr: "err + dx = (b + 1) * dx - a * D + dx - D" using Suc.prems(5) by (simp add: algebra_simps)
    have adj: "adjacent (x, y) (x, y + sy)" using s by (auto simp: adjacent_def)
    show ?thesis unfolding L by (rule line_run_Cons [OF Suc.IH [OF nl ny(2) Suc.prems(3) ny(1) nerr] adj good])
  qed
qed

text \<open>A point is on the drawn line when it lies in the bounding box of the end points and within half
  a pixel of the ideal line, measured along the shorter axis.\<close>

definition on_line :: "int \<Rightarrow> int \<Rightarrow> int \<Rightarrow> int \<Rightarrow> int \<times> int \<Rightarrow> bool" where
  "on_line x0 y0 x1 y1 p \<longleftrightarrow>
     fst p \<in> {min x0 x1..max x0 x1} \<and> snd p \<in> {min y0 y1..max y0 y1}
     \<and> 2 * \<bar>(snd p - y0) * (x1 - x0) - (fst p - x0) * (y1 - y0)\<bar> \<le> max \<bar>x1 - x0\<bar> \<bar>y1 - y0\<bar>"

lemma line_run_mono: "line_run plot P n a b m r \<Longrightarrow> (\<And>p. P p \<Longrightarrow> Q p) \<Longrightarrow> line_run plot Q n a b m r"
  unfolding line_run_def by blast

lemma on_line_steps:
  assumes s: "sx \<in> {1, - 1}" "sy \<in> {1, - 1}" and fin: "x1 = x0 + sx * dx" "y1 = y0 + sy * D"
    and r: "0 \<le> a" "a \<le> dx" "0 \<le> b" "b \<le> D" "2 * \<bar>b * dx - a * D\<bar> \<le> max dx D"
  shows "on_line x0 y0 x1 y1 (x0 + sx * a, y0 + sy * b)"
proof -
  have "x1 - x0 = sx * dx" "y1 - y0 = sy * D" using fin by simp_all
  then have "(y0 + sy * b - y0) * (x1 - x0) - (x0 + sx * a - x0) * (y1 - y0) = sx * sy * (b * dx - a * D)"
    by (simp add: algebra_simps)
  moreover have "\<bar>sx * sy\<bar> = 1" "\<bar>x1 - x0\<bar> = dx" "\<bar>y1 - y0\<bar> = D" using s fin r by auto
  moreover from this have "\<bar>sx * sy * (b * dx - a * D)\<bar> = \<bar>b * dx - a * D\<bar>" by (simp add: abs_mult)
  ultimately show ?thesis using s fin r unfolding on_line_def by auto
qed

lemma line_with_run:
  assumes "\<bar>x0\<bar> < 2 ^ 28" "\<bar>y0\<bar> < 2 ^ 28" "\<bar>x1\<bar> < 2 ^ 28" "\<bar>y1\<bar> < 2 ^ 28"
  shows "line_run plot (on_line x0 y0 x1 y1) (nat (max \<bar>x1 - x0\<bar> \<bar>y1 - y0\<bar>)) (x0, y0) (x1, y1) m (line_with plot x0 y0 x1 y1 m)"
proof -
  define dx where "dx = \<bar>x1 - x0\<bar>"
  define D where "D = \<bar>y1 - y0\<bar>"
  define sx :: int where "sx = (if x0 < x1 then 1 else - 1)"
  define sy :: int where "sy = (if y0 < y1 then 1 else - 1)"
  have fin: "x1 = x0 + sx * dx" "y1 = y0 + sy * D" and s: "sx \<in> {1, - 1}" "sy \<in> {1, - 1}"
    by (auto simp: sx_def sy_def dx_def D_def)
  have lt: "0 \<le> dx" "0 \<le> D" "dx < 2 ^ 29" "D < 2 ^ 29" using assms by (auto simp: dx_def D_def)
  have box: "\<bar>x0\<bar> < 2 ^ 29" "\<bar>y0\<bar> < 2 ^ 29" using assms by simp_all
  have start: "line_with plot x0 y0 x1 y1 m = line_loop plot x1 y1 dx (- D) sx sy x0 y0 (dx - D) m"
  proof -
    have "(if x1 > x0 then x1 - x0 else x0 - x1) = dx" "(if y1 > y0 then y0 - y1 else y1 - y0) = - D"
      by (simp_all add: dx_def D_def)
    moreover have "i32_val dx = Some dx" "i32_val (- D) = Some (- D)" "i32_val (dx + - D) = Some (dx - D)"
      using lt by (simp_all add: i32_val_def)
    ultimately show ?thesis unfolding line_with_def sx_def sy_def by simp
  qed
  have max: "max \<bar>x1 - x0\<bar> \<bar>y1 - y0\<bar> = max dx D" by (simp add: dx_def D_def)
  show ?thesis
  proof (cases "D \<le> dx")
    case True
    have nl: "near_line dx D 0 0" using lt by (intro near_lineI) simp_all
    have "line_run plot (\<lambda>p. \<exists>a b. near_line dx D a b \<and> p = (x0 + sx * a, y0 + sy * b)) (nat dx) (x0, y0) (x1, y1) m
        (line_loop plot x1 y1 dx (- D) sx sy x0 y0 (dx - D) m)"
      by (rule line_shallow [OF True lt(3) s box fin nl]) simp_all
    then have "line_run plot (on_line x0 y0 x1 y1) (nat dx) (x0, y0) (x1, y1) m (line_with plot x0 y0 x1 y1 m)"
      unfolding start by (rule line_run_mono) (use True in \<open>auto simp: near_line_def intro!: on_line_steps [OF s fin]\<close>)
    then show ?thesis unfolding max using True by (simp add: max_def)
  next
    case False
    then have le: "dx \<le> D" by simp
    have nl: "near_line D dx 0 0" using lt by (intro near_lineI) simp_all
    have "line_run plot (\<lambda>p. \<exists>a b. near_line D dx b a \<and> p = (x0 + sx * a, y0 + sy * b)) (nat D) (x0, y0) (x1, y1) m
        (line_loop plot x1 y1 dx (- D) sx sy x0 y0 (dx - D) m)"
      by (rule line_steep [OF le lt(4) s box fin nl]) simp_all
    then have "line_run plot (on_line x0 y0 x1 y1) (nat D) (x0, y0) (x1, y1) m (line_with plot x0 y0 x1 y1 m)"
      unfolding start
      by (rule line_run_mono) (use le in \<open>auto simp: near_line_def abs_minus_commute intro!: on_line_steps [OF s fin]\<close>)
    then show ?thesis unfolding max using le by (simp add: max_def)
  qed
qed

section \<open>Where the drawing operations write\<close>

definition fb_ok :: "fb_info \<Rightarrow> bool" where
  "fb_ok f \<longleftrightarrow> 4 * unat (fb_w f) \<le> unat (fb_pitch f) \<and> unat (fb_addr f) + unat (fb_pitch f) * unat (fb_h f) \<le> 2 ^ 64"

definition fb_bytes :: "fb_info \<Rightarrow> u64 set" where
  "fb_bytes f = {a. unat (fb_addr f) \<le> unat a \<and> unat a < unat (fb_addr f) + unat (fb_pitch f) * unat (fb_h f)}"

text \<open>A memory transformer that writes only into the framebuffer.\<close>

definition paints :: "fb_info \<Rightarrow> (mem \<Rightarrow> mem) \<Rightarrow> bool" where
  "paints f g \<longleftrightarrow> (\<forall>m a. a \<notin> fb_bytes f \<longrightarrow> g m a = m a)"

lemma paints_id [simp]: "paints f (\<lambda>m. m)"
  by (simp add: paints_def)

lemma paints_fold: "(\<And>x. x \<in> set xs \<Longrightarrow> paints f (g x)) \<Longrightarrow> paints f (fold g xs)"
  by (induction xs) (simp_all add: paints_def)

lemma pixel_addr:
  fixes x y :: u32
  assumes "fb_ok f" "unat x < unat (fb_w f)" "unat y < unat (fb_h f)"
  shows "unat (fb_addr f + ucast y * ucast (fb_pitch f) + ucast x * 4) = unat (fb_addr f) + unat y * unat (fb_pitch f) + 4 * unat x"
    "unat (fb_addr f) + unat y * unat (fb_pitch f) + 4 * unat x + 4 \<le> unat (fb_addr f) + unat (fb_pitch f) * unat (fb_h f)"
proof -
  have c: "unat (ucast z :: u64) = unat z" for z :: u32
    using u32_lt [of z] by (simp add: unsigned_ucast_eq take_bit_nat_eq_self)
  have "unat (fb_pitch f) * Suc (unat y) \<le> unat (fb_pitch f) * unat (fb_h f)" using assms(3) by (intro mult_le_mono2) simp
  then have le: "unat y * unat (fb_pitch f) + 4 * unat x + 4 \<le> unat (fb_pitch f) * unat (fb_h f)"
    using assms(1,2) by (simp add: fb_ok_def algebra_simps)
  then show "unat (fb_addr f) + unat y * unat (fb_pitch f) + 4 * unat x + 4 \<le> unat (fb_addr f) + unat (fb_pitch f) * unat (fb_h f)"
    by simp
  then have lt: "unat (fb_addr f) + unat y * unat (fb_pitch f) + 4 * unat x < 2 ^ 64" using assms(1) by (simp add: fb_ok_def)
  then have 1: "unat (ucast y * ucast (fb_pitch f) :: u64) = unat y * unat (fb_pitch f)"
    using unat_times_simple [of "ucast y :: u64" "ucast (fb_pitch f)"] by (simp add: c)
  have 2: "unat (ucast x * 4 :: u64) = 4 * unat x" using lt unat_times_simple [of "ucast x :: u64" 4] by (simp add: c)
  have 3: "unat (fb_addr f + ucast y * ucast (fb_pitch f)) = unat (fb_addr f) + unat y * unat (fb_pitch f)"
    using lt 1 by (subst unat_plus_simple) simp_all
  show "unat (fb_addr f + ucast y * ucast (fb_pitch f) + ucast x * 4) = unat (fb_addr f) + unat y * unat (fb_pitch f) + 4 * unat x"
    using lt 2 3 by (subst unat_plus_simple) simp_all
qed

lemma paints_pixel:
  assumes "fb_ok f"
  shows "paints f (fb_put_pixel (Some f) x y rgb)"
  unfolding paints_def
proof (intro allI impI)
  fix m a assume out: "a \<notin> fb_bytes f"
  show "fb_put_pixel (Some f) x y rgb m a = m a"
  proof (cases "unat x < unat (fb_w f) \<and> unat y < unat (fb_h f) \<and> fb_present f")
    case True
    let ?p = "fb_addr f + ucast y * ucast (fb_pitch f) + ucast x * 4"
    note p = pixel_addr [OF assms, of x y]
    have "\<not> unat (a - ?p) < 4"
    proof
      assume d: "unat (a - ?p) < 4"
      have "unat a = unat ?p + unat (a - ?p)"
        using p True d assms unat_plus_simple [of ?p "a - ?p"] by (simp add: fb_ok_def)
      then show False using out p True d by (simp add: fb_bytes_def)
    qed
    then show ?thesis using True by (simp add: fb_put_pixel_def Let_def word_le_nat_alt store32_def store_bytes_def)
  next
    case False
    then show ?thesis using put_pixel_outside [of f x y rgb m] by (auto simp: fb_put_pixel_def not_less)
  qed
qed

lemma paints_rect:
  assumes "fb_ok f"
  shows "paints f (fb_fill_rect (Some f) x y w h rgb)"
proof -
  have "paints f (fill_pixels (Some f) a b c d rgb)" for a b c d
    unfolding fill_pixels_def by (intro paints_fold paints_pixel assms)
  then show ?thesis unfolding paints_def fill_rect_pixels by simp
qed

lemma paints_char:
  assumes "fb_ok f"
  shows "paints f (fb_draw_char (Some f) x y c fg bg)"
proof -
  have "fb_draw_char (Some f) x y c fg bg = fold (\<lambda>row. fold (\<lambda>col. fb_put_pixel (Some f) (x + of_nat col) (y + of_nat row)
      (if drop_bit (7 - col) (font8x8_glyph c ! row) AND 1 \<noteq> 0 then fg else bg)) [0..<8]) [0..<8]"
    unfolding fb_draw_char_def draw_glyph_def Let_def by (simp add: fun_eq_iff)
  then show ?thesis using paints_pixel [OF assms] by (simp only:) (intro paints_fold; simp)
qed

lemma paints_string:
  assumes "fb_ok f"
  shows "paints f (fb_draw_string (Some f) x y s fg bg)"
proof -
  have "draw_chars (\<lambda>cx cy c. fb_draw_char (Some f) cx cy c fg bg) x cx cy s m a = m a" if "a \<notin> fb_bytes f" for cx cy m a
    using that paints_char [OF assms, of _ _ _ fg bg]
    by (induction s arbitrary: cx cy m) (simp_all add: paints_def)
  then show ?thesis by (simp add: paints_def fb_draw_string_def)
qed

section \<open>The aarch64 driver as the x86_64 driver\<close>

lemma a64_draws:
  assumes "fbs_present g = fb_present f" "fbs_addr g = fb_addr f" "fbs_pitch g = fb_pitch f" "fbs_width g = fb_w f" "fbs_height g = fb_h f"
  shows "fb_put_pixel_a64 g = fb_put_pixel (Some f)" "fb_fill_rect_a64 g = fb_fill_rect (Some f)"
    "fb_draw_char_a64 g = fb_draw_char (Some f)" "fb_draw_line_a64 g = fb_draw_line (Some f)" "fb_draw_string_a64 g = fb_draw_string (Some f)"
proof -
  show p: "fb_put_pixel_a64 g = fb_put_pixel (Some f)"
    using assms by (simp add: fun_eq_iff fb_put_pixel_a64_def fb_put_pixel_def)
  show r: "fb_fill_rect_a64 g = fb_fill_rect (Some f)"
    using assms by (simp add: fun_eq_iff fb_fill_rect_a64_def fb_fill_rect_def Let_def)
  show c: "fb_draw_char_a64 g = fb_draw_char (Some f)"
    by (simp add: fun_eq_iff fb_draw_char_a64_def fb_draw_char_def p font_copies_agree)
  show "fb_draw_line_a64 g = fb_draw_line (Some f)" "fb_draw_string_a64 g = fb_draw_string (Some f)"
    by (simp_all add: fun_eq_iff fb_draw_line_a64_def fb_draw_line_def fb_draw_string_a64_def fb_draw_string_def p c)
qed

section \<open>Properties\<close>

text \<open>Filling a rectangle row by row after clipping once is the same as drawing its pixels one
  by one with the bounds-checked \<open>fb_put_pixel\<close>, for every rectangle whose right and bottom edges do not
  wrap around 32 bits. A rectangle that does wrap (one that starts left of or above the screen) is not
  clipped but dropped: nothing is drawn.\<close>

theorem fb_fill_rect_pixelwise:
  "fb_fill_rect fb x y w h rgb m =
     (if unat x + unat w < 2 ^ 32 \<and> unat y + unat h < 2 ^ 32
      then fill_pixels fb (unat x) (unat y) (unat w) (unat h) rgb m else m)"
  by (rule fill_rect_pixels)

text \<open>Property C35. Drawing never writes outside the framebuffer: for a mode whose rows hold their pixels,
  every byte that clearing, filling, text or a line changes lies in the \<open>pitch * height\<close> bytes at the
  framebuffer's address, whatever the coordinates, the string or the colours.\<close>

theorem fb_draws_in_bounds:
  assumes "fb_ok f" "a \<notin> fb_bytes f"
  shows "fb_put_pixel (Some f) x y rgb m a = m a \<and> fb_fill_rect (Some f) x y w h rgb m a = m a
     \<and> fb_clear (Some f) rgb m a = m a \<and> fb_draw_char (Some f) x y c fg bg m a = m a
     \<and> fb_draw_string (Some f) x y s fg bg m a = m a
     \<and> (\<bar>lx\<bar> < 2 ^ 28 \<and> \<bar>ly\<bar> < 2 ^ 28 \<and> \<bar>lx'\<bar> < 2 ^ 28 \<and> \<bar>ly'\<bar> < 2 ^ 28 \<longrightarrow>
          (\<exists>m'. fb_draw_line (Some f) lx ly lx' ly' rgb m = Some m' \<and> m' a = m a))"
proof -
  have "\<exists>m'. fb_draw_line (Some f) lx ly lx' ly' rgb m = Some m' \<and> m' a = m a"
    if "\<bar>lx\<bar> < 2 ^ 28 \<and> \<bar>ly\<bar> < 2 ^ 28 \<and> \<bar>lx'\<bar> < 2 ^ 28 \<and> \<bar>ly'\<bar> < 2 ^ 28"
  proof -
    have "line_run (\<lambda>x y. fb_put_pixel (Some f) x y rgb) (on_line lx ly lx' ly') (nat (max \<bar>lx' - lx\<bar> \<bar>ly' - ly\<bar>)) (lx, ly) (lx', ly') m
        (fb_draw_line (Some f) lx ly lx' ly' rgb m)"
      unfolding fb_draw_line_def using that by (intro line_with_run) simp_all
    then obtain pts where "fb_draw_line (Some f) lx ly lx' ly' rgb m = Some (plot_all (\<lambda>x y. fb_put_pixel (Some f) x y rgb) pts m)"
      unfolding line_run_def by auto
    moreover have "paints f (plot_all (\<lambda>x y. fb_put_pixel (Some f) x y rgb) pts)"
      unfolding plot_all_def by (intro paints_fold) (auto intro: paints_pixel assms(1))
    ultimately show ?thesis using assms(2) by (simp add: paints_def)
  qed
  then show ?thesis
    using paints_pixel [OF assms(1)] paints_rect [OF assms(1)] paints_char [OF assms(1)] paints_string [OF assms(1)] assms(2)
    unfolding paints_def by (simp add: fb_clear_def)
qed

definition demo_fb :: fb_info where
  "demo_fb = \<lparr>fb_present = True, fb_addr = 0xFD000000, fb_pitch = 4096, fb_w = 1024, fb_h = 768, fb_bpp = 32\<rparr>"

theorem fb_draws_in_bounds_witness:
  "fb_draw_string (Some demo_fb) 1020 760 [0x48, 0x49] 0xFFFFFF 0 (\<lambda>_. 7) 0xFD300000 = 7"
proof -
  have "fb_ok demo_fb" "0xFD300000 \<notin> fb_bytes demo_fb" by (simp_all add: demo_fb_def fb_ok_def fb_bytes_def)
  from fb_draws_in_bounds [OF this, where x = 1020 and y = 760 and s = "[0x48, 0x49]" and fg = "0xFFFFFF" and bg = 0 and m = "\<lambda>_. 7"]
  show ?thesis by simp
qed

text \<open>Property C36. The line algorithm ends and draws the line: for coordinates below \<open>2 ^ 28\<close> no signed
  computation overflows, \<open>fb_draw_line\<close> returns after plotting exactly one pixel more than the longer
  side, from the first end point to the second in steps to a neighbouring pixel, and every pixel lies in
  the box of the end points and within half a pixel of the ideal line.\<close>

theorem fb_draw_line_draws:
  assumes "\<bar>x0\<bar> < 2 ^ 28" "\<bar>y0\<bar> < 2 ^ 28" "\<bar>x1\<bar> < 2 ^ 28" "\<bar>y1\<bar> < 2 ^ 28"
  shows "\<exists>pts. fb_draw_line fb x0 y0 x1 y1 rgb m = Some (fold (\<lambda>(x, y). fb_put_pixel fb (of_int x) (of_int y) rgb) pts m)
     \<and> length pts = Suc (nat (max \<bar>x1 - x0\<bar> \<bar>y1 - y0\<bar>)) \<and> hd pts = (x0, y0) \<and> last pts = (x1, y1)
     \<and> successively adjacent pts \<and> (\<forall>p \<in> set pts. on_line x0 y0 x1 y1 p)"
  using line_with_run [OF assms, of "\<lambda>x y. fb_put_pixel fb x y rgb" m]
  unfolding line_run_def fb_draw_line_def plot_all_def by auto

theorem fb_draw_line_draws_witness:
  "\<exists>pts. fb_draw_line (Some demo_fb) 0 0 7 3 0xFFFFFF (\<lambda>_. 0)
       = Some (fold (\<lambda>(x, y). fb_put_pixel (Some demo_fb) (of_int x) (of_int y) 0xFFFFFF) pts (\<lambda>_. 0)) \<and> length pts = 8"
  using fb_draw_line_draws [of 0 0 7 3 "Some demo_fb" "0xFFFFFF" "\<lambda>_. 0"] by force

text \<open>The two framebuffer drivers draw alike: with the same geometry every aarch64 drawing
  operation has the same effect on memory as its x86_64 counterpart.\<close>

theorem framebuffer_drivers_equivalent:
  assumes "fbs_present g = fb_present f" "fbs_addr g = fb_addr f" "fbs_pitch g = fb_pitch f" "fbs_width g = fb_w f" "fbs_height g = fb_h f"
  shows "fb_put_pixel_a64 g x y rgb m = fb_put_pixel (Some f) x y rgb m
     \<and> fb_fill_rect_a64 g x y w h rgb m = fb_fill_rect (Some f) x y w h rgb m
     \<and> fb_clear_a64 g rgb m = fb_clear (Some f) rgb m
     \<and> fb_draw_line_a64 g lx ly lx' ly' rgb m = fb_draw_line (Some f) lx ly lx' ly' rgb m
     \<and> fb_draw_char_a64 g x y c fg bg m = fb_draw_char (Some f) x y c fg bg m
     \<and> fb_draw_string_a64 g x y s fg bg m = fb_draw_string (Some f) x y s fg bg m"
  using assms by (simp add: a64_draws fb_clear_a64_def fb_clear_def)

theorem framebuffer_drivers_equivalent_witness:
  "fb_clear_a64 \<lparr>fbs_present = True, fbs_addr = 0xFD000000, fbs_pitch = 4096, fbs_width = 1024, fbs_height = 768\<rparr> 0x102030 m
     = fb_clear (Some demo_fb) 0x102030 m"
  using framebuffer_drivers_equivalent [of "\<lparr>fbs_present = True, fbs_addr = 0xFD000000, fbs_pitch = 4096, fbs_width = 1024, fbs_height = 768\<rparr>" demo_fb]
  by (simp add: demo_fb_def)

end
