(* ===== verification/Ports.thy ===== *)
theory Ports
  imports Prelude
begin

text \<open>
  Talking to devices: the port instructions of \<^verbatim>\<open>include/arch/x86_64/io.h\<close> and the volatile register
  accesses of the aarch64 drivers. A device is not part of the kernel, so it is an argument: \<open>io_dev\<close>
  answers a read from the whole history of accesses. The bus records that history in \<open>io_log\<close>, in
  program order; what a driver does to its device is the log it produces.
\<close>

datatype 'a io_event = Out 'a u64 | In 'a u64

record 'a iobus =
  io_log :: "'a io_event list"
  io_dev :: "'a io_event list \<Rightarrow> 'a \<Rightarrow> u64"

definition io_out :: "'a \<Rightarrow> u64 \<Rightarrow> 'a iobus \<Rightarrow> 'a iobus" where
  "io_out a v b = b\<lparr>io_log := io_log b @ [Out a v]\<rparr>"

definition io_in :: "'a \<Rightarrow> 'a iobus \<Rightarrow> u64 \<times> 'a iobus" where
  "io_in a b = (let v = io_dev b (io_log b) a in (v, b\<lparr>io_log := io_log b @ [In a v]\<rparr>))"

definition outb :: "u16 \<Rightarrow> u8 \<Rightarrow> u16 iobus \<Rightarrow> u16 iobus" where
  "outb port val = io_out port (ucast val)"

definition inb :: "u16 \<Rightarrow> u16 iobus \<Rightarrow> u8 \<times> u16 iobus" where
  "inb port b = (let (v, b') = io_in port b in (ucast v, b'))"

definition outw :: "u16 \<Rightarrow> u16 \<Rightarrow> u16 iobus \<Rightarrow> u16 iobus" where
  "outw port val = io_out port (ucast val)"

definition inw :: "u16 \<Rightarrow> u16 iobus \<Rightarrow> u16 \<times> u16 iobus" where
  "inw port b = (let (v, b') = io_in port b in (ucast v, b'))"

definition io_wait :: "u16 iobus \<Rightarrow> u16 iobus" where
  "io_wait = outb 0x80 0"

text \<open>On aarch64 a driver reads and writes memory-mapped registers through volatile 8-bit and 32-bit
  accesses, and system registers with \<open>mrs\<close> and \<open>msr\<close>. All of them share one log, so that the
  order of accesses to different devices is visible.\<close>

datatype a64_reg = Mmio u64 | Cntfrq_el0 | Cntp_tval_el0 | Cntp_ctl_el0 | Mair_el1 | Tcr_el1 | Ttbr0_el1
  | Sctlr_el1 | Vbar_el1 | Daifset | Daifclr | Isb | Dsb | Tlbi

definition mmio_read32 :: "u64 \<Rightarrow> a64_reg iobus \<Rightarrow> u32 \<times> a64_reg iobus" where
  "mmio_read32 addr b = (let (v, b) = io_in (Mmio addr) b in (ucast v, b))"

definition mmio_write32 :: "u64 \<Rightarrow> u32 \<Rightarrow> a64_reg iobus \<Rightarrow> a64_reg iobus" where
  "mmio_write32 addr v = io_out (Mmio addr) (ucast v)"

definition mmio_read8 :: "u64 \<Rightarrow> a64_reg iobus \<Rightarrow> u8 \<times> a64_reg iobus" where
  "mmio_read8 addr b = (let (v, b) = io_in (Mmio addr) b in (ucast v, b))"

definition mmio_write8 :: "u64 \<Rightarrow> u8 \<Rightarrow> a64_reg iobus \<Rightarrow> a64_reg iobus" where
  "mmio_write8 addr v = io_out (Mmio addr) (ucast v)"

text \<open>The writes a driver performed, without the reads in between.\<close>

fun outs :: "'a io_event list \<Rightarrow> ('a \<times> u64) list" where
  "outs [] = []"
| "outs (Out a v # es) = (a, v) # outs es"
| "outs (In a v # es) = outs es"

lemma outs_append [simp]: "outs (xs @ ys) = outs xs @ outs ys"
  by (induction xs rule: outs.induct) auto

lemma outs_io [simp]:
  "outs (io_log (io_out a v b)) = outs (io_log b) @ [(a, v)]"
  "outs (io_log (snd (io_in a b))) = outs (io_log b)"
  "outs (io_log (outb p x pb)) = outs (io_log pb) @ [(p, ucast x)]"
  "outs (io_log (snd (inb p pb))) = outs (io_log pb)"
  "outs (io_log (snd (inw p pb))) = outs (io_log pb)"
  "outs (io_log (snd (mmio_read32 m mb))) = outs (io_log mb)"
  "outs (io_log (snd (mmio_read8 m mb))) = outs (io_log mb)"
  "outs (io_log (mmio_write32 m v32 mb)) = outs (io_log mb) @ [(Mmio m, ucast v32)]"
  "outs (io_log (mmio_write8 m v8 mb)) = outs (io_log mb) @ [(Mmio m, ucast v8)]"
  by (simp_all add: io_out_def io_in_def outb_def inb_def inw_def mmio_read32_def mmio_read8_def
      mmio_write32_def mmio_write8_def Let_def split_def)

lemma io_dev_keep [simp]:
  "io_dev (io_out a v b) = io_dev b" "io_dev (snd (io_in a b)) = io_dev b"
  "io_dev (outb p x pb) = io_dev pb" "io_dev (snd (inb p pb)) = io_dev pb" "io_dev (snd (inw p pb)) = io_dev pb"
  by (simp_all add: io_out_def io_in_def outb_def inb_def inw_def Let_def split_def)

end
