(* ===== verification/Interrupts.thy ===== *)
theory Interrupts
  imports Ports
begin

text \<open>
  Interrupts on x86_64, \<^verbatim>\<open>arch/x86_64/boot/idt.c\<close>: the descriptor table, the two 8259 interrupt
  controllers behind their ports, the table of interrupt handlers and the dispatcher. The type of
  handlers is a parameter; the dispatcher receives the function that runs one, the system call
  dispatcher and the panic routine as arguments, and theory Irq\_x86 supplies the kernel's own.
  The addresses of the assembler stubs are arguments of \<open>idt_init\<close>.
\<close>

section \<open>Data\<close>

record idt_entry =
  offset_low :: u16
  selector :: u16
  ist :: u8
  type_attr :: u8
  offset_mid :: u16
  offset_high :: u32
  idt_zero :: u32

record registers =
  r15 :: u64
  r14 :: u64
  r13 :: u64
  r12 :: u64
  r11 :: u64
  r10 :: u64
  r9 :: u64
  r8 :: u64
  rbp :: u64
  rdi :: u64
  rsi :: u64
  rdx :: u64
  rcx :: u64
  rbx :: u64
  rax :: u64
  int_no :: u64
  err_code :: u64
  rip :: u64
  reg_cs :: u64
  rflags :: u64
  user_rsp :: u64
  reg_ss :: u64

record 'h irqs =
  irq_bus :: "u16 iobus"
  irq_handlers :: "'h option list"
  idt :: "idt_entry list"
  idtr :: "(u16 \<times> u64) option"

text \<open>What becomes of the interrupted context: it is resumed, the machine is halted, or the user
  process has ended and control is back in \<open>process_run\<close>.\<close>

datatype 's outcome = Resumed registers 's | Halted 's | Exited u32 's

definition IDT_ENTRIES :: nat where "IDT_ENTRIES = 256"
definition IRQ_BASE :: nat where "IRQ_BASE = 32"
definition IRQ_COUNT :: nat where "IRQ_COUNT = 16"
definition GATE_INTERRUPT :: u8 where "GATE_INTERRUPT = 0x8E"
definition GATE_INTERRUPT_USER :: u8 where "GATE_INTERRUPT_USER = 0xEE"
definition SYSCALL_VECTOR :: nat where "SYSCALL_VECTOR = 0x80"

definition exception_names :: "string list" where
  "exception_names =
    [''Divide-by-zero'', ''Debug'', ''NMI'', ''Breakpoint'',
     ''Overflow'', ''Bound Range Exceeded'', ''Invalid Opcode'', ''Device Not Available'',
     ''Double Fault'', ''Coprocessor Segment Overrun'', ''Invalid TSS'', ''Segment Not Present'',
     ''Stack-Segment Fault'', ''General Protection Fault'', ''Page Fault'', ''Reserved'',
     ''x87 Floating-Point Exception'', ''Alignment Check'', ''Machine Check'', ''SIMD Floating-Point Exception'',
     ''Virtualization Exception'', ''Control Protection Exception'', ''Reserved'', ''Reserved'',
     ''Reserved'', ''Reserved'', ''Reserved'', ''Reserved'',
     ''Hypervisor Injection Exception'', ''VMM Communication Exception'', ''Security Exception'', ''Reserved'']"

section \<open>Gates\<close>

definition idt_set_gate :: "nat \<Rightarrow> u64 \<Rightarrow> u8 \<Rightarrow> ('h, 'x) irqs_scheme \<Rightarrow> ('h, 'x) irqs_scheme" where
  "idt_set_gate vec handler attr s =
     s\<lparr>idt := (idt s)[vec := \<lparr>offset_low = ucast (handler AND 0xFFFF), selector = 0x08, ist = 0, type_attr = attr,
                              offset_mid = ucast (drop_bit 16 handler AND 0xFFFF),
                              offset_high = ucast (drop_bit 32 handler AND 0xFFFFFFFF), idt_zero = 0\<rparr>]\<rparr>"

section \<open>The interrupt controllers\<close>

definition out_wait :: "u16 \<Rightarrow> u8 \<Rightarrow> u16 iobus \<Rightarrow> u16 iobus" where
  "out_wait p v b = io_wait (outb p v b)"

definition pic_remap :: "u16 iobus \<Rightarrow> u16 iobus" where
  "pic_remap b =
     (let (mask1, b) = inb 0x21 b;
          (mask2, b) = inb 0xA1 b;
          b = out_wait 0x20 0x11 b;
          b = out_wait 0xA0 0x11 b;
          b = out_wait 0x21 (of_nat IRQ_BASE) b;
          b = out_wait 0xA1 (of_nat IRQ_BASE + 8) b;
          b = out_wait 0x21 0x04 b;
          b = out_wait 0xA1 0x02 b;
          b = out_wait 0x21 0x01 b;
          b = out_wait 0xA1 0x01 b;
          b = outb 0x21 mask1 b
      in outb 0xA1 mask2 b)"

definition irq_set_mask :: "nat \<Rightarrow> bool \<Rightarrow> u16 iobus \<Rightarrow> u16 iobus" where
  "irq_set_mask irq masked b =
     (let port = (if irq < 8 then 0x21 else 0xA1);
          bt = (if irq < 8 then irq else irq - 8);
          (val, b) = inb port b;
          val = (if masked then val OR push_bit bt 1 else val AND NOT (push_bit bt 1))
      in outb port val b)"

definition irq_install_handler :: "nat \<Rightarrow> 'h \<Rightarrow> ('h, 'x) irqs_scheme \<Rightarrow> ('h, 'x) irqs_scheme" where
  "irq_install_handler irq handler s =
     (let s = s\<lparr>irq_handlers := (irq_handlers s)[irq := Some handler]\<rparr>;
          s = s\<lparr>irq_bus := irq_set_mask irq False (irq_bus s)\<rparr>
      in if irq \<ge> 8 then s\<lparr>irq_bus := irq_set_mask 2 False (irq_bus s)\<rparr> else s)"

definition idt_init :: "(nat \<Rightarrow> u64) \<Rightarrow> (nat \<Rightarrow> u64) \<Rightarrow> u64 \<Rightarrow> u64 \<Rightarrow> ('h, 'x) irqs_scheme \<Rightarrow> ('h, 'x) irqs_scheme" where
  "idt_init isr_stubs irq_stubs isr128 idt_addr s =
     (let s = fold (\<lambda>i. idt_set_gate i (isr_stubs i) GATE_INTERRUPT) [0..<32] s;
          s = s\<lparr>irq_bus := pic_remap (irq_bus s)\<rparr>;
          s = s\<lparr>irq_bus := outb 0x21 0xFF (irq_bus s)\<rparr>;
          s = s\<lparr>irq_bus := outb 0xA1 0xFF (irq_bus s)\<rparr>;
          s = fold (\<lambda>i. idt_set_gate (IRQ_BASE + i) (irq_stubs i) GATE_INTERRUPT) [0..<16] s;
          s = idt_set_gate SYSCALL_VECTOR isr128 GATE_INTERRUPT_USER s
      in s\<lparr>idtr := Some (of_nat (IDT_ENTRIES * 16) - 1, idt_addr)\<rparr>)"

section \<open>Dispatch\<close>

text \<open>\<open>None\<close> is an access outside \<open>irq_handlers\<close>, or a failure of the code that is called.\<close>

definition isr_handler :: "(registers \<Rightarrow> ('h, 'x) irqs_scheme \<Rightarrow> ('h, 'x) irqs_scheme outcome option) \<Rightarrow>
    (string \<Rightarrow> ('h, 'x) irqs_scheme \<Rightarrow> ('h, 'x) irqs_scheme) \<Rightarrow>
    ('h \<Rightarrow> ('h, 'x) irqs_scheme \<Rightarrow> ('h, 'x) irqs_scheme option) \<Rightarrow>
    registers \<Rightarrow> ('h, 'x) irqs_scheme \<Rightarrow> ('h, 'x) irqs_scheme outcome option" where
  "isr_handler syscall_dispatch kernel_panic run regs s =
     (if int_no regs = of_nat SYSCALL_VECTOR then syscall_dispatch regs s
      else if int_no regs < 32 then Some (Halted (kernel_panic (exception_names ! unat (int_no regs)) s))
      else
        let irq = sint (ucast (int_no regs - of_nat IRQ_BASE) :: i32);
            s = (if irq \<ge> 8 then s\<lparr>irq_bus := outb 0xA0 0x20 (irq_bus s)\<rparr> else s);
            s = s\<lparr>irq_bus := outb 0x20 0x20 (irq_bus s)\<rparr>
        in if irq < 0 \<or> irq \<ge> int IRQ_COUNT then None
           else case irq_handlers s ! nat irq of
                  None \<Rightarrow> Some (Resumed regs s)
                | Some h \<Rightarrow> map_option (Resumed regs) (run h s))"

section \<open>What the gates say\<close>

definition gate_offset :: "idt_entry \<Rightarrow> u64" where
  "gate_offset e = ucast (offset_low e) OR push_bit 16 (ucast (offset_mid e)) OR push_bit 32 (ucast (offset_high e))"

definition gate_present :: "idt_entry \<Rightarrow> bool" where
  "gate_present e \<longleftrightarrow> bit (type_attr e) 7"

text \<open>A gate that ring 3 may reach with an \<open>int\<close> instruction.\<close>

definition gate_user :: "idt_entry \<Rightarrow> bool" where
  "gate_user e \<longleftrightarrow> gate_present e \<and> drop_bit 5 (type_attr e) AND 3 = 3"

lemma gate_masks:
  "(0xFFFF :: u64) = mask 16" "(0xFFFFFFFF :: u64) = mask 32"
  by (simp_all add: mask_eq_exp_minus_1)

lemma gate_offset_set:
  "ucast (ucast (h AND 0xFFFF) :: u16) OR push_bit 16 (ucast (ucast (drop_bit 16 h AND 0xFFFF) :: u16))
     OR push_bit 32 (ucast (ucast (drop_bit 32 h AND 0xFFFFFFFF) :: u32)) = (h :: u64)"
proof (rule bit_word_eqI)
  fix n assume "n < LENGTH(64)"
  then consider "n < 16" | "16 \<le> n" "n < 32" | "32 \<le> n" "n < 64" by fastforce
  then show "bit (ucast (ucast (h AND 0xFFFF) :: u16) OR push_bit 16 (ucast (ucast (drop_bit 16 h AND 0xFFFF) :: u16))
     OR push_bit 32 (ucast (ucast (drop_bit 32 h AND 0xFFFFFFFF) :: u32)) :: u64) n = bit h n"
    unfolding gate_masks by cases (auto simp: bit_simps)
qed

text \<open>What a gate is meant to say: the address of its code and its type byte.\<close>

definition gate_is :: "idt_entry \<Rightarrow> u64 \<Rightarrow> u8 \<Rightarrow> bool" where
  "gate_is e h attr \<longleftrightarrow> gate_offset e = h \<and> type_attr e = attr \<and> selector e = 8"

lemma idt_set_gate_nth:
  assumes "vec < length (idt s)"
  shows "gate_is (idt (idt_set_gate vec h attr s) ! vec) h attr"
    and "v \<noteq> vec \<Longrightarrow> idt (idt_set_gate vec h attr s) ! v = idt s ! v"
    and "length (idt (idt_set_gate vec h attr s)) = length (idt s)"
  using assms gate_offset_set [of h]
  by (simp_all add: gate_is_def idt_set_gate_def gate_offset_def)

lemma set_gates:
  fixes f :: "nat \<Rightarrow> u64" and attr :: u8
  assumes "base + n \<le> length (idt s)"
  defines "s' \<equiv> fold (\<lambda>i. idt_set_gate (base + i) (f i) attr) [0..<n] s"
  shows "length (idt s') = length (idt s) \<and> (\<forall>i < n. gate_is (idt s' ! (base + i)) (f i) attr)
       \<and> (\<forall>v. v < base \<or> base + n \<le> v \<longrightarrow> idt s' ! v = idt s ! v)"
  using assms(1) unfolding s'_def
proof (induction n)
  case (Suc n)
  let ?s = "fold (\<lambda>i. idt_set_gate (base + i) (f i) attr) [0..<n] s"
  have IH: "length (idt ?s) = length (idt s)" "\<And>i. i < n \<Longrightarrow> gate_is (idt ?s ! (base + i)) (f i) attr"
    "\<And>v. v < base \<or> base + n \<le> v \<Longrightarrow> idt ?s ! v = idt s ! v"
    using Suc by auto
  have "base + n < length (idt ?s)" using Suc.prems IH(1) by simp
  note g = idt_set_gate_nth [OF this, where h = "f n" and attr = attr]
  show ?case using IH g by (auto simp: less_Suc_eq)
qed simp

lemma set_gates0:
  fixes f :: "nat \<Rightarrow> u64" and attr :: u8
  assumes "n \<le> length (idt s)"
  defines "s' \<equiv> fold (\<lambda>i. idt_set_gate i (f i) attr) [0..<n] s"
  shows "length (idt s') = length (idt s) \<and> (\<forall>i < n. gate_is (idt s' ! i) (f i) attr)
       \<and> (\<forall>v. n \<le> v \<longrightarrow> idt s' ! v = idt s ! v)"
  using set_gates [of 0 n s f attr] assms by simp

lemma set_gates_bus [simp]:
  "irq_bus (idt_set_gate v h a s) = irq_bus s"
  "irq_handlers (idt_set_gate v h a s) = irq_handlers s"
  by (simp_all add: idt_set_gate_def)

lemma fold_gates_bus [simp]:
  "irq_bus (fold (\<lambda>i. idt_set_gate (g i) (f i) a) is s) = irq_bus s"
  "irq_handlers (fold (\<lambda>i. idt_set_gate (g i) (f i) a) is s) = irq_handlers s"
  by (induction "is" arbitrary: s) simp_all

lemma idt_init_gate:
  fixes isr irq :: "nat \<Rightarrow> u64" and sys addr :: u64
  assumes "length (idt s) = 256"
  defines "s' \<equiv> idt_init isr irq sys addr s"
  shows "length (idt s') = 256" "\<And>v. v < 32 \<Longrightarrow> gate_is (idt s' ! v) (isr v) 0x8E"
    "\<And>v. v < 16 \<Longrightarrow> gate_is (idt s' ! (32 + v)) (irq v) 0x8E"
    "gate_is (idt s' ! 0x80) sys 0xEE"
    "\<And>v. 48 \<le> v \<Longrightarrow> v \<noteq> 0x80 \<Longrightarrow> idt s' ! v = idt s ! v"
proof -
  let ?s1 = "fold (\<lambda>i. idt_set_gate i (isr i) GATE_INTERRUPT) [0..<32] s"
  let ?s2 = "?s1\<lparr>irq_bus := outb 0xA1 0xFF (outb 0x21 0xFF (pic_remap (irq_bus ?s1)))\<rparr>"
  let ?s3 = "fold (\<lambda>i. idt_set_gate (IRQ_BASE + i) (irq i) GATE_INTERRUPT) [0..<16] ?s2"
  have s': "s' = (idt_set_gate SYSCALL_VECTOR sys GATE_INTERRUPT_USER ?s3)\<lparr>idtr := Some (of_nat (IDT_ENTRIES * 16) - 1, addr)\<rparr>"
    by (simp add: s'_def idt_init_def Let_def)
  have 1: "length (idt ?s1) = 256 \<and> (\<forall>i < 32. gate_is (idt ?s1 ! i) (isr i) GATE_INTERRUPT)
       \<and> (\<forall>v. 32 \<le> v \<longrightarrow> idt ?s1 ! v = idt s ! v)"
    using set_gates0 [of 32 s isr GATE_INTERRUPT] assms by simp
  have idt2: "idt ?s2 = idt ?s1" by simp
  have 3: "length (idt ?s3) = 256 \<and> (\<forall>i < 16. gate_is (idt ?s3 ! (32 + i)) (irq i) GATE_INTERRUPT)
       \<and> (\<forall>v. v < 32 \<or> 48 \<le> v \<longrightarrow> idt ?s3 ! v = idt ?s1 ! v)"
    using set_gates [of 32 16 ?s2 irq GATE_INTERRUPT] 1 unfolding idt2 by (simp add: IRQ_BASE_def)
  have "0x80 < length (idt ?s3)" using 3 by simp
  note g = idt_set_gate_nth [OF this, where h = sys and attr = GATE_INTERRUPT_USER]
  have idt': "idt s' = idt (idt_set_gate 0x80 sys GATE_INTERRUPT_USER ?s3)" by (simp add: s' SYSCALL_VECTOR_def)
  show "length (idt s') = 256" using g(3) 3 by (simp add: idt')
  show "gate_is (idt s' ! 0x80) sys 0xEE" using g(1) by (simp add: idt' GATE_INTERRUPT_USER_def)
  show "gate_is (idt s' ! v) (isr v) 0x8E" if "v < 32" for v
    using that 1 3 g(2) [of v] by (simp add: idt' GATE_INTERRUPT_def)
  show "gate_is (idt s' ! (32 + v)) (irq v) 0x8E" if "v < 16" for v
    using that 3 g(2) [of "32 + v"] by (simp add: idt' GATE_INTERRUPT_def)
  show "idt s' ! v = idt s ! v" if "48 \<le> v" "v \<noteq> 0x80" for v
    using that 1 3 g(2) [of v] by (simp add: idt')
qed

lemma gate_is_flags:
  "gate_is e h 0x8E \<Longrightarrow> gate_present e \<and> \<not> gate_user e"
  "gate_is e h 0xEE \<Longrightarrow> gate_present e \<and> gate_user e"
  by (simp_all add: gate_is_def gate_present_def gate_user_def)

section \<open>What the controllers see\<close>

text \<open>The value a register last received.\<close>

definition imr :: "u16 \<Rightarrow> u16 iobus \<Rightarrow> u8 option" where
  "imr p b = map_option ucast (map_of (rev (outs (io_log b))) p)"

text \<open>The mask registers of an 8259 read back what was written.\<close>

definition pic_readback :: "u16 iobus \<Rightarrow> bool" where
  "pic_readback b \<longleftrightarrow> (\<forall>log p v. p = 0x21 \<or> p = 0xA1 \<longrightarrow> map_of (rev (outs log)) p = Some v \<longrightarrow> io_dev b log p = v)"

definition irq_open :: "u16 iobus \<Rightarrow> nat \<Rightarrow> bool" where
  "irq_open b i \<longleftrightarrow> (case imr (if i < 8 then 0x21 else 0xA1) b of Some m \<Rightarrow> \<not> bit m (i mod 8) | None \<Rightarrow> False)"

definition pic_inv :: "u16 iobus \<Rightarrow> bool" where
  "pic_inv b \<longleftrightarrow> pic_readback b \<and> imr 0x21 b \<noteq> None \<and> imr 0xA1 b \<noteq> None"

lemma ucast_u8_back [simp]: "ucast (ucast (v :: u8) :: u64) = v"
  by (rule bit_word_eqI) (auto simp: bit_simps)

lemma imr_outb [simp]: "imr p (outb q v b) = (if p = q then Some v else imr p b)"
  by (simp add: imr_def)

lemma imr_inb [simp]: "imr p (snd (inb q b)) = imr p b"
  by (simp add: imr_def)

lemma pic_readback_keep [simp]:
  "pic_readback (outb q v b) = pic_readback b" "pic_readback (snd (inb q b)) = pic_readback b"
  by (simp_all add: pic_readback_def)

lemma inb_imr:
  assumes "pic_readback b" "p = 0x21 \<or> p = 0xA1" "imr p b = Some m"
  shows "fst (inb p b) = m"
proof -
  obtain v where v: "map_of (rev (outs (io_log b))) p = Some v" "ucast v = m"
    using assms(3) by (auto simp: imr_def)
  then have "io_dev b (io_log b) p = v" using assms unfolding pic_readback_def by blast
  with v show ?thesis by (simp add: inb_def io_in_def Let_def)
qed

lemma irq_set_mask_open:
  assumes "pic_inv b" "irq < 16"
  shows "pic_inv (irq_set_mask irq False b)"
    and "i < 16 \<Longrightarrow> irq_open (irq_set_mask irq False b) i \<longleftrightarrow> i = irq \<or> irq_open b i"
proof -
  let ?p = "if irq < 8 then 0x21 else 0xA1 :: u16"
  obtain m where m: "imr ?p b = Some m" using assms by (cases "irq < 8") (auto simp: pic_inv_def)
  have v: "fst (inb ?p b) = m"
    using assms(1) by (intro inb_imr m) (auto simp: pic_inv_def)
  have eq: "irq_set_mask irq False b = outb ?p (m AND NOT (push_bit (irq mod 8) 1)) (snd (inb ?p b))"
    using v assms(2) by (auto simp: irq_set_mask_def Let_def split_def mod_if)
  show "pic_inv (irq_set_mask irq False b)" using assms by (simp add: eq pic_inv_def)
  assume i: "i < 16"
  have same: "(if i < 8 then 0x21 else 0xA1 :: u16) = ?p \<longleftrightarrow> (i < 8 \<longleftrightarrow> irq < 8)" by simp
  have bits: "bit (m AND NOT (push_bit (irq mod 8) 1)) (i mod 8) \<longleftrightarrow> bit m (i mod 8) \<and> irq mod 8 \<noteq> i mod 8"
    by (auto simp: bit_simps dest: bit_imp_le_length)
  have idx: "(i < 8 \<longleftrightarrow> irq < 8) \<Longrightarrow> irq mod 8 = i mod 8 \<longleftrightarrow> i = irq" using i assms(2) by (auto simp: mod_if split: if_splits)
  show "irq_open (irq_set_mask irq False b) i \<longleftrightarrow> i = irq \<or> irq_open b i"
  proof (cases "i < 8 \<longleftrightarrow> irq < 8")
    case True
    then have "imr (if i < 8 then 0x21 else 0xA1) b = Some m" using m by simp
    with True show ?thesis using bits idx by (auto simp: irq_open_def eq)
  next
    case False then show ?thesis by (auto simp: irq_open_def eq)
  qed
qed

lemma install_open:
  assumes "pic_inv (irq_bus s)" "irq < 16"
  shows "pic_inv (irq_bus (irq_install_handler irq h s))"
    and "i < 16 \<Longrightarrow> irq_open (irq_bus (irq_install_handler irq h s)) i \<longleftrightarrow>
           i = irq \<or> i = 2 \<and> 8 \<le> irq \<or> irq_open (irq_bus s) i"
    and "irq_handlers (irq_install_handler irq h s) = (irq_handlers s)[irq := Some h]"
proof -
  note a = irq_set_mask_open [OF assms] irq_set_mask_open [OF irq_set_mask_open(1) [OF assms], of 2]
  show "pic_inv (irq_bus (irq_install_handler irq h s))"
    using a by (simp add: irq_install_handler_def Let_def)
  show "i < 16 \<Longrightarrow> irq_open (irq_bus (irq_install_handler irq h s)) i \<longleftrightarrow>
           i = irq \<or> i = 2 \<and> 8 \<le> irq \<or> irq_open (irq_bus s) i"
    using a by (auto simp: irq_install_handler_def Let_def)
  show "irq_handlers (irq_install_handler irq h s) = (irq_handlers s)[irq := Some h]"
    by (simp add: irq_install_handler_def Let_def)
qed

lemma installs_open:
  assumes "pic_inv (irq_bus s)" "length (irq_handlers s) = 16" "\<And>i h. (i, h) \<in> set hs \<Longrightarrow> i < 16" "i < 16"
  shows "(irq_open (irq_bus (fold (\<lambda>(i, h). irq_install_handler i h) hs s)) i \<longleftrightarrow>
           i \<in> fst ` set hs \<or> i = 2 \<and> (\<exists>j \<in> fst ` set hs. 8 \<le> j) \<or> irq_open (irq_bus s) i)
    \<and> irq_handlers (fold (\<lambda>(i, h). irq_install_handler i h) hs s) ! i =
           (case map_of (rev hs) i of None \<Rightarrow> irq_handlers s ! i | Some h \<Rightarrow> Some h)"
  using assms(1-3)
proof (induction hs arbitrary: s)
  case (Cons a hs)
  obtain irq h where a: "a = (irq, h)" by (cases a)
  have irq: "irq < 16" using Cons.prems(3) a by auto
  note st = install_open [OF Cons.prems(1) irq, where h = h]
  have len: "length (irq_handlers (irq_install_handler irq h s)) = 16" using Cons.prems(2) st(3) by simp
  have "\<And>i h. (i, h) \<in> set hs \<Longrightarrow> i < 16" using Cons.prems(3) by auto
  from Cons.IH [OF st(1) len this] st(2) [of i] assms(4) st(3) Cons.prems(2)
  show ?case by (auto simp: a map_add_def nth_list_update split: option.splits)
qed simp

lemma idt_init_irqs:
  assumes "pic_readback (irq_bus s)"
  shows "pic_inv (irq_bus (idt_init isr irq sys addr s))"
    and "i < 16 \<Longrightarrow> \<not> irq_open (irq_bus (idt_init isr irq sys addr s)) i"
    and "irq_handlers (idt_init isr irq sys addr s) = irq_handlers s"
proof -
  have rb: "pic_readback (pic_remap (irq_bus s))"
    using assms by (simp add: pic_remap_def Let_def split_def out_wait_def io_wait_def)
  show "pic_inv (irq_bus (idt_init isr irq sys addr s))"
    using rb by (simp add: idt_init_def Let_def pic_inv_def)
  show "irq_handlers (idt_init isr irq sys addr s) = irq_handlers s"
    by (simp add: idt_init_def Let_def)
  have ff: "bit (0xFF :: u8) (i mod 8)"
    using bit_mask_iff [of 8 "i mod 8", where 'a = "8 word"] by (simp add: mask_eq_exp_minus_1)
  then show "i < 16 \<Longrightarrow> \<not> irq_open (irq_bus (idt_init isr irq sys addr s)) i"
    by (simp add: idt_init_def Let_def irq_open_def)
qed

section \<open>Properties\<close>

text \<open>Property C33. After \<open>idt_init\<close> on a zeroed table exactly the vectors 0 to 47 and 0x80 have a
  present gate, each with the whole 64-bit address of its own stub (no bit is lost in the three-way
  split), and the system call vector is the only gate that ring 3 may enter with an \<open>int\<close>
  instruction. The other 207 vectors have none, although the comment at the top of \<^verbatim>\<open>idt.c\<close> and the README speak of all 256.\<close>

theorem idt_gates_installed:
  assumes "length (idt s) = 256" "\<And>e. e \<in> set (idt s) \<Longrightarrow> \<not> gate_present e"
  shows "let t = idt (idt_init isr irq sys addr s) in
     (\<forall>v < 256. (gate_present (t ! v) \<longleftrightarrow> v < 48 \<or> v = 0x80) \<and> (gate_user (t ! v) \<longleftrightarrow> v = 0x80))
     \<and> (\<forall>v < 32. gate_offset (t ! v) = isr v) \<and> (\<forall>v < 16. gate_offset (t ! (32 + v)) = irq v)
     \<and> gate_offset (t ! 0x80) = sys"
proof -
  let ?t = "idt (idt_init isr irq sys addr s)"
  note g = idt_init_gate [OF assms(1), where isr = isr and irq = irq and sys = sys and addr = addr]
  have "(gate_present (?t ! v) \<longleftrightarrow> v < 48 \<or> v = 0x80) \<and> (gate_user (?t ! v) \<longleftrightarrow> v = 0x80)" if v: "v < 256" for v
  proof -
    consider "v < 32" | "32 \<le> v" "v < 48" | "v = 0x80" | "48 \<le> v" "v \<noteq> 0x80" by linarith
    then show ?thesis
    proof cases
      case 1 then show ?thesis using gate_is_flags(1) [OF g(2) [OF 1]] by simp
    next
      case 2 then show ?thesis using gate_is_flags(1) [OF g(3) [of "v - 32"]] by simp
    next
      case 3 then show ?thesis using gate_is_flags(2) [OF g(4)] by simp
    next
      case 4
      then have "\<not> gate_present (?t ! v)" using g(5) assms v by simp
      with 4 show ?thesis by (simp add: gate_user_def)
    qed
  qed
  with g(2-4) show ?thesis by (auto simp: Let_def gate_is_def)
qed

definition blank_irqs :: "nat irqs" where
  "blank_irqs =
     \<lparr>irq_bus = \<lparr>io_log = [], io_dev = (\<lambda>log p. case map_of (rev (outs log)) p of Some v \<Rightarrow> v | None \<Rightarrow> 0)\<rparr>,
      irq_handlers = replicate 16 None,
      idt = replicate 256 \<lparr>offset_low = 0, selector = 0, ist = 0, type_attr = 0, offset_mid = 0, offset_high = 0, idt_zero = 0\<rparr>,
      idtr = None\<rparr>"

theorem idt_gates_installed_witness:
  "gate_offset (idt (idt_init (\<lambda>i. 0xFFFF800000100000 + of_nat i * 16) (\<lambda>i. 0x101000 + of_nat i * 16) 0x102000 0x103000 blank_irqs) ! 14)
     = 0xFFFF8000001000E0"
proof -
  have "length (idt blank_irqs) = 256" by (simp add: blank_irqs_def)
  moreover have "\<not> gate_present e" if "e \<in> set (idt blank_irqs)" for e
    using that by (auto simp: blank_irqs_def gate_present_def)
  ultimately show ?thesis
    using idt_gates_installed [of blank_irqs "\<lambda>i. 0xFFFF800000100000 + of_nat i * 16" "\<lambda>i. 0x101000 + of_nat i * 16" "0x102000" "0x103000"]
    by (auto simp: Let_def)
qed

text \<open>\<open>idt_init\<close> masks all sixteen lines; after any sequence of
  \<open>irq_install_handler\<close> calls a line is open at the controllers exactly when a handler was installed
  for it, or when it is the cascade line 2 and some slave line (8 to 15) has a handler; and the handler
  table holds the handler installed last. The controllers are assumed to read back their mask
  registers.\<close>

theorem irq_lines_follow_handlers:
  assumes "pic_readback (irq_bus s)" "irq_handlers s = replicate 16 None"
    and "\<And>i h. (i, h) \<in> set hs \<Longrightarrow> i < 16" "i < 16"
  shows "let s' = fold (\<lambda>(i, h). irq_install_handler i h) hs (idt_init isr irq sys addr s) in
     (irq_open (irq_bus s') i \<longleftrightarrow> i \<in> fst ` set hs \<or> i = 2 \<and> (\<exists>j \<in> fst ` set hs. 8 \<le> j))
     \<and> irq_handlers s' ! i = map_of (rev hs) i"
proof -
  note z = idt_init_irqs [OF assms(1), where isr = isr and irq = irq and sys = sys and addr = addr]
  have "length (irq_handlers (idt_init isr irq sys addr s)) = 16" using z(3) assms(2) by simp
  from installs_open [OF z(1) this assms(3,4)] z(2) [OF assms(4)] z(3) assms(2,4)
  show ?thesis by (auto simp: Let_def split: option.splits)
qed

theorem irq_lines_follow_handlers_witness:
  "let s' = fold (\<lambda>(i, h). irq_install_handler i h) [(1, 7), (12, 9)] (idt_init (\<lambda>_. 0) (\<lambda>_. 0) 0 0 blank_irqs)
   in irq_open (irq_bus s') 2 \<and> irq_handlers s' ! 2 = None"
proof -
  have "pic_readback (irq_bus blank_irqs)" by (simp add: pic_readback_def blank_irqs_def)
  moreover have "irq_handlers blank_irqs = replicate 16 None" by (simp add: blank_irqs_def)
  moreover have "\<And>i h. (i, h) \<in> set [(1, 7 :: nat), (12, 9)] \<Longrightarrow> i < (16 :: nat)" by auto
  ultimately show ?thesis
    using irq_lines_follow_handlers [of blank_irqs "[(1, 7), (12, 9)]" 2 "\<lambda>_. 0" "\<lambda>_. 0" 0 0] by simp
qed

lemma irq_number:
  assumes "unat (n :: u64) < 16"
  shows "sint (ucast n :: i32) = int (unat n)"
proof -
  have "uint n = int (unat n)" by simp
  then have n: "uint n < 16" using assms by linarith
  then have "uint (ucast n :: u32) = uint n" by (simp add: unsigned_ucast_eq take_bit_int_eq_self)
  moreover have "- (2 ^ 31) \<le> uint n" by (rule order_trans [of _ 0]) simp_all
  then have "signed_take_bit 31 (uint n) = uint n" using n by (intro signed_take_bit_int_eq_self) simp_all
  ultimately show ?thesis by (simp add: sint_uint)
qed

text \<open>Every vector that has a gate is dispatched inside the tables: an exception
  reaches the panic routine with its own name, the system call vector the system call dispatcher, and
  an interrupt its handler. When a handler starts to run, the end-of-interrupt command has already
  been sent, to the slave first when the line belongs to it and then to the master, so that a handler
  that switches threads leaves no interrupt in service.\<close>

theorem isr_dispatch:
  assumes "length (irq_handlers s) = 16" "unat (int_no regs) < 48 \<or> int_no regs = 0x80"
  shows "isr_handler sys panic run regs s =
     (if int_no regs = 0x80 then sys regs s
      else if int_no regs < 32 then Some (Halted (panic (exception_names ! unat (int_no regs)) s))
      else
        let irq = unat (int_no regs) - 32;
            eoi = (if 8 \<le> irq then [Out 0xA0 0x20] else []) @ [Out 0x20 0x20];
            s' = s\<lparr>irq_bus := (irq_bus s)\<lparr>io_log := io_log (irq_bus s) @ eoi\<rparr>\<rparr>
        in case irq_handlers s ! irq of None \<Rightarrow> Some (Resumed regs s')
           | Some h \<Rightarrow> map_option (Resumed regs) (run h s'))"
proof (cases "int_no regs = 0x80 \<or> int_no regs < 32")
  case True then show ?thesis by (auto simp: isr_handler_def SYSCALL_VECTOR_def)
next
  case False
  then have n: "32 \<le> unat (int_no regs)" "unat (int_no regs) < 48"
    using assms(2) by (auto simp: word_less_nat_alt)
  then obtain k where k: "unat (int_no regs) = 32 + k" "k < 16" using le_Suc_ex by fastforce
  then have "unat (int_no regs - 32) = k" by (simp add: unat_minus_simple)
  then have "sint (ucast (int_no regs - of_nat IRQ_BASE) :: i32) = int k"
    using k irq_number [of "int_no regs - 32"] by (simp add: IRQ_BASE_def)
  with k False show ?thesis
    by (simp add: isr_handler_def SYSCALL_VECTOR_def IRQ_COUNT_def Let_def outb_def io_out_def split: option.split)
qed

definition demo_regs :: "u64 \<Rightarrow> registers" where
  "demo_regs n = \<lparr>r15 = 0, r14 = 0, r13 = 0, r12 = 0, r11 = 0, r10 = 0, r9 = 0, r8 = 0, rbp = 0, rdi = 0, rsi = 0, rdx = 0,
     rcx = 0, rbx = 0, rax = 0, int_no = n, err_code = 0, rip = 0, reg_cs = 8, rflags = 0, user_rsp = 0, reg_ss = 0\<rparr>"

theorem isr_dispatch_witness:
  "\<exists>s'. isr_handler (\<lambda>_ _. None) (\<lambda>_ s. s) (\<lambda>_ s. Some s) (demo_regs 44) blank_irqs = Some (Resumed (demo_regs 44) s')
     \<and> io_log (irq_bus s') = [Out 0xA0 0x20, Out 0x20 0x20]"
proof -
  have "length (irq_handlers blank_irqs) = 16" "unat (int_no (demo_regs 44)) < 48 \<or> int_no (demo_regs 44) = 0x80"
    by (simp_all add: blank_irqs_def demo_regs_def)
  from isr_dispatch [OF this, of "\<lambda>_ _. None" "\<lambda>_ s. s" "\<lambda>_ s. Some s"] show ?thesis
    by (simp add: Let_def demo_regs_def blank_irqs_def)
qed

end
