(* ===== verification/Keyboard.thy ===== *)
theory Keyboard
  imports Interrupts
begin

text \<open>
  Keyboard input. The PS/2 driver \<^verbatim>\<open>arch/x86_64/drivers/keyboard.c\<close> and the keyboard half of
  \<^verbatim>\<open>arch/aarch64/drivers/virtio_input.c\<close> each translate key events through a pair of ASCII tables and
  queue the characters in a ring buffer of 256 slots, which \<open>getchar\<close> drains. The two ring buffers are
  two interpretations of one bounded first-in-first-out contract.
\<close>

section \<open>Ring buffer and tables\<close>

record kb_ring =
  kb_buf :: "u32 \<Rightarrow> u8"
  kb_head :: u32
  kb_tail :: u32

record keyboard =
  kb_ring :: kb_ring
  shift_held :: bool

definition KB_BUF_SIZE :: u32 where
  "KB_BUF_SIZE = 256"

definition scancode_ascii :: "u8 list" where
  "scancode_ascii =
     [0, 27, 49, 50, 51, 52, 53, 54, 55, 56, 57, 48, 45, 61, 8, 9,
     113, 119, 101, 114, 116, 121, 117, 105, 111, 112, 91, 93, 10, 0, 97, 115,
     100, 102, 103, 104, 106, 107, 108, 59, 39, 96, 0, 92, 122, 120, 99, 118,
     98, 110, 109, 44, 46, 47, 0, 42, 0, 32, 0, 0, 0, 0, 0, 0] @ replicate 64 0"

definition scancode_ascii_shift :: "u8 list" where
  "scancode_ascii_shift =
     [0, 27, 33, 64, 35, 36, 37, 94, 38, 42, 40, 41, 95, 43, 8, 9,
     81, 87, 69, 82, 84, 89, 85, 73, 79, 80, 123, 125, 10, 0, 65, 83,
     68, 70, 71, 72, 74, 75, 76, 58, 34, 126, 0, 124, 90, 88, 67, 86,
     66, 78, 77, 60, 62, 63, 0, 42, 0, 32, 0, 0, 0, 0, 0, 0] @ replicate 64 0"

definition scancode_ascii_a64 :: "u8 list" where
  "scancode_ascii_a64 =
     [0, 27, 49, 50, 51, 52, 53, 54, 55, 56, 57, 48, 45, 61, 8, 9,
     113, 119, 101, 114, 116, 121, 117, 105, 111, 112, 91, 93, 10, 0, 97, 115,
     100, 102, 103, 104, 106, 107, 108, 59, 39, 96, 0, 92, 122, 120, 99, 118,
     98, 110, 109, 44, 46, 47, 0, 42, 0, 32, 0, 0, 0, 0, 0, 0] @ replicate 64 0"

definition scancode_ascii_shift_a64 :: "u8 list" where
  "scancode_ascii_shift_a64 =
     [0, 27, 33, 64, 35, 36, 37, 94, 38, 42, 40, 41, 95, 43, 8, 9,
     81, 87, 69, 82, 84, 89, 85, 73, 79, 80, 123, 125, 10, 0, 65, 83,
     68, 70, 71, 72, 74, 75, 76, 58, 34, 126, 0, 124, 90, 88, 67, 86,
     66, 78, 77, 60, 62, 63, 0, 42, 0, 32, 0, 0, 0, 0, 0, 0] @ replicate 64 0"

section \<open>x86_64: PS/2\<close>

definition buf_push :: "u8 \<Rightarrow> kb_ring \<Rightarrow> kb_ring" where
  "buf_push c r =
     (let nxt = (kb_head r + 1) mod KB_BUF_SIZE
      in if nxt = kb_tail r then r
         else r\<lparr>kb_buf := (kb_buf r)(kb_head r := c), kb_head := nxt\<rparr>)"

definition keyboard_getchar :: "kb_ring \<Rightarrow> u8 \<times> kb_ring" where
  "keyboard_getchar r =
     (if kb_tail r = kb_head r then (0, r)
      else (kb_buf r (kb_tail r), r\<lparr>kb_tail := (kb_tail r + 1) mod KB_BUF_SIZE\<rparr>))"

definition SC_LSHIFT :: u8 where "SC_LSHIFT = 0x2A"
definition SC_RSHIFT :: u8 where "SC_RSHIFT = 0x36"
definition SC_LSHIFT_UP :: u8 where "SC_LSHIFT_UP = SC_LSHIFT OR 0x80"
definition SC_RSHIFT_UP :: u8 where "SC_RSHIFT_UP = SC_RSHIFT OR 0x80"

text \<open>The part of \<open>keyboard_irq\<close> after the scan code has been read.\<close>

definition handle_scancode :: "u8 \<Rightarrow> keyboard \<Rightarrow> keyboard" where
  "handle_scancode sc k =
     (if sc = SC_LSHIFT \<or> sc = SC_RSHIFT then k\<lparr>shift_held := True\<rparr>
      else if sc = SC_LSHIFT_UP \<or> sc = SC_RSHIFT_UP then k\<lparr>shift_held := False\<rparr>
      else if sc AND 0x80 \<noteq> 0 then k
      else if sc \<ge> 128 then k
      else
        let c = (if shift_held k then scancode_ascii_shift ! unat sc else scancode_ascii ! unat sc)
        in if c \<noteq> 0 then k\<lparr>kb_ring := buf_push c (kb_ring k)\<rparr> else k)"

definition keyboard_irq :: "u16 iobus \<times> keyboard \<Rightarrow> u16 iobus \<times> keyboard" where
  "keyboard_irq s =
     (case s of (b, k) \<Rightarrow> let (sc, b') = inb 0x60 b in (b', handle_scancode sc k))"

text \<open>\<open>h\<close> is the handler table's value for \<open>keyboard_irq\<close>.\<close>

definition keyboard_init :: "'h \<Rightarrow> ('h, 'x) irqs_scheme \<Rightarrow> ('h, 'x) irqs_scheme" where
  "keyboard_init h s = irq_install_handler 1 h s"

section \<open>aarch64: virtio-input keyboard\<close>

record virtio_input_event =
  ev_type :: u16
  ev_code :: u16
  ev_value :: u32

definition EV_SYN :: u16 where "EV_SYN = 0"
definition EV_KEY :: u16 where "EV_KEY = 1"
definition EV_REL :: u16 where "EV_REL = 2"
definition KEY_LEFTSHIFT :: u16 where "KEY_LEFTSHIFT = 42"
definition KEY_RIGHTSHIFT :: u16 where "KEY_RIGHTSHIFT = 54"

definition kb_push :: "u8 \<Rightarrow> kb_ring \<Rightarrow> kb_ring" where
  "kb_push c r =
     (let nxt = (kb_head r + 1) mod KB_BUF_SIZE
      in if nxt = kb_tail r then r
         else r\<lparr>kb_buf := (kb_buf r)(kb_head r := c), kb_head := nxt\<rparr>)"

definition kb_pop :: "kb_ring \<Rightarrow> u8 \<times> kb_ring" where
  "kb_pop r =
     (if kb_tail r = kb_head r then (0, r)
      else (kb_buf r (kb_tail r), r\<lparr>kb_tail := (kb_tail r + 1) mod KB_BUF_SIZE\<rparr>))"

definition handle_kbd_event :: "virtio_input_event \<Rightarrow> keyboard \<Rightarrow> keyboard" where
  "handle_kbd_event e k =
     (if ev_type e \<noteq> EV_KEY then k
      else if ev_code e = KEY_LEFTSHIFT \<or> ev_code e = KEY_RIGHTSHIFT then k\<lparr>shift_held := (ev_value e \<noteq> 0)\<rparr>
      else if ev_value e = 0 then k
      else if ev_code e \<ge> 128 then k
      else
        let c = (if shift_held k then scancode_ascii_shift_a64 ! unat (ev_code e)
                 else scancode_ascii_a64 ! unat (ev_code e))
        in if c \<noteq> 0 then k\<lparr>kb_ring := kb_push c (kb_ring k)\<rparr> else k)"

section \<open>A bounded first-in-first-out queue\<close>

locale bounded_fifo =
  fixes fifo_ok :: "'s \<Rightarrow> bool"
    and queued :: "'s \<Rightarrow> u8 list"
    and push :: "u8 \<Rightarrow> 's \<Rightarrow> 's"
    and pop :: "'s \<Rightarrow> u8 \<times> 's"
    and capacity :: nat
  assumes push_ok: "fifo_ok s \<Longrightarrow> fifo_ok (push c s)"
    and push_queued: "fifo_ok s \<Longrightarrow>
          queued (push c s) = (if length (queued s) < capacity then queued s @ [c] else queued s)"
    and pop_empty: "fifo_ok s \<Longrightarrow> queued s = [] \<Longrightarrow> pop s = (0, s)"
    and pop_some: "fifo_ok s \<Longrightarrow> queued s = c # cs \<Longrightarrow>
          fst (pop s) = c \<and> fifo_ok (snd (pop s)) \<and> queued (snd (pop s)) = cs"
    and bounded: "fifo_ok s \<Longrightarrow> length (queued s) \<le> capacity"

fun pops :: "('s \<Rightarrow> u8 \<times> 's) \<Rightarrow> nat \<Rightarrow> 's \<Rightarrow> u8 list \<times> 's" where
  "pops pop 0 s = ([], s)"
| "pops pop (Suc n) s = (let (c, s1) = pop s; (cs, s2) = pops pop n s1 in (c # cs, s2))"

context bounded_fifo
begin

lemma pushes_queued:
  "fifo_ok s \<Longrightarrow> fifo_ok (fold push cs s) \<and> queued (fold push cs s) = take capacity (queued s @ cs)"
proof (induction cs arbitrary: s)
  case Nil
  then show ?case using bounded by simp
next
  case (Cons c cs)
  then show ?case using Cons.IH [OF push_ok [OF Cons.prems]] push_queued [OF Cons.prems] bounded [OF Cons.prems]
    by (auto simp: take_Cons' Suc_diff_Suc)
qed

lemma pops_queued:
  "fifo_ok s \<Longrightarrow> n \<le> length (queued s) \<Longrightarrow>
     fst (pops pop n s) = take n (queued s) \<and> fifo_ok (snd (pops pop n s))
     \<and> queued (snd (pops pop n s)) = drop n (queued s)"
proof (induction n arbitrary: s)
  case (Suc n)
  then obtain c cs where q: "queued s = c # cs" by (cases "queued s") auto
  note p = pop_some [OF Suc.prems(1) q]
  then show ?case using Suc.IH [of "snd (pop s)"] Suc.prems q by (simp add: split_def Let_def)
qed simp

lemma fifo_order:
  assumes "fifo_ok s" "queued s = []" "length cs \<le> capacity"
  shows "fst (pops pop (length cs) (fold push cs s)) = cs"
  using pushes_queued [OF assms(1), of cs] pops_queued [of "fold push cs s" "length cs"] assms by simp

end

definition ring_ok :: "kb_ring \<Rightarrow> bool" where
  "ring_ok r \<longleftrightarrow> unat (kb_head r) < 256 \<and> unat (kb_tail r) < 256"

definition ring_len :: "kb_ring \<Rightarrow> nat" where
  "ring_len r = (unat (kb_head r) + 256 - unat (kb_tail r)) mod 256"

definition ring_contents :: "kb_ring \<Rightarrow> u8 list" where
  "ring_contents r = map (\<lambda>i. kb_buf r (of_nat ((unat (kb_tail r) + i) mod 256))) [0..<ring_len r]"

lemma ring_next: "unat x < 256 \<Longrightarrow> unat ((x + 1) mod KB_BUF_SIZE) = (unat x + 1) mod 256"
  by (simp add: KB_BUF_SIZE_def unat_mod unat_plus_simple)

lemma ring_len_lt: "ring_len r < 256"
  by (simp add: ring_len_def)

lemma ring_slots:
  assumes "ring_ok r" "i \<le> ring_len r"
  shows "(unat (kb_tail r) + i) mod 256 = unat (kb_head r) \<longleftrightarrow> i = ring_len r"
proof -
  define h t where "h = unat (kb_head r)" and "t = unat (kb_tail r)"
  have b: "h < 256" "t < 256" using assms(1) by (simp_all add: ring_ok_def h_def t_def)
  have goal: "(t + i) mod 256 = h \<longleftrightarrow> i = ring_len r"
  proof (cases "t \<le> h")
    case True
    then have e: "h + 256 - t = 256 + (h - t)" using b by simp
    have l: "ring_len r = h - t" unfolding ring_len_def h_def [symmetric] t_def [symmetric] e using b by simp
    then have "(t + i) mod 256 = t + i" using assms(2) True b by simp
    then show ?thesis using l True by auto
  next
    case False
    then have l: "ring_len r = h + 256 - t" using b by (simp add: ring_len_def flip: h_def t_def)
    show ?thesis
    proof (cases "t + i < 256")
      case True
      then have "(t + i) mod 256 = t + i" by simp
      then show ?thesis using l False True by auto
    next
      case ge: False
      then have "(t + i) mod 256 = t + i - 256" using l assms(2) b by (simp add: mod_if)
      then show ?thesis using l False ge b by auto
    qed
  qed
  then show ?thesis by (simp add: h_def t_def)
qed

lemma ring_len_push:
  assumes "unat h < 256" "unat t < 256"
  shows "(unat h + 1) mod 256 = unat t \<longleftrightarrow> (unat h + 256 - unat t) mod 256 = 255"
    "(unat h + 1) mod 256 \<noteq> unat t \<Longrightarrow>
       ((unat h + 1) mod 256 + 256 - unat t) mod 256 = Suc ((unat h + 256 - unat t) mod 256)"
  using assms by (auto simp: mod_if split: if_splits)

lemma buf_push_contents:
  assumes "ring_ok r"
  shows "ring_ok (buf_push c r)"
    "ring_contents (buf_push c r) = (if length (ring_contents r) < 255 then ring_contents r @ [c] else ring_contents r)"
proof -
  let ?n = "(kb_head r + 1) mod KB_BUF_SIZE"
  have b: "unat (kb_head r) < 256" "unat (kb_tail r) < 256" using assms by (simp_all add: ring_ok_def)
  note nx = ring_next [OF b(1)]
  have full: "?n = kb_tail r \<longleftrightarrow> ring_len r = 255"
    using ring_len_push(1) [OF b] nx by (simp add: word_unat_eq_iff ring_len_def)
  show "ring_ok (buf_push c r)" using b nx by (simp add: buf_push_def ring_ok_def Let_def)
  show "ring_contents (buf_push c r) = (if length (ring_contents r) < 255 then ring_contents r @ [c] else ring_contents r)"
  proof (cases "?n = kb_tail r")
    case True
    then show ?thesis using full by (simp add: buf_push_def ring_contents_def)
  next
    case False
    then have lt: "ring_len r < 255" using full ring_len_lt [of r] by linarith
    let ?r = "r\<lparr>kb_buf := (kb_buf r)(kb_head r := c), kb_head := ?n\<rparr>"
    have "(unat (kb_head r) + 1) mod 256 \<noteq> unat (kb_tail r)" using False nx by (simp add: word_unat_eq_iff)
    then have len: "ring_len ?r = Suc (ring_len r)" using ring_len_push(2) [OF b] nx by (simp add: ring_len_def)
    have slot: "(of_nat ((unat (kb_tail r) + i) mod 256) :: u32) = kb_head r \<longleftrightarrow> i = ring_len r" if "i \<le> ring_len r" for i
      using ring_slots [OF assms that] by (auto simp: word_unat_eq_iff unat_of_nat_eq)
    have "ring_contents ?r = map (\<lambda>i. kb_buf ?r (of_nat ((unat (kb_tail r) + i) mod 256))) [0..<ring_len r] @ [c]"
      using slot [of "ring_len r"] by (simp add: ring_contents_def len)
    also have "map (\<lambda>i. kb_buf ?r (of_nat ((unat (kb_tail r) + i) mod 256))) [0..<ring_len r] = ring_contents r"
      using slot by (auto simp: ring_contents_def)
    finally have "ring_contents ?r = ring_contents r @ [c]" .
    moreover have "buf_push c r = ?r" using False by (simp add: buf_push_def Let_def)
    moreover have "length (ring_contents r) < 255" using lt by (simp add: ring_contents_def)
    ultimately show ?thesis by (simp only: if_True)
  qed
qed

lemma getchar_contents:
  assumes "ring_ok r"
  shows "ring_contents r = [] \<Longrightarrow> keyboard_getchar r = (0, r)"
    "ring_contents r = c # cs \<Longrightarrow> fst (keyboard_getchar r) = c \<and> ring_ok (snd (keyboard_getchar r))
       \<and> ring_contents (snd (keyboard_getchar r)) = cs"
proof -
  have b: "unat (kb_head r) < 256" "unat (kb_tail r) < 256" using assms by (simp_all add: ring_ok_def)
  have e: "ring_len r = 0 \<longleftrightarrow> kb_tail r = kb_head r" using ring_slots [OF assms, of 0] b by (auto simp: word_unat_eq_iff)
  show "ring_contents r = [] \<Longrightarrow> keyboard_getchar r = (0, r)"
    using e by (auto simp: ring_contents_def keyboard_getchar_def)
  assume q: "ring_contents r = c # cs"
  then obtain n where n: "ring_len r = Suc n" by (cases "ring_len r") (auto simp: ring_contents_def)
  let ?t = "(kb_tail r + 1) mod KB_BUF_SIZE"
  let ?r = "r\<lparr>kb_tail := ?t\<rparr>"
  have run: "keyboard_getchar r = (kb_buf r (kb_tail r), ?r)" using e n by (simp add: keyboard_getchar_def)
  note nx = ring_next [OF b(2)]
  have ok: "ring_ok ?r" using b nx by (simp add: ring_ok_def)
  have len: "ring_len ?r = n" using n b nx by (auto simp: ring_len_def mod_if split: if_splits)
  have idx: "(Suc (unat (kb_tail r)) mod 256 + i) mod 256 = Suc (unat (kb_tail r) + i) mod 256" for i
    using mod_add_left_eq [of "Suc (unat (kb_tail r))" 256 i] by simp
  have "ring_contents r = kb_buf r (kb_tail r) # map (\<lambda>i. kb_buf r (of_nat ((unat (kb_tail r) + Suc i) mod 256))) [0..<n]"
    using b(2) by (simp add: ring_contents_def n upt_conv_Cons map_Suc_upt [symmetric] del: upt_Suc)
  also have "map (\<lambda>i. kb_buf r (of_nat ((unat (kb_tail r) + Suc i) mod 256))) [0..<n] = ring_contents ?r"
    by (simp only: ring_contents_def len kb_ring.simps) (simp add: nx idx)
  finally show "fst (keyboard_getchar r) = c \<and> ring_ok (snd (keyboard_getchar r)) \<and> ring_contents (snd (keyboard_getchar r)) = cs"
    using q run ok by simp
qed

interpretation ps2_fifo: bounded_fifo ring_ok ring_contents buf_push keyboard_getchar 255
proof (unfold_locales, goal_cases)
  case (5 s)
  then show ?case using ring_len_lt [of s] by (simp add: ring_contents_def)
qed (use buf_push_contents getchar_contents in blast)+

lemma kb_ops_same: "kb_push = buf_push" "kb_pop = keyboard_getchar"
  by (simp_all add: fun_eq_iff kb_push_def buf_push_def kb_pop_def keyboard_getchar_def)

interpretation virtio_fifo: bounded_fifo ring_ok ring_contents kb_push kb_pop 255
  unfolding kb_ops_same by (rule ps2_fifo.bounded_fifo_axioms)

section \<open>Properties\<close>

text \<open>Property C34. The keyboard ring buffers refine a bounded queue of 255 characters: starting empty,
  the characters pushed come out of \<open>getchar\<close> in order; when more than 255 arrive the later ones are
  dropped and the first 255 survive; draining then yields 0. This holds for the PS/2 and for the
  virtio driver.\<close>

theorem keyboard_ring_is_fifo:
  assumes "ring_ok r" "ring_contents r = []"
  shows "fst (pops keyboard_getchar (min 255 (length cs)) (fold buf_push cs r)) = take 255 cs
    \<and> fst (keyboard_getchar (snd (pops keyboard_getchar (min 255 (length cs)) (fold buf_push cs r)))) = 0
    \<and> fold kb_push cs r = fold buf_push cs r \<and> kb_pop = keyboard_getchar"
proof -
  note f = ps2_fifo.pushes_queued [OF assms(1), of cs]
  note g = ps2_fifo.pops_queued [of "fold buf_push cs r" "min 255 (length cs)"]
  have "ring_contents (snd (pops keyboard_getchar (min 255 (length cs)) (fold buf_push cs r))) = []"
    "ring_ok (snd (pops keyboard_getchar (min 255 (length cs)) (fold buf_push cs r)))"
    "fst (pops keyboard_getchar (min 255 (length cs)) (fold buf_push cs r)) = take 255 cs"
    using f g assms(2) by (auto simp: min_def)
  then show ?thesis using ps2_fifo.pop_empty kb_ops_same by simp
qed

definition empty_ring :: kb_ring where
  "empty_ring = \<lparr>kb_buf = (\<lambda>_. 0), kb_head = 250, kb_tail = 250\<rparr>"

theorem keyboard_ring_is_fifo_witness:
  "ring_ok empty_ring \<and> ring_contents empty_ring = []
   \<and> fst (pops keyboard_getchar 8 (fold buf_push [1, 2, 3, 4, 5, 6, 7, 8] empty_ring)) = [1, 2, 3, 4, 5, 6, 7, 8]"
proof -
  have e: "ring_ok empty_ring" "ring_contents empty_ring = []"
    by (simp_all add: ring_ok_def ring_contents_def ring_len_def empty_ring_def)
  have m: "min 255 (length [1, 2, 3, 4, 5, 6, 7, 8 :: u8]) = 8" by simp
  from keyboard_ring_is_fifo [OF e, of "[1, 2, 3, 4, 5, 6, 7, 8]", unfolded m] show ?thesis using e by simp
qed

lemma tables_same: "scancode_ascii_a64 = scancode_ascii" "scancode_ascii_shift_a64 = scancode_ascii_shift"
  by (simp_all only: scancode_ascii_a64_def scancode_ascii_def scancode_ascii_shift_a64_def scancode_ascii_shift_def)

lemma high_bit_or:
  fixes c :: u8
  assumes "unat c < 128"
  shows "unat (c OR 0x80) = unat c + 128" "(c OR 0x80) AND 0x80 \<noteq> 0" "c AND 0x80 = 0"
proof -
  have z: "c AND 0x80 = 0"
  proof (rule bit_eqI)
    fix n assume "possible_bit TYPE(u8) n"
    have "\<not> bit c 7"
    proof
      assume "bit c 7"
      then have "bit (unat c) 7" by (simp add: bit_unsigned_iff)
      then have "odd (unat c div 128)" by (simp add: bit_iff_odd)
      then show False using assms by simp
    qed
    moreover have "(0x80 :: u8) = 2 ^ 7" by simp
    ultimately show "bit (c AND 0x80) n = bit (0 :: u8) n" by (simp only: bit_and_iff bit_exp_iff) auto
  qed
  then show "c AND 0x80 = 0" .
  have "c OR 0x80 = c + 0x80" using z disjunctive_add_eq_or [of c "0x80"] by simp
  then show "unat (c OR 0x80) = unat c + 128" using assms by (simp add: unat_plus_simple)
  have "(c OR 0x80) AND 0x80 = 0x80" by (rule bit_eqI) (auto simp: bit_and_iff bit_or_iff)
  then show "(c OR 0x80) AND 0x80 \<noteq> 0" by simp
qed

lemma unat_ucast_u8: "unat (x :: u16) < 256 \<Longrightarrow> unat (ucast x :: u8) = unat x"
  by (simp add: unsigned_ucast_eq take_bit_nat_eq_self_iff)

text \<open>Property C40. The two keyboard drivers are equivalent: pressing or releasing the key with code
  \<open>c < 128\<close> changes shift state and queued characters in the same way whether it arrives as a PS/2
  scan code (\<open>c\<close>, or \<open>c OR 0x80\<close> on release) or as a virtio-input event.\<close>

theorem keyboard_drivers_equivalent:
  assumes "unat code < 128"
  shows "handle_scancode (ucast code) k = handle_kbd_event \<lparr>ev_type = EV_KEY, ev_code = code, ev_value = 1\<rparr> k
    \<and> handle_scancode (ucast code OR 0x80) k = handle_kbd_event \<lparr>ev_type = EV_KEY, ev_code = code, ev_value = 0\<rparr> k"
proof -
  let ?c = "ucast code :: u8"
  have u: "unat ?c = unat code" using assms by (simp add: unat_ucast_u8)
  then have lt: "unat ?c < 128" using assms by simp
  note h = high_bit_or [OF lt]
  have eqs: "?c = n \<longleftrightarrow> unat code = unat n" for n by (simp add: word_unat_eq_iff u)
  have oeqs: "?c OR 0x80 = n \<longleftrightarrow> unat code + 128 = unat n" for n by (simp add: word_unat_eq_iff h(1) u)
  have ceqs: "code = n \<longleftrightarrow> unat code = unat n" for n by (simp add: word_unat_eq_iff)
  have "\<not> ?c \<ge> 128" "\<not> code \<ge> 128" using lt assms by (simp_all add: word_le_nat_alt)
  then have "handle_scancode ?c k = handle_kbd_event \<lparr>ev_type = EV_KEY, ev_code = code, ev_value = 1\<rparr> k"
    using h(3) assms
    by (simp add: handle_scancode_def handle_kbd_event_def eqs ceqs SC_LSHIFT_def SC_RSHIFT_def SC_LSHIFT_UP_def
        SC_RSHIFT_UP_def KEY_LEFTSHIFT_def KEY_RIGHTSHIFT_def tables_same kb_ops_same u EV_KEY_def Let_def)
  moreover have "handle_scancode (?c OR 0x80) k = handle_kbd_event \<lparr>ev_type = EV_KEY, ev_code = code, ev_value = 0\<rparr> k"
    using h(2) assms
    by (simp add: handle_scancode_def handle_kbd_event_def oeqs ceqs SC_LSHIFT_def SC_RSHIFT_def SC_LSHIFT_UP_def
        SC_RSHIFT_UP_def KEY_LEFTSHIFT_def KEY_RIGHTSHIFT_def EV_KEY_def)
  ultimately show ?thesis ..
qed

theorem keyboard_drivers_equivalent_witness:
  "handle_scancode 30 \<lparr>kb_ring = empty_ring, shift_held = True\<rparr>
     = handle_kbd_event \<lparr>ev_type = EV_KEY, ev_code = 30, ev_value = 1\<rparr> \<lparr>kb_ring = empty_ring, shift_held = True\<rparr>
   \<and> ring_contents (kb_ring (handle_scancode 30 \<lparr>kb_ring = empty_ring, shift_held = True\<rparr>)) = [65]"
proof
  show "handle_scancode 30 \<lparr>kb_ring = empty_ring, shift_held = True\<rparr>
     = handle_kbd_event \<lparr>ev_type = EV_KEY, ev_code = 30, ev_value = 1\<rparr> \<lparr>kb_ring = empty_ring, shift_held = True\<rparr>"
    using keyboard_drivers_equivalent [of 30 "\<lparr>kb_ring = empty_ring, shift_held = True\<rparr>"] by simp
  show "ring_contents (kb_ring (handle_scancode 30 \<lparr>kb_ring = empty_ring, shift_held = True\<rparr>)) = [65]"
    by (simp add: handle_scancode_def SC_LSHIFT_def SC_RSHIFT_def SC_LSHIFT_UP_def SC_RSHIFT_UP_def
        scancode_ascii_shift_def buf_push_def empty_ring_def ring_contents_def ring_len_def KB_BUF_SIZE_def)
qed

end
