(* ===== verification/Mouse.thy ===== *)
theory Mouse
  imports Keyboard
begin

text \<open>
  Pointing devices: the PS/2 mouse of \<^verbatim>\<open>arch/x86_64/drivers/mouse.c\<close>, a three-byte packet machine
  behind the i8042 controller, and the mouse half of \<^verbatim>\<open>arch/aarch64/drivers/virtio_input.c\<close>.
  Coordinates are 32-bit two's complement words read with \<open>sint\<close>; the size of the framebuffer is an
  argument.
\<close>

section \<open>State\<close>

record mouse =
  mouse_x :: i32
  mouse_y :: i32
  mouse_buttons :: u8
  mouse_dirty :: bool

record ps2_mouse =
  ps2_state :: mouse
  packet :: "u8 list"
  packet_index :: nat

section \<open>The i8042 controller\<close>

definition I8042_DATA :: u16 where "I8042_DATA = 0x60"
definition I8042_STATUS :: u16 where "I8042_STATUS = 0x64"
definition I8042_CMD :: u16 where "I8042_CMD = 0x64"

fun wait_status :: "(u8 \<Rightarrow> bool) \<Rightarrow> nat \<Rightarrow> u16 iobus \<Rightarrow> u16 iobus" where
  "wait_status ready 0 b = b"
| "wait_status ready (Suc timeout) b =
     (let (st, b) = inb I8042_STATUS b in if ready st then b else wait_status ready timeout b)"

definition wait_input_clear :: "u16 iobus \<Rightarrow> u16 iobus" where
  "wait_input_clear = wait_status (\<lambda>st. st AND 0x02 = 0) 100000"

definition wait_output_full :: "u16 iobus \<Rightarrow> u16 iobus" where
  "wait_output_full = wait_status (\<lambda>st. st AND 0x01 \<noteq> 0) 100000"

definition mouse_write :: "u8 \<Rightarrow> u16 iobus \<Rightarrow> u16 iobus" where
  "mouse_write val b =
     (let b = wait_input_clear b;
          b = outb I8042_CMD 0xD4 b;
          b = wait_input_clear b
      in outb I8042_DATA val b)"

definition mouse_read :: "u16 iobus \<Rightarrow> u8 \<times> u16 iobus" where
  "mouse_read b = inb I8042_DATA (wait_output_full b)"

section \<open>PS/2 packets\<close>

text \<open>Clamping to the screen, shared text of both drivers.\<close>

definition clamp_low :: "i32 \<Rightarrow> i32" where
  "clamp_low v = (if sint v < 0 then 0 else v)"

definition clamp_high :: "i32 \<Rightarrow> i32 \<Rightarrow> i32" where
  "clamp_high m v = (if sint m \<ge> 0 \<and> sint v > sint m then m else v)"

definition clamp_mouse :: "u32 \<Rightarrow> u32 \<Rightarrow> mouse \<Rightarrow> mouse" where
  "clamp_mouse fb_width fb_height m =
     (let max_x = fb_width - 1;
          max_y = fb_height - 1;
          m = m\<lparr>mouse_x := clamp_low (mouse_x m)\<rparr>;
          m = m\<lparr>mouse_y := clamp_low (mouse_y m)\<rparr>;
          m = m\<lparr>mouse_x := clamp_high max_x (mouse_x m)\<rparr>
      in m\<lparr>mouse_y := clamp_high max_y (mouse_y m)\<rparr>)"

text \<open>The interrupt handler after the data byte has been read.\<close>

definition mouse_byte :: "u32 \<Rightarrow> u32 \<Rightarrow> u8 \<Rightarrow> ps2_mouse \<Rightarrow> ps2_mouse" where
  "mouse_byte fb_width fb_height data p =
     (if packet_index p = 0 \<and> data AND 0x08 = 0 then p
      else
        let p = p\<lparr>packet := (packet p)[packet_index p := data], packet_index := packet_index p + 1\<rparr>
        in if packet_index p < 3 then p
           else
             let p = p\<lparr>packet_index := 0\<rparr>;
                 m = ps2_state p;
                 dx = ucast (packet p ! 1) :: i32;
                 dy = ucast (packet p ! 2) :: i32;
                 dx = (if packet p ! 0 AND 0x10 \<noteq> 0 then dx - 256 else dx);
                 dy = (if packet p ! 0 AND 0x20 \<noteq> 0 then dy - 256 else dy);
                 m = m\<lparr>mouse_x := mouse_x m + dx, mouse_y := mouse_y m - dy\<rparr>;
                 m = clamp_mouse fb_width fb_height m;
                 m = m\<lparr>mouse_buttons := packet p ! 0 AND 0x07, mouse_dirty := True\<rparr>
             in p\<lparr>ps2_state := m\<rparr>)"

definition mouse_irq :: "u32 \<Rightarrow> u32 \<Rightarrow> u16 iobus \<times> ps2_mouse \<Rightarrow> u16 iobus \<times> ps2_mouse" where
  "mouse_irq fb_width fb_height s =
     (case s of (b, p) \<Rightarrow> let (data, b) = inb I8042_DATA b in (b, mouse_byte fb_width fb_height data p))"

text \<open>The controller part of \<open>mouse_init\<close>, and the whole: \<open>h\<close> is the handler table's value for
  \<open>mouse_irq\<close>.\<close>

definition mouse_setup :: "u16 iobus \<Rightarrow> u16 iobus" where
  "mouse_setup b =
     (let b = outb I8042_CMD 0xA8 (wait_input_clear b);
          b = outb I8042_CMD 0x20 (wait_input_clear b);
          (status, b) = mouse_read b;
          status = status OR 0x02;
          status = status AND NOT 0x20;
          b = outb I8042_CMD 0x60 (wait_input_clear b);
          b = outb I8042_DATA status (wait_input_clear b);
          b = mouse_write 0xF6 b;
          (_, b) = mouse_read b;
          b = mouse_write 0xF4 b;
          (_, b) = mouse_read b
      in b)"

definition mouse_init :: "u32 \<Rightarrow> u32 \<Rightarrow> 'h \<Rightarrow> ('h, 'x) irqs_scheme \<times> ps2_mouse \<Rightarrow> ('h, 'x) irqs_scheme \<times> ps2_mouse" where
  "mouse_init fb_width fb_height h s =
     (case s of (irqs, p) \<Rightarrow>
        let p = p\<lparr>ps2_state := (ps2_state p)\<lparr>mouse_x := fb_width div 2, mouse_y := fb_height div 2\<rparr>\<rparr>;
            irqs = irqs\<lparr>irq_bus := mouse_setup (irq_bus irqs)\<rparr>
        in (irq_install_handler 12 h irqs, p))"

definition mouse_get_state :: "mouse \<Rightarrow> (i32 \<times> i32 \<times> u8) option \<times> mouse" where
  "mouse_get_state m =
     (if \<not> mouse_dirty m then (None, m)
      else (Some (mouse_x m, mouse_y m, mouse_buttons m), m\<lparr>mouse_dirty := False\<rparr>))"

section \<open>virtio-input mouse\<close>

definition REL_X :: u16 where "REL_X = 0"
definition REL_Y :: u16 where "REL_Y = 1"
definition BTN_LEFT :: u16 where "BTN_LEFT = 0x110"
definition BTN_RIGHT :: u16 where "BTN_RIGHT = 0x111"
definition BTN_MIDDLE :: u16 where "BTN_MIDDLE = 0x112"

definition handle_mouse_event :: "u32 \<Rightarrow> u32 \<Rightarrow> virtio_input_event \<Rightarrow> mouse \<Rightarrow> mouse" where
  "handle_mouse_event fb_width fb_height e m =
     (if ev_type e = EV_REL then
        let delta = ev_value e :: i32
        in if ev_code e = REL_X then (clamp_mouse fb_width fb_height (m\<lparr>mouse_x := mouse_x m + delta\<rparr>))\<lparr>mouse_dirty := True\<rparr>
           else if ev_code e = REL_Y then (clamp_mouse fb_width fb_height (m\<lparr>mouse_y := mouse_y m + delta\<rparr>))\<lparr>mouse_dirty := True\<rparr>
           else m
      else if ev_type e = EV_KEY then
        let bt = (if ev_code e = BTN_LEFT then Some 0x01 else if ev_code e = BTN_RIGHT then Some 0x02
                  else if ev_code e = BTN_MIDDLE then Some 0x04 else None)
        in case bt of
             None \<Rightarrow> m
           | Some bt \<Rightarrow> m\<lparr>mouse_buttons := (if ev_value e \<noteq> 0 then mouse_buttons m OR bt else mouse_buttons m AND NOT bt),
                          mouse_dirty := True\<rparr>
      else m)"

section \<open>Clamping\<close>

definition on_screen :: "u32 \<Rightarrow> u32 \<Rightarrow> mouse \<Rightarrow> bool" where
  "on_screen w h m \<longleftrightarrow> 0 \<le> sint (mouse_x m) \<and> sint (mouse_x m) < uint w
     \<and> 0 \<le> sint (mouse_y m) \<and> sint (mouse_y m) < uint h"

definition screen_ok :: "u32 \<Rightarrow> u32 \<Rightarrow> bool" where
  "screen_ok w h \<longleftrightarrow> 0 < uint w \<and> uint w < 2 ^ 31 \<and> 0 < uint h \<and> uint h < 2 ^ 31"

lemma sint_small: "uint (w :: u32) < 2 ^ 31 \<Longrightarrow> sint w = uint w"
  unfolding sint_uint by (rule signed_take_bit_int_eq_self) (simp_all add: order_trans [OF _ uint_ge_0])

lemma sint_max:
  assumes "0 < uint w" "uint w < 2 ^ 31"
  shows "sint (w - 1 :: u32) = uint w - 1"
proof -
  have u: "uint (w - 1) = uint w - 1" using assms by (simp add: uint_word_ariths take_bit_int_eq_self)
  then have "sint (w - 1) = uint (w - 1)" using assms by (intro sint_small) simp
  then show ?thesis using u by simp
qed

lemma clamp_range: "0 \<le> sint m \<Longrightarrow> 0 \<le> sint (clamp_high m (clamp_low v)) \<and> sint (clamp_high m (clamp_low v)) \<le> sint m"
  by (simp add: clamp_low_def clamp_high_def)

lemma clamp_mouse_eq:
  "clamp_mouse w h m = m\<lparr>mouse_x := clamp_high (w - 1) (clamp_low (mouse_x m)),
     mouse_y := clamp_high (h - 1) (clamp_low (mouse_y m))\<rparr>"
  by (simp add: clamp_mouse_def Let_def)

lemma clamp_on_screen:
  assumes "screen_ok w h"
  shows "on_screen w h (clamp_mouse w h m)"
proof -
  have "sint (w - 1) = uint w - 1" "sint (h - 1) = uint h - 1" "0 < uint w" "0 < uint h"
    using assms sint_max by (simp_all add: screen_ok_def)
  then show ?thesis using clamp_range [of "w - 1" "mouse_x m"] clamp_range [of "h - 1" "mouse_y m"]
    by (simp add: clamp_mouse_eq on_screen_def)
qed

lemma on_screen_fields [simp]:
  "on_screen w h (m\<lparr>mouse_buttons := x\<rparr>) = on_screen w h m" "on_screen w h (m\<lparr>mouse_dirty := d\<rparr>) = on_screen w h m"
  by (simp_all add: on_screen_def)

text \<open>\<open>ps2_ok\<close>: between interrupts at most two bytes of a packet are pending.\<close>

definition ps2_ok :: "ps2_mouse \<Rightarrow> bool" where
  "ps2_ok p \<longleftrightarrow> length (packet p) = 3 \<and> packet_index p < 3"

section \<open>Properties\<close>

text \<open>Whatever bytes the PS/2 controller delivers, the packet index stays below 3 and the
  cursor stays on the screen; likewise for every virtio event. The screen must be narrower and lower
  than \<open>2 ^ 31\<close> pixels.\<close>

theorem mouse_stays_on_screen:
  assumes "screen_ok w h" "ps2_ok p" "on_screen w h (ps2_state p)" "on_screen w h m"
  shows "ps2_ok (mouse_byte w h data p) \<and> on_screen w h (ps2_state (mouse_byte w h data p))
    \<and> on_screen w h (handle_mouse_event w h e m)"
proof -
  have "ps2_ok (mouse_byte w h data p)" using assms(2) by (auto simp: ps2_ok_def mouse_byte_def Let_def)
  moreover have "on_screen w h (ps2_state (mouse_byte w h data p))"
    using assms(3) clamp_on_screen [OF assms(1)] by (simp add: mouse_byte_def Let_def)
  moreover have "on_screen w h (handle_mouse_event w h e m)"
    using assms(4) clamp_on_screen [OF assms(1)] by (simp add: handle_mouse_event_def Let_def)
  ultimately show ?thesis by blast
qed

definition demo_mouse :: mouse where
  "demo_mouse = \<lparr>mouse_x = 5, mouse_y = 5, mouse_buttons = 0, mouse_dirty = False\<rparr>"

theorem mouse_stays_on_screen_witness:
  "on_screen 640 480 (handle_mouse_event 640 480 \<lparr>ev_type = EV_REL, ev_code = REL_X, ev_value = 0xFFFFFF00\<rparr> demo_mouse)"
proof -
  have "screen_ok 640 480" "ps2_ok \<lparr>ps2_state = demo_mouse, packet = [0, 0, 0], packet_index = 0\<rparr>"
    "on_screen 640 480 demo_mouse"
    by (simp_all add: screen_ok_def ps2_ok_def on_screen_def demo_mouse_def)
  then show ?thesis
    using mouse_stays_on_screen [of 640 480 "\<lparr>ps2_state = demo_mouse, packet = [0, 0, 0], packet_index = 0\<rparr>" demo_mouse 0]
    by simp
qed

text \<open>The 9-bit two's complement movement encoded by a sign bit and a data byte.\<close>

definition delta9 :: "bool \<Rightarrow> u8 \<Rightarrow> int" where
  "delta9 sign b = uint b - (if sign then 256 else 0)"

text \<open>From packet index 0, bytes without the sync bit are skipped, and three bytes that
  begin with a sync byte are consumed as one packet: the cursor moves by the two 9-bit signed
  deltas (Y inverted), is clamped to the screen, the buttons are the low three bits of the first
  byte, and the machine is back at index 0.\<close>

theorem mouse_packet_decoded:
  assumes "length (packet p) = 3" "packet_index p = 0"
  shows "(b0 AND 0x08 = 0 \<longrightarrow> mouse_byte w h b0 p = p)
    \<and> (b0 AND 0x08 \<noteq> 0 \<longrightarrow>
        (let q = mouse_byte w h b2 (mouse_byte w h b1 (mouse_byte w h b0 p)); m = ps2_state p in
         packet_index q = 0 \<and> ps2_state q =
           (clamp_mouse w h (m\<lparr>mouse_x := mouse_x m + of_int (delta9 (b0 AND 0x10 \<noteq> 0) b1),
                                mouse_y := mouse_y m - of_int (delta9 (b0 AND 0x20 \<noteq> 0) b2)\<rparr>))
             \<lparr>mouse_buttons := b0 AND 0x07, mouse_dirty := True\<rparr>))"
proof -
  obtain x y z where p: "packet p = [x, y, z]" using assms(1) by (auto simp: numeral_3_eq_3 length_Suc_conv)
  have d: "(of_int (delta9 s b) :: i32) = (if s then ucast b - 256 else ucast b)" for s b
    by (simp add: delta9_def unsigned_of_int)
  show ?thesis unfolding d using assms(2)
    by (simp add: mouse_byte_def Let_def p)
qed

theorem mouse_packet_decoded_witness:
  "let p = \<lparr>ps2_state = demo_mouse, packet = [0, 0, 0], packet_index = 0\<rparr>;
       q = mouse_byte 640 480 3 (mouse_byte 640 480 10 (mouse_byte 640 480 0x09 p))
   in mouse_x (ps2_state q) = 15 \<and> mouse_y (ps2_state q) = 2 \<and> mouse_buttons (ps2_state q) = 1"
  using mouse_packet_decoded [of "\<lparr>ps2_state = demo_mouse, packet = [0, 0, 0], packet_index = 0\<rparr>" "0x09" 640 480 3 10]
  by (simp add: Let_def delta9_def demo_mouse_def clamp_mouse_eq clamp_low_def clamp_high_def)

end
