(* ===== verification/Gui.thy ===== *)
theory Gui
  imports Framebuffer Mouse "HOL-Library.Multiset"
begin

text \<open>
  The windowing compositor, \<^verbatim>\<open>gui/gui.c\<close>: up to four windows, stacked in array order with the topmost last,
  moved by their title bars. The graphics and mouse calls of the architecture layer are arguments
  (\<open>fill\<close> and \<open>text\<close> act on memory, \<open>getm\<close> polls the mouse); the locale \<open>gfx\<close> states what the compositor relies on
  and both framebuffer drivers are shown to provide it. Coordinates are 32-bit words compared with \<open>sint\<close>; their sums and differences wrap, also
  where a signed overflow is undefined in C (no statement depends on their values there).
\<close>

record window =
  win_x :: i32
  win_y :: i32
  win_w :: u32
  win_h :: u32
  win_color :: u32
  win_title :: "u8 list"

record gui =
  windows :: "window list"
  window_count :: nat
  cursor_x :: i32
  cursor_y :: i32
  cursor_buttons :: u8
  prev_left_down :: bool
  drag_window :: int
  drag_offset_x :: i32
  drag_offset_y :: i32
  last_redraw_tick :: u64

definition GUI_MAX_WINDOWS :: nat where "GUI_MAX_WINDOWS = 4"
definition TITLEBAR_HEIGHT :: u32 where "TITLEBAR_HEIGHT = 20"
definition CURSOR_SIZE :: u32 where "CURSOR_SIZE = 10"

definition raise_window :: "nat \<Rightarrow> gui \<Rightarrow> gui" where
  "raise_window index g =
     (let tmp = windows g ! index;
          ws = fold (\<lambda>j ws. ws[j := ws ! (j + 1)]) [index..<window_count g - 1] (windows g)
      in g\<lparr>windows := ws[window_count g - 1 := tmp]\<rparr>)"

definition in_win :: "gui \<Rightarrow> window \<Rightarrow> bool" where
  "in_win g w \<longleftrightarrow> sint (cursor_x g) \<ge> sint (win_x w) \<and> sint (cursor_x g) < sint (win_x w + win_w w)
     \<and> sint (cursor_y g) \<ge> sint (win_y w) \<and> sint (cursor_y g) < sint (win_y w + win_h w)"

text \<open>The loop of \<open>handle_click\<close> over \<open>i - 1, \<dots>, 0\<close>.\<close>

primrec click_scan :: "nat \<Rightarrow> gui \<Rightarrow> gui" where
  "click_scan 0 g = g"
| "click_scan (Suc i) g =
     (let w = windows g ! i
      in if \<not> in_win g w then click_scan i g
         else
           let g = (if sint (cursor_y g) < sint (win_y w + TITLEBAR_HEIGHT)
                    then g\<lparr>drag_offset_x := cursor_x g - win_x w, drag_offset_y := cursor_y g - win_y w\<rparr>
                    else g\<lparr>windows := (windows g)[i := w\<lparr>win_color := win_color w XOR 0x00202020\<rparr>]\<rparr>);
               g = raise_window i g
           in g\<lparr>drag_window := int (window_count g) - 1\<rparr>)"

definition handle_click :: "gui \<Rightarrow> gui" where
  "handle_click g = click_scan (window_count g) g"

type_synonym fill_op = "u32 \<Rightarrow> u32 \<Rightarrow> u32 \<Rightarrow> u32 \<Rightarrow> u32 \<Rightarrow> mem \<Rightarrow> mem"
type_synonym text_op = "u32 \<Rightarrow> u32 \<Rightarrow> u8 list \<Rightarrow> u32 \<Rightarrow> u32 \<Rightarrow> mem \<Rightarrow> mem"

definition draw_window :: "fill_op \<Rightarrow> text_op \<Rightarrow> window \<Rightarrow> mem \<Rightarrow> mem" where
  "draw_window fill text win m =
     (let m = fill (win_x win) (win_y win) (win_w win) (win_h win) (win_color win) m;
          m = fill (win_x win) (win_y win) (win_w win) TITLEBAR_HEIGHT 0x00222222 m
      in text (win_x win + 4) (win_y win + 6) (win_title win) 0x00FFFFFF 0x00222222 m)"

definition draw_cursor :: "fill_op \<Rightarrow> gui \<Rightarrow> mem \<Rightarrow> mem" where
  "draw_cursor fill g m =
     (let m = fill (cursor_x g) (cursor_y g) CURSOR_SIZE CURSOR_SIZE 0x00FFFFFF m
      in fill (cursor_x g + 1) (cursor_y g + 1) (CURSOR_SIZE - 2) (CURSOR_SIZE - 2) 0x00000000 m)"

definition gui_init :: "bool \<Rightarrow> u32 \<Rightarrow> u32 \<Rightarrow> gui \<Rightarrow> gui" where
  "gui_init gfx_available width height g =
     (if \<not> gfx_available then g
      else
        let g = g\<lparr>cursor_x := width div 2, cursor_y := height div 2\<rparr>;
            ws = windows g;
            ws = ws[0 := \<lparr>win_x = 40, win_y = 40, win_w = 220, win_h = 140, win_color = 0x00335577,
                   win_title = [0x4D, 0x45, 0x47, 0x4B, 0x45, 0x52]\<rparr>];
            ws = ws[1 := \<lparr>win_x = 300, win_y = 100, win_w = 200, win_h = 120, win_color = 0x00553333,
                   win_title = [0x57, 0x49, 0x4E, 0x44, 0x4F, 0x57, 0x20, 0x32]\<rparr>]
        in g\<lparr>windows := ws, window_count := 2\<rparr>)"

text \<open>The input half of \<open>gui_update\<close>: cursor, click, drag.\<close>

definition gui_input :: "(i32 \<times> i32 \<times> u8) option \<Rightarrow> gui \<Rightarrow> gui" where
  "gui_input mouse g =
     (let g = (case mouse of None \<Rightarrow> g | Some (mx, my, mbtn) \<Rightarrow> g\<lparr>cursor_x := mx, cursor_y := my, cursor_buttons := mbtn\<rparr>);
          left_down = cursor_buttons g AND 0x01 \<noteq> 0;
          g = (if left_down \<and> \<not> prev_left_down g then handle_click g else g);
          g = (if \<not> left_down then g\<lparr>drag_window := - 1\<rparr> else g);
          g = g\<lparr>prev_left_down := left_down\<rparr>
      in if drag_window g \<ge> 0
         then let i = nat (drag_window g)
              in g\<lparr>windows := (windows g)[i := (windows g ! i)\<lparr>win_x := cursor_x g - drag_offset_x g,
                     win_y := cursor_y g - drag_offset_y g\<rparr>]\<rparr>
         else g)"

definition gui_update ::
    "bool \<Rightarrow> u32 \<Rightarrow> u32 \<Rightarrow> fill_op \<Rightarrow> text_op \<Rightarrow> ('s \<Rightarrow> (i32 \<times> i32 \<times> u8) option \<times> 's) \<Rightarrow> u64 \<Rightarrow> gui \<times> 's \<times> mem \<Rightarrow> gui \<times> 's \<times> mem" where
  "gui_update gfx_available width height fill text getm now = (\<lambda>(g, s, m).
     if \<not> gfx_available then (g, s, m)
     else
       let (mouse, s) = getm s;
           g = gui_input mouse g
       in if now - last_redraw_tick g < 3 then (g, s, m)
          else
            let g = g\<lparr>last_redraw_tick := now\<rparr>;
                m = fill 0 0 width height 0x00102030 m;
                m = fold (\<lambda>i. draw_window fill text (windows g ! i)) [0..<window_count g] m
            in (g, s, draw_cursor fill g m))"

section \<open>Raising a window\<close>

lemma shift_down:
  assumes "i \<le> k" "k < length ws"
  shows "fold (\<lambda>j ws. ws[j := ws ! (j + 1)]) [i..<k] ws = take i ws @ map (\<lambda>j. ws ! (j + 1)) [i..<k] @ drop k ws"
  using assms
proof (induction k)
  case 0 then show ?case by simp
next
  case (Suc k)
  show ?case
  proof (cases "i = Suc k")
    case True then show ?thesis by simp
  next
    case False
    then have le: "i \<le> k" "k < length ws" using Suc.prems by simp_all
    let ?a = "take i ws @ map (\<lambda>j. ws ! (j + 1)) [i..<k]"
    have a: "length ?a = k" using le by simp
    have d: "drop k ws = ws ! k # drop (Suc k) ws" using le by (simp add: Cons_nth_drop_Suc)
    have at: "(xs @ y # ys)[k := v] = xs @ v # ys" "(xs @ y # ys) ! (k + 1) = ys ! 0" if "length xs = k" for xs ys y v
      using that by (auto simp: nth_append)
    have "(?a @ drop k ws) ! (k + 1) = ws ! (k + 1)" unfolding d at(2) [OF a] using Suc.prems by simp
    moreover have "(?a @ drop k ws)[k := v] = ?a @ v # drop (Suc k) ws" for v unfolding d by (rule at(1) [OF a])
    ultimately show ?thesis using Suc.IH [OF le] le by simp
  qed
qed

text \<open>Raising moves one window behind all the others and keeps their order.\<close>

lemma raise_window_list:
  assumes "i < window_count g" "window_count g \<le> length (windows g)"
  shows "windows (raise_window i g) = take i (windows g) @ take (window_count g - 1 - i) (drop (Suc i) (windows g))
     @ windows g ! i # drop (window_count g) (windows g)"
proof -
  let ?ws = "windows g" and ?k = "window_count g - 1"
  have k: "i \<le> ?k" "?k < length ?ws" "Suc ?k = window_count g" using assms by simp_all
  have "map (\<lambda>j. ?ws ! (j + 1)) [i..<?k] = take (?k - i) (drop (Suc i) ?ws)"
    using k by (intro nth_equalityI) (auto simp: add.commute)
  then have "fold (\<lambda>j ws. ws[j := ws ! (j + 1)]) [i..<?k] ?ws = take i ?ws @ take (?k - i) (drop (Suc i) ?ws) @ drop ?k ?ws"
    using shift_down [OF k(1,2)] by simp
  moreover have "drop ?k ?ws = ?ws ! ?k # drop (window_count g) ?ws" using k Cons_nth_drop_Suc [OF k(2)] by simp
  moreover have "length (take i ?ws @ take (?k - i) (drop (Suc i) ?ws)) = ?k" using k by simp
  then have "((take i ?ws @ take (?k - i) (drop (Suc i) ?ws)) @ y # ys)[?k := v] = (take i ?ws @ take (?k - i) (drop (Suc i) ?ws)) @ v # ys" for y v ys
    by (metis list_update_length)
  ultimately show ?thesis unfolding raise_window_def Let_def by (simp del: One_nat_def)
qed

lemma raise_window_keeps [simp]:
  "window_count (raise_window i g) = window_count g" "drag_window (raise_window i g) = drag_window g"
  "cursor_x (raise_window i g) = cursor_x g" "cursor_y (raise_window i g) = cursor_y g" "cursor_buttons (raise_window i g) = cursor_buttons g"
  "prev_left_down (raise_window i g) = prev_left_down g" "drag_offset_x (raise_window i g) = drag_offset_x g"
  "drag_offset_y (raise_window i g) = drag_offset_y g" "last_redraw_tick (raise_window i g) = last_redraw_tick g"
  by (simp_all add: raise_window_def Let_def)

lemma raise_window_perm:
  assumes "i < window_count g" "window_count g \<le> length (windows g)"
  shows "length (windows (raise_window i g)) = length (windows g)"
    "mset (windows (raise_window i g)) = mset (windows g)"
    "windows (raise_window i g) ! (window_count g - 1) = windows g ! i"
    "drop (window_count g) (windows (raise_window i g)) = drop (window_count g) (windows g)"
proof -
  let ?ws = "windows g" and ?n = "window_count g"
  let ?a = "take i ?ws @ take (?n - 1 - i) (drop (Suc i) ?ws)"
  have r: "windows (raise_window i g) = ?a @ ?ws ! i # drop ?n ?ws" using raise_window_list [OF assms] by simp
  have l: "length ?a = ?n - 1" using assms by simp
  have "?ws = take i ?ws @ ?ws ! i # drop (Suc i) ?ws" using assms by (intro id_take_nth_drop) simp
  moreover have "drop (Suc i) ?ws = take (?n - 1 - i) (drop (Suc i) ?ws) @ drop ?n ?ws"
    using assms append_take_drop_id [of "?n - 1 - i" "drop (Suc i) ?ws"] by (simp add: add.commute)
  ultimately have split: "?ws = take i ?ws @ ?ws ! i # take (?n - 1 - i) (drop (Suc i) ?ws) @ drop ?n ?ws" by simp
  show m: "mset (windows (raise_window i g)) = mset ?ws" unfolding r by (subst (5) split) (simp add: ac_simps)
  from arg_cong [OF m, of size] show "length (windows (raise_window i g)) = length ?ws" by simp
  have "(?a @ ?ws ! i # drop ?n ?ws) ! (?n - 1) = ?ws ! i" using l by (metis nth_append_length)
  then show "windows (raise_window i g) ! (?n - 1) = ?ws ! i" unfolding r by simp
  have "drop ?n (?a @ ?ws ! i # drop ?n ?ws) = drop ?n ?ws" using l assms by simp
  then show "drop ?n (windows (raise_window i g)) = drop ?n ?ws" unfolding r .
qed

section \<open>Clicks\<close>

definition press_window :: "nat \<Rightarrow> gui \<Rightarrow> gui" where
  "press_window i g =
     (if sint (cursor_y g) < sint (win_y (windows g ! i) + TITLEBAR_HEIGHT)
      then g\<lparr>drag_offset_x := cursor_x g - win_x (windows g ! i), drag_offset_y := cursor_y g - win_y (windows g ! i)\<rparr>
      else g\<lparr>windows := (windows g)[i := (windows g ! i)\<lparr>win_color := win_color (windows g ! i) XOR 0x00202020\<rparr>]\<rparr>)"

text \<open>A click goes to the topmost window under the cursor, or to none.\<close>

lemma click_scan_cases:
  obtains (hit) j where "j < i" "in_win g (windows g ! j)" "\<forall>k. j < k \<and> k < i \<longrightarrow> \<not> in_win g (windows g ! k)"
      "click_scan i g = (raise_window j (press_window j g))\<lparr>drag_window := int (window_count g) - 1\<rparr>"
    | (miss) "\<forall>k < i. \<not> in_win g (windows g ! k)" "click_scan i g = g"
proof (induction i arbitrary: thesis)
  case 0 then show ?case by simp
next
  case (Suc i)
  have c: "window_count (press_window i g) = window_count g" by (simp add: press_window_def)
  show ?case
  proof (cases "in_win g (windows g ! i)")
    case True
    then have "click_scan (Suc i) g = (raise_window i (press_window i g))\<lparr>drag_window := int (window_count g) - 1\<rparr>"
      by (simp add: press_window_def Let_def)
    moreover have "\<forall>k. i < k \<and> k < Suc i \<longrightarrow> \<not> in_win g (windows g ! k)" by auto
    ultimately show ?thesis using Suc.prems(1) [OF lessI True] by blast
  next
    case False
    then have e: "click_scan (Suc i) g = click_scan i g" by simp
    show ?thesis
    proof (rule Suc.IH)
      fix j assume "j < i" "in_win g (windows g ! j)" "\<forall>k. j < k \<and> k < i \<longrightarrow> \<not> in_win g (windows g ! k)"
        "click_scan i g = (raise_window j (press_window j g))\<lparr>drag_window := int (window_count g) - 1\<rparr>"
      then show ?thesis using Suc.prems(1) [of j] e False by (auto simp: less_Suc_eq)
    next
      assume "\<forall>k < i. \<not> in_win g (windows g ! k)" "click_scan i g = g"
      then show ?thesis using Suc.prems(2) e False by (auto simp: less_Suc_eq)
    qed
  qed
qed

definition gui_ok :: "gui \<Rightarrow> bool" where
  "gui_ok g \<longleftrightarrow> length (windows g) = GUI_MAX_WINDOWS \<and> window_count g \<le> GUI_MAX_WINDOWS
     \<and> - 1 \<le> drag_window g \<and> drag_window g < int (window_count g)"

text \<open>What identifies a window: everything but its place and colour.\<close>

definition win_id :: "window \<Rightarrow> u32 \<times> u32 \<times> u8 list" where
  "win_id w = (win_w w, win_h w, win_title w)"

definition win_ids :: "gui \<Rightarrow> (u32 \<times> u32 \<times> u8 list) multiset" where
  "win_ids g = image_mset win_id (mset (windows g))"

lemma win_ids_update:
  assumes "win_id w = win_id (windows g ! i)"
  shows "win_ids (g\<lparr>windows := (windows g)[i := w]\<rparr>) = win_ids g"
proof -
  have "map win_id ((windows g)[i := w]) = map win_id (windows g)"
    using assms by (cases "i < length (windows g)") (simp_all add: map_update list_update_same_conv list_update_beyond)
  then show ?thesis unfolding win_ids_def by (simp flip: mset_map)
qed

lemma press_window_keeps:
  "window_count (press_window i g) = window_count g" "length (windows (press_window i g)) = length (windows g)"
  "win_ids (press_window i g) = win_ids g" "drag_window (press_window i g) = drag_window g"
  using win_ids_update [of "(windows g ! i)\<lparr>win_color := win_color (windows g ! i) XOR 0x00202020\<rparr>" g i]
  by (simp_all add: press_window_def win_id_def win_ids_def)

lemma handle_click_ok:
  assumes "gui_ok g"
  shows "gui_ok (handle_click g)" "win_ids (handle_click g) = win_ids g" "window_count (handle_click g) = window_count g"
proof -
  have "gui_ok (handle_click g) \<and> win_ids (handle_click g) = win_ids g \<and> window_count (handle_click g) = window_count g"
  proof (cases rule: click_scan_cases [of "window_count g" g])
    case (hit j)
    let ?p = "press_window j g"
    have j: "j < window_count ?p" "window_count ?p \<le> length (windows ?p)"
      using hit(1) assms by (simp_all add: press_window_keeps gui_ok_def)
    note r = raise_window_perm [OF j]
    have "win_ids (raise_window j ?p) = win_ids g" using r(2) press_window_keeps(3) [of j g] by (simp add: win_ids_def)
    moreover have "length (windows (raise_window j ?p)) = length (windows g)" using r(1) by (simp add: press_window_keeps)
    ultimately show ?thesis using hit(1,4) assms by (simp add: handle_click_def gui_ok_def win_ids_def press_window_keeps)
  next
    case miss then show ?thesis using assms by (simp add: handle_click_def)
  qed
  then show "gui_ok (handle_click g)" "win_ids (handle_click g) = win_ids g" "window_count (handle_click g) = window_count g" by simp_all
qed

lemma gui_input_ok:
  assumes "gui_ok g"
  shows "gui_ok (gui_input mouse g)" "win_ids (gui_input mouse g) = win_ids g" "window_count (gui_input mouse g) = window_count g"
    "cursor_buttons (gui_input mouse g) AND 1 = 0 \<Longrightarrow> drag_window (gui_input mouse g) = - 1"
proof -
  define g0 where "g0 = (case mouse of None \<Rightarrow> g | Some (mx, my, mbtn) \<Rightarrow> g\<lparr>cursor_x := mx, cursor_y := my, cursor_buttons := mbtn\<rparr>)"
  define left where "left \<longleftrightarrow> cursor_buttons g0 AND 0x01 \<noteq> 0"
  define g1 where "g1 = (if left \<and> \<not> prev_left_down g0 then handle_click g0 else g0)"
  define g2 where "g2 = (if \<not> left then g1\<lparr>drag_window := - 1\<rparr> else g1)\<lparr>prev_left_down := left\<rparr>"
  have g0: "gui_ok g0" "win_ids g0 = win_ids g" "window_count g0 = window_count g"
    using assms by (auto simp: g0_def gui_ok_def win_ids_def split: option.splits)
  have g1: "gui_ok g1" "win_ids g1 = win_ids g" "window_count g1 = window_count g"
    using g0 handle_click_ok [OF g0(1)] by (simp_all add: g1_def)
  have g2: "gui_ok g2" "win_ids g2 = win_ids g" "window_count g2 = window_count g" "\<not> left \<Longrightarrow> drag_window g2 = - 1"
    using g1 by (auto simp: g2_def gui_ok_def win_ids_def)
  have b: "cursor_buttons g1 = cursor_buttons g0"
  proof (cases rule: click_scan_cases [of "window_count g0" g0])
    case (hit j) then show ?thesis by (simp add: g1_def handle_click_def press_window_def)
  qed (simp add: g1_def handle_click_def)
  let ?i = "nat (drag_window g2)"
  have r: "gui_input mouse g = (if drag_window g2 \<ge> 0
      then g2\<lparr>windows := (windows g2)[?i := (windows g2 ! ?i)\<lparr>win_x := cursor_x g2 - drag_offset_x g2, win_y := cursor_y g2 - drag_offset_y g2\<rparr>]\<rparr>
      else g2)"
    unfolding gui_input_def g0_def [symmetric] Let_def left_def [symmetric] g1_def [symmetric] g2_def [symmetric]
    by (simp add: g2_def)
  show "gui_ok (gui_input mouse g)" using g2(1) unfolding r by (simp add: gui_ok_def)
  show "win_ids (gui_input mouse g) = win_ids g" unfolding r using g2(2) win_ids_update [of _ g2 ?i] by (simp add: win_id_def)
  show "window_count (gui_input mouse g) = window_count g" using g2(3) unfolding r by simp
  have "cursor_buttons (gui_input mouse g) = cursor_buttons g0" unfolding r using b by (simp add: g2_def)
  then show "drag_window (gui_input mouse g) = - 1" if "cursor_buttons (gui_input mouse g) AND 1 = 0"
    using that g2(4) unfolding r by (simp add: left_def)
qed

lemma gui_input_tick: "last_redraw_tick (gui_input mouse g) = last_redraw_tick g"
proof -
  have "last_redraw_tick (handle_click h) = last_redraw_tick h" for h
    by (cases rule: click_scan_cases [of "window_count h" h]) (simp_all add: handle_click_def press_window_def)
  then show ?thesis by (simp add: gui_input_def Let_def split: option.splits)
qed

section \<open>What the compositor relies on, and where it draws\<close>

locale gfx =
  fixes fill :: fill_op and draw :: text_op and area :: "u64 set"
  assumes fill_area: "a \<notin> area \<Longrightarrow> fill x y w h c m a = m a"
    and text_area: "a \<notin> area \<Longrightarrow> draw x y s fg bg m a = m a"
begin

lemma redraw_area:
  assumes "a \<notin> area"
  shows "snd (snd (gui_update av wd ht fill draw getm now (g, s, m))) a = m a"
proof -
  have d: "draw_window fill draw w m a = m a" for w m
    using assms by (simp add: draw_window_def Let_def fill_area text_area)
  have "fold (\<lambda>i. draw_window fill draw (ws ! i)) is m a = m a" for ws "is" m
    by (induction "is" arbitrary: m) (simp_all add: d)
  then show ?thesis using assms by (simp add: gui_update_def draw_cursor_def Let_def split_def fill_area)
qed

end

definition fb_area :: "fb_info option \<Rightarrow> u64 set" where
  "fb_area fb = (case fb of None \<Rightarrow> {} | Some f \<Rightarrow> if fb_ok f then fb_bytes f else UNIV)"

interpretation x86_gfx: gfx "fb_fill_rect fb" "fb_draw_string fb" "fb_area fb" for fb
proof
  fix a x y w h c s fg bg m assume a: "a \<notin> fb_area fb"
  have n: "draw_chars draw x cx cy s m = m" if "\<And>x y c m. draw x y c m = m" for draw cx cy and s :: "u8 list" and m
    using that by (induction s arbitrary: cx cy m) simp_all
  have "fb_draw_char None x y c fg bg m = m" for x y c m
    by (simp add: fb_draw_char_def draw_glyph_def fb_put_pixel_def Let_def fold_id)
  then have none: "fb_draw_string None x y s fg bg m = m" "fb_fill_rect None x y w h c m = m"
    by (simp_all add: fb_draw_string_def fb_fill_rect_def n)
  show "fb_fill_rect fb x y w h c m a = m a" "fb_draw_string fb x y s fg bg m a = m a"
    using a none paints_rect [of _ x y w h c] paints_string [of _ x y s fg bg]
    by (auto simp: fb_area_def paints_def split: option.splits if_splits)
qed

definition fbs_info :: "fb_state \<Rightarrow> fb_info" where
  "fbs_info g = \<lparr>fb_present = fbs_present g, fb_addr = fbs_addr g, fb_pitch = fbs_pitch g, fb_w = fbs_width g, fb_h = fbs_height g, fb_bpp = 32\<rparr>"

interpretation a64_gfx: gfx "fb_fill_rect_a64 g" "fb_draw_string_a64 g" "fb_area (Some (fbs_info g))" for g
proof -
  have "fb_fill_rect_a64 g = fb_fill_rect (Some (fbs_info g))" "fb_draw_string_a64 g = fb_draw_string (Some (fbs_info g))"
    by (rule a64_draws; simp add: fbs_info_def)+
  then show "gfx (fb_fill_rect_a64 g) (fb_draw_string_a64 g) (fb_area (Some (fbs_info g)))" by (simp only: x86_gfx.gfx_axioms)
qed

section \<open>Properties\<close>

text \<open>Property C38. The compositor's state stays well formed: whatever the mouse reports, \<open>gui_update\<close> keeps the
  four-entry window array, indexes it only inside the windows in use, never loses or duplicates a
  window, ends a drag as soon as the left button is up, and redraws only inside the framebuffer and
  at most once per three timer ticks.\<close>

theorem gui_update_ok:
  assumes "gui_ok g" "gui_update av wd ht (fb_fill_rect fb) (fb_draw_string fb) getm now (g, s, m) = (g', s', m')"
  shows "gui_ok g' \<and> win_ids g' = win_ids g \<and> window_count g' = window_count g
     \<and> (av \<and> cursor_buttons g' AND 1 = 0 \<longrightarrow> drag_window g' = - 1)
     \<and> (\<forall>a. a \<notin> fb_area fb \<longrightarrow> m' a = m a)
     \<and> (if av \<and> \<not> now - last_redraw_tick g < 3 then last_redraw_tick g' = now
        else m' = m \<and> last_redraw_tick g' = last_redraw_tick g)"
proof -
  have "\<forall>a. a \<notin> fb_area fb \<longrightarrow> m' a = m a"
    using x86_gfx.redraw_area [of _ fb av wd ht getm now g s m] assms(2) by simp
  then show ?thesis
    using assms gui_input_ok [OF assms(1), of "fst (getm s)"] gui_input_tick [of "fst (getm s)" g]
    by (auto simp: gui_update_def gui_ok_def win_ids_def Let_def split_def split: if_splits)
qed

definition boot_gui :: gui where
  "boot_gui = \<lparr>windows = replicate 4 \<lparr>win_x = 0, win_y = 0, win_w = 0, win_h = 0, win_color = 0, win_title = []\<rparr>, window_count = 0,
     cursor_x = 0, cursor_y = 0, cursor_buttons = 0, prev_left_down = False, drag_window = - 1, drag_offset_x = 0, drag_offset_y = 0,
     last_redraw_tick = 0\<rparr>"

definition demo_gui :: gui where
  "demo_gui = gui_init True 1024 768 boot_gui"

lemma demo_gui_facts: "gui_ok demo_gui" "window_count demo_gui = 2" "\<not> prev_left_down demo_gui"
  "drag_offset_x demo_gui = 0" "drag_offset_y demo_gui = 0"
  by (simp_all add: demo_gui_def gui_init_def boot_gui_def gui_ok_def GUI_MAX_WINDOWS_def Let_def)

theorem gui_update_ok_witness:
  "\<exists>g' s' m'. gui_update True 1024 768 (fb_fill_rect (Some demo_fb)) (fb_draw_string (Some demo_fb)) (\<lambda>s. (Some (60, 45, 1), s)) 5
       (demo_gui, (), \<lambda>_. 0) = (g', s', m') \<and> gui_ok g' \<and> last_redraw_tick g' = 5"
proof -
  obtain g' s' m' where u: "gui_update True 1024 768 (fb_fill_rect (Some demo_fb)) (fb_draw_string (Some demo_fb)) (\<lambda>s. (Some (60, 45, 1), s)) 5
       (demo_gui, (), \<lambda>_. 0) = (g', s', m')" by (metis prod_cases3)
  have "last_redraw_tick demo_gui = 0" by (simp add: demo_gui_def gui_init_def boot_gui_def Let_def)
  then show ?thesis using gui_update_ok [OF demo_gui_facts(1) u] u by simp
qed

text \<open>The press of the left button on the topmost window under the cursor.\<close>

lemma gui_press:
  assumes g: "gui_ok g" "\<not> prev_left_down g" and btn: "b AND 1 \<noteq> 0"
    and j: "j < window_count g" "in_win (g\<lparr>cursor_x := cx, cursor_y := cy\<rparr>) (windows g ! j)"
      "\<forall>k. j < k \<and> k < window_count g \<longrightarrow> \<not> in_win (g\<lparr>cursor_x := cx, cursor_y := cy\<rparr>) (windows g ! k)"
  defines "p \<equiv> raise_window j (press_window j (g\<lparr>cursor_x := cx, cursor_y := cy, cursor_buttons := b\<rparr>))"
    and "n \<equiv> window_count g - 1"
  shows "gui_input (Some (cx, cy, b)) g =
    p\<lparr>prev_left_down := True, drag_window := int n,
      windows := (windows p)[n := (windows p ! n)\<lparr>win_x := cx - drag_offset_x p, win_y := cy - drag_offset_y p\<rparr>]\<rparr>"
proof -
  let ?g = "g\<lparr>cursor_x := cx, cursor_y := cy, cursor_buttons := b\<rparr>"
  have same: "in_win ?g w = in_win (g\<lparr>cursor_x := cx, cursor_y := cy\<rparr>) w" for w by (simp add: in_win_def)
  have "handle_click ?g = p\<lparr>drag_window := int n\<rparr>"
  proof (cases rule: click_scan_cases [of "window_count g" ?g])
    case (hit i)
    have h: "in_win ?g (windows g ! i)" "\<forall>k. i < k \<and> k < window_count g \<longrightarrow> \<not> in_win ?g (windows g ! k)" using hit(2,3) by simp_all
    have "\<not> i < j" "\<not> j < i" using h j hit(1) unfolding same by blast+
    then have "i = j" by simp
    then show ?thesis using hit(4) j(1) by (simp add: handle_click_def p_def n_def)
  next
    case miss then show ?thesis using j(1,2) unfolding same by simp
  qed
  moreover have "cursor_x p = cx" "cursor_y p = cy" by (simp_all add: p_def press_window_def)
  ultimately show ?thesis using g(2) btn by (simp add: gui_input_def Let_def)
qed

text \<open>A title-bar drag moves the window: pressing the left button on the title bar of the topmost
  window under the cursor raises that window without moving it and keeps all the others in order, and
  moving the mouse with the button held moves exactly that window by exactly the mouse's movement.\<close>

theorem gui_title_drag:
  fixes g cx cy j
  defines "gc \<equiv> g\<lparr>cursor_x := cx, cursor_y := cy\<rparr>" and "w \<equiv> windows g ! j" and "n \<equiv> window_count g - 1"
  assumes "gui_ok g" "\<not> prev_left_down g" "b AND 1 \<noteq> 0" "b' AND 1 \<noteq> 0"
    and "j < window_count g" "in_win gc w" "\<forall>k. j < k \<and> k < window_count g \<longrightarrow> \<not> in_win gc (windows g ! k)"
    and "sint cy < sint (win_y w + TITLEBAR_HEIGHT)"
  shows "let g1 = gui_input (Some (cx, cy, b)) g; g2 = gui_input (Some (cx', cy', b')) g1
     in windows g1 = take j (windows g) @ take (n - j) (drop (Suc j) (windows g)) @ w # drop (Suc n) (windows g)
      \<and> windows g2 = (windows g1)[n := w\<lparr>win_x := win_x w + (cx' - cx), win_y := win_y w + (cy' - cy)\<rparr>]"
proof -
  let ?q = "press_window j (g\<lparr>cursor_x := cx, cursor_y := cy, cursor_buttons := b\<rparr>)"
  have q: "?q = g\<lparr>cursor_x := cx, cursor_y := cy, cursor_buttons := b, drag_offset_x := cx - win_x w, drag_offset_y := cy - win_y w\<rparr>"
    using assms(11) by (simp add: press_window_def w_def)
  define p where "p = raise_window j ?q"
  have j: "j < window_count ?q" "window_count ?q \<le> length (windows ?q)" using assms(4,8) by (simp_all add: q gui_ok_def)
  have sn: "Suc n = window_count g" using assms(8) by (simp add: n_def)
  have wp: "windows p = take j (windows g) @ take (n - j) (drop (Suc j) (windows g)) @ w # drop (Suc n) (windows g)"
    using raise_window_list [OF j] sn by (simp add: p_def q w_def n_def)
  have top: "windows p ! n = w" using raise_window_perm(3) [OF j] by (simp add: p_def q w_def n_def)
  have off: "drag_offset_x p = cx - win_x w" "drag_offset_y p = cy - win_y w" by (simp_all add: p_def q)
  have g1: "gui_input (Some (cx, cy, b)) g = p\<lparr>prev_left_down := True, drag_window := int n\<rparr>"
  proof -
    have "w\<lparr>win_x := cx - (cx - win_x w), win_y := cy - (cy - win_y w)\<rparr> = w" by simp
    then have "(windows p)[n := (windows p ! n)\<lparr>win_x := cx - drag_offset_x p, win_y := cy - drag_offset_y p\<rparr>] = windows p"
      unfolding off top by (metis list_update_id top)
    then show ?thesis
      using gui_press [OF assms(4-6,8) assms(9,10) [unfolded gc_def w_def]] unfolding p_def [symmetric] n_def [symmetric] by simp
  qed
  have mv: "a' - (a - x) = x + (a' - a)" for a a' x :: i32 by simp
  have "windows (gui_input (Some (cx', cy', b')) (p\<lparr>prev_left_down := True, drag_window := int n\<rparr>))
      = (windows p)[n := w\<lparr>win_x := cx' - (cx - win_x w), win_y := cy' - (cy - win_y w)\<rparr>]"
    using assms(7) off top by (simp add: gui_input_def Let_def)
  then show ?thesis unfolding mv using g1 wp by (simp add: Let_def)
qed

theorem gui_title_drag_witness:
  "windows (gui_input (Some (70, 60, 1)) (gui_input (Some (60, 45, 1)) demo_gui)) ! 1
     = (windows demo_gui ! 0)\<lparr>win_x := 50, win_y := 55\<rparr>"
proof -
  have a: "windows demo_gui ! 0 = \<lparr>win_x = 40, win_y = 40, win_w = 220, win_h = 140, win_color = 0x00335577,
      win_title = [0x4D, 0x45, 0x47, 0x4B, 0x45, 0x52]\<rparr>"
    "windows demo_gui ! 1 = \<lparr>win_x = 300, win_y = 100, win_w = 200, win_h = 120, win_color = 0x00553333,
      win_title = [0x57, 0x49, 0x4E, 0x44, 0x4F, 0x57, 0x20, 0x32]\<rparr>" "length (windows demo_gui) = 4"
    by (simp_all add: demo_gui_def gui_init_def boot_gui_def Let_def)
  have k: "\<forall>k. 0 < k \<and> k < window_count demo_gui \<longrightarrow> \<not> in_win (demo_gui\<lparr>cursor_x := 60, cursor_y := 45\<rparr>) (windows demo_gui ! k)"
    using a(2) by (auto simp: demo_gui_facts less_2_cases_iff in_win_def)
  have "in_win (demo_gui\<lparr>cursor_x := 60, cursor_y := 45\<rparr>) (windows demo_gui ! 0)" by (simp add: in_win_def a)
  moreover have "sint (45 :: i32) < sint (win_y (windows demo_gui ! 0) + TITLEBAR_HEIGHT)" by (simp add: a TITLEBAR_HEIGHT_def)
  ultimately show ?thesis
    using gui_title_drag [where g = demo_gui and b = 1 and b' = 1 and j = 0 and cx = 60 and cy = 45 and cx' = 70 and cy' = 60] k a demo_gui_facts
    by (simp add: Let_def nth_append)
qed

text \<open>A click below the title bar moves the window too: the drag offsets are set only for title-bar
  clicks, but every click starts a drag. After a click in its body at a window's interior the window jumps so
  that its corner is at the cursor minus the offsets of the previous drag (at the cursor itself, when there was none).\<close>

theorem gui_body_click_jumps:
  fixes g cx cy j
  defines "gc \<equiv> g\<lparr>cursor_x := cx, cursor_y := cy\<rparr>" and "w \<equiv> windows g ! j" and "n \<equiv> window_count g - 1"
  assumes "gui_ok g" "\<not> prev_left_down g" "b AND 1 \<noteq> 0"
    and "j < window_count g" "in_win gc w" "\<forall>k. j < k \<and> k < window_count g \<longrightarrow> \<not> in_win gc (windows g ! k)"
    and "\<not> sint cy < sint (win_y w + TITLEBAR_HEIGHT)"
  shows "windows (gui_input (Some (cx, cy, b)) g) ! n
     = w\<lparr>win_color := win_color w XOR 0x00202020, win_x := cx - drag_offset_x g, win_y := cy - drag_offset_y g\<rparr>"
proof -
  let ?q = "press_window j (g\<lparr>cursor_x := cx, cursor_y := cy, cursor_buttons := b\<rparr>)"
  have q: "?q = g\<lparr>cursor_x := cx, cursor_y := cy, cursor_buttons := b, windows := (windows g)[j := w\<lparr>win_color := win_color w XOR 0x00202020\<rparr>]\<rparr>"
    using assms(10) by (simp add: press_window_def w_def)
  define p where "p = raise_window j ?q"
  have j: "j < window_count ?q" "window_count ?q \<le> length (windows ?q)" using assms(4,7) by (simp_all add: q gui_ok_def)
  have "j < length (windows g)" using assms(4,7) by (simp add: gui_ok_def)
  then have top: "windows p ! n = w\<lparr>win_color := win_color w XOR 0x00202020\<rparr>"
    using raise_window_perm(3) [OF j] by (simp add: p_def q n_def)
  have "n < window_count g" using assms(7) by (simp add: n_def)
  then have "n < length (windows p)" using raise_window_perm(1) [OF j] assms(4) by (simp add: p_def q gui_ok_def)
  moreover have "drag_offset_x p = drag_offset_x g" "drag_offset_y p = drag_offset_y g" by (simp_all add: p_def q)
  ultimately show ?thesis
    using gui_press [OF assms(4-7) assms(8,9) [unfolded gc_def w_def]] top unfolding p_def [symmetric] n_def [symmetric] by simp
qed

theorem gui_body_click_jumps_witness:
  "win_x (windows (gui_input (Some (100, 150, 1)) demo_gui) ! 1) = 100 \<and> win_x (windows demo_gui ! 0) = 40"
proof -
  have a: "windows demo_gui ! 0 = \<lparr>win_x = 40, win_y = 40, win_w = 220, win_h = 140, win_color = 0x00335577,
      win_title = [0x4D, 0x45, 0x47, 0x4B, 0x45, 0x52]\<rparr>"
    "windows demo_gui ! 1 = \<lparr>win_x = 300, win_y = 100, win_w = 200, win_h = 120, win_color = 0x00553333,
      win_title = [0x57, 0x49, 0x4E, 0x44, 0x4F, 0x57, 0x20, 0x32]\<rparr>"
    by (simp_all add: demo_gui_def gui_init_def boot_gui_def Let_def)
  have k: "\<forall>k. 0 < k \<and> k < window_count demo_gui \<longrightarrow> \<not> in_win (demo_gui\<lparr>cursor_x := 100, cursor_y := 150\<rparr>) (windows demo_gui ! k)"
    using a(2) by (auto simp: demo_gui_facts less_2_cases_iff in_win_def)
  have "in_win (demo_gui\<lparr>cursor_x := 100, cursor_y := 150\<rparr>) (windows demo_gui ! 0)" by (simp add: in_win_def a)
  moreover have "\<not> sint (150 :: i32) < sint (win_y (windows demo_gui ! 0) + TITLEBAR_HEIGHT)" by (simp add: a TITLEBAR_HEIGHT_def)
  ultimately show ?thesis
    using gui_body_click_jumps [where g = demo_gui and b = 1 and j = 0 and cx = 100 and cy = 150] k a demo_gui_facts by simp
qed

end
