(* ===== verification/Switch.thy ===== *)
theory Switch
  imports Prelude
begin

text \<open>
  Saving and restoring a kernel thread's context. Each architecture supplies two operations to the
  scheduler: \<open>arch_thread_init_stack\<close> (\<^verbatim>\<open>arch/*/sched.c\<close>), which writes the first frame of a new
  thread, and \<open>arch_context_switch\<close> (\<^verbatim>\<open>arch/x86_64/boot/context_switch.asm\<close> and
  \<^verbatim>\<open>arch/aarch64/boot/context_switch.S\<close>), which pushes the callee-saved registers, stores the stack
  pointer and pops the registers of the next thread. The CPU is a record of the registers the
  routines touch together with the stack memory, one 64-bit word per address. The address of
  \<open>thread_trampoline\<close> is fixed by the linker and is an argument of the model.
\<close>

section \<open>The operations an architecture provides\<close>

record 'cpu arch_ops =
  arch_thread_init_stack :: "u64 \<Rightarrow> u64 \<Rightarrow> u64 \<Rightarrow> 'cpu \<Rightarrow> u64 \<times> 'cpu"
  arch_context_switch :: "u64 \<Rightarrow> 'cpu \<Rightarrow> u64 \<times> 'cpu"

type_synonym stack_mem = "u64 \<Rightarrow> u64"

section \<open>x86_64\<close>

record cpu_x86 =
  rsp :: u64
  rip :: u64
  rbp :: u64
  rbx :: u64
  r12 :: u64
  r13 :: u64
  r14 :: u64
  r15 :: u64
  rdi :: u64
  iflag :: bool
  mem_x86 :: stack_mem

definition push_x86 :: "u64 \<Rightarrow> cpu_x86 \<Rightarrow> cpu_x86" where
  "push_x86 v c = c\<lparr>rsp := rsp c - 8, mem_x86 := (mem_x86 c)(rsp c - 8 := v)\<rparr>"

definition pop_x86 :: "cpu_x86 \<Rightarrow> u64 \<times> cpu_x86" where
  "pop_x86 c = (mem_x86 c (rsp c), c\<lparr>rsp := rsp c + 8\<rparr>)"

definition push_saved_x86 :: "cpu_x86 \<Rightarrow> cpu_x86" where
  "push_saved_x86 c =
     (let c = push_x86 (rbp c) c;
          c = push_x86 (rbx c) c;
          c = push_x86 (r12 c) c;
          c = push_x86 (r13 c) c;
          c = push_x86 (r14 c) c;
          c = push_x86 (r15 c) c
      in c)"

definition pop_saved_x86 :: "cpu_x86 \<Rightarrow> cpu_x86" where
  "pop_saved_x86 c =
     (let (v, c) = pop_x86 c; c = c\<lparr>r15 := v\<rparr>;
          (v, c) = pop_x86 c; c = c\<lparr>r14 := v\<rparr>;
          (v, c) = pop_x86 c; c = c\<lparr>r13 := v\<rparr>;
          (v, c) = pop_x86 c; c = c\<lparr>r12 := v\<rparr>;
          (v, c) = pop_x86 c; c = c\<lparr>rbx := v\<rparr>;
          (v, c) = pop_x86 c; c = c\<lparr>rbp := v\<rparr>;
          (v, c) = pop_x86 c
      in c\<lparr>rip := v\<rparr>)"

definition arch_context_switch_x86 :: "u64 \<Rightarrow> cpu_x86 \<Rightarrow> u64 \<times> cpu_x86" where
  "arch_context_switch_x86 new_sp c =
     (let c = push_saved_x86 c;
          old_sp = rsp c
      in (old_sp, pop_saved_x86 (c\<lparr>rsp := new_sp\<rparr>)))"

definition arch_thread_init_stack_x86 :: "u64 \<Rightarrow> u64 \<Rightarrow> u64 \<Rightarrow> u64 \<Rightarrow> cpu_x86 \<Rightarrow> u64 \<times> cpu_x86" where
  "arch_thread_init_stack_x86 thread_trampoline stack_top entry arg c =
     (let sp = stack_top; m = mem_x86 c;
          sp = sp - 8; m = m(sp := thread_trampoline);
          sp = sp - 8; m = m(sp := 0);
          sp = sp - 8; m = m(sp := 0);
          sp = sp - 8; m = m(sp := entry);
          sp = sp - 8; m = m(sp := arg);
          sp = sp - 8; m = m(sp := 0);
          sp = sp - 8; m = m(sp := 0)
      in (sp, c\<lparr>mem_x86 := m\<rparr>))"

text \<open>The first instructions of a new thread, up to and including the call of its entry function;
  \<open>ret_addr\<close> is the address of the following \<open>call thread_exit\<close>.\<close>

definition thread_trampoline_x86 :: "u64 \<Rightarrow> cpu_x86 \<Rightarrow> cpu_x86" where
  "thread_trampoline_x86 ret_addr c =
     (let c = c\<lparr>iflag := True\<rparr>;
          c = c\<lparr>rdi := r13 c\<rparr>;
          c = push_x86 ret_addr c
      in c\<lparr>rip := r12 c\<rparr>)"

definition arch_x86 :: "u64 \<Rightarrow> cpu_x86 arch_ops" where
  "arch_x86 tramp = \<lparr>arch_thread_init_stack = arch_thread_init_stack_x86 tramp,
                     arch_context_switch = arch_context_switch_x86\<rparr>"

section \<open>aarch64\<close>

record cpu_a64 =
  sp_a64 :: u64
  pc :: u64
  x0 :: u64
  x19 :: u64
  x20 :: u64
  x21 :: u64
  x22 :: u64
  x23 :: u64
  x24 :: u64
  x25 :: u64
  x26 :: u64
  x27 :: u64
  x28 :: u64
  x29 :: u64
  x30 :: u64
  daif_clear :: bool
  mem_a64 :: stack_mem

definition store_saved_a64 :: "cpu_a64 \<Rightarrow> cpu_a64" where
  "store_saved_a64 c =
     (let sp = sp_a64 c - 96
      in c\<lparr>sp_a64 := sp,
           mem_a64 := (mem_a64 c)(sp := x19 c, sp + 8 := x20 c, sp + 16 := x21 c, sp + 24 := x22 c,
             sp + 32 := x23 c, sp + 40 := x24 c, sp + 48 := x25 c, sp + 56 := x26 c,
             sp + 64 := x27 c, sp + 72 := x28 c, sp + 80 := x29 c, sp + 88 := x30 c)\<rparr>)"

definition load_saved_a64 :: "cpu_a64 \<Rightarrow> cpu_a64" where
  "load_saved_a64 c =
     (let sp = sp_a64 c; m = mem_a64 c
      in c\<lparr>x19 := m sp, x20 := m (sp + 8), x21 := m (sp + 16), x22 := m (sp + 24),
           x23 := m (sp + 32), x24 := m (sp + 40), x25 := m (sp + 48), x26 := m (sp + 56),
           x27 := m (sp + 64), x28 := m (sp + 72), x29 := m (sp + 80), x30 := m (sp + 88),
           sp_a64 := sp + 96\<rparr>)"

definition arch_context_switch_a64 :: "u64 \<Rightarrow> cpu_a64 \<Rightarrow> u64 \<times> cpu_a64" where
  "arch_context_switch_a64 new_sp c =
     (let c = store_saved_a64 c;
          old_sp = sp_a64 c;
          c = load_saved_a64 (c\<lparr>sp_a64 := new_sp\<rparr>)
      in (old_sp, c\<lparr>pc := x30 c\<rparr>))"

definition arch_thread_init_stack_a64 :: "u64 \<Rightarrow> u64 \<Rightarrow> u64 \<Rightarrow> u64 \<Rightarrow> cpu_a64 \<Rightarrow> u64 \<times> cpu_a64" where
  "arch_thread_init_stack_a64 thread_trampoline stack_top entry arg c =
     (let sp = stack_top; m = mem_a64 c;
          sp = sp - 8; m = m(sp := thread_trampoline);
          sp = sp - 8; m = m(sp := 0);
          sp = sp - 8; m = m(sp := 0);
          sp = sp - 8; m = m(sp := 0);
          sp = sp - 8; m = m(sp := 0);
          sp = sp - 8; m = m(sp := 0);
          sp = sp - 8; m = m(sp := 0);
          sp = sp - 8; m = m(sp := 0);
          sp = sp - 8; m = m(sp := 0);
          sp = sp - 8; m = m(sp := 0);
          sp = sp - 8; m = m(sp := arg);
          sp = sp - 8; m = m(sp := entry)
      in (sp, c\<lparr>mem_a64 := m\<rparr>))"

definition thread_trampoline_a64 :: "u64 \<Rightarrow> cpu_a64 \<Rightarrow> cpu_a64" where
  "thread_trampoline_a64 ret_addr c =
     (let c = c\<lparr>daif_clear := True\<rparr>;
          c = c\<lparr>x0 := x20 c\<rparr>
      in c\<lparr>x30 := ret_addr, pc := x19 c\<rparr>)"

definition arch_a64 :: "u64 \<Rightarrow> cpu_a64 arch_ops" where
  "arch_a64 tramp = \<lparr>arch_thread_init_stack = arch_thread_init_stack_a64 tramp,
                     arch_context_switch = arch_context_switch_a64\<rparr>"

section \<open>The contract of a context switch\<close>

text \<open>A context is the list of callee-saved registers with the resumption address and the stack
  pointer at resumption. \<open>entry_ctx c\<close> is the context of the caller of a switch, \<open>exit_ctx c\<close> the
  one running afterwards, \<open>frame c sp\<close> the one saved at \<open>sp\<close> and \<open>words sp\<close> the addresses it occupies.\<close>

locale context_switcher =
  fixes ops :: "'cpu arch_ops"
    and entry_ctx :: "'cpu \<Rightarrow> u64 list"
    and exit_ctx :: "'cpu \<Rightarrow> u64 list"
    and frame :: "'cpu \<Rightarrow> u64 \<Rightarrow> u64 list"
    and words :: "u64 \<Rightarrow> u64 set"
    and first_ctx :: "u64 \<Rightarrow> u64 \<Rightarrow> u64 \<Rightarrow> u64 list"
  assumes switch_saves: "arch_context_switch ops sp c = (old, c') \<Longrightarrow> frame c' old = entry_ctx c"
    and switch_loads: "arch_context_switch ops sp c = (old, c') \<Longrightarrow> words sp \<inter> words old = {} \<Longrightarrow>
          exit_ctx c' = frame c sp"
    and switch_keeps: "arch_context_switch ops sp c = (old, c') \<Longrightarrow> words q \<inter> words old = {} \<Longrightarrow>
          frame c' q = frame c q"
    and init_frame: "arch_thread_init_stack ops stk entry arg c = (sp, c') \<Longrightarrow>
          frame c' sp = first_ctx stk entry arg"
    and init_keeps: "arch_thread_init_stack ops stk entry arg c = (sp, c') \<Longrightarrow> words q \<inter> words sp = {} \<Longrightarrow>
          frame c' q = frame c q"

context context_switcher
begin

text \<open>A thread that switches away and is switched back to continues with the registers, the stack
  pointer and the return address it had, provided nobody wrote to its saved frame meanwhile.\<close>

lemma switch_round_trip:
  assumes "arch_context_switch ops sp c = (old, c1)" "frame c2 old = frame c1 old"
    and "arch_context_switch ops old c2 = (old2, c3)" "words old \<inter> words old2 = {}"
  shows "exit_ctx c3 = entry_ctx c"
  using switch_loads [OF assms(3,4)] switch_saves [OF assms(1)] assms(2) by simp

lemma first_switch:
  assumes "arch_thread_init_stack ops stk entry arg c = (sp, c1)" "frame c2 sp = frame c1 sp"
    and "arch_context_switch ops sp c2 = (old, c3)" "words sp \<inter> words old = {}"
  shows "exit_ctx c3 = first_ctx stk entry arg"
  using switch_loads [OF assms(3,4)] init_frame [OF assms(1)] assms(2) by simp

end

definition frame_x86 :: "cpu_x86 \<Rightarrow> u64 \<Rightarrow> u64 list" where
  "frame_x86 c sp = (let m = mem_x86 c in
     [m sp, m (sp + 8), m (sp + 16), m (sp + 24), m (sp + 32), m (sp + 40), m (sp + 48), sp + 56])"

definition entry_ctx_x86 :: "cpu_x86 \<Rightarrow> u64 list" where
  "entry_ctx_x86 c = [r15 c, r14 c, r13 c, r12 c, rbx c, rbp c, mem_x86 c (rsp c), rsp c + 8]"

definition exit_ctx_x86 :: "cpu_x86 \<Rightarrow> u64 list" where
  "exit_ctx_x86 c = [r15 c, r14 c, r13 c, r12 c, rbx c, rbp c, rip c, rsp c]"

definition words_x86 :: "u64 \<Rightarrow> u64 set" where
  "words_x86 sp = {sp, sp + 8, sp + 16, sp + 24, sp + 32, sp + 40, sp + 48}"

definition first_ctx_x86 :: "u64 \<Rightarrow> u64 \<Rightarrow> u64 \<Rightarrow> u64 \<Rightarrow> u64 list" where
  "first_ctx_x86 tramp stk entry arg = [0, 0, arg, entry, 0, 0, tramp, stk]"

definition frame_a64 :: "cpu_a64 \<Rightarrow> u64 \<Rightarrow> u64 list" where
  "frame_a64 c sp = (let m = mem_a64 c in
     [m sp, m (sp + 8), m (sp + 16), m (sp + 24), m (sp + 32), m (sp + 40), m (sp + 48), m (sp + 56),
      m (sp + 64), m (sp + 72), m (sp + 80), m (sp + 88), sp + 96])"

definition entry_ctx_a64 :: "cpu_a64 \<Rightarrow> u64 list" where
  "entry_ctx_a64 c = [x19 c, x20 c, x21 c, x22 c, x23 c, x24 c, x25 c, x26 c, x27 c, x28 c, x29 c,
     x30 c, sp_a64 c]"

definition exit_ctx_a64 :: "cpu_a64 \<Rightarrow> u64 list" where
  "exit_ctx_a64 c = [x19 c, x20 c, x21 c, x22 c, x23 c, x24 c, x25 c, x26 c, x27 c, x28 c, x29 c,
     pc c, sp_a64 c]"

definition words_a64 :: "u64 \<Rightarrow> u64 set" where
  "words_a64 sp = {sp, sp + 8, sp + 16, sp + 24, sp + 32, sp + 40, sp + 48, sp + 56, sp + 64, sp + 72,
     sp + 80, sp + 88}"

definition first_ctx_a64 :: "u64 \<Rightarrow> u64 \<Rightarrow> u64 \<Rightarrow> u64 \<Rightarrow> u64 list" where
  "first_ctx_a64 tramp stk entry arg = [entry, arg, 0, 0, 0, 0, 0, 0, 0, 0, 0, tramp, stk]"

lemma push_saved_x86_eq:
  "push_saved_x86 c = (let sp = rsp c - 48 in c\<lparr>rsp := sp, mem_x86 := (mem_x86 c)
     (sp + 40 := rbp c, sp + 32 := rbx c, sp + 24 := r12 c, sp + 16 := r13 c, sp + 8 := r14 c, sp := r15 c)\<rparr>)"
  by (simp add: push_saved_x86_def push_x86_def Let_def)

lemma push_saved_x86_rsp: "rsp (push_saved_x86 c) = rsp c - 48"
  by (simp add: push_saved_x86_eq Let_def)

lemma pop_saved_x86_eq:
  "pop_saved_x86 c = (let m = mem_x86 c; sp = rsp c in c\<lparr>r15 := m sp, r14 := m (sp + 8), r13 := m (sp + 16),
     r12 := m (sp + 24), rbx := m (sp + 32), rbp := m (sp + 40), rsp := sp + 56, rip := m (sp + 48)\<rparr>)"
  by (simp add: pop_saved_x86_def pop_x86_def Let_def add.commute)

lemma switch_x86_eq:
  "arch_context_switch_x86 sp c = (rsp c - 48,
     (let m = mem_x86 (push_saved_x86 c) in (push_saved_x86 c)\<lparr>r15 := m sp, r14 := m (sp + 8), r13 := m (sp + 16),
        r12 := m (sp + 24), rbx := m (sp + 32), rbp := m (sp + 40), rsp := sp + 56, rip := m (sp + 48)\<rparr>))"
  by (simp add: arch_context_switch_x86_def pop_saved_x86_eq push_saved_x86_rsp Let_def)

lemma push_saved_x86_mem:
  "q \<notin> words_x86 (rsp c - 48) \<Longrightarrow> mem_x86 (push_saved_x86 c) q = mem_x86 c q"
  by (simp add: push_saved_x86_eq words_x86_def Let_def)

lemma frame_x86_cong: "(\<And>a. a \<in> words_x86 q \<Longrightarrow> mem_x86 c' a = mem_x86 c a) \<Longrightarrow> frame_x86 c' q = frame_x86 c q"
  by (simp add: frame_x86_def words_x86_def Let_def)

lemma frame_a64_cong: "(\<And>a. a \<in> words_a64 q \<Longrightarrow> mem_a64 c' a = mem_a64 c a) \<Longrightarrow> frame_a64 c' q = frame_a64 c q"
  by (simp add: frame_a64_def words_a64_def Let_def)

lemma switch_x86_frame:
  assumes "words_x86 q \<inter> words_x86 (rsp c - 48) = {}"
  shows "frame_x86 (push_saved_x86 c) q = frame_x86 c q"
  by (rule frame_x86_cong, rule push_saved_x86_mem) (use assms in blast)

lemma switch_x86_result:
  "exit_ctx_x86 (snd (arch_context_switch_x86 sp c)) = frame_x86 (push_saved_x86 c) sp"
  "frame_x86 (snd (arch_context_switch_x86 sp c)) q = frame_x86 (push_saved_x86 c) q"
  by (simp_all add: switch_x86_eq exit_ctx_x86_def frame_x86_def Let_def)

lemma push_saved_x86_frame: "frame_x86 (push_saved_x86 c) (rsp c - 48) = entry_ctx_x86 c"
  by (simp add: push_saved_x86_eq frame_x86_def entry_ctx_x86_def Let_def)

lemma init_stack_x86_eq:
  "arch_thread_init_stack_x86 tramp stk entry arg c = (stk - 56, c\<lparr>mem_x86 := (mem_x86 c)
     (stk - 8 := tramp, stk - 16 := 0, stk - 24 := 0, stk - 32 := entry, stk - 40 := arg, stk - 48 := 0, stk - 56 := 0)\<rparr>)"
  by (simp add: arch_thread_init_stack_x86_def Let_def)

lemma init_stack_x86_mem:
  assumes "a \<notin> words_x86 (stk - 56)"
  shows "mem_x86 (snd (arch_thread_init_stack_x86 tramp stk entry arg c)) a = mem_x86 c a"
  using assms by (simp add: init_stack_x86_eq words_x86_def)

interpretation x86_switch: context_switcher "arch_x86 tramp" entry_ctx_x86 exit_ctx_x86 frame_x86 words_x86
  "first_ctx_x86 tramp"
proof (unfold_locales, goal_cases)
  case (1 sp c old c')
  then show ?case using switch_x86_result(2) [of sp c old] push_saved_x86_frame [of c]
    by (simp add: arch_x86_def switch_x86_eq)
next
  case (2 sp c old c')
  then show ?case using switch_x86_result(1) [of sp c] switch_x86_frame [of sp c]
    by (simp add: arch_x86_def switch_x86_eq)
next
  case (3 sp c old c' q)
  then show ?case using switch_x86_result(2) [of sp c q] switch_x86_frame [of q c]
    by (simp add: arch_x86_def switch_x86_eq)
next
  case (4 stk entry arg c sp c')
  then have r: "arch_thread_init_stack_x86 tramp stk entry arg c = (sp, c')" by (simp add: arch_x86_def)
  then have "sp = stk - 56" by (simp add: init_stack_x86_eq)
  moreover have "c' = snd (arch_thread_init_stack_x86 tramp stk entry arg c)" by (simp add: r)
  ultimately show ?case by (simp add: init_stack_x86_eq frame_x86_def first_ctx_x86_def Let_def)
next
  case (5 stk entry arg c sp c' q)
  then have r: "arch_thread_init_stack_x86 tramp stk entry arg c = (sp, c')" by (simp add: arch_x86_def)
  then have "sp = stk - 56" by (simp add: init_stack_x86_eq)
  moreover have "c' = snd (arch_thread_init_stack_x86 tramp stk entry arg c)" by (simp add: r)
  ultimately show ?case using 5(2) init_stack_x86_mem [of _ stk tramp entry arg c]
    by (intro frame_x86_cong) blast
qed

lemma store_saved_a64_mem:
  "a \<notin> words_a64 (sp_a64 c - 96) \<Longrightarrow> mem_a64 (store_saved_a64 c) a = mem_a64 c a"
  by (simp add: store_saved_a64_def words_a64_def Let_def)

lemma store_saved_a64_frame: "frame_a64 (store_saved_a64 c) (sp_a64 c - 96) = entry_ctx_a64 c"
  by (simp add: store_saved_a64_def frame_a64_def entry_ctx_a64_def Let_def)

lemma switch_a64_result:
  "fst (arch_context_switch_a64 sp c) = sp_a64 c - 96"
  "exit_ctx_a64 (snd (arch_context_switch_a64 sp c)) = frame_a64 (store_saved_a64 c) sp"
  "frame_a64 (snd (arch_context_switch_a64 sp c)) q = frame_a64 (store_saved_a64 c) q"
proof -
  show "fst (arch_context_switch_a64 sp c) = sp_a64 c - 96"
    by (simp add: arch_context_switch_a64_def store_saved_a64_def Let_def)
  show "exit_ctx_a64 (snd (arch_context_switch_a64 sp c)) = frame_a64 (store_saved_a64 c) sp"
    by (simp add: arch_context_switch_a64_def exit_ctx_a64_def frame_a64_def load_saved_a64_def Let_def)
  show "frame_a64 (snd (arch_context_switch_a64 sp c)) q = frame_a64 (store_saved_a64 c) q"
    by (simp add: arch_context_switch_a64_def frame_a64_def load_saved_a64_def Let_def)
qed

lemma switch_a64_frame:
  assumes "words_a64 q \<inter> words_a64 (sp_a64 c - 96) = {}"
  shows "frame_a64 (store_saved_a64 c) q = frame_a64 c q"
  by (rule frame_a64_cong, rule store_saved_a64_mem) (use assms in blast)

lemma init_stack_a64_eq:
  "arch_thread_init_stack_a64 tramp stk entry arg c = (stk - 96, c\<lparr>mem_a64 := (mem_a64 c)
     (stk - 8 := tramp, stk - 16 := 0, stk - 24 := 0, stk - 32 := 0, stk - 40 := 0, stk - 48 := 0, stk - 56 := 0,
      stk - 64 := 0, stk - 72 := 0, stk - 80 := 0, stk - 88 := arg, stk - 96 := entry)\<rparr>)"
  by (simp add: arch_thread_init_stack_a64_def Let_def)

lemma init_stack_a64_mem:
  assumes "a \<notin> words_a64 (stk - 96)"
  shows "mem_a64 (snd (arch_thread_init_stack_a64 tramp stk entry arg c)) a = mem_a64 c a"
  using assms by (simp add: init_stack_a64_eq words_a64_def)

interpretation a64_switch: context_switcher "arch_a64 tramp" entry_ctx_a64 exit_ctx_a64 frame_a64 words_a64
  "first_ctx_a64 tramp"
proof (unfold_locales, goal_cases)
  case (1 sp c old c')
  then show ?case using switch_a64_result(1) [of sp c] switch_a64_result(3) [of sp c old] store_saved_a64_frame [of c]
    by (simp add: arch_a64_def)
next
  case (2 sp c old c')
  then show ?case using switch_a64_result(1,2) [of sp c] switch_a64_frame [of sp c] by (simp add: arch_a64_def)
next
  case (3 sp c old c' q)
  then show ?case using switch_a64_result(1) [of sp c] switch_a64_result(3) [of sp c q] switch_a64_frame [of q c] by (simp add: arch_a64_def)
next
  case (4 stk entry arg c sp c')
  then have r: "arch_thread_init_stack_a64 tramp stk entry arg c = (sp, c')" by (simp add: arch_a64_def)
  then have "sp = stk - 96" by (simp add: init_stack_a64_eq)
  moreover have "c' = snd (arch_thread_init_stack_a64 tramp stk entry arg c)" by (simp add: r)
  ultimately show ?case by (simp add: init_stack_a64_eq frame_a64_def first_ctx_a64_def Let_def)
next
  case (5 stk entry arg c sp c' q)
  then have r: "arch_thread_init_stack_a64 tramp stk entry arg c = (sp, c')" by (simp add: arch_a64_def)
  then have "sp = stk - 96" by (simp add: init_stack_a64_eq)
  moreover have "c' = snd (arch_thread_init_stack_a64 tramp stk entry arg c)" by (simp add: r)
  ultimately show ?case using 5(2) init_stack_a64_mem [of _ stk tramp entry arg c]
    by (intro frame_a64_cong) blast
qed

section \<open>Properties\<close>

text \<open>On x86_64 a thread that switched away through \<open>arch_context_switch\<close> and is later
  switched back to resumes with all callee-saved registers, its return address and its stack
  pointer, whatever ran in between, as long as the seven words of its saved frame are intact and
  the other thread's frame does not overlap it.\<close>

theorem context_switch_round_trip_x86:
  assumes "arch_context_switch_x86 sp c = (old, c1)"
    and "\<forall>a \<in> words_x86 old. mem_x86 c2 a = mem_x86 c1 a"
    and "arch_context_switch_x86 old c2 = (old2, c3)" "words_x86 old \<inter> words_x86 old2 = {}"
  shows "[r15 c3, r14 c3, r13 c3, r12 c3, rbx c3, rbp c3, rip c3, rsp c3]
       = [r15 c, r14 c, r13 c, r12 c, rbx c, rbp c, mem_x86 c (rsp c), rsp c + 8]"
proof -
  have "frame_x86 c2 old = frame_x86 c1 old" using assms(2) by (intro frame_x86_cong) blast
  then have "exit_ctx_x86 c3 = entry_ctx_x86 c"
    using x86_switch.switch_round_trip [of 0 sp c old c1 c2 old2 c3] assms(1,3,4) by (simp add: arch_x86_def)
  then show ?thesis by (simp add: exit_ctx_x86_def entry_ctx_x86_def)
qed

definition demo_cpu_x86 :: "u64 \<Rightarrow> cpu_x86" where
  "demo_cpu_x86 sp = \<lparr>rsp = sp, rip = 0x100, rbp = 1, rbx = 2, r12 = 3, r13 = 4, r14 = 5, r15 = 6, rdi = 7,
     iflag = False, mem_x86 = (\<lambda>a. a)\<rparr>"

text \<open>Thread A (stack at \<open>0x9000\<close>) switches to B's frame at \<open>0xA000\<close>, B switches back.\<close>

theorem context_switch_round_trip_x86_witness:
  "let (old, c1) = arch_context_switch_x86 0xA000 (demo_cpu_x86 0x9000);
       (old2, c3) = arch_context_switch_x86 old c1
   in rbx c3 = 2 \<and> r12 c3 = 3 \<and> r15 c3 = 6 \<and> rip c3 = 0x9000 \<and> rsp c3 = 0x9008"
proof -
  define r where "r = arch_context_switch_x86 0xA000 (demo_cpu_x86 0x9000)"
  define q where "q = arch_context_switch_x86 (fst r) (snd r)"
  have f: "fst r = 0x8FD0" "fst q = 0xA008"
    by (simp_all add: r_def q_def switch_x86_eq demo_cpu_x86_def Let_def)
  have dis: "words_x86 (fst r) \<inter> words_x86 (fst q) = {}" unfolding f by (simp add: words_x86_def)
  let ?c = "demo_cpu_x86 0x9000"
  have "arch_context_switch_x86 0xA000 ?c = (fst r, snd r)" "arch_context_switch_x86 (fst r) (snd r) = (fst q, snd q)"
    by (simp_all add: r_def q_def)
  note t = context_switch_round_trip_x86 [OF this(1) _ this(2) dis]
  moreover have "rbx ?c = 2" "r12 ?c = 3" "r15 ?c = 6" "mem_x86 ?c (rsp ?c) = 0x9000" "rsp ?c = 0x9000"
    by (simp_all add: demo_cpu_x86_def)
  ultimately show ?thesis
    by (simp add: r_def [symmetric] q_def [symmetric] split_def Let_def)
qed

text \<open>The same round trip for aarch64: x19 to x30 and the stack pointer are restored and
  execution continues at the saved link register.\<close>

theorem context_switch_round_trip_a64:
  assumes "arch_context_switch_a64 sp c = (old, c1)"
    and "\<forall>a \<in> words_a64 old. mem_a64 c2 a = mem_a64 c1 a"
    and "arch_context_switch_a64 old c2 = (old2, c3)" "words_a64 old \<inter> words_a64 old2 = {}"
  shows "[x19 c3, x20 c3, x21 c3, x22 c3, x23 c3, x24 c3, x25 c3, x26 c3, x27 c3, x28 c3, x29 c3, pc c3, sp_a64 c3]
       = [x19 c, x20 c, x21 c, x22 c, x23 c, x24 c, x25 c, x26 c, x27 c, x28 c, x29 c, x30 c, sp_a64 c]"
proof -
  have "frame_a64 c2 old = frame_a64 c1 old" using assms(2) by (intro frame_a64_cong) blast
  then have "exit_ctx_a64 c3 = entry_ctx_a64 c"
    using a64_switch.switch_round_trip [of 0 sp c old c1 c2 old2 c3] assms(1,3,4) by (simp add: arch_a64_def)
  then show ?thesis by (simp add: exit_ctx_a64_def entry_ctx_a64_def)
qed

definition demo_cpu_a64 :: "u64 \<Rightarrow> cpu_a64" where
  "demo_cpu_a64 sp = \<lparr>sp_a64 = sp, pc = 0x100, x0 = 0, x19 = 19, x20 = 20, x21 = 21, x22 = 22, x23 = 23,
     x24 = 24, x25 = 25, x26 = 26, x27 = 27, x28 = 28, x29 = 29, x30 = 0x200, daif_clear = False,
     mem_a64 = (\<lambda>a. a)\<rparr>"

theorem context_switch_round_trip_a64_witness:
  "let (old, c1) = arch_context_switch_a64 0xA000 (demo_cpu_a64 0x9000);
       (old2, c3) = arch_context_switch_a64 old c1
   in x19 c3 = 19 \<and> x28 c3 = 28 \<and> pc c3 = 0x200 \<and> sp_a64 c3 = 0x9000"
proof -
  define r where "r = arch_context_switch_a64 0xA000 (demo_cpu_a64 0x9000)"
  define q where "q = arch_context_switch_a64 (fst r) (snd r)"
  have sp: "sp_a64 (snd r) = 0xA060"
    by (simp add: r_def arch_context_switch_a64_def load_saved_a64_def Let_def)
  have f: "fst r = 0x8FA0" "fst q = 0xA000"
    using sp unfolding r_def q_def switch_a64_result(1) by (simp_all only: demo_cpu_a64_def) simp_all
  have dis: "words_a64 (fst r) \<inter> words_a64 (fst q) = {}" unfolding f by (simp add: words_a64_def)
  let ?c = "demo_cpu_a64 0x9000"
  have "arch_context_switch_a64 0xA000 ?c = (fst r, snd r)" "arch_context_switch_a64 (fst r) (snd r) = (fst q, snd q)"
    by (simp_all add: r_def q_def)
  note t = context_switch_round_trip_a64 [OF this(1) _ this(2) dis]
  moreover have "x19 ?c = 19" "x28 ?c = 28" "x30 ?c = 0x200" "sp_a64 ?c = 0x9000"
    by (simp_all add: demo_cpu_a64_def)
  ultimately show ?thesis
    by (simp add: r_def [symmetric] q_def [symmetric] split_def Let_def)
qed

lemma new_thread_first_run:
  "words_x86 (stk - 56) \<inter> words_x86 (rsp c - 48) = {} \<Longrightarrow>
   arch_thread_init_stack_x86 tramp stk entry arg c = (sp, c1) \<Longrightarrow>
   arch_context_switch_x86 sp c1 = (old, c2) \<Longrightarrow>
     rip c2 = tramp \<and> rsp c2 = stk
     \<and> (let t = thread_trampoline_x86 ret c2 in
          rip t = entry \<and> rdi t = arg \<and> iflag t \<and> rsp t = stk - 8 \<and> mem_x86 t (rsp t) = ret)"
  "words_a64 (stk - 96) \<inter> words_a64 (sp_a64 d - 96) = {} \<Longrightarrow>
   arch_thread_init_stack_a64 tramp stk entry arg d = (sp', d1) \<Longrightarrow>
   arch_context_switch_a64 sp' d1 = (old', d2) \<Longrightarrow>
     pc d2 = tramp \<and> sp_a64 d2 = stk
     \<and> (let t = thread_trampoline_a64 ret d2 in
          pc t = entry \<and> x0 t = arg \<and> daif_clear t \<and> sp_a64 t = stk \<and> x30 t = ret)"
proof -
  assume dis: "words_x86 (stk - 56) \<inter> words_x86 (rsp c - 48) = {}"
    and i: "arch_thread_init_stack_x86 tramp stk entry arg c = (sp, c1)"
    and w: "arch_context_switch_x86 sp c1 = (old, c2)"
  have "sp = stk - 56" "rsp c1 = rsp c" using i by (auto simp: init_stack_x86_eq)
  moreover have "old = rsp c1 - 48" using w by (simp add: switch_x86_eq)
  ultimately have "exit_ctx_x86 c2 = first_ctx_x86 tramp stk entry arg"
    using x86_switch.first_switch [of tramp stk entry arg c sp c1 c1 old c2] i w dis by (simp add: arch_x86_def)
  then show "rip c2 = tramp \<and> rsp c2 = stk \<and> (let t = thread_trampoline_x86 ret c2 in
      rip t = entry \<and> rdi t = arg \<and> iflag t \<and> rsp t = stk - 8 \<and> mem_x86 t (rsp t) = ret)"
    by (simp add: exit_ctx_x86_def first_ctx_x86_def thread_trampoline_x86_def push_x86_def Let_def)
next
  assume dis: "words_a64 (stk - 96) \<inter> words_a64 (sp_a64 d - 96) = {}"
    and i: "arch_thread_init_stack_a64 tramp stk entry arg d = (sp', d1)"
    and w: "arch_context_switch_a64 sp' d1 = (old', d2)"
  have "sp' = stk - 96" "sp_a64 d1 = sp_a64 d" using i by (auto simp: init_stack_a64_eq)
  moreover have "old' = sp_a64 d1 - 96" using w switch_a64_result(1) [of sp' d1] by simp
  ultimately have "exit_ctx_a64 d2 = first_ctx_a64 tramp stk entry arg"
    using a64_switch.first_switch [of tramp stk entry arg d sp' d1 d1 old' d2] i w dis by (simp add: arch_a64_def)
  then show "pc d2 = tramp \<and> sp_a64 d2 = stk \<and> (let t = thread_trampoline_a64 ret d2 in
      pc t = entry \<and> x0 t = arg \<and> daif_clear t \<and> sp_a64 t = stk \<and> x30 t = ret)"
    by (simp add: exit_ctx_a64_def first_ctx_a64_def thread_trampoline_a64_def Let_def)
qed

text \<open>A thread set up by \<open>arch_thread_init_stack\<close> starts correctly on both
  architectures: the first switch to it reaches \<open>thread_trampoline\<close> with its stack empty, and the
  trampoline then enables interrupts and calls \<open>entry\<close> with \<open>arg\<close> as its first argument.\<close>

theorem new_thread_starts:
  "(words_x86 (stk - 56) \<inter> words_x86 (rsp c - 48) = {}
     \<and> arch_thread_init_stack_x86 tramp stk entry arg c = (sp, c1) \<and> arch_context_switch_x86 sp c1 = (old, c2) \<longrightarrow>
     rip c2 = tramp \<and> rsp c2 = stk
     \<and> (let t = thread_trampoline_x86 ret c2 in
          rip t = entry \<and> rdi t = arg \<and> iflag t \<and> rsp t = stk - 8 \<and> mem_x86 t (rsp t) = ret))
   \<and> (words_a64 (stk - 96) \<inter> words_a64 (sp_a64 d - 96) = {}
     \<and> arch_thread_init_stack_a64 tramp stk entry arg d = (sp', d1) \<and> arch_context_switch_a64 sp' d1 = (old', d2) \<longrightarrow>
     pc d2 = tramp \<and> sp_a64 d2 = stk
     \<and> (let t = thread_trampoline_a64 ret d2 in
          pc t = entry \<and> x0 t = arg \<and> daif_clear t \<and> sp_a64 t = stk \<and> x30 t = ret))"
  using new_thread_first_run(1) [of stk c tramp entry arg sp c1 old c2 ret]
    new_thread_first_run(2) [of stk d tramp entry arg sp' d1 old' d2 ret]
  by (intro conjI impI) (elim conjE; blast)+

theorem new_thread_starts_witness:
  "(let (sp, c1) = arch_thread_init_stack_x86 0x500 0x8000 0x600 42 (demo_cpu_x86 0x9000);
        (old, c2) = arch_context_switch_x86 sp c1
    in rip c2 = 0x500 \<and> rdi (thread_trampoline_x86 0 c2) = 42 \<and> rip (thread_trampoline_x86 0 c2) = 0x600)
   \<and> (let (sp, c1) = arch_thread_init_stack_a64 0x500 0x8000 0x600 42 (demo_cpu_a64 0x9000);
        (old, c2) = arch_context_switch_a64 sp c1
    in pc c2 = 0x500 \<and> x0 (thread_trampoline_a64 0 c2) = 42 \<and> pc (thread_trampoline_a64 0 c2) = 0x600)"
proof -
  define r where "r = arch_thread_init_stack_x86 0x500 0x8000 0x600 42 (demo_cpu_x86 0x9000)"
  define q where "q = arch_context_switch_x86 (fst r) (snd r)"
  define u where "u = arch_thread_init_stack_a64 0x500 0x8000 0x600 42 (demo_cpu_a64 0x9000)"
  define v where "v = arch_context_switch_a64 (fst u) (snd u)"
  have "words_x86 (0x8000 - 56) \<inter> words_x86 (rsp (demo_cpu_x86 0x9000) - 48) = {}"
    by (simp add: words_x86_def demo_cpu_x86_def)
  moreover have "words_a64 (0x8000 - 96) \<inter> words_a64 (sp_a64 (demo_cpu_a64 0x9000) - 96) = {}"
    by (simp add: words_a64_def demo_cpu_a64_def)
  moreover note new_thread_starts [of "0x8000" "demo_cpu_x86 0x9000" "0x500" "0x600" 42 "fst r" "snd r" "fst q" "snd q" 0
      "demo_cpu_a64 0x9000" "fst u" "snd u" "fst v" "snd v"]
  ultimately show ?thesis
    by (simp add: r_def [symmetric] q_def [symmetric] u_def [symmetric] v_def [symmetric] split_def Let_def)
qed

end
