(* ===== verification/Sched.thy ===== *)
theory Sched
  imports Heap Switch
begin

text \<open>
  The round-robin scheduler of \<^verbatim>\<open>kernel/sched.c\<close>. Thread control blocks live in an explicit store
  \<open>thread_at\<close> keyed by their heap address; the ring is threaded through their next pointers. The
  state nests the heap they are allocated from and the CPU the architecture's context switch acts
  on; the architecture is the record \<open>arch_ops\<close> of theory Switch. \<open>None\<close> stands for a dereference of
  \<open>NULL\<close> or of a pointer without a thread behind it, and for the unlink loop not ending.
\<close>

section \<open>State\<close>

datatype thread_state = THREAD_READY | THREAD_RUNNING | THREAD_BLOCKED | THREAD_DEAD

record thread =
  t_id :: u64
  t_sp :: u64
  t_stack_base :: u64
  t_stack_size :: usize
  t_state :: thread_state
  t_next :: u64

record 'cpu sched =
  sched_heap :: heap
  sched_cpu :: 'cpu
  thread_at :: "u64 \<rightharpoonup> thread"
  current :: u64
  next_id :: u64
  sched_enabled :: bool

definition THREAD_STACK_SIZE :: usize where
  "THREAD_STACK_SIZE = 16 * 1024"

definition sizeof_thread :: usize where
  "sizeof_thread = 48"

section \<open>Operations\<close>

definition sched_init :: "'cpu sched \<Rightarrow> 'cpu sched option" where
  "sched_init s =
     do {
       (t, h) \<leftarrow> kmalloc sizeof_thread (sched_heap s);
       if t = 0 then None
       else Some (s\<lparr>sched_heap := h,
              thread_at := (thread_at s)(t \<mapsto> \<lparr>t_id = next_id s, t_sp = 0, t_stack_base = 0,
                t_stack_size = 0, t_state = THREAD_RUNNING, t_next = t\<rparr>),
              next_id := next_id s + 1, current := t, sched_enabled := True\<rparr>)
     }"

definition thread_create :: "'cpu arch_ops \<Rightarrow> u64 \<Rightarrow> u64 \<Rightarrow> 'cpu sched \<Rightarrow> (u64 \<times> 'cpu sched) option" where
  "thread_create ops entry arg s =
     do {
       (t, h1) \<leftarrow> kmalloc sizeof_thread (sched_heap s);
       if t = 0 then None
       else do {
         (stack, h2) \<leftarrow> kmalloc THREAD_STACK_SIZE h1;
         let (sp, c) = arch_thread_init_stack ops (stack + THREAD_STACK_SIZE) entry arg (sched_cpu s);
         cur \<leftarrow> thread_at s (current s);
         let new = \<lparr>t_id = next_id s, t_sp = sp, t_stack_base = stack,
                    t_stack_size = THREAD_STACK_SIZE, t_state = THREAD_READY, t_next = t_next cur\<rparr>;
         Some (t, s\<lparr>sched_heap := h2, sched_cpu := c, next_id := next_id s + 1,
                    thread_at := (thread_at s)(t \<mapsto> new, current s \<mapsto> cur\<lparr>t_next := t\<rparr>)\<rparr>)
       }
     }"

definition sched_current :: "'cpu sched \<Rightarrow> u64" where
  "sched_current s = current s"

definition switch_to :: "'cpu arch_ops \<Rightarrow> u64 \<Rightarrow> 'cpu sched \<Rightarrow> 'cpu sched option" where
  "switch_to ops nxt s =
     do {
       pt \<leftarrow> thread_at s (current s);
       nt \<leftarrow> thread_at s nxt;
       let (old_sp, c) = arch_context_switch ops (t_sp nt) (sched_cpu s);
       Some (s\<lparr>current := nxt, sched_cpu := c,
               thread_at := (thread_at s)(current s \<mapsto> pt\<lparr>t_sp := old_sp\<rparr>)\<rparr>)
     }"

definition sched_yield :: "'cpu arch_ops \<Rightarrow> 'cpu sched \<Rightarrow> 'cpu sched option" where
  "sched_yield ops s =
     do {
       cur \<leftarrow> thread_at s (current s);
       if t_next cur \<noteq> current s then switch_to ops (t_next cur) s else Some s
     }"

definition sched_tick :: "'cpu arch_ops \<Rightarrow> 'cpu sched \<Rightarrow> 'cpu sched option" where
  "sched_tick ops s = (if \<not> sched_enabled s then Some s else sched_yield ops s)"

partial_function (option) find_pred :: "(u64 \<rightharpoonup> thread) \<Rightarrow> u64 \<Rightarrow> u64 \<Rightarrow> u64 option" where
  "find_pred ts dead p =
     do {
       pt \<leftarrow> ts p;
       if t_next pt \<noteq> dead then find_pred ts dead (t_next pt) else Some p
     }"

definition thread_exit :: "'cpu arch_ops \<Rightarrow> 'cpu sched \<Rightarrow> 'cpu sched option" where
  "thread_exit ops s =
     do {
       let dead = current s;
       dt \<leftarrow> thread_at s dead;
       let ts = (thread_at s)(dead \<mapsto> dt\<lparr>t_state := THREAD_DEAD\<rparr>);
       p \<leftarrow> find_pred ts dead dead;
       pt \<leftarrow> ts p;
       let ts = ts(p \<mapsto> pt\<lparr>t_next := t_next dt\<rparr>);
       dt' \<leftarrow> ts dead;
       let target = t_next dt';
       tt \<leftarrow> ts target;
       let (old_sp, c) = arch_context_switch ops (t_sp tt) (sched_cpu s);
       Some (s\<lparr>current := target, sched_cpu := c, thread_at := ts(dead \<mapsto> dt'\<lparr>t_sp := old_sp\<rparr>)\<rparr>)
     }"

section \<open>The ring\<close>

text \<open>\<open>tpath ts p xs q\<close>: following next pointers from \<open>p\<close> visits \<open>xs\<close> and arrives at \<open>q\<close>.\<close>

fun tpath :: "(u64 \<rightharpoonup> thread) \<Rightarrow> u64 \<Rightarrow> u64 list \<Rightarrow> u64 \<Rightarrow> bool" where
  "tpath ts p [] q \<longleftrightarrow> p = q"
| "tpath ts p (x # xs) q \<longleftrightarrow> p = x \<and>
     (case ts x of None \<Rightarrow> False | Some t \<Rightarrow> tpath ts (t_next t) xs q)"

lemma tpath_append: "tpath ts p (xs @ ys) q \<longleftrightarrow> (\<exists>m. tpath ts p xs m \<and> tpath ts m ys q)"
  by (induction xs arbitrary: p) (auto split: option.splits)

lemma tpath_cong:
  "(\<And>x. x \<in> set xs \<Longrightarrow> map_option t_next (ts' x) = map_option t_next (ts x)) \<Longrightarrow> tpath ts' p xs q = tpath ts p xs q"
proof (induction xs arbitrary: p)
  case (Cons a xs)
  have "map_option t_next (ts' a) = map_option t_next (ts a)" using Cons.prems by simp
  then show ?case using Cons by (cases "ts a"; cases "ts' a") auto
qed simp

lemma tpath_member: "tpath ts p xs q \<Longrightarrow> x \<in> set xs \<Longrightarrow> \<exists>t. ts x = Some t"
  by (induction xs arbitrary: p) (auto split: option.splits)

text \<open>\<open>sched_rep s rs\<close>: \<open>rs\<close> lists the threads of the ring once around, beginning with the current
  one; every control block is a live heap buffer.\<close>

definition tcb_live :: "heap \<Rightarrow> u64 \<Rightarrow> bool" where
  "tcb_live h x \<longleftrightarrow> (\<exists>n \<ge> 48. (unat x, n) \<in> live h)"

definition sched_rep :: "'cpu sched \<Rightarrow> u64 list \<Rightarrow> bool" where
  "sched_rep s rs \<longleftrightarrow> rs \<noteq> [] \<and> distinct rs \<and> hd rs = current s
     \<and> tpath (thread_at s) (current s) rs (current s)
     \<and> heap_inv (sched_heap s) \<and> (\<forall>x \<in> set rs. tcb_live (sched_heap s) x)"

lemma tpath_ConsE:
  assumes "tpath ts p (x # xs) q"
  obtains t where "p = x" "ts x = Some t" "tpath ts (t_next t) xs q"
  using assms by (auto split: option.splits)

lemma tpath_hd: "tpath ts p xs q \<Longrightarrow> p = (if xs = [] then q else hd xs)"
  by (cases xs) auto

lemma sched_rep_hd: "sched_rep s rs \<Longrightarrow> hd rs = current s"
  by (simp add: sched_rep_def)

lemma sched_rep_Cons:
  assumes "sched_rep s rs"
  obtains xs t where "rs = current s # xs" "thread_at s (current s) = Some t"
    "t_next t = (if xs = [] then current s else hd xs)"
    "tpath (thread_at s) (t_next t) xs (current s)"
proof -
  have "rs \<noteq> []" "hd rs = current s" using assms by (simp_all add: sched_rep_def)
  then have rs: "rs = current s # tl rs" by (metis list.collapse)
  then have "tpath (thread_at s) (current s) (current s # tl rs) (current s)"
    using assms unfolding sched_rep_def by metis
  then obtain t where t: "thread_at s (current s) = Some t" "tpath (thread_at s) (t_next t) (tl rs) (current s)"
    by (rule tpath_ConsE)
  from that [OF rs t(1) tpath_hd [OF t(2)] t(2)] show thesis .
qed

section \<open>Each operation on the ring\<close>

lemma tcb_live_nonzero: "heap_inv h \<Longrightarrow> tcb_live h x \<Longrightarrow> x \<noteq> 0"
proof -
  assume "heap_inv h" "tcb_live h x"
  then obtain L n where L: "heap_rep h L" and "(unat x, n) \<in> live h"
    unfolding heap_inv_def tcb_live_def by blast
  then have m: "(unat x, n) \<in> live_of h L" by (simp add: live_eq [OF L])
  obtain b :: u64 where "unat x = unat b + 24" by (rule live_member [OF m])
  then have "unat x \<noteq> 0" by linarith
  then show "x \<noteq> 0" by (metis unat_0)
qed

lemma ring_rotate:
  assumes "tpath ts c (c # y # ys) c"
  shows "tpath ts y (y # ys @ [c]) y"
proof -
  obtain t where t: "ts c = Some t" "tpath ts (t_next t) (y # ys) c" using assms by (rule tpath_ConsE)
  then have "t_next t = y" using tpath_hd [OF t(2)] by simp
  then have "tpath ts y (y # ys) c" "tpath ts c [c] y" using t by simp_all
  then show ?thesis using tpath_append [of ts y "y # ys" "[c]" y] by auto
qed

lemma sched_yield_ring:
  assumes rep: "sched_rep s rs"
  obtains s' where "sched_yield ops s = Some s'" "sched_rep s' (rotate1 rs)"
    "sched_heap s' = sched_heap s" "sched_enabled s' = sched_enabled s" "next_id s' = next_id s"
    "\<And>x. map_option t_next (thread_at s' x) = map_option t_next (thread_at s x)"
    "\<And>x. map_option t_state (thread_at s' x) = map_option t_state (thread_at s x)"
    "rs = [current s] \<Longrightarrow> s' = s"
proof -
  obtain xs t where rs: "rs = current s # xs" "thread_at s (current s) = Some t"
    "t_next t = (if xs = [] then current s else hd xs)" using sched_rep_Cons [OF rep] by metis
  show thesis
  proof (cases xs)
    case Nil
    then show thesis using rs rep by (intro that [of s]) (simp_all add: sched_yield_def)
  next
    case (Cons y ys)
    let ?c = "current s"
    have y: "y \<noteq> ?c" using rep rs(1) Cons by (auto simp: sched_rep_def)
    obtain yt where yt: "thread_at s y = Some yt"
      using tpath_member [of "thread_at s" ?c rs ?c y] rep rs(1) Cons by (auto simp: sched_rep_def)
    obtain old c where sw: "arch_context_switch ops (t_sp yt) (sched_cpu s) = (old, c)" by fastforce
    let ?s = "s\<lparr>current := y, sched_cpu := c, thread_at := (thread_at s)(?c \<mapsto> t\<lparr>t_sp := old\<rparr>)\<rparr>"
    have run: "sched_yield ops s = Some ?s"
      using rs(2,3) Cons y yt sw by (simp add: sched_yield_def switch_to_def)
    have nx: "map_option t_next (thread_at ?s x) = map_option t_next (thread_at s x)" for x
      using rs(2) by simp
    have "tpath (thread_at s) y (y # ys @ [?c]) y"
      using ring_rotate [of "thread_at s" ?c y ys] rep rs(1) Cons by (simp add: sched_rep_def)
    then have "tpath (thread_at ?s) y (y # ys @ [?c]) y" by (simp only: tpath_cong [OF nx])
    then have "sched_rep ?s (rotate1 rs)"
      using rep rs(1) Cons unfolding sched_rep_def by auto
    then show thesis using run nx rs(1,2) Cons by (intro that [of ?s]) simp_all
  qed
qed

lemma malloc_sizes [simp]:
  "0 < unat sizeof_thread" "unat sizeof_thread < 2 ^ 62" "0 < unat THREAD_STACK_SIZE"
  "unat THREAD_STACK_SIZE < 2 ^ 62" "unat sizeof_thread = 48" "unat THREAD_STACK_SIZE = 16384"
  by (simp_all add: sizeof_thread_def THREAD_STACK_SIZE_def)

lemma tcb_live_mono: "live h \<subseteq> live h' \<Longrightarrow> tcb_live h x \<Longrightarrow> tcb_live h' x"
  unfolding tcb_live_def by blast

lemma tcb_alloc:
  assumes "heap_inv h" "kmalloc sizeof_thread h = Some (t, h')" "t \<noteq> 0"
  shows "heap_inv h'" "live h \<subseteq> live h'" "tcb_live h' t" "\<And>x. tcb_live h x \<Longrightarrow> x \<noteq> t"
proof -
  note st = kheap.malloc_state [OF assms(1) malloc_sizes(1,2) assms(2)]
  show "heap_inv h'" "live h \<subseteq> live h'" by (fact st(1), fact st(2))
  show "tcb_live h' t" using st(3) [OF assms(3)] by (simp add: tcb_live_def)
  have "\<forall>m. (unat t, m) \<notin> live h"
    using kheap.malloc_ok [OF assms(1) malloc_sizes(1,2) assms(2,3)] by blast
  then show "x \<noteq> t" if "tcb_live h x" for x using that unfolding tcb_live_def by blast
qed

lemma tcb_allocs:
  assumes "heap_inv h" "kmalloc sizeof_thread h = Some (t, h1)" "t \<noteq> 0" "kmalloc THREAD_STACK_SIZE h1 = Some (b, h2)"
  shows "heap_inv h2" "live h \<subseteq> live h2" "tcb_live h2 t" "\<And>x. tcb_live h x \<Longrightarrow> x \<noteq> t"
proof -
  note a = tcb_alloc [OF assms(1-3)]
  note b = kheap.malloc_state(1,2) [OF a(1) malloc_sizes(3,4) assms(4)]
  show "heap_inv h2" by (fact b(1))
  show "live h \<subseteq> live h2" using a(2) b(2) by blast
  show "tcb_live h2 t" using tcb_live_mono [OF b(2) a(3)] .
  show "x \<noteq> t" if "tcb_live h x" for x using a(4) [OF that] .
qed

lemma ring_splice:
  assumes "tpath ts c (c # xs) c" "distinct (c # xs)" "t \<notin> set (c # xs)" "ts c = Some ct"
    and "t_next new = t_next ct"
  shows "tpath (ts(t \<mapsto> new, c \<mapsto> ct\<lparr>t_next := t\<rparr>)) c (c # t # xs) c"
proof -
  let ?ts = "ts(t \<mapsto> new, c \<mapsto> ct\<lparr>t_next := t\<rparr>)"
  have "tpath ts (t_next ct) xs c" using assms(1,4) by simp
  moreover have "tpath ?ts p xs c = tpath ts p xs c" for p
    using assms(2,3) by (intro tpath_cong) auto
  ultimately show ?thesis using assms(3,5) by simp
qed

lemma thread_create_ring:
  assumes rep: "sched_rep s (current s # xs)" and run: "thread_create ops entry arg s = Some (t, s')"
  obtains stack new where "sched_rep s' (current s # t # xs)" "current s' = current s" "t \<notin> set (current s # xs)" "t \<noteq> 0"
    "thread_at s' t = Some new" "t_id new = next_id s" "t_state new = THREAD_READY" "t_stack_base new = stack"
    "t_stack_size new = THREAD_STACK_SIZE" "next_id s' = next_id s + 1" "sched_enabled s' = sched_enabled s"
    "(t_sp new, sched_cpu s') = arch_thread_init_stack ops (stack + THREAD_STACK_SIZE) entry arg (sched_cpu s)"
    "live (sched_heap s) \<subseteq> live (sched_heap s')"
    "stack \<noteq> 0 \<Longrightarrow> \<exists>n \<ge> 16384. (unat stack, n) \<in> live (sched_heap s')"
    "\<And>x. x \<noteq> t \<Longrightarrow> map_option t_state (thread_at s' x) = map_option t_state (thread_at s x)"
proof -
  obtain h1 stack h2 sp c ct where a: "kmalloc sizeof_thread (sched_heap s) = Some (t, h1)" "t \<noteq> 0"
    "kmalloc THREAD_STACK_SIZE h1 = Some (stack, h2)"
    "arch_thread_init_stack ops (stack + THREAD_STACK_SIZE) entry arg (sched_cpu s) = (sp, c)"
    "thread_at s (current s) = Some ct"
    using run
    by (auto simp: thread_create_def bind_eq_Some_conv split_def Let_def split: if_splits) (metis prod.collapse)
  let ?new = "\<lparr>t_id = next_id s, t_sp = sp, t_stack_base = stack, t_stack_size = THREAD_STACK_SIZE,
    t_state = THREAD_READY, t_next = t_next ct\<rparr>"
  have s': "s' = s\<lparr>sched_heap := h2, sched_cpu := c, next_id := next_id s + 1,
      thread_at := (thread_at s)(t \<mapsto> ?new, current s \<mapsto> ct\<lparr>t_next := t\<rparr>)\<rparr>"
    using run a by (simp add: thread_create_def)
  have inv: "heap_inv (sched_heap s)" using rep by (simp add: sched_rep_def)
  note al = tcb_allocs [OF inv a(1-3)]
  have fresh: "t \<notin> set (current s # xs)" using rep al(4) unfolding sched_rep_def by blast
  have "tpath (thread_at s') (current s) (current s # t # xs) (current s)" unfolding s'
    using ring_splice [of "thread_at s" "current s" xs t ct ?new] fresh a(5) rep by (simp add: sched_rep_def)
  moreover have "\<forall>x \<in> set (current s # t # xs). tcb_live h2 x"
    using rep al(3) tcb_live_mono [OF al(2)] by (auto simp: sched_rep_def)
  ultimately have "sched_rep s' (current s # t # xs)"
    using rep fresh al(1) by (auto simp: sched_rep_def s')
  moreover have "\<exists>n \<ge> 16384. (unat stack, n) \<in> live h2" if "stack \<noteq> 0"
    using kheap.malloc_state(3) [OF tcb_alloc(1) [OF inv a(1,2)] malloc_sizes(3,4) a(3) that] by simp
  ultimately show thesis using a fresh al(2) by (intro that [of ?new stack]) (auto simp: s')
qed

lemma find_pred_path:
  "tpath ts p xs c \<Longrightarrow> xs \<noteq> [] \<Longrightarrow> c \<notin> set (tl xs) \<Longrightarrow> find_pred ts c p = Some (last xs)"
proof (induction xs arbitrary: p)
  case (Cons x xs)
  obtain t where t: "p = x" "ts x = Some t" "tpath ts (t_next t) xs c" using Cons.prems(1) by (rule tpath_ConsE)
  have nx: "t_next t = (if xs = [] then c else hd xs)" using tpath_hd [OF t(3)] .
  show ?case
  proof (cases xs)
    case Nil
    then show ?thesis using t nx by (subst find_pred.simps) simp
  next
    case (Cons y ys)
    then have "find_pred ts c (t_next t) = Some (last xs)" using Cons.IH [OF t(3)] Cons.prems(3) by simp
    then show ?thesis using t nx Cons Cons.prems(3) by (subst find_pred.simps) auto
  qed
qed simp

lemma ring_unlink:
  assumes "tpath ts y (zs @ [l]) c" "distinct (zs @ [l])" "c \<notin> set (zs @ [l])" "ts l = Some lt"
  shows "tpath (ts(l \<mapsto> lt\<lparr>t_next := y\<rparr>)) y (zs @ [l]) y"
proof -
  obtain m where m: "tpath ts y zs m" "tpath ts m [l] c" using assms(1) by (auto simp: tpath_append)
  have "tpath (ts(l \<mapsto> lt\<lparr>t_next := y\<rparr>)) y zs m = tpath ts y zs m"
    using assms(2) by (intro tpath_cong) auto
  then have "tpath (ts(l \<mapsto> lt\<lparr>t_next := y\<rparr>)) y zs m" using m(1) by simp
  moreover have "tpath (ts(l \<mapsto> lt\<lparr>t_next := y\<rparr>)) m [l] y" using m(2) by simp
  ultimately show ?thesis by (auto simp: tpath_append)
qed

lemma thread_exit_ring:
  assumes rep: "sched_rep s (current s # y # ys)"
  obtains s' dt where "thread_exit ops s = Some s'" "sched_rep s' (y # ys)" "current s' = y"
    "sched_heap s' = sched_heap s" "thread_at s' (current s) = Some dt" "t_state dt = THREAD_DEAD"
    "sched_enabled s' = sched_enabled s"
    "\<And>x. x \<noteq> current s \<Longrightarrow> map_option t_state (thread_at s' x) = map_option t_state (thread_at s x)"
proof -
  let ?c = "current s" and ?ts = "thread_at s"
  define zs l where "zs = butlast (y # ys)" and "l = last (y # ys)"
  have zl: "y # ys = zs @ [l]" by (simp add: zs_def l_def)
  have dis: "distinct (?c # y # ys)" and path: "tpath ?ts ?c (?c # y # ys) ?c" using rep by (auto simp: sched_rep_def)
  obtain dt where dt: "?ts ?c = Some dt" "tpath ?ts (t_next dt) (y # ys) ?c" using path by (rule tpath_ConsE)
  have nx: "t_next dt = y" using tpath_hd [OF dt(2)] by simp
  let ?d = "dt\<lparr>t_state := THREAD_DEAD\<rparr>"
  let ?ts1 = "?ts(?c \<mapsto> ?d)"
  have same: "tpath ?ts1 p xs q = tpath ?ts p xs q" for p xs q using dt(1) by (intro tpath_cong) simp
  have pred: "find_pred ?ts1 ?c ?c = Some l"
    using find_pred_path [OF path [folded same [of ?c "?c # y # ys" ?c]]] dis by (simp add: l_def)
  have lc: "l \<noteq> ?c" using dis zl by auto
  obtain lt where lt: "?ts l = Some lt" using tpath_member [OF dt(2), of l] zl by auto
  let ?ts2 = "?ts1(l \<mapsto> lt\<lparr>t_next := y\<rparr>)"
  have ring: "tpath ?ts2 y (zs @ [l]) y"
    using ring_unlink [of ?ts1 y zs l ?c lt] dt(2) nx zl dis lt lc by (simp add: same)
  obtain tt where tt: "?ts2 y = Some tt" using tpath_member [OF ring, of y] zl by (metis list.set_intros(1))
  obtain old c where sw: "arch_context_switch ops (t_sp tt) (sched_cpu s) = (old, c)" by fastforce
  let ?s = "s\<lparr>current := y, sched_cpu := c, thread_at := ?ts2(?c \<mapsto> ?d\<lparr>t_sp := old\<rparr>)\<rparr>"
  have run: "thread_exit ops s = Some ?s"
    using dt(1) pred lt lc nx tt sw dis by (cases "y = l") (auto simp: thread_exit_def Let_def)
  have "tpath (thread_at ?s) y (zs @ [l]) y = tpath ?ts2 y (zs @ [l]) y"
    using lc by (intro tpath_cong) simp
  then have "sched_rep ?s (y # ys)" using ring rep by (simp add: sched_rep_def zl [symmetric])
  then show thesis using run lt by (intro that [of ?s "?d\<lparr>t_sp := old\<rparr>"]) simp_all
qed

lemma sched_init_ring:
  assumes "heap_inv (sched_heap s)" "sched_init s = Some s'"
  shows "sched_rep s' [current s']" "sched_enabled s'"
    "\<exists>t. thread_at s' (current s') = Some t \<and> t_id t = next_id s \<and> t_state t = THREAD_RUNNING"
proof -
  obtain t h where k: "kmalloc sizeof_thread (sched_heap s) = Some (t, h)" "t \<noteq> 0"
    using assms(2) by (auto simp: sched_init_def bind_eq_Some_conv split: if_splits)
  note a = tcb_alloc [OF assms(1) k]
  have s': "s' = s\<lparr>sched_heap := h,
      thread_at := (thread_at s)(t \<mapsto> \<lparr>t_id = next_id s, t_sp = 0, t_stack_base = 0,
        t_stack_size = 0, t_state = THREAD_RUNNING, t_next = t\<rparr>),
      next_id := next_id s + 1, current := t, sched_enabled := True\<rparr>"
    using assms(2) k by (simp add: sched_init_def)
  show "sched_rep s' [current s']" using a by (simp add: sched_rep_def s')
  show "sched_enabled s'" "\<exists>t. thread_at s' (current s') = Some t \<and> t_id t = next_id s \<and> t_state t = THREAD_RUNNING"
    by (simp_all add: s')
qed

section \<open>Switching and contexts\<close>

context context_switcher
begin

lemma yield_contexts:
  assumes rep: "sched_rep s (current s # y # ys)" and nt: "thread_at s y = Some nt"
    and run: "sched_yield ops s = Some s'" and pt: "thread_at s' (current s) = Some pt"
    and dis: "words (t_sp nt) \<inter> words (t_sp pt) = {}"
  shows "exit_ctx (sched_cpu s') = frame (sched_cpu s) (t_sp nt)"
    "frame (sched_cpu s') (t_sp pt) = entry_ctx (sched_cpu s)"
    "words q \<inter> words (t_sp pt) = {} \<Longrightarrow> frame (sched_cpu s') q = frame (sched_cpu s) q"
proof -
  obtain ct where ct: "thread_at s (current s) = Some ct" "t_next ct = y"
    using sched_rep_Cons [OF rep] by (metis list.discI list.sel(1,3))
  have y: "y \<noteq> current s" using rep by (auto simp: sched_rep_def)
  obtain old c where sw: "arch_context_switch ops (t_sp nt) (sched_cpu s) = (old, c)" by fastforce
  have "s' = s\<lparr>current := y, sched_cpu := c, thread_at := (thread_at s)(current s \<mapsto> ct\<lparr>t_sp := old\<rparr>)\<rparr>"
    using run ct y nt sw by (simp add: sched_yield_def switch_to_def)
  then have f: "sched_cpu s' = c" "t_sp pt = old" using pt by auto
  show "exit_ctx (sched_cpu s') = frame (sched_cpu s) (t_sp nt)" using switch_loads [OF sw] dis f by simp
  show "frame (sched_cpu s') (t_sp pt) = entry_ctx (sched_cpu s)" using switch_saves [OF sw] f by simp
  show "frame (sched_cpu s') q = frame (sched_cpu s) q" if "words q \<inter> words (t_sp pt) = {}"
    using switch_keeps [OF sw] that f by simp
qed

end

section \<open>Reachable scheduler states\<close>

inductive sched_step :: "'cpu arch_ops \<Rightarrow> 'cpu sched \<Rightarrow> 'cpu sched \<Rightarrow> bool" for ops where
  yield: "sched_yield ops s = Some s' \<Longrightarrow> sched_step ops s s'"
| tick: "sched_tick ops s = Some s' \<Longrightarrow> sched_step ops s s'"
| create: "thread_create ops entry arg s = Some (t, s') \<Longrightarrow> sched_step ops s s'"
| exit: "thread_at s (current s) = Some ct \<Longrightarrow> t_next ct \<noteq> current s \<Longrightarrow> thread_exit ops s = Some s' \<Longrightarrow>
    sched_step ops s s'"
| run: "s' = s\<lparr>sched_cpu := c\<rparr> \<Longrightarrow> sched_step ops s s'"

inductive sched_reach :: "'cpu arch_ops \<Rightarrow> 'cpu sched \<Rightarrow> bool" for ops where
  start: "heap_inv (sched_heap s) \<Longrightarrow> sched_init s = Some s' \<Longrightarrow> sched_reach ops s'"
| step: "sched_reach ops s \<Longrightarrow> sched_step ops s s' \<Longrightarrow> sched_reach ops s'"

inductive_cases sched_stepE: "sched_step ops s s'"

definition alive :: "(u64 \<rightharpoonup> thread) \<Rightarrow> u64 list \<Rightarrow> bool" where
  "alive ts rs \<longleftrightarrow> (\<forall>x \<in> set rs. \<exists>t. ts x = Some t \<and> t_state t \<noteq> THREAD_DEAD)"

lemma alive_cong:
  assumes "\<And>x. x \<in> set rs \<Longrightarrow> map_option t_state (ts' x) = map_option t_state (ts x)"
  shows "alive ts' rs = alive ts rs"
proof -
  have "(\<exists>t. ts' x = Some t \<and> t_state t \<noteq> THREAD_DEAD) = (\<exists>t. ts x = Some t \<and> t_state t \<noteq> THREAD_DEAD)"
    if "x \<in> set rs" for x
    using assms [OF that] by (cases "ts' x"; cases "ts x") auto
  then show ?thesis by (simp add: alive_def)
qed

definition sched_inv :: "'cpu sched \<Rightarrow> u64 list \<Rightarrow> bool" where
  "sched_inv s rs \<longleftrightarrow> sched_rep s rs \<and> alive (thread_at s) rs"

lemma yield_inv:
  assumes "sched_inv s rs" "sched_yield ops s = Some s'"
  shows "sched_inv s' (rotate1 rs)"
proof -
  obtain s2 where y: "sched_yield ops s = Some s2" "sched_rep s2 (rotate1 rs)"
    "\<And>x. map_option t_state (thread_at s2 x) = map_option t_state (thread_at s x)"
    using assms(1) sched_yield_ring [of s rs ops] unfolding sched_inv_def by metis
  have "alive (thread_at s2) (rotate1 rs) = alive (thread_at s) (rotate1 rs)" by (rule alive_cong) (rule y(3))
  then show ?thesis using y assms by (simp add: sched_inv_def alive_def)
qed

lemma create_inv:
  assumes "sched_inv s (current s # xs)" "thread_create ops entry arg s = Some (t, s')"
  shows "sched_inv s' (current s # t # xs)"
proof -
  obtain new where c: "sched_rep s' (current s # t # xs)" "t \<notin> set (current s # xs)" "thread_at s' t = Some new"
    "t_state new = THREAD_READY"
    "\<And>x. x \<noteq> t \<Longrightarrow> map_option t_state (thread_at s' x) = map_option t_state (thread_at s x)"
    using thread_create_ring [OF _ assms(2)] assms(1) unfolding sched_inv_def by metis
  have "alive (thread_at s') (current s # xs) = alive (thread_at s) (current s # xs)"
    using c(2,5) by (intro alive_cong) metis
  then show ?thesis using c assms(1) by (auto simp: sched_inv_def alive_def)
qed

lemma exit_inv:
  assumes "sched_inv s (current s # y # ys)" "thread_exit ops s = Some s'"
  shows "sched_inv s' (y # ys)"
proof -
  have rep: "sched_rep s (current s # y # ys)" using assms(1) by (simp add: sched_inv_def)
  obtain e where e: "thread_exit ops s = Some e" "sched_rep e (y # ys)"
    "\<And>x. x \<noteq> current s \<Longrightarrow> map_option t_state (thread_at e x) = map_option t_state (thread_at s x)"
    using thread_exit_ring [OF rep, of ops] by metis
  have "current s \<notin> set (y # ys)" using rep by (auto simp: sched_rep_def)
  then have "alive (thread_at e) (y # ys) = alive (thread_at s) (y # ys)"
    using e(3) by (intro alive_cong) metis
  then show ?thesis using e assms by (simp add: sched_inv_def alive_def)
qed

lemma sched_inv_cpu: "sched_inv (s\<lparr>sched_cpu := c\<rparr>) rs = sched_inv s rs"
  by (simp add: sched_inv_def sched_rep_def)

lemma sched_step_inv:
  assumes "sched_step ops s s'" "sched_inv s rs"
  shows "\<exists>rs'. sched_inv s' rs'"
proof -
  have rep: "sched_rep s rs" using assms(2) by (simp add: sched_inv_def)
  obtain xs ct where rs: "rs = current s # xs" "thread_at s (current s) = Some ct"
    "t_next ct = (if xs = [] then current s else hd xs)" using sched_rep_Cons [OF rep] by metis
  have inv: "sched_inv s (current s # xs)" using assms(2) rs(1) by simp
  show ?thesis
  proof (rule sched_stepE [OF assms(1)])
    assume "sched_yield ops s = Some s'"
    from yield_inv [OF assms(2) this] show ?thesis by (rule exI)
  next
    assume t: "sched_tick ops s = Some s'"
    show ?thesis
    proof (cases "sched_enabled s")
      case True
      then have "sched_yield ops s = Some s'" using t by (simp add: sched_tick_def)
      from yield_inv [OF assms(2) this] show ?thesis by (rule exI)
    next
      case False
      then have "s' = s" using t by (simp add: sched_tick_def)
      then show ?thesis using assms(2) by (intro exI) simp
    qed
  next
    fix entry arg t
    assume "thread_create ops entry arg s = Some (t, s')"
    from create_inv [OF inv this] show ?thesis by (rule exI)
  next
    fix dt
    assume d: "thread_at s (current s) = Some dt" "t_next dt \<noteq> current s" and e: "thread_exit ops s = Some s'"
    obtain y ys where "xs = y # ys" using rs(2,3) d by (cases xs) auto
    from exit_inv [OF inv [unfolded this] e] show ?thesis by (rule exI)
  next
    fix c
    assume "s' = s\<lparr>sched_cpu := c\<rparr>"
    then have "sched_inv s' rs" using assms(2) by (simp only: sched_inv_cpu)
    then show ?thesis by (rule exI)
  qed
qed

lemma sched_reach_inv: "sched_reach ops s \<Longrightarrow> \<exists>rs. sched_inv s rs"
proof (induction rule: sched_reach.induct)
  case (start s s')
  note i = sched_init_ring [OF start]
  then have "sched_inv s' [current s']" by (auto simp: sched_inv_def alive_def)
  then show ?case by blast
next
  case (step s s')
  then show ?case using sched_step_inv by blast
qed

section \<open>Properties\<close>

fun ticks :: "'cpu arch_ops \<Rightarrow> nat \<Rightarrow> 'cpu sched \<Rightarrow> 'cpu sched option" where
  "ticks ops 0 s = Some s"
| "ticks ops (Suc k) s = do { s1 \<leftarrow> sched_tick ops s; ticks ops k s1 }"

lemma ticks_ring:
  "sched_rep s rs \<Longrightarrow> sched_enabled s \<Longrightarrow>
     \<exists>s'. ticks ops k s = Some s' \<and> sched_rep s' (rotate k rs) \<and> sched_heap s' = sched_heap s"
proof (induction k arbitrary: s rs)
  case (Suc k)
  obtain s1 where s1: "sched_yield ops s = Some s1" "sched_rep s1 (rotate1 rs)" "sched_enabled s1 = sched_enabled s"
    "sched_heap s1 = sched_heap s" using sched_yield_ring [OF Suc.prems(1), of ops] by metis
  then obtain s' where "ticks ops k s1 = Some s'" "sched_rep s' (rotate k (rotate1 rs))" "sched_heap s' = sched_heap s1"
    using Suc.IH [OF s1(2)] Suc.prems(2) by blast
  then show ?case using s1 Suc.prems(2) by (simp add: sched_tick_def rotate1_rotate_swap)
qed simp

text \<open>Property C22. Timer ticks schedule strictly round-robin: with the scheduler enabled, no sequence
  of ticks faults, and after \<open>k\<close> ticks the running thread is the one \<open>k\<close> places further around the
  ring, so every thread of an \<open>n\<close>-thread ring runs again within \<open>n\<close> ticks.\<close>

theorem sched_tick_round_robin:
  assumes "sched_rep s rs" "sched_enabled s"
  shows "\<exists>s'. ticks ops k s = Some s' \<and> sched_rep s' (rotate k rs)
     \<and> current s' = rs ! (k mod length rs) \<and> sched_heap s' = sched_heap s"
proof -
  obtain s' where s': "ticks ops k s = Some s'" "sched_rep s' (rotate k rs)" "sched_heap s' = sched_heap s"
    using ticks_ring [OF assms] by blast
  have "rs \<noteq> []" using assms(1) by (simp add: sched_rep_def)
  then have "current s' = rs ! (k mod length rs)"
    using s'(2) hd_rotate_conv_nth [of rs k] by (simp add: sched_rep_def)
  then show ?thesis using s' by blast
qed

text \<open>A ring of two threads at \<open>0x4030\<close> and \<open>0x40B0\<close>, in a heap with two live buffers.\<close>

definition two_heap :: heap where
  "two_heap = \<lparr>heap_pmm = demo_pmm, arena_list = 0x4000,
     arena_at = [0x4000 \<mapsto> \<lparr>ha_next = 0, ha_frame_count = 1, ha_first_block = 0x4018\<rparr>],
     block_at = [0x4018 \<mapsto> \<lparr>hb_size = 104, hb_free = False, hb_next = 0x4098\<rparr>,
                 0x4098 \<mapsto> \<lparr>hb_size = 104, hb_free = False, hb_next = 0x4118\<rparr>,
                 0x4118 \<mapsto> \<lparr>hb_size = 3792, hb_free = True, hb_next = 0\<rparr>]\<rparr>"

definition two_threads :: "cpu_x86 sched" where
  "two_threads = \<lparr>sched_heap = two_heap, sched_cpu = demo_cpu_x86 0x9000,
     thread_at = [0x4030 \<mapsto> \<lparr>t_id = 0, t_sp = 0, t_stack_base = 0, t_stack_size = 0,
                             t_state = THREAD_RUNNING, t_next = 0x40B0\<rparr>,
                  0x40B0 \<mapsto> \<lparr>t_id = 1, t_sp = 0xA000, t_stack_base = 0x8000, t_stack_size = 0x4000,
                             t_state = THREAD_READY, t_next = 0x4030\<rparr>],
     current = 0x4030, next_id = 2, sched_enabled = True\<rparr>"

lemma two_heap_rep: "heap_rep two_heap [(0x4000, [0x4018, 0x4098, 0x4118])]"
  using demo_pmm_facts
  by (simp add: heap_rep_def two_heap_def arena_ok_def arena_end_def arena_frames_def)

lemma two_heap_live: "live two_heap = {(0x4030, 104), (0x40B0, 104)}"
proof -
  have "set (all_blocks [(0x4000, [0x4018, 0x4098, 0x4118])]) = {0x4018, 0x4098, 0x4118 :: u64}" by simp
  then show ?thesis unfolding live_eq [OF two_heap_rep] live_of_def
    by (simp add: live_in_insert two_heap_def) (simp add: live_in_def insert_commute)
qed

lemma two_threads_rep: "sched_rep two_threads [0x4030, 0x40B0]"
  using two_heap_rep
  by (auto simp: sched_rep_def two_threads_def heap_inv_def tcb_live_def two_heap_live)

theorem sched_tick_round_robin_witness:
  "sched_rep two_threads [0x4030, 0x40B0] \<and> sched_enabled two_threads
   \<and> (\<exists>s'. ticks (arch_x86 0x500) 3 two_threads = Some s' \<and> current s' = 0x40B0)"
proof -
  have "sched_enabled two_threads" by (simp add: two_threads_def)
  then show ?thesis
    using sched_tick_round_robin [OF two_threads_rep, of "arch_x86 0x500" 3] two_threads_rep
    by (auto simp: mod_if simp del: ticks.simps)
qed

text \<open>Property C26. \<open>thread_create\<close> faults only when the heap cannot supply a control block. Otherwise
  the new thread is a fresh, live heap buffer, takes the next id, is READY, and stands directly
  after the current thread in the ring; the other threads keep their order.\<close>

theorem thread_create_joins_ring:
  assumes "sched_rep s (current s # xs)"
  shows "(thread_create ops entry arg s = None \<longleftrightarrow>
            (\<exists>h. kmalloc sizeof_thread (sched_heap s) = Some (0, h)))
    \<and> (\<forall>t s'. thread_create ops entry arg s = Some (t, s') \<longrightarrow>
         t \<notin> set (current s # xs) \<and> sched_rep s' (current s # t # xs) \<and> next_id s' = next_id s + 1
         \<and> (\<exists>new. thread_at s' t = Some new \<and> t_id new = next_id s \<and> t_state new = THREAD_READY))"
proof -
  have inv: "heap_inv (sched_heap s)" using assms by (simp add: sched_rep_def)
  obtain ct where ct: "thread_at s (current s) = Some ct" using sched_rep_Cons [OF assms] by metis
  obtain t h1 where k: "kmalloc sizeof_thread (sched_heap s) = Some (t, h1)"
    using kheap.malloc_total [OF inv malloc_sizes(1,2)] by blast
  have "\<exists>b h2. kmalloc THREAD_STACK_SIZE h1 = Some (b, h2)" if "t \<noteq> 0"
    using kheap.malloc_total [OF tcb_alloc(1) [OF inv k that] malloc_sizes(3,4)] .
  then have "thread_create ops entry arg s = None \<longleftrightarrow> t = 0"
    using k ct by (auto simp: thread_create_def split_def Let_def)
  moreover have "t' \<notin> set (current s # xs) \<and> sched_rep s' (current s # t' # xs) \<and> next_id s' = next_id s + 1
      \<and> (\<exists>new. thread_at s' t' = Some new \<and> t_id new = next_id s \<and> t_state new = THREAD_READY)"
    if r: "thread_create ops entry arg s = Some (t', s')" for t' s'
    by (rule thread_create_ring [OF assms r]) blast
  ultimately show ?thesis using k by auto
qed

theorem thread_create_joins_ring_witness:
  "\<exists>t s'. thread_create (arch_x86 0x500) 0x600 42 two_threads = Some (t, s')
     \<and> sched_rep s' [0x4030, t, 0x40B0]"
proof -
  have c: "current two_threads = 0x4030" "sched_heap two_threads = two_heap" by (simp_all add: two_threads_def)
  have "fits (block_at two_heap) (align_up 48 8) 0x4118" by (simp add: fits_def two_heap_def align_up_def)
  then have fit: "fits (block_at two_heap) (align_up sizeof_thread HEAP_ALIGN) 0x4118" by (simp add: sizeof_thread_def)
  have "\<not> (\<exists>h. kmalloc sizeof_thread two_heap = Some (0, h))"
    using two_heap_rep malloc_sizes(1,2)
    by (cases rule: kmalloc_cases) (use fit in auto)
  then show ?thesis
    using thread_create_joins_ring [of two_threads "[0x40B0]" "arch_x86 0x500" "0x600" 42] two_threads_rep
    unfolding c by (metis not_Some_eq surj_pair)
qed

text \<open>Property C25. When a thread of a ring with at least two threads exits, the unlink loop ends, the
  thread is marked DEAD and removed, its successor becomes current and the remaining threads keep
  their order.\<close>

theorem thread_exit_unlinks:
  assumes "sched_rep s (current s # y # ys)"
  shows "\<exists>s' dt. thread_exit ops s = Some s' \<and> sched_rep s' (y # ys) \<and> current s' = y
     \<and> current s \<notin> set (y # ys) \<and> thread_at s' (current s) = Some dt \<and> t_state dt = THREAD_DEAD"
proof -
  have "current s \<notin> set (y # ys)" using assms by (auto simp: sched_rep_def)
  then show ?thesis using thread_exit_ring [OF assms, of ops] by metis
qed

theorem thread_exit_unlinks_witness:
  "\<exists>s'. thread_exit (arch_x86 0x500) two_threads = Some s' \<and> sched_rep s' [0x40B0]"
  using thread_exit_unlinks [of two_threads "0x40B0" "[]" "arch_x86 0x500"] two_threads_rep
  by (auto simp: two_threads_def)

text \<open>Property C23. In every state reached from \<open>sched_init\<close> by ticks, yields, thread creation, exits of
  threads that are not alone, and arbitrary computation in between, the next pointers form one ring
  through the current thread, without repetitions, of live control blocks none of which is DEAD; in
  particular the next yield cannot fault.\<close>

theorem sched_reachable_ring:
  assumes "sched_reach ops s"
  shows "\<exists>rs. sched_rep s rs \<and> alive (thread_at s) rs \<and> current s \<in> set rs \<and> sched_yield ops s \<noteq> None"
proof -
  obtain rs where rs: "sched_inv s rs" using sched_reach_inv [OF assms] by blast
  then have rep: "sched_rep s rs" by (simp add: sched_inv_def)
  obtain s' where "sched_yield ops s = Some s'" using sched_yield_ring [OF rep, of ops] by metis
  moreover have "current s \<in> set rs" using sched_rep_Cons [OF rep] by (metis list.set_intros(1))
  ultimately show ?thesis using rs by (auto simp: sched_inv_def)
qed

definition boot_sched :: "cpu_x86 sched" where
  "boot_sched = \<lparr>sched_heap = demo_heap, sched_cpu = demo_cpu_x86 0x9000, thread_at = (\<lambda>_. None),
     current = 0, next_id = 0, sched_enabled = False\<rparr>"

theorem sched_reachable_ring_witness:
  "\<exists>s rs. sched_init boot_sched = Some s \<and> sched_reach (arch_x86 0x500) s \<and> sched_rep s rs
     \<and> sched_yield (arch_x86 0x500) s \<noteq> None"
proof -
  have h: "sched_heap boot_sched = demo_heap" "heap_inv demo_heap"
    using demo_heap_rep by (auto simp: boot_sched_def heap_inv_def)
  have fit: "fits (block_at demo_heap) (align_up sizeof_thread 8) 0x4098"
    by (simp add: fits_def demo_heap_def align_up_def sizeof_thread_def)
  obtain t h' where k: "kmalloc sizeof_thread demo_heap = Some (t, h')" "t \<noteq> 0"
    using demo_heap_rep malloc_sizes(1,2) by (cases rule: kmalloc_cases) (use fit in auto)
  then obtain s where s: "sched_init boot_sched = Some s" by (auto simp: sched_init_def h)
  then have "sched_reach (arch_x86 0x500) s" using sched_reach.start [of boot_sched s] h by simp
  then show ?thesis using sched_reachable_ring [of "arch_x86 0x500" s] s by blast
qed

text \<open>Property C27. \<open>sched_yield\<close> on x86_64 moves exactly one context each way: the CPU continues with
  the context saved in the next thread's frame, the yielding thread's control block now points to a
  frame holding its own context, and every frame disjoint from that one is untouched.\<close>

theorem sched_yield_switches_context:
  assumes "sched_rep s (current s # y # ys)" "thread_at s y = Some nt"
    and "sched_yield (arch_x86 tramp) s = Some s'" "thread_at s' (current s) = Some pt"
    and "words_x86 (t_sp nt) \<inter> words_x86 (t_sp pt) = {}"
  shows "current s' = y \<and> exit_ctx_x86 (sched_cpu s') = frame_x86 (sched_cpu s) (t_sp nt)
    \<and> frame_x86 (sched_cpu s') (t_sp pt) = entry_ctx_x86 (sched_cpu s)
    \<and> (\<forall>q. words_x86 q \<inter> words_x86 (t_sp pt) = {} \<longrightarrow> frame_x86 (sched_cpu s') q = frame_x86 (sched_cpu s) q)"
proof -
  note c = x86_switch.yield_contexts [OF assms]
  have "current s' = y"
  proof (rule sched_yield_ring [OF assms(1), of "arch_x86 tramp"])
    fix s2
    assume y: "sched_yield (arch_x86 tramp) s = Some s2" and "sched_rep s2 (rotate1 (current s # y # ys))"
    from sched_rep_hd [OF this(2)] have "current s2 = y" by simp
    then show "current s' = y" using y assms(3) by simp
  qed
  then show ?thesis using c(1,2) c(3) by (intro conjI allI impI)
qed

theorem sched_yield_switches_context_witness:
  "\<exists>s'. sched_yield (arch_x86 0x500) two_threads = Some s' \<and> current s' = 0x40B0
     \<and> rip (sched_cpu s') = 0xA030 \<and> rsp (sched_cpu s') = 0xA038"
proof -
  let ?t = "\<lparr>t_id = 1, t_sp = 0xA000, t_stack_base = 0x8000, t_stack_size = 0x4000,
     t_state = THREAD_READY, t_next = 0x4030\<rparr>"
  let ?p = "\<lparr>t_id = 0, t_sp = 0x8FD0, t_stack_base = 0, t_stack_size = 0,
     t_state = THREAD_RUNNING, t_next = 0x40B0\<rparr>"
  have f: "current two_threads = 0x4030" "thread_at two_threads 0x40B0 = Some ?t"
    "sched_cpu two_threads = demo_cpu_x86 0x9000" by (simp_all add: two_threads_def)
  have old: "fst (arch_context_switch (arch_x86 0x500) sp (demo_cpu_x86 0x9000)) = 0x8FD0" for sp
    by (simp add: arch_x86_def switch_x86_eq demo_cpu_x86_def)
  obtain s' where s': "sched_yield (arch_x86 0x500) two_threads = Some s'" "thread_at s' 0x4030 = Some ?p"
    using old [of "0xA000"] by (simp add: sched_yield_def switch_to_def two_threads_def split_def)
  have dis: "words_x86 (t_sp ?t) \<inter> words_x86 (t_sp ?p) = {}" by (simp add: words_x86_def)
  have rep: "sched_rep two_threads (current two_threads # 0x40B0 # [])" using two_threads_rep f by simp
  have "exit_ctx_x86 (sched_cpu s') = frame_x86 (demo_cpu_x86 0x9000) 0xA000" "current s' = 0x40B0"
    using sched_yield_switches_context [OF rep f(2) s'(1) _ dis] s'(2) f by simp_all
  then show ?thesis using s'(1)
    by (auto simp: exit_ctx_x86_def frame_x86_def demo_cpu_x86_def)
qed

text \<open>A thread that is alone in the ring and exits does not stop: the unlink leaves it
  linked to itself, it stays current although marked DEAD, and the CPU is switched to the stack
  pointer stored at its last suspension, not to another thread.\<close>

theorem thread_exit_last_thread:
  assumes "sched_rep s [current s]" "thread_at s (current s) = Some t"
  shows "\<exists>s' dt. thread_exit ops s = Some s' \<and> current s' = current s
     \<and> thread_at s' (current s) = Some dt \<and> t_state dt = THREAD_DEAD \<and> t_next dt = current s
     \<and> sched_cpu s' = snd (arch_context_switch ops (t_sp t) (sched_cpu s))"
proof -
  have nx: "t_next t = current s" using sched_rep_Cons [OF assms(1)] assms(2) by (metis list.sel(3) option.inject)
  have "find_pred ((thread_at s)(current s \<mapsto> t\<lparr>t_state := THREAD_DEAD\<rparr>)) (current s) (current s) = Some (current s)"
    using nx by (subst find_pred.simps) simp
  then show ?thesis
    using assms(2) nx by (simp add: thread_exit_def Let_def split_def)
qed

theorem thread_exit_last_thread_witness:
  "\<exists>s'. thread_exit (arch_x86 0x500) (two_threads\<lparr>thread_at := [0x4030 \<mapsto> \<lparr>t_id = 0, t_sp = 0, t_stack_base = 0,
       t_stack_size = 0, t_state = THREAD_RUNNING, t_next = 0x4030\<rparr>]\<rparr>) = Some s' \<and> current s' = 0x4030"
proof -
  let ?t = "\<lparr>t_id = 0, t_sp = 0, t_stack_base = 0, t_stack_size = 0, t_state = THREAD_RUNNING, t_next = 0x4030\<rparr>"
  let ?s = "two_threads\<lparr>thread_at := [0x4030 \<mapsto> ?t]\<rparr>"
  have c: "current ?s = 0x4030" "thread_at ?s 0x4030 = Some ?t" by (simp_all add: two_threads_def)
  have "sched_rep ?s [current ?s]" using two_threads_rep by (simp add: sched_rep_def two_threads_def)
  then show ?thesis using thread_exit_last_thread [of ?s ?t "arch_x86 0x500"] c by fastforce
qed

end
