(* ===== verification/Console.thy ===== *)
theory Console
  imports Ports
begin

text \<open>
  Text output: the VGA text console of \<^verbatim>\<open>arch/x86_64/drivers/console.c\<close>, the PL011 UART of
  \<^verbatim>\<open>arch/aarch64/drivers/uart.c\<close> and the number printers of \<^verbatim>\<open>kernel/kernel.c\<close> and
  \<^verbatim>\<open>arch/aarch64/arch.c\<close>. The printers are written against any character sink, as the kernel's are
  against \<open>arch_console_putc\<close>. A C string is the list of its bytes up to the terminating NUL.
\<close>

section \<open>VGA text mode\<close>

record vga =
  vga_cells :: "u32 \<Rightarrow> u16"
  cursor_row :: u32
  cursor_col :: u32

definition VGA_COLS :: u32 where "VGA_COLS = 80"
definition VGA_ROWS :: u32 where "VGA_ROWS = 25"
definition VGA_COLOR :: u8 where "VGA_COLOR = 0x0F"

text \<open>\<open>char\<close> is signed on x86_64, so the conversion of the character to 16 bits sign-extends.\<close>

definition vga_char :: "u8 \<Rightarrow> u8 \<Rightarrow> u16" where
  "vga_char c color = scast c OR push_bit 8 (ucast color)"

definition vga_set :: "u32 \<Rightarrow> u16 \<Rightarrow> vga \<Rightarrow> vga" where
  "vga_set i x v = v\<lparr>vga_cells := (vga_cells v)(i := x)\<rparr>"

definition clear_row :: "u32 \<Rightarrow> vga \<Rightarrow> vga" where
  "clear_row r v = fold (\<lambda>c. vga_set (r * VGA_COLS + of_nat c) (vga_char 0x20 VGA_COLOR)) [0..<unat VGA_COLS] v"

definition arch_console_clear :: "vga \<Rightarrow> vga" where
  "arch_console_clear v = (fold (\<lambda>r. clear_row (of_nat r)) [0..<unat VGA_ROWS] v)\<lparr>cursor_row := 0, cursor_col := 0\<rparr>"

definition copy_row_up :: "u32 \<Rightarrow> vga \<Rightarrow> vga" where
  "copy_row_up r v = fold (\<lambda>c v. vga_set ((r - 1) * VGA_COLS + of_nat c) (vga_cells v (r * VGA_COLS + of_nat c)) v)
     [0..<unat VGA_COLS] v"

definition scroll :: "vga \<Rightarrow> vga" where
  "scroll v =
     (let v = fold (\<lambda>r. copy_row_up (of_nat r)) [1..<unat VGA_ROWS] v;
          v = clear_row (VGA_ROWS - 1) v
      in v\<lparr>cursor_row := VGA_ROWS - 1\<rparr>)"

definition align_up_u32 :: "u32 \<Rightarrow> u32 \<Rightarrow> u32" where
  "align_up_u32 x a = (x + a - 1) AND NOT (a - 1)"

definition arch_console_putc :: "u8 \<Rightarrow> vga \<Rightarrow> vga" where
  "arch_console_putc c v =
     (let v = (if c = 10 then v\<lparr>cursor_col := 0, cursor_row := cursor_row v + 1\<rparr>
               else if c = 13 then v\<lparr>cursor_col := 0\<rparr>
               else if c = 9 then v\<lparr>cursor_col := align_up_u32 (cursor_col v + 1) 4\<rparr>
               else (vga_set (cursor_row v * VGA_COLS + cursor_col v) (vga_char c VGA_COLOR) v)
                      \<lparr>cursor_col := cursor_col v + 1\<rparr>);
          v = (if cursor_col v \<ge> VGA_COLS then v\<lparr>cursor_col := 0, cursor_row := cursor_row v + 1\<rparr> else v)
      in if cursor_row v \<ge> VGA_ROWS then scroll v else v)"

definition arch_console_init :: "vga \<Rightarrow> vga" where
  "arch_console_init v = arch_console_clear v"

section \<open>PL011 UART\<close>

definition UART0_BASE :: u64 where "UART0_BASE = 0x09000000"

definition uart_init :: "a64_reg iobus \<Rightarrow> a64_reg iobus" where
  "uart_init b = mmio_write32 (UART0_BASE + 0x30) (push_bit 0 1 OR push_bit 8 1 OR push_bit 9 1) b"

text \<open>Busy-waiting on a device that never drains its FIFO does not return: that is \<open>None\<close>.\<close>

partial_function (option) uart_wait :: "a64_reg iobus \<Rightarrow> a64_reg iobus option" where
  "uart_wait b =
     (let (fr, b') = mmio_read32 (UART0_BASE + 0x18) b
      in if fr AND push_bit 5 1 \<noteq> 0 then uart_wait b' else Some b')"

definition uart_putc :: "u8 \<Rightarrow> a64_reg iobus \<Rightarrow> a64_reg iobus option" where
  "uart_putc c b = do { b \<leftarrow> uart_wait b; Some (mmio_write32 UART0_BASE (ucast c) b) }"

section \<open>Strings and numbers\<close>

fun console_puts :: "(u8 \<Rightarrow> 's \<Rightarrow> 's) \<Rightarrow> u8 list \<Rightarrow> 's \<Rightarrow> 's" where
  "console_puts putc [] s = s"
| "console_puts putc (c # cs) s = (if c = 0 then s else console_puts putc cs (putc c s))"

text \<open>The digit loop: \<open>buf[--i] = '0' + value % 10; value /= 10\<close>. Running off the front of the buffer
  is a memory error.\<close>

fun dec_loop :: "nat \<Rightarrow> nat \<Rightarrow> u8 list \<Rightarrow> (nat \<times> u8 list) option" where
  "dec_loop v i buf =
     (if v > 0 then
        if i = 0 then None
        else dec_loop (v div 10) (i - 1) (buf[i - 1 := of_nat (48 + v mod 10)])
      else Some (i, buf))"

declare dec_loop.simps [simp del]

text \<open>\<open>buf\<close> is uninitialised except for the NUL at its end; its contents are an argument.\<close>

definition console_put_dec :: "u8 list \<Rightarrow> (u8 \<Rightarrow> 's \<Rightarrow> 's) \<Rightarrow> u64 \<Rightarrow> 's \<Rightarrow> 's option" where
  "console_put_dec buf putc v s =
     (let buf = buf[20 := 0]
      in if v = 0 then Some (putc 48 s)
         else do { (i, buf) \<leftarrow> dec_loop (unat v) 20 buf; Some (console_puts putc (drop i buf) s) })"

definition put_dec_a64 :: "u8 list \<Rightarrow> (u8 \<Rightarrow> 's \<Rightarrow> 's) \<Rightarrow> u32 \<Rightarrow> 's \<Rightarrow> 's option" where
  "put_dec_a64 buf putc v s =
     (let buf = buf[10 := 0]
      in if v = 0 then Some (putc 48 s)
         else do { (i, buf) \<leftarrow> dec_loop (unat v) 10 buf; Some (console_puts putc (drop i buf) s) })"

section \<open>Decimal numbers\<close>

fun dec_digits :: "nat \<Rightarrow> u8 list" where
  "dec_digits n = (if n = 0 then [] else dec_digits (n div 10) @ [of_nat (48 + n mod 10)])"

declare dec_digits.simps [simp del]

lemma dec_zero [simp]: "dec_digits 0 = []" "dec_loop 0 i buf = Some (i, buf)"
  by (simp_all add: dec_digits.simps [of 0] dec_loop.simps [of 0])

definition dec_value :: "u8 list \<Rightarrow> nat" where
  "dec_value ds = foldl (\<lambda>a d. 10 * a + (unat d - 48)) 0 ds"

lemma dec_value_digits: "dec_value (dec_digits n) = n"
proof (induction n rule: dec_digits.induct)
  case (1 n)
  show ?case
  proof (cases "n = 0")
    case True
    then show ?thesis by (simp add: dec_value_def)
  next
    case False
    have "unat (of_nat (48 + n mod 10) :: u8) = 48 + n mod 10" by (rule unat_of_nat_eq) simp
    then show ?thesis using 1 False by (simp add: dec_digits.simps [of n] dec_value_def)
  qed
qed

lemma dec_digits_nonzero: "0 \<notin> set (dec_digits n)"
proof (induction n rule: dec_digits.induct)
  case (1 n)
  have "unat (of_nat (48 + n mod 10) :: u8) = 48 + n mod 10" by (rule unat_of_nat_eq) simp
  then have "(of_nat (48 + n mod 10) :: u8) \<noteq> 0" by (metis add_is_0 unat_0 zero_neq_numeral)
  then show ?case using 1 by (cases "n = 0") (simp, simp add: dec_digits.simps [of n])
qed

lemma dec_digits_length: "n < 10 ^ k \<Longrightarrow> length (dec_digits n) \<le> k"
proof (induction k arbitrary: n)
  case 0
  then show ?case by (simp add: dec_digits.simps)
next
  case (Suc k)
  have "n div 10 < 10 ^ k" using Suc.prems by (simp add: less_mult_imp_div_less mult.commute)
  then show ?case using Suc.IH [of "n div 10"] by (cases "n = 0") (simp, simp add: dec_digits.simps [of n])
qed

lemma dec_loop_spec:
  "length (dec_digits v) \<le> i \<Longrightarrow> i \<le> length buf \<Longrightarrow>
     dec_loop v i buf = Some (i - length (dec_digits v),
       take (i - length (dec_digits v)) buf @ dec_digits v @ drop i buf)"
proof (induction v i buf rule: dec_loop.induct)
  case (1 v i buf)
  show ?case
  proof (cases "v = 0")
    case True
    then show ?thesis by simp
  next
    case False
    let ?d = "dec_digits (v div 10)" and ?c = "of_nat (48 + v mod 10) :: u8"
    have d: "dec_digits v = ?d @ [?c]" using False by (simp add: dec_digits.simps [of v])
    have i: "i \<noteq> 0" "length ?d \<le> i - 1" using 1(2) d by auto
    have "dec_loop v i buf = dec_loop (v div 10) (i - 1) (buf[i - 1 := ?c])"
      using False i by (simp add: dec_loop.simps [of v])
    also have "\<dots> = Some (i - 1 - length ?d, take (i - 1 - length ?d) (buf[i - 1 := ?c]) @ ?d @ drop (i - 1) (buf[i - 1 := ?c]))"
      using 1(1) False i 1(3) by simp
    also have "drop (i - 1) (buf[i - 1 := ?c]) = ?c # drop i buf"
      using i(1) 1(3) by (simp add: Cons_nth_drop_Suc [symmetric])
    finally show ?thesis using i by (simp add: d)
  qed
qed

lemma console_puts_append: "0 \<notin> set xs \<Longrightarrow> console_puts putc (xs @ ys) s = console_puts putc ys (fold putc xs s)"
  by (induction xs arbitrary: s) auto

lemma put_dec_digits:
  assumes "n < 10 ^ k" "length buf = Suc k"
  shows "do { (i, b) \<leftarrow> dec_loop n k (buf[k := 0]); Some (console_puts putc (drop i b) s) } = Some (fold putc (dec_digits n) s)"
proof -
  let ?b = "buf[k := 0]" and ?j = "k - length (dec_digits n)"
  note l = dec_digits_length [OF assms(1)]
  have "drop k ?b = [0]" using assms(2) by (simp add: Cons_nth_drop_Suc [symmetric])
  then have "dec_loop n k ?b = Some (?j, take ?j ?b @ dec_digits n @ [0])"
    using dec_loop_spec [OF l, of ?b] assms(2) by simp
  moreover have "drop ?j (take ?j ?b @ dec_digits n @ [0]) = dec_digits n @ [0]" using assms(2) by simp
  ultimately show ?thesis using console_puts_append [OF dec_digits_nonzero, of putc n "[0]" s] by simp
qed

definition shown :: "nat \<Rightarrow> u8 list" where
  "shown n = (if n = 0 then [48] else dec_digits n)"

lemma dec_digits_hd: "n \<noteq> 0 \<Longrightarrow> dec_digits n \<noteq> [] \<and> hd (dec_digits n) \<noteq> 48"
proof (induction n rule: dec_digits.induct)
  case (1 n)
  have d: "dec_digits n = dec_digits (n div 10) @ [of_nat (48 + n mod 10)]" using 1(2) by (simp add: dec_digits.simps [of n])
  show ?case
  proof (cases "n div 10 = 0")
    case True
    have "unat (of_nat (48 + n mod 10) :: u8) = 48 + n mod 10" by (rule unat_of_nat_eq) simp
    moreover have "n mod 10 \<noteq> 0" using True 1(2) by auto
    ultimately have "(of_nat (48 + n mod 10) :: u8) \<noteq> 48" by (simp add: word_unat_eq_iff)
    then show ?thesis using d True by simp
  next
    case False
    then show ?thesis using 1(1) [OF 1(2) False] d by simp
  qed
qed

lemma shown_props: "dec_value (shown n) = n \<and> shown n \<noteq> [] \<and> (hd (shown n) = 48 \<longrightarrow> n = 0)"
  using dec_digits_hd [of n] dec_value_digits [of n] by (auto simp: shown_def dec_value_def)

section \<open>The screen\<close>

text \<open>\<open>vga_ok\<close>: the cursor is on the screen. \<open>vga_frame\<close>: two states agree on all memory outside the
  2000 cells of the screen.\<close>

definition vga_ok :: "vga \<Rightarrow> bool" where
  "vga_ok v \<longleftrightarrow> unat (cursor_row v) < 25 \<and> unat (cursor_col v) < 80"

definition vga_frame :: "vga \<Rightarrow> vga \<Rightarrow> bool" where
  "vga_frame v w \<longleftrightarrow> (\<forall>i. 2000 \<le> unat i \<longrightarrow> vga_cells w i = vga_cells v i)"

lemma vga_frame_refl [simp]: "vga_frame v v" by (simp add: vga_frame_def)

lemma vga_frame_trans: "vga_frame u v \<Longrightarrow> vga_frame v w \<Longrightarrow> vga_frame u w"
  by (simp add: vga_frame_def)

lemma vga_consts [simp]: "VGA_COLS = 80" "VGA_ROWS = 25"
  by (simp_all add: VGA_COLS_def VGA_ROWS_def)

lemma cell_index:
  fixes r c :: u32
  assumes "unat r < 25" "unat c < 80"
  shows "unat (r * 80 + c) = unat r * 80 + unat c" "unat r * 80 + unat c < 2000"
proof -
  have "unat (r * 80) = unat r * 80" using assms(1) by (simp add: unat_times_simple)
  then show "unat (r * 80 + c) = unat r * 80 + unat c" using assms by (simp add: unat_plus_simple)
  show "unat r * 80 + unat c < 2000" using assms by simp
qed

lemma cell_lt:
  fixes r :: u32
  assumes "unat r < 25" "c < 80"
  shows "unat (r * 80 + of_nat c) < 2000"
  using cell_index [OF assms(1), of "of_nat c"] assms by (simp add: unat_of_nat_eq)

lemma vga_set_frame: "unat i < 2000 \<Longrightarrow> vga_frame v (vga_set i x v)"
  by (auto simp: vga_frame_def vga_set_def)

lemma vga_set_cursor [simp]:
  "cursor_row (vga_set i x v) = cursor_row v" "cursor_col (vga_set i x v) = cursor_col v"
  by (simp_all add: vga_set_def)

lemma fold_frame:
  assumes "\<And>x v. x \<in> set xs \<Longrightarrow> vga_frame v (f x v) \<and> cursor_row (f x v) = cursor_row v \<and> cursor_col (f x v) = cursor_col v"
  shows "vga_frame v (fold f xs v) \<and> cursor_row (fold f xs v) = cursor_row v \<and> cursor_col (fold f xs v) = cursor_col v"
  using assms
proof (induction xs arbitrary: v)
  case (Cons x xs)
  have "vga_frame v (f x v)" "cursor_row (f x v) = cursor_row v" "cursor_col (f x v) = cursor_col v"
    using Cons.prems [of x v] by simp_all
  moreover have "vga_frame (f x v) (fold f xs (f x v)) \<and> cursor_row (fold f xs (f x v)) = cursor_row (f x v)
      \<and> cursor_col (fold f xs (f x v)) = cursor_col (f x v)"
    using Cons.prems by (intro Cons.IH) simp
  ultimately show ?case using vga_frame_trans by simp
qed simp

lemma row_frame:
  assumes "unat r < 25"
  shows "vga_frame v (clear_row r v) \<and> cursor_row (clear_row r v) = cursor_row v \<and> cursor_col (clear_row r v) = cursor_col v"
  unfolding clear_row_def
  using assms by (intro fold_frame) (auto intro!: vga_set_frame simp: cell_index unat_of_nat_eq)

lemma copy_row_frame:
  assumes "0 < unat r" "unat r < 25"
  shows "vga_frame v (copy_row_up r v) \<and> cursor_row (copy_row_up r v) = cursor_row v \<and> cursor_col (copy_row_up r v) = cursor_col v"
proof -
  have "unat (r - 1) < 25" using assms by (simp add: unat_minus_simple)
  then show ?thesis unfolding copy_row_up_def vga_consts
    by (intro fold_frame conjI vga_set_cursor vga_set_frame cell_lt) simp_all
qed

lemma scroll_frame: "vga_frame v (scroll v)" "cursor_row (scroll v) = 24" "cursor_col (scroll v) = cursor_col v"
proof -
  let ?w = "fold (\<lambda>r. copy_row_up (of_nat r)) [1..<25] v"
  have f: "vga_frame v ?w \<and> cursor_row ?w = cursor_row v \<and> cursor_col ?w = cursor_col v"
    by (intro fold_frame copy_row_frame) (auto simp: unat_of_nat_eq)
  have g: "vga_frame ?w (clear_row 24 ?w) \<and> cursor_col (clear_row 24 ?w) = cursor_col ?w"
    using row_frame [of 24 ?w] by simp
  have "vga_frame v (clear_row 24 ?w)" using f g vga_frame_trans by blast
  then show "vga_frame v (scroll v)" by (simp add: scroll_def vga_frame_def)
  show "cursor_row (scroll v) = 24" "cursor_col (scroll v) = cursor_col v" using f g by (simp_all add: scroll_def)
qed

section \<open>Properties\<close>

text \<open>\<open>arch_console_putc\<close> keeps the cursor on the 80x25 screen for every character,
  newlines, tabs and scrolling included, and never writes outside the 2000 cells of the text buffer.\<close>

theorem vga_putc_in_bounds:
  assumes "vga_ok v"
  shows "vga_ok (arch_console_putc c v) \<and> vga_frame v (arch_console_putc c v)"
proof -
  define a where "a = (if c = 10 then v\<lparr>cursor_col := 0, cursor_row := cursor_row v + 1\<rparr>
     else if c = 13 then v\<lparr>cursor_col := 0\<rparr>
     else if c = 9 then v\<lparr>cursor_col := align_up_u32 (cursor_col v + 1) 4\<rparr>
     else (vga_set (cursor_row v * VGA_COLS + cursor_col v) (vga_char c VGA_COLOR) v)\<lparr>cursor_col := cursor_col v + 1\<rparr>)"
  define b where "b = (if cursor_col a \<ge> VGA_COLS then a\<lparr>cursor_col := 0, cursor_row := cursor_row a + 1\<rparr> else a)"
  have run: "arch_console_putc c v = (if cursor_row b \<ge> VGA_ROWS then scroll b else b)"
    unfolding b_def a_def arch_console_putc_def Let_def ..
  have rc: "unat (cursor_row v) < 25" "unat (cursor_col v) < 80" using assms by (simp_all add: vga_ok_def)
  have u: "unat (cursor_row v + 1) = unat (cursor_row v) + 1" "unat (cursor_col v + 1) = unat (cursor_col v) + 1"
    using rc by (simp_all add: unat_plus_simple)
  have fa: "vga_frame v a" using vga_set_frame [of "cursor_row v * 80 + cursor_col v"] cell_index [OF rc]
    by (auto simp: a_def vga_frame_def)
  have fb: "vga_frame v b" using fa by (auto simp: b_def vga_frame_def)
  have "unat (cursor_col b) < 80" using rc by (auto simp: b_def word_le_nat_alt)
  then have "vga_ok (if cursor_row b \<ge> VGA_ROWS then scroll b else b)"
    using scroll_frame [of b] by (auto simp: vga_ok_def word_le_nat_alt)
  moreover have "vga_frame v (if cursor_row b \<ge> VGA_ROWS then scroll b else b)"
    using fb scroll_frame(1) [of b] vga_frame_trans by auto
  ultimately show ?thesis unfolding run ..
qed

theorem vga_putc_in_bounds_witness:
  "vga_ok \<lparr>vga_cells = (\<lambda>_. 0), cursor_row = 24, cursor_col = 79\<rparr>
   \<and> vga_ok (arch_console_putc 65 \<lparr>vga_cells = (\<lambda>_. 0), cursor_row = 24, cursor_col = 79\<rparr>)"
proof -
  have ok: "vga_ok \<lparr>vga_cells = (\<lambda>_. 0), cursor_row = 24, cursor_col = 79\<rparr>" by (simp add: vga_ok_def)
  from vga_putc_in_bounds [OF ok, of 65] ok show ?thesis by blast
qed

text \<open>\<open>console_put_dec\<close> prints any 64-bit number, and \<open>put_dec\<close> any 32-bit number, within its
  buffer (21 and 11 bytes), as a non-empty string of digits without a leading zero whose decimal
  value is the number.\<close>

theorem put_dec_prints_decimal:
  assumes "length buf = 21" "length buf' = 11"
  shows "(\<exists>ds. console_put_dec buf putc v s = Some (fold putc ds s) \<and> dec_value ds = unat v \<and> ds \<noteq> []
      \<and> (hd ds = 48 \<longrightarrow> v = 0))
    \<and> (\<exists>ds. put_dec_a64 buf' putc w s = Some (fold putc ds s) \<and> dec_value ds = unat w \<and> ds \<noteq> []
      \<and> (hd ds = 48 \<longrightarrow> w = 0))"
proof -
  have "unat v < 10 ^ 20" "unat w < 10 ^ 10" using u64_lt [of v] u32_lt [of w] by simp_all
  then have "console_put_dec buf putc v s = Some (fold putc (shown (unat v)) s)"
    "put_dec_a64 buf' putc w s = Some (fold putc (shown (unat w)) s)"
    using put_dec_digits [of "unat v" 20 buf putc s] put_dec_digits [of "unat w" 10 buf' putc s] assms
    by (simp_all add: console_put_dec_def put_dec_a64_def shown_def Let_def unat_eq_0)
  then show ?thesis using shown_props [of "unat v"] shown_props [of "unat w"] unat_eq_0 by metis
qed

theorem put_dec_prints_decimal_witness:
  "\<exists>ds es. console_put_dec (replicate 21 7) (\<lambda>c s. s @ [c]) 18446744073709551615 [] = Some ds
     \<and> dec_value ds = 18446744073709551615
     \<and> put_dec_a64 (replicate 11 7) (\<lambda>c s. s @ [c]) 4294967295 [] = Some es \<and> dec_value es = 4294967295"
proof -
  have f: "fold (\<lambda>c s. s @ [c]) ds es = es @ ds" for ds es :: "u8 list" by (induction ds arbitrary: es) auto
  show ?thesis
    using put_dec_prints_decimal [of "replicate 21 7" "replicate 11 7" "\<lambda>c s. s @ [c]" 18446744073709551615 "[]" 4294967295]
    by (auto simp: f)
qed

text \<open>\<open>vga_char\<close> keeps the colour attribute only for 7-bit characters: a character with the
  top bit set is sign-extended and turns all eight attribute bits on.\<close>

theorem vga_char_attribute:
  "drop_bit 8 (vga_char c color) = (if bit c 7 then 0xFF else ucast color)"
proof (rule bit_eqI)
  fix n assume n: "possible_bit TYPE(u16) n"
  have "(0xFF :: u16) = mask 8" by (simp add: mask_eq_decr_exp)
  show "bit (drop_bit 8 (vga_char c color)) n = bit (if bit c 7 then 0xFF else ucast color :: u16) n"
    using n by (simp only: \<open>(0xFF :: u16) = mask 8\<close>)
      (auto simp: vga_char_def bit_simps possible_bit_def not_less dest: bit_imp_le_length)
qed

end
