(* ===== verification/Kernel.thy ===== *)
theory Kernel
  imports Vfs Gui Sched Console
begin

text \<open>
  The architecture-independent kernel, \<^verbatim>\<open>kernel/kernel.c\<close>, over the interface of \<^verbatim>\<open>include/arch/arch.h\<close>. The interface
  is a record of operations on a machine state; theories Machine\_x86 and Machine\_a64 give its two implementations.
  Memory, the heap and the scheduler's variables are shared between the kernel and the drivers and live
  in the machine state, so the record also has the means to read and replace them.

  \<open>None\<close> is a call that does not return or faults. Drawing reads the geometry from the machine state and acts on
  memory. A disk is the map from sector numbers to what reading them in the current state returns.
  Interrupts between two steps of the boot sequence are not part of it; theory Timer has them.
\<close>

section \<open>The interface (arch.h)\<close>

text \<open>\<open>kernel_panic\<close> does not return, so an initialisation that calls it ends with its message: \<open>Inl\<close>.\<close>

record ('cpu, 's) arch =
  op_name :: "u8 list"
  op_early_init :: "'s \<Rightarrow> 's"
  op_late_init :: "'s \<Rightarrow> ((u8 list \<times> 's) + 's) option"
  op_console_init :: "'s \<Rightarrow> 's"
  op_console_putc :: "u8 \<Rightarrow> 's \<Rightarrow> 's option"
  op_console_clear :: "'s \<Rightarrow> 's"
  op_keyboard_getchar :: "'s \<Rightarrow> (u8 \<times> 's) option"
  op_mouse_get_state :: "'s \<Rightarrow> ((i32 \<times> i32 \<times> u8) option \<times> 's) option"
  op_gfx_available :: "'s \<Rightarrow> bool"
  op_gfx_width :: "'s \<Rightarrow> u32"
  op_gfx_height :: "'s \<Rightarrow> u32"
  op_gfx_put_pixel :: "'s \<Rightarrow> u32 \<Rightarrow> u32 \<Rightarrow> u32 \<Rightarrow> mem \<Rightarrow> mem"
  op_gfx_fill_rect :: "'s \<Rightarrow> fill_op"
  op_gfx_draw_line :: "'s \<Rightarrow> int \<Rightarrow> int \<Rightarrow> int \<Rightarrow> int \<Rightarrow> u32 \<Rightarrow> mem \<Rightarrow> mem option"
  op_gfx_draw_string :: "'s \<Rightarrow> text_op"
  op_interrupts_init :: "'s \<Rightarrow> 's"
  op_interrupts_enable :: "'s \<Rightarrow> 's"
  op_interrupts_disable :: "'s \<Rightarrow> 's"
  op_mm_init :: "u64 \<Rightarrow> u64 \<Rightarrow> 's \<Rightarrow> 's option"
  op_get_total_ram :: "'s \<Rightarrow> u64"
  op_cpu_halt :: "'s \<Rightarrow> 's"
  op_cpu_relax :: "'s \<Rightarrow> 's"
  op_timer_init :: "u32 \<Rightarrow> 's \<Rightarrow> 's option"
  op_timer_ticks :: "'s \<Rightarrow> u64"
  op_threads :: "'cpu arch_ops"
  op_disk_available :: "'s \<Rightarrow> bool"
  op_disk :: "'s \<Rightarrow> disk"
  sh_mem :: "'s \<Rightarrow> mem"
  sh_set_mem :: "mem \<Rightarrow> 's \<Rightarrow> 's"
  sh_heap :: "'s \<Rightarrow> heap"
  sh_set_heap :: "heap \<Rightarrow> 's \<Rightarrow> 's"
  sh_sched :: "'s \<Rightarrow> 'cpu sched"
  sh_set_sched :: "'cpu sched \<Rightarrow> 's \<Rightarrow> 's"

section \<open>State\<close>

datatype kernel_state_t = KERNEL_STATE_BOOT | KERNEL_STATE_RUNNING | KERNEL_STATE_PANIC | KERNEL_STATE_HALT

record 's kernel =
  kernel_state :: kernel_state_t
  k_vfs :: vfs
  k_gui :: gui
  k_hw :: 's

text \<open>How far \<open>kernel_main\<close> gets: to its idle loop, or into \<open>arch_cpu_halt\<close>.\<close>

datatype 's progress = Up 's | Stopped 's

section \<open>Output\<close>

definition c_string :: "string \<Rightarrow> u8 list" where
  "c_string = map (\<lambda>c. of_nat (of_char c))"

definition puts :: "('cpu, 's) arch \<Rightarrow> u8 list \<Rightarrow> 's \<Rightarrow> 's option" where
  "puts A str s = console_puts (\<lambda>c st. Option.bind st (op_console_putc A c)) str (Some s)"

definition put_dec :: "('cpu, 's) arch \<Rightarrow> u8 list \<Rightarrow> u64 \<Rightarrow> 's \<Rightarrow> 's option" where
  "put_dec A buf v s = do { st \<leftarrow> console_put_dec buf (\<lambda>c st. Option.bind st (op_console_putc A c)) v (Some s); st }"

definition draw_string :: "('cpu, 's) arch \<Rightarrow> u32 \<Rightarrow> u32 \<Rightarrow> u8 list \<Rightarrow> u32 \<Rightarrow> u32 \<Rightarrow> 's \<Rightarrow> 's" where
  "draw_string A x y str fg bg s = sh_set_mem A (op_gfx_draw_string A s x y str fg bg (sh_mem A s)) s"

definition fill_rect :: "('cpu, 's) arch \<Rightarrow> u32 \<Rightarrow> u32 \<Rightarrow> u32 \<Rightarrow> u32 \<Rightarrow> u32 \<Rightarrow> 's \<Rightarrow> 's" where
  "fill_rect A x y w h rgb s = sh_set_mem A (op_gfx_fill_rect A s x y w h rgb (sh_mem A s)) s"

section \<open>Panic\<close>

definition kernel_panic :: "('cpu, 's) arch \<Rightarrow> u8 list \<Rightarrow> 's kernel \<Rightarrow> 's kernel option" where
  "kernel_panic A msg k =
     do {
       let k = k\<lparr>k_hw := op_interrupts_disable A (k_hw k), kernel_state := KERNEL_STATE_PANIC\<rparr>;
       s \<leftarrow> puts A (c_string ''PANIC: '') (k_hw k);
       s \<leftarrow> puts A msg s;
       Some (k\<lparr>k_hw := op_cpu_halt A s\<rparr>)
     }"

section \<open>The blinker thread\<close>

text \<open>One round of its loop; the locals are \<open>on\<close> and \<open>last_tick\<close>.\<close>

definition blinker_step :: "('cpu, 's) arch \<Rightarrow> bool \<times> u64 \<Rightarrow> 's \<Rightarrow> (bool \<times> u64) \<times> 's" where
  "blinker_step A = (\<lambda>(on, last_tick) s.
     let now = op_timer_ticks A s;
         ((on, last_tick), s) =
           (if now - last_tick \<ge> 100 then
              let last_tick = now; on = (\<not> on)
              in ((on, last_tick),
                  if op_gfx_available A s
                  then fill_rect A (op_gfx_width A s - 20) 10 10 10 (if on then 0x0000FF00 else 0x00FF0000) s
                  else s)
            else ((on, last_tick), s))
     in ((on, last_tick), op_cpu_relax A s))"

section \<open>kernel\_main\<close>

text \<open>Steps 2 and 3: the banner, the memory and the check of the heap. \<open>buf\<close> is the uninitialised buffer of
  \<open>console_put_dec\<close>.\<close>

definition heap_check :: "('cpu, 's) arch \<Rightarrow> 's \<Rightarrow> 's option" where
  "heap_check A s =
     do {
       let s = sh_set_heap A (heap_init (sh_heap A s)) s;
       (p, h) \<leftarrow> kmalloc 64 (sh_heap A s);
       let s = sh_set_heap A h s;
       s \<leftarrow> puts A (c_string ''Heap: '') s;
       s \<leftarrow> puts A (if p \<noteq> 0 then c_string ''OK'' @ [10] else c_string ''FAIL'' @ [10]) s;
       h \<leftarrow> kfree p (sh_heap A s);
       Some (sh_set_heap A h s)
     }"

definition kernel_memory :: "('cpu, 's) arch \<Rightarrow> u8 list \<Rightarrow> u64 \<Rightarrow> u64 \<Rightarrow> 's \<Rightarrow> 's option" where
  "kernel_memory A buf boot_magic boot_info s =
     do {
       s \<leftarrow> puts A ([10] @ c_string ''MegKer'' @ [10]) s;
       s \<leftarrow> op_mm_init A boot_magic boot_info s;
       s \<leftarrow> puts A (c_string ''RAM: '') s;
       s \<leftarrow> put_dec A buf (op_get_total_ram A s div (1024 * 1024)) s;
       s \<leftarrow> puts A (c_string '' MB'' @ [10]) s;
       heap_check A s
     }"

text \<open>Step 6a. \<open>filebuf\<close> has 128 bytes; the file system is asked for 127.\<close>

definition show_file :: "('cpu, 's) arch \<Rightarrow> u8 list \<Rightarrow> 's kernel \<Rightarrow> 's kernel option" where
  "show_file A filebuf k =
     (let s = k_hw k; k = k\<lparr>k_vfs := vfs_init (op_disk_available A s) (op_disk A s) (k_vfs k)\<rparr>
      in if vfs_available (k_vfs k) then
           do {
             (ok, filebuf, sz) \<leftarrow> vfs_read_file (op_disk A s) (k_vfs k) (c_string ''hello.txt'' @ [0]) filebuf 127;
             let filesize = (case sz of None \<Rightarrow> 0 | Some n \<Rightarrow> n);
             let shown = (if filesize < 127 then filesize else 127);
             let filebuf = (if ok then filebuf[unat shown := 0] else filebuf);
             if op_gfx_available A s
             then Some (k\<lparr>k_hw := draw_string A 10 30 (if ok then filebuf else c_string ''VFS: READ FAILED'')
                    (if ok then 0x0000FFFF else 0x00FF0000) 0x00102030 s\<rparr>)
             else do {
               s \<leftarrow> puts A (if ok then filebuf else c_string ''VFS: READ FAILED'' @ [10]) s;
               Some (k\<lparr>k_hw := s\<rparr>)
             }
           }
         else if op_gfx_available A s
         then Some (k\<lparr>k_hw := draw_string A 10 30 (c_string ''VFS: NOT AVAILABLE'') 0x00FF0000 0x00102030 s\<rparr>)
         else Some k)"

text \<open>Step 6b. \<open>blinker\<close> is the address of \<open>blinker_thread\<close>.\<close>

definition start_threads :: "('cpu, 's) arch \<Rightarrow> u64 \<Rightarrow> 's \<Rightarrow> 's option" where
  "start_threads A blinker s =
     do {
       sc \<leftarrow> sched_init (sh_sched A s);
       (t, sc) \<leftarrow> thread_create (op_threads A) blinker 0 sc;
       Some (sh_set_sched A sc s)
     }"

definition kernel_main :: "('cpu, 's) arch \<Rightarrow> u64 \<Rightarrow> u8 list \<Rightarrow> u8 list \<Rightarrow> u64 \<Rightarrow> u64 \<Rightarrow> 's kernel \<Rightarrow> 's kernel progress option" where
  "kernel_main A blinker buf filebuf boot_magic boot_info k =
     do {
       let s = op_early_init A (k_hw k);
       let s = op_console_init A s;
       s \<leftarrow> kernel_memory A buf boot_magic boot_info s;
       let s = op_interrupts_init A s;
       let s = op_interrupts_enable A s;
       s \<leftarrow> op_timer_init A 100 s;
       r \<leftarrow> op_late_init A s;
       case r of
         Inl (msg, s) \<Rightarrow> map_option Stopped (kernel_panic A msg (k\<lparr>k_hw := s\<rparr>))
       | Inr s \<Rightarrow>
           do {
             k \<leftarrow> show_file A filebuf (k\<lparr>k_hw := s\<rparr>);
             let s = k_hw k;
             let k = k\<lparr>k_gui := gui_init (op_gfx_available A s) (op_gfx_width A s) (op_gfx_height A s) (k_gui k)\<rparr>;
             s \<leftarrow> start_threads A blinker s;
             Some (Up (k\<lparr>k_hw := s, kernel_state := KERNEL_STATE_RUNNING\<rparr>))
           }
     }"

text \<open>One round of the idle loop. \<open>gui_update\<close> first asks for the mouse, which may change memory, and then draws.\<close>

definition idle_step :: "('cpu, 's) arch \<Rightarrow> 's kernel \<Rightarrow> 's kernel option" where
  "idle_step A k =
     do {
       let s = k_hw k;
       k \<leftarrow> (if op_gfx_available A s then
               do {
                 (mouse, s) \<leftarrow> op_mouse_get_state A s;
                 let (g, s, m) = gui_update True (op_gfx_width A s) (op_gfx_height A s) (op_gfx_fill_rect A s) (op_gfx_draw_string A s)
                   (\<lambda>s. (mouse, s)) (op_timer_ticks A s) (k_gui k, s, sh_mem A s);
                 Some (k\<lparr>k_gui := g, k_hw := sh_set_mem A m s\<rparr>)
               }
             else do {
               (c, s) \<leftarrow> op_keyboard_getchar A s;
               s \<leftarrow> (if c \<noteq> 0 then op_console_putc A c s else Some s);
               Some (k\<lparr>k_hw := s\<rparr>)
             });
       Some (k\<lparr>k_hw := op_cpu_relax A (k_hw k)\<rparr>)
     }"

section \<open>The heap while booting\<close>

text \<open>A heap of one arena at \<open>a\<close> in which nothing is allocated.\<close>

definition fresh_heap :: "u64 \<Rightarrow> heap \<Rightarrow> bool" where
  "fresh_heap a h \<longleftrightarrow> heap_inv h \<and> live h = {} \<and> a \<noteq> 0 \<and> unat a + 65536 < 2 ^ 64 \<and> arena_list h = a
     \<and> arena_at h a = Some \<lparr>ha_next = 0, ha_frame_count = 16, ha_first_block = a + 24\<rparr>
     \<and> block_at h (a + 24) = Some \<lparr>hb_size = 65488, hb_free = True, hb_next = 0\<rparr>"

lemma near:
  assumes "unat (a :: u64) + 65536 < 2 ^ 64" "0 < k" "k < 65536"
  shows "a + of_nat k \<noteq> 0"
proof -
  have k: "unat (of_nat k :: u64) = k" by (rule unat_of_nat_eq) (use assms(3) in simp)
  then have "unat (a + of_nat k) = unat a + k" using assms unat_plus_simple [of a "of_nat k"] by (simp add: word_le_nat_alt unat_word_ariths)
  then show ?thesis using assms(2) by auto
qed

lemma heap_init_fresh:
  assumes "pmm_ok (heap_pmm h)" "arena_list h = 0" "run_at (heap_pmm h) n 16"
  shows "\<exists>a. fresh_heap a (heap_init h) \<and> pmm_alloc_frames 16 (heap_pmm h) = (a, heap_pmm (heap_init h))"
proof -
  have rep: "heap_rep h []" using assms by (simp add: heap_rep_def)
  have req: "arena_request 0 = 16" by (simp add: arena_request_def)
  obtain base p where al: "pmm_alloc_frames 16 (heap_pmm h) = (base, p)" by fastforce
  have nz: "base \<noteq> 0"
  proof
    assume "base = 0"
    then show False using frames.alloc_run_fail [OF assms(1) al [unfolded \<open>base = 0\<close>]] assms(3) by (simp add: run_at_def)
  qed
  note r = frames.alloc_run_ok [OF assms(1) al nz]
  have i: "heap_init h = add_arena base 16 p h" using al nz by (simp add: heap_init_def grow_heap_eq req)
  have rep': "heap_rep (heap_init h) [(base, [base + 24])]"
    unfolding i by (rule add_arena_rep(1) [OF rep _ nz, of p 16]) (use r in auto)
  then have "arena_ok (heap_init h) (base, [base + 24])" by (simp add: heap_rep_def)
  then have "unat base + 65536 < 2 ^ 64" by (simp add: arena_ok_def arena_end_def i add_arena_def)
  then show ?thesis using heap_init_spec [OF assms(1,2)] nz assms(2) al
    by (intro exI [of _ base]) (simp add: fresh_heap_def, simp add: i add_arena_def)
qed

text \<open>The heap then owns the sixteen frames of that arena.\<close>

lemma fresh_frames:
  assumes "fresh_heap a h"
  shows "heap_frames h = {unat a div 4096..<unat a div 4096 + 16}"
proof -
  note f = assms [unfolded fresh_heap_def]
  obtain L where L: "heap_rep h L" using f by (auto simp: heap_inv_def)
  have "arena_path (arena_at h) a [a]" using f by simp
  then have "map fst L = [a]" using L f arena_path_unique [of "arena_at h" a "map fst L" "[a]"] by (simp add: heap_rep_def)
  then show ?thesis using f by (simp add: heap_frames_eq [OF L] arena_frames_def)
qed

lemma fresh_clear:
  assumes "fresh_heap a h" "pmm_ok p" "bitmap_apart p" "pmm_alloc_frames 16 p = (a, heap_pmm h)"
  shows "bitmap_clear h"
proof -
  have "a \<noteq> 0" using assms(1) by (simp add: fresh_heap_def)
  then have "{unat a div 4096..<unat a div 4096 + 16} \<subseteq> free_set p" using frames.alloc_run_ok [OF assms(2,4)] by simp
  then show ?thesis using alloc_run_bitmap [OF assms(2,4)] assms(3) unfolding bitmap_clear_def bitmap_apart_def fresh_frames [OF assms(1)] by blast
qed

text \<open>Allocations are cut off the front of the free block, one after the other.\<close>

lemma fresh_near:
  assumes "fresh_heap a h"
  shows "a \<noteq> 0" "a + 24 \<noteq> 0" "a + 48 \<noteq> 0" "a + 96 \<noteq> 0" "a + 120 \<noteq> 0" "a + 168 \<noteq> 0" "a + 192 \<noteq> 0"
  using assms near [of a 24] near [of a 48] near [of a 96] near [of a 120] near [of a 168] near [of a 192] by (simp_all add: fresh_heap_def)

lemma fresh_check:
  assumes f: "fresh_heap a h"
  shows "\<exists>h1 h2. kmalloc 64 h = Some (a + 48, h1) \<and> kfree (a + 48) h1 = Some h2 \<and> fresh_heap a h2 \<and> heap_pmm h2 = heap_pmm h"
proof -
  note ne = fresh_near [OF f] and f' = f [unfolded fresh_heap_def]
  have "find_block (block_at h) (a + 24) 64 = Some (a + 24)" using f' ne by (subst find_block.simps) simp
  then have ff: "find_fit h a 64 = Some (a + 24)" using f' ne by (subst find_fit.simps) simp
  define h1 where "h1 = h\<lparr>block_at := (block_at h)(a + 112 \<mapsto> \<lparr>hb_size = 65400, hb_free = True, hb_next = 0\<rparr>,
    a + 24 \<mapsto> \<lparr>hb_size = 64, hb_free = False, hb_next = a + 112\<rparr>)\<rparr>"
  define h2 where "h2 = h1\<lparr>block_at := (block_at h1)(a + 24 \<mapsto> \<lparr>hb_size = 65488, hb_free = True, hb_next = 0\<rparr>)\<rparr>"
  have m: "kmalloc 64 h = Some (a + 48, h1)"
    using ff f' ne by (simp add: kmalloc_def align_up_def alloc_from_block_def h1_def Let_def add.commute [of 112 a])
  obtain n where n: "live h1 = {(unat (a + 48), n)}" "heap_inv h1" using kmalloc_inv [OF _ _ _ m] f' ne by auto
  have k: "kfree (a + 48) h1 = Some h2" using ne near [of a 112] f' by (simp add: kfree_def h1_def h2_def add.commute [of 24 a])
  then have "heap_inv h2" "live h2 = {}" using kfree_inv [OF n(2), of "a + 48" n] n(1) by auto
  then have "fresh_heap a h2" using f' by (simp add: fresh_heap_def) (simp add: h2_def h1_def)
  moreover have "heap_pmm h2 = heap_pmm h" by (simp add: h2_def h1_def)
  ultimately show ?thesis using m k by blast
qed

lemma fresh_threads:
  assumes f: "fresh_heap a h"
  shows "\<exists>h1 h2 h3. kmalloc sizeof_thread h = Some (a + 48, h1) \<and> kmalloc sizeof_thread h1 = Some (a + 120, h2)
    \<and> kmalloc THREAD_STACK_SIZE h2 = Some (a + 192, h3)"
proof -
  note ne = fresh_near [OF f] and f' = f [unfolded fresh_heap_def]
  have c: "96 + a = a + 96" "168 + a = a + 168" "16576 + a = a + 16576" by (simp_all add: add.commute)
  have "find_block (block_at h) (a + 24) 48 = Some (a + 24)" using f' ne by (subst find_block.simps) simp
  then have "find_fit h a 48 = Some (a + 24)" using f' ne by (subst find_fit.simps) simp
  define h1 where "h1 = h\<lparr>block_at := (block_at h)(a + 96 \<mapsto> \<lparr>hb_size = 65416, hb_free = True, hb_next = 0\<rparr>,
    a + 24 \<mapsto> \<lparr>hb_size = 48, hb_free = False, hb_next = a + 96\<rparr>)\<rparr>"
  have 1: "kmalloc sizeof_thread h = Some (a + 48, h1)"
    using \<open>find_fit h a 48 = Some (a + 24)\<close> f' ne by (simp add: kmalloc_def align_up_def alloc_from_block_def h1_def sizeof_thread_def Let_def c)
  have s1: "arena_list h1 = a" "arena_at h1 a = Some \<lparr>ha_next = 0, ha_frame_count = 16, ha_first_block = a + 24\<rparr>"
    "block_at h1 (a + 24) = Some \<lparr>hb_size = 48, hb_free = False, hb_next = a + 96\<rparr>"
    "block_at h1 (a + 96) = Some \<lparr>hb_size = 65416, hb_free = True, hb_next = 0\<rparr>" using f' by (simp_all add: h1_def)
  have "find_block (block_at h1) (a + 96) 48 = Some (a + 96)" using s1 ne by (subst find_block.simps) simp
  then have "find_block (block_at h1) (a + 24) 48 = Some (a + 96)" using s1 ne by (subst find_block.simps) simp
  then have ff: "find_fit h1 a 48 = Some (a + 96)" using s1 ne by (subst find_fit.simps) simp
  define h2 where "h2 = h1\<lparr>block_at := (block_at h1)(a + 168 \<mapsto> \<lparr>hb_size = 65344, hb_free = True, hb_next = 0\<rparr>,
    a + 96 \<mapsto> \<lparr>hb_size = 48, hb_free = False, hb_next = a + 168\<rparr>)\<rparr>"
  have 2: "kmalloc sizeof_thread h1 = Some (a + 120, h2)"
    using ff s1 ne by (simp add: kmalloc_def align_up_def alloc_from_block_def h2_def sizeof_thread_def Let_def c)
  have s2: "arena_list h2 = a" "arena_at h2 a = Some \<lparr>ha_next = 0, ha_frame_count = 16, ha_first_block = a + 24\<rparr>"
    "block_at h2 (a + 24) = Some \<lparr>hb_size = 48, hb_free = False, hb_next = a + 96\<rparr>"
    "block_at h2 (a + 96) = Some \<lparr>hb_size = 48, hb_free = False, hb_next = a + 168\<rparr>"
    "block_at h2 (a + 168) = Some \<lparr>hb_size = 65344, hb_free = True, hb_next = 0\<rparr>" using s1 by (simp_all add: h2_def)
  have "find_block (block_at h2) (a + 168) 16384 = Some (a + 168)" using s2 ne by (subst find_block.simps) simp
  then have "find_block (block_at h2) (a + 96) 16384 = Some (a + 168)" using s2 ne by (subst find_block.simps) simp
  then have "find_block (block_at h2) (a + 24) 16384 = Some (a + 168)" using s2 ne by (subst find_block.simps) simp
  then have "find_fit h2 a 16384 = Some (a + 168)" using s2 ne by (subst find_fit.simps) simp
  then have "\<exists>h3. kmalloc THREAD_STACK_SIZE h2 = Some (a + 192, h3)"
    using s2 ne by (simp add: kmalloc_def align_up_def alloc_from_block_def THREAD_STACK_SIZE_def Let_def)
  then show ?thesis using 1 2 by blast
qed

section \<open>What the kernel relies on\<close>

lemma console_puts_fold: "console_puts putc str st = fold putc (takeWhile (\<lambda>c. c \<noteq> 0) str) st"
  by (induction str arbitrary: st) simp_all

text \<open>A machine with a console: while it is \<open>ready\<close>, printing a character changes the output \<open>out\<close> and nothing else
  (\<open>rest\<close>); heap and scheduler can be read back after they have been replaced, and are two views of one heap.\<close>

locale machine =
  fixes A :: "('cpu, 's) arch" and ready :: "'s \<Rightarrow> bool" and out :: "'s \<Rightarrow> 'o" and emit :: "u8 \<Rightarrow> 'o \<Rightarrow> 'o" and rest :: "'s \<Rightarrow> 'r"
  assumes putc_ok: "ready s \<Longrightarrow> \<exists>s'. op_console_putc A c s = Some s' \<and> ready s' \<and> out s' = emit c (out s) \<and> rest s' = rest s"
    and rest_heap: "rest s = rest s' \<Longrightarrow> sh_heap A s = sh_heap A s'"
    and heap_put: "sh_heap A (sh_set_heap A h s) = h"
    and put_console: "ready (sh_set_heap A h s) = ready s" "out (sh_set_heap A h s) = out s"
    and rest_put: "rest s = rest s' \<Longrightarrow> rest (sh_set_heap A h s) = rest (sh_set_heap A h s')"
    and put_twice: "sh_set_heap A h (sh_set_heap A h' s) = sh_set_heap A h s"
    and sched_view: "sched_heap (sh_sched A s) = sh_heap A s"
    and sched_put: "sh_sched A (sh_set_sched A sc s) = sc"
begin

lemma emit_all:
  assumes "ready s"
  shows "\<exists>s'. fold (\<lambda>c st. Option.bind st (op_console_putc A c)) cs (Some s) = Some s' \<and> ready s' \<and> out s' = fold emit cs (out s) \<and> rest s' = rest s"
  using assms
proof (induction cs arbitrary: s)
  case (Cons c cs)
  obtain s1 where s1: "op_console_putc A c s = Some s1" "ready s1" "out s1 = emit c (out s)" "rest s1 = rest s"
    using putc_ok [OF Cons.prems] by blast
  then show ?case using Cons.IH [OF s1(2)] by simp
qed simp

lemma puts_ok:
  assumes "ready s"
  shows "\<exists>s'. puts A str s = Some s' \<and> ready s' \<and> out s' = fold emit (takeWhile (\<lambda>c. c \<noteq> 0) str) (out s) \<and> rest s' = rest s"
  using emit_all [OF assms] by (simp add: puts_def console_puts_fold)

lemma put_dec_ok:
  assumes "ready s" "length buf = 21"
  shows "\<exists>s'. put_dec A buf v s = Some s' \<and> ready s' \<and> out s' = fold emit (shown (unat v)) (out s) \<and> rest s' = rest s"
proof -
  have v: "unat v < 10 ^ 20" using u64_lt [of v] by simp
  let ?P = "\<lambda>c st. Option.bind st (op_console_putc A c)"
  have "console_put_dec buf ?P v (Some s) = Some (fold ?P (shown (unat v)) (Some s))"
    using assms(2) by (simp add: console_put_dec_def shown_def Let_def unat_eq_0 put_dec_digits [OF v, of buf])
  then show ?thesis using emit_all [OF assms(1)] by (simp add: put_dec_def)
qed

lemma heap_check_ok:
  assumes r: "ready s" and h: "pmm_ok (heap_pmm (sh_heap A s))" "arena_list (sh_heap A s) = 0" "run_at (heap_pmm (sh_heap A s)) n 16"
  shows "\<exists>s' a h'. heap_check A s = Some s' \<and> ready s' \<and> out s' = fold emit (c_string ''Heap: OK'' @ [10]) (out s)
    \<and> rest s' = rest (sh_set_heap A h' s) \<and> sh_heap A s' = h' \<and> fresh_heap a h' \<and> pmm_alloc_frames 16 (heap_pmm (sh_heap A s)) = (a, heap_pmm h')"
proof -
  obtain a where a: "fresh_heap a (heap_init (sh_heap A s))" "pmm_alloc_frames 16 (heap_pmm (sh_heap A s)) = (a, heap_pmm (heap_init (sh_heap A s)))" using heap_init_fresh [OF h] by blast
  obtain h1 h2 where k: "kmalloc 64 (heap_init (sh_heap A s)) = Some (a + 48, h1)" "kfree (a + 48) h1 = Some h2" "fresh_heap a h2"
    "heap_pmm h2 = heap_pmm (heap_init (sh_heap A s))" using fresh_check [OF a(1)] by blast
  let ?s = "sh_set_heap A h1 (sh_set_heap A (heap_init (sh_heap A s)) s)"
  have "ready ?s" using r by (simp add: put_console)
  then obtain s1 where s1: "puts A (c_string ''Heap: '') ?s = Some s1" "ready s1"
    "out s1 = fold emit (takeWhile (\<lambda>c. c \<noteq> 0) (c_string ''Heap: '')) (out ?s)" "rest s1 = rest ?s" using puts_ok by blast
  obtain s2 where s2: "puts A (c_string ''OK'' @ [10]) s1 = Some s2" "ready s2"
    "out s2 = fold emit (takeWhile (\<lambda>c. c \<noteq> 0) (c_string ''OK'' @ [10])) (out s1)" "rest s2 = rest s1" using puts_ok [OF s1(2)] by blast
  have hp: "sh_heap A s2 = h1" using rest_heap [of s2 ?s] s1(4) s2(4) heap_put by simp
  have "heap_check A s = Some (sh_set_heap A h2 s2)" using k s1(1) s2(1) hp fresh_near(3) [OF a(1)] by (simp add: heap_check_def heap_put)
  moreover have "rest (sh_set_heap A h2 s2) = rest (sh_set_heap A h2 s)"
    using rest_put [of s2 ?s h2] s1(4) s2(4) by (simp add: put_twice)
  moreover have "out (sh_set_heap A h2 s2) = fold emit (c_string ''Heap: OK'' @ [10]) (out s)"
    using s1(3) s2(3) by (simp add: put_console c_string_def)
  ultimately show ?thesis using k(3,4) a(2) s2(2) by (intro exI [of _ "sh_set_heap A h2 s2"] exI [of _ a] exI [of _ h2]) (simp add: put_console heap_put)
qed

text \<open>The whole of steps 2 and 3, once the frame allocator is set up.\<close>

lemma memory_ok:
  assumes r: "ready s" "length buf = 21"
    and mm: "\<And>s0. ready s0 \<Longrightarrow> rest s0 = rest s \<Longrightarrow> \<exists>s1. op_mm_init A magic info s0 = Some s1 \<and> ready s1 \<and> out s1 = out s0
      \<and> heap_pmm (sh_heap A s1) = P \<and> arena_list (sh_heap A s1) = 0 \<and> rest s1 = R \<and> op_get_total_ram A s1 = ram"
    and P: "pmm_ok P" "run_at P n 16"
    and ram: "\<And>s0 s1. rest s0 = rest s1 \<Longrightarrow> op_get_total_ram A s0 = op_get_total_ram A s1"
  shows "\<exists>s' a s1 h'. kernel_memory A buf magic info s = Some s' \<and> ready s'
    \<and> out s' = fold emit ([10] @ c_string ''MegKer'' @ [10] @ c_string ''RAM: '' @ shown (unat ram div (1024 * 1024)) @ c_string '' MB'' @ [10]
         @ c_string ''Heap: OK'' @ [10]) (out s)
    \<and> rest s' = rest (sh_set_heap A h' s1) \<and> rest s1 = R \<and> sh_heap A s' = h' \<and> fresh_heap a h' \<and> pmm_alloc_frames 16 P = (a, heap_pmm h')"
proof -
  obtain s0 where s0: "puts A ([10] @ c_string ''MegKer'' @ [10]) s = Some s0" "ready s0"
    "out s0 = fold emit (takeWhile (\<lambda>c. c \<noteq> 0) ([10] @ c_string ''MegKer'' @ [10])) (out s)" "rest s0 = rest s" using puts_ok [OF r(1)] by blast
  obtain s1 where s1: "op_mm_init A magic info s0 = Some s1" "ready s1" "out s1 = out s0" "rest s1 = R" "op_get_total_ram A s1 = ram"
    and p: "heap_pmm (sh_heap A s1) = P" "arena_list (sh_heap A s1) = 0"
    using mm [OF s0(2,4)] by blast
  obtain s2 where s2: "puts A (c_string ''RAM: '') s1 = Some s2" "ready s2"
    "out s2 = fold emit (takeWhile (\<lambda>c. c \<noteq> 0) (c_string ''RAM: '')) (out s1)" "rest s2 = rest s1" using puts_ok [OF s1(2)] by blast
  obtain s3 where s3: "put_dec A buf (op_get_total_ram A s2 div (1024 * 1024)) s2 = Some s3" "ready s3"
    "out s3 = fold emit (shown (unat (op_get_total_ram A s2 div (1024 * 1024)))) (out s2)" "rest s3 = rest s2" using put_dec_ok [OF s2(2) r(2)] by blast
  obtain s4 where s4: "puts A (c_string '' MB'' @ [10]) s3 = Some s4" "ready s4"
    "out s4 = fold emit (takeWhile (\<lambda>c. c \<noteq> 0) (c_string '' MB'' @ [10])) (out s3)" "rest s4 = rest s3" using puts_ok [OF s3(2)] by blast
  have rs: "rest s4 = rest s1" using s2(4) s3(4) s4(4) by simp
  note hp = rest_heap [OF rs]
  obtain s5 a h' where s5: "heap_check A s4 = Some s5" "ready s5" "out s5 = fold emit (c_string ''Heap: OK'' @ [10]) (out s4)"
    "rest s5 = rest (sh_set_heap A h' s4)" "sh_heap A s5 = h'" "fresh_heap a h'"
    "pmm_alloc_frames 16 P = (a, heap_pmm h')" using heap_check_ok [OF s4(2)] p P unfolding hp by metis
  have u: "unat (op_get_total_ram A s2 div (1024 * 1024)) = unat ram div (1024 * 1024)" using ram [OF s2(4)] s1(5) by (simp add: unat_div)
  have "out s5 = fold emit ([10] @ c_string ''MegKer'' @ [10] @ c_string ''RAM: '' @ shown (unat ram div (1024 * 1024)) @ c_string '' MB'' @ [10]
         @ c_string ''Heap: OK'' @ [10]) (out s)"
    using s0(3) s1(3) s2(3) s3(3) s4(3) s5(3) u by (simp add: c_string_def)
  moreover have "kernel_memory A buf magic info s = Some s5"
    using s0(1) s1(1) s2(1) s3(1) s4(1) s5(1) by (simp add: kernel_memory_def)
  ultimately show ?thesis using s5(2,4-7) rest_put [OF rs, of h'] s1(4) by metis
qed

text \<open>The boot thread and the blinker in the ring.\<close>

lemma start_threads_ok:
  assumes "fresh_heap a (sh_heap A s)"
  shows "\<exists>s' t. start_threads A blinker s = Some s' \<and> sched_inv (sh_sched A s') [current (sh_sched A s'), t]
    \<and> sched_enabled (sh_sched A s') \<and> t \<noteq> current (sh_sched A s') \<and> (bitmap_clear (sh_heap A s) \<longrightarrow> bitmap_clear (sh_heap A s'))
    \<and> (\<exists>c. thread_at (sh_sched A s') (current (sh_sched A s')) = Some c \<and> t_state c = THREAD_RUNNING \<and> t_id c = next_id (sh_sched A s))
    \<and> (\<exists>n. thread_at (sh_sched A s') t = Some n \<and> t_state n = THREAD_READY \<and> t_id n = next_id (sh_sched A s) + 1
         \<and> (t_sp n, sched_cpu (sh_sched A s')) = arch_thread_init_stack (op_threads A) (t_stack_base n + THREAD_STACK_SIZE) blinker 0 (sched_cpu (sh_sched A s)))"
proof -
  let ?s = "sh_sched A s"
  obtain h1 h2 h3 where h: "kmalloc sizeof_thread (sched_heap ?s) = Some (a + 48, h1)" "kmalloc sizeof_thread h1 = Some (a + 120, h2)"
    "kmalloc THREAD_STACK_SIZE h2 = Some (a + 192, h3)" using fresh_threads [OF assms] sched_view [of s] by auto
  note ne = fresh_near [OF assms]
  have inv: "heap_inv (sched_heap ?s)" using assms sched_view [of s] by (simp add: fresh_heap_def)
  have sz: "0 < unat sizeof_thread" "unat sizeof_thread < 2 ^ 62" "0 < unat THREAD_STACK_SIZE" "unat THREAD_STACK_SIZE < 2 ^ 62"
    by (simp_all add: sizeof_thread_def THREAD_STACK_SIZE_def)
  note v1 = kheap.malloc_state(1) [OF inv sz(1,2) h(1)]
  note v2 = kheap.malloc_state(1) [OF v1 sz(1,2) h(2)]
  have clear: "bitmap_clear h3" if "bitmap_clear (sched_heap ?s)"
    using kmalloc_clear [OF v2 kmalloc_clear [OF v1 kmalloc_clear [OF inv that sz(1,2) h(1)] sz(1,2) h(2)] sz(3,4) h(3)] .
  define c1 where "c1 = ?s\<lparr>sched_heap := h1, thread_at := (thread_at ?s)(a + 48 \<mapsto> \<lparr>t_id = next_id ?s, t_sp = 0, t_stack_base = 0,
    t_stack_size = 0, t_state = THREAD_RUNNING, t_next = a + 48\<rparr>), next_id := next_id ?s + 1, current := a + 48, sched_enabled := True\<rparr>"
  have 1: "sched_init ?s = Some c1" using h(1) ne by (simp add: sched_init_def c1_def)
  have cur: "current c1 = a + 48" "thread_at c1 (a + 48) = Some \<lparr>t_id = next_id ?s, t_sp = 0, t_stack_base = 0, t_stack_size = 0,
    t_state = THREAD_RUNNING, t_next = a + 48\<rparr>" "sched_heap c1 = h1" "next_id c1 = next_id ?s + 1" "sched_cpu c1 = sched_cpu ?s"
    "sched_enabled c1" by (simp_all add: c1_def)
  have i1: "sched_inv c1 [current c1]" using sched_init_ring(1) [OF inv 1] cur by (simp add: sched_inv_def alive_def)
  obtain sp cpu where st: "arch_thread_init_stack (op_threads A) (a + 192 + THREAD_STACK_SIZE) blinker 0 (sched_cpu ?s) = (sp, cpu)" by fastforce
  define new where "new = \<lparr>t_id = next_id ?s + 1, t_sp = sp, t_stack_base = a + 192, t_stack_size = THREAD_STACK_SIZE, t_state = THREAD_READY, t_next = a + 48\<rparr>"
  define c2 where "c2 = c1\<lparr>sched_heap := h3, sched_cpu := cpu, next_id := next_id c1 + 1,
    thread_at := (thread_at c1)(a + 120 \<mapsto> new, a + 48 \<mapsto> (the (thread_at c1 (a + 48)))\<lparr>t_next := a + 120\<rparr>)\<rparr>"
  have 2: "thread_create (op_threads A) blinker 0 c1 = Some (a + 120, c2)"
    using h(2,3) ne cur st by (simp add: thread_create_def c2_def new_def)
  have i2: "sched_inv c2 [current c2, a + 120]" using create_inv [OF i1 2] cur(1) by (simp add: c2_def)
  have "start_threads A blinker s = Some (sh_set_sched A c2 s)" using 1 2 by (simp add: start_threads_def)
  moreover have "sched_cpu c2 = cpu" "current c2 = a + 48" "sched_enabled c2" "a + 120 \<noteq> a + 48" using cur by (simp_all add: c2_def)
  moreover have "thread_at c2 (a + 48) = Some \<lparr>t_id = next_id ?s, t_sp = 0, t_stack_base = 0, t_stack_size = 0, t_state = THREAD_RUNNING, t_next = a + 120\<rparr>"
    "thread_at c2 (a + 120) = Some new" using cur by (simp_all add: c2_def)
  moreover have "sh_heap A (sh_set_sched A c2 s) = h3" using sched_view [of "sh_set_sched A c2 s"] by (simp add: sched_put c2_def)
  ultimately show ?thesis using i2 st clear sched_view [of s]
    by - (rule exI [of _ "sh_set_sched A c2 s"], rule exI [of _ "a + 120"], simp add: sched_put new_def)
qed

end

section \<open>Properties\<close>

text \<open>The values of the tick counter that successive rounds of the blinker see, when no round misses a tick.\<close>

fun steady :: "nat \<Rightarrow> nat list \<Rightarrow> bool" where
  "steady t [] \<longleftrightarrow> True"
| "steady t (n # ns) \<longleftrightarrow> t \<le> n \<and> n \<le> t + 1 \<and> steady n ns"

fun blink_rounds :: "('cpu, 's) arch \<Rightarrow> bool \<times> u64 \<Rightarrow> 's list \<Rightarrow> bool \<times> u64" where
  "blink_rounds A l [] = l"
| "blink_rounds A l (s # ss) = blink_rounds A (fst (blinker_step A l s)) ss"

lemma steady_last: "steady t ns \<Longrightarrow> t \<le> last (t # ns)"
  by (induction t ns rule: steady.induct) auto

lemma blinker_locals:
  "fst (blinker_step A (on, l) s) = (if op_timer_ticks A s - l \<ge> 100 then (\<not> on, op_timer_ticks A s) else (on, l))"
  by (simp add: blinker_step_def Let_def)

lemma blink_from:
  assumes "steady t (map (\<lambda>s. unat (op_timer_ticks A s)) ss)" "L + 100 * q \<le> t" "t < L + 100 * q + 100" "t < 2 ^ 64"
  defines "now \<equiv> last (t # map (\<lambda>s. unat (op_timer_ticks A s)) ss)"
  shows "blink_rounds A (on \<noteq> odd q, of_nat (L + 100 * q)) ss = (on \<noteq> odd ((now - L) div 100), of_nat (L + 100 * ((now - L) div 100)))"
  using assms(1-4) unfolding now_def
proof (induction ss arbitrary: t q)
  case Nil
  have "(t - L) div 100 = q" using Nil(2,3) by (intro div_nat_eqI) simp_all
  then show ?case by simp
next
  case (Cons s ss)
  let ?n = "unat (op_timer_ticks A s)"
  have n: "t \<le> ?n" "?n \<le> t + 1" "steady ?n (map (\<lambda>s. unat (op_timer_ticks A s)) ss)" using Cons.prems(1) by simp_all
  have lt: "?n < 2 ^ 64" using u64_lt by simp
  have u: "unat (of_nat (L + 100 * q) :: u64) = L + 100 * q" by (rule unat_of_nat_eq) (use Cons.prems in simp)
  have d: "unat (op_timer_ticks A s - of_nat (L + 100 * q)) = ?n - (L + 100 * q)"
    using u Cons.prems(2) n(1) by (simp add: unat_minus_simple word_le_nat_alt del: of_nat_add of_nat_mult)
  then have c: "op_timer_ticks A s - of_nat (L + 100 * q) \<ge> 100 \<longleftrightarrow> L + 100 * Suc q \<le> ?n"
    using Cons.prems(2) n(1) by (auto simp: word_le_nat_alt)
  show ?case
  proof (cases "L + 100 * Suc q \<le> ?n")
    case True
    then have e: "?n = L + 100 * Suc q" using n(2) Cons.prems(3) by simp
    then have w: "op_timer_ticks A s = of_nat (L + 100 * Suc q)" by (metis of_nat_unat_id)
    have "fst (blinker_step A (on \<noteq> odd q, of_nat (L + 100 * q)) s) = (on \<noteq> odd (Suc q), of_nat (L + 100 * Suc q))"
      using c True w by (auto simp: blinker_locals)
    then show ?thesis using Cons.IH [OF n(3), of "Suc q"] e lt by (simp del: of_nat_add of_nat_mult mult_Suc_right)
  next
    case False
    have "fst (blinker_step A (on \<noteq> odd q, of_nat (L + 100 * q)) s) = (on \<noteq> odd q, of_nat (L + 100 * q))"
      using c False by (auto simp: blinker_locals)
    then show ?thesis using Cons.IH [OF n(3), of q] False n(1) Cons.prems(2) lt by (simp del: of_nat_add of_nat_mult)
  qed
qed

end
