(* ===== verification/Vmm_a64.thy ===== *)
theory Vmm_a64
  imports Vmm_x86
begin

text \<open>
  The aarch64 virtual memory manager, \<^verbatim>\<open>arch/aarch64/mm/vmm.c\<close> (three levels, L1 to L3, 39-bit addresses),
  and the boot-time identity map of \<^verbatim>\<open>arch/aarch64/mm/mmu_boot.c\<close>. Names that both architectures define
  carry the suffix \<open>_a64\<close> here. The state is the \<open>vm\<close> record of theory PageTable, with \<open>root_reg\<close> for
  TTBR0_EL1; the other system registers the boot code writes are an extension of it. The operations
  are shown to be the tree operations of theory PageTable on the aarch64 descriptor format.
\<close>

section \<open>Descriptors\<close>

definition ADDR_MASK_a64 :: u64 where "ADDR_MASK_a64 = 0x0000FFFFFFFFF000"
definition PTE_VALID :: u64 where "PTE_VALID = push_bit 0 1"
definition PTE_TABLE :: u64 where "PTE_TABLE = push_bit 1 1"
definition PTE_AF :: u64 where "PTE_AF = push_bit 10 1"
definition PTE_SH_INNER :: u64 where "PTE_SH_INNER = push_bit 8 3"
definition PTE_AP_RW_EL1 :: u64 where "PTE_AP_RW_EL1 = push_bit 6 0"
definition PTE_AP_RW_EL1_EL0 :: u64 where "PTE_AP_RW_EL1_EL0 = push_bit 6 1"
definition PTE_AP_RO_EL1 :: u64 where "PTE_AP_RO_EL1 = push_bit 6 2"
definition PTE_AP_RO_EL1_EL0 :: u64 where "PTE_AP_RO_EL1_EL0 = push_bit 6 3"
definition MAIR_DEVICE_IDX :: u64 where "MAIR_DEVICE_IDX = 0"
definition MAIR_NORMAL_IDX :: u64 where "MAIR_NORMAL_IDX = 1"
definition PTE_ATTR_NORMAL :: u64 where "PTE_ATTR_NORMAL = push_bit 2 MAIR_NORMAL_IDX"

definition leaf_flags :: "u64 \<Rightarrow> u64" where
  "leaf_flags flags =
     (let user = flags AND VMM_USER \<noteq> 0;
          write = flags AND VMM_WRITABLE \<noteq> 0;
          ap = (if user then (if write then PTE_AP_RW_EL1_EL0 else PTE_AP_RO_EL1_EL0)
                else (if write then PTE_AP_RW_EL1 else PTE_AP_RO_EL1))
      in PTE_VALID OR PTE_TABLE OR PTE_AF OR PTE_SH_INNER OR PTE_ATTR_NORMAL OR ap)"

section \<open>vmm.c\<close>

definition get_or_create_table_a64 :: "u64 \<Rightarrow> nat \<Rightarrow> ('x) vm_scheme \<Rightarrow> u64 \<times> ('x) vm_scheme" where
  "get_or_create_table_a64 parent index s =
     (if pt_get (vm_mem s) parent index AND PTE_VALID \<noteq> 0 \<and> pt_get (vm_mem s) parent index AND PTE_TABLE = 0 then (0, s)
      else
        let s = (if pt_get (vm_mem s) parent index AND PTE_VALID = 0 then
                   let (frame, s) = vm_alloc s;
                       s = zeroed_table frame s
                   in vm_set parent index (frame OR PTE_VALID OR PTE_TABLE) s
                 else s)
        in (pt_get (vm_mem s) parent index AND ADDR_MASK_a64, s))"

text \<open>The argument is \<open>4 - level\<close>: 3 for L1, 1 for L3; 0 is never reached.\<close>

primrec clone_table_level_a64 :: "nat \<Rightarrow> u64 \<Rightarrow> ('x) vm_scheme \<Rightarrow> u64 \<times> ('x) vm_scheme" where
  "clone_table_level_a64 0 src s = (0, s)"
| "clone_table_level_a64 (Suc l) src s =
     (let (new_frame, s) = vm_alloc s;
          s = zeroed_table new_frame s
      in (new_frame,
          fold (\<lambda>i s.
            let e = pt_get (vm_mem s) src i
            in if e AND PTE_VALID = 0 then s
               else if l = 0 \<or> e AND PTE_TABLE = 0 then vm_set new_frame i e s
               else
                 let (child_dst, s) = clone_table_level_a64 l (e AND ADDR_MASK_a64) s
                 in vm_set new_frame i ((child_dst AND ADDR_MASK_a64) OR PTE_VALID OR PTE_TABLE) s)
            [0..<512] s))"

primrec free_table_level_a64 :: "nat \<Rightarrow> u64 \<Rightarrow> ('x) vm_scheme \<Rightarrow> ('x) vm_scheme" where
  "free_table_level_a64 0 table s = s"
| "free_table_level_a64 (Suc l) table s =
     vm_free table
       (if l > 0 then
          fold (\<lambda>i s.
            let e = pt_get (vm_mem s) table i
            in if e AND PTE_VALID \<noteq> 0 \<and> e AND PTE_TABLE \<noteq> 0 then free_table_level_a64 l (e AND ADDR_MASK_a64) s else s)
            [0..<512] s
        else s)"

definition vmm_init_a64 :: "('x) vm_scheme \<Rightarrow> ('x) vm_scheme" where
  "vmm_init_a64 s = s\<lparr>kernel_root := root_reg s AND ADDR_MASK_a64\<rparr>"

definition vmm_kernel_space_a64 :: aspace where
  "vmm_kernel_space_a64 = Kernel_space"

definition vmm_create_address_space_a64 :: "('x) vm_scheme \<Rightarrow> (aspace \<times> ('x) vm_scheme) option" where
  "vmm_create_address_space_a64 s =
     (let (new_l1, s) = clone_table_level_a64 3 (kernel_root s) s
      in do {
           (as, h) \<leftarrow> kmalloc sizeof_address_space (vm_heap s);
           if as = 0 then None
           else Some (Heap_space as, s\<lparr>vm_heap := h, as_at := (as_at s)(as \<mapsto> new_l1)\<rparr>)
         })"

definition vmm_destroy_address_space_a64 :: "aspace \<Rightarrow> ('x) vm_scheme \<Rightarrow> ('x) vm_scheme option" where
  "vmm_destroy_address_space_a64 as s =
     (case as of
        Kernel_space \<Rightarrow> Some s
      | Heap_space a \<Rightarrow>
          do {
            l1 \<leftarrow> as_at s a;
            let s = free_table_level_a64 3 l1 s;
            h \<leftarrow> kfree a (vm_heap s);
            Some (s\<lparr>vm_heap := h, as_at := (as_at s)(a := None)\<rparr>)
          })"

definition vmm_map_a64 :: "aspace \<Rightarrow> virtaddr \<Rightarrow> physaddr \<Rightarrow> u64 \<Rightarrow> ('x) vm_scheme \<Rightarrow> ('x) vm_scheme option" where
  "vmm_map_a64 as virt phys flags s =
     do {
       l1 \<leftarrow> as_root as s;
       let i1 = unat (drop_bit 30 virt AND 0x1FF);
       let i2 = unat (drop_bit 21 virt AND 0x1FF);
       let i3 = unat (drop_bit 12 virt AND 0x1FF);
       let (l2, s) = get_or_create_table_a64 l1 i1 s;
       if l2 = 0 then Some s
       else
         let (l3, s) = get_or_create_table_a64 l2 i2 s
         in if l3 = 0 then Some s
            else if flags AND VMM_PRESENT = 0 then Some s
            else Some (vm_set l3 i3 ((phys AND ADDR_MASK_a64) OR leaf_flags flags) s)
     }"

definition vmm_unmap_a64 :: "aspace \<Rightarrow> virtaddr \<Rightarrow> ('x) vm_scheme \<Rightarrow> ('x) vm_scheme option" where
  "vmm_unmap_a64 as virt s =
     do {
       l1 \<leftarrow> as_root as s;
       let i1 = unat (drop_bit 30 virt AND 0x1FF);
       let i2 = unat (drop_bit 21 virt AND 0x1FF);
       let i3 = unat (drop_bit 12 virt AND 0x1FF);
       let e1 = pt_get (vm_mem s) l1 i1;
       if e1 AND PTE_VALID = 0 \<or> e1 AND PTE_TABLE = 0 then Some s
       else
         let e2 = pt_get (vm_mem s) (e1 AND ADDR_MASK_a64) i2
         in if e2 AND PTE_VALID = 0 \<or> e2 AND PTE_TABLE = 0 then Some s
            else
              let s = vm_set (e2 AND ADDR_MASK_a64) i3 0 s
              in Some (s\<lparr>tlb_log := tlb_log s @ [Invlpg (drop_bit 12 virt)]\<rparr>)
     }"

definition vmm_translate_a64 :: "aspace \<Rightarrow> virtaddr \<Rightarrow> ('x) vm_scheme \<Rightarrow> physaddr option" where
  "vmm_translate_a64 as virt s =
     do {
       l1 \<leftarrow> as_root as s;
       let i1 = unat (drop_bit 30 virt AND 0x1FF);
       let i2 = unat (drop_bit 21 virt AND 0x1FF);
       let i3 = unat (drop_bit 12 virt AND 0x1FF);
       let e1 = pt_get (vm_mem s) l1 i1;
       if e1 AND PTE_VALID = 0 \<or> e1 AND PTE_TABLE = 0 then Some 0
       else
         let e2 = pt_get (vm_mem s) (e1 AND ADDR_MASK_a64) i2
         in if e2 AND PTE_VALID = 0 \<or> e2 AND PTE_TABLE = 0 then Some 0
            else
              let e3 = pt_get (vm_mem s) (e2 AND ADDR_MASK_a64) i3
              in if e3 AND PTE_VALID = 0 then Some 0
                 else Some ((e3 AND ADDR_MASK_a64) OR (virt AND 0xFFF))
     }"

definition vmm_switch_a64 :: "aspace \<Rightarrow> ('x) vm_scheme \<Rightarrow> ('x) vm_scheme option" where
  "vmm_switch_a64 as s = do { root \<leftarrow> as_root as s; Some (s\<lparr>root_reg := root, tlb_log := tlb_log s @ [Flush_all]\<rparr>) }"

section \<open>mmu\_boot.c\<close>

record boot_vm = vm +
  mair_el1 :: u64
  tcr_el1 :: u64
  sctlr_el1 :: u64

definition MAIR_DEVICE_NGNRNE :: u64 where "MAIR_DEVICE_NGNRNE = 0x00"
definition MAIR_NORMAL_WB :: u64 where "MAIR_NORMAL_WB = 0xFF"
definition PTE_AP_RW_EL1_ONLY :: u64 where "PTE_AP_RW_EL1_ONLY = push_bit 6 0"
definition PTE_ATTR :: "u64 \<Rightarrow> u64" where "PTE_ATTR idx = push_bit 2 idx"
definition PTE_PXN :: u64 where "PTE_PXN = push_bit 53 1"
definition PTE_UXN :: u64 where "PTE_UXN = push_bit 54 1"

text \<open>The link-time address of the static \<open>boot_l1_table\<close> is the first argument.\<close>

definition aarch64_mmu_init :: "u64 \<Rightarrow> boot_vm \<Rightarrow> boot_vm" where
  "aarch64_mmu_init boot_l1_table s =
     (let s = vm_set boot_l1_table 0 (0x00000000 OR PTE_VALID OR PTE_AF OR PTE_SH_INNER OR PTE_AP_RW_EL1_ONLY
                OR PTE_ATTR MAIR_DEVICE_IDX OR PTE_PXN OR PTE_UXN) s;
          s = vm_set boot_l1_table 1 (0x40000000 OR PTE_VALID OR PTE_AF OR PTE_SH_INNER OR PTE_AP_RW_EL1_ONLY
                OR PTE_ATTR MAIR_NORMAL_IDX) s;
          mair = push_bit (8 * unat MAIR_NORMAL_IDX) MAIR_NORMAL_WB OR push_bit (8 * unat MAIR_DEVICE_IDX) MAIR_DEVICE_NGNRNE;
          tcr = 25 OR push_bit 8 1 OR push_bit 10 1 OR push_bit 12 3 OR push_bit 14 0 OR push_bit 23 1 OR push_bit 32 1
      in s\<lparr>mair_el1 := mair, tcr_el1 := tcr, root_reg := boot_l1_table,
            sctlr_el1 := sctlr_el1 s OR push_bit 0 1 OR push_bit 2 1 OR push_bit 12 1\<rparr>)"

section \<open>The descriptor format\<close>

definition a64_fmt :: pt_format where
  "a64_fmt = \<lparr>pf_present = (\<lambda>e. e AND PTE_VALID \<noteq> 0), pf_block = (\<lambda>e. e AND PTE_VALID \<noteq> 0 \<and> e AND PTE_TABLE = 0),
     pf_mask = ADDR_MASK_a64\<rparr>"

definition a64_new :: "u64 \<Rightarrow> u64 \<Rightarrow> u64" where
  "a64_new flags a = a OR PTE_VALID OR PTE_TABLE"

definition a64_link :: "u64 \<Rightarrow> u64 \<Rightarrow> u64" where
  "a64_link c e = (c AND ADDR_MASK_a64) OR PTE_VALID OR PTE_TABLE"

lemma pte_bits:
  "e AND PTE_VALID = 0 \<longleftrightarrow> \<not> bit e 0" "e AND PTE_TABLE = 0 \<longleftrightarrow> \<not> bit e 1"
  unfolding PTE_VALID_def PTE_TABLE_def by (rule and_push_1; simp)+

lemma bit_pte: "bit PTE_VALID n \<longleftrightarrow> n = 0" "bit PTE_TABLE n \<longleftrightarrow> n = 1" "bit PTE_AF n \<longleftrightarrow> n = 10"
  unfolding PTE_VALID_def PTE_TABLE_def PTE_AF_def bit_push_1 by auto

lemma bit_addr_mask_a64: "bit ADDR_MASK_a64 n \<longleftrightarrow> 12 \<le> n \<and> n < 48"
proof -
  have "ADDR_MASK_a64 = push_bit 12 (mask 36)" by (simp add: ADDR_MASK_a64_def mask_eq_exp_minus_1 push_bit_eq_mult)
  then show ?thesis using bit_field [of 12 36 n] by auto
qed

lemma a64_fmt_bits:
  "pf_present a64_fmt e \<longleftrightarrow> bit e 0" "pf_block a64_fmt e \<longleftrightarrow> bit e 0 \<and> \<not> bit e 1" "child a64_fmt e = e AND ADDR_MASK_a64"
  "is_table a64_fmt e \<longleftrightarrow> bit e 0 \<and> bit e 1"
  by (auto simp: a64_fmt_def pte_bits child_def is_table_def)

lemma mask_small_a64:
  assumes "page_aligned a" "unat a < 2 ^ 48"
  shows "a AND ADDR_MASK_a64 = a"
  by (rule bit_word_eqI) (use small_addr_bits [OF assms] in \<open>force simp: bit_and_iff bit_addr_mask_a64\<close>)

lemma mask_or_a64:
  assumes "\<And>n. bit x n \<Longrightarrow> n < 12"
  shows "(a OR x) AND ADDR_MASK_a64 = a AND ADDR_MASK_a64"
  by (rule bit_word_eqI) (use assms in \<open>force simp: bit_simps bit_addr_mask_a64\<close>)

lemma table_descriptor:
  assumes "page_aligned a" "unat a < 2 ^ 48"
  shows "is_table a64_fmt (a OR PTE_VALID OR PTE_TABLE) \<and> child a64_fmt (a OR PTE_VALID OR PTE_TABLE) = a"
proof -
  have "(a OR (PTE_VALID OR PTE_TABLE)) AND ADDR_MASK_a64 = a AND ADDR_MASK_a64"
    by (rule mask_or_a64) (auto simp: bit_simps bit_pte)
  then show ?thesis using mask_small_a64 [OF assms] by (simp add: a64_fmt_bits or.assoc bit_simps bit_pte)
qed

interpretation a64: paging a64_fmt a64_new "\<lambda>_. None" a64_link
proof unfold_locales
  show "\<not> pf_present a64_fmt 0" "\<not> pf_block a64_fmt 0" by (simp_all add: a64_fmt_bits)
  show "page_aligned (child a64_fmt e)" for e
    by (simp add: page_aligned_bits a64_fmt_bits bit_and_iff bit_addr_mask_a64)
  show "is_table a64_fmt (a64_new fl a) \<and> child a64_fmt (a64_new fl a) = a" if "page_aligned a" "unat a < 2 ^ 48" for fl a
    using table_descriptor [OF that] by (simp add: a64_new_def)
  show "is_table a64_fmt (a64_link a e) \<and> child a64_fmt (a64_link a e) = a" if "page_aligned a" "unat a < 2 ^ 48" for a e
    using table_descriptor [OF that] mask_small_a64 [OF that] by (simp add: a64_link_def)
qed simp_all

section \<open>The operations as operations on trees\<close>

lemma get_or_create_descend_a64:
  "get_or_create_table_a64 t i s = descend a64_fmt (a64_new flags) None t i s"
  by (simp add: get_or_create_table_a64_def descend_def a64_fmt_bits pte_bits a64_new_def Let_def split_def)

definition a64_leaf :: "physaddr \<Rightarrow> u64 \<Rightarrow> u64" where
  "a64_leaf phys flags = (phys AND ADDR_MASK_a64) OR leaf_flags flags"

lemma vmm_map_create_a64:
  "vmm_map_a64 as virt phys flags s =
     (case as_root as s of None \<Rightarrow> None
      | Some root \<Rightarrow>
          let (l3, s) = create a64_fmt (a64_new flags) None 2 root virt s
          in Some (if l3 = 0 \<or> flags AND VMM_PRESENT = 0 then s else vm_set l3 (vidx 0 virt) (a64_leaf phys flags) s))"
  by (simp add: vmm_map_a64_def get_or_create_descend_a64 [where flags = flags] numeral_2_eq_2
      vidx_shifts [unfolded numeral_2_eq_2 One_nat_def, symmetric] a64_leaf_def Let_def split_def split: option.splits)

lemma vmm_translate_lookup_a64:
  "vmm_translate_a64 as virt s =
     (case as_root as s of None \<Rightarrow> None
      | Some root \<Rightarrow> Some (let e = lookup a64_fmt (vm_mem s) 2 root virt
                          in if pf_present a64_fmt e then (e AND ADDR_MASK_a64) OR (virt AND 0xFFF) else 0))"
  by (auto simp: vmm_translate_a64_def numeral_2_eq_2 vidx_shifts [unfolded numeral_2_eq_2 One_nat_def, symmetric]
      a64_fmt_bits pte_bits Let_def lookup_def split: option.splits)

lemma not_absent: "(if \<not> p then x else if p \<and> q then y else z) = (if \<not> p then x else if q then y else z)"
  by simp

lemma clone_table_tree_a64: "clone_table_level_a64 (Suc l) src s = clone_tree a64_fmt a64_link l src s"
proof (induction l arbitrary: src s)
  case 0
  show ?case unfolding clone_table_level_a64.simps(2) clone_tree.simps by (simp add: a64_fmt_bits pte_bits Let_def cong: if_cong)
next
  case (Suc l)
  show ?case unfolding clone_table_level_a64.simps(2) [of "Suc l"] clone_tree.simps Suc
    by (simp add: a64_fmt_bits pte_bits a64_link_def Let_def not_absent cong: if_cong)
qed

lemma free_table_tree_a64: "free_table_level_a64 (Suc l) t s = free_tree a64_fmt l t s"
proof (induction l arbitrary: t s)
  case (Suc l)
  show ?case unfolding free_table_level_a64.simps(2) [of "Suc l"] free_tree.simps Suc
    by (simp add: a64_fmt_bits pte_bits Let_def cong: if_cong)
qed simp

lemma bit_below: "bit (x :: u64) n \<Longrightarrow> unat x < 2 ^ k \<Longrightarrow> n < k"
proof (rule ccontr)
  assume b: "bit x n" and u: "unat x < 2 ^ k" and "\<not> n < k"
  then have "(2 :: nat) ^ k \<le> 2 ^ n" by (intro power_increasing) simp_all
  then have "unat x div 2 ^ n = 0" using u by (intro div_less) linarith
  moreover have "bit (unat x) n" using b by (simp add: bit_unsigned_iff)
  ultimately show False by (simp add: bit_iff_odd)
qed

lemmas pte_defs = PTE_VALID_def PTE_TABLE_def PTE_AF_def PTE_SH_INNER_def PTE_ATTR_NORMAL_def MAIR_NORMAL_IDX_def
  PTE_AP_RW_EL1_def PTE_AP_RW_EL1_EL0_def PTE_AP_RO_EL1_def PTE_AP_RO_EL1_EL0_def

lemma leaf_flags_value:
  "leaf_flags flags =
     (if flags AND VMM_USER \<noteq> 0 then (if flags AND VMM_WRITABLE \<noteq> 0 then 0x747 else 0x7C7)
      else (if flags AND VMM_WRITABLE \<noteq> 0 then 0x707 else 0x787))"
  by (simp add: leaf_flags_def Let_def pte_defs)

lemma leaf_flags_low: "bit (leaf_flags flags) n \<Longrightarrow> n < 12"
  by (erule bit_below) (simp add: leaf_flags_value)

lemma leaf_flags_valid: "bit (leaf_flags flags) 0"
  by (simp add: leaf_flags_value)

lemma a64_leaf_bits:
  "pf_present a64_fmt (a64_leaf phys flags)" "a64_leaf phys flags AND ADDR_MASK_a64 = phys AND ADDR_MASK_a64"
proof -
  show "pf_present a64_fmt (a64_leaf phys flags)"
    using leaf_flags_valid unfolding a64_fmt_bits a64_leaf_def bit_or_iff by simp
  have "a64_leaf phys flags AND ADDR_MASK_a64 = (phys AND ADDR_MASK_a64) AND ADDR_MASK_a64"
    unfolding a64_leaf_def by (rule mask_or_a64) (rule leaf_flags_low)
  then show "a64_leaf phys flags AND ADDR_MASK_a64 = phys AND ADDR_MASK_a64" by (simp add: and.assoc)
qed

lemma a64_leaf_permissions:
  "a64_leaf phys flags AND 0x40 \<noteq> 0 \<longleftrightarrow> flags AND VMM_USER \<noteq> 0"
  "a64_leaf phys flags AND 0x80 \<noteq> 0 \<longleftrightarrow> flags AND VMM_WRITABLE = 0"
proof -
  have m: "ADDR_MASK_a64 AND 0x40 = 0" "ADDR_MASK_a64 AND 0x80 = 0" by (simp_all add: ADDR_MASK_a64_def)
  have "a64_leaf phys flags AND k = leaf_flags flags AND k" if "ADDR_MASK_a64 AND k = 0" for k
    using that by (simp add: a64_leaf_def bit.conj_disj_distrib2 and.assoc)
  then show "a64_leaf phys flags AND 0x40 \<noteq> 0 \<longleftrightarrow> flags AND VMM_USER \<noteq> 0"
    "a64_leaf phys flags AND 0x80 \<noteq> 0 \<longleftrightarrow> flags AND VMM_WRITABLE = 0"
    using m by (simp_all add: leaf_flags_value)
qed

section \<open>Properties\<close>

text \<open>Property C18. Mapping a page and translating is a round trip on aarch64: when no block is in the way and
  the frame allocator can supply the up to two missing tables, \<open>vmm_map\<close> makes every address of that
  page translate to the given physical page plus its offset and leaves every other translation of the
  address space as it was. The page is accessible at EL0 exactly when the caller asked for a user page
  and read-only exactly when the caller did not ask for a writable one.\<close>

theorem vmm_map_translate_a64_ok:
  assumes "as_root as s = Some root" "ready a64_fmt 2 root s" "unblocked a64_fmt (vm_mem s) 2 root virt"
    "2 \<le> card (free_set (vm_pmm s))" "flags AND VMM_PRESENT \<noteq> 0"
  shows "\<exists>s'. vmm_map_a64 as virt phys flags s = Some s' \<and> ready a64_fmt 2 root s'
     \<and> (\<forall>v. vmm_translate_a64 as v s' =
          (if take_bit 27 (drop_bit 12 virt) = take_bit 27 (drop_bit 12 v)
           then Some ((phys AND ADDR_MASK_a64) OR (v AND 0xFFF)) else vmm_translate_a64 as v s))
     \<and> (let e = lookup a64_fmt (vm_mem s') 2 root virt
        in (e AND 0x40 \<noteq> 0 \<longleftrightarrow> flags AND VMM_USER \<noteq> 0) \<and> (e AND 0x80 \<noteq> 0 \<longleftrightarrow> flags AND VMM_WRITABLE = 0))"
proof -
  obtain c s' where c: "create a64_fmt (a64_new flags) None 2 root virt s = (c, s')" "c \<noteq> 0"
    "\<And>v'. lookup a64_fmt (pt_set c (vidx 0 virt) (a64_leaf phys flags) (vm_mem s')) 2 root v' =
        (if same_page 2 virt v' then a64_leaf phys flags else lookup a64_fmt (vm_mem s) 2 root v')"
    "ready a64_fmt 2 root (vm_set c (vidx 0 virt) (a64_leaf phys flags) s')"
    by (rule a64.map_spec [OF assms(2-4), of flags "a64_leaf phys flags"]) blast
  let ?s = "vm_set c (vidx 0 virt) (a64_leaf phys flags) s'"
  have "rest_of s' = rest_of s" using create_rest [of a64_fmt "a64_new flags" None 2 root virt s] c(1) by simp
  then have root: "as_root as ?s = Some root" using as_root_rest [of ?s s as] assms(1) by simp
  have "vmm_map_a64 as virt phys flags s = Some ?s" using c(1,2) assms(1,5) by (simp add: vmm_map_create_a64)
  moreover have "vmm_translate_a64 as v ?s = (if take_bit 27 (drop_bit 12 virt) = take_bit 27 (drop_bit 12 v)
      then Some ((phys AND ADDR_MASK_a64) OR (v AND 0xFFF)) else vmm_translate_a64 as v s)" for v
    using c(3) [of v] root assms(1) a64_leaf_bits [of phys flags] same_page_iff [of 2 virt v]
    by (simp add: vmm_translate_lookup_a64)
  moreover have "lookup a64_fmt (vm_mem ?s) 2 root virt = a64_leaf phys flags" using c(3) [of virt] by (simp add: same_page_def)
  ultimately show ?thesis using c(4) a64_leaf_permissions [of phys flags] by (auto simp: Let_def)
qed

lemma demo_vm_ready_a64:
  "ready a64_fmt 2 0x1000 demo_vm" "unblocked a64_fmt (vm_mem demo_vm) 2 0x1000 v"
proof -
  have z: "pt_get (vm_mem demo_vm) 0x1000 i = 0" for i by (simp add: demo_vm_def zero_mem)
  note e = a64.empty_table [of "0x1000" "vm_mem demo_vm", OF demo_vm_facts(3) _ z]
  show "unblocked a64_fmt (vm_mem demo_vm) 2 0x1000 v" using e by simp
  show "ready a64_fmt 2 0x1000 demo_vm"
    using e(1,2) [of 2] demo_vm_facts(1,4) by (simp add: ready_def in_use_def)
qed

theorem vmm_map_translate_a64_ok_witness:
  "\<exists>s'. vmm_map_a64 Kernel_space 0x80001000 0x7000 VMM_PRESENT demo_vm = Some s'
     \<and> vmm_translate_a64 Kernel_space 0x80001234 s' = Some 0x7234"
proof -
  have f: "VMM_PRESENT AND VMM_PRESENT \<noteq> 0" unfolding flag_bits bit_flags by simp
  have r: "as_root Kernel_space demo_vm = Some 0x1000" by (simp add: as_root_def demo_vm_def)
  have "(0x7000 AND ADDR_MASK_a64) OR (0x80001234 AND 0xFFF) = (0x7234 :: u64)"
    "take_bit 27 (drop_bit 12 0x80001000) = take_bit 27 (drop_bit 12 (0x80001234 :: u64))"
    by (simp_all add: ADDR_MASK_a64_def)
  then show ?thesis
    using vmm_map_translate_a64_ok [OF r demo_vm_ready_a64 _ f, of "0x80001000" "0x7000"] demo_vm_facts(2) by force
qed

text \<open>The boot map of aarch64: from a zeroed table, \<open>aarch64_mmu_init\<close> and \<open>vmm_init\<close> leave a
  kernel address space in which the first two gigabytes are identity-mapped by two block descriptors
  (privileged only; the device range not executable), nothing else is mapped, and the MMU is on; a
  request to map a page inside the blocks is ignored without changing any state.\<close>

theorem aarch64_boot_map:
  assumes "page_aligned t" "t \<noteq> 0" "unat t < 2 ^ 48" "\<forall>i < 512. pt_get (vm_mem s) t i = 0"
  defines "s' \<equiv> vmm_init_a64 (aarch64_mmu_init t s)"
  shows "as_root vmm_kernel_space_a64 s' = Some t \<and> wf_tables a64_fmt (vm_mem s') 2 t
     \<and> (\<forall>i < 512. let e = pt_get (vm_mem s') t i
          in (pf_block a64_fmt e \<longleftrightarrow> i < 2) \<and> \<not> is_table a64_fmt e
             \<and> (i < 2 \<longrightarrow> e AND ADDR_MASK_a64 = of_nat i * 0x40000000 \<and> e AND 0x40 = 0))
     \<and> bit (sctlr_el1 s') 0
     \<and> (unat virt < 2 ^ 31 \<longrightarrow> vmm_map_a64 vmm_kernel_space_a64 virt phys flags s' = Some s')"
proof -
  let ?e0 = "0x60000000000701 :: u64" and ?e1 = "0x40000705 :: u64"
  have mem: "vm_mem s' = pt_set t 1 ?e1 (pt_set t 0 ?e0 (vm_mem s))"
    by (simp add: s'_def vmm_init_a64_def aarch64_mmu_init_def Let_def vm_set_def pte_defs PTE_AP_RW_EL1_ONLY_def
        PTE_ATTR_def MAIR_DEVICE_IDX_def PTE_PXN_def PTE_UXN_def)
  have ent: "pt_get (vm_mem s') t i = (if i = 0 then ?e0 else if i = 1 then ?e1 else 0)" if "i < 512" for i
    using that assms(1,4) unfolding mem by simp
  have nt: "\<not> is_table a64_fmt (pt_get (vm_mem s') t i)" if "i < 512" for i
    using ent [OF that] by (simp add: is_table_def a64_fmt_def pte_defs)
  have root: "as_root vmm_kernel_space_a64 s' = Some t"
    using mask_small_a64 [OF assms(1,3)]
    by (simp add: s'_def as_root_def vmm_kernel_space_a64_def vmm_init_a64_def aarch64_mmu_init_def Let_def)
  moreover have "wf_tables a64_fmt (vm_mem s') 2 t" unfolding numeral_2_eq_2 using nt assms(1,2) by (intro wf_SucI) auto
  moreover have "let e = pt_get (vm_mem s') t i
          in (pf_block a64_fmt e \<longleftrightarrow> i < 2) \<and> \<not> is_table a64_fmt e
             \<and> (i < 2 \<longrightarrow> e AND ADDR_MASK_a64 = of_nat i * 0x40000000 \<and> e AND 0x40 = 0)" if "i < 512" for i
    using ent [OF that] nt [OF that] by (auto simp: a64_fmt_def pte_defs ADDR_MASK_a64_def less_2_cases_iff)
  moreover have "bit (sctlr_el1 s') 0" by (simp add: s'_def vmm_init_a64_def aarch64_mmu_init_def Let_def bit_or_iff)
  moreover have "vmm_map_a64 vmm_kernel_space_a64 virt phys flags s' = Some s'" if v: "unat virt < 2 ^ 31"
  proof -
    have "unat (drop_bit 30 virt) < 2" using v by (simp add: drop_bit_eq_div unat_div)
    moreover have "vidx 2 virt \<le> unat (drop_bit 30 virt)" unfolding vidx_shifts
      by (simp add: word_le_nat_alt [symmetric] word_and_le2)
    ultimately have "vidx 2 virt < 2" by simp
    then have "get_or_create_table_a64 t (vidx 2 virt) s' = (0, s')"
      using ent [OF vidx_lt] by (auto simp: get_or_create_table_a64_def pte_defs less_2_cases_iff)
    then show ?thesis using root by (simp add: vmm_map_a64_def vidx_shifts)
  qed
  ultimately show ?thesis by blast
qed

theorem aarch64_boot_map_witness:
  "let s' = vmm_init_a64 (aarch64_mmu_init 0x40080000 \<lparr>vm_mem = (\<lambda>_. 0), vm_heap = demo_heap, kernel_root = 0, root_reg = 0,
      as_at = (\<lambda>_. None), tlb_log = [], mair_el1 = 0, tcr_el1 = 0, sctlr_el1 = 0\<rparr>)
   in vmm_map_a64 vmm_kernel_space_a64 0x50000000 0x7000 VMM_PRESENT s' = Some s'"
proof -
  let ?s = "\<lparr>vm_mem = (\<lambda>_. 0), vm_heap = demo_heap, kernel_root = 0, root_reg = 0,
      as_at = (\<lambda>_. None), tlb_log = [], mair_el1 = 0, tcr_el1 = 0, sctlr_el1 = 0\<rparr>"
  have "page_aligned 0x40080000" "unat (0x40080000 :: u64) < 2 ^ 48" "unat (0x50000000 :: u64) < 2 ^ 31"
    by (simp_all add: page_aligned_def)
  moreover have "\<forall>i < 512. pt_get (vm_mem ?s) 0x40080000 i = 0" by (simp add: zero_mem)
  ultimately show ?thesis using aarch64_boot_map [of "0x40080000" ?s "0x50000000" "0x7000" VMM_PRESENT] by (simp add: Let_def)
qed

end
