(* ===== verification/Loader.thy ===== *)
theory Loader
  imports Vmm_a64
begin

text \<open>
  The ELF loader shared by \<^verbatim>\<open>arch/x86_64/process.c\<close> and \<^verbatim>\<open>arch/aarch64/process.c\<close>. Up to the machine number the
  two files contain the same loader text; they differ in the virtual memory manager they call. The
  definitions take its two operations as arguments. The loader is then shown to refine an operation on
  a map from virtual addresses to bytes. The headers of the image are read once, at the place where
  the code first uses them.
\<close>

section \<open>ELF headers\<close>

record elf64_ehdr =
  e_ident :: "u8 list"
  e_type :: u16
  e_machine :: u16
  e_version :: u32
  e_entry :: u64
  e_phoff :: u64
  e_shoff :: u64
  e_flags :: u32
  e_ehsize :: u16
  e_phentsize :: u16
  e_phnum :: u16
  e_shentsize :: u16
  e_shnum :: u16
  e_shstrndx :: u16

record elf64_phdr =
  p_type :: u32
  p_flags :: u32
  p_offset :: u64
  p_vaddr :: u64
  p_paddr :: u64
  p_filesz :: u64
  p_memsz :: u64
  p_align :: u64

definition read_ehdr :: "mem \<Rightarrow> u64 \<Rightarrow> elf64_ehdr" where
  "read_ehdr m p = \<lparr>e_ident = load_bytes 16 m p, e_type = load16 m (p + 16), e_machine = load16 m (p + 18), e_version = load32 m (p + 20),
     e_entry = load64 m (p + 24), e_phoff = load64 m (p + 32), e_shoff = load64 m (p + 40), e_flags = load32 m (p + 48),
     e_ehsize = load16 m (p + 52), e_phentsize = load16 m (p + 54), e_phnum = load16 m (p + 56), e_shentsize = load16 m (p + 58),
     e_shnum = load16 m (p + 60), e_shstrndx = load16 m (p + 62)\<rparr>"

definition read_phdr :: "mem \<Rightarrow> u64 \<Rightarrow> elf64_phdr" where
  "read_phdr m p = \<lparr>p_type = load32 m p, p_flags = load32 m (p + 4), p_offset = load64 m (p + 8), p_vaddr = load64 m (p + 16),
     p_paddr = load64 m (p + 24), p_filesz = load64 m (p + 32), p_memsz = load64 m (p + 40), p_align = load64 m (p + 48)\<rparr>"

definition PAGE_SIZE :: u64 where "PAGE_SIZE = 0x1000"
definition USER_STACK_PAGES :: nat where "USER_STACK_PAGES = 4"
definition PT_LOAD :: u32 where "PT_LOAD = 1"
definition ELFCLASS64 :: u8 where "ELFCLASS64 = 2"
definition EM_X86_64 :: u16 where "EM_X86_64 = 62"
definition EM_AARCH64 :: u16 where "EM_AARCH64 = 183"
definition PF_W :: u32 where "PF_W = 2"
definition sizeof_ehdr :: usize where "sizeof_ehdr = 64"

definition elf_valid :: "u16 \<Rightarrow> elf64_ehdr \<Rightarrow> usize \<Rightarrow> bool" where
  "elf_valid machine eh sz =
     (if sz < sizeof_ehdr then False
      else if e_ident eh ! 0 \<noteq> 0x7F \<or> e_ident eh ! 1 \<noteq> 69 \<or> e_ident eh ! 2 \<noteq> 76 \<or> e_ident eh ! 3 \<noteq> 70 then False
      else if e_ident eh ! 4 \<noteq> ELFCLASS64 then False
      else if e_machine eh \<noteq> machine then False
      else True)"

section \<open>Segments\<close>

definition zero_frame :: "u64 \<Rightarrow> mem \<Rightarrow> mem" where
  "zero_frame p m = fold (\<lambda>b m. m(p + of_nat b := 0)) [0..<4096] m"

type_synonym 's map_op = "aspace \<Rightarrow> virtaddr \<Rightarrow> physaddr \<Rightarrow> u64 \<Rightarrow> 's \<Rightarrow> 's option"
type_synonym 's xlate_op = "aspace \<Rightarrow> virtaddr \<Rightarrow> 's \<Rightarrow> physaddr option"

partial_function (option) load_pages :: "('x) vm_scheme map_op \<Rightarrow> aspace \<Rightarrow> u64 \<Rightarrow> u64 \<Rightarrow> u64 \<Rightarrow> ('x) vm_scheme \<Rightarrow> ('x) vm_scheme option" where
  "load_pages map_page as va vend seg_flags s =
     (if va < vend then
        let (frame, s) = vm_alloc s;
            s = s\<lparr>vm_mem := zero_frame frame (vm_mem s)\<rparr>
        in do { s \<leftarrow> map_page as va frame seg_flags s; load_pages map_page as (va + PAGE_SIZE) vend seg_flags s }
      else Some s)"

text \<open>The bytes \<open>off, \<dots>, off + k - 1\<close> of a segment, from \<open>src\<close> on.\<close>

primrec copy_segment :: "('x) vm_scheme xlate_op \<Rightarrow> aspace \<Rightarrow> nat \<Rightarrow> u64 \<Rightarrow> u64 \<Rightarrow> u64 \<Rightarrow> ('x) vm_scheme \<Rightarrow> ('x) vm_scheme option" where
  "copy_segment xlate as 0 off vaddr src s = Some s"
| "copy_segment xlate as (Suc k) off vaddr src s =
     do {
       pa \<leftarrow> xlate as (vaddr + off) s;
       copy_segment xlate as k (off + 1) vaddr src (s\<lparr>vm_mem := (vm_mem s)(pa := vm_mem s (src + off))\<rparr>)
     }"

definition load_segment :: "('x) vm_scheme map_op \<Rightarrow> ('x) vm_scheme xlate_op \<Rightarrow> aspace \<Rightarrow> u64 \<Rightarrow> elf64_phdr \<Rightarrow>
    ('x) vm_scheme \<Rightarrow> ('x) vm_scheme option" where
  "load_segment map_page xlate as base ph s =
     (if p_type ph \<noteq> PT_LOAD then Some s
      else
        let vstart = ALIGN_DOWN (p_vaddr ph) PAGE_SIZE;
            vend = ALIGN_UP (p_vaddr ph + p_memsz ph) PAGE_SIZE;
            seg_flags = VMM_PRESENT OR VMM_USER;
            seg_flags = (if p_flags ph AND PF_W \<noteq> 0 then seg_flags OR VMM_WRITABLE else seg_flags)
        in do {
             s \<leftarrow> load_pages map_page as vstart vend seg_flags s;
             copy_segment xlate as (unat (p_filesz ph)) 0 (p_vaddr ph) (base + p_offset ph) s
           })"

text \<open>The program headers \<open>i, \<dots>, i + k - 1\<close>.\<close>

primrec load_segments :: "('x) vm_scheme map_op \<Rightarrow> ('x) vm_scheme xlate_op \<Rightarrow> aspace \<Rightarrow> nat \<Rightarrow> nat \<Rightarrow> u64 \<Rightarrow> u64 \<Rightarrow>
    ('x) vm_scheme \<Rightarrow> ('x) vm_scheme option" where
  "load_segments map_page xlate as 0 i base phoff s = Some s"
| "load_segments map_page xlate as (Suc k) i base phoff s =
     do {
       s \<leftarrow> load_segment map_page xlate as base (read_phdr (vm_mem s) (base + phoff + 56 * of_nat i)) s;
       load_segments map_page xlate as k (i + 1) base phoff s
     }"

primrec map_stack :: "('x) vm_scheme map_op \<Rightarrow> aspace \<Rightarrow> u64 \<Rightarrow> nat \<Rightarrow> nat \<Rightarrow> ('x) vm_scheme \<Rightarrow> ('x) vm_scheme option" where
  "map_stack map_page as stack_top 0 i s = Some s"
| "map_stack map_page as stack_top (Suc k) i s =
     (let (frame, s) = vm_alloc s
      in do {
           s \<leftarrow> map_page as (stack_top - of_nat (i + 1) * PAGE_SIZE) frame (VMM_PRESENT OR VMM_WRITABLE OR VMM_USER) s;
           map_stack map_page as stack_top k (i + 1) s
         })"

definition load_image :: "('x) vm_scheme map_op \<Rightarrow> ('x) vm_scheme xlate_op \<Rightarrow> u64 \<Rightarrow> aspace \<Rightarrow> u64 \<Rightarrow> elf64_ehdr \<Rightarrow>
    ('x) vm_scheme \<Rightarrow> ('x) vm_scheme option" where
  "load_image map_page xlate stack_top as base eh s =
     do {
       s \<leftarrow> load_segments map_page xlate as (unat (e_phnum eh)) 0 base (e_phoff eh) s;
       map_stack map_page as stack_top USER_STACK_PAGES 0 s
     }"

section \<open>Pages as bytes\<close>

lemma word_bytes_bytes:
  assumes "LENGTH('a::len) = 8 * n" "length bs = n"
  shows "word_bytes n (bytes_word bs :: 'a word) = bs"
proof (rule nth_equalityI)
  fix i assume "i < length (word_bytes n (bytes_word bs :: 'a word))"
  then have i: "i < n" by simp
  show "word_bytes n (bytes_word bs :: 'a word) ! i = bs ! i"
  proof (rule bit_word_eqI)
    fix k assume "k < LENGTH(8)"
    then have k: "k < 8" "(8 * i + k) div 8 = i" "(8 * i + k) mod 8 = k" "8 * i + k < 8 * n" using i by auto
    then show "bit (word_bytes n (bytes_word bs :: 'a word) ! i) k = bit (bs ! i) k"
      using i assms by (simp add: word_bytes_def bit_simps bit_bytes_word add.commute)
  qed
qed (simp add: assms)

lemma load64_bytes:
  assumes "load64 m' a = load64 m a"
  shows "load_bytes 8 m' a = load_bytes 8 m a"
proof -
  have w: "word_bytes 8 (load64 m a) = load_bytes 8 m a" for m
    unfolding load64_def by (rule word_bytes_bytes) simp_all
  show ?thesis using w [of m'] w [of m] unfolding assms by (rule trans [OF sym])
qed

lemma unat_in_page:
  assumes "page_aligned t" "r < 4096"
  shows "unat (t + of_nat r) = unat t + r" "frame_no (t + of_nat r) = frame_no t"
proof -
  obtain q where q: "unat t = 4096 * q" using assms(1) by (auto simp: page_aligned_def elim: dvdE)
  have "4096 * q < 2 ^ 64" using u64_lt [of t] q by simp
  then have "q < 2 ^ 52" by simp
  then have lt: "unat t + r < 2 ^ 64" using q assms(2) by simp
  have "unat (of_nat r :: u64) = r" using assms(2) by (simp add: unat_of_nat_eq)
  then show u: "unat (t + of_nat r) = unat t + r" using lt by (simp add: unat_plus_simple)
  show "frame_no (t + of_nat r) = frame_no t" using assms(2) by (simp add: u q)
qed

lemma page_offset:
  assumes "page_aligned t" "frame_no x = frame_no t"
  shows "x = t + of_nat (unat x mod 4096)" "unat x mod 4096 < 4096"
proof -
  have "unat t = frame_no t * 4096" using assms(1) by (auto simp: page_aligned_def)
  then have "unat x = unat t + unat x mod 4096" using assms(2) by (metis div_mult_mod_eq)
  then have "unat x = unat (t + of_nat (unat x mod 4096))" using unat_in_page(1) [OF assms(1)] by simp
  then show "x = t + of_nat (unat x mod 4096)" by (simp only: word_unat_eq_iff)
qed simp

lemma page_interval:
  assumes "4096 dvd unat (va :: u64)"
  shows "frame_no w = frame_no va \<longleftrightarrow> unat va \<le> unat w \<and> unat w < unat va + 4096"
proof -
  obtain q where q: "unat va = 4096 * q" using assms by (elim dvdE)
  have "unat w div 4096 = q \<longleftrightarrow> 4096 * q \<le> unat w \<and> unat w < 4096 * q + 4096"
    by (auto simp: div_nat_eqI)
  then show ?thesis by (simp add: q)
qed

lemma page_words:
  assumes "page_aligned t"
  shows "(\<forall>i < 512. pt_get m' t i = pt_get m t i) \<longleftrightarrow> (\<forall>x. frame_no x = frame_no t \<longrightarrow> m' x = m x)"
proof
  assume w: "\<forall>i < 512. pt_get m' t i = pt_get m t i"
  show "\<forall>x. frame_no x = frame_no t \<longrightarrow> m' x = m x"
  proof (intro allI impI)
    fix x assume x: "frame_no x = frame_no t"
    let ?r = "unat x mod 4096"
    have "load_bytes 8 m' (entry_addr t (?r div 8)) = load_bytes 8 m (entry_addr t (?r div 8))"
      using w by (intro load64_bytes) (simp add: pt_get_def)
    then have "load_bytes 8 m' (entry_addr t (?r div 8)) ! (?r mod 8) = load_bytes 8 m (entry_addr t (?r div 8)) ! (?r mod 8)" by simp
    moreover have "entry_addr t (?r div 8) + of_nat (?r mod 8) = t + of_nat (8 * (?r div 8) + ?r mod 8)"
      unfolding entry_addr_def of_nat_add by (simp add: add.assoc del: mult_div_mod_eq)
    ultimately have "m' (t + of_nat ?r) = m (t + of_nat ?r)" by (simp add: load_bytes_def)
    then show "m' x = m x" using page_offset(1) [OF assms x] by simp
  qed
next
  assume b: "\<forall>x. frame_no x = frame_no t \<longrightarrow> m' x = m x"
  show "\<forall>i < 512. pt_get m' t i = pt_get m t i"
  proof (intro allI impI)
    fix i assume i: "i < (512 :: nat)"
    have "m' (t + of_nat (8 * i + j)) = m (t + of_nat (8 * i + j))" if "j < 8" for j
      using b unat_in_page(2) [OF assms, of "8 * i + j"] i that by (simp del: of_nat_add)
    then have "load_bytes 8 m' (entry_addr t i) = load_bytes 8 m (entry_addr t i)"
      by (intro nth_equalityI) (simp_all add: load_bytes_def entry_addr_def add.assoc)
    then show "pt_get m' t i = pt_get m t i" by (simp add: pt_get_def load64_def)
  qed
qed

lemma zero_frame_bytes:
  assumes "page_aligned a"
  shows "zero_frame a m x = (if frame_no x = frame_no a then 0 else m x)"
proof -
  have "fold (\<lambda>b m. m(a + of_nat b := 0)) [0..<n] m x = (if \<exists>b < n. x = a + of_nat b then 0 else m x)" for n
    by (induction n) (auto simp: less_Suc_eq)
  moreover have "(\<exists>b < 4096. x = a + of_nat b) \<longleftrightarrow> frame_no x = frame_no a"
    using unat_in_page(2) [OF assms] page_offset [OF assms, of x] by metis
  ultimately show ?thesis by (simp add: zero_frame_def)
qed

section \<open>What the loader needs of a virtual memory manager\<close>

text \<open>\<open>good\<close> address spaces have well-formed tables, in the frames \<open>tframes\<close>; \<open>room\<close> says that no huge page
  is in the way of mapping an address; \<open>depth\<close> tables may be missing below the root.\<close>

locale user_space =
  fixes map_page :: "('x) vm_scheme map_op"
    and xlate :: "('x) vm_scheme xlate_op"
    and good :: "aspace \<Rightarrow> ('x) vm_scheme \<Rightarrow> bool"
    and tframes :: "aspace \<Rightarrow> ('x) vm_scheme \<Rightarrow> nat set"
    and room :: "aspace \<Rightarrow> ('x) vm_scheme \<Rightarrow> u64 \<Rightarrow> bool"
    and depth vbits :: nat
  assumes vbits: "12 \<le> vbits" "vbits \<le> 48"
    and good_frames: "good as s \<Longrightarrow> phys_ok (vm_pmm s) \<and> tframes as s \<inter> free_set (vm_pmm s) = {}"
    and good_mem: "good as s \<Longrightarrow> (\<And>x. frame_no x \<in> tframes as s \<Longrightarrow> m' x = vm_mem s x) \<Longrightarrow>
       good as (s\<lparr>vm_mem := m'\<rparr>) \<and> tframes as (s\<lparr>vm_mem := m'\<rparr>) = tframes as s
       \<and> xlate as v (s\<lparr>vm_mem := m'\<rparr>) = xlate as v s \<and> room as (s\<lparr>vm_mem := m'\<rparr>) v = room as s v"
    and good_alloc: "good as s \<Longrightarrow> vm_alloc s = (a, s') \<Longrightarrow>
       good as s' \<and> tframes as s' = tframes as s \<and> xlate as v s' = xlate as v s \<and> room as s' v = room as s v"
    and map_ok: "good as s \<Longrightarrow> room as s v \<Longrightarrow> depth \<le> card (free_set (vm_pmm s)) \<Longrightarrow> flags AND VMM_PRESENT \<noteq> 0 \<Longrightarrow>
       page_aligned a \<Longrightarrow> unat a < 2 ^ 48 \<Longrightarrow> unat v < 2 ^ vbits \<Longrightarrow>
       \<exists>s'. map_page as v a flags s = Some s' \<and> good as s'
         \<and> (\<forall>v'. unat v' < 2 ^ vbits \<longrightarrow>
               xlate as v' s' = (if frame_no v' = frame_no v then Some (a + of_nat (unat v' mod 4096)) else xlate as v' s))
         \<and> (\<forall>v'. room as s v' \<longrightarrow> room as s' v')
         \<and> free_set (vm_pmm s') \<subseteq> free_set (vm_pmm s) \<and> card (free_set (vm_pmm s)) \<le> depth + card (free_set (vm_pmm s'))
         \<and> tframes as s' \<subseteq> tframes as s \<union> free_set (vm_pmm s)
         \<and> (\<forall>x. frame_no x \<notin> tframes as s \<longrightarrow> frame_no x \<notin> free_set (vm_pmm s) \<longrightarrow> vm_mem s' x = vm_mem s x)
         \<and> rest_of s' = rest_of s"

text \<open>The pages that the loader has mapped so far, by page number, and the bytes in them.\<close>

definition user_byte :: "(nat \<rightharpoonup> u64) \<Rightarrow> ('x) vm_scheme \<Rightarrow> u64 \<rightharpoonup> u8" where
  "user_byte D s v = map_option (\<lambda>a. vm_mem s (a + of_nat (unat v mod 4096))) (D (frame_no v))"

context user_space
begin

text \<open>\<open>X\<close> are frames that the loader must not touch: those of the image.\<close>

definition pages_ok :: "aspace \<Rightarrow> nat set \<Rightarrow> (nat \<rightharpoonup> u64) \<Rightarrow> ('x) vm_scheme \<Rightarrow> bool" where
  "pages_ok as X D s \<longleftrightarrow> good as s \<and> X \<inter> free_set (vm_pmm s) = {} \<and> X \<inter> tframes as s = {}
     \<and> (\<forall>p a. D p = Some a \<longrightarrow> page_aligned a \<and> a \<noteq> 0
          \<and> frame_no a \<notin> free_set (vm_pmm s) \<and> frame_no a \<notin> tframes as s \<and> frame_no a \<notin> X
          \<and> (\<forall>v. unat v < 2 ^ vbits \<longrightarrow> frame_no v = p \<longrightarrow> xlate as v s = Some (a + of_nat (unat v mod 4096))))
     \<and> (\<forall>p q a. D p = Some a \<longrightarrow> D q = Some a \<longrightarrow> p = q)"

lemma pages_okD:
  assumes "pages_ok as X D s" "D p = Some a"
  shows "page_aligned a" "a \<noteq> 0" "frame_no a \<notin> free_set (vm_pmm s)" "frame_no a \<notin> tframes as s" "frame_no a \<notin> X"
    "unat v < 2 ^ vbits \<Longrightarrow> frame_no v = p \<Longrightarrow> xlate as v s = Some (a + of_nat (unat v mod 4096))"
    "D q = Some a \<Longrightarrow> q = p"
  using assms unfolding pages_ok_def by blast+

lemma copy_step:
  fixes b :: u8
  assumes ok: "pages_ok as X D s" and D: "D (frame_no v) = Some a" and v: "unat v < 2 ^ vbits"
  defines "pa \<equiv> a + of_nat (unat v mod 4096)"
  defines "s' \<equiv> s\<lparr>vm_mem := (vm_mem s)(pa := b)\<rparr>"
  shows "xlate as v s = Some pa" "pages_ok as X D s'" "user_byte D s' = (user_byte D s)(v \<mapsto> b)"
    "\<And>x. frame_no x \<in> X \<Longrightarrow> vm_mem s' x = vm_mem s x" "room as s' w = room as s w" "xlate as w s' = xlate as w s"
    "vm_heap s' = vm_heap s" "rest_of s' = rest_of s"
proof -
  note a = pages_okD [OF ok D]
  show "xlate as v s = Some pa" using a(6) [OF v] by (simp add: pa_def)
  have fr: "frame_no pa = frame_no a" using unat_in_page(2) [OF a(1)] by (simp add: pa_def)
  have g: "good as s" using ok by (simp add: pages_ok_def)
  have "((vm_mem s)(pa := b)) x = vm_mem s x" if "frame_no x \<in> tframes as s" for x using that a(4) fr by auto
  note gm = good_mem [OF g this, folded s'_def]
  have gs: "good as s'" "tframes as s' = tframes as s" "\<And>w. xlate as w s' = xlate as w s" "\<And>w. room as s' w = room as s w" using gm by blast+
  have hp: "vm_heap s' = vm_heap s" by (simp add: s'_def)
  show "pages_ok as X D s'" using ok gs(1) unfolding pages_ok_def gs(2,3) hp by blast
  show "vm_mem s' x = vm_mem s x" if "frame_no x \<in> X" for x using that a(5) fr by (auto simp: s'_def)
  show "room as s' w = room as s w" "xlate as w s' = xlate as w s" using gs(3,4) by blast+
  show "vm_heap s' = vm_heap s" "rest_of s' = rest_of s" by (simp_all add: s'_def rest_of_def)
  have "user_byte D s' w = ((user_byte D s)(v \<mapsto> b)) w" for w
  proof (cases "w = v")
    case True
    have "vm_mem s' pa = b" by (simp add: s'_def)
    then show ?thesis using D True by (simp add: user_byte_def pa_def)
  next
    case False
    have "c + of_nat (unat w mod 4096) \<noteq> pa" if c: "D (frame_no w) = Some c" for c
    proof
      assume e: "c + of_nat (unat w mod 4096) = pa"
      note ca = pages_okD(1) [OF ok c]
      have "frame_no c = frame_no a" using unat_in_page(2) [OF ca, of "unat w mod 4096"] e fr by simp
      then have "c = a" using frame_no_inj [OF ca a(1)] by simp
      then have "frame_no w = frame_no v" using a(7) c by blast
      moreover have "unat a + unat w mod 4096 = unat a + unat v mod 4096"
        using unat_in_page(1) [OF a(1), of "unat w mod 4096"] unat_in_page(1) [OF a(1), of "unat v mod 4096"] e
        unfolding \<open>c = a\<close> pa_def by (metis mod_less_divisor zero_less_numeral)
      ultimately have "unat w = unat v" by (metis div_mult_mod_eq add_left_cancel)
      with False show False by (simp add: word_unat_eq_iff)
    qed
    then show ?thesis using False by (cases "D (frame_no w)") (simp_all add: user_byte_def s'_def)
  qed
  then show "user_byte D s' = (user_byte D s)(v \<mapsto> b)" by blast
qed

text \<open>Mapping a fresh frame, prepared by \<open>prep\<close>.\<close>

lemma page_step:
  assumes ok: "pages_ok as X D s" and v: "room as s v" "unat v < 2 ^ vbits" and fl: "flags AND VMM_PRESENT \<noteq> 0"
    and n: "depth < card (free_set (vm_pmm s))" and prep: "\<And>a m x. page_aligned a \<Longrightarrow> frame_no x \<noteq> frame_no a \<Longrightarrow> prep a m x = m x"
  obtains a s1 s' where "vm_alloc s = (a, s1)" "map_page as v a flags (s1\<lparr>vm_mem := prep a (vm_mem s1)\<rparr>) = Some s'"
    "pages_ok as X (D(frame_no v \<mapsto> a)) s'"
    "user_byte (D(frame_no v \<mapsto> a)) s' = (\<lambda>w. if frame_no w = frame_no v then Some (prep a (vm_mem s) (a + of_nat (unat w mod 4096))) else user_byte D s w)"
    "\<And>x. frame_no x \<in> X \<Longrightarrow> vm_mem s' x = vm_mem s x" "\<And>w. room as s w \<Longrightarrow> room as s' w"
    "\<And>w. unat w < 2 ^ vbits \<Longrightarrow> frame_no w \<noteq> frame_no v \<Longrightarrow> xlate as w s' = xlate as w s"
    "free_set (vm_pmm s') \<subseteq> free_set (vm_pmm s)" "card (free_set (vm_pmm s)) \<le> Suc depth + card (free_set (vm_pmm s'))"
    "rest_of s' = rest_of s"
proof -
  have g: "good as s" and X: "X \<inter> free_set (vm_pmm s) = {}" "X \<inter> tframes as s = {}" using ok by (simp_all add: pages_ok_def)
  have ph: "phys_ok (vm_pmm s)" and tf: "tframes as s \<inter> free_set (vm_pmm s) = {}" using good_frames [OF g] by simp_all
  have "free_set (vm_pmm s) \<noteq> {}" using n by auto
  from vm_alloc_cases [OF ph this] obtain a s1 where a: "vm_alloc s = (a, s1)" "a \<noteq> 0" "page_aligned a" "unat a < 2 ^ 48" "frame_no a \<in> free_set (vm_pmm s)"
    "phys_ok (vm_pmm s1)" "free_set (vm_pmm s1) = free_set (vm_pmm s) - {frame_no a}" "vm_mem s1 = vm_mem s" by blast
  have r1: "rest_of s1 = rest_of s" using a(1) by (auto simp: vm_alloc_def case_prod_beta rest_of_def)
  note g1 = good_alloc [OF g a(1)]
  let ?m = "prep a (vm_mem s1)"
  define s2 where "s2 = s1\<lparr>vm_mem := ?m\<rparr>"
  have zm: "?m x = vm_mem s x" if "frame_no x \<noteq> frame_no a" for x using that a(3,8) prep by simp
  have "?m x = vm_mem s1 x" if "frame_no x \<in> tframes as s1" for x
  proof -
    have "frame_no x \<noteq> frame_no a" using that g1 tf a(5) by (metis disjoint_iff)
    then show ?thesis using zm a(8) by simp
  qed
  note g2 = good_mem [OF conjunct1 [OF g1] this, folded s2_def]
  have c2: "depth \<le> card (free_set (vm_pmm s2))" "free_set (vm_pmm s2) = free_set (vm_pmm s) - {frame_no a}" "vm_pmm s2 = vm_pmm s1"
    using n a(5,7) by (simp_all add: s2_def)
  have "room as s2 v" using g2 g1 v(1) by simp
  from map_ok [OF conjunct1 [OF g2] this c2(1) fl a(3,4) v(2)] obtain s' where s': "map_page as v a flags s2 = Some s'" "good as s'"
    "\<And>w. unat w < 2 ^ vbits \<Longrightarrow> xlate as w s' = (if frame_no w = frame_no v then Some (a + of_nat (unat w mod 4096)) else xlate as w s2)"
    "\<And>w. room as s2 w \<Longrightarrow> room as s' w" "free_set (vm_pmm s') \<subseteq> free_set (vm_pmm s2)" "card (free_set (vm_pmm s2)) \<le> depth + card (free_set (vm_pmm s'))"
    "tframes as s' \<subseteq> tframes as s2 \<union> free_set (vm_pmm s2)"
    "\<And>x. frame_no x \<notin> tframes as s2 \<Longrightarrow> frame_no x \<notin> free_set (vm_pmm s2) \<Longrightarrow> vm_mem s' x = vm_mem s2 x" "rest_of s' = rest_of s2"
    by blast
  have T2: "tframes as s2 = tframes as s" using g1 g2 by simp
  have fresh: "frame_no a \<notin> tframes as s'" "frame_no a \<notin> free_set (vm_pmm s')" "frame_no a \<notin> X"
    using s'(5,7) T2 tf c2(2) a(5) X(1) by blast+
  have kept: "vm_mem s' x = vm_mem s x" if "frame_no x \<notin> tframes as s" "frame_no x \<notin> free_set (vm_pmm s)" for x
  proof -
    have "frame_no x \<noteq> frame_no a" using that a(5) by metis
    then show ?thesis using s'(8) [of x] zm [of x] that T2 c2(2) by (simp add: s2_def)
  qed
  have zero: "vm_mem s' (a + of_nat r) = prep a (vm_mem s) (a + of_nat r)" if "r < 4096" for r
  proof -
    have "frame_no a \<notin> tframes as s2" "frame_no a \<notin> free_set (vm_pmm s2)" using T2 tf c2(2) a(5) by auto
    then have "vm_mem s' (a + of_nat r) = vm_mem s2 (a + of_nat r)" using s'(8) unat_in_page(2) [OF a(3) that] by simp
    then show ?thesis by (simp add: s2_def a(8))
  qed
  have old: "page_aligned c \<and> c \<noteq> 0 \<and> frame_no c \<notin> free_set (vm_pmm s') \<and> frame_no c \<notin> tframes as s' \<and> frame_no c \<notin> X \<and> c \<noteq> a"
    if "D p = Some c" for p c
    using pages_okD [OF ok that] s'(5,7) T2 c2(2) a(5) by blast
  have xl: "xlate as w s' = xlate as w s" if "unat w < 2 ^ vbits" "frame_no w \<noteq> frame_no v" for w
    using s'(3) [OF that(1)] that(2) g1 g2 by simp
  have "pages_ok as X (D(frame_no v \<mapsto> a)) s'"
    unfolding pages_ok_def
  proof (intro conjI allI impI)
    show "good as s'" by (rule s'(2))
    show "X \<inter> free_set (vm_pmm s') = {}" "X \<inter> tframes as s' = {}" using X s'(5,7) T2 c2(2) by blast+
  next
    fix p c assume "(D(frame_no v \<mapsto> a)) p = Some c"
    then have c: "p = frame_no v \<and> c = a \<or> p \<noteq> frame_no v \<and> D p = Some c" by (auto split: if_splits)
    then show "page_aligned c" "c \<noteq> 0" "frame_no c \<notin> free_set (vm_pmm s')" "frame_no c \<notin> tframes as s'" "frame_no c \<notin> X"
      using old [of p c] a(2,3) fresh by blast+
    fix w assume w: "unat w < 2 ^ vbits" "frame_no w = p"
    then show "xlate as w s' = Some (c + of_nat (unat w mod 4096))"
      using c s'(3) [OF w(1)] xl [OF w(1)] pages_okD(6) [OF ok _ w(1)] by auto
  next
    fix p q c assume "(D(frame_no v \<mapsto> a)) p = Some c" "(D(frame_no v \<mapsto> a)) q = Some c"
    then show "p = q" using old pages_okD(7) [OF ok] by (auto split: if_splits)
  qed
  moreover have "user_byte (D(frame_no v \<mapsto> a)) s' w = (if frame_no w = frame_no v then Some (prep a (vm_mem s) (a + of_nat (unat w mod 4096))) else user_byte D s w)" for w
  proof (cases "frame_no w = frame_no v")
    case True then show ?thesis using zero [of "unat w mod 4096"] by (simp add: user_byte_def)
  next
    case False
    have "vm_mem s' (c + of_nat (unat w mod 4096)) = vm_mem s (c + of_nat (unat w mod 4096))" if c: "D (frame_no w) = Some c" for c
      using kept pages_okD(3,4) [OF ok c] unat_in_page(2) [OF pages_okD(1) [OF ok c], of "unat w mod 4096"] by simp
    then show ?thesis using False by (cases "D (frame_no w)") (simp_all add: user_byte_def)
  qed
  then have "user_byte (D(frame_no v \<mapsto> a)) s' = (\<lambda>w. if frame_no w = frame_no v then Some (prep a (vm_mem s) (a + of_nat (unat w mod 4096))) else user_byte D s w)" by blast
  moreover have "vm_mem s' x = vm_mem s x" if "frame_no x \<in> X" for x using kept [of x] X that by blast
  moreover have "room as s' w" if "room as s w" for w using s'(4) g1 g2 that by simp
  moreover have "card (free_set (vm_pmm s)) \<le> Suc depth + card (free_set (vm_pmm s'))"
    using s'(6) c2(2) a(5) by simp
  moreover have "free_set (vm_pmm s') \<subseteq> free_set (vm_pmm s)" using s'(5) c2(2) by blast
  moreover have "rest_of s' = rest_of s" using s'(9) r1 by (simp add: s2_def rest_of_def)
  ultimately show thesis using that [of a s1 s'] a(1) s'(1) xl by (simp add: s2_def)
qed

text \<open>What a step leaves alone: the frames \<open>X\<close>, the translation of every address outside \<open>B\<close>, the heap; and how
  many pages' worth of frames it may use.\<close>

definition only :: "aspace \<Rightarrow> nat set \<Rightarrow> u64 set \<Rightarrow> nat \<Rightarrow> ('x) vm_scheme \<Rightarrow> ('x) vm_scheme \<Rightarrow> bool" where
  "only as X B k s s' \<longleftrightarrow> (\<forall>x. frame_no x \<in> X \<longrightarrow> vm_mem s' x = vm_mem s x) \<and> (\<forall>w. room as s w \<longrightarrow> room as s' w)
     \<and> (\<forall>w. unat w < 2 ^ vbits \<longrightarrow> w \<notin> B \<longrightarrow> xlate as w s' = xlate as w s)
     \<and> free_set (vm_pmm s') \<subseteq> free_set (vm_pmm s) \<and> card (free_set (vm_pmm s)) \<le> k * Suc depth + card (free_set (vm_pmm s'))
     \<and> rest_of s' = rest_of s"

lemma only_refl [simp]: "only as X B 0 s s"
  by (simp add: only_def)

lemma only_trans: "only as X B j s1 s2 \<Longrightarrow> only as X C k s2 s3 \<Longrightarrow> only as X (B \<union> C) (j + k) s1 s3"
  unfolding only_def by (force simp: algebra_simps)

lemma only_mono: "only as X B k s s' \<Longrightarrow> B \<subseteq> C \<Longrightarrow> only as X C k s s'"
  unfolding only_def by blast

lemma page_step_only:
  assumes "pages_ok as X D s" "room as s v" "unat v < 2 ^ vbits" "flags AND VMM_PRESENT \<noteq> 0" "depth < card (free_set (vm_pmm s))"
    "\<And>a m x. page_aligned a \<Longrightarrow> frame_no x \<noteq> frame_no a \<Longrightarrow> prep a m x = m x"
  shows "\<exists>a s1 s'. vm_alloc s = (a, s1) \<and> page_aligned a \<and> map_page as v a flags (s1\<lparr>vm_mem := prep a (vm_mem s1)\<rparr>) = Some s'
    \<and> pages_ok as X (D(frame_no v \<mapsto> a)) s'
    \<and> user_byte (D(frame_no v \<mapsto> a)) s' = (\<lambda>w. if frame_no w = frame_no v then Some (prep a (vm_mem s) (a + of_nat (unat w mod 4096))) else user_byte D s w)
    \<and> only as X {w. frame_no w = frame_no v} 1 s s'"
proof (rule page_step [OF assms(1-5), where prep = prep], goal_cases)
  case 1
  then show ?case by (rule assms(6))
next
  case (2 a s1 s')
  then have "only as X {w. frame_no w = frame_no v} 1 s s'" unfolding only_def by simp
  moreover have "page_aligned a" using pages_okD(1) [OF 2(3), of "frame_no v" a] by simp
  ultimately show ?case using 2(1-4) by blast
qed

lemma load_pages_ok:
  assumes "pages_ok as X D s" "4096 dvd unat va" "4096 dvd unat vend" "unat vend \<le> 2 ^ vbits" "flags AND VMM_PRESENT \<noteq> 0"
    "\<And>w. unat va \<le> unat w \<Longrightarrow> unat w < unat vend \<Longrightarrow> room as s w"
    "k * Suc depth \<le> card (free_set (vm_pmm s))" "unat vend - unat va = 4096 * k"
  shows "\<exists>D' s'. load_pages map_page as va vend flags s = Some s' \<and> pages_ok as X D' s'
    \<and> user_byte D' s' = (\<lambda>w. if unat va \<le> unat w \<and> unat w < unat vend then Some 0 else user_byte D s w)
    \<and> only as X {w. unat va \<le> unat w \<and> unat w < unat vend} k s s'"
  using assms
proof (induction k arbitrary: va s D)
  case 0
  then have "\<not> va < vend" by (simp add: word_less_nat_alt)
  then have "load_pages map_page as va vend flags s = Some s" by (subst load_pages.simps) simp
  moreover have none: "\<not> (unat va \<le> unat w \<and> unat w < unat vend)" for w :: u64 using "0.prems"(8) by auto
  moreover have "(\<lambda>w. if unat va \<le> unat w \<and> unat w < unat vend then Some 0 else user_byte D s w) = user_byte D s"
    using none by (intro ext if_not_P)
  ultimately show ?case using "0.prems"(1) by auto
next
  case (Suc k)
  have lt: "unat va < unat vend" using Suc.prems(8) by simp
  have v: "room as s va" "unat va < 2 ^ vbits" using Suc.prems(4) Suc.prems(6) [of va] lt by auto
  have n: "depth < card (free_set (vm_pmm s))" using Suc.prems(7) by simp
  have zf: "zero_frame a m x = m x" if "page_aligned a" "frame_no x \<noteq> frame_no a" for a m x using that by (simp add: zero_frame_bytes)
  obtain a s1 s2 where st: "vm_alloc s = (a, s1)" "map_page as va a flags (s1\<lparr>vm_mem := zero_frame a (vm_mem s1)\<rparr>) = Some s2"
    "pages_ok as X (D(frame_no va \<mapsto> a)) s2"
    "user_byte (D(frame_no va \<mapsto> a)) s2 = (\<lambda>w. if frame_no w = frame_no va then Some (zero_frame a (vm_mem s) (a + of_nat (unat w mod 4096))) else user_byte D s w)"
    and o1: "only as X {w. frame_no w = frame_no va} 1 s s2" and al: "page_aligned a"
    using page_step_only [OF Suc.prems(1) v Suc.prems(5) n, of zero_frame] zf by blast
  have z: "zero_frame a (vm_mem s) (a + of_nat (unat w mod 4096)) = 0" for w :: u64
    using unat_in_page(2) [OF al, of "unat w mod 4096"] by (simp add: zero_frame_bytes [OF al])
  have "(2 :: nat) ^ vbits \<le> 2 ^ 48" by (rule power_increasing [OF vbits(2)]) simp
  then have "unat va + 4096 < 2 ^ 64" using Suc.prems(4) lt by simp
  then have u: "unat (va + PAGE_SIZE) = unat va + 4096" by (simp add: PAGE_SIZE_def unat_plus_simple)
  have pg: "frame_no w = frame_no va \<longleftrightarrow> unat va \<le> unat w \<and> unat w < unat va + 4096" for w :: u64
    by (rule page_interval [OF Suc.prems(2)])
  have rest: "unat vend - (unat va + 4096) = 4096 * k" using Suc.prems(8) by simp
  have k: "k * Suc depth \<le> card (free_set (vm_pmm s2))" and rm: "\<And>w. room as s w \<Longrightarrow> room as s2 w"
    using Suc.prems(7) o1 by (simp_all add: only_def)
  obtain D' s' where r: "load_pages map_page as (va + PAGE_SIZE) vend flags s2 = Some s'" "pages_ok as X D' s'"
    "user_byte D' s' = (\<lambda>w. if unat (va + PAGE_SIZE) \<le> unat w \<and> unat w < unat vend then Some 0 else user_byte (D(frame_no va \<mapsto> a)) s2 w)"
    "only as X {w. unat (va + PAGE_SIZE) \<le> unat w \<and> unat w < unat vend} k s2 s'"
    using Suc.IH [OF st(3), of "va + PAGE_SIZE"] Suc.prems(2-7) rest rm k u by auto
  have "load_pages map_page as va vend flags s = Some s'"
    using lt r(1) by (subst load_pages.simps) (simp add: word_less_nat_alt st(1,2))
  moreover have page_end: "unat va + 4096 \<le> unat vend" using Suc.prems(8) by simp
  then have "user_byte D' s' = (\<lambda>w. if unat va \<le> unat w \<and> unat w < unat vend then Some 0 else user_byte D s w)"
    unfolding r(3) st(4) u pg z by (intro ext) simp
  moreover have "only as X {w. unat va \<le> unat w \<and> unat w < unat vend} (Suc k) s s'"
  proof -
    have "{w. frame_no w = frame_no va} \<union> {w. unat (va + PAGE_SIZE) \<le> unat w \<and> unat w < unat vend} \<subseteq> {w. unat va \<le> unat w \<and> unat w < unat vend}"
      unfolding u pg using page_end by auto
    from only_mono [OF only_trans [OF o1 r(4)] this] show ?thesis by simp
  qed
  ultimately show ?case using r(2) by blast
qed

lemma copy_segment_ok:
  assumes "pages_ok as X D s" "unat vaddr + unat off + k \<le> 2 ^ vbits"
    "\<And>i. i < k \<Longrightarrow> D (frame_no (vaddr + off + of_nat i)) \<noteq> None" "\<And>i. i < k \<Longrightarrow> frame_no (src + off + of_nat i) \<in> X"
  shows "\<exists>s'. copy_segment xlate as k off vaddr src s = Some s' \<and> pages_ok as X D s'
    \<and> user_byte D s' = (\<lambda>w. if unat (vaddr + off) \<le> unat w \<and> unat w < unat (vaddr + off) + k then Some (vm_mem s (src + (w - vaddr))) else user_byte D s w)
    \<and> only as X {} 0 s s'"
  using assms
proof (induction k arbitrary: off s)
  case (Suc k)
  have "(2 :: nat) ^ vbits \<le> 2 ^ 48" by (rule power_increasing [OF vbits(2)]) simp
  then have big: "unat vaddr + unat off + Suc k \<le> 2 ^ 48" using Suc.prems(2) by linarith
  then have u: "unat (vaddr + off) = unat vaddr + unat off" "unat (off + 1) = unat off + 1" "unat (vaddr + (off + 1)) = unat vaddr + unat off + 1"
    by (simp_all add: unat_plus_simple)
  let ?v = "vaddr + off"
  obtain a where D: "D (frame_no ?v) = Some a" using Suc.prems(3) [of 0] by auto
  have v: "unat ?v < 2 ^ vbits" using Suc.prems(2) u(1) by simp
  let ?pa = "a + of_nat (unat ?v mod 4096)" and ?b = "vm_mem s (src + off)"
  let ?s = "s\<lparr>vm_mem := (vm_mem s)(?pa := ?b)\<rparr>"
  note st = copy_step(1) [OF Suc.prems(1) D v] copy_step(2-) [OF Suc.prems(1) D v, where b = ?b]
  have o1: "only as X {} 0 s ?s" using st(4-8) by (simp add: only_def)
  have "D (frame_no (vaddr + (off + 1) + of_nat i)) \<noteq> None" "frame_no (src + (off + 1) + of_nat i) \<in> X" if "i < k" for i
    using Suc.prems(3) [of "Suc i"] Suc.prems(4) [of "Suc i"] that by (simp_all add: ac_simps)
  with Suc.IH [OF st(2), of "off + 1"] Suc.prems(2) u(2)
  obtain s' where r: "copy_segment xlate as k (off + 1) vaddr src ?s = Some s'" "pages_ok as X D s'"
    "user_byte D s' = (\<lambda>w. if unat (vaddr + (off + 1)) \<le> unat w \<and> unat w < unat (vaddr + (off + 1)) + k then Some (vm_mem ?s (src + (w - vaddr))) else user_byte D ?s w)"
    "only as X {} 0 ?s s'" by auto
  have "copy_segment xlate as (Suc k) off vaddr src s = Some s'" using st(1) r(1) by simp
  moreover have "user_byte D s' w = (if unat ?v \<le> unat w \<and> unat w < unat ?v + Suc k then Some (vm_mem s (src + (w - vaddr))) else user_byte D s w)" for w
  proof (cases "unat ?v < unat w \<and> unat w < unat ?v + Suc k")
    case True
    have i: "w = ?v + of_nat (unat w - unat ?v)" using True by (simp add: word_unat_eq_iff unat_plus_simple unat_of_nat_eq big)
    have "frame_no (src + off + of_nat (unat w - unat ?v)) \<in> X" by (rule Suc.prems(4)) (use True in linarith)
    moreover have "src + off + of_nat (unat w - unat ?v) = src + (w - vaddr)" by (subst i) simp
    ultimately have "vm_mem ?s (src + (w - vaddr)) = vm_mem s (src + (w - vaddr))" using st(4) by metis
    then show ?thesis unfolding r(3) u using True u(1) by simp
  next
    case False
    have "unat w = unat ?v \<longleftrightarrow> w = ?v" by (simp add: word_unat_eq_iff)
    then show ?thesis unfolding r(3) st(3) u(3) using False u(1) by auto
  qed
  moreover have "only as X {} 0 s s'" using only_trans [OF o1 r(4)] by simp
  ultimately show ?case using r(2) by blast
qed (auto intro!: ext simp: not_less)

end

section \<open>The abstract loader\<close>

text \<open>What loading a segment means for the bytes that the process will see: its pages are cleared and its file
  bytes are put in place.\<close>

definition seg_start :: "elf64_phdr \<Rightarrow> nat" where
  "seg_start ph = unat (p_vaddr ph) div 4096 * 4096"

definition seg_end :: "elf64_phdr \<Rightarrow> nat" where
  "seg_end ph = (unat (p_vaddr ph) + unat (p_memsz ph) + 4095) div 4096 * 4096"

definition seg_view :: "(u64 \<Rightarrow> u8) \<Rightarrow> elf64_phdr \<Rightarrow> (u64 \<rightharpoonup> u8) \<Rightarrow> u64 \<rightharpoonup> u8" where
  "seg_view img ph U v =
     (if p_type ph \<noteq> PT_LOAD then U v
      else if unat (p_vaddr ph) \<le> unat v \<and> unat v < unat (p_vaddr ph) + unat (p_filesz ph) then Some (img (p_offset ph + (v - p_vaddr ph)))
      else if seg_start ph \<le> unat v \<and> unat v < seg_end ph then Some 0
      else U v)"

text \<open>The pages of a segment, and what makes a segment loadable in an address space of \<open>2 ^ vbits\<close> bytes.\<close>

definition seg_addrs :: "elf64_phdr \<Rightarrow> u64 set" where
  "seg_addrs ph = (if p_type ph = PT_LOAD then {w. seg_start ph \<le> unat w \<and> unat w < seg_end ph} else {})"

definition seg_count :: "elf64_phdr \<Rightarrow> nat" where
  "seg_count ph = (if p_type ph = PT_LOAD then (seg_end ph - seg_start ph) div 4096 else 0)"

definition seg_fits :: "nat \<Rightarrow> elf64_phdr \<Rightarrow> bool" where
  "seg_fits vbits ph \<longleftrightarrow> (p_type ph = PT_LOAD \<longrightarrow> unat (p_vaddr ph) + unat (p_memsz ph) \<le> 2 ^ vbits \<and> unat (p_filesz ph) \<le> unat (p_memsz ph))"

text \<open>The file bytes of a segment lie in the frames \<open>X\<close>.\<close>

definition seg_file_in :: "nat set \<Rightarrow> u64 \<Rightarrow> elf64_phdr \<Rightarrow> bool" where
  "seg_file_in X base ph \<longleftrightarrow> (p_type ph = PT_LOAD \<longrightarrow> (\<forall>i < unat (p_filesz ph). frame_no (base + p_offset ph + of_nat i) \<in> X))"

lemma seg_bounds:
  assumes "seg_fits vbits ph" "p_type ph = PT_LOAD" "12 \<le> vbits" "vbits \<le> 48"
  shows "unat (ALIGN_DOWN (p_vaddr ph) PAGE_SIZE) = seg_start ph" "unat (ALIGN_UP (p_vaddr ph + p_memsz ph) PAGE_SIZE) = seg_end ph"
    "seg_end ph \<le> 2 ^ vbits" "seg_start ph \<le> unat (p_vaddr ph)" "unat (p_vaddr ph) + unat (p_filesz ph) \<le> seg_end ph"
    "seg_end ph - seg_start ph = 4096 * seg_count ph"
proof -
  have le: "unat (p_vaddr ph) + unat (p_memsz ph) \<le> 2 ^ vbits" "unat (p_filesz ph) \<le> unat (p_memsz ph)"
    using assms(1,2) by (simp_all add: seg_fits_def)
  have "(2 :: nat) ^ vbits \<le> 2 ^ 48" by (rule power_increasing [OF assms(4)]) simp
  then have lt: "unat (p_vaddr ph) + unat (p_memsz ph) + 4095 < 2 ^ 64" using le by simp
  show "unat (ALIGN_DOWN (p_vaddr ph) PAGE_SIZE) = seg_start ph" by (simp add: PAGE_SIZE_def seg_start_def ALIGN_DOWN_4096)
  show "unat (ALIGN_UP (p_vaddr ph + p_memsz ph) PAGE_SIZE) = seg_end ph"
    using lt by (simp add: PAGE_SIZE_def seg_end_def ALIGN_UP_eq_DOWN ALIGN_DOWN_4096 unat_plus_simple)
  have pw: "(2 :: nat) ^ vbits = 4096 * 2 ^ (vbits - 12)"
    using power_add [of "2 :: nat" 12 "vbits - 12"] assms(3) by simp
  have "(unat (p_vaddr ph) + unat (p_memsz ph) + 4095) div 4096 \<le> (4096 * 2 ^ (vbits - 12) + 4095) div 4096"
    using le(1) pw by (intro div_le_mono) simp
  then show "seg_end ph \<le> 2 ^ vbits" unfolding seg_end_def pw by simp
  show "seg_start ph \<le> unat (p_vaddr ph)" by (simp add: seg_start_def)
  have "unat (p_vaddr ph) + unat (p_memsz ph) \<le> seg_end ph"
    unfolding seg_end_def using div_mult_mod_eq [of "unat (p_vaddr ph) + unat (p_memsz ph) + 4095" 4096]
      mod_less_divisor [of 4096 "unat (p_vaddr ph) + unat (p_memsz ph) + 4095"] by linarith
  then show "unat (p_vaddr ph) + unat (p_filesz ph) \<le> seg_end ph" using le(2) by simp
  show "seg_end ph - seg_start ph = 4096 * seg_count ph"
    using assms(2) by (simp add: seg_count_def seg_end_def seg_start_def diff_mult_distrib [symmetric])
qed

lemma seg_file_frame:
  assumes "seg_file_in X base ph" "p_type ph = PT_LOAD"
    "unat (p_vaddr ph) \<le> unat v" "unat v < unat (p_vaddr ph) + unat (p_filesz ph)"
  shows "frame_no (base + (p_offset ph + (v - p_vaddr ph))) \<in> X"
proof -
  have w: "unat v - unat (p_vaddr ph) < unat (p_filesz ph)" "v - p_vaddr ph = of_nat (unat v - unat (p_vaddr ph))"
    using assms(3,4) by (auto simp: word_unat_eq_iff unat_minus_simple unat_of_nat_eq)
  have "frame_no (base + p_offset ph + of_nat (unat v - unat (p_vaddr ph))) \<in> X"
    using assms(1,2) w(1) by (simp add: seg_file_in_def del: of_nat_diff)
  then show ?thesis unfolding w(2) by (simp add: add.assoc del: of_nat_diff)
qed

lemma seg_view_cong:
  assumes "seg_file_in X base ph" "\<And>x. frame_no x \<in> X \<Longrightarrow> m' x = m x"
  shows "seg_view (\<lambda>o'. m' (base + o')) ph U = seg_view (\<lambda>o'. m (base + o')) ph U"
  using assms(2) [OF seg_file_frame [OF assms(1)]] by (auto simp: seg_view_def fun_eq_iff)

lemma read_phdr_cong:
  assumes "\<And>b. b < 56 \<Longrightarrow> m' (p + of_nat b) = m (p + of_nat b)"
  shows "read_phdr m' p = read_phdr m p"
proof -
  have "load_bytes n m' (p + of_nat q) = load_bytes n m (p + of_nat q)" if "q + n \<le> 56" for n q
    using assms that unfolding load_bytes_def by (auto simp: add.assoc simp flip: of_nat_add)
  note part = this [of 0 4] this [of 4 4] this [of 8 8] this [of 16 8] this [of 24 8] this [of 32 8] this [of 40 8] this [of 48 8]
  show ?thesis using part by (simp add: read_phdr_def load32_def load64_def)
qed

context user_space
begin

lemma load_segment_ok:
  assumes ok: "pages_ok as X D s" and fit: "seg_fits vbits ph" and src: "seg_file_in X base ph"
    and rm: "\<And>w. w \<in> seg_addrs ph \<Longrightarrow> room as s w" and n: "seg_count ph * Suc depth \<le> card (free_set (vm_pmm s))"
  shows "\<exists>D' s'. load_segment map_page xlate as base ph s = Some s' \<and> pages_ok as X D' s'
    \<and> user_byte D' s' = seg_view (\<lambda>o'. vm_mem s (base + o')) ph (user_byte D s)
    \<and> only as X (seg_addrs ph) (seg_count ph) s s'"
proof (cases "p_type ph = PT_LOAD")
  case False
  then have "seg_view (\<lambda>o'. vm_mem s (base + o')) ph (user_byte D s) = user_byte D s" by (simp add: seg_view_def fun_eq_iff)
  then show ?thesis using False ok by (auto simp: load_segment_def seg_count_def)
next
  case True
  note b = seg_bounds [OF fit True vbits]
  define fl where "fl = (if p_flags ph AND PF_W \<noteq> 0 then (VMM_PRESENT OR VMM_USER) OR VMM_WRITABLE else VMM_PRESENT OR VMM_USER)"
  have fl: "fl AND VMM_PRESENT \<noteq> 0" unfolding flag_bits fl_def by (auto simp: bit_or_iff bit_flags)
  let ?va = "ALIGN_DOWN (p_vaddr ph) PAGE_SIZE" and ?ve = "ALIGN_UP (p_vaddr ph + p_memsz ph) PAGE_SIZE"
  have al: "4096 dvd unat ?va" "4096 dvd unat ?ve" unfolding b(1,2) by (simp_all add: seg_start_def seg_end_def)
  have ve: "unat ?ve \<le> 2 ^ vbits" unfolding b(2) by (rule b(3))
  have rm': "room as s w" if "unat ?va \<le> unat w" "unat w < unat ?ve" for w
    using rm that True unfolding b(1,2) by (simp add: seg_addrs_def)
  have ct: "unat ?ve - unat ?va = 4096 * seg_count ph" unfolding b(1,2) by (rule b(6))
  from load_pages_ok [OF ok al ve fl rm' n ct] obtain D' s1 where 1: "load_pages map_page as ?va ?ve fl s = Some s1" "pages_ok as X D' s1"
    "user_byte D' s1 = (\<lambda>w. if seg_start ph \<le> unat w \<and> unat w < seg_end ph then Some 0 else user_byte D s w)"
    "only as X (seg_addrs ph) (seg_count ph) s s1" unfolding b(1,2) using True by (auto simp: seg_addrs_def)
  have lim: "unat (p_vaddr ph) + unat (p_filesz ph) \<le> 2 ^ vbits" using b(3,5) by linarith
  have "(2 :: nat) ^ vbits \<le> 2 ^ 48" by (rule power_increasing [OF vbits(2)]) simp
  then have u: "unat (p_vaddr ph + of_nat i) = unat (p_vaddr ph) + i" if "i < unat (p_filesz ph)" for i
    using lim that by (simp add: unat_plus_simple unat_of_nat_eq)
  have D': "D' (frame_no (p_vaddr ph + 0 + of_nat i)) \<noteq> None" if "i < unat (p_filesz ph)" for i
  proof -
    have "user_byte D' s1 (p_vaddr ph + of_nat i) = Some 0" unfolding 1(3) u [OF that] using b(4,5) that by simp
    then show ?thesis by (auto simp: user_byte_def)
  qed
  have fi: "frame_no (base + p_offset ph + 0 + of_nat i) \<in> X" if "i < unat (p_filesz ph)" for i
    using src that True by (simp add: seg_file_in_def)
  from copy_segment_ok [of as X D' s1 "p_vaddr ph" 0 "unat (p_filesz ph)" "base + p_offset ph", OF 1(2) _ D' fi] lim
  obtain s' where 2: "copy_segment xlate as (unat (p_filesz ph)) 0 (p_vaddr ph) (base + p_offset ph) s1 = Some s'" "pages_ok as X D' s'"
    "user_byte D' s' = (\<lambda>w. if unat (p_vaddr ph) \<le> unat w \<and> unat w < unat (p_vaddr ph) + unat (p_filesz ph)
        then Some (vm_mem s1 (base + p_offset ph + (w - p_vaddr ph))) else user_byte D' s1 w)" "only as X {} 0 s1 s'"
    by auto
  have "load_segment map_page xlate as base ph s = Some s'"
    using True 1(1) 2(1) by (simp add: load_segment_def Let_def fl_def)
  moreover have "user_byte D' s' w = seg_view (\<lambda>o'. vm_mem s (base + o')) ph (user_byte D s) w" for w
  proof (cases "unat (p_vaddr ph) \<le> unat w \<and> unat w < unat (p_vaddr ph) + unat (p_filesz ph)")
    case T: True
    then have "frame_no (base + p_offset ph + (w - p_vaddr ph)) \<in> X" using seg_file_frame [OF src True] by (simp add: add.assoc)
    then have "vm_mem s1 (base + p_offset ph + (w - p_vaddr ph)) = vm_mem s (base + p_offset ph + (w - p_vaddr ph))"
      using 1(4) by (simp add: only_def)
    then show ?thesis using T True by (simp add: 2(3) seg_view_def add.assoc)
  next
    case False
    then show ?thesis unfolding 2(3) 1(3) seg_view_def by (simp only: True False if_False if_True simp_thms)
  qed
  then have "user_byte D' s' = seg_view (\<lambda>o'. vm_mem s (base + o')) ph (user_byte D s)" by blast
  moreover have "only as X (seg_addrs ph) (seg_count ph) s s'" using only_trans [OF 1(4) 2(4)] by simp
  ultimately show ?thesis using 2(2) by blast
qed

lemma load_segments_ok:
  fixes i k :: nat
  assumes "pages_ok as X D s" "phs = map (\<lambda>j. read_phdr (vm_mem s) (base + phoff + 56 * of_nat j)) [i..<i + k]"
    "\<And>j b. i \<le> j \<Longrightarrow> j < i + k \<Longrightarrow> b < 56 \<Longrightarrow> frame_no (base + phoff + 56 * of_nat j + of_nat b) \<in> X"
    "\<And>ph. ph \<in> set phs \<Longrightarrow> seg_fits vbits ph \<and> seg_file_in X base ph \<and> (\<forall>w \<in> seg_addrs ph. room as s w)"
    "sum_list (map seg_count phs) * Suc depth \<le> card (free_set (vm_pmm s))"
  shows "\<exists>D' s'. load_segments map_page xlate as k i base phoff s = Some s' \<and> pages_ok as X D' s'
    \<and> user_byte D' s' = fold (seg_view (\<lambda>o'. vm_mem s (base + o'))) phs (user_byte D s)
    \<and> only as X (\<Union>(seg_addrs ` set phs)) (sum_list (map seg_count phs)) s s'"
  using assms
proof (induction k arbitrary: i s D phs)
  case (Suc k)
  let ?ph = "read_phdr (vm_mem s) (base + phoff + 56 * of_nat i)"
  define rest where "rest = map (\<lambda>j. read_phdr (vm_mem s) (base + phoff + 56 * of_nat j)) [Suc i..<Suc i + k]"
  have phs: "phs = ?ph # rest" using Suc.prems(2) by (simp add: rest_def upt_conv_Cons del: upt_Suc)
  have ph: "seg_fits vbits ?ph" "seg_file_in X base ?ph" "\<And>w. w \<in> seg_addrs ?ph \<Longrightarrow> room as s w"
    using Suc.prems(4) [of ?ph] by (simp_all add: phs)
  have n: "seg_count ?ph * Suc depth \<le> card (free_set (vm_pmm s))" using Suc.prems(5) by (simp add: phs algebra_simps)
  obtain D1 s1 where 1: "load_segment map_page xlate as base ?ph s = Some s1" "pages_ok as X D1 s1"
    "user_byte D1 s1 = seg_view (\<lambda>o'. vm_mem s (base + o')) ?ph (user_byte D s)" "only as X (seg_addrs ?ph) (seg_count ?ph) s s1"
    using load_segment_ok [OF Suc.prems(1) ph n] by blast
  have same: "\<And>x. frame_no x \<in> X \<Longrightarrow> vm_mem s1 x = vm_mem s x" and rm: "\<And>w. room as s w \<Longrightarrow> room as s1 w"
    and n1: "sum_list (map seg_count rest) * Suc depth \<le> card (free_set (vm_pmm s1))"
    using 1(4) Suc.prems(5) by (simp_all add: only_def phs algebra_simps)
  have r1: "rest = map (\<lambda>j. read_phdr (vm_mem s1) (base + phoff + 56 * of_nat j)) [Suc i..<Suc i + k]"
    unfolding rest_def
  proof (intro map_cong refl)
    fix j assume "j \<in> set [Suc i..<Suc i + k]"
    then have "i \<le> j" "j < i + Suc k" by (simp_all del: upt_Suc)
    then show "read_phdr (vm_mem s) (base + phoff + 56 * of_nat j) = read_phdr (vm_mem s1) (base + phoff + 56 * of_nat j)"
      using same Suc.prems(3) [of j] by (intro read_phdr_cong) metis
  qed
  have hd: "frame_no (base + phoff + 56 * of_nat j + of_nat b) \<in> X" if "Suc i \<le> j" "j < Suc i + k" "b < 56" for j b
    using Suc.prems(3) that by simp
  have seg: "seg_fits vbits ph \<and> seg_file_in X base ph \<and> (\<forall>w \<in> seg_addrs ph. room as s1 w)" if "ph \<in> set rest" for ph
    using Suc.prems(4) [of ph] that rm by (simp add: phs)
  obtain D' s' where 2: "load_segments map_page xlate as k (Suc i) base phoff s1 = Some s'" "pages_ok as X D' s'"
    "user_byte D' s' = fold (seg_view (\<lambda>o'. vm_mem s1 (base + o'))) rest (user_byte D1 s1)"
    "only as X (\<Union>(seg_addrs ` set rest)) (sum_list (map seg_count rest)) s1 s'"
    using Suc.IH [OF 1(2) r1 hd seg n1] by blast
  have "fold (seg_view (\<lambda>o'. vm_mem s1 (base + o'))) rest U = fold (seg_view (\<lambda>o'. vm_mem s (base + o'))) rest U" for U
  proof (intro fold_cong refl)
    fix ph assume "ph \<in> set rest"
    then have "seg_file_in X base ph" using seg by blast
    then show "seg_view (\<lambda>o'. vm_mem s1 (base + o')) ph = seg_view (\<lambda>o'. vm_mem s (base + o')) ph"
      using same by (intro ext seg_view_cong [THEN fun_cong])
  qed
  then have "user_byte D' s' = fold (seg_view (\<lambda>o'. vm_mem s (base + o'))) phs (user_byte D s)" using 2(3) 1(3) by (simp add: phs)
  moreover have "load_segments map_page xlate as (Suc k) i base phoff s = Some s'" using 1(1) 2(1) by simp
  moreover have "only as X (\<Union>(seg_addrs ` set phs)) (sum_list (map seg_count phs)) s s'" using only_trans [OF 1(4) 2(4)] by (simp add: phs)
  ultimately show ?case using 2(2) by blast
qed auto

text \<open>The stack pages, which are mapped but not cleared.\<close>

lemma map_stack_ok:
  fixes i k :: nat
  assumes "pages_ok as X D s" "4096 dvd unat tp" "unat tp \<le> 2 ^ vbits" "4096 * (i + k) \<le> unat tp"
    "\<And>w. unat tp - 4096 * (i + k) \<le> unat w \<Longrightarrow> unat w < unat tp - 4096 * i \<Longrightarrow> room as s w"
    "k * Suc depth \<le> card (free_set (vm_pmm s))"
  shows "\<exists>D' s'. map_stack map_page as tp k i s = Some s' \<and> pages_ok as X D' s'
    \<and> (\<forall>w. (if unat tp - 4096 * (i + k) \<le> unat w \<and> unat w < unat tp - 4096 * i then user_byte D' s' w \<noteq> None
           else user_byte D' s' w = user_byte D s w))
    \<and> only as X {w. unat tp - 4096 * (i + k) \<le> unat w \<and> unat w < unat tp - 4096 * i} k s s'"
  using assms
proof (induction k arbitrary: i s D)
  case 0
  then show ?case by auto
next
  case (Suc k)
  let ?fl = "VMM_PRESENT OR VMM_WRITABLE OR VMM_USER" and ?v = "tp - of_nat (i + 1) * PAGE_SIZE"
  have fl: "?fl AND VMM_PRESENT \<noteq> 0" unfolding flag_bits by (simp add: bit_or_iff bit_flags)
  have "unat tp < 2 ^ 64" by (rule u64_lt)
  then have "unat (of_nat (i + 1) * PAGE_SIZE) = 4096 * (i + 1)"
    using Suc.prems(4) by (subst unat_times_simple) (simp_all add: PAGE_SIZE_def unat_of_nat_eq del: of_nat_add of_nat_Suc)
  then have u: "unat ?v = unat tp - 4096 * (i + 1)" using Suc.prems(4) by (simp add: unat_minus_simple)
  have dv: "4096 dvd unat ?v" unfolding u using Suc.prems(2) by simp
  have pg: "frame_no w = frame_no ?v \<longleftrightarrow> unat tp - 4096 * (i + 1) \<le> unat w \<and> unat w < unat tp - 4096 * (i + 1) + 4096" for w :: u64
    using page_interval [OF dv, of w] unfolding u .
  have v: "room as s ?v" "unat ?v < 2 ^ vbits" using Suc.prems(3,4) Suc.prems(5) [of ?v] u by auto
  have n: "depth < card (free_set (vm_pmm s))" using Suc.prems(6) by simp
  obtain a s1 s2 where st: "vm_alloc s = (a, s1)" "map_page as ?v a ?fl s1 = Some s2" "pages_ok as X (D(frame_no ?v \<mapsto> a)) s2"
    "user_byte (D(frame_no ?v \<mapsto> a)) s2 = (\<lambda>w. if frame_no w = frame_no ?v then Some (vm_mem s (a + of_nat (unat w mod 4096))) else user_byte D s w)"
    and o1: "only as X {w. frame_no w = frame_no ?v} 1 s s2"
    using page_step_only [OF Suc.prems(1) v fl n, of "\<lambda>a m. m"] by auto
  have rm: "room as s2 w" if "unat tp - 4096 * (Suc i + k) \<le> unat w" "unat w < unat tp - 4096 * Suc i" for w
    using Suc.prems(5) [of w] that o1 by (simp add: only_def)
  have n2: "k * Suc depth \<le> card (free_set (vm_pmm s2))" using Suc.prems(6) o1 by (simp add: only_def)
  obtain D' s' where r: "map_stack map_page as tp k (Suc i) s2 = Some s'" "pages_ok as X D' s'"
    "\<And>w. if unat tp - 4096 * (Suc i + k) \<le> unat w \<and> unat w < unat tp - 4096 * Suc i then user_byte D' s' w \<noteq> None
           else user_byte D' s' w = user_byte (D(frame_no ?v \<mapsto> a)) s2 w"
    "only as X {w. unat tp - 4096 * (Suc i + k) \<le> unat w \<and> unat w < unat tp - 4096 * Suc i} k s2 s'"
  proof -
    have "4096 * (Suc i + k) \<le> unat tp" using Suc.prems(4) by simp
    from Suc.IH [OF st(3) Suc.prems(2,3) this rm n2] show thesis using that by blast
  qed
  have "map_stack map_page as tp (Suc k) i s = Some s'" using st(1,2) r(1) by (simp add: add.commute)
  moreover have "if unat tp - 4096 * (i + Suc k) \<le> unat w \<and> unat w < unat tp - 4096 * i then user_byte D' s' w \<noteq> None
      else user_byte D' s' w = user_byte D s w" for w
    using r(3) [of w] Suc.prems(4) unfolding st(4) pg by (auto split: if_splits)
  moreover have "{w. frame_no w = frame_no ?v} \<union> {w. unat tp - 4096 * (Suc i + k) \<le> unat w \<and> unat w < unat tp - 4096 * Suc i}
      \<subseteq> {w. unat tp - 4096 * (i + Suc k) \<le> unat w \<and> unat w < unat tp - 4096 * i}"
    unfolding pg using Suc.prems(4) by auto
  from only_mono [OF only_trans [OF o1 r(4)] this]
  have "only as X {w. unat tp - 4096 * (i + Suc k) \<le> unat w \<and> unat w < unat tp - 4096 * i} (Suc k) s s'" by simp
  ultimately show ?case using r(2) by blast
qed

end

section \<open>Both virtual memory managers\<close>

lemma ready_mem:
  assumes r: "ready f n t s" and m: "\<And>x. frame_no x \<in> frame_no ` tset f (vm_mem s) n t \<Longrightarrow> m' x = vm_mem s x"
  shows "ready f n t (s\<lparr>vm_mem := m'\<rparr>)" "tset f m' n t = tset f (vm_mem s) n t" "lookup f m' n t v = lookup f (vm_mem s) n t v"
    "unblocked f m' n t v = unblocked f (vm_mem s) n t v"
proof -
  have wf: "wf_tables f (vm_mem s) n t" using r by (simp add: ready_def)
  have "agree (tset f (vm_mem s) n t) (vm_mem s) m'"
    unfolding agree_def
  proof (intro ballI)
    fix u assume u: "u \<in> tset f (vm_mem s) n t"
    then have "\<forall>x. frame_no x = frame_no u \<longrightarrow> m' x = vm_mem s x" using m by blast
    then show "\<forall>i < 512. pt_get m' u i = pt_get (vm_mem s) u i" using page_words wf_aligned [OF wf u] by blast
  qed
  note c = agree_cong [OF this] unblocked_cong [OF this]
  show "tset f m' n t = tset f (vm_mem s) n t" "lookup f m' n t v = lookup f (vm_mem s) n t v"
    "unblocked f m' n t v = unblocked f (vm_mem s) n t v" using c by blast+
  then show "ready f n t (s\<lparr>vm_mem := m'\<rparr>)" using r c by (simp add: ready_def)
qed

lemma ready_alloc:
  assumes "ready f n t s" "vm_alloc s = (a, s')"
  shows "ready f n t s'" "vm_mem s' = vm_mem s" "rest_of s' = rest_of s"
proof -
  obtain b p where b: "pmm_alloc_frame (vm_pmm s) = (b, p)" by (cases "pmm_alloc_frame (vm_pmm s)")
  have s': "s' = s\<lparr>vm_heap := (vm_heap s)\<lparr>heap_pmm := p\<rparr>\<rparr>" using assms(2) by (simp add: vm_alloc_def b)
  have ok: "pmm_ok (vm_pmm s)" using assms(1) by (simp add: ready_def phys_ok_def)
  show "ready f n t s'"
    using assms(1) pmm_alloc_frame_shrinks [OF ok b] pmm_alloc_total [OF ok b] by (auto simp: ready_def s' phys_ok_def in_use_def)
  show "vm_mem s' = vm_mem s" "rest_of s' = rest_of s" by (simp_all add: s' rest_of_def)
qed

context paging
begin

lemma map_leaf:
  assumes r: "ready f n t s" and u: "unblocked f (vm_mem s) n t v" "n \<le> card (free_set (vm_pmm s))"
  shows "\<exists>c s'. create f (new_entry fl) (widen fl) n t v s = (c, s') \<and> c \<noteq> 0
    \<and> (let s'' = vm_set c (vidx 0 v) e s' in ready f n t s''
      \<and> (\<forall>v'. lookup f (vm_mem s'') n t v' = (if same_page n v v' then e else lookup f (vm_mem s) n t v'))
      \<and> (\<forall>v'. unblocked f (vm_mem s) n t v' \<longrightarrow> unblocked f (vm_mem s'') n t v')
      \<and> free_set (vm_pmm s'') \<subseteq> free_set (vm_pmm s) \<and> card (free_set (vm_pmm s)) \<le> n + card (free_set (vm_pmm s''))
      \<and> frame_no ` tset f (vm_mem s'') n t \<subseteq> frame_no ` tset f (vm_mem s) n t \<union> free_set (vm_pmm s)
      \<and> (\<forall>x. frame_no x \<notin> frame_no ` tset f (vm_mem s) n t \<longrightarrow> frame_no x \<notin> free_set (vm_pmm s) \<longrightarrow> vm_mem s'' x = vm_mem s x)
      \<and> rest_of s'' = rest_of s)"
proof (rule map_spec [OF r u, of fl e], goal_cases)
  case (1 c s')
  let ?m = "pt_set c (vidx 0 v) e (vm_mem s')"
  have ph: "phys_ok (vm_pmm s)" using r by (simp add: ready_def)
  have rs: "rest_of (vm_set c (vidx 0 v) e s') = rest_of s"
    using create_rest [of f "new_entry fl" "widen fl" n t v s] 1(1) by simp
  have fr: "card (free_set (vm_pmm s)) \<le> n + card (free_set (vm_pmm s'))"
    using create_frames [OF ph, of f "new_entry fl" "widen fl" n t v] 1(1) by simp
  have "?m x = vm_mem s x" if x: "frame_no x \<notin> frame_no ` tset f (vm_mem s) n t" "frame_no x \<notin> free_set (vm_pmm s)" for x
  proof -
    define p :: u64 where "p = of_nat (frame_no x * 4096)"
    have "unat p = frame_no x * 4096" unfolding p_def using u64_lt [of x] by (intro unat_of_nat_eq) simp
    then have p: "page_aligned p" "frame_no p = frame_no x" by (simp_all add: page_aligned_def)
    then have "p \<notin> tset f (vm_mem s) n t" using x(1) by (metis imageI)
    then have "\<forall>i < 512. pt_get ?m p i = pt_get (vm_mem s) p i" using 1(5) p x(2) by (simp add: kept_outside_def)
    then show ?thesis using page_words [OF p(1)] p(2) by metis
  qed
  moreover have "frame_no ` tset f ?m n t \<subseteq> frame_no ` tset f (vm_mem s) n t \<union> free_set (vm_pmm s)" using 1(7) by blast
  ultimately show ?case using 1(1-4,6,8) fr rs unfolding Let_def vm_set_simps by blast
qed

end

definition sp_good :: "pt_format \<Rightarrow> nat \<Rightarrow> aspace \<Rightarrow> ('x) vm_scheme \<Rightarrow> bool" where
  "sp_good f n as s \<longleftrightarrow> (case as_root as s of None \<Rightarrow> False | Some root \<Rightarrow> ready f n root s)"

definition sp_tframes :: "pt_format \<Rightarrow> nat \<Rightarrow> aspace \<Rightarrow> ('x) vm_scheme \<Rightarrow> nat set" where
  "sp_tframes f n as s = (case as_root as s of None \<Rightarrow> {} | Some root \<Rightarrow> frame_no ` tset f (vm_mem s) n root)"

definition sp_room :: "pt_format \<Rightarrow> nat \<Rightarrow> aspace \<Rightarrow> ('x) vm_scheme \<Rightarrow> u64 \<Rightarrow> bool" where
  "sp_room f n as s v \<longleftrightarrow> (case as_root as s of None \<Rightarrow> False | Some root \<Rightarrow> unblocked f (vm_mem s) n root v)"

lemma or_offset:
  assumes "page_aligned a"
  shows "a OR (v AND 0xFFF) = a + of_nat (unat v mod 4096)"
proof -
  have m: "(0xFFF :: u64) = mask 12" by (simp add: mask_eq_exp_minus_1)
  have "unat (take_bit 12 v) = unat v mod 4096" by (simp only: unsigned_take_bit_eq) (simp add: take_bit_eq_mod)
  then have v: "v AND 0xFFF = of_nat (unat v mod 4096)"
    unfolding m take_bit_eq_mask [symmetric] by (rule word_eq_of_nat)
  have "a AND (v AND 0xFFF) = 0"
    using assms unfolding page_aligned_bits m by (intro bit_word_eqI) (auto simp: bit_and_iff bit_mask_iff)
  then show ?thesis unfolding v by (simp add: disjunctive_add_eq_or)
qed

lemma same_page_frame:
  assumes "unat v < 2 ^ (12 + 9 * Suc n)" "unat v' < 2 ^ (12 + 9 * Suc n)"
  shows "same_page n v v' \<longleftrightarrow> frame_no v' = frame_no v"
proof -
  have t: "unat (take_bit (9 * Suc n) (drop_bit 12 w)) = frame_no w" if "unat w < 2 ^ (12 + 9 * Suc n)" for w :: u64
  proof -
    have "unat w div 4096 < 2 ^ (9 * Suc n)" using that by (simp add: less_mult_imp_div_less power_add)
    then show ?thesis using u64_lt [of w] by (simp only: unsigned_take_bit_eq unsigned_drop_bit_eq) (simp add: take_bit_eq_mod drop_bit_eq_div)
  qed
  show ?thesis unfolding same_page_iff word_unat_eq_iff using t [OF assms(1)] t [OF assms(2)] by auto
qed

text \<open>Any manager that builds the path and writes a leaf, and translates by walking down, is one for the loader.\<close>

context paging
begin

lemma space_laws:
  fixes map_page :: "('x) vm_scheme map_op" and xlate :: "('x) vm_scheme xlate_op" and leaf :: "u64 \<Rightarrow> u64 \<Rightarrow> u64"
  assumes n: "n \<le> 3"
    and map_eq: "\<And>as v a fl s. fl AND VMM_PRESENT \<noteq> 0 \<Longrightarrow> map_page as v a fl s =
      (case as_root as s of None \<Rightarrow> None | Some root \<Rightarrow>
         let (c, s) = create f (new_entry fl) (widen fl) n root v s in Some (if c = 0 then s else vm_set c (vidx 0 v) (leaf a fl) s))"
    and xl_eq: "\<And>as v s. xlate as v s = (case as_root as s of None \<Rightarrow> None | Some root \<Rightarrow>
         Some (let e = lookup f (vm_mem s) n root v in if pf_present f e then child f e OR (v AND 0xFFF) else 0))"
    and leaf: "\<And>a fl. fl AND VMM_PRESENT \<noteq> 0 \<Longrightarrow> page_aligned a \<Longrightarrow> unat a < 2 ^ 48 \<Longrightarrow> pf_present f (leaf a fl) \<and> child f (leaf a fl) = a"
  shows "user_space map_page xlate (sp_good f n) (sp_tframes f n) (sp_room f n) n (12 + 9 * Suc n)"
proof
  fix as a v flags and s s' :: "'x vm_scheme" and m' :: mem
  assume g: "sp_good f n as s"
  then obtain root where root: "as_root as s = Some root" and r: "ready f n root s" by (auto simp: sp_good_def split: option.splits)
  show "phys_ok (vm_pmm s) \<and> sp_tframes f n as s \<inter> free_set (vm_pmm s) = {}"
    using r by (auto simp: ready_def in_use_def sp_tframes_def root)
  show "sp_good f n as (s\<lparr>vm_mem := m'\<rparr>) \<and> sp_tframes f n as (s\<lparr>vm_mem := m'\<rparr>) = sp_tframes f n as s
       \<and> xlate as v (s\<lparr>vm_mem := m'\<rparr>) = xlate as v s \<and> sp_room f n as (s\<lparr>vm_mem := m'\<rparr>) v = sp_room f n as s v"
    if "\<And>x. frame_no x \<in> sp_tframes f n as s \<Longrightarrow> m' x = vm_mem s x"
    using ready_mem [OF r, of m'] that root
    by (simp add: sp_good_def sp_tframes_def sp_room_def xl_eq as_root_def split: aspace.splits)
  show "sp_good f n as s' \<and> sp_tframes f n as s' = sp_tframes f n as s \<and> xlate as v s' = xlate as v s
      \<and> sp_room f n as s' v = sp_room f n as s v" if "vm_alloc s = (a, s')"
    using ready_alloc [OF r that] as_root_rest [of s' s as] root by (simp add: sp_good_def sp_tframes_def sp_room_def xl_eq)
  assume a: "sp_room f n as s v" "n \<le> card (free_set (vm_pmm s))" "flags AND VMM_PRESENT \<noteq> 0" "page_aligned a" "unat a < 2 ^ 48"
    "unat v < 2 ^ (12 + 9 * Suc n)"
  have u: "unblocked f (vm_mem s) n root v" using a(1) root by (simp add: sp_room_def)
  obtain c s1 where c: "create f (new_entry flags) (widen flags) n root v s = (c, s1)" "c \<noteq> 0"
    and l: "let s'' = vm_set c (vidx 0 v) (leaf a flags) s1 in ready f n root s''
      \<and> (\<forall>v'. lookup f (vm_mem s'') n root v' = (if same_page n v v' then leaf a flags else lookup f (vm_mem s) n root v'))
      \<and> (\<forall>v'. unblocked f (vm_mem s) n root v' \<longrightarrow> unblocked f (vm_mem s'') n root v')
      \<and> free_set (vm_pmm s'') \<subseteq> free_set (vm_pmm s) \<and> card (free_set (vm_pmm s)) \<le> n + card (free_set (vm_pmm s''))
      \<and> frame_no ` tset f (vm_mem s'') n root \<subseteq> frame_no ` tset f (vm_mem s) n root \<union> free_set (vm_pmm s)
      \<and> (\<forall>x. frame_no x \<notin> frame_no ` tset f (vm_mem s) n root \<longrightarrow> frame_no x \<notin> free_set (vm_pmm s) \<longrightarrow> vm_mem s'' x = vm_mem s x)
      \<and> rest_of s'' = rest_of s"
    using map_leaf [OF r u a(2), of flags "leaf a flags"] by blast
  let ?s = "vm_set c (vidx 0 v) (leaf a flags) s1"
  note l = l [unfolded Let_def]
  have root': "as_root as ?s = Some root" using as_root_rest [of ?s s as] l root by simp
  have "map_page as v a flags s = Some ?s" using c root by (simp add: map_eq [OF a(3)])
  moreover have "xlate as w ?s = (if frame_no w = frame_no v then Some (a + of_nat (unat w mod 4096)) else xlate as w s)"
    if w: "unat w < 2 ^ (12 + 9 * Suc n)" for w
    using l root root' same_page_frame [OF a(6) w] leaf [OF a(3-5)] or_offset [OF a(4), of w] by (simp add: xl_eq)
  ultimately show "\<exists>s'. map_page as v a flags s = Some s' \<and> sp_good f n as s'
         \<and> (\<forall>v'. unat v' < 2 ^ (12 + 9 * Suc n) \<longrightarrow>
               xlate as v' s' = (if frame_no v' = frame_no v then Some (a + of_nat (unat v' mod 4096)) else xlate as v' s))
         \<and> (\<forall>v'. sp_room f n as s v' \<longrightarrow> sp_room f n as s' v')
         \<and> free_set (vm_pmm s') \<subseteq> free_set (vm_pmm s) \<and> card (free_set (vm_pmm s)) \<le> n + card (free_set (vm_pmm s'))
         \<and> sp_tframes f n as s' \<subseteq> sp_tframes f n as s \<union> free_set (vm_pmm s)
         \<and> (\<forall>x. frame_no x \<notin> sp_tframes f n as s \<longrightarrow> frame_no x \<notin> free_set (vm_pmm s) \<longrightarrow> vm_mem s' x = vm_mem s x)
         \<and> rest_of s' = rest_of s"
    using l by (intro exI [of _ ?s]) (simp add: sp_good_def sp_tframes_def sp_room_def root root')
qed (use n in simp_all)

end

interpretation x86_space: user_space vmm_map vmm_translate "sp_good x86_fmt 3" "sp_tframes x86_fmt 3" "sp_room x86_fmt 3" 3 48
proof -
  have "pf_present x86_fmt (x86_leaf a fl) \<and> child x86_fmt (x86_leaf a fl) = a"
    if "fl AND VMM_PRESENT \<noteq> 0" "page_aligned a" "unat a < 2 ^ 48" for a fl
    using x86_leaf_bits [OF that(1), of a] mask_small [OF that(2,3)] by (simp add: x86_fmt_bits)
  from x86.space_laws [of 3, OF _ vmm_map_create vmm_translate_lookup [folded x86_fmt_bits(3)] this]
  show "user_space vmm_map vmm_translate (sp_good x86_fmt 3) (sp_tframes x86_fmt 3) (sp_room x86_fmt 3) 3 48" by simp
qed

interpretation a64_space: user_space vmm_map_a64 vmm_translate_a64 "sp_good a64_fmt 2" "sp_tframes a64_fmt 2" "sp_room a64_fmt 2" 2 39
proof -
  have l: "pf_present a64_fmt (a64_leaf a fl) \<and> child a64_fmt (a64_leaf a fl) = a"
    if "fl AND VMM_PRESENT \<noteq> 0" "page_aligned a" "unat a < 2 ^ 48" for a fl
    using a64_leaf_bits [of a fl] mask_small_a64 [OF that(2,3)] by (simp add: a64_fmt_bits)
  have m: "vmm_map_a64 as v a fl s =
      (case as_root as s of None \<Rightarrow> None | Some root \<Rightarrow>
         let (c, s) = create a64_fmt (a64_new fl) None 2 root v s in Some (if c = 0 then s else vm_set c (vidx 0 v) (a64_leaf a fl) s))"
    if "fl AND VMM_PRESENT \<noteq> 0" for as v a fl and s :: "'x vm_scheme"
    unfolding vmm_map_create_a64 using that by (cases "as_root as s") (simp_all add: Let_def case_prod_beta)
  from a64.space_laws [of 2, OF _ m vmm_translate_lookup_a64 [folded a64_fmt_bits(3)] l]
  show "user_space vmm_map_a64 vmm_translate_a64 (sp_good a64_fmt 2) (sp_tframes a64_fmt 2) (sp_room a64_fmt 2) 2 39" by simp
qed

section \<open>Loading a whole image\<close>

definition phdrs :: "mem \<Rightarrow> u64 \<Rightarrow> elf64_ehdr \<Rightarrow> elf64_phdr list" where
  "phdrs m base eh = map (\<lambda>j. read_phdr m (base + e_phoff eh + 56 * of_nat j)) [0..<unat (e_phnum eh)]"

definition stack_addrs :: "u64 \<Rightarrow> u64 set" where
  "stack_addrs tp = {w. unat tp - 16384 \<le> unat w \<and> unat w < unat tp}"

text \<open>The bytes that the image asks for.\<close>

definition image_view :: "mem \<Rightarrow> u64 \<Rightarrow> elf64_ehdr \<Rightarrow> u64 \<rightharpoonup> u8" where
  "image_view m base eh = fold (seg_view (\<lambda>o'. m (base + o'))) (phdrs m base eh) Map.empty"

text \<open>The image lies in the frames \<open>X\<close>, which are neither free nor page tables; its segments are in range and in
  places that no huge page covers, like the stack; and there are enough free frames for the pages and
  the tables above them.\<close>

definition loadable :: "pt_format \<Rightarrow> nat \<Rightarrow> aspace \<Rightarrow> nat set \<Rightarrow> u64 \<Rightarrow> elf64_ehdr \<Rightarrow> u64 \<Rightarrow> ('x) vm_scheme \<Rightarrow> bool" where
  "loadable f n as X base eh tp s \<longleftrightarrow> sp_good f n as s \<and> X \<inter> free_set (vm_pmm s) = {} \<and> X \<inter> sp_tframes f n as s = {}
     \<and> (\<forall>j < unat (e_phnum eh). \<forall>b < 56. frame_no (base + e_phoff eh + 56 * of_nat j + of_nat b) \<in> X)
     \<and> (\<forall>ph \<in> set (phdrs (vm_mem s) base eh). seg_fits (12 + 9 * Suc n) ph \<and> seg_file_in X base ph \<and> (\<forall>w \<in> seg_addrs ph. sp_room f n as s w))
     \<and> (\<forall>w \<in> stack_addrs tp. sp_room f n as s w)
     \<and> (sum_list (map seg_count (phdrs (vm_mem s) base eh)) + 4) * Suc n \<le> card (free_set (vm_pmm s))"

lemma seg_view_dom:
  assumes "\<And>ph. ph \<in> set phs \<Longrightarrow> seg_fits vbits ph" "12 \<le> vbits" "vbits \<le> 48" "fold (seg_view img) phs U v \<noteq> None"
  shows "U v \<noteq> None \<or> (\<exists>ph \<in> set phs. v \<in> seg_addrs ph \<and> unat v < 2 ^ vbits)"
  using assms(1,4)
proof (induction phs arbitrary: U)
  case (Cons ph phs)
  have "seg_view img ph U v \<noteq> None \<or> (\<exists>ph \<in> set phs. v \<in> seg_addrs ph \<and> unat v < 2 ^ vbits)" using Cons by simp
  moreover have "U v \<noteq> None \<or> v \<in> seg_addrs ph \<and> unat v < 2 ^ vbits" if n: "seg_view img ph U v \<noteq> None"
  proof (cases "p_type ph = PT_LOAD")
    case True
    note b = seg_bounds [OF _ True assms(2,3)]
    have "seg_fits vbits ph" using Cons.prems(1) by simp
    then show ?thesis using b(3-5) n True by (auto simp: seg_view_def seg_addrs_def split: if_splits)
  qed (use n in \<open>simp add: seg_view_def\<close>)
  ultimately show ?case by auto
qed simp

context user_space
begin

lemma user_byte_xlate:
  assumes "pages_ok as X D s" "user_byte D s v = Some b" "unat v < 2 ^ vbits"
  shows "\<exists>pa. xlate as v s = Some pa \<and> pa \<noteq> 0 \<and> vm_mem s pa = b \<and> frame_no pa \<notin> free_set (vm_pmm s) \<and> frame_no pa \<notin> tframes as s"
proof -
  obtain a where a: "D (frame_no v) = Some a" "vm_mem s (a + of_nat (unat v mod 4096)) = b" using assms(2) by (auto simp: user_byte_def)
  note o = pages_okD [OF assms(1) a(1)]
  have "frame_no (a + of_nat (unat v mod 4096)) = frame_no a" by (rule unat_in_page(2) [OF o(1)]) simp
  moreover have "frame_no a \<noteq> 0" using frame_no_inj [OF o(1), of 0] o(2) by (auto simp: page_aligned_def)
  ultimately show ?thesis using o(3,4) o(6) [OF assms(3) refl] a(2) by auto
qed

lemma load_image_ok:
  assumes g: "good as s" "X \<inter> free_set (vm_pmm s) = {}" "X \<inter> tframes as s = {}"
    and hd: "\<forall>j < unat (e_phnum eh). \<forall>b < 56. frame_no (base + e_phoff eh + 56 * of_nat j + of_nat b) \<in> X"
    and seg: "\<forall>ph \<in> set (phdrs (vm_mem s) base eh). seg_fits vbits ph \<and> seg_file_in X base ph \<and> (\<forall>w \<in> seg_addrs ph. room as s w)"
    and stk: "4096 dvd unat tp" "unat tp \<le> 2 ^ vbits" "16384 \<le> unat tp" "\<forall>w \<in> stack_addrs tp. room as s w"
    and n: "(sum_list (map seg_count (phdrs (vm_mem s) base eh)) + 4) * Suc depth \<le> card (free_set (vm_pmm s))"
  shows "\<exists>D s'. load_image map_page xlate tp as base eh s = Some s' \<and> pages_ok as X D s'
    \<and> (\<forall>v. v \<notin> stack_addrs tp \<longrightarrow> user_byte D s' v = image_view (vm_mem s) base eh v)
    \<and> (\<forall>v \<in> stack_addrs tp. user_byte D s' v \<noteq> None)
    \<and> only as X (\<Union>(seg_addrs ` set (phdrs (vm_mem s) base eh)) \<union> stack_addrs tp) (sum_list (map seg_count (phdrs (vm_mem s) base eh)) + 4) s s'"
proof -
  let ?phs = "phdrs (vm_mem s) base eh"
  have ok: "pages_ok as X Map.empty s" using g by (simp add: pages_ok_def)
  have u0: "user_byte Map.empty s = Map.empty" by (simp add: user_byte_def fun_eq_iff)
  have "sum_list (map seg_count ?phs) * Suc depth \<le> card (free_set (vm_pmm s))" using n by (simp add: algebra_simps)
  then obtain D1 s1 where 1: "load_segments map_page xlate as (unat (e_phnum eh)) 0 base (e_phoff eh) s = Some s1" "pages_ok as X D1 s1"
    "user_byte D1 s1 = image_view (vm_mem s) base eh" and o1: "only as X (\<Union>(seg_addrs ` set ?phs)) (sum_list (map seg_count ?phs)) s s1"
    using load_segments_ok [OF ok, of ?phs base "e_phoff eh" 0 "unat (e_phnum eh)"] hd seg by (auto simp: phdrs_def u0 image_view_def)
  have rm: "room as s1 w" if "unat tp - 4096 * (0 + 4) \<le> unat w" "unat w < unat tp - 4096 * 0" for w
    using stk(4) o1 that by (simp add: only_def stack_addrs_def)
  have n1: "4 * Suc depth \<le> card (free_set (vm_pmm s1))" using n o1 by (simp add: only_def algebra_simps)
  have t: "4096 * (0 + 4) \<le> unat tp" using stk(3) by simp
  obtain D s' where 2: "map_stack map_page as tp 4 0 s1 = Some s'" "pages_ok as X D s'"
    "\<And>w. if w \<in> stack_addrs tp then user_byte D s' w \<noteq> None else user_byte D s' w = user_byte D1 s1 w" "only as X (stack_addrs tp) 4 s1 s'"
    using map_stack_ok [OF 1(2) stk(1,2) t rm n1] unfolding stack_addrs_def by auto
  have "load_image map_page xlate tp as base eh s = Some s'" using 1(1) 2(1) by (simp add: load_image_def USER_STACK_PAGES_def)
  then show ?thesis using 2(2,3) 1(3) only_trans [OF o1 2(4)] by (intro exI [of _ D] exI [of _ s']) auto
qed

text \<open>What the loaded space shows.\<close>

lemma load_image_seen:
  assumes "good as s" "X \<inter> free_set (vm_pmm s) = {}" "X \<inter> tframes as s = {}"
    and "\<forall>j < unat (e_phnum eh). \<forall>b < 56. frame_no (base + e_phoff eh + 56 * of_nat j + of_nat b) \<in> X"
    and seg: "\<forall>ph \<in> set (phdrs (vm_mem s) base eh). seg_fits vbits ph \<and> seg_file_in X base ph \<and> (\<forall>w \<in> seg_addrs ph. room as s w)"
    and stk: "4096 dvd unat tp" "unat tp \<le> 2 ^ vbits" "16384 \<le> unat tp" "\<forall>w \<in> stack_addrs tp. room as s w"
    and "(sum_list (map seg_count (phdrs (vm_mem s) base eh)) + 4) * Suc depth \<le> card (free_set (vm_pmm s))"
  shows "\<exists>s'. load_image map_page xlate tp as base eh s = Some s' \<and> good as s' \<and> rest_of s' = rest_of s
    \<and> free_set (vm_pmm s') \<subseteq> free_set (vm_pmm s) \<and> X \<inter> tframes as s' = {}
    \<and> (\<forall>v b. v \<notin> stack_addrs tp \<longrightarrow> image_view (vm_mem s) base eh v = Some b \<longrightarrow>
         (\<exists>pa. xlate as v s' = Some pa \<and> pa \<noteq> 0 \<and> vm_mem s' pa = b))
    \<and> (\<forall>v \<in> stack_addrs tp. \<exists>pa. xlate as v s' = Some pa \<and> pa \<noteq> 0 \<and> frame_no pa \<notin> free_set (vm_pmm s') \<and> frame_no pa \<notin> tframes as s')
    \<and> (\<forall>v. unat v < 2 ^ vbits \<longrightarrow> v \<notin> stack_addrs tp \<longrightarrow> (\<forall>ph \<in> set (phdrs (vm_mem s) base eh). v \<notin> seg_addrs ph) \<longrightarrow> xlate as v s' = xlate as v s)"
proof -
  obtain D s' where l: "load_image map_page xlate tp as base eh s = Some s'" "pages_ok as X D s'"
    "\<And>v. v \<notin> stack_addrs tp \<Longrightarrow> user_byte D s' v = image_view (vm_mem s) base eh v" "\<And>v. v \<in> stack_addrs tp \<Longrightarrow> user_byte D s' v \<noteq> None"
    "only as X (\<Union>(seg_addrs ` set (phdrs (vm_mem s) base eh)) \<union> stack_addrs tp) (sum_list (map seg_count (phdrs (vm_mem s) base eh)) + 4) s s'"
    using load_image_ok [OF assms] by blast
  have dom: "unat v < 2 ^ vbits" if "image_view (vm_mem s) base eh v \<noteq> None" for v
    using seg_view_dom [OF _ vbits that [unfolded image_view_def]] seg by auto
  have "\<exists>pa. xlate as v s' = Some pa \<and> pa \<noteq> 0 \<and> vm_mem s' pa = b" if "v \<notin> stack_addrs tp" "image_view (vm_mem s) base eh v = Some b" for v b
    using user_byte_xlate [OF l(2), of v b] l(3) [OF that(1)] that(2) dom by auto
  moreover have "\<exists>pa. xlate as v s' = Some pa \<and> pa \<noteq> 0 \<and> frame_no pa \<notin> free_set (vm_pmm s') \<and> frame_no pa \<notin> tframes as s'" if v: "v \<in> stack_addrs tp" for v
  proof -
    have "unat v < 2 ^ vbits" using v stk(2) by (simp add: stack_addrs_def)
    then show ?thesis using user_byte_xlate [OF l(2), of v] l(4) [OF v] by blast
  qed
  moreover have "good as s'" "X \<inter> tframes as s' = {}" using l(2) by (simp_all add: pages_ok_def)
  moreover have "rest_of s' = rest_of s" "free_set (vm_pmm s') \<subseteq> free_set (vm_pmm s)" using l(5) by (simp_all add: only_def)
  moreover have "xlate as v s' = xlate as v s"
    if v: "unat v < 2 ^ vbits" "v \<notin> stack_addrs tp" "\<forall>ph \<in> set (phdrs (vm_mem s) base eh). v \<notin> seg_addrs ph" for v
  proof -
    have "v \<notin> \<Union>(seg_addrs ` set (phdrs (vm_mem s) base eh)) \<union> stack_addrs tp" using v(2,3) by blast
    then show ?thesis using l(5) v(1) unfolding only_def by metis
  qed
  ultimately show ?thesis using l(1) by (intro exI [of _ s'] conjI allI ballI impI)
qed

end

end
