(* ===== verification/Spaces.thy ===== *)
theory Spaces
  imports Loader
begin

text \<open>
  The life of an address space: creation as a copy of the kernel's, mapping, destruction. The locale \<open>space_life\<close>
  extends the loader's view \<open>user_space\<close> of a virtual memory manager by what \<open>process_run\<close> and the self-test of
  \<^verbatim>\<open>arch.c\<close> rely on; both managers provide it. The self-tests of \<^verbatim>\<open>arch/x86_64/arch.c\<close> and
  \<^verbatim>\<open>arch/aarch64/arch.c\<close> are the same text for two managers and share a definition, which takes the operations
  as arguments.
\<close>

section \<open>The self-test\<close>

text \<open>The address that the processor reaches through a 4 KB page, by walking the tables at the root register; \<open>None\<close>
  is a page fault.\<close>

definition mmu_walk :: "pt_format \<Rightarrow> nat \<Rightarrow> ('x) vm_scheme \<Rightarrow> u64 \<Rightarrow> u64 option" where
  "mmu_walk f n s v = (let e = lookup f (vm_mem s) n (root_reg s) v in if pf_present f e then Some (child f e OR (v AND 0xFFF)) else None)"

definition vmm_selftest ::
    "('x) vm_scheme xlate_op \<Rightarrow> (('x) vm_scheme \<Rightarrow> (aspace \<times> ('x) vm_scheme) option) \<Rightarrow> ('x) vm_scheme map_op \<Rightarrow>
     (aspace \<Rightarrow> ('x) vm_scheme \<Rightarrow> ('x) vm_scheme option) \<Rightarrow> (('x) vm_scheme \<Rightarrow> u64 \<Rightarrow> u64 option) \<Rightarrow>
     (aspace \<Rightarrow> ('x) vm_scheme \<Rightarrow> ('x) vm_scheme option) \<Rightarrow> u64 \<Rightarrow> ('x) vm_scheme \<Rightarrow> (bool \<times> ('x) vm_scheme) option" where
  "vmm_selftest xlate create_space map_page switch_space mmu destroy_space test_va s =
     do {
       t \<leftarrow> xlate Kernel_space test_va s;
       if t \<noteq> 0 then Some (False, s)
       else do {
         (as, s) \<leftarrow> create_space s;
         let (frame, s) = vm_alloc s;
         if frame = 0 then Some (False, s)
         else do {
           s \<leftarrow> map_page as test_va frame (VMM_PRESENT OR VMM_WRITABLE) s;
           s \<leftarrow> switch_space as s;
           pa \<leftarrow> mmu s test_va;
           let s = s\<lparr>vm_mem := store32 pa 0xDEADBEEF (vm_mem s)\<rparr>;
           pa \<leftarrow> mmu s test_va;
           let readback_ok = (load32 (vm_mem s) pa = 0xDEADBEEF);
           s \<leftarrow> switch_space Kernel_space s;
           t \<leftarrow> xlate Kernel_space test_va s;
           let isolated_ok = (t = 0);
           t \<leftarrow> xlate as test_va s;
           let mapped_ok = (t = frame OR 0);
           s \<leftarrow> destroy_space as s;
           Some (readback_ok \<and> isolated_ok \<and> mapped_ok, vm_free frame s)
         }
       }
     }"

definition vmm_selftest_x86 :: "('x) vm_scheme \<Rightarrow> (bool \<times> ('x) vm_scheme) option" where
  "vmm_selftest_x86 = vmm_selftest vmm_translate vmm_create_address_space vmm_map vmm_switch (mmu_walk x86_fmt 3) vmm_destroy_address_space 0x50000000"

definition vmm_selftest_a64 :: "('x) vm_scheme \<Rightarrow> (bool \<times> ('x) vm_scheme) option" where
  "vmm_selftest_a64 = vmm_selftest vmm_translate_a64 vmm_create_address_space_a64 vmm_map_a64 vmm_switch_a64 (mmu_walk a64_fmt 2)
     vmm_destroy_address_space_a64 0x80000000"

section \<open>Tables and the heap\<close>

lemma heap_of_rest: "rest_of s' = rest_of s \<Longrightarrow> vm_heap s' = (vm_heap s)\<lparr>heap_pmm := vm_pmm s'\<rparr>"
  by (cases "vm_heap s'"; cases "vm_heap s") (simp add: rest_of_def)

text \<open>The heap of a state whose tables have changed.\<close>

lemma heap_after_tables:
  assumes "rest_of s' = rest_of s" "heap_inv (vm_heap s)" "phys_ok (vm_pmm s')" "free_set (vm_pmm s') \<subseteq> free_set (vm_pmm s)"
  shows "heap_inv (vm_heap s')" "live (vm_heap s') = live (vm_heap s)" "heap_frames (vm_heap s') = heap_frames (vm_heap s)"
proof -
  have "heap_frames (vm_heap s) \<inter> free_set (vm_pmm s') = {}" using heap_frames_used [of "vm_heap s"] assms(4) by blast
  from heap_inv_pmm_change [OF assms(2) _ this] assms(3)
  show "heap_inv (vm_heap s')" "live (vm_heap s') = live (vm_heap s)" "heap_frames (vm_heap s') = heap_frames (vm_heap s)"
    by (simp_all add: phys_ok_def flip: heap_of_rest [OF assms(1)])
qed

text \<open>A new space: its tables and its heap block are apart from each other and from everything older.\<close>

lemma clone_heap:
  assumes c: "cloned f n src a s s1" "rest_of s1 = rest_of s" and h: "heap_inv (vm_heap s)"
    and k: "kmalloc sizeof_address_space (vm_heap s1) = Some (p, h1)" "p \<noteq> 0"
  shows "heap_inv h1" "\<exists>k. live h1 = insert (unat p, k) (live (vm_heap s)) \<and> (unat p, k) \<notin> live (vm_heap s)"
    "heap_frames h1 \<inter> frame_no ` tset f (vm_mem s1) n a = {}"
proof -
  have cl: "phys_ok (vm_pmm s1)" "\<forall>u \<in> tset f (vm_mem s1) n a. frame_no u \<in> free_set (vm_pmm s)"
    "free_set (vm_pmm s1) = free_set (vm_pmm s) - frame_no ` tset f (vm_mem s1) n a"
    using c(1) by (simp_all add: cloned_def ready_def)
  note i = heap_after_tables [OF c(2) h cl(1)]
  have i1: "heap_inv (vm_heap s1)" "live (vm_heap s1) = live (vm_heap s)" "heap_frames (vm_heap s1) = heap_frames (vm_heap s)"
    by (rule i; use cl(3) in blast)+
  have sz: "0 < unat sizeof_address_space" "unat sizeof_address_space < 2 ^ 62" by (simp_all add: sizeof_address_space_def)
  note m = kmalloc_inv [OF i1(1) sz k]
  show "heap_inv h1" "\<exists>k. live h1 = insert (unat p, k) (live (vm_heap s)) \<and> (unat p, k) \<notin> live (vm_heap s)"
    using m i1(2) by auto
  show "heap_frames h1 \<inter> frame_no ` tset f (vm_mem s1) n a = {}"
    using kmalloc_frames [OF i1(1) sz k(1)] cl(2) heap_frames_used [of "vm_heap s"] unfolding i1(3) cl(3) by blast
qed

text \<open>Releasing the tables and the block of a space.\<close>

lemma free_tree_heap:
  assumes "ready f n t s" "heap_inv (vm_heap s)" "heap_frames (vm_heap s) \<inter> frame_no ` tset f (vm_mem s) n t = {}"
    and "(unat p, k) \<in> live (vm_heap s)"
  obtains h where "kfree p (vm_heap (free_tree f n t s)) = Some h" "heap_inv h" "live h = live (vm_heap s) - {(unat p, k)}"
    "free_set (heap_pmm h) \<subseteq> free_set (vm_pmm s) \<union> frame_no ` tset f (vm_mem s) n t" "heap_frames h = heap_frames (vm_heap s)" "phys_ok (heap_pmm h)"
proof -
  let ?s = "free_tree f n t s"
  have fr: "freed (tset f (vm_mem s) n t) s ?s" using assms(1) by (intro free_tree_spec) (simp_all add: ready_def)
  then have p: "pmm_ok (vm_pmm ?s)" "phys_ok (vm_pmm ?s)" "free_set (vm_pmm ?s) \<subseteq> free_set (vm_pmm s) \<union> frame_no ` tset f (vm_mem s) n t"
    by (auto simp: freed_def phys_ok_def)
  have d: "heap_frames (vm_heap s) \<inter> free_set (vm_pmm ?s) = {}" using p(3) assms(3) heap_frames_used [of "vm_heap s"] by blast
  note i = heap_inv_pmm_change [OF assms(2) p(1) d, folded heap_of_rest [OF free_tree_rest]]
  obtain h where h: "kfree p (vm_heap ?s) = Some h" "heap_inv h" "live h = live (vm_heap s) - {(unat p, k)}"
    using kfree_inv [OF i(1), of p k] assms(4) i(2) by auto
  have "heap_frames h = heap_frames (vm_heap ?s)" using kfree_arenas [OF h(1)] by (intro heap_frames_same [OF i(1) h(2)]) simp_all
  then show thesis using that [OF h] kfree_pmm [OF h(1)] p(2,3) i(3) by simp
qed

section \<open>The interface\<close>

locale space_life = user_space map_page xlate good tframes room depth vbits
  for map_page :: "('x) vm_scheme map_op" and xlate :: "('x) vm_scheme xlate_op" and good :: "aspace \<Rightarrow> ('x) vm_scheme \<Rightarrow> bool"
    and tframes :: "aspace \<Rightarrow> ('x) vm_scheme \<Rightarrow> nat set" and room :: "aspace \<Rightarrow> ('x) vm_scheme \<Rightarrow> u64 \<Rightarrow> bool" and depth vbits :: nat +
  fixes create_space :: "('x) vm_scheme \<Rightarrow> (aspace \<times> ('x) vm_scheme) option"
    and destroy_space :: "aspace \<Rightarrow> ('x) vm_scheme \<Rightarrow> ('x) vm_scheme option"
    and switch_space :: "aspace \<Rightarrow> ('x) vm_scheme \<Rightarrow> ('x) vm_scheme option"
    and mmu :: "('x) vm_scheme \<Rightarrow> u64 \<Rightarrow> u64 option"
  assumes space_cong: "good as s \<Longrightarrow> as_root as s' = as_root as s \<Longrightarrow> phys_ok (vm_pmm s') \<Longrightarrow> tframes as s \<inter> free_set (vm_pmm s') = {} \<Longrightarrow>
       (\<And>x. frame_no x \<in> tframes as s \<Longrightarrow> vm_mem s' x = vm_mem s x) \<Longrightarrow>
       good as s' \<and> tframes as s' = tframes as s \<and> xlate as v s' = xlate as v s \<and> room as s' v = room as s v"
    and create_ok: "good Kernel_space s \<Longrightarrow> card (tframes Kernel_space s) \<le> card (free_set (vm_pmm s)) \<Longrightarrow> heap_inv (vm_heap s) \<Longrightarrow>
       create_space s = Some (as, s1) \<Longrightarrow>
       (\<exists>p k root. as = Heap_space p \<and> as_at s1 = (as_at s)(p \<mapsto> root)
          \<and> live (vm_heap s1) = insert (unat p, k) (live (vm_heap s)) \<and> (unat p, k) \<notin> live (vm_heap s))
       \<and> heap_inv (vm_heap s1) \<and> good as s1 \<and> heap_frames (vm_heap s1) \<inter> tframes as s1 = {}
       \<and> tframes as s1 \<subseteq> free_set (vm_pmm s) \<and> tframes as s1 \<inter> free_set (vm_pmm s1) = {} \<and> free_set (vm_pmm s1) \<subseteq> free_set (vm_pmm s)
       \<and> kernel_root s1 = kernel_root s \<and> vm.more s1 = vm.more s
       \<and> (\<forall>v. xlate as v s1 = xlate Kernel_space v s) \<and> (\<forall>v. room Kernel_space s v \<longrightarrow> room as s1 v)
       \<and> (\<forall>x. frame_no x \<notin> free_set (vm_pmm s) \<longrightarrow> vm_mem s1 x = vm_mem s x)"
    and destroy_ok: "good (Heap_space p) s \<Longrightarrow> heap_inv (vm_heap s) \<Longrightarrow> heap_frames (vm_heap s) \<inter> tframes (Heap_space p) s = {} \<Longrightarrow>
       (unat p, k) \<in> live (vm_heap s) \<Longrightarrow>
       \<exists>s'. destroy_space (Heap_space p) s = Some s' \<and> heap_inv (vm_heap s') \<and> live (vm_heap s') = live (vm_heap s) - {(unat p, k)}
         \<and> heap_frames (vm_heap s') = heap_frames (vm_heap s) \<and> free_set (vm_pmm s') \<subseteq> free_set (vm_pmm s) \<union> tframes (Heap_space p) s
         \<and> phys_ok (vm_pmm s') \<and> vm_mem s' = vm_mem s \<and> as_at s' = (as_at s)(p := None) \<and> kernel_root s' = kernel_root s
         \<and> root_reg s' = root_reg s \<and> vm.more s' = vm.more s"
    and switch_ok: "as_root as s = Some root \<Longrightarrow> \<exists>l. switch_space as s = Some (s\<lparr>root_reg := root, tlb_log := l\<rparr>)"
    and walk_xlate: "as_root as s = Some (root_reg s) \<Longrightarrow> xlate as v s = Some pa \<Longrightarrow> pa \<noteq> 0 \<Longrightarrow> mmu s v = Some pa"

text \<open>Any manager that copies and frees whole trees of tables is one.\<close>

lemma tset_card:
  assumes "wf_tables f m n t"
  shows "card (frame_no ` tset f m n t) = card (tset f m n t)"
proof (rule card_image, rule inj_onI)
  fix x y assume "x \<in> tset f m n t" "y \<in> tset f m n t" "frame_no x = frame_no y"
  then show "x = y" using frame_no_inj wf_aligned [OF assms] by blast
qed

lemma kept_bytes:
  assumes "kept_outside {} F m m'" "frame_no x \<notin> F"
  shows "m' x = m x"
proof -
  define p :: u64 where "p = of_nat (frame_no x * 4096)"
  have "unat p = frame_no x * 4096" unfolding p_def using u64_lt [of x] by (intro unat_of_nat_eq) simp
  then have p: "page_aligned p" "frame_no p = frame_no x" by (simp_all add: page_aligned_def)
  then have "\<forall>i < 512. pt_get m' p i = pt_get m p i" using assms by (simp add: kept_outside_def)
  then show ?thesis using page_words [OF p(1)] p(2) by metis
qed

lemma space_root_cong:
  assumes r: "ready f n root s" and ok: "phys_ok (vm_pmm s')" "frame_no ` tset f (vm_mem s) n root \<inter> free_set (vm_pmm s') = {}"
    and m: "\<And>x. frame_no x \<in> frame_no ` tset f (vm_mem s) n root \<Longrightarrow> vm_mem s' x = vm_mem s x"
  shows "ready f n root s'" "tset f (vm_mem s') n root = tset f (vm_mem s) n root"
    "lookup f (vm_mem s') n root v = lookup f (vm_mem s) n root v" "unblocked f (vm_mem s') n root v = unblocked f (vm_mem s) n root v"
proof -
  note c = ready_mem [OF r m]
  show "tset f (vm_mem s') n root = tset f (vm_mem s) n root"
    "lookup f (vm_mem s') n root v = lookup f (vm_mem s) n root v" "unblocked f (vm_mem s') n root v = unblocked f (vm_mem s) n root v"
    using c by blast+
  then show "ready f n root s'" using c(1) ok by (auto simp: ready_def in_use_def)
qed

context paging
begin

lemma create_space_facts:
  assumes r: "ready f n (kernel_root s) s" "card (tset f (vm_mem s) n (kernel_root s)) \<le> card (free_set (vm_pmm s))"
    and h: "heap_inv (vm_heap s)"
    and c: "(let (a, s) = clone_tree f link n (kernel_root s) s
        in do { (p, h) \<leftarrow> kmalloc sizeof_address_space (vm_heap s);
                if p = 0 then None else Some (Heap_space p, s\<lparr>vm_heap := h, as_at := (as_at s)(p \<mapsto> a)\<rparr>) }) = Some (as, s1)"
  obtains p k root where "as = Heap_space p" "as_at s1 = (as_at s)(p \<mapsto> root)" "as_root as s1 = Some root"
    "live (vm_heap s1) = insert (unat p, k) (live (vm_heap s))" "(unat p, k) \<notin> live (vm_heap s)" "heap_inv (vm_heap s1)"
    "ready f n root s1" "heap_frames (vm_heap s1) \<inter> frame_no ` tset f (vm_mem s1) n root = {}"
    "frame_no ` tset f (vm_mem s1) n root \<subseteq> free_set (vm_pmm s)" "free_set (vm_pmm s1) \<subseteq> free_set (vm_pmm s)"
    "kernel_root s1 = kernel_root s" "vm.more s1 = vm.more s"
    "\<forall>v. seen f (lookup f (vm_mem s1) n root v) = seen f (lookup f (vm_mem s) n (kernel_root s) v)"
    "\<forall>v. unblocked f (vm_mem s) n (kernel_root s) v \<longrightarrow> unblocked f (vm_mem s1) n root v"
    "\<forall>x. frame_no x \<notin> free_set (vm_pmm s) \<longrightarrow> vm_mem s1 x = vm_mem s x"
proof -
  obtain a s0 where a: "clone_tree f link n (kernel_root s) s = (a, s0)" and cl: "cloned f n (kernel_root s) a s s0"
    using clone_spec [OF r] by blast
  obtain p h1 where k: "kmalloc sizeof_address_space (vm_heap s0) = Some (p, h1)" "p \<noteq> 0"
    and s1: "as = Heap_space p" "s1 = s0\<lparr>vm_heap := h1, as_at := (as_at s0)(p \<mapsto> a)\<rparr>"
    using c unfolding a by (auto split: if_splits bind_splits)
  have r0: "rest_of s0 = rest_of s" using clone_tree_rest [of f link n "kernel_root s" s] a by simp
  note hp = clone_heap [OF cl r0 h k]
  obtain j where j: "live h1 = insert (unat p, j) (live (vm_heap s))" "(unat p, j) \<notin> live (vm_heap s)" using hp(2) by blast
  have ok: "phys_ok (vm_pmm s0)" using cl by (simp add: cloned_def ready_def)
  note pm = kmalloc_pmm [OF ok k(1)]
  have fr: "free_set (vm_pmm s0) \<subseteq> free_set (vm_pmm s)" "frame_no ` tset f (vm_mem s0) n a \<subseteq> free_set (vm_pmm s)"
    using cl unfolding cloned_def by blast+
  have rd0: "ready f n a s0" and ko: "kept_outside {} (free_set (vm_pmm s)) (vm_mem s) (vm_mem s0)"
    and see: "\<forall>v. seen f (lookup f (vm_mem s0) n a v) = seen f (lookup f (vm_mem s) n (kernel_root s) v)"
      "\<forall>v. unblocked f (vm_mem s) n (kernel_root s) v \<longrightarrow> unblocked f (vm_mem s0) n a v"
    using cl unfolding cloned_def by blast+
  have rd: "ready f n a s1" by (rule ready_less [OF rd0]) (use pm in \<open>simp_all add: s1(2)\<close>)
  have kept: "\<forall>x. frame_no x \<notin> free_set (vm_pmm s) \<longrightarrow> vm_mem s1 x = vm_mem s x"
    using kept_bytes [OF ko] by (simp add: s1(2))
  show thesis
  proof (rule that [of p a j])
    show "free_set (vm_pmm s1) \<subseteq> free_set (vm_pmm s)" using order_trans [OF _ fr(1), of "free_set (heap_pmm h1)"] pm by (simp add: s1(2))
    show "\<forall>v. seen f (lookup f (vm_mem s1) n a v) = seen f (lookup f (vm_mem s) n (kernel_root s) v)"
      "\<forall>v. unblocked f (vm_mem s) n (kernel_root s) v \<longrightarrow> unblocked f (vm_mem s1) n a v" using see by (simp_all add: s1(2))
    show "as_at s1 = (as_at s)(p \<mapsto> a)" "kernel_root s1 = kernel_root s" "vm.more s1 = vm.more s" using r0 by (simp_all add: rest_of_def s1(2))
  qed (use s1 j hp(1,3) rd fr kept in \<open>simp_all add: as_root_def\<close>)
qed

lemma life_laws:
  fixes map_page :: "('x) vm_scheme map_op" and xlate :: "('x) vm_scheme xlate_op"
  assumes us: "user_space map_page xlate (sp_good f n) (sp_tframes f n) (sp_room f n) n vb"
    and xl: "\<And>as v s. xlate as v s = (case as_root as s of None \<Rightarrow> None | Some root \<Rightarrow>
         Some (let e = lookup f (vm_mem s) n root v in if pf_present f e then child f e OR (v AND 0xFFF) else 0))"
    and cr: "\<And>s. create_space s = (let (a, s) = clone_tree f link n (kernel_root s) s
        in do { (p, h) \<leftarrow> kmalloc sizeof_address_space (vm_heap s);
                if p = 0 then None else Some (Heap_space p, s\<lparr>vm_heap := h, as_at := (as_at s)(p \<mapsto> a)\<rparr>) })"
    and de: "\<And>p s. destroy_space (Heap_space p) s = do { root \<leftarrow> as_at s p; let s = free_tree f n root s; h \<leftarrow> kfree p (vm_heap s);
        Some (s\<lparr>vm_heap := h, as_at := (as_at s)(p := None)\<rparr>) }"
    and sw: "\<And>as s. switch_space as s = do { root \<leftarrow> as_root as s; Some (s\<lparr>root_reg := root, tlb_log := tlb_log s @ [Flush_all]\<rparr>) }"
  shows "space_life map_page xlate (sp_good f n) (sp_tframes f n) (sp_room f n) n vb create_space destroy_space switch_space (mmu_walk f n)"
proof (intro space_life.intro us space_life_axioms.intro, goal_cases)
  case (1 as s s' v)
  obtain root where r: "as_root as s = Some root" "ready f n root s" using 1(1) by (auto simp: sp_good_def split: option.splits)
  have T: "sp_tframes f n as s = frame_no ` tset f (vm_mem s) n root" by (simp add: sp_tframes_def r)
  have r': "as_root as s' = Some root" using 1(2) r by simp
  note c = space_root_cong [OF r(2) 1(3) 1(4) [unfolded T] 1(5) [unfolded T]]
  show ?case by (simp add: sp_good_def sp_tframes_def sp_room_def xl r r' c)
next
  case (2 s as s1)
  have k: "as_root Kernel_space s = Some (kernel_root s)" by (simp add: as_root_def)
  have r: "ready f n (kernel_root s) s" using 2(1) k by (simp add: sp_good_def)
  then have "card (tset f (vm_mem s) n (kernel_root s)) \<le> card (free_set (vm_pmm s))"
    using 2(2) k tset_card [of f "vm_mem s" n "kernel_root s"] by (simp add: sp_tframes_def ready_def)
  note facts = create_space_facts [OF r this 2(3) 2(4) [unfolded cr]]
  obtain p j root where p: "as = Heap_space p" "as_at s1 = (as_at s)(p \<mapsto> root)" "as_root as s1 = Some root"
    "live (vm_heap s1) = insert (unat p, j) (live (vm_heap s))" "(unat p, j) \<notin> live (vm_heap s)" "heap_inv (vm_heap s1)"
    "ready f n root s1" "heap_frames (vm_heap s1) \<inter> frame_no ` tset f (vm_mem s1) n root = {}"
    "frame_no ` tset f (vm_mem s1) n root \<subseteq> free_set (vm_pmm s)" "free_set (vm_pmm s1) \<subseteq> free_set (vm_pmm s)"
    "kernel_root s1 = kernel_root s" "vm.more s1 = vm.more s"
    "\<forall>v. seen f (lookup f (vm_mem s1) n root v) = seen f (lookup f (vm_mem s) n (kernel_root s) v)"
    "\<forall>v. unblocked f (vm_mem s) n (kernel_root s) v \<longrightarrow> unblocked f (vm_mem s1) n root v"
    "\<forall>x. frame_no x \<notin> free_set (vm_pmm s) \<longrightarrow> vm_mem s1 x = vm_mem s x"
    by (rule facts)
  have x: "xlate as v s1 = xlate Kernel_space v s" for v
    using spec [OF p(13), of v] zero_absent(1) by (auto simp: xl p(3) k seen_def Let_def split: if_splits)
  have "sp_tframes f n as s1 = frame_no ` tset f (vm_mem s1) n root" "sp_good f n as s1"
    "frame_no ` tset f (vm_mem s1) n root \<inter> free_set (vm_pmm s1) = {}"
    using p(3,7) by (auto simp: sp_tframes_def sp_good_def ready_def in_use_def)
  moreover have "\<exists>p k root. as = Heap_space p \<and> as_at s1 = (as_at s)(p \<mapsto> root)
      \<and> live (vm_heap s1) = insert (unat p, k) (live (vm_heap s)) \<and> (unat p, k) \<notin> live (vm_heap s)" using p(1,2,4,5) by blast
  ultimately show ?case using p(3,6,8-12,14,15) x k by (simp add: sp_room_def)
next
  case (3 p s j)
  obtain root where r: "as_at s p = Some root" "ready f n root s" using 3(1) by (auto simp: sp_good_def as_root_def split: option.splits)
  have T: "sp_tframes f n (Heap_space p) s = frame_no ` tset f (vm_mem s) n root" by (simp add: sp_tframes_def as_root_def r)
  obtain h where h: "kfree p (vm_heap (free_tree f n root s)) = Some h" "heap_inv h" "live h = live (vm_heap s) - {(unat p, j)}"
    "free_set (heap_pmm h) \<subseteq> free_set (vm_pmm s) \<union> frame_no ` tset f (vm_mem s) n root" "heap_frames h = heap_frames (vm_heap s)" "phys_ok (heap_pmm h)"
    by (rule free_tree_heap [OF r(2) 3(2) 3(3) [unfolded T] 3(4)])
  have "vm_mem (free_tree f n root s) = vm_mem s" using free_tree_spec [of f s n root] r(2) by (simp add: ready_def freed_def)
  then show ?case using h r(1) free_tree_rest [of f n root s] by (simp add: de T rest_of_def)
next
  case (4 as s root)
  then show ?case by (simp add: sw) blast
next
  case (5 as s v pa)
  then show ?case by (auto simp: xl mmu_walk_def Let_def split: if_splits)
qed

end

interpretation x86_life: space_life vmm_map vmm_translate "sp_good x86_fmt 3" "sp_tframes x86_fmt 3" "sp_room x86_fmt 3" 3 48
  vmm_create_address_space vmm_destroy_address_space vmm_switch "mmu_walk x86_fmt 3"
proof (rule x86.life_laws [OF x86_space.user_space_axioms vmm_translate_lookup [folded x86_fmt_bits(3)]])
  fix p and s :: "'x vm_scheme"
  show "vmm_create_address_space s = (let (a, s) = clone_tree x86_fmt x86_link 3 (kernel_root s) s
        in do { (p, h) \<leftarrow> kmalloc sizeof_address_space (vm_heap s);
                if p = 0 then None else Some (Heap_space p, s\<lparr>vm_heap := h, as_at := (as_at s)(p \<mapsto> a)\<rparr>) })"
    using clone_table_tree [of 3 "kernel_root s" s] by (simp add: vmm_create_address_space_def)
  show "vmm_destroy_address_space (Heap_space p) s = do { root \<leftarrow> as_at s p; let s = free_tree x86_fmt 3 root s; h \<leftarrow> kfree p (vm_heap s);
        Some (s\<lparr>vm_heap := h, as_at := (as_at s)(p := None)\<rparr>) }"
    using free_table_tree [of 3 _ s] by (simp add: vmm_destroy_address_space_def)
qed (simp add: vmm_switch_def)

interpretation a64_life: space_life vmm_map_a64 vmm_translate_a64 "sp_good a64_fmt 2" "sp_tframes a64_fmt 2" "sp_room a64_fmt 2" 2 39
  vmm_create_address_space_a64 vmm_destroy_address_space_a64 vmm_switch_a64 "mmu_walk a64_fmt 2"
proof (rule a64.life_laws [OF a64_space.user_space_axioms vmm_translate_lookup_a64 [folded a64_fmt_bits(3)]])
  fix p and s :: "'x vm_scheme"
  show "vmm_create_address_space_a64 s = (let (a, s) = clone_tree a64_fmt a64_link 2 (kernel_root s) s
        in do { (p, h) \<leftarrow> kmalloc sizeof_address_space (vm_heap s);
                if p = 0 then None else Some (Heap_space p, s\<lparr>vm_heap := h, as_at := (as_at s)(p \<mapsto> a)\<rparr>) })"
    using clone_table_tree_a64 [of 2 "kernel_root s" s] by (simp add: vmm_create_address_space_a64_def)
  show "vmm_destroy_address_space_a64 (Heap_space p) s = do { root \<leftarrow> as_at s p; let s = free_tree a64_fmt 2 root s; h \<leftarrow> kfree p (vm_heap s);
        Some (s\<lparr>vm_heap := h, as_at := (as_at s)(p := None)\<rparr>) }"
    using free_table_tree_a64 [of 2 _ s] by (simp add: vmm_destroy_address_space_a64_def)
qed (simp add: vmm_switch_a64_def)

section \<open>The self-test passes\<close>

context space_life
begin

text \<open>The kernel's space after creating another one.\<close>

lemma create_keeps_kernel:
  assumes k: "good Kernel_space s" and c: "card (tframes Kernel_space s) \<le> card (free_set (vm_pmm s))" "heap_inv (vm_heap s)" "create_space s = Some (as, s1)"
  shows "good Kernel_space s1" "tframes Kernel_space s1 = tframes Kernel_space s" "xlate Kernel_space v s1 = xlate Kernel_space v s"
    "tframes Kernel_space s \<inter> (tframes as s1 \<union> free_set (vm_pmm s1)) = {}"
proof -
  note f = create_ok [OF k c]
  have d: "tframes Kernel_space s \<inter> free_set (vm_pmm s) = {}" using good_frames [OF k] by blast
  have sub: "tframes as s1 \<subseteq> free_set (vm_pmm s)" "free_set (vm_pmm s1) \<subseteq> free_set (vm_pmm s)" using f by blast+
  then show "tframes Kernel_space s \<inter> (tframes as s1 \<union> free_set (vm_pmm s1)) = {}" using d by blast
  have "good Kernel_space s1 \<and> tframes Kernel_space s1 = tframes Kernel_space s \<and> xlate Kernel_space v s1 = xlate Kernel_space v s \<and> room Kernel_space s1 v = room Kernel_space s v"
  proof (rule space_cong [OF k])
    show "as_root Kernel_space s1 = as_root Kernel_space s" using f by (simp add: as_root_def)
    show "phys_ok (vm_pmm s1)" using f good_frames by blast
    show "tframes Kernel_space s \<inter> free_set (vm_pmm s1) = {}" using d sub by blast
    show "vm_mem s1 x = vm_mem s x" if "frame_no x \<in> tframes Kernel_space s" for x using f d that by blast
  qed
  then show "good Kernel_space s1" "tframes Kernel_space s1 = tframes Kernel_space s" "xlate Kernel_space v s1 = xlate Kernel_space v s" by blast+
qed

text \<open>A fresh frame mapped in one of two spaces that share no table.\<close>

lemma map_fresh:
  assumes g: "good as s" "good bs s" "tframes bs s \<inter> tframes as s = {}"
    and v: "room as s va" "unat va < 2 ^ vbits" "4096 dvd unat va" and n: "Suc depth \<le> card (free_set (vm_pmm s))"
    and fl: "flags AND VMM_PRESENT \<noteq> 0"
  obtains a s1 s2 where "vm_alloc s = (a, s1)" "a \<noteq> 0" "page_aligned a" "frame_no a \<in> free_set (vm_pmm s)" "map_page as va a flags s1 = Some s2"
    "good as s2" "good bs s2" "xlate as va s2 = Some a" "\<And>v. xlate bs v s2 = xlate bs v s" "tframes bs s2 = tframes bs s"
    "tframes as s2 \<subseteq> tframes as s \<union> free_set (vm_pmm s)" "frame_no a \<notin> tframes as s2" "frame_no a \<notin> tframes bs s2"
    "free_set (vm_pmm s2) \<subseteq> free_set (vm_pmm s) - {frame_no a}" "rest_of s2 = rest_of s" "phys_ok (vm_pmm s2)"
proof -
  note ga = good_frames [OF g(1)] and gb = good_frames [OF g(2)]
  have "free_set (vm_pmm s) \<noteq> {}" using n by auto
  then obtain a s1 where a: "vm_alloc s = (a, s1)" "a \<noteq> 0" "page_aligned a" "unat a < 2 ^ 48" "frame_no a \<in> free_set (vm_pmm s)"
    "phys_ok (vm_pmm s1)" "free_set (vm_pmm s1) = free_set (vm_pmm s) - {frame_no a}" "vm_mem s1 = vm_mem s"
    using vm_alloc_cases [of s] ga by blast
  have ra: "rest_of s1 = rest_of s" using rest_of_simps(3) [of s] a(1) by simp
  note la = good_alloc [OF g(1) a(1)] and lb = good_alloc [OF g(2) a(1)]
  have n1: "depth \<le> card (free_set (vm_pmm s1))" using n a(5,7) by simp
  have g1: "good as s1" and r1: "room as s1 va" using la v(1) by blast+
  obtain s2 where s2: "map_page as va a flags s1 = Some s2" "good as s2"
    "\<And>v'. unat v' < 2 ^ vbits \<Longrightarrow> xlate as v' s2 = (if frame_no v' = frame_no va then Some (a + of_nat (unat v' mod 4096)) else xlate as v' s1)"
    "free_set (vm_pmm s2) \<subseteq> free_set (vm_pmm s1)" "tframes as s2 \<subseteq> tframes as s1 \<union> free_set (vm_pmm s1)"
    "\<And>x. frame_no x \<notin> tframes as s1 \<Longrightarrow> frame_no x \<notin> free_set (vm_pmm s1) \<Longrightarrow> vm_mem s2 x = vm_mem s1 x" "rest_of s2 = rest_of s1"
    using map_ok [OF g1 r1 n1 fl a(3,4) v(2)] by blast
  have T: "tframes as s1 = tframes as s" "tframes bs s1 = tframes bs s" using la lb by blast+
  have fb: "tframes bs s \<inter> free_set (vm_pmm s) = {}" using gb by blast
  have ph: "phys_ok (vm_pmm s2)" using good_frames [OF s2(2)] by blast
  have b: "good bs s2 \<and> tframes bs s2 = tframes bs s \<and> xlate bs v s2 = xlate bs v s" for v
  proof -
    have "good bs s2 \<and> tframes bs s2 = tframes bs s1 \<and> xlate bs v s2 = xlate bs v s1 \<and> room bs s2 v = room bs s1 v"
    proof (rule space_cong)
      show "good bs s1" using lb by blast
      show "as_root bs s2 = as_root bs s1" using as_root_rest [OF s2(7)] .
      show "tframes bs s1 \<inter> free_set (vm_pmm s2) = {}" using s2(4) a(7) fb unfolding T by blast
      show "vm_mem s2 x = vm_mem s1 x" if "frame_no x \<in> tframes bs s1" for x
        by (rule s2(6)) (use that g(3) fb a(7) in \<open>auto simp: T\<close>)
    qed (rule ph)
    then show ?thesis using lb T(2) by auto
  qed
  have x: "xlate as va s2 = Some a" using s2(3) [OF v(2)] v(3) by simp
  have ta: "tframes as s2 \<subseteq> tframes as s \<union> free_set (vm_pmm s)" using s2(5) a(7) unfolding T by blast
  have na: "frame_no a \<notin> tframes as s2" using s2(5) a(5,7) ga unfolding T by blast
  have nb: "frame_no a \<notin> tframes bs s2" using b fb a(5) by blast
  have rs: "rest_of s2 = rest_of s" using s2(7) ra by simp
  have fr: "free_set (vm_pmm s2) \<subseteq> free_set (vm_pmm s) - {frame_no a}" using s2(4) a(7) by simp
  show thesis by (rule that [OF a(1-3,5) s2(1,2) _ x _ _ ta na nb fr rs ph]) (use b in blast)+
qed

text \<open>The last steps: the space, its tables and the frame are given back.\<close>

lemma release_space:
  assumes g: "good (Heap_space p) s" "good Kernel_space s" and h: "heap_inv (vm_heap s)" "(unat p, k) \<in> live (vm_heap s)"
    and d: "heap_frames (vm_heap s) \<inter> tframes (Heap_space p) s = {}" "frame_no a \<notin> heap_frames (vm_heap s)" "frame_no a \<notin> tframes Kernel_space s"
      "tframes Kernel_space s \<inter> tframes (Heap_space p) s = {}"
    and a: "page_aligned a" "a \<noteq> 0"
  obtains s1 where "destroy_space (Heap_space p) s = Some s1" "heap_inv (vm_heap (vm_free a s1))" "live (vm_heap (vm_free a s1)) = live (vm_heap s) - {(unat p, k)}"
    "free_set (vm_pmm (vm_free a s1)) \<subseteq> free_set (vm_pmm s) \<union> tframes (Heap_space p) s \<union> {frame_no a}"
    "kernel_root (vm_free a s1) = kernel_root s" "root_reg (vm_free a s1) = root_reg s" "\<And>v. xlate Kernel_space v (vm_free a s1) = xlate Kernel_space v s"
proof -
  obtain s1 where s1: "destroy_space (Heap_space p) s = Some s1" "heap_inv (vm_heap s1)" "live (vm_heap s1) = live (vm_heap s) - {(unat p, k)}"
    "heap_frames (vm_heap s1) = heap_frames (vm_heap s)" "free_set (vm_pmm s1) \<subseteq> free_set (vm_pmm s) \<union> tframes (Heap_space p) s"
    "phys_ok (vm_pmm s1)" "vm_mem s1 = vm_mem s" "kernel_root s1 = kernel_root s" "root_reg s1 = root_reg s"
    using destroy_ok [OF g(1) h(1) d(1) h(2)] by blast
  let ?s = "vm_free a s1"
  have fr: "freed {a} s1 ?s" by (rule freed_one [OF s1(6) a])
  then have ok: "phys_ok (vm_pmm ?s)" "free_set (vm_pmm ?s) \<subseteq> free_set (vm_pmm s1) \<union> {frame_no a}" "vm_mem ?s = vm_mem s1" by (auto simp: freed_def)
  have hp: "vm_heap ?s = (vm_heap s1)\<lparr>heap_pmm := vm_pmm ?s\<rparr>" by (simp add: vm_free_def)
  have "heap_frames (vm_heap s1) \<inter> free_set (vm_pmm ?s) = {}"
    using ok(2) heap_frames_used [of "vm_heap s1"] d(2) unfolding s1(4) by blast
  note i = heap_inv_pmm_change [OF s1(2) _ this, folded hp]
  have root: "kernel_root ?s = kernel_root s" "root_reg ?s = root_reg s" using s1(8,9) by (simp_all add: vm_free_def)
  have "xlate Kernel_space v ?s = xlate Kernel_space v s" for v
  proof -
    have "tframes Kernel_space s \<inter> free_set (vm_pmm ?s) = {}" using ok(2) s1(5) d(3,4) good_frames [OF g(2)] by blast
    then have "good Kernel_space ?s \<and> tframes Kernel_space ?s = tframes Kernel_space s \<and> xlate Kernel_space v ?s = xlate Kernel_space v s
        \<and> room Kernel_space ?s v = room Kernel_space s v"
      using space_cong [OF g(2), of ?s v] ok s1(7) root(1) by (simp add: as_root_def)
    then show ?thesis by blast
  qed
  moreover have "heap_inv (vm_heap ?s)" "live (vm_heap ?s) = live (vm_heap s) - {(unat p, k)}" using i ok(1) s1(3) by (simp_all add: phys_ok_def)
  moreover have "free_set (vm_pmm ?s) \<subseteq> free_set (vm_pmm s) \<union> tframes (Heap_space p) s \<union> {frame_no a}" using ok(2) s1(5) by blast
  ultimately show thesis using that [OF s1(1)] root by blast
qed

lemma store32_page:
  assumes "page_aligned a" "frame_no x \<noteq> frame_no a"
  shows "store32 a v m x = m x"
proof -
  have "\<not> unat (x - a) < 4"
  proof
    assume lt: "unat (x - a) < 4"
    have "x = a + of_nat (unat (x - a))" by simp
    then have "frame_no x = frame_no a" using unat_in_page(2) [OF assms(1), of "unat (x - a)"] lt by simp
    then show False using assms(2) by simp
  qed
  then show ?thesis by (simp add: store32_def store_bytes_def)
qed

lemma selftest_ok:
  assumes k: "good Kernel_space s" and c: "card (tframes Kernel_space s) \<le> card (free_set (vm_pmm s))" "heap_inv (vm_heap s)" "create_space s = Some (as, s1)"
    and v: "room Kernel_space s va" "unat va < 2 ^ vbits" "4096 dvd unat va" "xlate Kernel_space va s = Some 0"
    and n: "Suc depth \<le> card (free_set (vm_pmm s1))"
  shows "\<exists>s'. vmm_selftest xlate create_space map_page switch_space mmu destroy_space va s = Some (True, s')
    \<and> heap_inv (vm_heap s') \<and> live (vm_heap s') = live (vm_heap s) \<and> free_set (vm_pmm s') \<subseteq> free_set (vm_pmm s)
    \<and> kernel_root s' = kernel_root s \<and> root_reg s' = kernel_root s \<and> (\<forall>v. xlate Kernel_space v s' = xlate Kernel_space v s)"
proof -
  note f = create_ok [OF k c] and kk = create_keeps_kernel [OF k c]
  obtain p j root where p: "as = Heap_space p" "as_at s1 = (as_at s)(p \<mapsto> root)" "live (vm_heap s1) = insert (unat p, j) (live (vm_heap s))"
    "(unat p, j) \<notin> live (vm_heap s)" using f by blast
  have g1: "good as s1" "room as s1 va" "tframes Kernel_space s1 \<inter> tframes as s1 = {}" using f v(1) kk(2,4) by blast+
  have fl: "(VMM_PRESENT OR VMM_WRITABLE) AND VMM_PRESENT \<noteq> 0" by (simp add: VMM_PRESENT_def VMM_WRITABLE_def)
  obtain a s2 s3 where m: "vm_alloc s1 = (a, s2)" "a \<noteq> 0" "page_aligned a" "frame_no a \<in> free_set (vm_pmm s1)"
    "map_page as va a (VMM_PRESENT OR VMM_WRITABLE) s2 = Some s3" "good as s3" "good Kernel_space s3" "xlate as va s3 = Some a"
    "\<And>v. xlate Kernel_space v s3 = xlate Kernel_space v s1" "tframes Kernel_space s3 = tframes Kernel_space s1"
    "tframes as s3 \<subseteq> tframes as s1 \<union> free_set (vm_pmm s1)" "frame_no a \<notin> tframes as s3" "frame_no a \<notin> tframes Kernel_space s3"
    "free_set (vm_pmm s3) \<subseteq> free_set (vm_pmm s1) - {frame_no a}" "rest_of s3 = rest_of s1" "phys_ok (vm_pmm s3)"
    using map_fresh [OF g1(1) kk(1) g1(3,2) v(2,3) n fl] by blast
  have free1: "free_set (vm_pmm s3) \<subseteq> free_set (vm_pmm s1)" using m(14) by blast
  have h1: "heap_inv (vm_heap s1)" using f by blast
  note h3 = heap_after_tables [OF m(15) h1 m(16) free1]
  have root: "as_root as s3 = Some root" "kernel_root s3 = kernel_root s" "as_at s3 = as_at s1"
    using f m(15) p(1,2) by (simp_all add: as_root_def rest_of_def)
  have same: "good bs t \<and> tframes bs t = tframes bs s3 \<and> xlate bs w t = xlate bs w s3"
    if "bs = as \<or> bs = Kernel_space" "vm_heap t = vm_heap s3" "as_at t = as_at s3" "kernel_root t = kernel_root s3"
      "\<And>x. frame_no x \<noteq> frame_no a \<Longrightarrow> vm_mem t x = vm_mem s3 x" for bs t w
  proof -
    have g: "good bs s3" "frame_no a \<notin> tframes bs s3" using that(1) m(6,7,12,13) by auto
    have "as_root bs t = as_root bs s3" using that(3,4) by (simp add: as_root_def split: aspace.splits)
    then show ?thesis using space_cong [OF g(1), of t w] that(2,5) m(16) good_frames [OF g(1)] g(2) by force
  qed
  obtain l where l: "switch_space as s3 = Some (s3\<lparr>root_reg := root, tlb_log := l\<rparr>)" using switch_ok [OF root(1)] by blast
  define s4 where "s4 = s3\<lparr>root_reg := root, tlb_log := l\<rparr>"
  define s5 where "s5 = s4\<lparr>vm_mem := store32 a 0xDEADBEEF (vm_mem s4)\<rparr>"
  obtain l' where l': "switch_space Kernel_space s5 = Some (s5\<lparr>root_reg := kernel_root s, tlb_log := l'\<rparr>)"
    using switch_ok [of Kernel_space s5 "kernel_root s"] root(2) by (auto simp: s5_def s4_def as_root_def)
  define s6 where "s6 = s5\<lparr>root_reg := kernel_root s, tlb_log := l'\<rparr>"
  have st: "vm_mem s5 x = vm_mem s3 x" if "frame_no x \<noteq> frame_no a" for x using store32_page [OF m(3) that] by (simp add: s5_def s4_def)
  have w4: "mmu s4 va = Some a"
    by (rule walk_xlate [of as]) (use same [of as s4 va] root(1) m(2,8) p(1) in \<open>simp_all add: s4_def as_root_def\<close>)
  have w5: "mmu s5 va = Some a"
    by (rule walk_xlate [of as]) (use same [of as s5 va] st root(1) m(2,8) p(1) in \<open>simp_all add: s5_def s4_def as_root_def\<close>)
  have s6: "good as s6" "good Kernel_space s6" "tframes as s6 = tframes as s3" "tframes Kernel_space s6 = tframes Kernel_space s3"
    "xlate as va s6 = Some a" "xlate Kernel_space w s6 = xlate Kernel_space w s" for w
    using same [of as s6 va] same [of Kernel_space s6 w] st m(8) m(9) [of w] kk(3) [of w] by (simp_all add: s6_def s5_def s4_def)
  have h6: "vm_heap s6 = vm_heap s3" by (simp add: s6_def s5_def s4_def)
  have hf: "heap_frames (vm_heap s6) = heap_frames (vm_heap s1)" using h3(3) h6 by simp
  have d: "heap_frames (vm_heap s6) \<inter> tframes as s6 = {}" "frame_no a \<notin> heap_frames (vm_heap s6)" "tframes Kernel_space s6 \<inter> tframes as s6 = {}"
    using m(4,11) f heap_frames_used [of "vm_heap s1"] kk(2,4) m(10) unfolding hf s6(3,4) by blast+
  obtain s7 where s7: "destroy_space as s6 = Some s7" "heap_inv (vm_heap (vm_free a s7))" "live (vm_heap (vm_free a s7)) = live (vm_heap s6) - {(unat p, j)}"
    "free_set (vm_pmm (vm_free a s7)) \<subseteq> free_set (vm_pmm s6) \<union> tframes as s6 \<union> {frame_no a}"
    "kernel_root (vm_free a s7) = kernel_root s6" "root_reg (vm_free a s7) = root_reg s6" "\<And>v. xlate Kernel_space v (vm_free a s7) = xlate Kernel_space v s6"
    using release_space [of p s6 j a] s6(1,2) d h3(1,2) h6 p(1,3) m(2,3,13) s6(4) by auto
  have r: "load32 (vm_mem s5) a = 0xDEADBEEF" by (simp add: s5_def)
  have "vmm_selftest xlate create_space map_page switch_space mmu destroy_space va s = Some (True, vm_free a s7)"
    using v(4) c(3) m(1,2,5) l l' w4 w5 s6(5,6) s7(1) r by (simp add: vmm_selftest_def flip: s4_def s5_def s6_def)
  moreover have "free_set (vm_pmm (vm_free a s7)) \<subseteq> free_set (vm_pmm s)"
    using s7(4) free1 f m(4,11) unfolding s6(3) h6 by blast
  moreover have "live (vm_heap (vm_free a s7)) = live (vm_heap s)" using s7(3) h6 h3(2) p(3,4) by simp
  ultimately show ?thesis using s7 s6(6) root(2) by (simp add: s6_def s5_def s4_def)
qed

end

end
