(* ===== verification/Process.thy ===== *)
theory Process
  imports Spaces Switch
begin

text \<open>
  User processes, \<^verbatim>\<open>arch/x86_64/process.c\<close> and \<^verbatim>\<open>arch/aarch64/process.c\<close> with the assembler of \<^verbatim>\<open>usermode.asm\<close> and
  \<^verbatim>\<open>usermode.S\<close>: building the launch stack, entering user mode through a context switch, and coming back
  through the one made by the exit system call. The state adds the processor of theory Switch and the two
  static variables of the file to the state of the virtual memory manager. What the process does between
  its first instruction and its exit system call is the argument \<open>user\<close>; a process that never exits is
  \<open>None\<close>. Addresses that the linker or the compiler chooses (the trampoline, the local variable \<open>params\<close>)
  are arguments.
\<close>

section \<open>State\<close>

record 'cpu proc = vm +
  proc_cpu :: 'cpu
  kernel_return_sp :: u64
  process_exit_code :: i32

definition LAUNCH_STACK_SIZE :: u64 where "LAUNCH_STACK_SIZE = 16 * 1024"

record launch_params =
  lp_entry :: u64
  lp_user_stack :: u64
  lp_data_sel :: u64
  lp_code_sel :: u64

section \<open>x86\_64\<close>

definition USER_CODE_SEL :: u64 where "USER_CODE_SEL = 0x1B"
definition USER_DATA_SEL :: u64 where "USER_DATA_SEL = 0x23"
definition USER_STACK_TOP :: u64 where "USER_STACK_TOP = 0x00007FFFFFFFF000"

definition build_launch_stack :: "u64 \<Rightarrow> u64 \<Rightarrow> u64 \<Rightarrow> cpu_x86 \<Rightarrow> u64 \<times> cpu_x86" where
  "build_launch_stack tramp stack_top params c =
     (let sp = stack_top; m = mem_x86 c;
          sp = sp - 8; m = m(sp := tramp);
          sp = sp - 8; m = m(sp := 0);
          sp = sp - 8; m = m(sp := 0);
          sp = sp - 8; m = m(sp := params);
          sp = sp - 8; m = m(sp := 0);
          sp = sp - 8; m = m(sp := 0);
          sp = sp - 8; m = m(sp := 0)
      in (sp, c\<lparr>mem_x86 := m\<rparr>))"

definition store_params :: "u64 \<Rightarrow> launch_params \<Rightarrow> cpu_x86 \<Rightarrow> cpu_x86" where
  "store_params p lp c = c\<lparr>mem_x86 := (mem_x86 c)(p := lp_entry lp, p + 8 := lp_user_stack lp, p + 16 := lp_data_sel lp, p + 24 := lp_code_sel lp)\<rparr>"

text \<open>The registers with which user mode is entered.\<close>

record user_ctx =
  u_pc :: u64
  u_sp :: u64
  u_cs :: u64
  u_ss :: u64
  u_if :: bool

text \<open>\<open>iretq\<close> pops what was just pushed; \<open>flags\<close> is the value that \<open>pushfq\<close> read.\<close>

definition enter_usermode :: "u64 \<Rightarrow> u64 \<Rightarrow> u64 \<Rightarrow> u64 \<Rightarrow> u64 \<Rightarrow> cpu_x86 \<Rightarrow> user_ctx \<times> cpu_x86" where
  "enter_usermode flags entry user_stack user_data_sel user_code_sel c =
     (let c = push_x86 user_data_sel c;
          c = push_x86 user_stack c;
          rax = flags OR 0x200;
          c = push_x86 rax c;
          c = push_x86 user_code_sel c;
          c = push_x86 entry c;
          (pc', c) = pop_x86 c;
          (cs', c) = pop_x86 c;
          (fl', c) = pop_x86 c;
          (sp', c) = pop_x86 c;
          (ss', c) = pop_x86 c
      in (\<lparr>u_pc = pc', u_sp = sp', u_cs = cs', u_ss = ss', u_if = bit fl' 9\<rparr>, c))"

definition process_trampoline :: "u64 \<Rightarrow> u64 \<Rightarrow> cpu_x86 \<Rightarrow> user_ctx \<times> cpu_x86" where
  "process_trampoline hang flags c =
     (let m = mem_x86 c; p = r12 c
      in enter_usermode flags (m p) (m (p + 8)) (m (p + 16)) (m (p + 24)) (push_x86 hang c))"

text \<open>From the loaded image to the first instruction of the trampoline.\<close>

definition process_launch :: "u64 \<Rightarrow> u64 \<Rightarrow> aspace \<Rightarrow> elf64_ehdr \<Rightarrow> cpu_x86 proc \<Rightarrow> (u64 \<times> cpu_x86 proc) option" where
  "process_launch tramp params as eh s =
     do {
       let lp = \<lparr>lp_entry = e_entry eh, lp_user_stack = USER_STACK_TOP, lp_data_sel = USER_DATA_SEL, lp_code_sel = USER_CODE_SEL\<rparr>;
       let s = s\<lparr>proc_cpu := store_params params lp (proc_cpu s)\<rparr>;
       (launch_stack_base, h) \<leftarrow> kmalloc LAUNCH_STACK_SIZE (vm_heap s);
       let s = s\<lparr>vm_heap := h\<rparr>;
       let (launch_sp, c) = build_launch_stack tramp (launch_stack_base + LAUNCH_STACK_SIZE) params (proc_cpu s);
       let s = s\<lparr>proc_cpu := c\<rparr>;
       s \<leftarrow> vmm_switch as s;
       let (old_sp, c) = arch_context_switch_x86 launch_sp (proc_cpu s);
       Some (launch_stack_base, s\<lparr>proc_cpu := c, kernel_return_sp := old_sp\<rparr>)
     }"

definition process_syscall_exit :: "i32 \<Rightarrow> cpu_x86 proc \<Rightarrow> cpu_x86 proc" where
  "process_syscall_exit code s =
     (let s = s\<lparr>process_exit_code := code\<rparr>;
          (unused, c) = arch_context_switch_x86 (kernel_return_sp s) (proc_cpu s)
      in s\<lparr>proc_cpu := c\<rparr>)"

definition process_run :: "u64 \<Rightarrow> u64 \<Rightarrow> u64 \<Rightarrow> u64 \<Rightarrow> (user_ctx \<Rightarrow> cpu_x86 proc \<Rightarrow> (i32 \<times> cpu_x86 proc) option) \<Rightarrow>
    u64 \<Rightarrow> usize \<Rightarrow> cpu_x86 proc \<Rightarrow> (i32 \<times> cpu_x86 proc) option" where
  "process_run tramp hang flags params user elf_data elf_size s =
     (let eh = read_ehdr (vm_mem s) elf_data
      in if \<not> elf_valid EM_X86_64 eh elf_size then Some (-1, s)
         else
           do {
             (as, s) \<leftarrow> vmm_create_address_space s;
             s \<leftarrow> load_image vmm_map vmm_translate USER_STACK_TOP as elf_data eh s;
             (launch_stack_base, s) \<leftarrow> process_launch tramp params as eh s;
             let (ctx, c) = process_trampoline hang flags (proc_cpu s);
             (code, s) \<leftarrow> user ctx (s\<lparr>proc_cpu := c\<rparr>);
             let s = process_syscall_exit code s;
             let s = s\<lparr>proc_cpu := (proc_cpu s)\<lparr>iflag := True\<rparr>\<rparr>;
             s \<leftarrow> vmm_switch vmm_kernel_space s;
             s \<leftarrow> vmm_destroy_address_space as s;
             h \<leftarrow> kfree launch_stack_base (vm_heap s);
             Some (process_exit_code s, s\<lparr>vm_heap := h\<rparr>)
           })"

section \<open>aarch64\<close>

definition USER_STACK_TOP_a64 :: u64 where "USER_STACK_TOP_a64 = 0xF0000000"

definition build_launch_stack_a64 :: "u64 \<Rightarrow> u64 \<Rightarrow> u64 \<Rightarrow> cpu_a64 \<Rightarrow> u64 \<times> cpu_a64" where
  "build_launch_stack_a64 tramp stack_top params c =
     (let sp = stack_top; m = mem_a64 c;
          sp = sp - 8; m = m(sp := tramp);
          sp = sp - 8; m = m(sp := 0);
          sp = sp - 8; m = m(sp := 0);
          sp = sp - 8; m = m(sp := 0);
          sp = sp - 8; m = m(sp := 0);
          sp = sp - 8; m = m(sp := 0);
          sp = sp - 8; m = m(sp := 0);
          sp = sp - 8; m = m(sp := 0);
          sp = sp - 8; m = m(sp := 0);
          sp = sp - 8; m = m(sp := 0);
          sp = sp - 8; m = m(sp := 0);
          sp = sp - 8; m = m(sp := params)
      in (sp, c\<lparr>mem_a64 := m\<rparr>))"

text \<open>The two fields of the parameter block here; there are no selectors.\<close>

definition store_params_a64 :: "u64 \<Rightarrow> u64 \<Rightarrow> u64 \<Rightarrow> cpu_a64 \<Rightarrow> cpu_a64" where
  "store_params_a64 p entry user_stack c = c\<lparr>mem_a64 := (mem_a64 c)(p := entry, p + 8 := user_stack)\<rparr>"

text \<open>\<open>eret\<close> takes the address from ELR\_EL1, the stack from SP\_EL0 and the interrupt masks from SPSR\_EL1,
  which is 0; the selector fields of the context stay 0.\<close>

definition enter_usermode_a64 :: "u64 \<Rightarrow> u64 \<Rightarrow> user_ctx" where
  "enter_usermode_a64 entry user_stack =
     (let sp_el0 = user_stack; elr_el1 = entry; spsr_el1 = (0 :: u64)
      in \<lparr>u_pc = elr_el1, u_sp = sp_el0, u_cs = 0, u_ss = 0, u_if = (spsr_el1 AND 0x3C0 = 0)\<rparr>)"

definition process_trampoline_a64 :: "u64 \<Rightarrow> cpu_a64 \<Rightarrow> user_ctx \<times> cpu_a64" where
  "process_trampoline_a64 hang c =
     (let m = mem_a64 c; p = x19 c; c = c\<lparr>x0 := m p, x30 := hang\<rparr>
      in (enter_usermode_a64 (m p) (m (p + 8)), c))"

definition process_launch_a64 :: "u64 \<Rightarrow> u64 \<Rightarrow> aspace \<Rightarrow> elf64_ehdr \<Rightarrow> cpu_a64 proc \<Rightarrow> (u64 \<times> cpu_a64 proc) option" where
  "process_launch_a64 tramp params as eh s =
     do {
       let s = s\<lparr>proc_cpu := store_params_a64 params (e_entry eh) USER_STACK_TOP_a64 (proc_cpu s)\<rparr>;
       (launch_stack_base, h) \<leftarrow> kmalloc LAUNCH_STACK_SIZE (vm_heap s);
       let s = s\<lparr>vm_heap := h\<rparr>;
       let (launch_sp, c) = build_launch_stack_a64 tramp (launch_stack_base + LAUNCH_STACK_SIZE) params (proc_cpu s);
       let s = s\<lparr>proc_cpu := c\<rparr>;
       s \<leftarrow> vmm_switch_a64 as s;
       let (old_sp, c) = arch_context_switch_a64 launch_sp (proc_cpu s);
       Some (launch_stack_base, s\<lparr>proc_cpu := c, kernel_return_sp := old_sp\<rparr>)
     }"

definition process_syscall_exit_a64 :: "i32 \<Rightarrow> cpu_a64 proc \<Rightarrow> cpu_a64 proc" where
  "process_syscall_exit_a64 code s =
     (let s = s\<lparr>process_exit_code := code\<rparr>;
          (unused, c) = arch_context_switch_a64 (kernel_return_sp s) (proc_cpu s)
      in s\<lparr>proc_cpu := c\<rparr>)"

definition process_run_a64 :: "u64 \<Rightarrow> u64 \<Rightarrow> u64 \<Rightarrow> (user_ctx \<Rightarrow> cpu_a64 proc \<Rightarrow> (i32 \<times> cpu_a64 proc) option) \<Rightarrow>
    u64 \<Rightarrow> usize \<Rightarrow> cpu_a64 proc \<Rightarrow> (i32 \<times> cpu_a64 proc) option" where
  "process_run_a64 tramp hang params user elf_data elf_size s =
     (let eh = read_ehdr (vm_mem s) elf_data
      in if \<not> elf_valid EM_AARCH64 eh elf_size then Some (-1, s)
         else
           do {
             (as, s) \<leftarrow> vmm_create_address_space_a64 s;
             s \<leftarrow> load_image vmm_map_a64 vmm_translate_a64 USER_STACK_TOP_a64 as elf_data eh s;
             (launch_stack_base, s) \<leftarrow> process_launch_a64 tramp params as eh s;
             let (ctx, c) = process_trampoline_a64 hang (proc_cpu s);
             (code, s) \<leftarrow> user ctx (s\<lparr>proc_cpu := c\<rparr>);
             let s = process_syscall_exit_a64 code s;
             let s = s\<lparr>proc_cpu := (proc_cpu s)\<lparr>daif_clear := True\<rparr>\<rparr>;
             s \<leftarrow> vmm_switch_a64 vmm_kernel_space_a64 s;
             s \<leftarrow> vmm_destroy_address_space_a64 as s;
             h \<leftarrow> kfree launch_stack_base (vm_heap s);
             Some (process_exit_code s, s\<lparr>vm_heap := h\<rparr>)
           })"

section \<open>Loaded images\<close>

text \<open>Property C10. Loading an ELF image on x86\_64 puts exactly the bytes that it asks for into the address space: after
  \<open>load_image\<close> every address of a loadable segment translates to a physical address that holds the file's byte,
  or 0 past the file's part of the segment and on the rest of its pages, later segments winning over
  earlier ones; the four stack pages are mapped to frames that
  are neither free nor page tables; and no other address changes its translation.\<close>

theorem elf_image_loaded:
  assumes "loadable x86_fmt 3 as X base eh USER_STACK_TOP s"
  shows "\<exists>s'. load_image vmm_map vmm_translate USER_STACK_TOP as base eh s = Some s' \<and> sp_good x86_fmt 3 as s'
    \<and> (\<forall>v b. v \<notin> stack_addrs USER_STACK_TOP \<longrightarrow> image_view (vm_mem s) base eh v = Some b \<longrightarrow>
         (\<exists>pa. vmm_translate as v s' = Some pa \<and> pa \<noteq> 0 \<and> vm_mem s' pa = b))
    \<and> (\<forall>v \<in> stack_addrs USER_STACK_TOP. \<exists>pa. vmm_translate as v s' = Some pa \<and> pa \<noteq> 0
         \<and> frame_no pa \<notin> free_set (vm_pmm s') \<and> frame_no pa \<notin> sp_tframes x86_fmt 3 as s')
    \<and> (\<forall>v. unat v < 2 ^ 48 \<longrightarrow> v \<notin> stack_addrs USER_STACK_TOP \<longrightarrow> (\<forall>ph \<in> set (phdrs (vm_mem s) base eh). v \<notin> seg_addrs ph) \<longrightarrow>
         vmm_translate as v s' = vmm_translate as v s)"
proof -
  have tp: "4096 dvd unat USER_STACK_TOP" "unat USER_STACK_TOP \<le> 2 ^ 48" "16384 \<le> unat USER_STACK_TOP" by (simp_all add: USER_STACK_TOP_def)
  show ?thesis
    by (rule ex_forward [OF x86_space.load_image_seen [of as s X eh base USER_STACK_TOP, OF _ _ _ _ _ tp]]) (use assms in \<open>simp_all add: loadable_def\<close>)
qed

text \<open>The same on aarch64, with three levels of tables and 39-bit addresses.\<close>

theorem elf_image_loaded_a64:
  assumes "loadable a64_fmt 2 as X base eh USER_STACK_TOP_a64 s"
  shows "\<exists>s'. load_image vmm_map_a64 vmm_translate_a64 USER_STACK_TOP_a64 as base eh s = Some s' \<and> sp_good a64_fmt 2 as s'
    \<and> (\<forall>v b. v \<notin> stack_addrs USER_STACK_TOP_a64 \<longrightarrow> image_view (vm_mem s) base eh v = Some b \<longrightarrow>
         (\<exists>pa. vmm_translate_a64 as v s' = Some pa \<and> pa \<noteq> 0 \<and> vm_mem s' pa = b))
    \<and> (\<forall>v \<in> stack_addrs USER_STACK_TOP_a64. \<exists>pa. vmm_translate_a64 as v s' = Some pa \<and> pa \<noteq> 0
         \<and> frame_no pa \<notin> free_set (vm_pmm s') \<and> frame_no pa \<notin> sp_tframes a64_fmt 2 as s')
    \<and> (\<forall>v. unat v < 2 ^ 39 \<longrightarrow> v \<notin> stack_addrs USER_STACK_TOP_a64 \<longrightarrow> (\<forall>ph \<in> set (phdrs (vm_mem s) base eh). v \<notin> seg_addrs ph) \<longrightarrow>
         vmm_translate_a64 as v s' = vmm_translate_a64 as v s)"
proof -
  have tp: "4096 dvd unat USER_STACK_TOP_a64" "unat USER_STACK_TOP_a64 \<le> 2 ^ 39" "16384 \<le> unat USER_STACK_TOP_a64"
    by (simp_all add: USER_STACK_TOP_a64_def)
  show ?thesis
    by (rule ex_forward [OF a64_space.load_image_seen [of as s X eh base USER_STACK_TOP_a64, OF _ _ _ _ _ tp]]) (use assms in \<open>simp_all add: loadable_def\<close>)
qed

section \<open>The life of a process\<close>

subsection \<open>x86\_64\<close>

lemma create_x86:
  assumes r: "ready x86_fmt 3 (kernel_root s) s" "card (tset x86_fmt (vm_mem s) 3 (kernel_root s)) \<le> card (free_set (vm_pmm s))"
    and h: "heap_inv (vm_heap s)" and c: "vmm_create_address_space s = Some (as, s1)"
  obtains p k root where "as = Heap_space p" "as_at s1 = (as_at s)(p \<mapsto> root)" "heap_inv (vm_heap s1)"
    "live (vm_heap s1) = insert (unat p, k) (live (vm_heap s))" "(unat p, k) \<notin> live (vm_heap s)"
    "heap_frames (vm_heap s1) \<inter> sp_tframes x86_fmt 3 as s1 = {}" "kernel_root s1 = kernel_root s" "vm.more s1 = vm.more s"
    "sp_tframes x86_fmt 3 as s1 \<subseteq> free_set (vm_pmm s)" "free_set (vm_pmm s1) \<subseteq> free_set (vm_pmm s)"
proof -
  have k: "as_root Kernel_space s = Some (kernel_root s)" by (simp add: as_root_def)
  have g: "sp_good x86_fmt 3 Kernel_space s" using r(1) k by (simp add: sp_good_def)
  have "card (sp_tframes x86_fmt 3 Kernel_space s) \<le> card (free_set (vm_pmm s))"
    using r tset_card [of x86_fmt "vm_mem s" 3 "kernel_root s"] k by (simp add: sp_tframes_def ready_def)
  note f = x86_life.create_ok [OF g this h c]
  obtain p j root where p: "as = Heap_space p" "as_at s1 = (as_at s)(p \<mapsto> root)" "live (vm_heap s1) = insert (unat p, j) (live (vm_heap s))"
    "(unat p, j) \<notin> live (vm_heap s)" using f by blast
  show thesis by (rule that [OF p(1,2) _ p(3,4)]) (use f in blast)+
qed

lemma build_launch_stack_eq: "build_launch_stack tramp stk params c = arch_thread_init_stack_x86 tramp stk params 0 c"
  by (simp add: build_launch_stack_def arch_thread_init_stack_x86_def)

definition params_words :: "u64 \<Rightarrow> u64 set" where
  "params_words p = {p, p + 8, p + 16, p + 24}"

text \<open>Whatever the flags were, user mode is entered at the entry point with the user stack, the user selectors
  and interrupts enabled.\<close>

lemma enter_usermode_eq:
  "enter_usermode flags entry stk ds cs' c = (\<lparr>u_pc = entry, u_sp = stk, u_cs = cs', u_ss = ds, u_if = True\<rparr>,
     c\<lparr>mem_x86 := (mem_x86 c)(rsp c - 8 := ds, rsp c - 16 := stk, rsp c - 24 := flags OR 0x200, rsp c - 32 := cs', rsp c - 40 := entry)\<rparr>)"
  by (simp add: enter_usermode_def push_x86_def pop_x86_def Let_def bit_simps)

definition launch_ctx :: "u64 \<Rightarrow> user_ctx" where
  "launch_ctx entry = \<lparr>u_pc = entry, u_sp = USER_STACK_TOP, u_cs = USER_CODE_SEL, u_ss = USER_DATA_SEL, u_if = True\<rparr>"

lemma store_params_mem: "a \<notin> params_words p \<Longrightarrow> mem_x86 (store_params p lp c) a = mem_x86 c a"
  by (simp add: store_params_def params_words_def)

lemma launch_cpu:
  assumes w: "words_x86 (stk - 56) \<inter> (words_x86 (rsp c - 48) \<union> params_words params) = {}"
    "words_x86 (rsp c - 48) \<inter> params_words params = {}"
    and b: "build_launch_stack tramp stk params (store_params params lp c) = (sp, c1)"
    and s: "arch_context_switch_x86 sp c1 = (old, c2)"
    and lp: "lp = \<lparr>lp_entry = entry, lp_user_stack = USER_STACK_TOP, lp_data_sel = USER_DATA_SEL, lp_code_sel = USER_CODE_SEL\<rparr>"
  shows "\<exists>c3. process_trampoline hang flags c2 = (launch_ctx entry, c3) \<and> frame_x86 c3 old = entry_ctx_x86 c \<and> rip c2 = tramp \<and> old = rsp c - 48"
proof -
  let ?c = "store_params params lp c" and ?ops = "arch_x86 tramp"
  have i: "arch_thread_init_stack ?ops stk params 0 ?c = (sp, c1)" using b by (simp add: arch_x86_def build_launch_stack_eq)
  have sw: "arch_context_switch ?ops sp c1 = (old, c2)" using s by (simp add: arch_x86_def)
  have b': "sp = fst (arch_thread_init_stack_x86 tramp stk params 0 ?c)" "c1 = snd (arch_thread_init_stack_x86 tramp stk params 0 ?c)"
    using b by (simp_all add: build_launch_stack_eq)
  have regs: "sp = stk - 56" "entry_ctx_x86 c1 = (entry_ctx_x86 c)[6 := mem_x86 c1 (rsp c)]" "rsp c1 = rsp c"
    by (simp_all add: b' init_stack_x86_eq store_params_def entry_ctx_x86_def)
  have old: "old = rsp c - 48" using s regs(3) by (simp add: switch_x86_eq)
  have m1: "mem_x86 c1 a = mem_x86 ?c a" if "a \<notin> words_x86 (stk - 56)" for a
    using init_stack_x86_mem [OF that, of tramp params 0 ?c] by (simp only: b')
  have m2: "mem_x86 c2 a = mem_x86 c1 a" if "a \<notin> words_x86 (rsp c - 48)" for a
  proof -
    have "c2 = snd (arch_context_switch_x86 sp c1)" using s by simp
    then have "mem_x86 c2 = mem_x86 (push_saved_x86 c1)" by (simp add: switch_x86_eq Let_def)
    then show ?thesis using push_saved_x86_mem [of a c1] that regs(3) by simp
  qed
  have "exit_ctx_x86 c2 = first_ctx_x86 tramp stk params 0"
    using x86_switch.first_switch [OF i refl sw] w(1) regs(1) old by blast
  then have r: "r12 c2 = params" "rip c2 = tramp" "rsp c2 = stk" by (simp_all add: exit_ctx_x86_def first_ctx_x86_def)
  have "mem_x86 c2 a = mem_x86 ?c a" if "a \<in> params_words params" for a
  proof -
    have "a \<notin> words_x86 (stk - 56)" "a \<notin> words_x86 (rsp c - 48)" using that w by blast+
    then show ?thesis using m1 m2 by simp
  qed
  then have p: "mem_x86 c2 params = entry" "mem_x86 c2 (params + 8) = USER_STACK_TOP" "mem_x86 c2 (params + 16) = USER_DATA_SEL"
    "mem_x86 c2 (params + 24) = USER_CODE_SEL" by (simp_all add: params_words_def store_params_def lp)
  have "rsp c \<in> words_x86 (rsp c - 48)" by (simp add: words_x86_def)
  then have "mem_x86 c1 (rsp c) = mem_x86 c (rsp c)" using m1 [of "rsp c"] w store_params_mem [of "rsp c" params lp c]
    by (metis (no_types, lifting) disjoint_iff UnI1 UnI2)
  then have f2: "frame_x86 c2 old = entry_ctx_x86 c" using x86_switch.switch_saves [OF sw] regs(2) by (simp add: entry_ctx_x86_def)
  define c3 where "c3 = snd (process_trampoline hang flags c2)"
  have c3: "mem_x86 c3 a = mem_x86 c2 a" if "a \<notin> words_x86 (stk - 56)" for a
    using that by (simp add: c3_def process_trampoline_def enter_usermode_eq push_x86_def r words_x86_def Let_def)
  have "frame_x86 c3 old = frame_x86 c2 old" by (intro frame_x86_cong c3) (use w(1) old in blast)
  moreover have "process_trampoline hang flags c2 = (launch_ctx entry, c3)"
    using p by (simp add: c3_def process_trampoline_def enter_usermode_eq push_x86_def r launch_ctx_def Let_def)
  ultimately show ?thesis using f2 r(2) old by simp
qed

text \<open>What a process leaves alone between its first instruction and its exit: the kernel's variables, its own page
  tables and the frame that \<open>process_run\<close> saved, also when the stack of the system call is pushed.\<close>

definition kernel_kept :: "aspace \<Rightarrow> cpu_x86 proc \<Rightarrow> cpu_x86 proc \<Rightarrow> bool" where
  "kernel_kept as t t' \<longleftrightarrow> kernel_return_sp t' = kernel_return_sp t \<and> kernel_root t' = kernel_root t \<and> as_at t' = as_at t \<and> vm_heap t' = vm_heap t
     \<and> (\<forall>x. frame_no x \<in> sp_tframes x86_fmt 3 as t \<longrightarrow> vm_mem t' x = vm_mem t x)
     \<and> frame_x86 (proc_cpu t') (kernel_return_sp t) = frame_x86 (proc_cpu t) (kernel_return_sp t)
     \<and> words_x86 (kernel_return_sp t) \<inter> words_x86 (rsp (proc_cpu t') - 48) = {}"

lemma loadable_more:
  assumes "loadable f n as X base eh tp s" "Y \<inter> free_set (vm_pmm s) = {}" "Y \<inter> sp_tframes f n as s = {}"
  shows "loadable f n as (X \<union> Y) base eh tp s"
  using assms unfolding loadable_def seg_file_in_def by (simp add: Int_Un_distrib2)

text \<open>The loader takes its tables from the free frames.\<close>

lemma load_x86:
  assumes "loadable x86_fmt 3 as X base eh USER_STACK_TOP s" "load_image vmm_map vmm_translate USER_STACK_TOP as base eh s = Some s'"
  shows "sp_good x86_fmt 3 as s'" "rest_of s' = rest_of s" "free_set (vm_pmm s') \<subseteq> free_set (vm_pmm s)"
    "sp_tframes x86_fmt 3 as s' \<subseteq> sp_tframes x86_fmt 3 as s \<union> free_set (vm_pmm s)"
proof -
  let ?Y = "- (sp_tframes x86_fmt 3 as s \<union> free_set (vm_pmm s))"
  have tp: "4096 dvd unat USER_STACK_TOP" "unat USER_STACK_TOP \<le> 2 ^ 48" "16384 \<le> unat USER_STACK_TOP" by (simp_all add: USER_STACK_TOP_def)
  have "loadable x86_fmt 3 as (X \<union> ?Y) base eh USER_STACK_TOP s" by (rule loadable_more [OF assms(1)]) auto
  then have "sp_good x86_fmt 3 as s' \<and> rest_of s' = rest_of s \<and> free_set (vm_pmm s') \<subseteq> free_set (vm_pmm s) \<and> (X \<union> ?Y) \<inter> sp_tframes x86_fmt 3 as s' = {}"
    using x86_space.load_image_seen [of as s "X \<union> ?Y" eh base USER_STACK_TOP, OF _ _ _ _ _ tp] assms(2) by (simp add: loadable_def)
  then show "sp_good x86_fmt 3 as s'" "rest_of s' = rest_of s" "free_set (vm_pmm s') \<subseteq> free_set (vm_pmm s)"
    "sp_tframes x86_fmt 3 as s' \<subseteq> sp_tframes x86_fmt 3 as s \<union> free_set (vm_pmm s)" by blast+
qed

lemma proc_more: "vm.more s' = vm.more s \<Longrightarrow> proc_cpu s' = proc_cpu (s :: 'cpu proc)"
  by (cases s'; cases s) simp

text \<open>Freeing page tables writes no memory.\<close>

lemma free_tree_mem: "vm_mem (free_tree f n t s) = vm_mem s"
proof (induction n arbitrary: t s)
  case (Suc n)
  have "vm_mem (fold (\<lambda>i s. let e = pt_get (vm_mem s) t i in if is_table f e then free_tree f n (child f e) s else s) xs s) = vm_mem s" for xs
    by (induction xs arbitrary: s) (simp_all add: Suc.IH Let_def)
  then show ?case by (simp add: vm_free_def)
qed (simp add: vm_free_def)

lemma destroy_mem: "vmm_destroy_address_space as s = Some s' \<Longrightarrow> vm_mem s' = vm_mem s"
  using free_table_tree [of 3 _ s] by (auto simp: vmm_destroy_address_space_def free_tree_mem Let_def split: aspace.splits bind_splits)

text \<open>The second half of \<open>process_run\<close>, from the exit system call on.\<close>

lemma process_finish:
  fixes code :: i32
  assumes k: "kernel_kept (Heap_space p) t t'" and r: "ready x86_fmt 3 root t" "as_at t p = Some root"
    and h: "heap_inv (vm_heap t)" "live (vm_heap t) = insert (unat stk, j) (insert (unat p, k) H)" "(unat p, k) \<notin> H"
      "(unat stk, j) \<notin> insert (unat p, k) H" "heap_frames (vm_heap t) \<inter> sp_tframes x86_fmt 3 (Heap_space p) t = {}"
  defines "t1 \<equiv> process_syscall_exit code t'"
  defines "t2 \<equiv> t1\<lparr>proc_cpu := (proc_cpu t1)\<lparr>iflag := True\<rparr>\<rparr>"
  shows "\<exists>t3 t4 h'. vmm_switch vmm_kernel_space t2 = Some t3 \<and> vmm_destroy_address_space (Heap_space p) t3 = Some t4
    \<and> kfree stk (vm_heap t4) = Some h' \<and> process_exit_code t4 = code \<and> root_reg t4 = kernel_root t \<and> as_at t4 = (as_at t)(p := None)
    \<and> iflag (proc_cpu t4) \<and> exit_ctx_x86 (proc_cpu t4) = frame_x86 (proc_cpu t) (kernel_return_sp t)
    \<and> heap_inv h' \<and> live h' = H \<and> free_set (heap_pmm h') \<subseteq> free_set (vm_pmm t) \<union> sp_tframes x86_fmt 3 (Heap_space p) t \<and> vm_mem t4 = vm_mem t'"
proof -
  note kk = k [unfolded kernel_kept_def]
  define t3 where "t3 = t2\<lparr>root_reg := kernel_root t, tlb_log := tlb_log t2 @ [Flush_all]\<rparr>"
  have same: "vm_mem t2 = vm_mem t'" "vm_heap t2 = vm_heap t" "as_at t2 = as_at t" "kernel_root t2 = kernel_root t"
    "process_exit_code t2 = code" "iflag (proc_cpu t2)" "exit_ctx_x86 (proc_cpu t2) = exit_ctx_x86 (proc_cpu t1)"
    using kk by (simp_all add: t2_def t1_def process_syscall_exit_def Let_def case_prod_beta exit_ctx_x86_def)
  have "exit_ctx_x86 (proc_cpu t1) = frame_x86 (proc_cpu t') (kernel_return_sp t')"
    using x86_switch.switch_loads [where sp = "kernel_return_sp t'" and c = "proc_cpu t'"] kk
    by (simp add: t1_def process_syscall_exit_def Let_def case_prod_beta arch_x86_def switch_x86_eq)
  then have ctx: "exit_ctx_x86 (proc_cpu t2) = frame_x86 (proc_cpu t) (kernel_return_sp t)" using same(7) kk by simp
  have sw: "vmm_switch vmm_kernel_space t2 = Some t3"
    using same(4) by (simp add: vmm_switch_def vmm_kernel_space_def as_root_def t3_def)
  have t3: "vm_mem t3 = vm_mem t'" "vm_heap t3 = vm_heap t" "as_at t3 = as_at t" "root_reg t3 = kernel_root t"
    "proc_cpu t3 = proc_cpu t2" "process_exit_code t3 = code" using same by (simp_all add: t3_def)
  have g: "sp_good x86_fmt 3 (Heap_space p) t" using r by (simp add: sp_good_def as_root_def)
  have "phys_ok (vm_pmm t)" "sp_tframes x86_fmt 3 (Heap_space p) t \<inter> free_set (vm_pmm t) = {}"
    using x86_space.good_frames [OF g] by blast+
  then have g3: "sp_good x86_fmt 3 (Heap_space p) t3" "sp_tframes x86_fmt 3 (Heap_space p) t3 = sp_tframes x86_fmt 3 (Heap_space p) t"
    using x86_life.space_cong [OF g, of t3] kk t3(1-3) by (simp_all add: as_root_def)
  have l: "heap_inv (vm_heap t3)" "heap_frames (vm_heap t3) \<inter> sp_tframes x86_fmt 3 (Heap_space p) t3 = {}" "(unat p, k) \<in> live (vm_heap t3)"
    using h t3(2) g3(2) by simp_all
  obtain t4 where t4: "vmm_destroy_address_space (Heap_space p) t3 = Some t4" "heap_inv (vm_heap t4)" "live (vm_heap t4) = live (vm_heap t3) - {(unat p, k)}"
    "free_set (vm_pmm t4) \<subseteq> free_set (vm_pmm t3) \<union> sp_tframes x86_fmt 3 (Heap_space p) t3" "as_at t4 = (as_at t3)(p := None)"
    "root_reg t4 = root_reg t3" "vm.more t4 = vm.more t3"
    using x86_life.destroy_ok [OF g3(1) l] by (elim exE conjE)
  have lh: "live (vm_heap t4) = insert (unat stk, j) H" using t4(3) h(2-4) t3(2) by auto
  then obtain h2 where h2: "kfree stk (vm_heap t4) = Some h2" "heap_inv h2" "live h2 = live (vm_heap t4) - {(unat stk, j)}"
    using kfree_inv [OF t4(2), of stk j] by auto
  have "live h2 = H" using h2(3) lh h(4) by auto
  moreover have "free_set (heap_pmm h2) \<subseteq> free_set (vm_pmm t) \<union> sp_tframes x86_fmt 3 (Heap_space p) t"
    using t4(4) kfree_pmm [OF h2(1)] t3(2) g3(2) by simp
  moreover have "proc_cpu t4 = proc_cpu t3" "process_exit_code t4 = process_exit_code t3"
    using t4(7) by (cases t3; cases t4; simp)+
  ultimately show ?thesis
    using sw t4(1,5,6) h2(1,2) ctx same(6) t3(1,3-6) destroy_mem [OF t4(1)]
    by - (rule exI [of _ t3], rule exI [of _ t4], rule exI [of _ h2], simp)
qed

text \<open>The process is entered with the image loaded; \<open>Q\<close> is what is known of the memory that it leaves behind.\<close>

lemma process_run_ok:
  fixes s s1 s2 :: "cpu_x86 proc"
  assumes "elf_valid EM_X86_64 (read_ehdr (vm_mem s) elf) sz" and h: "heap_inv (vm_heap s)"
    and k: "ready x86_fmt 3 (kernel_root s) s" "card (tset x86_fmt (vm_mem s) 3 (kernel_root s)) \<le> card (free_set (vm_pmm s))"
    and c: "vmm_create_address_space s = Some (as, s1)" and l: "loadable x86_fmt 3 as X elf (read_ehdr (vm_mem s) elf) USER_STACK_TOP s1"
    and s2: "load_image vmm_map vmm_translate USER_STACK_TOP as elf (read_ehdr (vm_mem s) elf) s1 = Some s2"
    and m: "kmalloc LAUNCH_STACK_SIZE (vm_heap s2) = Some (stk, h2)" "stk \<noteq> 0"
    and w: "words_x86 (stk + LAUNCH_STACK_SIZE - 56) \<inter> (words_x86 (rsp (proc_cpu s) - 48) \<union> params_words params) = {}"
      "words_x86 (rsp (proc_cpu s) - 48) \<inter> params_words params = {}"
    and u: "\<And>t. as_root as t = Some (root_reg t) \<Longrightarrow> kernel_return_sp t = rsp (proc_cpu s) - 48 \<Longrightarrow> vm_mem t = vm_mem s2 \<Longrightarrow>
        sp_tframes x86_fmt 3 as t = sp_tframes x86_fmt 3 as s2 \<Longrightarrow> as_at t = as_at s2 \<Longrightarrow>
        \<exists>t'. user (launch_ctx (e_entry (read_ehdr (vm_mem s) elf))) t = Some (code, t') \<and> kernel_kept as t t' \<and> Q (vm_mem t')"
  shows "\<exists>s'. process_run tramp hang flags params user elf sz s = Some (code, s') \<and> exit_ctx_x86 (proc_cpu s') = entry_ctx_x86 (proc_cpu s)
    \<and> iflag (proc_cpu s') \<and> root_reg s' = kernel_root s \<and> as_root as s' = None \<and> (\<forall>a. Heap_space a \<noteq> as \<longrightarrow> as_at s' a = as_at s a)
    \<and> heap_inv (vm_heap s') \<and> live (vm_heap s') = live (vm_heap s) \<and> free_set (vm_pmm s') \<subseteq> free_set (vm_pmm s) \<and> Q (vm_mem s')"
proof -
  let ?eh = "read_ehdr (vm_mem s) elf" and ?T = "sp_tframes x86_fmt 3 as"
  obtain p n root where 1: "as = Heap_space p" "as_at s1 = (as_at s)(p \<mapsto> root)" "heap_inv (vm_heap s1)"
    "live (vm_heap s1) = insert (unat p, n) (live (vm_heap s))" "(unat p, n) \<notin> live (vm_heap s)"
    "heap_frames (vm_heap s1) \<inter> ?T s1 = {}" "kernel_root s1 = kernel_root s" "vm.more s1 = vm.more s"
    "?T s1 \<subseteq> free_set (vm_pmm s)" "free_set (vm_pmm s1) \<subseteq> free_set (vm_pmm s)"
    by (rule create_x86 [OF k h c])
  note 2 = load_x86 [OF l s2]
  have root: "as_root as s2 = Some root" "kernel_root s2 = kernel_root s" "as_at s2 = as_at s1"
    using as_root_rest [OF 2(2), of as] 1(1,2,7) 2(2) by (simp_all add: as_root_def rest_of_def)
  have ok2: "ready x86_fmt 3 root s2" using 2(1) root(1) by (simp add: sp_good_def)
  have p2: "phys_ok (vm_pmm s2)" using ok2 by (simp add: ready_def)
  note h2 = heap_after_tables [OF 2(2) 1(3) p2 2(3)]
  have sz: "0 < unat LAUNCH_STACK_SIZE" "unat LAUNCH_STACK_SIZE < 2 ^ 62" by (simp_all add: LAUNCH_STACK_SIZE_def)
  obtain j where j: "heap_inv h2" "live h2 = insert (unat stk, j) (live (vm_heap s2))" "(unat stk, j) \<notin> live (vm_heap s2)"
    using kmalloc_inv [OF h2(1) sz m] by blast
  note pm = kmalloc_pmm [OF p2 m(1)]
  have hf: "heap_frames h2 \<inter> ?T s2 = {}"
    using kmalloc_frames [OF h2(1) sz m(1)] h2(3) 1(6) heap_frames_used [of "vm_heap s1"] 2(4) x86_space.good_frames [OF 2(1)] by blast
  let ?lp = "\<lparr>lp_entry = e_entry ?eh, lp_user_stack = USER_STACK_TOP, lp_data_sel = USER_DATA_SEL, lp_code_sel = USER_CODE_SEL\<rparr>"
  have cpu: "proc_cpu s2 = proc_cpu s" using proc_more [of s2 s] 2(2) 1(8) by (simp add: rest_of_def)
  obtain sp c1 where b: "build_launch_stack tramp (stk + LAUNCH_STACK_SIZE) params (store_params params ?lp (proc_cpu s)) = (sp, c1)" by fastforce
  obtain old c2 where sw: "arch_context_switch_x86 sp c1 = (old, c2)" by fastforce
  obtain c3 where c3: "process_trampoline hang flags c2 = (launch_ctx (e_entry ?eh), c3)" "frame_x86 c3 old = entry_ctx_x86 (proc_cpu s)" "old = rsp (proc_cpu s) - 48"
    using launch_cpu [OF w b sw refl] by blast
  define s3 where "s3 = s2\<lparr>vm_heap := h2, root_reg := root, tlb_log := tlb_log s2 @ [Flush_all], proc_cpu := c2, kernel_return_sp := old\<rparr>"
  have la: "process_launch tramp params as ?eh s2 = Some (stk, s3)"
    using m(1) b sw root(1) by (simp add: process_launch_def cpu vmm_switch_def s3_def as_root_def Let_def split: aspace.splits)
  define t where "t = s3\<lparr>proc_cpu := c3\<rparr>"
  have T: "?T t = ?T s2" "as_root as t = Some root" "root_reg t = root" using root(1) by (simp_all add: t_def s3_def sp_tframes_def as_root_def split: aspace.splits)
  obtain t' where t': "user (launch_ctx (e_entry ?eh)) t = Some (code, t')" "kernel_kept as t t'" "Q (vm_mem t')"
    using u [of t] T c3(3) by (auto simp: t_def s3_def)
  have r: "ready x86_fmt 3 root t" using ready_less [OF ok2, of t] pm by (simp add: t_def s3_def)
  let ?t1 = "process_syscall_exit code t'"
  obtain t3 t4 h' where f: "vmm_switch vmm_kernel_space (?t1\<lparr>proc_cpu := (proc_cpu ?t1)\<lparr>iflag := True\<rparr>\<rparr>) = Some t3"
    "vmm_destroy_address_space (Heap_space p) t3 = Some t4" "kfree stk (vm_heap t4) = Some h'" "process_exit_code t4 = code"
    "root_reg t4 = kernel_root t" "as_at t4 = (as_at t)(p := None)" "iflag (proc_cpu t4)"
    "exit_ctx_x86 (proc_cpu t4) = frame_x86 (proc_cpu t) (kernel_return_sp t)" "heap_inv h'" "live h' = live (vm_heap s)"
    "free_set (heap_pmm h') \<subseteq> free_set (vm_pmm t) \<union> ?T t" "vm_mem t4 = vm_mem t'"
    using process_finish [OF t'(2) [unfolded 1(1)] r, of stk j n "live (vm_heap s)" code] j hf h2(2) 1 T root(3) by (auto simp: t_def s3_def)
  have "process_run tramp hang flags params user elf sz s = Some (code, t4\<lparr>vm_heap := h'\<rparr>)"
    using assms(1) c s2 la c3(1) t'(1) f(1-4) 1(1) by (simp add: process_run_def t_def s3_def Let_def)
  moreover have "free_set (heap_pmm h') \<subseteq> free_set (vm_pmm s)"
  proof -
    have "vm_pmm t = heap_pmm h2" by (simp add: t_def s3_def)
    then have "free_set (vm_pmm t) \<subseteq> free_set (vm_pmm s)" using pm 2(3) 1(10) by (simp only: ) (meson order_trans)
    moreover have "?T t \<subseteq> free_set (vm_pmm s)" using 2(4) 1(9,10) unfolding T(1) by (meson Un_least order_trans)
    ultimately show ?thesis using f(11) by (meson Un_least order_trans)
  qed
  ultimately show ?thesis
    using f c3(2) 1(1,2) root t'(3) by (auto simp: t_def s3_def as_root_def)
qed

text \<open>Property C9. A process that starts also comes back, and leaves the kernel as it was. For a valid ELF file
  with a loadable segment, of which all can be loaded, \<open>process_run\<close> enters user mode with the new space active, at the entry point,
  with the user stack, the ring 3 selectors and interrupts enabled; and when the process, not having written over the
  kernel's variables, its own page tables or the saved frame, makes the exit system call with \<open>code\<close>, then
  \<open>process_run\<close> returns \<open>code\<close>, with the callee-saved registers, the stack pointer and the return address it
  had, with interrupts enabled and the kernel's space active (whatever they were before), no trace of the space, the heap's live
  buffers the same as before, and no frame free that was not free before.\<close>

theorem process_run_returns:
  fixes s s1 s2 :: "cpu_x86 proc"
  assumes "elf_valid EM_X86_64 (read_ehdr (vm_mem s) elf) sz" "\<exists>ph \<in> set (phdrs (vm_mem s) elf (read_ehdr (vm_mem s) elf)). p_type ph = PT_LOAD"
    and h: "heap_inv (vm_heap s)"
    and k: "ready x86_fmt 3 (kernel_root s) s" "card (tset x86_fmt (vm_mem s) 3 (kernel_root s)) \<le> card (free_set (vm_pmm s))"
    and c: "vmm_create_address_space s = Some (as, s1)" and l: "loadable x86_fmt 3 as X elf (read_ehdr (vm_mem s) elf) USER_STACK_TOP s1"
    and s2: "load_image vmm_map vmm_translate USER_STACK_TOP as elf (read_ehdr (vm_mem s) elf) s1 = Some s2"
    and m: "kmalloc LAUNCH_STACK_SIZE (vm_heap s2) = Some (stk, h2)" "stk \<noteq> 0"
    and w: "words_x86 (stk + LAUNCH_STACK_SIZE - 56) \<inter> (words_x86 (rsp (proc_cpu s) - 48) \<union> params_words params) = {}"
      "words_x86 (rsp (proc_cpu s) - 48) \<inter> params_words params = {}"
    and u: "\<And>t. as_root as t = Some (root_reg t) \<Longrightarrow> kernel_return_sp t = rsp (proc_cpu s) - 48 \<Longrightarrow>
        \<exists>t'. user (launch_ctx (e_entry (read_ehdr (vm_mem s) elf))) t = Some (code, t') \<and> kernel_kept as t t'"
  shows "\<exists>s'. process_run tramp hang flags params user elf sz s = Some (code, s') \<and> exit_ctx_x86 (proc_cpu s') = entry_ctx_x86 (proc_cpu s)
    \<and> iflag (proc_cpu s') \<and> root_reg s' = kernel_root s \<and> as_root as s' = None \<and> (\<forall>a. Heap_space a \<noteq> as \<longrightarrow> as_at s' a = as_at s a)
    \<and> heap_inv (vm_heap s') \<and> live (vm_heap s') = live (vm_heap s) \<and> free_set (vm_pmm s') \<subseteq> free_set (vm_pmm s)"
  using process_run_ok [where Q = "\<lambda>_. True" and user = user, OF assms(1,3-12)] u by auto

subsection \<open>An example\<close>

text \<open>A concrete image in the page at \<open>0x2000\<close>: one read-only segment of three bytes at \<open>0x400000\<close>, of which the
  file supplies two. The heap has one arena, at \<open>0x3000\<close>.\<close>

definition demo_ehdr :: elf64_ehdr where
  "demo_ehdr = \<lparr>e_ident = [0x7F, 69, 76, 70, 2] @ replicate 11 0, e_type = 2, e_machine = 62, e_version = 1, e_entry = 0x400000, e_phoff = 64,
     e_shoff = 0, e_flags = 0, e_ehsize = 64, e_phentsize = 56, e_phnum = 1, e_shentsize = 0, e_shnum = 0, e_shstrndx = 0\<rparr>"

definition demo_phdr :: elf64_phdr where
  "demo_phdr = \<lparr>p_type = 1, p_flags = 0, p_offset = 0x80, p_vaddr = 0x400000, p_paddr = 0, p_filesz = 2, p_memsz = 3, p_align = 0\<rparr>"

definition demo_image :: mem where
  "demo_image = (\<lambda>_. 0)(0x2000 := 0x7F, 0x2001 := 69, 0x2002 := 76, 0x2003 := 70, 0x2004 := 2, 0x2010 := 2, 0x2012 := 62, 0x2014 := 1,
     0x201A := 0x40, 0x2020 := 64, 0x2034 := 64, 0x2036 := 56, 0x2038 := 1,
     0x2040 := 1, 0x2048 := 0x80, 0x2052 := 0x40, 0x2060 := 2, 0x2068 := 3, 0x2080 := 0xAA, 0x2081 := 0xBB)"

definition demo_proc_heap :: heap where
  "demo_proc_heap = \<lparr>heap_pmm = pmm_init [\<lparr>region_base = 0x2000, region_length = 0x3E000\<rparr>] 0x2000 0x13000, arena_list = 0x3000,
     arena_at = [0x3000 \<mapsto> \<lparr>ha_next = 0, ha_frame_count = 16, ha_first_block = 0x3018\<rparr>],
     block_at = [0x3018 \<mapsto> \<lparr>hb_size = 65488, hb_free = True, hb_next = 0\<rparr>]\<rparr>"

definition demo_cpu :: cpu_x86 where
  "demo_cpu = \<lparr>rsp = 0x80000, rip = 0, rbp = 1, rbx = 2, r12 = 3, r13 = 4, r14 = 5, r15 = 6, rdi = 0, iflag = False, mem_x86 = (\<lambda>_. 0)(0x80000 := 0x100234)\<rparr>"

definition demo_proc :: "cpu_x86 proc" where
  "demo_proc = \<lparr>vm_mem = demo_image, vm_heap = demo_proc_heap, kernel_root = 0x1000, root_reg = 0x1000, as_at = (\<lambda>_. None), tlb_log = [],
     proc_cpu = demo_cpu, kernel_return_sp = 0, process_exit_code = 0\<rparr>"

lemma demo_proc_pmm: "free_set (vm_pmm demo_proc) = {19..<64}" "phys_ok (vm_pmm demo_proc)"
proof -
  show f: "free_set (vm_pmm demo_proc) = {19..<64}"
    by (simp add: demo_proc_def demo_proc_heap_def pmm_init_spec usable_frames_def frames_of_def
        highest_address_def bitmap_end_def ALIGN_UP_def PMM_FRAME_SIZE_def) auto
  have "pmm_inv (vm_pmm demo_proc)" "total_frames (vm_pmm demo_proc) = 64"
    by (simp_all add: demo_proc_def demo_proc_heap_def pmm_init_spec highest_address_def)
  then show "phys_ok (vm_pmm demo_proc)" using f by (simp add: phys_ok_def pmm_ok_def)
qed

lemma demo_proc_heap_inv: "heap_inv (vm_heap demo_proc)"
proof -
  have "heap_rep demo_proc_heap [(0x3000, [0x3018])]"
    using demo_proc_pmm by (simp add: heap_rep_def demo_proc_def demo_proc_heap_def arena_ok_def arena_end_def arena_frames_def phys_ok_def)
  then show ?thesis by (auto simp: heap_inv_def demo_proc_def)
qed

lemma demo_headers: "read_ehdr demo_image 0x2000 = demo_ehdr" "read_phdr demo_image 0x2040 = demo_phdr"
  by code_simp+

lemma demo_loadable:
  assumes "ready x86_fmt 3 root s" "as_root as s = Some root" "\<And>v. unblocked x86_fmt (vm_mem s) 3 root v"
    and im: "\<And>x. frame_no x = 2 \<Longrightarrow> vm_mem s x = demo_image x"
    and "2 \<notin> free_set (vm_pmm s)" "2 \<notin> frame_no ` tset x86_fmt (vm_mem s) 3 root" "20 \<le> card (free_set (vm_pmm s))"
  shows "loadable x86_fmt 3 as {2} 0x2000 demo_ehdr USER_STACK_TOP s"
proof -
  have fr: "frame_no (0x2000 + of_nat b) = 2" if "b < 4096" for b
    using unat_in_page(2) [of "0x2000" b] that by (simp add: page_aligned_def)
  have hd: "frame_no (0x2000 + 64 + of_nat b) = 2" if "b < 56" for b
    using fr [of "64 + b"] that by (simp add: add.assoc)
  have "read_phdr (vm_mem s) 0x2040 = read_phdr demo_image 0x2040"
    by (rule read_phdr_cong) (use im hd in simp)
  then have ph: "phdrs (vm_mem s) 0x2000 demo_ehdr = [demo_phdr]" by (simp add: phdrs_def demo_ehdr_def demo_headers)
  have d: "frame_no (0x2000 + 0x80 + of_nat b) = 2" if "b < 2" for b using fr [of "0x80 + b"] that by (simp add: add.assoc)
  have sg: "seg_fits 48 demo_phdr" "seg_file_in {2} 0x2000 demo_phdr" "seg_count demo_phdr = 1"
    using d by (simp_all add: seg_fits_def seg_file_in_def seg_count_def seg_start_def seg_end_def demo_phdr_def PT_LOAD_def)
  show ?thesis
    using assms(1-3,5-7) hd sg by (simp add: loadable_def ph sp_good_def sp_tframes_def sp_room_def) (simp add: demo_ehdr_def)
qed

lemma demo_image_zero: "frame_no x \<noteq> 2 \<Longrightarrow> demo_image x = 0"
  by (auto simp: demo_image_def)

lemma demo_kernel:
  "ready x86_fmt 3 0x1000 demo_proc" "unblocked x86_fmt (vm_mem demo_proc) 3 0x1000 v" "tset x86_fmt (vm_mem demo_proc) 3 0x1000 = {0x1000}"
  "kernel_root demo_proc = 0x1000" "lookup x86_fmt (vm_mem demo_proc) 3 0x1000 v = 0"
proof -
  have a: "page_aligned 0x1000" by (simp add: page_aligned_def)
  have "\<forall>x. frame_no x = frame_no (0x1000 :: u64) \<longrightarrow> demo_image x = (\<lambda>_. 0) x" using demo_image_zero by simp
  then have "\<forall>i < 512. pt_get demo_image 0x1000 i = pt_get (\<lambda>_. 0) 0x1000 i" unfolding page_words [OF a] .
  then have z: "pt_get (vm_mem demo_proc) 0x1000 i = 0" if "i < 512" for i using that by (simp add: zero_mem demo_proc_def)
  note e = x86.empty_table [of "0x1000" "vm_mem demo_proc", OF a _ z]
  show "unblocked x86_fmt (vm_mem demo_proc) 3 0x1000 v" "tset x86_fmt (vm_mem demo_proc) 3 0x1000 = {0x1000}"
    "lookup x86_fmt (vm_mem demo_proc) 3 0x1000 v = 0" using e by simp_all
  show "ready x86_fmt 3 0x1000 demo_proc" using e(1,2) [of 3] demo_proc_pmm by (simp add: ready_def in_use_def)
  show "kernel_root demo_proc = 0x1000" by (simp add: demo_proc_def)
qed

theorem elf_image_loaded_witness:
  "\<exists>s' pa. load_image vmm_map vmm_translate USER_STACK_TOP Kernel_space 0x2000 demo_ehdr demo_proc = Some s'
     \<and> vmm_translate Kernel_space 0x400001 s' = Some pa \<and> vm_mem s' pa = 0xBB"
proof -
  have l: "loadable x86_fmt 3 Kernel_space {2} 0x2000 demo_ehdr USER_STACK_TOP demo_proc"
    by (rule demo_loadable [OF demo_kernel(1) _ demo_kernel(2)])
      (simp_all add: demo_kernel(3) demo_proc_pmm, simp_all add: demo_proc_def as_root_def)
  have "phdrs (vm_mem demo_proc) 0x2000 demo_ehdr = [demo_phdr]" by (simp add: phdrs_def demo_ehdr_def demo_proc_def demo_headers)
  then have "image_view (vm_mem demo_proc) 0x2000 demo_ehdr 0x400001 = Some 0xBB"
    by (simp add: image_view_def seg_view_def demo_phdr_def PT_LOAD_def demo_proc_def demo_image_def)
  moreover have "0x400001 \<notin> stack_addrs USER_STACK_TOP" by (simp add: stack_addrs_def USER_STACK_TOP_def)
  ultimately show ?thesis using elf_image_loaded [OF l] by blast
qed

text \<open>The two allocations of \<open>process_run\<close> in the example, whatever the frame allocator's state.\<close>

lemma demo_kmallocs:
  assumes "arena_list h = arena_list demo_proc_heap" "arena_at h = arena_at demo_proc_heap"
  shows "block_at h = block_at demo_proc_heap \<Longrightarrow> \<exists>h'. kmalloc sizeof_address_space h = Some (0x3030, h') \<and> heap_pmm h' = heap_pmm h \<and> arena_list h' = arena_list h
      \<and> arena_at h' = arena_at h \<and> block_at h' = [0x3018 \<mapsto> \<lparr>hb_size = 8, hb_free = False, hb_next = 0x3038\<rparr>,
           0x3038 \<mapsto> \<lparr>hb_size = 65456, hb_free = True, hb_next = 0\<rparr>]" (is "?B \<Longrightarrow> ?P")
    "block_at h = [0x3018 \<mapsto> \<lparr>hb_size = 8, hb_free = False, hb_next = 0x3038\<rparr>, 0x3038 \<mapsto> \<lparr>hb_size = 65456, hb_free = True, hb_next = 0\<rparr>] \<Longrightarrow>
      \<exists>h'. kmalloc LAUNCH_STACK_SIZE h = Some (0x3050, h')" (is "?C \<Longrightarrow> ?Q")
proof -
  show ?P if ?B
  proof -
    have "find_block (block_at h) 0x3018 8 = Some 0x3018" using that by (subst find_block.simps) (simp add: demo_proc_heap_def)
    then have "find_fit h 0x3000 8 = Some 0x3018" using assms by (subst find_fit.simps) (simp add: demo_proc_heap_def)
    then show ?thesis using assms that
      by (simp add: kmalloc_def align_up_def alloc_from_block_def demo_proc_heap_def sizeof_address_space_def Let_def fun_upd_twist)
  qed
  show ?Q if ?C
  proof -
    have "find_block (block_at h) 0x3018 0x4000 = Some 0x3038"
      using that by (subst find_block.simps, simp, subst find_block.simps, simp)
    then have "find_fit h 0x3000 0x4000 = Some 0x3038" using assms by (subst find_fit.simps) (simp add: demo_proc_heap_def)
    then show ?thesis using assms that
      by (simp add: kmalloc_def align_up_def alloc_from_block_def demo_proc_heap_def LAUNCH_STACK_SIZE_def Let_def)
  qed
qed

lemma demo_process_image:
  obtains s1 s2 h2 where "vmm_create_address_space demo_proc = Some (Heap_space 0x3030, s1)"
    "loadable x86_fmt 3 (Heap_space 0x3030) {2} 0x2000 demo_ehdr USER_STACK_TOP s1"
    "load_image vmm_map vmm_translate USER_STACK_TOP (Heap_space 0x3030) 0x2000 demo_ehdr s1 = Some s2"
    "kmalloc LAUNCH_STACK_SIZE (vm_heap s2) = Some (0x3050, h2)" "\<forall>x. frame_no x = 2 \<longrightarrow> vm_mem s1 x = demo_image x"
proof -
  note k = demo_kernel(4)
  have c: "card (tset x86_fmt (vm_mem demo_proc) 3 0x1000) \<le> card (free_set (vm_pmm demo_proc))"
    by (simp add: demo_kernel(3) demo_proc_pmm)
  obtain a s0 where a: "clone_tree x86_fmt x86_link 3 0x1000 demo_proc = (a, s0)" and cl: "cloned x86_fmt 3 0x1000 a demo_proc s0"
    using x86.clone_spec [OF demo_kernel(1) c] by blast
  have r0: "rest_of s0 = rest_of demo_proc" using clone_tree_rest [of x86_fmt x86_link 3 "0x1000" demo_proc] a by simp
  then obtain h where h: "kmalloc sizeof_address_space (vm_heap s0) = Some (0x3030, h)" "arena_list h = arena_list demo_proc_heap"
    "arena_at h = arena_at demo_proc_heap" "block_at h = [0x3018 \<mapsto> \<lparr>hb_size = 8, hb_free = False, hb_next = 0x3038\<rparr>,
       0x3038 \<mapsto> \<lparr>hb_size = 65456, hb_free = True, hb_next = 0\<rparr>]" "heap_pmm h = vm_pmm s0"
    using demo_kmallocs(1) [of "vm_heap s0"] by (auto simp: rest_of_def demo_proc_def)
  let ?s = "s0\<lparr>vm_heap := h, as_at := (as_at s0)(0x3030 \<mapsto> a)\<rparr>" and ?as = "Heap_space 0x3030"
  have cr: "vmm_create_address_space demo_proc = Some (?as, ?s)"
    using a clone_table_tree [of 3 "0x1000" demo_proc] h(1) by (simp add: vmm_create_address_space_def k)
  have fr: "free_set (vm_pmm s0) = {19..<64} - frame_no ` tset x86_fmt (vm_mem s0) 3 a" "frame_no ` tset x86_fmt (vm_mem s0) 3 a \<subseteq> {19..<64}"
    "card (tset x86_fmt (vm_mem s0) 3 a) = 1"
    using cl by (auto simp: cloned_def demo_proc_pmm demo_kernel(3))
  have "card (frame_no ` tset x86_fmt (vm_mem s0) 3 a) \<le> 1" using fr(3) card_image_le [of "tset x86_fmt (vm_mem s0) 3 a" frame_no] card_ge_0_finite [of "tset x86_fmt (vm_mem s0) 3 a"] by simp
  then have n: "20 \<le> card (free_set (vm_pmm s0))"
    using diff_card_le_card_Diff [OF finite_subset [OF fr(2)], of "{19..<64}"] unfolding fr(1) by simp
  have "\<forall>i < 512. pt_get (vm_mem s0) 0x2000 i = pt_get demo_image 0x2000 i"
    using cl by (simp add: cloned_def kept_outside_def demo_proc_pmm page_aligned_def) (simp add: demo_proc_def)
  then have im: "vm_mem s0 x = demo_image x" if "frame_no x = 2" for x
    using that page_words [of "0x2000" "vm_mem s0" demo_image] by (simp add: page_aligned_def)
  have "ready x86_fmt 3 a ?s" "\<And>v. unblocked x86_fmt (vm_mem ?s) 3 a v"
    using cl demo_kernel(2) h(5) by (simp_all add: cloned_def ready_def)
  then have l: "loadable x86_fmt 3 ?as {2} 0x2000 demo_ehdr USER_STACK_TOP ?s"
    using im fr n h(5) by (intro demo_loadable [of a]) (auto simp: as_root_def)
  have tp: "4096 dvd unat USER_STACK_TOP" "unat USER_STACK_TOP \<le> 2 ^ 48" "16384 \<le> unat USER_STACK_TOP" by (simp_all add: USER_STACK_TOP_def)
  obtain s2 where s2: "load_image vmm_map vmm_translate USER_STACK_TOP ?as 0x2000 demo_ehdr ?s = Some s2" "rest_of s2 = rest_of ?s"
    using x86_space.load_image_seen [of ?as ?s "{2}" demo_ehdr "0x2000" USER_STACK_TOP, OF _ _ _ _ _ tp] l by (auto simp: loadable_def)
  obtain h2 where "kmalloc LAUNCH_STACK_SIZE (vm_heap s2) = Some (0x3050, h2)"
    using demo_kmallocs(2) [of "vm_heap s2"] s2(2) h(2-4) by (auto simp: rest_of_def)
  then show thesis by (rule that [OF cr l s2(1)]) (use im in simp)
qed

lemma demo_process_parts:
  obtains s1 s2 h2 where "vmm_create_address_space demo_proc = Some (Heap_space 0x3030, s1)"
    "loadable x86_fmt 3 (Heap_space 0x3030) {2} 0x2000 demo_ehdr USER_STACK_TOP s1"
    "load_image vmm_map vmm_translate USER_STACK_TOP (Heap_space 0x3030) 0x2000 demo_ehdr s1 = Some s2"
    "kmalloc LAUNCH_STACK_SIZE (vm_heap s2) = Some (0x3050, h2)"
  by (rule demo_process_image) (rule that)

theorem process_run_returns_witness:
  "\<exists>s'. process_run 0x101000 0x102000 0 0x80100 (\<lambda>_ t. Some (7, t\<lparr>proc_cpu := (proc_cpu t)\<lparr>rsp := 0x90000\<rparr>\<rparr>)) 0x2000 0x82 demo_proc = Some (7, s')
     \<and> exit_ctx_x86 (proc_cpu s') = [6, 5, 4, 3, 2, 1, 0x100234, 0x80008] \<and> root_reg s' = 0x1000"
proof -
  obtain s1 s2 h2 where d: "vmm_create_address_space demo_proc = Some (Heap_space 0x3030, s1)"
    "loadable x86_fmt 3 (Heap_space 0x3030) {2} 0x2000 demo_ehdr USER_STACK_TOP s1"
    "load_image vmm_map vmm_translate USER_STACK_TOP (Heap_space 0x3030) 0x2000 demo_ehdr s1 = Some s2"
    "kmalloc LAUNCH_STACK_SIZE (vm_heap s2) = Some (0x3050, h2)" by (rule demo_process_parts)
  have e: "read_ehdr (vm_mem demo_proc) 0x2000 = demo_ehdr" by (simp add: demo_proc_def demo_headers)
  have v: "elf_valid EM_X86_64 (read_ehdr (vm_mem demo_proc) 0x2000) 0x82"
    by (simp add: e elf_valid_def demo_ehdr_def EM_X86_64_def ELFCLASS64_def sizeof_ehdr_def)
  have ld: "\<exists>ph \<in> set (phdrs (vm_mem demo_proc) 0x2000 (read_ehdr (vm_mem demo_proc) 0x2000)). p_type ph = PT_LOAD"
    unfolding e by (simp add: phdrs_def demo_ehdr_def demo_proc_def demo_headers) (simp add: demo_phdr_def PT_LOAD_def)
  have c: "card (tset x86_fmt (vm_mem demo_proc) 3 0x1000) \<le> card (free_set (vm_pmm demo_proc))" by (simp add: demo_kernel(3) demo_proc_pmm)
  have w: "words_x86 (0x3050 + LAUNCH_STACK_SIZE - 56) \<inter> (words_x86 (rsp (proc_cpu demo_proc) - 48) \<union> params_words 0x80100) = {}"
    "words_x86 (rsp (proc_cpu demo_proc) - 48) \<inter> params_words 0x80100 = {}"
    by (simp_all add: words_x86_def params_words_def LAUNCH_STACK_SIZE_def demo_proc_def demo_cpu_def)
  have u: "\<exists>t'. Some (7 :: i32, t\<lparr>proc_cpu := (proc_cpu t)\<lparr>rsp := 0x90000\<rparr>\<rparr>) = Some (7, t') \<and> kernel_kept (Heap_space 0x3030) t t'"
    if "kernel_return_sp t = rsp (proc_cpu demo_proc) - 48" for t :: "cpu_x86 proc"
    using that by (simp add: kernel_kept_def frame_x86_def words_x86_def demo_proc_def demo_cpu_def)
  show ?thesis
    using process_run_returns [OF v ld demo_proc_heap_inv _ _ d(1) d(2,3) [folded e] d(4) _ w, of "\<lambda>_ t. Some (7, t\<lparr>proc_cpu := (proc_cpu t)\<lparr>rsp := 0x90000\<rparr>\<rparr>)" 7 "0x101000" "0x102000" 0]
      u demo_kernel(1,4) c by (force simp: entry_ctx_x86_def demo_proc_def demo_cpu_def)
qed

end
