(* ===== verification/Syscall.thy ===== *)
theory Syscall
  imports Process Interrupts Framebuffer Console
begin

text \<open>
  System calls, \<^verbatim>\<open>arch/x86_64/syscall.c\<close> and \<^verbatim>\<open>arch/aarch64/syscall.c\<close>. The kernel runs a system call in the
  address space of the process and follows the pointers it is given. What a read of a virtual address
  yields there is the argument \<open>rd\<close> (the hardware's page walk); \<open>None\<close> is a page fault, which no handler
  resolves. A string without a terminating zero is followed forever. On x86\_64 the string is taken from
  memory before it is drawn, which is what the code does unless it lies in the framebuffer.
\<close>

section \<open>Strings in user memory\<close>

partial_function (option) cstring :: "(u64 \<Rightarrow> u8 option) \<Rightarrow> u64 \<Rightarrow> u8 list option" where
  "cstring rd p =
     do {
       c \<leftarrow> rd p;
       if c = 0 then Some [] else do { rest \<leftarrow> cstring rd (p + 1); Some (c # rest) }
     }"

section \<open>x86\_64\<close>

definition SYS_EXIT :: u64 where "SYS_EXIT = 0"
definition SYS_DEBUG_DRAW :: u64 where "SYS_DEBUG_DRAW = 1"

definition syscall_dispatch :: "fb_info option \<Rightarrow> (cpu_x86 proc \<Rightarrow> u64 \<Rightarrow> u8 option) \<Rightarrow> registers \<Rightarrow> cpu_x86 proc \<Rightarrow> cpu_x86 proc outcome option" where
  "syscall_dispatch fb rd regs s =
     (if rax regs = SYS_EXIT then
        Some (Exited (ucast (registers.rdi regs)) (process_syscall_exit (ucast (registers.rdi regs)) s))
      else if rax regs = SYS_DEBUG_DRAW then
        do {
          s \<leftarrow> (if fb_available fb then
                  do {
                    str \<leftarrow> cstring (rd s) (rdx regs);
                    Some (s\<lparr>vm_mem := fb_draw_string fb (ucast (registers.rdi regs)) (ucast (rsi regs)) str (ucast (r10 regs)) 0 (vm_mem s)\<rparr>)
                  }
                else Some s);
          Some (Resumed (regs\<lparr>rax := 0\<rparr>) s)
        }
      else Some (Resumed (regs\<lparr>rax := - 1\<rparr>) s))"

section \<open>aarch64\<close>

text \<open>The saved registers: \<open>x0\<close> to \<open>x30\<close> in order, then the rest of the frame.\<close>

record aarch64_regs =
  regs_x :: "u64 list"
  regs_elr :: u64
  regs_spsr :: u64
  regs_pad :: u64

definition SYS_WRITE :: u64 where "SYS_WRITE = 1"

datatype 's svc_outcome = Svc_return aarch64_regs 's | Svc_exit i32 's

type_synonym sys_a64 = "cpu_a64 proc \<times> a64_reg iobus"

partial_function (option) write_string :: "(u64 \<Rightarrow> u8 option) \<Rightarrow> u64 \<Rightarrow> a64_reg iobus \<Rightarrow> a64_reg iobus option" where
  "write_string rd s b =
     do {
       c \<leftarrow> rd s;
       if c = 0 then Some b else do { b \<leftarrow> uart_putc c b; write_string rd (s + 1) b }
     }"

definition aarch64_svc_handler :: "(cpu_a64 proc \<Rightarrow> u64 \<Rightarrow> u8 option) \<Rightarrow> aarch64_regs \<Rightarrow> sys_a64 \<Rightarrow> sys_a64 svc_outcome option" where
  "aarch64_svc_handler rd regs = (\<lambda>(s, b).
     if regs_x regs ! 8 = SYS_EXIT then
       Some (Svc_exit (ucast (regs_x regs ! 0)) (process_syscall_exit_a64 (ucast (regs_x regs ! 0)) s, b))
     else if regs_x regs ! 8 = SYS_WRITE then
       do {
         b \<leftarrow> write_string (rd s) (regs_x regs ! 0) b;
         Some (Svc_return (regs\<lparr>regs_x := (regs_x regs)[0 := 0]\<rparr>) (s, b))
       }
     else Some (Svc_return (regs\<lparr>regs_x := (regs_x regs)[0 := - 1]\<rparr>) (s, b)))"

section \<open>Strings\<close>

text \<open>The bytes at \<open>p\<close> up to a zero.\<close>

fun string_at :: "(u64 \<Rightarrow> u8 option) \<Rightarrow> u64 \<Rightarrow> u8 list \<Rightarrow> bool" where
  "string_at rd p [] \<longleftrightarrow> rd p = Some 0"
| "string_at rd p (c # cs) \<longleftrightarrow> rd p = Some c \<and> c \<noteq> 0 \<and> string_at rd (p + 1) cs"

lemma cstring_at: "string_at rd p str \<Longrightarrow> cstring rd p = Some str"
  by (induction str arbitrary: p) (subst cstring.simps; simp)+

section \<open>A process and its system calls\<close>

text \<open>What the kernel sees of a process: the register frames of its system calls, in order. \<open>ksp\<close> is the stack on
  which the kernel handles them. A process that stops making calls without exiting, or whose string is
  not readable, does not come back.\<close>

fun session :: "fb_info option \<Rightarrow> (cpu_x86 proc \<Rightarrow> u64 \<Rightarrow> u8 option) \<Rightarrow> u64 \<Rightarrow> registers list \<Rightarrow> cpu_x86 proc \<Rightarrow> (i32 \<times> cpu_x86 proc) option" where
  "session fb rd ksp [] s = None"
| "session fb rd ksp (r # rs) s =
     (case syscall_dispatch fb rd r s of
        None \<Rightarrow> None
      | Some (Resumed r' s') \<Rightarrow> session fb rd ksp rs s'
      | Some (Halted s') \<Rightarrow> None
      | Some (Exited code s') \<Rightarrow> Some (code, s\<lparr>proc_cpu := (proc_cpu s)\<lparr>rsp := ksp\<rparr>\<rparr>))"

text \<open>A string that a call asks to draw can be read.\<close>

definition readable :: "(cpu_x86 proc \<Rightarrow> u64 \<Rightarrow> u8 option) \<Rightarrow> registers \<Rightarrow> bool" where
  "readable rd r \<longleftrightarrow> (rax r = SYS_DEBUG_DRAW \<longrightarrow> (\<forall>s. \<exists>str. string_at (rd s) (rdx r) str))"

lemma dispatch_call:
  assumes "rax r \<noteq> SYS_EXIT" "readable rd r" "case fb of None \<Rightarrow> True | Some f \<Rightarrow> fb_ok f"
  obtains m where "syscall_dispatch fb rd r s = Some (Resumed (r\<lparr>rax := (if rax r = SYS_DEBUG_DRAW then 0 else - 1)\<rparr>) (s\<lparr>vm_mem := m\<rparr>))"
    "\<And>a. (case fb of None \<Rightarrow> True | Some f \<Rightarrow> a \<notin> fb_bytes f) \<Longrightarrow> m a = vm_mem s a"
proof (cases "rax r = SYS_DEBUG_DRAW \<and> fb_available fb")
  case True
  then obtain f where f: "fb = Some f" by (auto simp: fb_available_def split: option.splits)
  obtain str where "string_at (rd s) (rdx r) str" using assms(2) True by (auto simp: readable_def)
  note str = cstring_at [OF this]
  let ?m = "fb_draw_string fb (ucast (registers.rdi r)) (ucast (rsi r)) str (ucast (registers.r10 r)) 0"
  have "paints f ?m" using paints_string assms(3) f by simp
  then show thesis using that [of "?m (vm_mem s)"] assms(1) True f str by (simp add: paints_def syscall_dispatch_def)
next
  case False
  then show thesis using that [of "vm_mem s"] assms(1) by (auto simp: syscall_dispatch_def)
qed

lemma session_runs:
  assumes "case fb of None \<Rightarrow> True | Some f \<Rightarrow> fb_ok f" "rax e = SYS_EXIT" "\<forall>r \<in> set calls. rax r \<noteq> SYS_EXIT \<and> readable rd r"
  shows "\<exists>m. session fb rd ksp (calls @ e # later) s = Some (ucast (registers.rdi e), s\<lparr>vm_mem := m, proc_cpu := (proc_cpu s)\<lparr>rsp := ksp\<rparr>\<rparr>)
    \<and> (\<forall>a. (case fb of None \<Rightarrow> True | Some f \<Rightarrow> a \<notin> fb_bytes f) \<longrightarrow> m a = vm_mem s a)"
  using assms(3)
proof (induction calls arbitrary: s)
  case Nil
  show ?case by (rule exI [of _ "vm_mem s"]) (simp add: syscall_dispatch_def assms(2))
next
  case (Cons r calls)
  obtain m where d: "syscall_dispatch fb rd r s = Some (Resumed (r\<lparr>rax := (if rax r = SYS_DEBUG_DRAW then 0 else - 1)\<rparr>) (s\<lparr>vm_mem := m\<rparr>))"
    "\<And>a. (case fb of None \<Rightarrow> True | Some f \<Rightarrow> a \<notin> fb_bytes f) \<Longrightarrow> m a = vm_mem s a"
    by (rule dispatch_call [of r rd fb s]) (use Cons.prems assms(1) in auto)
  obtain m' where i: "session fb rd ksp (calls @ e # later) (s\<lparr>vm_mem := m\<rparr>)
      = Some (ucast (registers.rdi e), (s\<lparr>vm_mem := m\<rparr>)\<lparr>vm_mem := m', proc_cpu := (proc_cpu s)\<lparr>rsp := ksp\<rparr>\<rparr>)"
    "\<forall>a. (case fb of None \<Rightarrow> True | Some f \<Rightarrow> a \<notin> fb_bytes f) \<longrightarrow> m' a = m a"
    using Cons.IH [of "s\<lparr>vm_mem := m\<rparr>"] Cons.prems by auto
  show ?case by (rule exI [of _ m']) (use d i in simp)
qed

text \<open>Property C11. System calls do not touch the kernel. For any sequence of calls with arbitrary numbers and arguments
  (strings readable) that ends with an exit, the kernel serves each one and comes back with the exit code;
  memory outside the framebuffer is as before, and when neither the page tables of the process nor the
  frame saved by \<open>process_run\<close> lie in the framebuffer or on the system call stack, all that \<open>process_run\<close> relies on
  to return is kept.\<close>

theorem syscalls_keep_kernel:
  assumes "rax e = SYS_EXIT" "\<forall>r \<in> set calls. rax r \<noteq> SYS_EXIT \<and> readable rd r"
    and "fb_ok f" "\<forall>a \<in> fb_bytes f. frame_no a \<notin> sp_tframes x86_fmt 3 as t"
    and "words_x86 (kernel_return_sp t) \<inter> words_x86 (ksp - 48) = {}"
  shows "\<exists>t'. session (Some f) rd ksp (calls @ e # later) t = Some (ucast (registers.rdi e), t') \<and> kernel_kept as t t'
    \<and> (\<forall>a. a \<notin> fb_bytes f \<longrightarrow> vm_mem t' a = vm_mem t a)"
proof -
  obtain m where "session (Some f) rd ksp (calls @ e # later) t = Some (ucast (registers.rdi e), t\<lparr>vm_mem := m, proc_cpu := (proc_cpu t)\<lparr>rsp := ksp\<rparr>\<rparr>)"
    "\<forall>a. a \<notin> fb_bytes f \<longrightarrow> m a = vm_mem t a"
    using session_runs [of "Some f" e calls rd ksp later t] assms(1-3) by auto
  then show ?thesis using assms(4,5) by (auto simp: kernel_kept_def frame_x86_def)
qed

definition demo_call :: "u64 \<Rightarrow> registers" where
  "demo_call n = (demo_regs 0x80)\<lparr>rax := n, registers.rdi := 5, rdx := 0x400000\<rparr>"

definition demo_sys_fb :: fb_info where
  "demo_sys_fb = \<lparr>fb_present = True, fb_addr = 0xE0000000, fb_pitch = 4, fb_w = 1, fb_h = 1, fb_bpp = 32\<rparr>"

theorem syscalls_keep_kernel_witness:
  "\<exists>t'. session (Some demo_sys_fb) (\<lambda>_ p. Some (if p = 0x400000 then 65 else 0)) 0x90000 [demo_call 1, demo_call 9, demo_call 0] demo_proc = Some (5, t')
     \<and> kernel_kept Kernel_space demo_proc t'"
proof -
  let ?rd = "\<lambda>_ p. Some (if p = 0x400000 then 65 else 0 :: u8)"
  have "string_at (?rd s) (rdx (demo_call 1)) [65]" for s by (simp add: demo_call_def)
  then have "readable ?rd (demo_call 1)" unfolding readable_def by blast
  moreover have "readable ?rd (demo_call 9)" by (simp add: readable_def demo_call_def SYS_DEBUG_DRAW_def)
  ultimately have r: "\<forall>r \<in> set [demo_call 1, demo_call 9]. rax r \<noteq> SYS_EXIT \<and> readable ?rd r" by (simp add: demo_call_def SYS_EXIT_def)
  have e: "rax (demo_call 0) = SYS_EXIT" by (simp add: demo_call_def SYS_EXIT_def)
  have f: "fb_ok demo_sys_fb" by (simp add: fb_ok_def demo_sys_fb_def)
  have "sp_tframes x86_fmt 3 Kernel_space demo_proc = {1}" using demo_kernel(3,4) by (simp add: sp_tframes_def as_root_def)
  moreover have "frame_no a \<noteq> 1" if "a \<in> fb_bytes demo_sys_fb" for a
  proof -
    have "0xE0000000 \<le> unat a" using that by (simp add: fb_bytes_def demo_sys_fb_def)
    then show ?thesis using div_le_mono [of "0xE0000000" "unat a" 4096] by simp
  qed
  ultimately have t: "\<forall>a \<in> fb_bytes demo_sys_fb. frame_no a \<notin> sp_tframes x86_fmt 3 Kernel_space demo_proc" by simp
  have w: "words_x86 (kernel_return_sp demo_proc) \<inter> words_x86 (0x90000 - 48) = {}" by (simp add: words_x86_def demo_proc_def)
  show ?thesis using syscalls_keep_kernel [OF e r f t w, of "[]"] by (simp add: demo_call_def) blast
qed

section \<open>Writing a string on aarch64\<close>

lemma ucast_byte: "ucast (ucast (c :: u8) :: u32) = (ucast c :: u64)"
  by (rule bit_word_eqI) (auto simp: bit_simps dest: bit_imp_le_length)

text \<open>A UART that drains: however the registers have been used, polling the flag register often enough finds room in the
  transmit FIFO (bit 5 clear). The other bits of the register are free.\<close>

fun fr_polls :: "(a64_reg io_event list \<Rightarrow> a64_reg \<Rightarrow> u64) \<Rightarrow> nat \<Rightarrow> a64_reg io_event list \<Rightarrow> a64_reg io_event list" where
  "fr_polls dev 0 log = log"
| "fr_polls dev (Suc n) log = fr_polls dev n (log @ [In (Mmio (UART0_BASE + 0x18)) (dev log (Mmio (UART0_BASE + 0x18)))])"

definition uart_drains :: "(a64_reg io_event list \<Rightarrow> a64_reg \<Rightarrow> u64) \<Rightarrow> bool" where
  "uart_drains dev \<longleftrightarrow> (\<forall>log. \<exists>n. \<not> bit (dev (fr_polls dev n log) (Mmio (UART0_BASE + 0x18))) 5)"

lemma uart_wait_step:
  "uart_wait b = (if bit (io_dev b (io_log b) (Mmio (UART0_BASE + 0x18))) 5 then uart_wait (b\<lparr>io_log := fr_polls (io_dev b) 1 (io_log b)\<rparr>)
     else Some (b\<lparr>io_log := fr_polls (io_dev b) 1 (io_log b)\<rparr>))"
proof -
  have "(ucast v :: u32) AND push_bit 5 1 \<noteq> 0 \<longleftrightarrow> bit (v :: u64) 5" for v
    by (simp add: push_bit_eq_mult and_exp_eq_0_iff_not_bit [of _ 5, simplified] bit_simps)
  then show ?thesis by (subst uart_wait.simps) (simp add: mmio_read32_def io_in_def Let_def)
qed

lemma uart_wait_returns:
  assumes "\<not> bit (io_dev b (fr_polls (io_dev b) n (io_log b)) (Mmio (UART0_BASE + 0x18))) 5"
  shows "\<exists>b'. uart_wait b = Some b' \<and> io_dev b' = io_dev b \<and> outs (io_log b') = outs (io_log b)"
  using assms
proof (induction n arbitrary: b)
  case 0
  then show ?case by (subst uart_wait_step) simp
next
  case (Suc n)
  then show ?case using Suc.IH [of "b\<lparr>io_log := fr_polls (io_dev b) 1 (io_log b)\<rparr>"] by (subst uart_wait_step) simp
qed

lemma uart_putc_ready:
  assumes "uart_drains (io_dev b)"
  shows "\<exists>b'. uart_putc c b = Some b' \<and> io_dev b' = io_dev b \<and> outs (io_log b') = outs (io_log b) @ [(Mmio UART0_BASE, ucast c)]"
proof -
  obtain n where "\<not> bit (io_dev b (fr_polls (io_dev b) n (io_log b)) (Mmio (UART0_BASE + 0x18))) 5" using assms unfolding uart_drains_def by blast
  then obtain b1 where "uart_wait b = Some b1" "io_dev b1 = io_dev b" "outs (io_log b1) = outs (io_log b)" using uart_wait_returns by blast
  then show ?thesis by (simp add: uart_putc_def mmio_write32_def io_out_def ucast_byte)
qed

text \<open>A string is sent byte by byte.\<close>

lemma write_string_sends:
  assumes "string_at rd p str" "uart_drains (io_dev b)"
  shows "\<exists>b'. write_string rd p b = Some b' \<and> outs (io_log b') = outs (io_log b) @ map (\<lambda>c. (Mmio UART0_BASE, ucast c)) str"
  using assms
proof (induction str arbitrary: p b)
  case Nil
  then show ?case by (subst write_string.simps) simp
next
  case (Cons c str)
  obtain b1 where b1: "uart_putc c b = Some b1" "io_dev b1 = io_dev b" "outs (io_log b1) = outs (io_log b) @ [(Mmio UART0_BASE, ucast c)]"
    using uart_putc_ready [OF Cons.prems(2)] by blast
  obtain b' where "write_string rd (p + 1) b1 = Some b'" "outs (io_log b') = outs (io_log b1) @ map (\<lambda>c. (Mmio UART0_BASE, ucast c)) str"
    using Cons.IH [of "p + 1" b1] Cons.prems b1(2) by auto
  then show ?case using Cons.prems(1) b1 by (subst write_string.simps) simp
qed

text \<open>Property C12. The aarch64 system calls do what their numbers say. With a UART that drains, a write call
  with a readable string sends exactly its bytes, in order, and returns 0 in \<open>x0\<close>; an unknown call, whatever its
  argument, sends nothing and returns -1; no other register and no kernel state changes.\<close>

theorem svc_handler_correct:
  assumes "uart_drains (io_dev b)" "regs_x regs ! 8 = SYS_WRITE \<Longrightarrow> string_at (rd s) (regs_x regs ! 0) str" "regs_x regs ! 8 \<noteq> SYS_EXIT"
  shows "\<exists>b'. aarch64_svc_handler rd regs (s, b) =
      Some (Svc_return (regs\<lparr>regs_x := (regs_x regs)[0 := if regs_x regs ! 8 = SYS_WRITE then 0 else - 1]\<rparr>) (s, b'))
    \<and> (if regs_x regs ! 8 = SYS_WRITE then outs (io_log b') = outs (io_log b) @ map (\<lambda>c. (Mmio UART0_BASE, ucast c)) str else b' = b)"
proof (cases "regs_x regs ! 8 = SYS_WRITE")
  case True
  from write_string_sends [OF assms(2) [OF True] assms(1)] True assms(3) show ?thesis by (auto simp: aarch64_svc_handler_def)
next
  case False
  then show ?thesis using assms(3) by (simp add: aarch64_svc_handler_def)
qed

text \<open>A PL011 whose FIFO is never full: the flag register reads 0x90. A write call, and a call with the unknown number 9
  whose argument points nowhere.\<close>

definition demo_uart :: "a64_reg iobus" where
  "demo_uart = \<lparr>io_log = [], io_dev = (\<lambda>_ _. 0x90)\<rparr>"

lemma demo_uart_drains: "uart_drains (io_dev demo_uart)"
proof -
  have "(0x90 :: u64) = push_bit 4 9" by (simp add: push_bit_eq_mult)
  then have "\<not> bit (0x90 :: u64) 5" by (simp only: bit_push_bit_iff) (simp add: bit_iff_odd)
  then show ?thesis by (simp add: uart_drains_def demo_uart_def)
qed

definition demo_svc :: "u64 \<Rightarrow> u64 \<Rightarrow> aarch64_regs" where
  "demo_svc n v = \<lparr>regs_x = [v, 0, 0, 0, 0, 0, 0, 0, n] @ replicate 22 0, regs_elr = 0, regs_spsr = 0, regs_pad = 0\<rparr>"

theorem svc_handler_correct_witness:
  "\<forall>s. (\<exists>b'. aarch64_svc_handler (\<lambda>_ p. if p = 0x80000000 then Some 72 else if p = 0x80000001 then Some 0 else None) (demo_svc 1 0x80000000) (s, demo_uart)
       = Some (Svc_return (demo_svc 1 0) (s, b')) \<and> outs (io_log b') = [(Mmio UART0_BASE, 72)])
     \<and> aarch64_svc_handler (\<lambda>_ _. None) (demo_svc 9 5) (s, demo_uart) = Some (Svc_return (demo_svc 9 (- 1)) (s, demo_uart))"
proof
  fix s :: "cpu_a64 proc"
  let ?rd = "\<lambda>_ p. if p = 0x80000000 then Some 72 else if p = 0x80000001 then Some (0 :: u8) else None"
  have str: "string_at (?rd s) (regs_x (demo_svc 1 0x80000000) ! 0) [72]" by (simp add: demo_svc_def)
  have n: "regs_x (demo_svc 1 0x80000000) ! 8 \<noteq> SYS_EXIT" "regs_x (demo_svc 9 5) ! 8 \<noteq> SYS_EXIT" "regs_x (demo_svc 9 5) ! 8 \<noteq> SYS_WRITE"
    by (simp_all add: demo_svc_def SYS_EXIT_def SYS_WRITE_def)
  have 1: "\<exists>b'. aarch64_svc_handler ?rd (demo_svc 1 0x80000000) (s, demo_uart) = Some (Svc_return (demo_svc 1 0) (s, b')) \<and> outs (io_log b') = [(Mmio UART0_BASE, 72)]"
    using svc_handler_correct [of demo_uart "demo_svc 1 0x80000000" ?rd s "[72]", OF demo_uart_drains str n(1)]
    by (simp add: demo_svc_def SYS_WRITE_def demo_uart_def)
  have 2: "aarch64_svc_handler (\<lambda>_ _. None) (demo_svc 9 5) (s, demo_uart) = Some (Svc_return (demo_svc 9 (- 1)) (s, demo_uart))"
    using svc_handler_correct [of demo_uart "demo_svc 9 5" "\<lambda>_ _. None" s, OF demo_uart_drains _ n(2)] n(3)
    by (simp add: demo_svc_def SYS_WRITE_def)
  show "(\<exists>b'. aarch64_svc_handler ?rd (demo_svc 1 0x80000000) (s, demo_uart) = Some (Svc_return (demo_svc 1 0) (s, b')) \<and> outs (io_log b') = [(Mmio UART0_BASE, 72)])
     \<and> aarch64_svc_handler (\<lambda>_ _. None) (demo_svc 9 5) (s, demo_uart) = Some (Svc_return (demo_svc 9 (- 1)) (s, demo_uart))"
    using 1 2 by blast
qed

end
