(* ===== verification/Multiboot.thy ===== *)
theory Multiboot
  imports Framebuffer
begin

text \<open>
  The memory map handed over by the boot loader, \<^verbatim>\<open>arch/x86_64/mm/multiboot2.c\<close>. The information structure is
  read from byte memory; the two loops may run forever on a malformed one and are partial functions. The
  array \<open>regions\<close> with its count is the list of the entries written. The addresses of the kernel image come
  from the linker and are arguments.
\<close>

section \<open>Layout and state\<close>

definition MULTIBOOT2_BOOTLOADER_MAGIC :: u64 where "MULTIBOOT2_BOOTLOADER_MAGIC = 0x36d76289"
definition MB2_TAG_END :: u32 where "MB2_TAG_END = 0"
definition MB2_TAG_MMAP :: u32 where "MB2_TAG_MMAP = 6"
definition MB2_TAG_FRAMEBUFFER :: u32 where "MB2_TAG_FRAMEBUFFER = 8"
definition MB2_MEM_AVAILABLE :: u32 where "MB2_MEM_AVAILABLE = 1"
definition MB2_FB_TYPE_RGB :: u8 where "MB2_FB_TYPE_RGB = 1"
definition IDENTITY_MAP_LIMIT :: u64 where "IDENTITY_MAP_LIMIT = 0x40000000"
definition LOW_MEM_RESERVED :: u64 where "LOW_MEM_RESERVED = 0x100000"
definition MAX_REGIONS :: nat where "MAX_REGIONS = 64"
definition sizeof_mb2_tag_mmap :: u64 where "sizeof_mb2_tag_mmap = 16"

record mb2_tag =
  mt_type :: u32
  mt_size :: u32

record mb2_mmap_entry =
  me_addr :: u64
  me_len :: u64
  me_type :: u32

record mb2_tag_framebuffer =
  mf_addr :: u64
  mf_pitch :: u32
  mf_width :: u32
  mf_height :: u32
  mf_bpp :: u8
  mf_fb_type :: u8

definition read_tag :: "mem \<Rightarrow> u64 \<Rightarrow> mb2_tag" where
  "read_tag m p = \<lparr>mt_type = load32 m p, mt_size = load32 m (p + 4)\<rparr>"

definition mmap_entry_size :: "mem \<Rightarrow> u64 \<Rightarrow> u32" where
  "mmap_entry_size m p = load32 m (p + 8)"

definition read_mmap_entry :: "mem \<Rightarrow> u64 \<Rightarrow> mb2_mmap_entry" where
  "read_mmap_entry m p = \<lparr>me_addr = load64 m p, me_len = load64 m (p + 8), me_type = load32 m (p + 16)\<rparr>"

definition read_fb_tag :: "mem \<Rightarrow> u64 \<Rightarrow> mb2_tag_framebuffer" where
  "read_fb_tag m p = \<lparr>mf_addr = load64 m (p + 8), mf_pitch = load32 m (p + 16), mf_width = load32 m (p + 20), mf_height = load32 m (p + 24),
     mf_bpp = m (p + 28), mf_fb_type = m (p + 29)\<rparr>"

record mb2 =
  total_ram_bytes :: u64
  framebuffer_info :: fb_info

definition mb2_start :: mb2 where
  "mb2_start = \<lparr>total_ram_bytes = 0, framebuffer_info = \<lparr>fb_present = False, fb_addr = 0, fb_pitch = 0, fb_w = 0, fb_h = 0, fb_bpp = 0\<rparr>\<rparr>"

section \<open>Parsing\<close>

definition mmap_step :: "mb2_mmap_entry \<Rightarrow> mem_region list \<times> mb2 \<Rightarrow> mem_region list \<times> mb2" where
  "mmap_step e = (\<lambda>(regions, b).
     if me_type e = MB2_MEM_AVAILABLE then
       let b = b\<lparr>total_ram_bytes := total_ram_bytes b + me_len e\<rparr>;
           lo = me_addr e;
           hi = me_addr e + me_len e;
           lo = (if lo < LOW_MEM_RESERVED then LOW_MEM_RESERVED else lo);
           hi = (if hi > IDENTITY_MAP_LIMIT then IDENTITY_MAP_LIMIT else hi)
       in (if lo < hi then regions @ [\<lparr>region_base = lo, region_length = hi - lo\<rparr>] else regions, b)
     else (regions, b))"

partial_function (option) mmap_loop :: "mem \<Rightarrow> u32 \<Rightarrow> u64 \<Rightarrow> u64 \<Rightarrow> mem_region list \<times> mb2 \<Rightarrow> (mem_region list \<times> mb2) option" where
  "mmap_loop m entry_size mmap_end entry s =
     (if entry < mmap_end \<and> length (fst s) < MAX_REGIONS
      then mmap_loop m entry_size mmap_end (entry + ucast entry_size) (mmap_step (read_mmap_entry m entry) s)
      else Some s)"

definition fb_step :: "mb2_tag_framebuffer \<Rightarrow> mb2 \<Rightarrow> mb2" where
  "fb_step f b =
     (if mf_fb_type f = MB2_FB_TYPE_RGB \<and> mf_bpp f = 32
      then b\<lparr>framebuffer_info := \<lparr>fb_present = True, fb_addr = mf_addr f, fb_pitch = mf_pitch f, fb_w = mf_width f, fb_h = mf_height f, fb_bpp = mf_bpp f\<rparr>\<rparr>
      else b)"

partial_function (option) tag_loop :: "mem \<Rightarrow> u64 \<Rightarrow> u64 \<Rightarrow> mem_region list \<times> mb2 \<Rightarrow> (mem_region list \<times> mb2) option" where
  "tag_loop m tags_end tag s =
     (if tag < tags_end then
        let t = read_tag m tag
        in if mt_type t = MB2_TAG_END then Some s
           else
             do {
               s \<leftarrow> (if mt_type t = MB2_TAG_MMAP
                      then mmap_loop m (mmap_entry_size m tag) (tag + ucast (mt_size t)) (tag + sizeof_mb2_tag_mmap) s
                      else Some s);
               let s = (if mt_type t = MB2_TAG_FRAMEBUFFER then (fst s, fb_step (read_fb_tag m tag) (snd s)) else s);
               tag_loop m tags_end (tag + ucast (ALIGN_UP (mt_size t) 8)) s
             }
      else Some s)"

definition x86_64_mm_init :: "physaddr \<Rightarrow> physaddr \<Rightarrow> mem \<Rightarrow> u64 \<Rightarrow> u64 \<Rightarrow> mb2 \<Rightarrow> (pmm \<times> mb2) option" where
  "x86_64_mm_init kernel_start kernel_end m boot_magic boot_info b =
     do {
       (regions, b) \<leftarrow>
         (if boot_magic = MULTIBOOT2_BOOTLOADER_MAGIC \<and> boot_info \<noteq> 0
          then tag_loop m (boot_info + ucast (load32 m boot_info)) (boot_info + 8) ([], b)
          else Some ([], b));
       Some (pmm_init regions kernel_start kernel_end, b)
     }"

definition x86_64_total_ram :: "mb2 \<Rightarrow> u64" where
  "x86_64_total_ram b = total_ram_bytes b"

definition x86_64_get_framebuffer_info :: "mb2 \<Rightarrow> fb_info" where
  "x86_64_get_framebuffer_info b = framebuffer_info b"

section \<open>What the regions are\<close>

text \<open>A region between the reserved low megabyte and the end of the boot identity map.\<close>

definition region_ok :: "mem_region \<Rightarrow> bool" where
  "region_ok r \<longleftrightarrow> 0x100000 \<le> unat (region_base r) \<and> unat (region_base r + region_length r) \<le> 0x40000000
     \<and> unat (region_base r) < unat (region_base r + region_length r)"

definition regions_ok :: "mem_region list \<Rightarrow> bool" where
  "regions_ok rs \<longleftrightarrow> length rs \<le> MAX_REGIONS \<and> (\<forall>r \<in> set rs. region_ok r)"

lemma mmap_step_ok:
  assumes "regions_ok (fst s)" "length (fst s) < MAX_REGIONS"
  shows "regions_ok (fst (mmap_step e s))"
proof -
  have "region_ok r \<longleftrightarrow> 0x100000 \<le> region_base r \<and> region_base r + region_length r \<le> 0x40000000 \<and> region_base r < region_base r + region_length r" for r
    by (simp add: region_ok_def word_le_nat_alt word_less_nat_alt)
  then show ?thesis using assms
    by (auto simp: mmap_step_def regions_ok_def LOW_MEM_RESERVED_def IDENTITY_MAP_LIMIT_def Let_def not_less split: prod.split)
qed

lemma mmap_loop_ok:
  assumes "mmap_loop m k e p s = Some s'" "regions_ok (fst s)"
  shows "regions_ok (fst s')"
proof -
  have "regions_ok (fst s) \<longrightarrow> regions_ok (fst s')"
  proof (rule mmap_loop.raw_induct [of "\<lambda>m k e p s s'. regions_ok (fst s) \<longrightarrow> regions_ok (fst s')", OF _ assms(1)])
    fix f m k e p s s'
    assume ih: "\<And>m k e p s s'. f m k e p s = Some s' \<Longrightarrow> regions_ok (fst s) \<longrightarrow> regions_ok (fst s')"
      and r: "(if p < e \<and> length (fst s) < MAX_REGIONS then f m k e (p + ucast k) (mmap_step (read_mmap_entry m p) s) else Some s) = Some s'"
    show "regions_ok (fst s) \<longrightarrow> regions_ok (fst s')"
      using r ih mmap_step_ok by (auto split: if_splits)
  qed
  then show ?thesis using assms(2) by blast
qed

lemma tag_loop_ok:
  assumes "tag_loop m e p s = Some s'" "regions_ok (fst s)"
  shows "regions_ok (fst s')"
proof -
  have "regions_ok (fst s) \<longrightarrow> regions_ok (fst s')"
  proof (rule tag_loop.raw_induct [of "\<lambda>m e p s s'. regions_ok (fst s) \<longrightarrow> regions_ok (fst s')", OF _ assms(1)], goal_cases)
    case (1 f m e p s s')
    let ?t = "read_tag m p"
    show ?case
    proof (intro impI)
      assume s: "regions_ok (fst s)"
      show "regions_ok (fst s')"
      proof (cases "p < e \<and> mt_type ?t \<noteq> MB2_TAG_END")
        case True
        then obtain s1 where 2: "(if mt_type ?t = MB2_TAG_MMAP
            then mmap_loop m (mmap_entry_size m p) (p + ucast (mt_size ?t)) (p + sizeof_mb2_tag_mmap) s else Some s) = Some s1"
          "f m e (p + ucast (ALIGN_UP (mt_size ?t) 8)) (if mt_type ?t = MB2_TAG_FRAMEBUFFER then (fst s1, fb_step (read_fb_tag m p) (snd s1)) else s1) = Some s'"
          using 1(2) by (auto simp: Let_def simp del: split_paired_All split_paired_Ex split: bind_splits)
        have "regions_ok (fst s1)" using 2(1) s mmap_loop_ok [of m _ _ _ s s1] by (auto split: if_splits)
        then show ?thesis using 1(1) [OF 2(2)] by auto
      qed (use 1(2) s in \<open>auto simp: Let_def split: if_splits\<close>)
    qed
  qed
  then show ?thesis using assms(2) by blast
qed

section \<open>Well-formed information\<close>

text \<open>The tags of an information structure: a memory map with its entries, a framebuffer description, or something
  that the kernel skips. The list ends at an end tag or at the end of the structure.\<close>

datatype mb2_item = Mmap "mb2_mmap_entry list" | Fb mb2_tag_framebuffer | Skipped

fun entries_at :: "mem \<Rightarrow> u64 \<Rightarrow> u64 \<Rightarrow> u64 \<Rightarrow> mb2_mmap_entry list \<Rightarrow> bool" where
  "entries_at m k e p [] \<longleftrightarrow> \<not> p < e"
| "entries_at m k e p (x # xs) \<longleftrightarrow> p < e \<and> read_mmap_entry m p = x \<and> entries_at m k e (p + k) xs"

fun item_at :: "mem \<Rightarrow> u64 \<Rightarrow> mb2_item \<Rightarrow> bool" where
  "item_at m p (Mmap es) \<longleftrightarrow> mt_type (read_tag m p) = MB2_TAG_MMAP
     \<and> entries_at m (ucast (mmap_entry_size m p)) (p + ucast (mt_size (read_tag m p))) (p + sizeof_mb2_tag_mmap) es"
| "item_at m p (Fb f) \<longleftrightarrow> mt_type (read_tag m p) = MB2_TAG_FRAMEBUFFER \<and> read_fb_tag m p = f"
| "item_at m p Skipped \<longleftrightarrow> mt_type (read_tag m p) \<notin> {MB2_TAG_END, MB2_TAG_MMAP, MB2_TAG_FRAMEBUFFER}"

fun items_at :: "mem \<Rightarrow> u64 \<Rightarrow> u64 \<Rightarrow> mb2_item list \<Rightarrow> bool" where
  "items_at m e p [] \<longleftrightarrow> \<not> p < e \<or> mt_type (read_tag m p) = MB2_TAG_END"
| "items_at m e p (t # ts) \<longleftrightarrow> p < e \<and> item_at m p t \<and> items_at m e (p + ucast (ALIGN_UP (mt_size (read_tag m p)) 8)) ts"

text \<open>What a tag contributes. Once the array is full, memory map entries are ignored.\<close>

fun item_effect :: "mb2_item \<Rightarrow> mem_region list \<times> mb2 \<Rightarrow> mem_region list \<times> mb2" where
  "item_effect (Mmap es) s = fold (\<lambda>e s. if length (fst s) < MAX_REGIONS then mmap_step e s else s) es s"
| "item_effect (Fb f) s = (fst s, fb_step f (snd s))"
| "item_effect Skipped s = s"

lemma mmap_full: "\<not> length (fst s) < MAX_REGIONS \<Longrightarrow> fold (\<lambda>e s. if length (fst s) < MAX_REGIONS then mmap_step e s else s) es s = s"
  by (induction es) simp_all

lemma mmap_loop_entries:
  "entries_at m (ucast k) e p es \<Longrightarrow> mmap_loop m k e p s = Some (item_effect (Mmap es) s)"
proof (induction es arbitrary: p s)
  case Nil
  then show ?case by (subst mmap_loop.simps) simp
next
  case (Cons x es)
  then show ?case using mmap_full [of s es] by (subst mmap_loop.simps) auto
qed

lemma tag_types: "MB2_TAG_END \<noteq> MB2_TAG_MMAP" "MB2_TAG_END \<noteq> MB2_TAG_FRAMEBUFFER" "MB2_TAG_MMAP \<noteq> MB2_TAG_FRAMEBUFFER"
  by (simp_all add: MB2_TAG_END_def MB2_TAG_MMAP_def MB2_TAG_FRAMEBUFFER_def)

lemma tag_loop_items: "items_at m e p ts \<Longrightarrow> tag_loop m e p s = Some (fold item_effect ts s)"
proof (induction ts arbitrary: p s)
  case Nil
  then show ?case by (subst tag_loop.simps) (auto simp: Let_def)
next
  case (Cons t ts)
  note ih = Cons.IH [of "p + ucast (ALIGN_UP (mt_size (read_tag m p)) 8)"]
  show ?case using Cons.prems ih tag_types
    by (subst tag_loop.simps, cases t) (auto simp: Let_def mmap_loop_entries [of m _ _ _ _ s])
qed

section \<open>The memory map\<close>

definition map_entries :: "mb2_item list \<Rightarrow> mb2_mmap_entry list" where
  "map_entries ts = concat (map (\<lambda>t. case t of Mmap es \<Rightarrow> es | _ \<Rightarrow> []) ts)"

definition clip :: "mb2_mmap_entry \<Rightarrow> mem_region list" where
  "clip e = (let lo = max (me_addr e) 0x100000; hi = min (me_addr e + me_len e) 0x40000000
     in if me_type e = 1 \<and> lo < hi then [\<lparr>region_base = lo, region_length = hi - lo\<rparr>] else [])"

definition available_ram :: "mb2_mmap_entry list \<Rightarrow> u64" where
  "available_ram es = sum_list (map me_len (filter (\<lambda>e. me_type e = 1) es))"

definition fb_of :: "mb2_item list \<Rightarrow> fb_info \<Rightarrow> fb_info" where
  "fb_of ts i = fold (\<lambda>t i. case t of Fb f \<Rightarrow> if mf_fb_type f = 1 \<and> mf_bpp f = 32
       then \<lparr>fb_present = True, fb_addr = mf_addr f, fb_pitch = mf_pitch f, fb_w = mf_width f, fb_h = mf_height f, fb_bpp = 32\<rparr> else i | _ \<Rightarrow> i) ts i"

lemma mmap_step_clip: "mmap_step e (rs, b) = (rs @ clip e, b\<lparr>total_ram_bytes := total_ram_bytes b + available_ram [e]\<rparr>)"
proof -
  have "max x c = (if x < c then c else x)" "min x c = (if c < x then c else x)" for x c :: u64 by (auto simp: max_def min_def)
  then show ?thesis
    by (simp add: mmap_step_def clip_def available_ram_def MB2_MEM_AVAILABLE_def LOW_MEM_RESERVED_def IDENTITY_MAP_LIMIT_def Let_def)
qed

lemma clip_one: "length (clip e) \<le> 1"
  by (simp add: clip_def Let_def)

lemma mmap_effect:
  "length rs + length es \<le> MAX_REGIONS \<Longrightarrow> item_effect (Mmap es) (rs, b) =
     (rs @ concat (map clip es), b\<lparr>total_ram_bytes := total_ram_bytes b + available_ram es\<rparr>)"
proof (induction es arbitrary: rs b)
  case (Cons e es)
  have "length (rs @ clip e) + length es \<le> MAX_REGIONS" using Cons.prems clip_one [of e] by simp
  from Cons.IH [OF this] Cons.prems show ?case by (simp add: mmap_step_clip) (simp add: available_ram_def add.assoc)
qed (simp add: available_ram_def)

lemma items_effect:
  "length rs + length (map_entries ts) \<le> MAX_REGIONS \<Longrightarrow> fold item_effect ts (rs, b) =
     (rs @ concat (map clip (map_entries ts)), b\<lparr>total_ram_bytes := total_ram_bytes b + available_ram (map_entries ts),
        framebuffer_info := fb_of ts (framebuffer_info b)\<rparr>)"
proof (induction ts arbitrary: rs b)
  case (Cons t ts)
  have c: "length (concat (map clip es)) \<le> length es" for es
  proof (induction es)
    case (Cons e es)
    then show ?case using clip_one [of e] by simp
  qed simp
  show ?case
  proof (cases t)
    case (Mmap es)
    have "length (rs @ concat (map clip es)) + length (map_entries ts) \<le> MAX_REGIONS"
      using Cons.prems c [of es] by (simp add: map_entries_def Mmap)
    note ih = Cons.IH [OF this, of "b\<lparr>total_ram_bytes := total_ram_bytes b + available_ram es\<rparr>"]
    have e: "map_entries (t # ts) = es @ map_entries ts" "fb_of (t # ts) i = fb_of ts i" for i by (simp_all add: map_entries_def fb_of_def Mmap)
    have "item_effect t (rs, b) = (rs @ concat (map clip es), b\<lparr>total_ram_bytes := total_ram_bytes b + available_ram es\<rparr>)"
      using Cons.prems mmap_effect [of rs es b] unfolding e by (simp add: Mmap del: item_effect.simps(1))
    moreover have "available_ram (es @ map_entries ts) = available_ram es + available_ram (map_entries ts)" by (simp add: available_ram_def)
    ultimately show ?thesis unfolding e using ih by (simp add: add.assoc)
  next
    case (Fb f)
    then show ?thesis using Cons by (simp add: map_entries_def fb_of_def fb_step_def MB2_FB_TYPE_RGB_def)
  next
    case Skipped
    then show ?thesis using Cons by (simp add: map_entries_def fb_of_def)
  qed
qed (simp add: map_entries_def available_ram_def fb_of_def)

lemma mm_init_items:
  assumes "info \<noteq> 0" "items_at m (info + ucast (load32 m info)) (info + 8) ts" "length (map_entries ts) \<le> 64"
  shows "\<exists>b'. x86_64_mm_init ks ke m MULTIBOOT2_BOOTLOADER_MAGIC info b = Some (pmm_init (concat (map clip (map_entries ts))) ks ke, b')
    \<and> x86_64_total_ram b' = total_ram_bytes b + available_ram (map_entries ts) \<and> x86_64_get_framebuffer_info b' = fb_of ts (framebuffer_info b)"
  using assms tag_loop_items [OF assms(2), of "([], b)"] items_effect [of "[]" ts b]
  by (simp add: x86_64_mm_init_def x86_64_total_ram_def x86_64_get_framebuffer_info_def MAX_REGIONS_def)

text \<open>Property C4. The memory map is read as the boot loader wrote it: on an information structure whose tags
  hold at most 64 memory map entries, \<open>x86_64_mm_init\<close> returns, the frame allocator is initialised with exactly
  the available entries clipped to the range from 1 MB to 1 GB, in order, the reported amount of memory is
  the sum of the unclipped available entries, and the framebuffer is the last 32-bit RGB one described.\<close>

theorem multiboot_memory_map:
  assumes "info \<noteq> 0" "items_at m (info + ucast (load32 m info)) (info + 8) ts" "length (map_entries ts) \<le> 64"
  shows "\<exists>b'. x86_64_mm_init ks ke m MULTIBOOT2_BOOTLOADER_MAGIC info b = Some (pmm_init (concat (map clip (map_entries ts))) ks ke, b')
    \<and> x86_64_total_ram b' = total_ram_bytes b + available_ram (map_entries ts) \<and> x86_64_get_framebuffer_info b' = fb_of ts (framebuffer_info b)"
  using assms by (rule mm_init_items)

definition demo_mb2 :: mem where
  "demo_mb2 = (\<lambda>_. 0)(0x9000 := 0x50, 0x9008 := 6, 0x900C := 64, 0x9010 := 24, 0x901A := 0x10, 0x9022 := 0x70, 0x9028 := 1,
     0x9031 := 0, 0x9039 := 0x10, 0x9040 := 2, 0x9048 := 0, 0x904C := 8)"

definition demo_tags :: "mb2_item list" where
  "demo_tags = [Mmap [\<lparr>me_addr = 0x100000, me_len = 0x700000, me_type = 1\<rparr>, \<lparr>me_addr = 0, me_len = 0x1000, me_type = 2\<rparr>]]"

lemma demo_items: "items_at demo_mb2 (0x9000 + ucast (load32 demo_mb2 0x9000)) (0x9000 + 8) demo_tags" by code_simp

theorem multiboot_memory_map_witness:
  "\<exists>b'. x86_64_mm_init 0x100000 0x110000 demo_mb2 MULTIBOOT2_BOOTLOADER_MAGIC 0x9000 mb2_start
     = Some (pmm_init [\<lparr>region_base = 0x100000, region_length = 0x700000\<rparr>] 0x100000 0x110000, b') \<and> x86_64_total_ram b' = 0x700000"
proof -
  have c: "concat (map clip (map_entries demo_tags)) = [\<lparr>region_base = 0x100000, region_length = 0x700000\<rparr>]" by code_simp
  have r: "total_ram_bytes mb2_start + available_ram (map_entries demo_tags) = 0x700000" by code_simp
  have l: "length (map_entries demo_tags) \<le> 64" by code_simp
  show ?thesis using multiboot_memory_map [OF _ demo_items l, of "0x100000" "0x110000" mb2_start] unfolding c r by auto
qed

lemma mm_init_regions:
  assumes "x86_64_mm_init ks ke m boot_magic info b = Some (p, b')"
  obtains rs where "regions_ok rs" "p = pmm_init rs ks ke"
proof -
  have "p = pmm_init [] ks ke \<or> (\<exists>s. tag_loop m (info + ucast (load32 m info)) (info + 8) ([], b) = Some s \<and> p = pmm_init (fst s) ks ke)"
    using assms(1) by (force simp: x86_64_mm_init_def split: bind_splits if_splits)
  moreover have "regions_ok []" by (simp add: regions_ok_def)
  moreover have "regions_ok (fst s)" if "tag_loop m (info + ucast (load32 m info)) (info + 8) ([], b) = Some s" for s
    using tag_loop_ok [OF that] \<open>regions_ok []\<close> by simp
  ultimately show thesis using that by blast
qed

lemma region_frames:
  assumes "regions_ok rs" "r \<in> set rs" "n \<in> frames_of (region_base r) (region_base r + region_length r)"
  shows "256 \<le> n \<and> n < 262144"
proof -
  have "0x100000 \<le> unat (region_base r)" "unat (region_base r + region_length r) \<le> 0x40000000"
    using assms(1,2) by (auto simp: regions_ok_def region_ok_def)
  then have "256 \<le> unat (region_base r) div 4096" "unat (region_base r + region_length r) div 4096 \<le> 262144"
    using div_le_mono [of _ _ 4096] by fastforce+
  then show ?thesis using assms(3) by (simp add: frames_of_def)
qed

lemma mm_init_pmm_ok:
  assumes "x86_64_mm_init ks ke m boot_magic info b = Some (p, b')"
  shows "pmm_ok p" "free_set p \<subseteq> {256..<262144}"
proof -
  obtain rs where rs: "regions_ok rs" "p = pmm_init rs ks ke" using mm_init_regions [OF assms] by blast
  show "free_set p \<subseteq> {256..<262144}" using region_frames [OF rs(1)] by (auto simp: rs(2) pmm_init_spec usable_frames_def)
  then have "0 \<notin> free_set p" by auto
  then show "pmm_ok p" by (simp add: pmm_ok_def rs(2) pmm_init_spec)
qed

text \<open>Property C5. Whatever the boot information contains, if the parser returns then the frame allocator is sound and
  hands out only frames between 1 MB and 1 GB, the part of memory that the boot page tables map, and of these none from the start of the
  kernel image up to, not including, the frame in which the bitmap ends. When the bitmap ends
  on a frame boundary, no free frame holds a byte of the kernel image or of the bitmap.\<close>

theorem multiboot_frames_bounded:
  assumes "x86_64_mm_init ks ke m boot_magic info b = Some (p, b')" "unat ks \<le> unat ke" "unat ke < 2 ^ 62"
  shows "pmm_ok p \<and> (\<forall>n \<in> free_set p. 256 \<le> n \<and> n < 262144)
    \<and> (\<forall>n \<in> free_set p. n < unat ks div 4096 \<or> (unat (bitmap_addr p) + unat (bitmap_bytes p)) div 4096 \<le> n)
    \<and> (4096 dvd unat (bitmap_addr p) + unat (bitmap_bytes p) \<longrightarrow>
         (\<forall>n \<in> free_set p. n \<notin> frames_touched (unat ks) (unat ke) \<and> n \<notin> bitmap_frames p))"
proof -
  obtain rs where rs: "regions_ok rs" and p: "p = pmm_init rs ks ke" using mm_init_regions [OF assms(1)] by blast
  have "frames_touched (unat ks) (unat ke) \<inter> free_set p = {} \<and> bitmap_frames p \<inter> free_set p = {}"
    if "4096 dvd unat (bitmap_addr p) + unat (bitmap_bytes p)"
  proof -
    have "4096 dvd unat (bitmap_end rs ke)" using that bitmap_end_unat(1) [OF assms(3), of rs ks] by (simp add: p pmm_init_spec)
    from pmm_init_apart(2,3) [OF assms(2,3) this] show ?thesis by (simp add: p bitmap_apart_def)
  qed
  moreover have "n < unat ks div 4096 \<or> (unat (bitmap_addr p) + unat (bitmap_bytes p)) div 4096 \<le> n" if "n \<in> free_set p" for n
    using that bitmap_end_unat(1) [OF assms(3), of rs ks] by (auto simp: p pmm_init_spec frames_of_def)
  moreover have "pmm_ok p" using mm_init_pmm_ok(1) [OF assms(1)] .
  moreover have "free_set p \<subseteq> {256..<262144}" using mm_init_pmm_ok(2) [OF assms(1)] .
  ultimately show ?thesis by auto
qed

theorem multiboot_frames_bounded_witness:
  "\<exists>p b'. x86_64_mm_init 0x100000 0x10FF00 demo_mb2 MULTIBOOT2_BOOTLOADER_MAGIC 0x9000 mb2_start = Some (p, b')
     \<and> (\<forall>n. n \<in> free_set p \<longrightarrow> 256 \<le> n \<and> n < 262144) \<and> 0x10F \<notin> free_set p \<and> 0x10F \<in> frames_touched 0x100000 0x10FF00 \<and> 0x10F \<in> bitmap_frames p"
proof -
  let ?rs = "[\<lparr>region_base = 0x100000, region_length = 0x700000\<rparr>]"
  have c: "concat (map clip (map_entries demo_tags)) = ?rs" "length (map_entries demo_tags) \<le> 64" by code_simp+
  obtain b' where r: "x86_64_mm_init 0x100000 0x10FF00 demo_mb2 MULTIBOOT2_BOOTLOADER_MAGIC 0x9000 mb2_start = Some (pmm_init ?rs 0x100000 0x10FF00, b')"
    using mm_init_items [of "0x9000" demo_mb2 demo_tags "0x100000" "0x10FF00" mb2_start] demo_items c by (auto simp: mb2_start_def)
  let ?p = "pmm_init ?rs 0x100000 0x10FF00"
  have a: "unat (bitmap_addr ?p) = 0x10FF00" by (simp add: pmm_init_spec ALIGN_UP_def)
  have "bitmap_bytes ?p = (total_frames ?p + 7) div 8" using pmm_init_spec(1) [of ?rs "0x100000" "0x10FF00"] by (simp add: pmm_inv_def pmm_geom_def)
  then have n: "unat (bitmap_bytes ?p) = 0x100" by (simp add: pmm_init_spec(2) highest_address_def)
  have "0x10FF00 div 4096 = (0x10F :: nat)" "0x10FEFF div 4096 = (0x10F :: nat)" by simp_all
  then have k: "0x10F \<in> frames_touched 0x100000 0x10FF00" "0x10F \<in> bitmap_frames ?p"
    unfolding bitmap_frames_def a n frames_touched_def by (intro image_eqI [of _ _ "0x10FEFF"] image_eqI [of _ _ "0x10FF00"]; simp)+
  have u: "unat (0x100000 :: u64) \<le> unat (0x10FF00 :: u64)" "unat (0x10FF00 :: u64) < 2 ^ 62" by simp_all
  have d: "4096 dvd unat (bitmap_addr ?p) + unat (bitmap_bytes ?p)" unfolding a n by simp
  show ?thesis using multiboot_frames_bounded [OF r u] r d k by blast
qed

end
