(* ===== verification/Timer.thy ===== *)
theory Timer
  imports Sched Interrupts
begin

text \<open>
  The clocks that drive the scheduler: the programmable interval timer of
  \<^verbatim>\<open>arch/x86_64/drivers/pit.c\<close>, and on aarch64 the generic timer of \<^verbatim>\<open>arch/aarch64/drivers/timer.c\<close>, the
  interrupt controller of \<^verbatim>\<open>arch/aarch64/drivers/gic.c\<close> and the dispatcher of \<^verbatim>\<open>arch/aarch64/irq.c\<close>.
  A clock counts its interrupts and calls \<open>sched_tick\<close>; both are instances of one contract.
\<close>

section \<open>x86_64: the interval timer (pit.c)\<close>

record 'cpu pit =
  pit_ticks :: u64
  pit_sched :: "'cpu sched"

definition PIT_FREQUENCY :: u32 where "PIT_FREQUENCY = 1193182"
definition PIT_CHANNEL0 :: u16 where "PIT_CHANNEL0 = 0x40"
definition PIT_COMMAND :: u16 where "PIT_COMMAND = 0x43"

definition pit_tick :: "'cpu arch_ops \<Rightarrow> ('cpu, 'x) pit_scheme \<Rightarrow> ('cpu, 'x) pit_scheme option" where
  "pit_tick ops p =
     do {
       let p = p\<lparr>pit_ticks := pit_ticks p + 1\<rparr>;
       sc \<leftarrow> sched_tick ops (pit_sched p);
       Some (p\<lparr>pit_sched := sc\<rparr>)
     }"

text \<open>A frequency of 0 divides by zero. \<open>h\<close> is the handler table's value for \<open>pit_tick\<close>.\<close>

definition pit_init :: "u32 \<Rightarrow> 'h \<Rightarrow> ('h, 'x) irqs_scheme \<Rightarrow> ('h, 'x) irqs_scheme option" where
  "pit_init hz h s =
     (if hz = 0 then None
      else
        let divisor = ucast (PIT_FREQUENCY div hz) :: u16;
            b = outb PIT_COMMAND 0x36 (irq_bus s);
            b = outb PIT_CHANNEL0 (ucast (divisor AND 0xFF)) b;
            b = outb PIT_CHANNEL0 (ucast (drop_bit 8 divisor AND 0xFF)) b
        in Some (irq_install_handler 0 h (s\<lparr>irq_bus := b\<rparr>)))"

definition pit_get_ticks :: "('cpu, 'x) pit_scheme \<Rightarrow> u64" where
  "pit_get_ticks p = pit_ticks p"

section \<open>aarch64: the interrupt controller (gic.c)\<close>

definition GICD_BASE :: u64 where "GICD_BASE = 0x08000000"
definition GICC_BASE :: u64 where "GICC_BASE = 0x08010000"
definition GICD_CTLR :: u64 where "GICD_CTLR = GICD_BASE + 0x000"
definition GICD_IGROUPR :: "u32 \<Rightarrow> u64" where "GICD_IGROUPR n = GICD_BASE + 0x080 + ucast (4 * n)"
definition GICD_IPRIORITYR :: "u32 \<Rightarrow> u64" where "GICD_IPRIORITYR n = GICD_BASE + 0x400 + ucast (4 * n)"
definition GICD_ISENABLER :: "u32 \<Rightarrow> u64" where "GICD_ISENABLER n = GICD_BASE + 0x100 + ucast (4 * n)"
definition GICC_CTLR :: u64 where "GICC_CTLR = GICC_BASE + 0x000"
definition GICC_PMR :: u64 where "GICC_PMR = GICC_BASE + 0x004"
definition GICC_IAR :: u64 where "GICC_IAR = GICC_BASE + 0x00C"
definition GICC_EOIR :: u64 where "GICC_EOIR = GICC_BASE + 0x010"

definition gic_init :: "a64_reg iobus \<Rightarrow> a64_reg iobus" where
  "gic_init b =
     (let b = mmio_write32 GICD_CTLR (push_bit 0 1 OR push_bit 1 1) b;
          b = mmio_write32 GICC_CTLR (push_bit 0 1 OR push_bit 1 1 OR push_bit 2 1) b
      in mmio_write32 GICC_PMR 0xFF b)"

definition gic_enable_irq :: "u32 \<Rightarrow> a64_reg iobus \<Rightarrow> a64_reg iobus" where
  "gic_enable_irq irq b =
     (let reg = irq div 32;
          bt = unat (irq mod 32);
          (v, b) = mmio_read32 (GICD_IGROUPR reg) b;
          b = mmio_write32 (GICD_IGROUPR reg) (v OR push_bit bt 1) b;
          (v, b) = mmio_read32 (GICD_IPRIORITYR (irq div 4)) b;
          b = mmio_write32 (GICD_IPRIORITYR (irq div 4)) (v AND NOT (push_bit (unat (irq mod 4) * 8) 0xFF)) b
      in mmio_write32 (GICD_ISENABLER reg) (push_bit bt 1) b)"

definition gic_cpu_iack :: "a64_reg iobus \<Rightarrow> u32 \<times> a64_reg iobus" where
  "gic_cpu_iack b = mmio_read32 GICC_IAR b"

definition gic_cpu_eoi :: "u32 \<Rightarrow> a64_reg iobus \<Rightarrow> a64_reg iobus" where
  "gic_cpu_eoi iar b = mmio_write32 GICC_EOIR iar b"

section \<open>aarch64: the generic timer (timer.c) and the dispatcher (irq.c)\<close>

record 'cpu a64_timer =
  t_bus :: "a64_reg iobus"
  reload_ticks :: u32
  gt_ticks :: u64
  gt_sched :: "'cpu sched"

definition GENERIC_TIMER_IRQ :: u32 where "GENERIC_TIMER_IRQ = 30"

definition read_cntfrq :: "a64_reg iobus \<Rightarrow> u64 \<times> a64_reg iobus" where
  "read_cntfrq b = io_in Cntfrq_el0 b"

definition write_cntp_tval :: "u64 \<Rightarrow> a64_reg iobus \<Rightarrow> a64_reg iobus" where
  "write_cntp_tval v b = io_out Cntp_tval_el0 v b"

definition write_cntp_ctl :: "u64 \<Rightarrow> a64_reg iobus \<Rightarrow> a64_reg iobus" where
  "write_cntp_ctl v b = io_out Cntp_ctl_el0 v b"

definition generic_timer_init :: "u32 \<Rightarrow> ('cpu, 'x) a64_timer_scheme \<Rightarrow> ('cpu, 'x) a64_timer_scheme option" where
  "generic_timer_init hz s =
     (if hz = 0 then None
      else
        let (frq, b) = read_cntfrq (t_bus s);
            s = s\<lparr>reload_ticks := ucast (frq div ucast hz)\<rparr>;
            b = write_cntp_tval (ucast (reload_ticks s)) b;
            b = write_cntp_ctl (push_bit 0 1) b;
            b = gic_enable_irq GENERIC_TIMER_IRQ b
        in Some (s\<lparr>t_bus := b\<rparr>))"

definition generic_timer_ack :: "('cpu, 'x) a64_timer_scheme \<Rightarrow> ('cpu, 'x) a64_timer_scheme" where
  "generic_timer_ack s = s\<lparr>t_bus := write_cntp_tval (ucast (reload_ticks s)) (t_bus s)\<rparr>"

definition generic_timer_tick :: "'cpu arch_ops \<Rightarrow> ('cpu, 'x) a64_timer_scheme \<Rightarrow> ('cpu, 'x) a64_timer_scheme option" where
  "generic_timer_tick ops s =
     do {
       let s = s\<lparr>gt_ticks := gt_ticks s + 1\<rparr>;
       sc \<leftarrow> sched_tick ops (gt_sched s);
       Some (s\<lparr>gt_sched := sc\<rparr>)
     }"

definition generic_timer_ticks :: "('cpu, 'x) a64_timer_scheme \<Rightarrow> u64" where
  "generic_timer_ticks s = gt_ticks s"

definition aarch64_irq_handler :: "'cpu arch_ops \<Rightarrow> ('cpu, 'x) a64_timer_scheme \<Rightarrow> ('cpu, 'x) a64_timer_scheme option" where
  "aarch64_irq_handler ops s =
     (let (iar, b) = gic_cpu_iack (t_bus s);
          s = s\<lparr>t_bus := b\<rparr>;
          intid = iar AND 0x3FF;
          s = (if intid = GENERIC_TIMER_IRQ then generic_timer_ack s else s);
          s = s\<lparr>t_bus := gic_cpu_eoi iar (t_bus s)\<rparr>
      in if intid = GENERIC_TIMER_IRQ then generic_timer_tick ops s else Some s)"

section \<open>A clock that preempts\<close>

fun iter_opt :: "('s \<Rightarrow> 's option) \<Rightarrow> nat \<Rightarrow> 's \<Rightarrow> 's option" where
  "iter_opt f 0 s = Some s"
| "iter_opt f (Suc k) s = do { s1 \<leftarrow> f s; iter_opt f k s1 }"

text \<open>What the scheduler relies on: a clock interrupt performs one \<open>sched_tick\<close> and counts itself.\<close>

locale clock =
  fixes ops :: "'cpu arch_ops"
    and interrupt :: "'s \<Rightarrow> 's option"
    and counted :: "'s \<Rightarrow> u64"
    and scheduler :: "'s \<Rightarrow> 'cpu sched"
    and ready :: "'s \<Rightarrow> bool"
  assumes interrupt_ticks:
    "ready s \<Longrightarrow> sched_tick ops (scheduler s) = Some sc \<Longrightarrow>
       \<exists>s'. interrupt s = Some s' \<and> ready s' \<and> scheduler s' = sc \<and> counted s' = counted s + 1"
begin

lemma interrupts_rotate:
  assumes "ready s" "sched_rep (scheduler s) rs" "sched_enabled (scheduler s)"
  shows "\<exists>s'. iter_opt interrupt k s = Some s' \<and> sched_rep (scheduler s') (rotate k rs)
     \<and> counted s' = counted s + of_nat k \<and> ready s'"
  using assms
proof (induction k arbitrary: s rs)
  case (Suc k)
  obtain sc where sc: "sched_yield ops (scheduler s) = Some sc" "sched_rep sc (rotate1 rs)"
    "sched_enabled sc = sched_enabled (scheduler s)"
    using sched_yield_ring [OF Suc.prems(2), of ops] by metis
  then have "sched_tick ops (scheduler s) = Some sc" using Suc.prems(3) by (simp add: sched_tick_def)
  then obtain s1 where s1: "interrupt s = Some s1" "ready s1" "scheduler s1 = sc" "counted s1 = counted s + 1"
    using interrupt_ticks Suc.prems(1) by blast
  then obtain s' where "iter_opt interrupt k s1 = Some s'" "sched_rep (scheduler s') (rotate k (rotate1 rs))"
    "counted s' = counted s1 + of_nat k" "ready s'"
    using Suc.IH [of s1 "rotate1 rs"] sc Suc.prems(3) by auto
  then show ?case using s1 by (simp add: rotate1_rotate_swap algebra_simps)
qed simp

lemma runs_within:
  assumes "ready s" "sched_rep (scheduler s) rs" "sched_enabled (scheduler s)"
  shows "\<exists>s'. iter_opt interrupt k s = Some s' \<and> current (scheduler s') = rs ! (k mod length rs)
     \<and> counted s' = counted s + of_nat k"
proof -
  obtain s' where s': "iter_opt interrupt k s = Some s'" "sched_rep (scheduler s') (rotate k rs)"
    "counted s' = counted s + of_nat k" using interrupts_rotate [OF assms] by blast
  have "rs \<noteq> []" using assms(2) by (simp add: sched_rep_def)
  then have "current (scheduler s') = rs ! (k mod length rs)"
    using s'(2) hd_rotate_conv_nth [of rs k] by (simp add: sched_rep_def)
  with s' show ?thesis by blast
qed

end

interpretation pit_clock: clock ops "pit_tick ops" pit_ticks pit_sched "\<lambda>_. True"
  by unfold_locales (simp add: pit_tick_def)

text \<open>On aarch64 the interrupt controller says which interrupt it is; the clock is ready when that is
  the timer's.\<close>

definition timer_pending :: "('cpu, 'x) a64_timer_scheme \<Rightarrow> bool" where
  "timer_pending s \<longleftrightarrow> (\<forall>log. (ucast (io_dev (t_bus s) log (Mmio GICC_IAR)) :: u32) AND 0x3FF = GENERIC_TIMER_IRQ)"

lemma iack_result:
  "fst (gic_cpu_iack b) = ucast (io_dev b (io_log b) (Mmio GICC_IAR))"
  "snd (gic_cpu_iack b) = b\<lparr>io_log := io_log b @ [In (Mmio GICC_IAR) (io_dev b (io_log b) (Mmio GICC_IAR))]\<rparr>"
  by (simp_all add: gic_cpu_iack_def mmio_read32_def io_in_def Let_def)

lemma irq_handler_timer:
  assumes "timer_pending s"
  defines "iar \<equiv> io_dev (t_bus s) (io_log (t_bus s)) (Mmio GICC_IAR)"
  shows "aarch64_irq_handler ops s = generic_timer_tick ops
     (s\<lparr>t_bus := (t_bus s)\<lparr>io_log := io_log (t_bus s) @ [In (Mmio GICC_IAR) iar, Out Cntp_tval_el0 (ucast (reload_ticks s)),
         Out (Mmio GICC_EOIR) (ucast (ucast iar :: u32))]\<rparr>\<rparr>)"
  using assms iack_result [of "t_bus s"]
  by (simp add: aarch64_irq_handler_def timer_pending_def split_def Let_def generic_timer_ack_def write_cntp_tval_def
      gic_cpu_eoi_def mmio_write32_def io_out_def)

interpretation generic_clock: clock ops "aarch64_irq_handler ops" gt_ticks gt_sched timer_pending
  by unfold_locales (simp add: irq_handler_timer generic_timer_tick_def timer_pending_def)

section \<open>Properties\<close>

text \<open>Property C24. Timer interrupts preempt round-robin on both architectures: after \<open>k\<close> interrupts
  (through \<open>pit_tick\<close> on x86_64, through the whole acknowledge, end-of-interrupt and tick sequence of
  \<open>aarch64_irq_handler\<close> on aarch64) nothing has faulted, the tick counter has advanced by \<open>k\<close>, and the
  thread that runs is the one \<open>k\<close> places further around the ring.\<close>

theorem timer_interrupts_preempt:
  assumes "sched_rep (pit_sched p) rs" "sched_enabled (pit_sched p)"
    and "sched_rep (gt_sched g) qs" "sched_enabled (gt_sched g)" "timer_pending g"
  shows "(\<exists>p'. iter_opt (pit_tick ops) k p = Some p' \<and> current (pit_sched p') = rs ! (k mod length rs)
            \<and> pit_get_ticks p' = pit_get_ticks p + of_nat k)
       \<and> (\<exists>g'. iter_opt (aarch64_irq_handler ops') k g = Some g' \<and> current (gt_sched g') = qs ! (k mod length qs)
            \<and> generic_timer_ticks g' = generic_timer_ticks g + of_nat k)"
  using pit_clock.runs_within [OF TrueI assms(1,2), of ops k] generic_clock.runs_within [OF assms(5,3,4), of ops' k]
  by (simp add: pit_get_ticks_def generic_timer_ticks_def)

definition two_threads_a64 :: "cpu_a64 sched" where
  "two_threads_a64 = \<lparr>sched_heap = two_heap, sched_cpu = demo_cpu_a64 0x9000,
     thread_at = [0x4030 \<mapsto> \<lparr>t_id = 0, t_sp = 0, t_stack_base = 0, t_stack_size = 0,
                             t_state = THREAD_RUNNING, t_next = 0x40B0\<rparr>,
                  0x40B0 \<mapsto> \<lparr>t_id = 1, t_sp = 0xA000, t_stack_base = 0x8000, t_stack_size = 0x4000,
                             t_state = THREAD_READY, t_next = 0x4030\<rparr>],
     current = 0x4030, next_id = 2, sched_enabled = True\<rparr>"

lemma two_threads_a64_rep: "sched_rep two_threads_a64 [0x4030, 0x40B0]"
  using two_heap_rep
  by (auto simp: sched_rep_def two_threads_a64_def heap_inv_def tcb_live_def two_heap_live)

definition demo_timer :: "cpu_a64 a64_timer" where
  "demo_timer = \<lparr>t_bus = \<lparr>io_log = [], io_dev = (\<lambda>_ _. 30)\<rparr>, reload_ticks = 625000, gt_ticks = 0, gt_sched = two_threads_a64\<rparr>"

lemma demo_timer_pending: "timer_pending demo_timer"
proof -
  have "(30 :: u32) AND 0x3FF = 30 AND mask 10" by (simp add: mask_eq_exp_minus_1)
  then show ?thesis by (simp add: timer_pending_def demo_timer_def GENERIC_TIMER_IRQ_def)
qed

theorem timer_interrupts_preempt_witness:
  "(\<exists>p'. iter_opt (pit_tick (arch_x86 0x500)) 3 \<lparr>pit_ticks = 7, pit_sched = two_threads\<rparr> = Some p' \<and> pit_get_ticks p' = 10)
   \<and> (\<exists>g'. iter_opt (aarch64_irq_handler (arch_a64 0x500)) 3 demo_timer = Some g' \<and> current (gt_sched g') = 0x40B0)"
proof -
  let ?p = "\<lparr>pit_ticks = 7, pit_sched = two_threads\<rparr>"
  have h: "sched_rep (pit_sched ?p) [0x4030, 0x40B0]" "sched_enabled (pit_sched ?p)"
    "sched_rep (gt_sched demo_timer) [0x4030, 0x40B0]" "sched_enabled (gt_sched demo_timer)"
    using two_threads_rep two_threads_a64_rep by (simp_all add: demo_timer_def two_threads_def two_threads_a64_def)
  from timer_interrupts_preempt [OF h demo_timer_pending, of "arch_x86 0x500" 3 "arch_a64 0x500"]
  show ?thesis by (auto simp: pit_get_ticks_def mod_if simp del: iter_opt.simps)
qed

text \<open>The aarch64 dispatcher acknowledges and ends every interrupt with the same value,
  before any thread switch: it reads \<open>GICC_IAR\<close>, for the timer's interrupt (and only for that) reloads
  the timer before the end-of-interrupt write, and touches no other register. Only the timer's
  interrupt reaches the scheduler.\<close>

theorem aarch64_irq_order:
  "let iar = io_dev (t_bus s) (io_log (t_bus s)) (Mmio GICC_IAR);
       timer = ((ucast iar :: u32) AND 0x3FF = 30);
       log = io_log (t_bus s) @ [In (Mmio GICC_IAR) iar] @ (if timer then [Out Cntp_tval_el0 (ucast (reload_ticks s))] else [])
             @ [Out (Mmio GICC_EOIR) (ucast (ucast iar :: u32))];
       s1 = s\<lparr>t_bus := (t_bus s)\<lparr>io_log := log\<rparr>\<rparr>
   in aarch64_irq_handler ops s =
        (if timer then map_option (\<lambda>sc. s1\<lparr>gt_ticks := gt_ticks s + 1, gt_sched := sc\<rparr>) (sched_tick ops (gt_sched s))
         else Some s1)"
proof -
  note i = iack_result [of "t_bus s"]
  show ?thesis
  proof (cases "(ucast (io_dev (t_bus s) (io_log (t_bus s)) (Mmio GICC_IAR)) :: u32) AND 0x3FF = 30")
    case True
    with i show ?thesis
      by (cases "sched_tick ops (gt_sched s)")
        (simp_all add: aarch64_irq_handler_def split_def Let_def generic_timer_ack_def write_cntp_tval_def
          gic_cpu_eoi_def mmio_write32_def io_out_def GENERIC_TIMER_IRQ_def generic_timer_tick_def)
  next
    case False
    with i show ?thesis
      by (simp add: aarch64_irq_handler_def split_def Let_def gic_cpu_eoi_def mmio_write32_def io_out_def GENERIC_TIMER_IRQ_def)
  qed
qed

end
