(* ===== verification/Ata.thy ===== *)
theory Ata
  imports Ports
begin

text \<open>
  The polled ATA disk driver, \<^verbatim>\<open>arch/x86_64/drivers/ata.c\<close>. The drive is the device behind the port bus;
  waiting for a drive that stays busy does not return (\<open>None\<close>), the wait for data gives up after
  100000 polls. The second half states what an LBA28 drive promises and shows what the driver then
  delivers to \<open>arch_disk_read_sector\<close>.
\<close>

definition ATA_DATA :: u16 where "ATA_DATA = 0x1F0"
definition ATA_SECCOUNT :: u16 where "ATA_SECCOUNT = 0x1F2"
definition ATA_LBA_LOW :: u16 where "ATA_LBA_LOW = 0x1F3"
definition ATA_LBA_MID :: u16 where "ATA_LBA_MID = 0x1F4"
definition ATA_LBA_HIGH :: u16 where "ATA_LBA_HIGH = 0x1F5"
definition ATA_DRIVE :: u16 where "ATA_DRIVE = 0x1F6"
definition ATA_STATUS :: u16 where "ATA_STATUS = 0x1F7"
definition ATA_COMMAND :: u16 where "ATA_COMMAND = 0x1F7"
definition ATA_SR_BSY :: u8 where "ATA_SR_BSY = 0x80"
definition ATA_SR_DRQ :: u8 where "ATA_SR_DRQ = 0x08"
definition ATA_SR_ERR :: u8 where "ATA_SR_ERR = 0x01"
definition ATA_CMD_READ_SECTORS :: u8 where "ATA_CMD_READ_SECTORS = 0x20"

lemmas ata_ports = ATA_DATA_def ATA_SECCOUNT_def ATA_LBA_LOW_def ATA_LBA_MID_def ATA_LBA_HIGH_def ATA_DRIVE_def
  ATA_STATUS_def ATA_COMMAND_def

section \<open>The driver\<close>

definition ata_delay :: "u16 iobus \<Rightarrow> u16 iobus" where
  "ata_delay b =
     (let (_, b) = inb ATA_STATUS b;
          (_, b) = inb ATA_STATUS b;
          (_, b) = inb ATA_STATUS b;
          (_, b) = inb ATA_STATUS b
      in b)"

partial_function (option) ata_wait_bsy_clear :: "u16 iobus \<Rightarrow> u16 iobus option" where
  "ata_wait_bsy_clear b =
     (let (status, b) = inb ATA_STATUS b
      in if status AND ATA_SR_BSY \<noteq> 0 then ata_wait_bsy_clear b else Some b)"

fun wait_drq :: "nat \<Rightarrow> u16 iobus \<Rightarrow> bool \<times> u16 iobus" where
  "wait_drq 0 b = (False, b)"
| "wait_drq (Suc n) b =
     (let (status, b) = inb ATA_STATUS b
      in if status AND ATA_SR_ERR \<noteq> 0 then (False, b)
         else if status AND ATA_SR_DRQ \<noteq> 0 then (True, b)
         else wait_drq n b)"

definition ata_wait_drq :: "u16 iobus \<Rightarrow> bool \<times> u16 iobus" where
  "ata_wait_drq b = wait_drq 100000 b"

definition ata_init :: "u16 iobus \<Rightarrow> bool \<times> u16 iobus" where
  "ata_init b =
     (let b = outb ATA_DRIVE 0xE0 b;
          b = ata_delay b;
          (status, b) = inb ATA_STATUS b
      in (status \<noteq> 0xFF, b))"

definition ata_available :: "bool \<Rightarrow> bool" where
  "ata_available disk_present = disk_present"

text \<open>\<open>p[i] = inw(ATA_DATA)\<close> through a 16-bit pointer into the byte buffer, little endian.\<close>

fun read_words :: "nat \<Rightarrow> u8 list \<Rightarrow> nat \<Rightarrow> u16 iobus \<Rightarrow> u8 list \<times> u16 iobus" where
  "read_words 0 buf i b = (buf, b)"
| "read_words (Suc n) buf i b =
     (let (v, b) = inw ATA_DATA b
      in read_words n (buf[2 * i := ucast v, 2 * i + 1 := ucast (drop_bit 8 v)]) (i + 1) b)"

definition ata_issue :: "u32 \<Rightarrow> u16 iobus \<Rightarrow> u16 iobus" where
  "ata_issue lba b =
     (let b = outb ATA_DRIVE (0xE0 OR ucast (drop_bit 24 lba AND 0x0F)) b;
          b = outb ATA_SECCOUNT 1 b;
          b = outb ATA_LBA_LOW (ucast (lba AND 0xFF)) b;
          b = outb ATA_LBA_MID (ucast (drop_bit 8 lba AND 0xFF)) b;
          b = outb ATA_LBA_HIGH (ucast (drop_bit 16 lba AND 0xFF)) b
      in outb ATA_COMMAND ATA_CMD_READ_SECTORS b)"

definition ata_read_sector :: "bool \<Rightarrow> u32 \<Rightarrow> u8 list \<Rightarrow> u16 iobus \<Rightarrow> ((bool \<times> u8 list) \<times> u16 iobus) option" where
  "ata_read_sector disk_present lba buf b =
     (if \<not> disk_present then Some ((False, buf), b)
      else do {
        b \<leftarrow> ata_wait_bsy_clear b;
        let b = ata_issue lba b;
        let (ok, b) = ata_wait_drq b;
        if \<not> ok then Some ((False, buf), b)
        else (let (buf, b) = read_words 256 buf 0 b in Some ((True, buf), b))
      })"

section \<open>What a drive promises\<close>

text \<open>The registers as the drive sees them: the last value written to each port.\<close>

definition reg_of :: "u16 io_event list \<Rightarrow> u16 \<Rightarrow> u8" where
  "reg_of log p = (case map_of (rev (outs log)) p of Some v \<Rightarrow> ucast v | None \<Rightarrow> 0)"

definition cmd_lba :: "u16 io_event list \<Rightarrow> u32" where
  "cmd_lba log = ucast (reg_of log ATA_LBA_LOW) OR push_bit 8 (ucast (reg_of log ATA_LBA_MID))
     OR push_bit 16 (ucast (reg_of log ATA_LBA_HIGH)) OR push_bit 24 (ucast (reg_of log ATA_DRIVE AND 0x0F))"

text \<open>How many data words have been read since the last command.\<close>

fun data_reads :: "u16 io_event list \<Rightarrow> nat \<Rightarrow> nat" where
  "data_reads [] n = n"
| "data_reads (Out p v # es) n = data_reads es (if p = ATA_COMMAND then 0 else n)"
| "data_reads (In p v # es) n = data_reads es (if p = ATA_DATA then n + 1 else n)"

lemma data_reads_append: "data_reads (xs @ ys) n = data_reads ys (data_reads xs n)"
  by (induction xs n rule: data_reads.induct) simp_all

fun poll_log :: "(u16 io_event list \<Rightarrow> u16 \<Rightarrow> u64) \<Rightarrow> nat \<Rightarrow> u16 io_event list \<Rightarrow> u16 io_event list" where
  "poll_log dev 0 log = log"
| "poll_log dev (Suc n) log = poll_log dev n (log @ [In ATA_STATUS (dev log ATA_STATUS)])"

definition status_at :: "(u16 io_event list \<Rightarrow> u16 \<Rightarrow> u64) \<Rightarrow> nat \<Rightarrow> u16 io_event list \<Rightarrow> u8" where
  "status_at dev n log = ucast (dev (poll_log dev n log) ATA_STATUS)"

text \<open>A drive holding the 256 words of sector \<open>l\<close> in \<open>D l\<close>: polled, it ceases to be busy; after a
  command it offers data within the driver's patience and without an error; and the data port
  delivers the addressed sector word by word.\<close>

definition ata_drive :: "(u32 \<Rightarrow> nat \<Rightarrow> u16) \<Rightarrow> (u16 io_event list \<Rightarrow> u16 \<Rightarrow> u64) \<Rightarrow> bool" where
  "ata_drive D dev \<longleftrightarrow>
     (\<forall>log. \<exists>n. status_at dev n log AND ATA_SR_BSY = 0)
     \<and> (\<forall>log. \<exists>n < 100000. status_at dev n (log @ [Out ATA_COMMAND 0x20]) AND ATA_SR_DRQ \<noteq> 0
           \<and> (\<forall>k \<le> n. status_at dev k (log @ [Out ATA_COMMAND 0x20]) AND ATA_SR_ERR = 0))
     \<and> (\<forall>log. dev log ATA_DATA = ucast (D (cmd_lba log) (data_reads log 0)))"

definition sector_bytes :: "(nat \<Rightarrow> u16) \<Rightarrow> u8 list" where
  "sector_bytes w = concat (map (\<lambda>i. [ucast (w i), ucast (drop_bit 8 (w i))]) [0..<256])"

section \<open>Each step of the driver\<close>

lemma inb_status: "inb ATA_STATUS b = (ucast (io_dev b (io_log b) ATA_STATUS), b\<lparr>io_log := poll_log (io_dev b) 1 (io_log b)\<rparr>)"
  by (simp add: inb_def io_in_def Let_def)

lemma status_at_0: "status_at dev 0 log = ucast (dev log ATA_STATUS)"
  by (simp add: status_at_def)

lemma status_at_Suc: "status_at dev (Suc n) log = status_at dev n (poll_log dev 1 log)"
  by (simp add: status_at_def)

lemma wait_bsy_returns:
  assumes "status_at (io_dev b) n (io_log b) AND ATA_SR_BSY = 0"
  shows "\<exists>m. ata_wait_bsy_clear b = Some (b\<lparr>io_log := poll_log (io_dev b) m (io_log b)\<rparr>)"
  using assms
proof (induction n arbitrary: b)
  case 0
  then have "ata_wait_bsy_clear b = Some (b\<lparr>io_log := poll_log (io_dev b) 1 (io_log b)\<rparr>)"
    by (subst ata_wait_bsy_clear.simps) (simp add: inb_status status_at_0)
  then show ?case by blast
next
  case (Suc n)
  let ?b = "b\<lparr>io_log := poll_log (io_dev b) 1 (io_log b)\<rparr>"
  have "ata_wait_bsy_clear b = (if ucast (io_dev b (io_log b) ATA_STATUS) AND ATA_SR_BSY \<noteq> 0
      then ata_wait_bsy_clear ?b else Some ?b)"
    by (subst ata_wait_bsy_clear.simps) (simp add: inb_status)
  moreover obtain m where "ata_wait_bsy_clear ?b = Some (?b\<lparr>io_log := poll_log (io_dev ?b) m (io_log ?b)\<rparr>)"
    using Suc.IH [of ?b] Suc.prems by (auto simp: status_at_Suc)
  then have "ata_wait_bsy_clear ?b = Some (b\<lparr>io_log := poll_log (io_dev b) (Suc m) (io_log b)\<rparr>)" by simp
  ultimately show ?case by metis
qed

lemma wait_drq_ready:
  assumes "n < f" "status_at (io_dev b) n (io_log b) AND ATA_SR_DRQ \<noteq> 0"
    "\<And>k. k \<le> n \<Longrightarrow> status_at (io_dev b) k (io_log b) AND ATA_SR_ERR = 0"
  shows "\<exists>m. wait_drq f b = (True, b\<lparr>io_log := poll_log (io_dev b) m (io_log b)\<rparr>)"
  using assms
proof (induction n arbitrary: b f)
  case 0
  obtain f' where f: "f = Suc f'" using 0 by (cases f) auto
  have "wait_drq f b = (True, b\<lparr>io_log := poll_log (io_dev b) 1 (io_log b)\<rparr>)"
    using 0(2) 0(3) [of 0] by (simp add: f inb_status status_at_0)
  then show ?case by blast
next
  case (Suc n)
  let ?b = "b\<lparr>io_log := poll_log (io_dev b) 1 (io_log b)\<rparr>"
  obtain f' where f: "f = Suc f'" using Suc.prems by (cases f) auto
  have e: "ucast (io_dev b (io_log b) ATA_STATUS) AND ATA_SR_ERR = 0"
    using Suc.prems(3) [of 0] by (simp add: status_at_0)
  have "\<And>k. k \<le> n \<Longrightarrow> status_at (io_dev ?b) k (io_log ?b) AND ATA_SR_ERR = 0"
    using Suc.prems(3) [of "Suc k" for k] by (simp add: status_at_Suc)
  then obtain m where m: "wait_drq f' ?b = (True, ?b\<lparr>io_log := poll_log (io_dev ?b) m (io_log ?b)\<rparr>)"
    using Suc.IH [of f' ?b] Suc.prems by (auto simp: status_at_Suc f)
  have "wait_drq f b = (if ucast (io_dev b (io_log b) ATA_STATUS) AND ATA_SR_DRQ \<noteq> 0 then (True, ?b) else wait_drq f' ?b)"
    using e by (simp add: f inb_status)
  moreover have "wait_drq f' ?b = (True, b\<lparr>io_log := poll_log (io_dev b) (Suc m) (io_log b)\<rparr>)" using m by simp
  ultimately show ?case by metis
qed

lemma poll_log_invisible:
  "outs (poll_log dev n log) = outs log" "data_reads (poll_log dev n log) k = data_reads log k"
  by (induction n arbitrary: log) (simp_all add: data_reads_append ata_ports)

lemma cmd_lba_outs: "outs log = outs log' \<Longrightarrow> cmd_lba log = cmd_lba log'"
  by (simp add: cmd_lba_def reg_of_def)

lemma lba28:
  "ucast (ucast (lba AND 0xFF :: u32) :: u8) OR push_bit 8 (ucast (ucast (drop_bit 8 lba AND 0xFF) :: u8))
     OR push_bit 16 (ucast (ucast (drop_bit 16 lba AND 0xFF) :: u8))
     OR push_bit 24 (ucast ((0xE0 OR ucast (drop_bit 24 lba AND 0x0F)) AND 0x0F :: u8)) = lba AND mask 28"
proof (rule bit_word_eqI)
  fix n assume "n < LENGTH(32)"
  then consider "n < 8" | "8 \<le> n" "n < 16" | "16 \<le> n" "n < 24" | "24 \<le> n" "n < 28" | "28 \<le> n" "n < 32" by fastforce
  moreover have m: "(0xFF :: u32) = mask 8" "(0x0F :: u32) = mask 4" "(0x0F :: u8) = mask 4"
    "(0xE0 :: u8) = push_bit 5 (mask 3)" by (simp_all add: mask_eq_exp_minus_1 push_bit_eq_mult)
  ultimately show "bit (ucast (ucast (lba AND 0xFF :: u32) :: u8) OR push_bit 8 (ucast (ucast (drop_bit 8 lba AND 0xFF) :: u8))
     OR push_bit 16 (ucast (ucast (drop_bit 16 lba AND 0xFF) :: u8))
     OR push_bit 24 (ucast ((0xE0 OR ucast (drop_bit 24 lba AND 0x0F)) AND 0x0F :: u8)) :: u32) n = bit (lba AND mask 28) n"
    unfolding m by cases (auto simp: bit_simps)
qed

lemma ucast_u8_u64: "ucast (ucast (v :: u8) :: u64) = v"
  by (rule bit_word_eqI) (auto simp: bit_simps)

lemma outs_issue:
  "outs (io_log (ata_issue lba b)) = outs (io_log b) @
     [(ATA_DRIVE, ucast (0xE0 OR ucast (drop_bit 24 lba AND 0x0F) :: u8)), (ATA_SECCOUNT, 1),
      (ATA_LBA_LOW, ucast (ucast (lba AND 0xFF) :: u8)), (ATA_LBA_MID, ucast (ucast (drop_bit 8 lba AND 0xFF) :: u8)),
      (ATA_LBA_HIGH, ucast (ucast (drop_bit 16 lba AND 0xFF) :: u8)), (ATA_COMMAND, 0x20)]"
  by (simp add: ata_issue_def Let_def ATA_CMD_READ_SECTORS_def)

lemma issue_lba: "cmd_lba (io_log (ata_issue lba b)) = lba AND mask 28"
  unfolding lba28 [symmetric] cmd_lba_def reg_of_def outs_issue by (simp add: ata_ports ucast_u8_u64)

lemma issue_log: "\<exists>log. io_log (ata_issue lba b) = log @ [Out ATA_COMMAND 0x20]"
  by (simp add: ata_issue_def Let_def outb_def io_out_def ATA_CMD_READ_SECTORS_def)

lemma issue_reads: "data_reads (io_log (ata_issue lba b)) 0 = 0"
  using issue_log [of lba b] by (auto simp: data_reads_append)

lemma issue_dev: "io_dev (ata_issue lba b) = io_dev b"
  by (simp add: ata_issue_def Let_def)

lemma ucast_u16_u64: "ucast (ucast (v :: u16) :: u64) = v"
  by (rule bit_word_eqI) (auto simp: bit_simps)

lemma two_updates:
  assumes "i + 2 \<le> length buf"
  shows "take i buf @ [x, y] @ drop (i + 2) buf = buf[i := x, i + 1 := y]"
proof -
  have s: "drop i buf = buf ! i # buf ! (i + 1) # drop (i + 2) buf" using assms by (simp add: Cons_nth_drop_Suc)
  have "buf[i := x, i + 1 := y] = (take i buf @ drop i buf)[i := x, i + 1 := y]" by simp
  also have "\<dots> = take i buf @ [x, y] @ drop (i + 2) buf"
    unfolding s using assms by (simp add: list_update_append)
  finally show ?thesis ..
qed

lemma read_words_sector:
  fixes D :: "u32 \<Rightarrow> nat \<Rightarrow> u16"
  assumes "\<And>log. io_dev b log ATA_DATA = ucast (D (cmd_lba log) (data_reads log 0))"
    "cmd_lba (io_log b) = l" "data_reads (io_log b) 0 = i" "2 * (i + n) \<le> length buf"
  shows "fst (read_words n buf i b) = take (2 * i) buf
      @ concat (map (\<lambda>i. [ucast (D l i), ucast (drop_bit 8 (D l i))]) [i..<i + n]) @ drop (2 * (i + n)) buf
    \<and> io_dev (snd (read_words n buf i b)) = io_dev b"
  using assms
proof (induction n arbitrary: buf i b)
  case (Suc n)
  let ?v = "D l i" and ?b = "snd (inw ATA_DATA b)"
  let ?buf = "buf[2 * i := ucast ?v, 2 * i + 1 := ucast (drop_bit 8 ?v)]"
  have v: "fst (inw ATA_DATA b) = ?v"
    using Suc.prems by (simp add: inw_def io_in_def Let_def ucast_u16_u64)
  have "outs (io_log ?b) = outs (io_log b)" by simp
  then have l: "cmd_lba (io_log ?b) = l" using Suc.prems(2) cmd_lba_outs by blast
  have r: "data_reads (io_log ?b) 0 = i + 1"
    using Suc.prems(3) by (simp add: inw_def io_in_def Let_def data_reads_append)
  have step: "read_words (Suc n) buf i b = read_words n ?buf (i + 1) ?b" using v by (simp add: split_def)
  have len: "2 * (i + 1 + n) \<le> length ?buf" using Suc.prems(4) by simp
  have dev: "io_dev ?b log ATA_DATA = ucast (D (cmd_lba log) (data_reads log 0))" for log using Suc.prems(1) by simp
  have two: "?buf = take (2 * i) buf @ [ucast ?v, ucast (drop_bit 8 ?v)] @ drop (2 * i + 2) buf"
    using Suc.prems(4) by (intro two_updates [symmetric]) simp
  have pre: "take (2 * (i + 1)) ?buf = take (2 * i) buf @ [ucast ?v, ucast (drop_bit 8 ?v)]"
    unfolding two using Suc.prems(4) by (simp add: min_def)
  have suf: "drop (2 * (i + 1 + n)) ?buf = drop (2 * (i + Suc n)) buf" by (simp add: drop_update_cancel)
  have upt: "[i..<i + Suc n] = i # [i + 1..<i + 1 + n]" by (simp add: upt_rec)
  show ?case using Suc.IH [OF dev l r len] unfolding step pre suf upt by simp
qed simp

section \<open>Properties\<close>

text \<open>A whole read.\<close>

lemma ata_read_ok:
  assumes "ata_drive D (io_dev b)" "512 \<le> length buf"
  shows "\<exists>b'. ata_read_sector True lba buf b = Some ((True, sector_bytes (D (lba AND mask 28)) @ drop 512 buf), b')
     \<and> io_dev b' = io_dev b \<and> (unat lba < 2 ^ 28 \<longrightarrow> lba AND mask 28 = lba)"
proof -
  obtain n where "status_at (io_dev b) n (io_log b) AND ATA_SR_BSY = 0"
    using assms(1) unfolding ata_drive_def by blast
  then obtain m where w: "ata_wait_bsy_clear b = Some (b\<lparr>io_log := poll_log (io_dev b) m (io_log b)\<rparr>)"
    using wait_bsy_returns by blast
  define b1 where "b1 = ata_issue lba (b\<lparr>io_log := poll_log (io_dev b) m (io_log b)\<rparr>)"
  have d1: "io_dev b1 = io_dev b" by (simp add: b1_def issue_dev)
  obtain log where log: "io_log b1 = log @ [Out ATA_COMMAND 0x20]" using issue_log b1_def by blast
  obtain k where "k < 100000" "status_at (io_dev b) k (io_log b1) AND ATA_SR_DRQ \<noteq> 0"
    "\<And>j. j \<le> k \<Longrightarrow> status_at (io_dev b) j (io_log b1) AND ATA_SR_ERR = 0"
    using assms(1) unfolding ata_drive_def log by blast
  then obtain m' where q: "ata_wait_drq b1 = (True, b1\<lparr>io_log := poll_log (io_dev b) m' (io_log b1)\<rparr>)"
    using wait_drq_ready [of k 100000 b1] unfolding ata_wait_drq_def d1 by blast
  define b2 where "b2 = b1\<lparr>io_log := poll_log (io_dev b) m' (io_log b1)\<rparr>"
  have d2: "io_dev b2 = io_dev b" by (simp add: b2_def d1)
  have dev: "io_dev b2 log ATA_DATA = ucast (D (cmd_lba log) (data_reads log 0))" for log
    using assms(1) unfolding ata_drive_def d2 by blast
  have "outs (io_log b2) = outs (io_log b1)" by (simp add: b2_def poll_log_invisible)
  then have l: "cmd_lba (io_log b2) = lba AND mask 28" using cmd_lba_outs issue_lba b1_def by metis
  have r: "data_reads (io_log b2) 0 = 0" using issue_reads b1_def by (simp add: b2_def poll_log_invisible)
  note rw = read_words_sector [OF dev l r, of 256 buf]
  have "ata_read_sector True lba buf b = Some ((True, fst (read_words 256 buf 0 b2)), snd (read_words 256 buf 0 b2))"
    using w q by (simp add: ata_read_sector_def b1_def b2_def split_def Let_def)
  moreover have "lba AND mask 28 = lba" if "unat lba < 2 ^ 28"
    using that by (simp add: take_bit_eq_mask [symmetric] word_unat_eq_iff unsigned_take_bit_eq take_bit_nat_eq_self)
  ultimately show ?thesis using rw assms(2) d2 by (simp add: sector_bytes_def)
qed

text \<open>Property C30. A sector read from a working drive returns true and fills the buffer with the 512
  bytes of the sector the drive keeps under the low 28 bits of the requested address, in little-endian
  word order, and leaves the rest of the buffer alone; the polls return within the driver's patience.
  An address below \<open>2 ^ 28\<close> therefore reads exactly the requested sector.\<close>

theorem ata_reads_sector:
  assumes "ata_drive D (io_dev b)" "512 \<le> length buf"
  shows "\<exists>b'. ata_read_sector True lba buf b = Some ((True, sector_bytes (D (lba AND mask 28)) @ drop 512 buf), b')
     \<and> io_dev b' = io_dev b \<and> (unat lba < 2 ^ 28 \<longrightarrow> lba AND mask 28 = lba)"
  by (rule ata_read_ok [OF assms])

definition demo_drive :: "(u32 \<Rightarrow> nat \<Rightarrow> u16) \<Rightarrow> u16 io_event list \<Rightarrow> u16 \<Rightarrow> u64" where
  "demo_drive D log p = (if p = ATA_DATA then ucast (D (cmd_lba log) (data_reads log 0)) else 0x08)"

lemma demo_drive_ok: "ata_drive D (demo_drive D)"
proof -
  have s: "status_at (demo_drive D) n log = 8" for n log
    by (simp add: status_at_def demo_drive_def ata_ports)
  have "(8 :: u8) AND ATA_SR_BSY = 0" "(8 :: u8) AND ATA_SR_DRQ \<noteq> 0" "(8 :: u8) AND ATA_SR_ERR = 0"
    by (simp_all add: ATA_SR_BSY_def ATA_SR_DRQ_def ATA_SR_ERR_def)
  then show ?thesis unfolding ata_drive_def s by (auto simp: demo_drive_def intro: exI [of _ 0])
qed

text \<open>The words of a sector given by its bytes.\<close>

definition sector_words :: "u8 list \<Rightarrow> nat \<Rightarrow> u16" where
  "sector_words bs i = ucast (bs ! (2 * i)) OR push_bit 8 (ucast (bs ! (2 * i + 1)))"

lemma pairs_upt: "concat (map (\<lambda>i. [f (2 * i), f (2 * i + 1)]) [0..<n]) = map f [0..<2 * n]"
  by (induction n) simp_all

lemma sector_bytes_words:
  assumes "length bs = 512"
  shows "sector_bytes (sector_words bs) = bs"
proof -
  have w: "ucast (sector_words bs i) = bs ! (2 * i)" "ucast (drop_bit 8 (sector_words bs i)) = bs ! (2 * i + 1)" for i
    by (rule bit_word_eqI; use bit_imp_le_length [of "bs ! (2 * i)"] in \<open>force simp add: sector_words_def bit_simps\<close>)+
  show ?thesis unfolding sector_bytes_def w pairs_upt using assms map_nth [of bs] by simp
qed

theorem ata_reads_sector_witness:
  "\<exists>b'. ata_read_sector True 0x10000005 (replicate 512 0) \<lparr>io_log = [], io_dev = demo_drive (\<lambda>l i. ucast l)\<rparr>
     = Some ((True, sector_bytes (\<lambda>_. 5)), b')"
  using ata_reads_sector [of "\<lambda>l i. ucast l" "\<lparr>io_log = [], io_dev = demo_drive (\<lambda>l i. ucast l)\<rparr>" "replicate 512 0" "0x10000005"]
    demo_drive_ok [of "\<lambda>l i. ucast l"]
  by (auto simp: mask_eq_exp_minus_1)

end
