(* ===== verification/Descriptors.thy ===== *)
theory Descriptors
  imports Prelude
begin

text \<open>
  The segment tables of x86_64: \<^verbatim>\<open>arch/x86_64/boot/gdt.c\<close> and \<^verbatim>\<open>arch/x86_64/boot/tss.c\<close>. The packed C
  structures are records with the fields in source order. The addresses of the static objects (the
  table, the task state segment, the kernel stack) are chosen by the linker and are arguments.
\<close>

section \<open>Global descriptor table (gdt.c)\<close>

record gdt_entry =
  limit_low :: u16
  base_low :: u16
  base_mid :: u8
  gdt_access :: u8
  flags_limit_high :: u8
  base_high :: u8

record gdt_pointer =
  gp_limit :: u16
  gp_base :: u64

text \<open>\<open>gdtr\<close>, \<open>code_seg\<close> (CS) and \<open>data_segs\<close> (DS, ES, FS, GS and SS) are the registers that
  \<open>gdt_flush\<close> loads, \<open>task_reg\<close> the one that \<open>ltr\<close> loads.\<close>

record gdt_state =
  gdt :: "gdt_entry list"
  gdt_ptr :: gdt_pointer
  gdtr :: "gdt_pointer option"
  code_seg :: u16
  data_segs :: u16
  task_reg :: u16

definition gdt_set_entry :: "nat \<Rightarrow> u32 \<Rightarrow> u32 \<Rightarrow> u8 \<Rightarrow> u8 \<Rightarrow> gdt_state \<Rightarrow> gdt_state" where
  "gdt_set_entry i base limit acc flags s =
     s\<lparr>gdt := (gdt s)[i := \<lparr>limit_low = ucast (limit AND 0xFFFF),
                             base_low = ucast (base AND 0xFFFF),
                             base_mid = ucast (drop_bit 16 base AND 0xFF),
                             gdt_access = acc,
                             flags_limit_high = ucast (drop_bit 16 limit AND 0x0F) OR (flags AND 0xF0),
                             base_high = ucast (drop_bit 24 base AND 0xFF)\<rparr>]\<rparr>"

text \<open>Storing two 32-bit values over the eight bytes of an entry, little endian.\<close>

definition gdt_overlay :: "u32 \<Rightarrow> u32 \<Rightarrow> gdt_entry" where
  "gdt_overlay u0 u1 = \<lparr>limit_low = ucast u0, base_low = ucast (drop_bit 16 u0), base_mid = ucast u1,
     gdt_access = ucast (drop_bit 8 u1), flags_limit_high = ucast (drop_bit 16 u1), base_high = ucast (drop_bit 24 u1)\<rparr>"

definition gdt_set_tss_descriptor :: "u64 \<Rightarrow> u32 \<Rightarrow> gdt_state \<Rightarrow> gdt_state" where
  "gdt_set_tss_descriptor base limit s =
     (let s = gdt_set_entry 5 (ucast base) limit 0x89 0x00 s
      in s\<lparr>gdt := (gdt s)[6 := gdt_overlay (ucast (drop_bit 32 base)) 0]\<rparr>)"

definition gdt_flush :: "gdt_state \<Rightarrow> gdt_state" where
  "gdt_flush s = s\<lparr>gdtr := Some (gdt_ptr s), code_seg := 0x08, data_segs := 0x10\<rparr>"

definition gdt_init :: "u64 \<Rightarrow> gdt_state \<Rightarrow> gdt_state" where
  "gdt_init gdt_addr s =
     (let s = gdt_set_entry 0 0 0 0 0 s;
          s = gdt_set_entry 1 0 0xFFFFF 0x9A 0xA0 s;
          s = gdt_set_entry 2 0 0xFFFFF 0x92 0xC0 s;
          s = gdt_set_entry 3 0 0xFFFFF 0xFA 0xA0 s;
          s = gdt_set_entry 4 0 0xFFFFF 0xF2 0xC0 s;
          s = s\<lparr>gdt_ptr := \<lparr>gp_limit = 7 * 8 - 1, gp_base = gdt_addr\<rparr>\<rparr>
      in gdt_flush s)"

section \<open>Task state segment (tss.c)\<close>

record tss =
  rsp0 :: u64
  rsp1 :: u64
  rsp2 :: u64
  ists :: "u64 list"
  iomap_base :: u16

definition TSS_SELECTOR :: u16 where "TSS_SELECTOR = 0x28"
definition KERNEL_STACK_SIZE :: u64 where "KERNEL_STACK_SIZE = 16384"
definition sizeof_tss :: nat where "sizeof_tss = 104"

definition tss_init :: "u64 \<Rightarrow> u64 \<Rightarrow> gdt_state \<Rightarrow> tss \<times> gdt_state" where
  "tss_init tss_addr kernel_stack s =
     (let t = \<lparr>rsp0 = 0, rsp1 = 0, rsp2 = 0, ists = replicate 7 0, iomap_base = 0\<rparr>;
          t = t\<lparr>rsp0 := kernel_stack + KERNEL_STACK_SIZE\<rparr>;
          t = t\<lparr>iomap_base := of_nat sizeof_tss\<rparr>;
          s = gdt_set_tss_descriptor tss_addr (of_nat sizeof_tss - 1) s
      in (t, s\<lparr>task_reg := TSS_SELECTOR\<rparr>))"

section \<open>How the processor reads a descriptor\<close>

definition seg_base :: "gdt_entry \<Rightarrow> u32" where
  "seg_base e = ucast (base_low e) OR push_bit 16 (ucast (base_mid e)) OR push_bit 24 (ucast (base_high e))"

definition seg_limit :: "gdt_entry \<Rightarrow> u32" where
  "seg_limit e = ucast (limit_low e) OR push_bit 16 (ucast (flags_limit_high e AND 0x0F))"

definition sys_base :: "gdt_entry \<Rightarrow> gdt_entry \<Rightarrow> u64" where
  "sys_base lo hi = ucast (seg_base lo) OR push_bit 32 (ucast (limit_low hi)) OR push_bit 48 (ucast (base_low hi))"

definition seg_dpl :: "gdt_entry \<Rightarrow> u8" where
  "seg_dpl e = drop_bit 5 (gdt_access e) AND 3"

named_theorems bit_masks \<open>low masks as \<open>mask n\<close>, so that their bits are known\<close>

lemma masks [bit_masks]:
  "(0xFFFF :: 'a::len word) = mask 16" "(0xFF :: 'a word) = mask 8" "(0x0F :: 'a word) = mask 4"
  "(0xFFFFFFFF :: 'a word) = mask 32"
  by (simp_all add: mask_eq_exp_minus_1)

lemma mask_F0: "(0xF0 :: u8) = push_bit 4 (mask 4)"
  by (simp add: mask_eq_exp_minus_1 push_bit_eq_mult)

lemma seg_base_set:
  "ucast (ucast (base AND 0xFFFF :: u32) :: u16) OR push_bit 16 (ucast (ucast (drop_bit 16 base AND 0xFF) :: u8))
     OR push_bit 24 (ucast (ucast (drop_bit 24 base AND 0xFF) :: u8)) = (base :: u32)"
proof (rule bit_word_eqI)
  fix n assume "n < LENGTH(32)"
  then consider "n < 16" | "16 \<le> n" "n < 24" | "24 \<le> n" "n < 32" by fastforce
  then show "bit (ucast (ucast (base AND 0xFFFF) :: u16) OR push_bit 16 (ucast (ucast (drop_bit 16 base AND 0xFF) :: u8))
     OR push_bit 24 (ucast (ucast (drop_bit 24 base AND 0xFF) :: u8)) :: u32) n = bit base n"
    unfolding masks by cases (auto simp: bit_simps)
qed

lemma seg_base_entry:
  assumes "i < length (gdt s)"
  shows "seg_base (gdt (gdt_set_entry i base limit acc flags s) ! i) = base"
  using assms seg_base_set [of base] by (simp add: gdt_set_entry_def seg_base_def)

lemma sys_base_set:
  "ucast (ucast (base :: u64) :: u32) OR push_bit 32 (ucast (ucast (ucast (drop_bit 32 base) :: u32) :: u16))
     OR push_bit 48 (ucast (ucast (drop_bit 16 (ucast (drop_bit 32 base) :: u32)) :: u16)) = base"
proof (rule bit_word_eqI)
  fix n assume "n < LENGTH(64)"
  then consider "n < 32" | "32 \<le> n" "n < 48" | "48 \<le> n" "n < 64" by fastforce
  then show "bit (ucast (ucast base :: u32) OR push_bit 32 (ucast (ucast (ucast (drop_bit 32 base) :: u32) :: u16))
     OR push_bit 48 (ucast (ucast (drop_bit 16 (ucast (drop_bit 32 base) :: u32)) :: u16)) :: u64) n = bit base n"
    by cases (auto simp: bit_simps)
qed

text \<open>After \<open>gdt_init\<close> and \<open>tss_init\<close> the processor finds, through the selector loaded
  into the task register, a present 64-bit TSS descriptor whose 64-bit base is the address of the TSS
  (the split over two slots loses no bit) and whose limit covers its 104 bytes; \<open>rsp0\<close> is the top of
  the kernel stack and there is no I/O bitmap. The code and data segments are flat, with privilege
  level 0 for the kernel's and 3 for the user's.\<close>

theorem segment_tables_decode:
  assumes "length (gdt s) = 7"
  shows "let (t, s') = tss_init tss_addr stk (gdt_init gdt_addr s);
             sel = unat (task_reg s') div 8
         in sys_base (gdt s' ! sel) (gdt s' ! (sel + 1)) = tss_addr
          \<and> seg_limit (gdt s' ! sel) = 103 \<and> gdt_access (gdt s' ! sel) = 0x89
          \<and> rsp0 t = stk + 16384 \<and> unat (iomap_base t) = sizeof_tss
          \<and> map seg_dpl (take 5 (gdt s')) = [0, 0, 0, 3, 3]
          \<and> (\<forall>e \<in> set (take 5 (gdt s')). seg_base e = 0)
          \<and> code_seg s' = 8 * 1 \<and> data_segs s' = 8 * 2
          \<and> gdtr s' = Some \<lparr>gp_limit = 55, gp_base = gdt_addr\<rparr> \<and> length (gdt s') = 7"
proof -
  obtain a b c d e f g where s: "gdt s = [a, b, c, d, e, f, g]"
    using assms by (auto simp: length_Suc_conv numeral_eq_Suc)
  have lim: "seg_limit \<lparr>limit_low = 103, base_low = x, base_mid = y, gdt_access = 0x89, flags_limit_high = 0, base_high = z\<rparr> = 103"
    for x y z by (simp add: seg_limit_def)
  show ?thesis
    using seg_base_set [of "ucast tss_addr"] sys_base_set [of tss_addr]
    by (simp add: tss_init_def gdt_init_def gdt_set_tss_descriptor_def gdt_set_entry_def gdt_flush_def gdt_overlay_def
        s sizeof_tss_def TSS_SELECTOR_def KERNEL_STACK_SIZE_def lim seg_dpl_def seg_base_def sys_base_def)
qed

definition boot_gdt :: gdt_state where
  "boot_gdt = \<lparr>gdt = replicate 7 \<lparr>limit_low = 0, base_low = 0, base_mid = 0, gdt_access = 0, flags_limit_high = 0, base_high = 0\<rparr>,
     gdt_ptr = \<lparr>gp_limit = 0, gp_base = 0\<rparr>, gdtr = None, code_seg = 0, data_segs = 0, task_reg = 0\<rparr>"

theorem segment_tables_decode_witness:
  "let (t, s') = tss_init 0xFFFF800012345678 0x200000 (gdt_init 0x104000 boot_gdt)
   in sys_base (gdt s' ! 5) (gdt s' ! 6) = 0xFFFF800012345678 \<and> rsp0 t = 0x204000"
proof -
  have "length (gdt boot_gdt) = 7" by (simp add: boot_gdt_def)
  moreover have "task_reg (snd (tss_init a b s)) = 0x28" for a b s
    by (simp add: tss_init_def TSS_SELECTOR_def Let_def)
  ultimately show ?thesis
    using segment_tables_decode [of boot_gdt "0xFFFF800012345678" "0x200000" "0x104000"]
    by (simp add: Let_def split_def)
qed

end
