(* ===== verification/Machine_x86.thy ===== *)
theory Machine_x86
  imports Kernel Syscall Multiboot Timer Ata Descriptors Keyboard Mouse
begin

text \<open>
  The x86\_64 implementation of the interface, \<^verbatim>\<open>arch/x86_64/arch.c\<close>: the states of the drivers side by side in
  one machine state, and the operations that pass each driver its part. Addresses chosen by the linker or the
  compiler, the flags register and the behaviour of the embedded user program are the fields of \<open>x86_env\<close>.
\<close>

section \<open>State\<close>

datatype x86_handler = H_pit_tick | H_keyboard_irq | H_mouse_irq

record x86 =
  mx_proc :: "cpu_x86 proc"
  mx_gdt :: gdt_state
  mx_tss :: tss
  mx_vga :: vga
  mx_boot :: mb2
  mx_irqs :: "x86_handler irqs"
  mx_kbd :: keyboard
  mx_mouse :: ps2_mouse
  mx_disk :: bool
  mx_fb :: "fb_info option"
  mx_ticks :: u64
  mx_thread_at :: "u64 \<rightharpoonup> thread"
  mx_current :: u64
  mx_next_id :: u64
  mx_enabled :: bool

record x86_env =
  xe_gdt :: u64
  xe_tss :: u64
  xe_kernel_stack :: u64
  xe_kernel_start :: physaddr
  xe_kernel_end :: physaddr
  xe_isr_stubs :: "nat \<Rightarrow> u64"
  xe_irq_stubs :: "nat \<Rightarrow> u64"
  xe_isr128 :: u64
  xe_idt :: u64
  xe_thread_trampoline :: u64
  xe_trampoline :: u64
  xe_hang :: u64
  xe_flags :: u64
  xe_params :: u64
  xe_hello_start :: u64
  xe_hello_end :: u64
  xe_user :: "user_ctx \<Rightarrow> cpu_x86 proc \<Rightarrow> (i32 \<times> cpu_x86 proc) option"
  xe_buf :: "u8 list"
  xe_tmp :: "u8 list"

text \<open>The scheduler's view: its variables with the shared heap and processor.\<close>

definition mx_sched :: "x86 \<Rightarrow> cpu_x86 sched" where
  "mx_sched s = \<lparr>sched_heap = vm_heap (mx_proc s), sched_cpu = proc_cpu (mx_proc s), thread_at = mx_thread_at s,
     current = mx_current s, next_id = mx_next_id s, sched_enabled = mx_enabled s\<rparr>"

definition mx_set_sched :: "cpu_x86 sched \<Rightarrow> x86 \<Rightarrow> x86" where
  "mx_set_sched c s = s\<lparr>mx_proc := (mx_proc s)\<lparr>vm_heap := sched_heap c, proc_cpu := sched_cpu c\<rparr>, mx_thread_at := thread_at c,
     mx_current := current c, mx_next_id := next_id c, mx_enabled := sched_enabled c\<rparr>"

definition mx_set_heap :: "heap \<Rightarrow> x86 \<Rightarrow> x86" where
  "mx_set_heap h s = s\<lparr>mx_proc := (mx_proc s)\<lparr>vm_heap := h\<rparr>\<rparr>"

definition mx_set_mem :: "mem \<Rightarrow> x86 \<Rightarrow> x86" where
  "mx_set_mem m s = s\<lparr>mx_proc := (mx_proc s)\<lparr>vm_mem := m\<rparr>\<rparr>"

section \<open>Operations\<close>

definition arch_name_x86 :: "u8 list" where
  "arch_name_x86 = c_string ''x86_64''"

definition arch_early_init_x86 :: "x86_env \<Rightarrow> x86 \<Rightarrow> x86" where
  "arch_early_init_x86 e s =
     (let s = s\<lparr>mx_gdt := gdt_init (xe_gdt e) (mx_gdt s)\<rparr>;
          (t, g) = tss_init (xe_tss e) (xe_kernel_stack e) (mx_gdt s)
      in s\<lparr>mx_tss := t, mx_gdt := g\<rparr>)"

text \<open>The text that reports how the user program ended. \<open>buf\<close> has 32 bytes and \<open>tmp\<close> 10, both uninitialised; a write
  outside of them is \<open>None\<close>.\<close>

definition put_at :: "nat \<Rightarrow> u8 \<Rightarrow> u8 list \<Rightarrow> u8 list option" where
  "put_at i c buf = (if i < length buf then Some (buf[i := c]) else None)"

fun copy_label :: "u8 list \<Rightarrow> nat \<Rightarrow> u8 list \<Rightarrow> (nat \<times> u8 list) option" where
  "copy_label [] n buf = Some (n, buf)"
| "copy_label (c # cs) n buf = do { buf \<leftarrow> put_at n c buf; copy_label cs (n + 1) buf }"

fun tmp_digits :: "nat \<Rightarrow> nat \<Rightarrow> u8 list \<Rightarrow> (nat \<times> u8 list) option" where
  "tmp_digits v t tmp =
     (if v > 0 then do { tmp \<leftarrow> put_at t (of_nat (48 + v mod 10)) tmp; tmp_digits (v div 10) (t + 1) tmp } else Some (t, tmp))"

declare tmp_digits.simps [simp del]

fun copy_back :: "nat \<Rightarrow> u8 list \<Rightarrow> nat \<Rightarrow> u8 list \<Rightarrow> (nat \<times> u8 list) option" where
  "copy_back 0 tmp n buf = Some (n, buf)"
| "copy_back (Suc t) tmp n buf = do { buf \<leftarrow> put_at n (tmp ! t) buf; copy_back t tmp (n + 1) buf }"

definition exit_message :: "u8 list \<Rightarrow> u8 list \<Rightarrow> i32 \<Rightarrow> u8 list option" where
  "exit_message buf tmp exit_code =
     do {
       let label = (if sint exit_code < 0 then c_string ''USERLAND: LOAD FAILED'' else c_string ''USERLAND: EXIT '');
       (n, buf) \<leftarrow> copy_label label 0 buf;
       (n, buf) \<leftarrow> (if sint exit_code \<ge> 0 then
            do {
              let v = unat exit_code;
              (t, tmp) \<leftarrow> (if v = 0 then do { tmp \<leftarrow> put_at 0 48 tmp; Some (1, tmp) } else Some (0, tmp));
              (t, tmp) \<leftarrow> tmp_digits v t tmp;
              copy_back t tmp n buf
            }
          else Some (n, buf));
       put_at n 0 buf
     }"

definition arch_late_init_x86 :: "x86_env \<Rightarrow> x86 \<Rightarrow> ((u8 list \<times> x86) + x86) option" where
  "arch_late_init_x86 e s =
     do {
       let s = s\<lparr>mx_irqs := keyboard_init H_keyboard_irq (mx_irqs s)\<rparr>;
       let (present, b) = ata_init (irq_bus (mx_irqs s));
       let s = s\<lparr>mx_disk := present, mx_irqs := (mx_irqs s)\<lparr>irq_bus := b\<rparr>\<rparr>;
       (fb, p) \<leftarrow> fb_init (x86_64_get_framebuffer_info (mx_boot s)) (mx_proc s);
       let s = s\<lparr>mx_fb := fb, mx_proc := p\<rparr>;
       if fb_available (mx_fb s) then
         do {
           let (irqs, ms) = mouse_init (fb_width (mx_fb s)) (fb_height (mx_fb s)) H_mouse_irq (mx_irqs s, mx_mouse s);
           let s = s\<lparr>mx_irqs := irqs, mx_mouse := ms\<rparr>;
           (ok, p) \<leftarrow> vmm_selftest_x86 (mx_proc s);
           let m = fb_draw_string (mx_fb s) 10 10 (if ok then c_string ''VMM: OK'' else c_string ''VMM: FAIL'')
             (if ok then 0x0000FF00 else 0x00FF0000) 0x00102030 (vm_mem p);
           let s = s\<lparr>mx_proc := p\<lparr>vm_mem := m\<rparr>\<rparr>;
           if \<not> ok then Some (Inl (c_string ''VMM self-test failed'', s))
           else do {
             let hello_size = xe_hello_end e - xe_hello_start e;
             (exit_code, p) \<leftarrow> process_run (xe_trampoline e) (xe_hang e) (xe_flags e) (xe_params e) (xe_user e)
               (xe_hello_start e) hello_size (mx_proc s);
             buf \<leftarrow> exit_message (xe_buf e) (xe_tmp e) exit_code;
             let m = fb_draw_string (mx_fb s) 10 20 buf (if exit_code = 0 then 0x0000FF00 else 0x00FF0000) 0x00102030 (vm_mem p);
             Some (Inr (s\<lparr>mx_proc := p\<lparr>vm_mem := m\<rparr>\<rparr>))
           }
         }
       else Some (Inr s)
     }"

definition arch_mm_init_x86 :: "x86_env \<Rightarrow> u64 \<Rightarrow> u64 \<Rightarrow> x86 \<Rightarrow> x86 option" where
  "arch_mm_init_x86 e boot_magic boot_info s =
     do {
       (p, b) \<leftarrow> x86_64_mm_init (xe_kernel_start e) (xe_kernel_end e) (vm_mem (mx_proc s)) boot_magic boot_info (mx_boot s);
       let s = s\<lparr>mx_boot := b, mx_proc := (mx_proc s)\<lparr>vm_heap := (vm_heap (mx_proc s))\<lparr>heap_pmm := p\<rparr>\<rparr>\<rparr>;
       Some (s\<lparr>mx_proc := vmm_init (mx_proc s)\<rparr>)
     }"

definition arch_get_total_ram_x86 :: "x86 \<Rightarrow> u64" where
  "arch_get_total_ram_x86 s = x86_64_total_ram (mx_boot s)"

definition arch_interrupts_init_x86 :: "x86_env \<Rightarrow> x86 \<Rightarrow> x86" where
  "arch_interrupts_init_x86 e s = s\<lparr>mx_irqs := idt_init (xe_isr_stubs e) (xe_irq_stubs e) (xe_isr128 e) (xe_idt e) (mx_irqs s)\<rparr>"

definition set_iflag :: "bool \<Rightarrow> x86 \<Rightarrow> x86" where
  "set_iflag on s = s\<lparr>mx_proc := (mx_proc s)\<lparr>proc_cpu := (proc_cpu (mx_proc s))\<lparr>iflag := on\<rparr>\<rparr>\<rparr>"

definition arch_interrupts_enable_x86 :: "x86 \<Rightarrow> x86" where
  "arch_interrupts_enable_x86 s = set_iflag True s"

definition arch_interrupts_disable_x86 :: "x86 \<Rightarrow> x86" where
  "arch_interrupts_disable_x86 s = set_iflag False s"

text \<open>The state in which the processor stays.\<close>

definition arch_cpu_halt_x86 :: "x86 \<Rightarrow> x86" where
  "arch_cpu_halt_x86 s = set_iflag False s"

definition arch_cpu_relax_x86 :: "x86 \<Rightarrow> x86" where
  "arch_cpu_relax_x86 s = s"

definition arch_keyboard_getchar_x86 :: "x86 \<Rightarrow> u8 \<times> x86" where
  "arch_keyboard_getchar_x86 s =
     (let (c, r) = keyboard_getchar (kb_ring (mx_kbd s)) in (c, s\<lparr>mx_kbd := (mx_kbd s)\<lparr>kb_ring := r\<rparr>\<rparr>))"

definition arch_mouse_get_state_x86 :: "x86 \<Rightarrow> (i32 \<times> i32 \<times> u8) option \<times> x86" where
  "arch_mouse_get_state_x86 s =
     (let (r, ms) = mouse_get_state (ps2_state (mx_mouse s)) in (r, s\<lparr>mx_mouse := (mx_mouse s)\<lparr>ps2_state := ms\<rparr>\<rparr>))"

definition arch_gfx_available_x86 :: "x86 \<Rightarrow> bool" where "arch_gfx_available_x86 s = fb_available (mx_fb s)"
definition arch_gfx_width_x86 :: "x86 \<Rightarrow> u32" where "arch_gfx_width_x86 s = fb_width (mx_fb s)"
definition arch_gfx_height_x86 :: "x86 \<Rightarrow> u32" where "arch_gfx_height_x86 s = fb_height (mx_fb s)"

definition arch_gfx_put_pixel_x86 :: "x86 \<Rightarrow> u32 \<Rightarrow> u32 \<Rightarrow> u32 \<Rightarrow> mem \<Rightarrow> mem" where
  "arch_gfx_put_pixel_x86 s x y rgb = fb_put_pixel (mx_fb s) x y rgb"

definition arch_gfx_fill_rect_x86 :: "x86 \<Rightarrow> fill_op" where
  "arch_gfx_fill_rect_x86 s x y w h rgb = fb_fill_rect (mx_fb s) x y w h rgb"

definition arch_gfx_draw_line_x86 :: "x86 \<Rightarrow> int \<Rightarrow> int \<Rightarrow> int \<Rightarrow> int \<Rightarrow> u32 \<Rightarrow> mem \<Rightarrow> mem option" where
  "arch_gfx_draw_line_x86 s = fb_draw_line (mx_fb s)"

definition arch_gfx_draw_string_x86 :: "x86 \<Rightarrow> text_op" where
  "arch_gfx_draw_string_x86 s x y str fg bg = fb_draw_string (mx_fb s) x y str fg bg"

definition arch_timer_init_x86 :: "u32 \<Rightarrow> x86 \<Rightarrow> x86 option" where
  "arch_timer_init_x86 hz s = do { irqs \<leftarrow> pit_init hz H_pit_tick (mx_irqs s); Some (s\<lparr>mx_irqs := irqs\<rparr>) }"

definition arch_timer_ticks_x86 :: "x86 \<Rightarrow> u64" where
  "arch_timer_ticks_x86 s = pit_get_ticks \<lparr>pit_ticks = mx_ticks s, pit_sched = mx_sched s\<rparr>"

definition arch_disk_available_x86 :: "x86 \<Rightarrow> bool" where
  "arch_disk_available_x86 s = ata_available (mx_disk s)"

definition arch_disk_read_sector_x86 :: "x86 \<Rightarrow> disk" where
  "arch_disk_read_sector_x86 s lba =
     (case ata_read_sector (mx_disk s) lba (replicate 512 0) (irq_bus (mx_irqs s)) of
        Some ((True, buf), b) \<Rightarrow> Some buf
      | _ \<Rightarrow> None)"

text \<open>A drive that answers with the sectors of an image, within the 28 bits of a sector number, is a disk that holds the image.\<close>

lemma ata_disk_image:
  assumes "ata_drive D (io_dev (irq_bus (mx_irqs s)))" "mx_disk s" "length img \<le> 512 * 2 ^ 28"
    and "\<forall>l. (unat l + 1) * 512 \<le> length img \<longrightarrow> sector_bytes (D l) = take 512 (drop (unat l * 512) img)"
  shows "image_disk img \<subseteq>\<^sub>m arch_disk_read_sector_x86 s"
  unfolding map_le_def
proof
  fix l assume "l \<in> dom (image_disk img)"
  then have l: "(unat l + 1) * 512 \<le> length img" by (simp add: image_disk_def dom_def split: if_splits)
  then have "unat l < 2 ^ 28" using assms(3) by simp
  then obtain b where "ata_read_sector True l (replicate 512 0) (irq_bus (mx_irqs s)) = Some ((True, sector_bytes (D l)), b)"
    using ata_read_ok [OF assms(1), of "replicate 512 0" l] by auto
  then show "image_disk img l = arch_disk_read_sector_x86 s l"
    using l assms(2,4) by (simp add: image_disk_def arch_disk_read_sector_x86_def)
qed

section \<open>The interface, implemented\<close>

definition arch_x86_64 :: "x86_env \<Rightarrow> (cpu_x86, x86) arch" where
  "arch_x86_64 e = \<lparr>
     op_name = arch_name_x86, op_early_init = arch_early_init_x86 e, op_late_init = arch_late_init_x86 e,
     op_console_init = (\<lambda>s. s\<lparr>mx_vga := arch_console_init (mx_vga s)\<rparr>),
     op_console_putc = (\<lambda>c s. Some (s\<lparr>mx_vga := arch_console_putc c (mx_vga s)\<rparr>)),
     op_console_clear = (\<lambda>s. s\<lparr>mx_vga := arch_console_clear (mx_vga s)\<rparr>),
     op_keyboard_getchar = Some \<circ> arch_keyboard_getchar_x86, op_mouse_get_state = Some \<circ> arch_mouse_get_state_x86,
     op_gfx_available = arch_gfx_available_x86, op_gfx_width = arch_gfx_width_x86, op_gfx_height = arch_gfx_height_x86,
     op_gfx_put_pixel = arch_gfx_put_pixel_x86, op_gfx_fill_rect = arch_gfx_fill_rect_x86,
     op_gfx_draw_line = arch_gfx_draw_line_x86, op_gfx_draw_string = arch_gfx_draw_string_x86,
     op_interrupts_init = arch_interrupts_init_x86 e, op_interrupts_enable = arch_interrupts_enable_x86,
     op_interrupts_disable = arch_interrupts_disable_x86,
     op_mm_init = arch_mm_init_x86 e, op_get_total_ram = arch_get_total_ram_x86,
     op_cpu_halt = arch_cpu_halt_x86, op_cpu_relax = arch_cpu_relax_x86,
     op_timer_init = arch_timer_init_x86, op_timer_ticks = arch_timer_ticks_x86,
     op_threads = arch_x86 (xe_thread_trampoline e),
     op_disk_available = arch_disk_available_x86, op_disk = arch_disk_read_sector_x86,
     sh_mem = (\<lambda>s. vm_mem (mx_proc s)), sh_set_mem = mx_set_mem, sh_heap = (\<lambda>s. vm_heap (mx_proc s)), sh_set_heap = mx_set_heap,
     sh_sched = mx_sched, sh_set_sched = mx_set_sched\<rparr>"

lemmas mx_defs = mx_sched_def mx_set_sched_def mx_set_heap_def mx_set_mem_def

interpretation x86_machine: machine "arch_x86_64 e" "\<lambda>_. True" mx_vga arch_console_putc "\<lambda>s v. s\<lparr>mx_vga := v\<rparr>" for e
proof (unfold_locales, goal_cases)
  case (2 s s')
  from fun_cong [OF 2] show ?case by (cases s; cases s') (simp add: arch_x86_64_def)
next
  case (6 s s' h)
  from fun_cong [OF 6] show ?case by (cases s; cases s') (simp add: arch_x86_64_def mx_set_heap_def)
qed (simp_all add: arch_x86_64_def mx_defs)

section \<open>The report on the user program\<close>

lemma copy_label_ok:
  "n + length str \<le> length buf \<Longrightarrow> copy_label str n buf = Some (n + length str, take n buf @ str @ drop (n + length str) buf)"
proof (induction str arbitrary: n buf)
  case (Cons c str)
  have "take (Suc n) (buf[n := c]) = take n buf @ [c]" using Cons.prems by (simp add: take_Suc_conv_app_nth)
  then show ?case using Cons.IH [of "n + 1" "buf[n := c]"] Cons.prems by (simp add: put_at_def)
qed simp

lemma tmp_digits_ok:
  "t + length (dec_digits v) \<le> length tmp \<Longrightarrow>
     tmp_digits v t tmp = Some (t + length (dec_digits v), take t tmp @ rev (dec_digits v) @ drop (t + length (dec_digits v)) tmp)"
proof (induction v t tmp rule: tmp_digits.induct)
  case (1 v t tmp)
  show ?case
  proof (cases "v = 0")
    case True then show ?thesis by (simp add: tmp_digits.simps [of 0])
  next
    case False
    let ?d = "dec_digits (v div 10)" and ?c = "of_nat (48 + v mod 10) :: u8"
    have d: "dec_digits v = ?d @ [?c]" using False by (simp add: dec_digits.simps [of v])
    have p: "put_at t ?c tmp = Some (tmp[t := ?c])" using 1(2) d by (simp add: put_at_def)
    have "take (Suc t) (tmp[t := ?c]) = take t tmp @ [?c]" using 1(2) d by (simp add: take_Suc_conv_app_nth)
    then show ?thesis using 1(1) [OF _ p] 1(2) False p by (simp add: tmp_digits.simps [of v] d)
  qed
qed

lemma copy_back_ok:
  "n + t \<le> length buf \<Longrightarrow> t \<le> length tmp \<Longrightarrow> copy_back t tmp n buf = Some (n + t, take n buf @ rev (take t tmp) @ drop (n + t) buf)"
proof (induction t arbitrary: n buf)
  case (Suc t)
  have "take (Suc n) (buf[n := tmp ! t]) = take n buf @ [tmp ! t]" using Suc.prems by (simp add: take_Suc_conv_app_nth)
  then show ?case using Suc.IH [of "n + 1" "buf[n := tmp ! t]"] Suc.prems by (simp add: put_at_def take_Suc_conv_app_nth)
qed simp

lemma put_nul:
  assumes "length str < length buf" "0 \<notin> set str"
  shows "\<exists>b. put_at (length str) 0 (str @ drop (length str) buf) = Some b \<and> length b = length buf \<and> takeWhile (\<lambda>c. c \<noteq> 0) b = str"
proof -
  obtain x xs where d: "drop (length str) buf = x # xs" using assms(1) by (cases "drop (length str) buf") auto
  have "takeWhile (\<lambda>c. c \<noteq> 0) (str @ 0 # xs) = str" using assms(2) by (induction str) auto
  moreover have "length (str @ 0 # xs) = length buf" using arg_cong [OF d, of length] assms(1) by simp
  ultimately show ?thesis by (simp add: put_at_def d list_update_append)
qed

lemma shown_tmp:
  assumes "length tmp = 10" "n < 10 ^ 10"
  shows "\<exists>t tmp' tmp''. (if n = 0 then do { tmp \<leftarrow> put_at 0 48 tmp; Some (1, tmp) } else Some (0, tmp)) = Some (t, tmp')
    \<and> tmp_digits n t tmp' = Some (length (shown n), tmp'') \<and> length tmp'' = 10 \<and> rev (take (length (shown n)) tmp'') = shown n"
proof (cases "n = 0")
  case True
  obtain x xs where "tmp = x # xs" using assms(1) by (cases tmp) auto
  then show ?thesis using True assms(1) by (simp add: put_at_def tmp_digits.simps [of 0] shown_def)
next
  case False
  have "length (dec_digits n) \<le> 10" using dec_digits_length [OF assms(2)] .
  then show ?thesis using False assms(1) tmp_digits_ok [of 0 n tmp] by (simp add: shown_def)
qed

text \<open>Property C19. The report on the user program never leaves its buffers and says what happened: for every exit
  code the 32-byte buffer and the 10-byte digit buffer suffice, and the string in the buffer is the failure
  message for a negative code and otherwise the label followed by the code in decimal.\<close>

theorem exit_message_correct:
  assumes "length buf = 32" "length tmp = 10"
  shows "\<exists>b. exit_message buf tmp code = Some b \<and> length b = 32
    \<and> takeWhile (\<lambda>c. c \<noteq> 0) b = (if sint code < 0 then c_string ''USERLAND: LOAD FAILED''
         else c_string ''USERLAND: EXIT '' @ shown (unat code))"
proof (cases "sint code < 0")
  case True
  let ?l = "c_string ''USERLAND: LOAD FAILED''"
  have l: "length ?l = 21" "0 \<notin> set ?l" by (simp_all add: c_string_def)
  then show ?thesis using True assms copy_label_ok [of 0 ?l buf] put_nul [of ?l buf] by (simp add: exit_message_def)
next
  case False
  let ?l = "c_string ''USERLAND: EXIT ''" and ?d = "shown (unat code)"
  have l: "length ?l = 15" "0 \<notin> set ?l" by (simp_all add: c_string_def)
  have v: "unat code < 10 ^ 10" using u32_lt [of code] by simp
  have d: "length ?d \<le> 10" "0 \<notin> set ?d" using dec_digits_length [OF v] dec_digits_nonzero [of "unat code"] by (simp_all add: shown_def)
  obtain t tmp' tmp'' where t: "(if unat code = 0 then do { tmp \<leftarrow> put_at 0 48 tmp; Some (1, tmp) } else Some (0, tmp)) = Some (t, tmp')"
    "tmp_digits (unat code) t tmp' = Some (length ?d, tmp'')" "length tmp'' = 10" "rev (take (length ?d) tmp'') = ?d"
    using shown_tmp [OF assms(2) v] by blast
  have "copy_back (length ?d) tmp'' 15 (?l @ drop 15 buf) = Some (15 + length ?d, ?l @ ?d @ drop (15 + length ?d) buf)"
    using copy_back_ok [of 15 "length ?d" "?l @ drop 15 buf" tmp''] d(1) t(3,4) l(1) assms(1) by (simp add: add.commute)
  then have "exit_message buf tmp code = put_at (length (?l @ ?d)) 0 ((?l @ ?d) @ drop (length (?l @ ?d)) buf)"
    using False copy_label_ok [of 0 ?l buf] l(1) assms(1) t(1,2) unfolding exit_message_def Let_def by simp
  then show ?thesis using put_nul [of "?l @ ?d" buf] l d assms(1) False by simp
qed

theorem exit_message_correct_witness:
  "\<exists>b. exit_message (replicate 32 7) (replicate 10 7) 42 = Some b \<and> takeWhile (\<lambda>c. c \<noteq> 0) b = c_string ''USERLAND: EXIT 42''"
proof -
  have "shown (unat (42 :: i32)) = c_string ''42''" by (simp add: shown_def dec_digits.simps c_string_def)
  moreover have "c_string ''USERLAND: EXIT '' @ c_string ''42'' = c_string ''USERLAND: EXIT 42''" by (simp add: c_string_def)
  ultimately show ?thesis using exit_message_correct [of "replicate 32 7" "replicate 10 7" 42] by auto
qed

section \<open>Booting without graphics\<close>

lemma gates_keep:
  "irq_bus (fold (\<lambda>i. idt_set_gate (f i) (g i) a) xs s) = irq_bus s" "irq_handlers (fold (\<lambda>i. idt_set_gate (f i) (g i) a) xs s) = irq_handlers s"
  by (induction xs arbitrary: s) (simp_all add: idt_set_gate_def)

lemma irq_keep:
  "io_dev (irq_bus (irq_install_handler n h s)) = io_dev (irq_bus s)"
  "irq_handlers (irq_install_handler n h s) = (irq_handlers s)[n := Some h]"
  "io_dev (irq_bus (idt_init isrs irqs sys tab s)) = io_dev (irq_bus s)" "irq_handlers (idt_init isrs irqs sys tab s) = irq_handlers s"
  by (simp_all add: irq_install_handler_def irq_set_mask_def idt_init_def pic_remap_def out_wait_def io_wait_def idt_set_gate_def gates_keep case_prod_beta Let_def)

text \<open>Initialising memory does not look at the console.\<close>

lemma mm_init_vga: "arch_mm_init_x86 e magic info (s\<lparr>mx_vga := v\<rparr>) = map_option (\<lambda>s. s\<lparr>mx_vga := v\<rparr>) (arch_mm_init_x86 e magic info s)"
  by (simp add: arch_mm_init_x86_def x86_64_mm_init_def split: bind_splits)

lemma rest_x86: "(\<lambda>v. s\<lparr>mx_vga := v\<rparr>) = (\<lambda>v. s'\<lparr>mx_vga := v\<rparr>) \<Longrightarrow> s = s'\<lparr>mx_vga := mx_vga s\<rparr>"
  by (drule fun_cong [of _ _ "mx_vga s"]) simp

text \<open>A machine whose boot loader describes no framebuffer and which has no disk.\<close>

definition text_machine :: "x86_env \<Rightarrow> u64 \<Rightarrow> mb2_item list \<Rightarrow> x86 \<Rightarrow> bool" where
  "text_machine e info ts s \<longleftrightarrow> info \<noteq> 0 \<and> items_at (vm_mem (mx_proc s)) (info + ucast (load32 (vm_mem (mx_proc s)) info)) (info + 8) ts
     \<and> length (map_entries ts) \<le> 64 \<and> \<not> fb_present (fb_of ts (framebuffer_info (mx_boot s)))
     \<and> (\<exists>n. run_at (pmm_init (concat (map clip (map_entries ts))) (xe_kernel_start e) (xe_kernel_end e)) n 16)
     \<and> arena_list (vm_heap (mx_proc s)) = 0 \<and> total_ram_bytes (mx_boot s) = 0
     \<and> (\<forall>log. io_dev (irq_bus (mx_irqs s)) log ATA_STATUS = 0xFF) \<and> length (irq_handlers (mx_irqs s)) = 16"

lemma mm_init_text:
  assumes "text_machine e info ts s"
  defines "p \<equiv> pmm_init (concat (map clip (map_entries ts))) (xe_kernel_start e) (xe_kernel_end e)"
  obtains b where "arch_mm_init_x86 e MULTIBOOT2_BOOTLOADER_MAGIC info s = Some (s\<lparr>mx_boot := b,
      mx_proc := vmm_init ((mx_proc s)\<lparr>vm_heap := (vm_heap (mx_proc s))\<lparr>heap_pmm := p\<rparr>\<rparr>)\<rparr>)"
    "pmm_ok p" "\<exists>n. run_at p n 16" "total_ram_bytes b = available_ram (map_entries ts)" "\<not> fb_present (framebuffer_info b)"
    "free_set p \<subseteq> {256..<262144}"
proof -
  obtain b where b: "x86_64_mm_init (xe_kernel_start e) (xe_kernel_end e) (vm_mem (mx_proc s)) MULTIBOOT2_BOOTLOADER_MAGIC info (mx_boot s) = Some (p, b)"
    "total_ram_bytes b = available_ram (map_entries ts)" "framebuffer_info b = fb_of ts (framebuffer_info (mx_boot s))"
    using mm_init_items [of info "vm_mem (mx_proc s)" ts "xe_kernel_start e" "xe_kernel_end e" "mx_boot s"] assms
    by (auto simp: p_def text_machine_def x86_64_total_ram_def x86_64_get_framebuffer_info_def)
  show thesis
  proof (rule that [of b])
    show "pmm_ok p" "free_set p \<subseteq> {256..<262144}" using mm_init_pmm_ok [OF b(1)] .
  qed (use assms b in \<open>simp_all add: arch_mm_init_x86_def text_machine_def p_def\<close>)
qed

lemma late_init_text:
  assumes "\<not> fb_present (framebuffer_info (mx_boot s))" "\<forall>log. io_dev (irq_bus (mx_irqs s)) log ATA_STATUS = 0xFF"
  shows "\<exists>b. arch_late_init_x86 e s = Some (Inr (s\<lparr>mx_irqs := (keyboard_init H_keyboard_irq (mx_irqs s))\<lparr>irq_bus := b\<rparr>, mx_disk := False,
     mx_fb := Some (framebuffer_info (mx_boot s))\<rparr>))"
proof -
  let ?i = "keyboard_init H_keyboard_irq (mx_irqs s)"
  have "io_dev (irq_bus ?i) = io_dev (irq_bus (mx_irqs s))" by (simp add: keyboard_init_def irq_keep)
  then have "fst (ata_init (irq_bus ?i)) = False"
    using assms(2) by (simp add: ata_init_def inb_status case_prod_beta Let_def ata_delay_def)
  then show ?thesis using assms(1)
    by (intro exI [of _ "snd (ata_init (irq_bus ?i))"])
      (simp add: arch_late_init_x86_def case_prod_beta Let_def fb_init_def fb_available_def x86_64_get_framebuffer_info_def)
qed

text \<open>Memory after the first three steps of \<open>kernel_main\<close>.\<close>

lemma memory_text:
  assumes t: "text_machine e info ts s" and buf: "length buf = 21"
  obtains a h b p w where
    "kernel_memory (arch_x86_64 e) buf MULTIBOOT2_BOOTLOADER_MAGIC info s = Some (s\<lparr>mx_vga := w, mx_boot := b,
       mx_proc := p\<lparr>vm_heap := h\<rparr>\<rparr>)" "proc_cpu p = proc_cpu (mx_proc s)"
    "w = fold arch_console_putc ([10] @ c_string ''MegKer'' @ [10] @ c_string ''RAM: '' @ shown (unat (available_ram (map_entries ts)) div (1024 * 1024))
       @ c_string '' MB'' @ [10] @ c_string ''Heap: OK'' @ [10]) (mx_vga s)"
    "fresh_heap a h" "free_set (heap_pmm h) \<subseteq> {256..<262144}" "\<not> fb_present (framebuffer_info b)"
    "bitmap_apart (pmm_init (concat (map clip (map_entries ts))) (xe_kernel_start e) (xe_kernel_end e)) \<longrightarrow> bitmap_clear h"
proof -
  define p where "p = pmm_init (concat (map clip (map_entries ts))) (xe_kernel_start e) (xe_kernel_end e)"
  obtain b where m: "arch_mm_init_x86 e MULTIBOOT2_BOOTLOADER_MAGIC info s = Some (s\<lparr>mx_boot := b,
      mx_proc := vmm_init ((mx_proc s)\<lparr>vm_heap := (vm_heap (mx_proc s))\<lparr>heap_pmm := p\<rparr>\<rparr>)\<rparr>)"
    and p: "pmm_ok p" "\<exists>n. run_at p n 16" "total_ram_bytes b = available_ram (map_entries ts)" "\<not> fb_present (framebuffer_info b)"
      "free_set p \<subseteq> {256..<262144}"
    using mm_init_text [OF t] unfolding p_def by blast
  obtain n where n: "run_at p n 16" using p(2) by blast
  define q where "q = vmm_init ((mx_proc s)\<lparr>vm_heap := (vm_heap (mx_proc s))\<lparr>heap_pmm := p\<rparr>\<rparr>)"
  define s1 where "s1 = s\<lparr>mx_boot := b, mx_proc := q\<rparr>"
  have q: "vm_heap q = (vm_heap (mx_proc s))\<lparr>heap_pmm := p\<rparr>" "proc_cpu q = proc_cpu (mx_proc s)" by (simp_all add: q_def vmm_init_def)
  have al: "arena_list (vm_heap (mx_proc s)) = 0" using t by (simp add: text_machine_def)
  let ?A = "arch_x86_64 e" and ?r = "\<lambda>s v. s\<lparr>mx_vga := v\<rparr>"
  have mm: "\<exists>t. op_mm_init ?A MULTIBOOT2_BOOTLOADER_MAGIC info s0 = Some t \<and> True \<and> mx_vga t = mx_vga s0 \<and> heap_pmm (sh_heap ?A t) = p
      \<and> arena_list (sh_heap ?A t) = 0 \<and> ?r t = ?r s1 \<and> op_get_total_ram ?A t = available_ram (map_entries ts)"
    if "True" "?r s0 = ?r s" for s0
  proof -
    have "arch_mm_init_x86 e MULTIBOOT2_BOOTLOADER_MAGIC info s0 = Some (s1\<lparr>mx_vga := mx_vga s0\<rparr>)"
      using mm_init_vga [of e MULTIBOOT2_BOOTLOADER_MAGIC info "mx_vga s0" s] m rest_x86 [OF that(2)] by (simp add: s1_def q_def)
    then show ?thesis using p n al q by (simp add: arch_x86_64_def s1_def arch_get_total_ram_x86_def x86_64_total_ram_def)
  qed
  have ram: "op_get_total_ram ?A s0 = op_get_total_ram ?A s2" if "?r s0 = ?r s2" for s0 s2
    using rest_x86 [OF that] by (cases s0; cases s2) (simp add: arch_x86_64_def arch_get_total_ram_x86_def)
  obtain s' a s2 h where k: "kernel_memory ?A buf MULTIBOOT2_BOOTLOADER_MAGIC info s = Some s'"
    "mx_vga s' = fold arch_console_putc ([10] @ c_string ''MegKer'' @ [10] @ c_string ''RAM: '' @ shown (unat (available_ram (map_entries ts)) div (1024 * 1024))
       @ c_string '' MB'' @ [10] @ c_string ''Heap: OK'' @ [10]) (mx_vga s)"
    "?r s' = ?r (sh_set_heap ?A h s2)" "?r s2 = ?r s1" "fresh_heap a h" "pmm_alloc_frames 16 p = (a, heap_pmm h)"
    using x86_machine.memory_ok [OF TrueI buf mm p(1) n ram] by blast
  have fr: "free_set (heap_pmm h) \<subseteq> {256..<262144}" using alloc_run_bitmap(2) [OF p(1) k(6)] p(5) by (rule subset_trans)
  have cl: "bitmap_apart p \<longrightarrow> bitmap_clear h" using fresh_clear [OF k(5) p(1) _ k(6)] by blast
  have "s2 = s1\<lparr>mx_vga := mx_vga s2\<rparr>" using rest_x86 [OF k(4)] .
  then have "s' = s\<lparr>mx_vga := mx_vga s', mx_boot := b, mx_proc := q\<lparr>vm_heap := h\<rparr>\<rparr>"
    using rest_x86 [OF k(3)] by (cases s'; cases s2; cases s) (simp add: arch_x86_64_def mx_set_heap_def s1_def)
  then show thesis using that [of h q b "mx_vga s'" a] k(1,2,5) fr cl p(4) q(2) by (simp add: p_def)
qed

lemma pit_init_keep:
  assumes "hz \<noteq> 0"
  shows "\<exists>i. pit_init hz h s = Some i \<and> io_dev (irq_bus i) = io_dev (irq_bus s) \<and> irq_handlers i = (irq_handlers s)[0 := Some h]"
  using assms by (simp add: pit_init_def Let_def irq_keep)

text \<open>Steps 4 to 6: interrupts, timer and devices.\<close>

lemma devices_text:
  assumes fb: "\<not> fb_present (framebuffer_info (mx_boot s))" and ata: "\<forall>log. io_dev (irq_bus (mx_irqs s)) log ATA_STATUS = 0xFF"
  obtains s3 s4 where "op_timer_init (arch_x86_64 e) 100 (op_interrupts_enable (arch_x86_64 e) (op_interrupts_init (arch_x86_64 e) s)) = Some s3"
    "op_late_init (arch_x86_64 e) s3 = Some (Inr s4)" "\<not> op_gfx_available (arch_x86_64 e) s4" "\<not> op_disk_available (arch_x86_64 e) s4"
    "sh_heap (arch_x86_64 e) s4 = vm_heap (mx_proc s)" "mx_vga s4 = mx_vga s" "iflag (proc_cpu (mx_proc s4))"
    "irq_handlers (mx_irqs s4) = (irq_handlers (mx_irqs s))[0 := Some H_pit_tick, 1 := Some H_keyboard_irq]"
proof -
  let ?A = "arch_x86_64 e"
  define s2 where "s2 = op_interrupts_enable ?A (op_interrupts_init ?A s)"
  have i2: "io_dev (irq_bus (mx_irqs s2)) = io_dev (irq_bus (mx_irqs s))" "irq_handlers (mx_irqs s2) = irq_handlers (mx_irqs s)"
    "mx_vga s2 = mx_vga s" "mx_boot s2 = mx_boot s" "vm_heap (mx_proc s2) = vm_heap (mx_proc s)" "iflag (proc_cpu (mx_proc s2))"
    by (simp_all add: s2_def arch_x86_64_def arch_interrupts_init_x86_def arch_interrupts_enable_x86_def set_iflag_def irq_keep)
  have hz: "(100 :: u32) \<noteq> 0" by simp
  obtain i where i: "pit_init 100 H_pit_tick (mx_irqs s2) = Some i" "io_dev (irq_bus i) = io_dev (irq_bus (mx_irqs s2))"
    "irq_handlers i = (irq_handlers (mx_irqs s2))[0 := Some H_pit_tick]"
    using pit_init_keep [of 100 H_pit_tick "mx_irqs s2", OF hz] by (elim exE conjE)
  define s3 where "s3 = s2\<lparr>mx_irqs := i\<rparr>"
  have 3: "op_timer_init ?A 100 s2 = Some s3" using i(1) by (simp add: arch_x86_64_def arch_timer_init_x86_def s3_def)
  have "\<not> fb_present (framebuffer_info (mx_boot s3))" "\<forall>log. io_dev (irq_bus (mx_irqs s3)) log ATA_STATUS = 0xFF"
    using fb ata i(2) i2(1,4) by (simp_all add: s3_def)
  from late_init_text [OF this, of e] obtain b4 where l: "arch_late_init_x86 e s3 = Some (Inr (s3\<lparr>mx_irqs :=
    (keyboard_init H_keyboard_irq (mx_irqs s3))\<lparr>irq_bus := b4\<rparr>, mx_disk := False, mx_fb := Some (framebuffer_info (mx_boot s3))\<rparr>))" by (elim exE)
  define s4 where s4: "s4 = s3\<lparr>mx_irqs := (keyboard_init H_keyboard_irq (mx_irqs s3))\<lparr>irq_bus := b4\<rparr>, mx_disk := False,
    mx_fb := Some (framebuffer_info (mx_boot s3))\<rparr>"
  have 4: "op_late_init ?A s3 = Some (Inr s4)" using l by (simp add: arch_x86_64_def flip: s4)
  have "\<not> op_gfx_available ?A s4" "\<not> op_disk_available ?A s4"
    using fb i2(4) by (simp_all add: arch_x86_64_def arch_gfx_available_x86_def arch_disk_available_x86_def ata_available_def fb_available_def s4 s3_def)
  moreover have "sh_heap ?A s4 = vm_heap (mx_proc s)" "mx_vga s4 = mx_vga s" "iflag (proc_cpu (mx_proc s4))"
    "irq_handlers (mx_irqs s4) = (irq_handlers (mx_irqs s))[0 := Some H_pit_tick, 1 := Some H_keyboard_irq]"
    using i(3) i2 by (simp_all add: s4 s3_def arch_x86_64_def keyboard_init_def irq_keep)
  ultimately show thesis using that [OF 3 [unfolded s2_def] 4] by blast
qed

lemma start_threads_x86:
  assumes "start_threads (arch_x86_64 e) blinker s = Some s'"
  shows "mx_vga s' = mx_vga s" "mx_irqs s' = mx_irqs s" "iflag (proc_cpu (mx_proc s')) = iflag (proc_cpu (mx_proc s))"
  using assms
  by (auto simp: start_threads_def arch_x86_64_def sched_init_def thread_create_def mx_set_sched_def mx_sched_def arch_x86_def
      arch_thread_init_stack_x86_def Let_def split: bind_splits if_splits)

text \<open>Step 6b.\<close>

lemma threads_text:
  assumes fr: "fresh_heap a (sh_heap (arch_x86_64 e) s)"
  obtains s' t where "start_threads (arch_x86_64 e) blinker s = Some s'"
    "bitmap_clear (sh_heap (arch_x86_64 e) s) \<longrightarrow> bitmap_clear (vm_heap (mx_proc s'))" "mx_enabled s'" "sched_inv (mx_sched s') [mx_current s', t]"
    "\<exists>c. mx_thread_at s' (mx_current s') = Some c \<and> t_state c = THREAD_RUNNING"
    "\<exists>n. mx_thread_at s' t = Some n \<and> t_state n = THREAD_READY \<and> t_sp n = t_stack_base n + THREAD_STACK_SIZE - 56
      \<and> mem_x86 (proc_cpu (mx_proc s')) (t_sp n + 24) = blinker \<and> mem_x86 (proc_cpu (mx_proc s')) (t_sp n + 48) = xe_thread_trampoline e"
proof -
  let ?A = "arch_x86_64 e" and ?c = "\<lambda>s. sh_sched (arch_x86_64 e) s"
  obtain s' t where s': "start_threads ?A blinker s = Some s' \<and> sched_inv (?c s') [current (?c s'), t] \<and> sched_enabled (?c s') \<and> t \<noteq> current (?c s')
    \<and> (bitmap_clear (sh_heap ?A s) \<longrightarrow> bitmap_clear (sh_heap ?A s'))
    \<and> (\<exists>c. thread_at (?c s') (current (?c s')) = Some c \<and> t_state c = THREAD_RUNNING \<and> t_id c = next_id (?c s))
    \<and> (\<exists>n. thread_at (?c s') t = Some n \<and> t_state n = THREAD_READY \<and> t_id n = next_id (?c s) + 1
       \<and> (t_sp n, sched_cpu (?c s')) = arch_thread_init_stack (op_threads ?A) (t_stack_base n + THREAD_STACK_SIZE) blinker 0 (sched_cpu (?c s)))"
    using x86_machine.start_threads_ok [OF fr, of blinker] by (elim exE)
  have view: "?c s' = mx_sched s'" "op_threads ?A = arch_x86 (xe_thread_trampoline e)" by (simp_all add: arch_x86_64_def)
  have sel: "current (mx_sched s') = mx_current s'" "thread_at (mx_sched s') = mx_thread_at s'" "sched_enabled (mx_sched s') = mx_enabled s'"
    "sched_cpu (mx_sched s') = proc_cpu (mx_proc s')" by (simp_all add: mx_sched_def)
  show thesis
  proof (rule that [OF conjunct1 [OF s']])
    show "bitmap_clear (sh_heap ?A s) \<longrightarrow> bitmap_clear (vm_heap (mx_proc s'))" using s' by (simp add: arch_x86_64_def)
    show "mx_enabled s'" "sched_inv (mx_sched s') [mx_current s', t]" "\<exists>c. mx_thread_at s' (mx_current s') = Some c \<and> t_state c = THREAD_RUNNING"
      using s' unfolding view sel by blast+
    show "\<exists>n. mx_thread_at s' t = Some n \<and> t_state n = THREAD_READY \<and> t_sp n = t_stack_base n + THREAD_STACK_SIZE - 56
        \<and> mem_x86 (proc_cpu (mx_proc s')) (t_sp n + 24) = blinker \<and> mem_x86 (proc_cpu (mx_proc s')) (t_sp n + 48) = xe_thread_trampoline e"
      using s' unfolding view sel by (auto simp: arch_x86_def init_stack_x86_eq)
  qed
qed

end
