(* ===== verification/Userland.thy ===== *)
theory Userland
  imports Syscall
begin

text \<open>
  The user programs that are built into the kernel image, \<^verbatim>\<open>userland/hello.c\<close> and \<^verbatim>\<open>userland/hello_aarch64.c\<close>, as
  \<open>process_run\<close> sees them: two system calls, the first with the address \<open>msg\<close> at which the linker has put the string.
  The instruction that traps into the kernel is the call of the dispatcher with the registers it finds; \<open>ksp\<close> is the
  kernel stack pointer while it runs, and user memory is read through the page tables at the root register.
\<close>

section \<open>x86\_64\<close>

definition user_rd :: "cpu_x86 proc \<Rightarrow> u64 \<Rightarrow> u8 option" where
  "user_rd s v = map_option (vm_mem s) (mmu_walk x86_fmt 3 s v)"

definition syscall4 :: "fb_info option \<Rightarrow> u64 \<Rightarrow> u64 \<Rightarrow> u64 \<Rightarrow> u64 \<Rightarrow> u64 \<Rightarrow> registers \<Rightarrow> cpu_x86 proc \<Rightarrow> cpu_x86 proc outcome option" where
  "syscall4 fb num a1 a2 a3 a4 regs s =
     syscall_dispatch fb user_rd (regs\<lparr>rax := num, registers.rdi := a1, rsi := a2, rdx := a3, registers.r10 := a4\<rparr>) s"

text \<open>The result of a program is its exit code and the state in which the kernel handles the exit; \<open>None\<close> is its
  final endless loop.\<close>

definition hello_start :: "fb_info option \<Rightarrow> registers \<Rightarrow> u64 \<Rightarrow> u64 \<Rightarrow> cpu_x86 proc \<Rightarrow> (i32 \<times> cpu_x86 proc) option" where
  "hello_start fb regs ksp msg s =
     do {
       r \<leftarrow> syscall4 fb SYS_DEBUG_DRAW 40 300 msg 0x0000FF00 regs s;
       case r of
         Resumed regs s \<Rightarrow>
           do {
             r \<leftarrow> syscall4 fb SYS_EXIT 0 0 0 0 regs s;
             case r of Exited code _ \<Rightarrow> Some (code, s\<lparr>proc_cpu := (proc_cpu s)\<lparr>rsp := ksp\<rparr>\<rparr>) | _ \<Rightarrow> None
           }
       | _ \<Rightarrow> None
     }"

section \<open>aarch64\<close>

definition user_rd_a64 :: "cpu_a64 proc \<Rightarrow> u64 \<Rightarrow> u8 option" where
  "user_rd_a64 s v = map_option (vm_mem s) (mmu_walk a64_fmt 2 s v)"

definition syscall1 :: "u64 \<Rightarrow> u64 \<Rightarrow> aarch64_regs \<Rightarrow> sys_a64 \<Rightarrow> sys_a64 svc_outcome option" where
  "syscall1 num a0 regs s = aarch64_svc_handler user_rd_a64 (regs\<lparr>regs_x := (regs_x regs)[8 := num, 0 := a0]\<rparr>) s"

definition hello_start_a64 :: "aarch64_regs \<Rightarrow> u64 \<Rightarrow> sys_a64 \<Rightarrow> (i32 \<times> sys_a64) option" where
  "hello_start_a64 regs msg s =
     do {
       r \<leftarrow> syscall1 SYS_WRITE msg regs s;
       case r of
         Svc_return regs s \<Rightarrow>
           do {
             r \<leftarrow> syscall1 SYS_EXIT 0 regs s;
             case r of Svc_exit code _ \<Rightarrow> Some (code, s) | _ \<Rightarrow> None
           }
       | _ \<Rightarrow> None
     }"

section \<open>Strings of the image\<close>

text \<open>A string of the loaded image is read by the kernel.\<close>

lemma translated_byte:
  assumes "vmm_translate as v s = Some pa" "pa \<noteq> 0" "as_root as s = Some (root_reg s)"
  shows "user_rd s v = Some (vm_mem s pa)"
  using assms by (simp add: user_rd_def mmu_walk_def vmm_translate_lookup Let_def child_def x86_fmt_def split: if_splits)

lemma image_string:
  assumes "string_at (image_view m elf eh) v str" "\<And>i. i \<le> length str \<Longrightarrow> v + of_nat i \<notin> S"
    and "\<And>w b. w \<notin> S \<Longrightarrow> image_view m elf eh w = Some b \<Longrightarrow> rd w = Some b"
  shows "string_at rd v str"
  using assms(1,2)
proof (induction str arbitrary: v)
  case Nil
  have "v \<notin> S" using Nil.prems(2) [of 0] by simp
  then show ?case using assms(3) Nil.prems(1) by simp
next
  case (Cons c str)
  have "v + 1 + of_nat i \<notin> S" if "i \<le> length str" for i using Cons.prems(2) [of "Suc i"] that by (simp add: add.assoc)
  moreover have "v \<notin> S" using Cons.prems(2) [of 0] by simp
  ultimately show ?case using Cons.IH [of "v + 1"] Cons.prems(1) assms(3) by simp
qed

lemma hello_start_draws:
  assumes "string_at (user_rd t) msg str" "fb_available fb"
  shows "hello_start fb regs ksp msg t = Some (0, t\<lparr>vm_mem := fb_draw_string fb 40 300 str 0x0000FF00 0 (vm_mem t),
    proc_cpu := (proc_cpu t)\<lparr>rsp := ksp\<rparr>\<rparr>)"
  using cstring_at [OF assms(1)] assms(2)
  by (simp add: hello_start_def syscall4_def syscall_dispatch_def SYS_EXIT_def SYS_DEBUG_DRAW_def)

text \<open>Property C13. The first user program runs from its ELF image to the screen: when the kernel starts the loaded image on a
  machine with a framebuffer that overlaps no page table, \<open>process_run\<close> comes back with exit code 0, and the memory it leaves is that of
  the loaded image with the string that the image holds at \<open>msg\<close> drawn in green at (40, 300); registers, interrupts, active
  space and live heap buffers are as before the call.\<close>

theorem hello_process_draws:
  fixes s s1 s2 :: "cpu_x86 proc"
  assumes "elf_valid EM_X86_64 (read_ehdr (vm_mem s) elf) sz" and h: "heap_inv (vm_heap s)"
    and k: "ready x86_fmt 3 (kernel_root s) s" "card (tset x86_fmt (vm_mem s) 3 (kernel_root s)) \<le> card (free_set (vm_pmm s))"
    and c: "vmm_create_address_space s = Some (as, s1)" and l: "loadable x86_fmt 3 as X elf (read_ehdr (vm_mem s) elf) USER_STACK_TOP s1"
    and s2: "load_image vmm_map vmm_translate USER_STACK_TOP as elf (read_ehdr (vm_mem s) elf) s1 = Some s2"
    and m: "kmalloc LAUNCH_STACK_SIZE (vm_heap s2) = Some (stk, h2)" "stk \<noteq> 0"
    and w: "words_x86 (stk + LAUNCH_STACK_SIZE - 56) \<inter> (words_x86 (rsp (proc_cpu s) - 48) \<union> params_words params) = {}"
      "words_x86 (rsp (proc_cpu s) - 48) \<inter> params_words params = {}" "words_x86 (rsp (proc_cpu s) - 48) \<inter> words_x86 (ksp - 48) = {}"
    and f: "fb_ok f" "fb_present f" "\<forall>a \<in> fb_bytes f. frame_no a \<notin> sp_tframes x86_fmt 3 as s2"
    and str: "string_at (image_view (vm_mem s1) elf (read_ehdr (vm_mem s) elf)) msg str"
      "\<And>i. i \<le> length str \<Longrightarrow> msg + of_nat i \<notin> stack_addrs USER_STACK_TOP"
  shows "\<exists>s'. process_run tramp hang flags params (\<lambda>_. hello_start (Some f) regs ksp msg) elf sz s = Some (0, s')
    \<and> vm_mem s' = fb_draw_string (Some f) 40 300 str 0x0000FF00 0 (vm_mem s2)
    \<and> exit_ctx_x86 (proc_cpu s') = entry_ctx_x86 (proc_cpu s) \<and> iflag (proc_cpu s') \<and> root_reg s' = kernel_root s
    \<and> heap_inv (vm_heap s') \<and> live (vm_heap s') = live (vm_heap s)"
proof -
  let ?eh = "read_ehdr (vm_mem s) elf" and ?M = "fb_draw_string (Some f) 40 300 str 0x0000FF00 0 (vm_mem s2)"
  obtain p where as: "as = Heap_space p" using c by (auto simp: vmm_create_address_space_def case_prod_beta split: bind_splits if_splits)
  have tp: "4096 dvd unat USER_STACK_TOP" "unat USER_STACK_TOP \<le> 2 ^ 48" "16384 \<le> unat USER_STACK_TOP" by (simp_all add: USER_STACK_TOP_def)
  have seen: "\<exists>pa. vmm_translate as v s2 = Some pa \<and> pa \<noteq> 0 \<and> vm_mem s2 pa = b"
    if "v \<notin> stack_addrs USER_STACK_TOP" "image_view (vm_mem s1) elf ?eh v = Some b" for v b
    using x86_space.load_image_seen [of as s1 X ?eh elf USER_STACK_TOP, OF _ _ _ _ _ tp] l s2 that by (simp add: loadable_def)
  have user: "\<exists>t'. hello_start (Some f) regs ksp msg t = Some (0, t') \<and> kernel_kept as t t' \<and> vm_mem t' = ?M"
    if t: "as_root as t = Some (root_reg t)" "kernel_return_sp t = rsp (proc_cpu s) - 48" "vm_mem t = vm_mem s2"
      "sp_tframes x86_fmt 3 as t = sp_tframes x86_fmt 3 as s2" "as_at t = as_at s2" for t
  proof -
    have rd: "user_rd t v = Some b" if v: "v \<notin> stack_addrs USER_STACK_TOP" "image_view (vm_mem s1) elf ?eh v = Some b" for v b
    proof -
      obtain pa where pa: "vmm_translate as v s2 = Some pa" "pa \<noteq> 0" "vm_mem s2 pa = b" using seen [OF v] by blast
      then have "vmm_translate as v t = Some pa" using t by (simp add: vmm_translate_lookup as as_root_def)
      then show ?thesis using translated_byte [OF _ pa(2) t(1)] pa(3) t(3) by simp
    qed
    have "string_at (user_rd t) msg str" by (rule image_string [OF str rd])
    note d = hello_start_draws [OF this, of "Some f" regs ksp]
    have "paints f (fb_draw_string (Some f) 40 300 str 0x0000FF00 0)" by (rule paints_string [OF f(1)])
    then show ?thesis using d t w(3) f by (auto simp: fb_available_def kernel_kept_def paints_def frame_x86_def Let_def)
  qed
  show ?thesis
    by (rule ex_forward [OF process_run_ok [where Q = "\<lambda>m. m = ?M" and user = "\<lambda>_. hello_start (Some f) regs ksp msg"
        and tramp = tramp and hang = hang and flags = flags, OF assms(1-11) user]]) simp_all
qed

text \<open>The example image holds the string of the bytes 0xAA and 0xBB at its first address; the framebuffer is a single pixel.\<close>

lemma demo_image_string:
  assumes "\<And>x. frame_no x = 2 \<Longrightarrow> m x = demo_image x"
  shows "string_at (image_view m 0x2000 demo_ehdr) 0x400000 [0xAA, 0xBB]"
proof -
  have fr: "frame_no (0x2000 + of_nat b) = 2" if "b < 4096" for b
    using unat_in_page(2) [of "0x2000" b] that by (simp add: page_aligned_def)
  have hd: "frame_no (0x2000 + 64 + of_nat b) = 2" if "b < 56" for b using fr [of "64 + b"] that by (simp add: add.assoc)
  have "read_phdr m 0x2040 = read_phdr demo_image 0x2040" by (rule read_phdr_cong) (use assms hd in simp)
  then have "phdrs m 0x2000 demo_ehdr = [demo_phdr]" by (simp add: phdrs_def demo_ehdr_def demo_headers)
  moreover have "m 0x2080 = 0xAA" "m 0x2081 = 0xBB" using assms fr [of 128] fr [of 129] by (simp_all add: demo_image_def)
  ultimately show ?thesis by (simp add: image_view_def seg_view_def seg_start_def seg_end_def demo_phdr_def PT_LOAD_def)
qed

theorem hello_process_draws_witness:
  "\<exists>s' m. process_run 0x101000 0x102000 0 0x80100 (\<lambda>_. hello_start (Some demo_sys_fb) (demo_regs 0x80) 0x90000 0x400000) 0x2000 0x82 demo_proc = Some (0, s')
     \<and> vm_mem s' = fb_draw_string (Some demo_sys_fb) 40 300 [0xAA, 0xBB] 0x0000FF00 0 m"
proof -
  obtain s1 s2 h2 where d: "vmm_create_address_space demo_proc = Some (Heap_space 0x3030, s1)"
    "loadable x86_fmt 3 (Heap_space 0x3030) {2} 0x2000 demo_ehdr USER_STACK_TOP s1"
    "load_image vmm_map vmm_translate USER_STACK_TOP (Heap_space 0x3030) 0x2000 demo_ehdr s1 = Some s2"
    "kmalloc LAUNCH_STACK_SIZE (vm_heap s2) = Some (0x3050, h2)" and im: "\<forall>x. frame_no x = 2 \<longrightarrow> vm_mem s1 x = demo_image x"
    by (rule demo_process_image)
  have e: "read_ehdr (vm_mem demo_proc) 0x2000 = demo_ehdr" by (simp add: demo_proc_def demo_headers)
  have v: "elf_valid EM_X86_64 (read_ehdr (vm_mem demo_proc) 0x2000) 0x82"
    by (simp add: e elf_valid_def demo_ehdr_def EM_X86_64_def ELFCLASS64_def sizeof_ehdr_def)
  have k: "ready x86_fmt 3 (kernel_root demo_proc) demo_proc" "card (tset x86_fmt (vm_mem demo_proc) 3 (kernel_root demo_proc)) \<le> card (free_set (vm_pmm demo_proc))"
    using demo_kernel(1,4) by (simp_all add: demo_kernel(3) demo_proc_pmm)
  have w: "words_x86 (0x3050 + LAUNCH_STACK_SIZE - 56) \<inter> (words_x86 (rsp (proc_cpu demo_proc) - 48) \<union> params_words 0x80100) = {}"
    "words_x86 (rsp (proc_cpu demo_proc) - 48) \<inter> params_words 0x80100 = {}" "words_x86 (rsp (proc_cpu demo_proc) - 48) \<inter> words_x86 (0x90000 - 48) = {}"
    by (simp_all add: words_x86_def params_words_def LAUNCH_STACK_SIZE_def demo_proc_def demo_cpu_def)
  obtain p j root where cr: "sp_tframes x86_fmt 3 (Heap_space 0x3030) s1 \<subseteq> free_set (vm_pmm demo_proc)" "free_set (vm_pmm s1) \<subseteq> free_set (vm_pmm demo_proc)"
    by (rule create_x86 [OF k demo_proc_heap_inv d(1)])
  have T: "sp_tframes x86_fmt 3 (Heap_space 0x3030) s2 \<subseteq> {19..<64}" using load_x86(4) [OF d(2,3)] cr demo_proc_pmm(1) by blast
  have "frame_no a \<notin> {19..<64}" if "a \<in> fb_bytes demo_sys_fb" for a
  proof -
    have "0xE0000000 \<le> unat a" using that by (simp add: fb_bytes_def demo_sys_fb_def)
    then show ?thesis using div_le_mono [of "0xE0000000" "unat a" 4096] by simp
  qed
  then have fb: "\<forall>a \<in> fb_bytes demo_sys_fb. frame_no a \<notin> sp_tframes x86_fmt 3 (Heap_space 0x3030) s2" using T by blast
  have ok: "fb_ok demo_sys_fb" by (simp add: fb_ok_def demo_sys_fb_def)
  have st: "0x400000 + of_nat i \<notin> stack_addrs USER_STACK_TOP" if "i \<le> length [0xAA, 0xBB :: u8]" for i
  proof -
    have "i = 0 \<or> i = 1 \<or> i = 2" using that by auto
    then show ?thesis by (elim disjE) (simp_all add: stack_addrs_def USER_STACK_TOP_def)
  qed
  have "\<exists>s'. process_run 0x101000 0x102000 0 0x80100 (\<lambda>_. hello_start (Some demo_sys_fb) (demo_regs 0x80) 0x90000 0x400000) 0x2000 0x82 demo_proc = Some (0, s')
      \<and> vm_mem s' = fb_draw_string (Some demo_sys_fb) 40 300 [0xAA, 0xBB] 0x0000FF00 0 (vm_mem s2)
      \<and> exit_ctx_x86 (proc_cpu s') = entry_ctx_x86 (proc_cpu demo_proc) \<and> iflag (proc_cpu s') \<and> root_reg s' = kernel_root demo_proc
      \<and> heap_inv (vm_heap s') \<and> live (vm_heap s') = live (vm_heap demo_proc)"
    by (rule hello_process_draws [OF v demo_proc_heap_inv k d(1) d(2,3) [folded e] d(4) _ w ok _ fb])
      (use demo_image_string [of "vm_mem s1"] im st in \<open>simp_all add: e demo_sys_fb_def\<close>)
  then show ?thesis by (elim exE conjE) (rule exI, rule exI [of _ "vm_mem s2"], intro conjI)
qed

section \<open>The program on aarch64\<close>

text \<open>On aarch64 the program sends the string over the serial line and exits with 0.\<close>

theorem hello_writes_a64:
  assumes "uart_drains (io_dev b)" "string_at (user_rd_a64 s) msg str" "length (regs_x regs) = 31"
  shows "\<exists>b'. hello_start_a64 regs msg (s, b) = Some (0, s, b')
    \<and> outs (io_log b') = outs (io_log b) @ map (\<lambda>c. (Mmio UART0_BASE, ucast c)) str"
proof -
  obtain b' where "write_string (user_rd_a64 s) msg b = Some b'" "outs (io_log b') = outs (io_log b) @ map (\<lambda>c. (Mmio UART0_BASE, ucast c)) str"
    using write_string_sends [OF assms(2,1)] by blast
  then show ?thesis using assms(3)
    by (simp add: hello_start_a64_def syscall1_def aarch64_svc_handler_def SYS_WRITE_def SYS_EXIT_def)
qed

end
