(* ===== verification/Irq_x86.thy ===== *)
theory Irq_x86
  imports Machine_x86 Userland
begin

text \<open>
  Interrupts of the running x86\_64 kernel: \<open>isr_handler\<close> of theory Interrupts with the kernel's own handlers, system call
  dispatcher and panic routine, on the whole state of the kernel. A timer interrupt then is a clock in the sense of
  theory Timer. The result of an interrupt is the state in which the kernel goes on, in whichever thread that is.
\<close>

section \<open>Handlers\<close>

definition run_handler_x86 :: "x86_env \<Rightarrow> x86_handler \<Rightarrow> x86 \<Rightarrow> x86 option" where
  "run_handler_x86 e h s =
     (case h of
        H_pit_tick \<Rightarrow>
          do {
            p \<leftarrow> pit_tick (arch_x86 (xe_thread_trampoline e)) \<lparr>pit_ticks = mx_ticks s, pit_sched = mx_sched s\<rparr>;
            Some ((mx_set_sched (pit_sched p) s)\<lparr>mx_ticks := pit_ticks p\<rparr>)
          }
      | H_keyboard_irq \<Rightarrow>
          let (b, k) = keyboard_irq (irq_bus (mx_irqs s), mx_kbd s)
          in Some (s\<lparr>mx_irqs := (mx_irqs s)\<lparr>irq_bus := b\<rparr>, mx_kbd := k\<rparr>)
      | H_mouse_irq \<Rightarrow>
          let (b, m) = mouse_irq (fb_width (mx_fb s)) (fb_height (mx_fb s)) (irq_bus (mx_irqs s), mx_mouse s)
          in Some (s\<lparr>mx_irqs := (mx_irqs s)\<lparr>irq_bus := b\<rparr>, mx_mouse := m\<rparr>))"

section \<open>The dispatcher on the kernel's state\<close>

text \<open>The dispatcher works on the interrupt state, here with the rest of the kernel behind it.\<close>

definition enter_isr :: "x86 kernel \<Rightarrow> (x86_handler, x86 kernel) irqs_scheme" where
  "enter_isr k = irqs.extend (mx_irqs (k_hw k)) k"

definition leave_isr :: "(x86_handler, x86 kernel) irqs_scheme \<Rightarrow> x86 kernel" where
  "leave_isr st = (let k = irqs.more st in k\<lparr>k_hw := (k_hw k)\<lparr>mx_irqs := irqs.truncate st\<rparr>\<rparr>)"

definition syscall_x86 :: "registers \<Rightarrow> x86 kernel \<Rightarrow> x86 kernel outcome option" where
  "syscall_x86 regs k =
     map_option (map_outcome (\<lambda>p. k\<lparr>k_hw := (k_hw k)\<lparr>mx_proc := p\<rparr>\<rparr>)) (syscall_dispatch (mx_fb (k_hw k)) user_rd regs (mx_proc (k_hw k)))"

text \<open>The panic routine always returns a value here, since printing on the VGA console never fails.\<close>

definition isr_x86 :: "x86_env \<Rightarrow> registers \<Rightarrow> x86 kernel \<Rightarrow> x86 kernel outcome option" where
  "isr_x86 e regs k =
     map_option (map_outcome leave_isr)
       (isr_handler
          (\<lambda>regs st. map_option (map_outcome enter_isr) (syscall_x86 regs (leave_isr st)))
          (\<lambda>msg st. case kernel_panic (arch_x86_64 e) (c_string msg) (leave_isr st) of None \<Rightarrow> st | Some k \<Rightarrow> enter_isr k)
          (\<lambda>h st. let k = leave_isr st in map_option (\<lambda>s. enter_isr (k\<lparr>k_hw := s\<rparr>)) (run_handler_x86 e h (k_hw k)))
          regs (enter_isr k))"

lemma leave_enter: "leave_isr (enter_isr k) = k"
  by (cases k) (simp add: leave_isr_def enter_isr_def irqs.defs)

section \<open>The timer\<close>

definition timer_irq :: "x86_env \<Rightarrow> registers \<Rightarrow> x86 kernel \<Rightarrow> x86 kernel option" where
  "timer_irq e regs k = (case isr_x86 e (regs\<lparr>int_no := 32\<rparr>) k of Some (Resumed _ k') \<Rightarrow> Some k' | _ \<Rightarrow> None)"

lemma timer_irq_eq:
  assumes "irq_handlers (mx_irqs (k_hw k)) ! 0 = Some H_pit_tick"
  shows "timer_irq e regs k = map_option (\<lambda>s. k\<lparr>k_hw := s\<rparr>)
    (run_handler_x86 e H_pit_tick ((k_hw k)\<lparr>mx_irqs := (mx_irqs (k_hw k))\<lparr>irq_bus := outb 0x20 0x20 (irq_bus (mx_irqs (k_hw k)))\<rparr>\<rparr>))"
proof -
  let ?i = "mx_irqs (k_hw k)"
  have l: "leave_isr ((enter_isr k)\<lparr>irq_bus := b\<rparr>) = k\<lparr>k_hw := (k_hw k)\<lparr>mx_irqs := ?i\<lparr>irq_bus := b\<rparr>\<rparr>\<rparr>" for b
    by (simp add: leave_isr_def enter_isr_def irqs.defs)
  have "irq_handlers ((enter_isr k)\<lparr>irq_bus := b\<rparr>) ! 0 = Some H_pit_tick" "irq_bus (enter_isr k) = irq_bus ?i" for b
    using assms by (simp_all add: enter_isr_def irqs.defs)
  then show ?thesis
    by (simp add: timer_irq_def isr_x86_def isr_handler_def SYSCALL_VECTOR_def IRQ_BASE_def IRQ_COUNT_def Let_def l leave_enter option.map_comp comp_def split: option.splits)
qed

text \<open>The timer interrupt is a clock for the kernel's scheduler once its handler is installed.\<close>

interpretation x86_clock: clock "arch_x86 (xe_thread_trampoline e)" "timer_irq e regs" "\<lambda>k. mx_ticks (k_hw k)" "\<lambda>k. mx_sched (k_hw k)"
  "\<lambda>k. irq_handlers (mx_irqs (k_hw k)) ! 0 = Some H_pit_tick" for e regs
  by unfold_locales (simp add: timer_irq_eq run_handler_x86_def pit_tick_def mx_defs)

end
