(* ===== verification/Ramfb.thy ===== *)
theory Ramfb
  imports Framebuffer Ports
begin

text \<open>
  How the aarch64 kernel gets its framebuffer: the fw_cfg half of \<^verbatim>\<open>arch/aarch64/drivers/framebuffer.c\<close>. The
  directory of firmware files is read byte by byte, the file \<open>etc/ramfb\<close> looked up, a buffer
  allocated and its description handed to the device by DMA. The device is the answer function of the
  register bus; the DMA descriptor is shared with the device and declared volatile, so its words are
  accessed over that bus too. All wire formats are big endian.
\<close>

definition FW_CFG_BASE :: u64 where "FW_CFG_BASE = 0x09020000"
definition FW_CFG_DATA :: u64 where "FW_CFG_DATA = FW_CFG_BASE + 0x00"
definition FW_CFG_SELECTOR :: u64 where "FW_CFG_SELECTOR = FW_CFG_BASE + 0x08"
definition FW_CFG_DMA_ADDR :: u64 where "FW_CFG_DMA_ADDR = FW_CFG_BASE + 0x10"
definition FW_CFG_FILE_DIR :: u16 where "FW_CFG_FILE_DIR = 0x19"
definition FW_CFG_DMA_CTL_ERROR :: u32 where "FW_CFG_DMA_CTL_ERROR = push_bit 0 1"
definition FW_CFG_DMA_CTL_SELECT :: u32 where "FW_CFG_DMA_CTL_SELECT = push_bit 3 1"
definition FW_CFG_DMA_CTL_WRITE :: u32 where "FW_CFG_DMA_CTL_WRITE = push_bit 4 1"
definition RAMFB_FORMAT_XRGB8888 :: u32 where "RAMFB_FORMAT_XRGB8888 = 0x34325258"
definition RAMFB_WIDTH :: u32 where "RAMFB_WIDTH = 800"
definition RAMFB_HEIGHT :: u32 where "RAMFB_HEIGHT = 600"
definition RAMFB_BPP :: u32 where "RAMFB_BPP = 4"

lemmas fw_regs = FW_CFG_DATA_def FW_CFG_SELECTOR_def FW_CFG_DMA_ADDR_def FW_CFG_BASE_def

definition bswap16 :: "u16 \<Rightarrow> u16" where
  "bswap16 v = push_bit 8 v OR drop_bit 8 v"

definition bswap32 :: "u32 \<Rightarrow> u32" where
  "bswap32 v = push_bit 24 (v AND 0xFF) OR push_bit 8 (v AND 0xFF00)
     OR (drop_bit 8 v AND 0xFF00) OR (drop_bit 24 v AND 0xFF)"

definition bswap64 :: "u64 \<Rightarrow> u64" where
  "bswap64 v = push_bit 32 (ucast (bswap32 (ucast v))) OR ucast (bswap32 (ucast (drop_bit 32 v)))"

text \<open>Comparing past the end of a buffer is a memory error.\<close>

fun str_eq_fb :: "u8 list \<Rightarrow> u8 list \<Rightarrow> bool option" where
  "str_eq_fb (a # as) (b # bs) = (if a \<noteq> 0 \<and> a = b then str_eq_fb as bs else Some (a = b))"
| "str_eq_fb _ _ = None"

definition fw_cfg_select :: "u16 \<Rightarrow> a64_reg iobus \<Rightarrow> a64_reg iobus" where
  "fw_cfg_select key b = io_out (Mmio FW_CFG_SELECTOR) (ucast (bswap16 key)) b"

definition fw_cfg_read_byte :: "a64_reg iobus \<Rightarrow> u8 \<times> a64_reg iobus" where
  "fw_cfg_read_byte b = mmio_read8 FW_CFG_DATA b"

primrec fw_read :: "nat \<Rightarrow> a64_reg iobus \<Rightarrow> u8 list \<times> a64_reg iobus" where
  "fw_read 0 b = ([], b)"
| "fw_read (Suc n) b = (let (x, b) = fw_cfg_read_byte b; (xs, b) = fw_read n b in (x # xs, b))"

primrec find_loop :: "nat \<Rightarrow> u8 list \<Rightarrow> a64_reg iobus \<Rightarrow> (u16 \<times> a64_reg iobus) option" where
  "find_loop 0 name b = Some (0, b)"
| "find_loop (Suc n) name b =
     (let (entry, b) = fw_read 64 b;
          select = push_bit 8 (ucast (entry ! 4)) OR ucast (entry ! 5)
      in do {
           eq \<leftarrow> str_eq_fb (drop 8 entry) name;
           if eq then Some (select, b) else find_loop n name b
         })"

definition fw_cfg_find_file :: "u8 list \<Rightarrow> a64_reg iobus \<Rightarrow> (u16 \<times> a64_reg iobus) option" where
  "fw_cfg_find_file name b =
     (let b = fw_cfg_select FW_CFG_FILE_DIR b;
          (bs, b) = fw_read 4 b;
          count = fold (\<lambda>x c. push_bit 8 c OR ucast x) bs (0 :: u32)
      in find_loop (unat count) name b)"

partial_function (option) dma_poll :: "u64 \<Rightarrow> a64_reg iobus \<Rightarrow> (u32 \<times> a64_reg iobus) option" where
  "dma_poll access b =
     (let (v, b) = mmio_read32 access b;
          ctl = bswap32 v
      in if ctl \<noteq> 0 \<and> ctl AND FW_CFG_DMA_CTL_ERROR = 0 then dma_poll access b else Some (ctl, b))"

text \<open>The static descriptor \<open>access\<close> has the fields \<open>control\<close>, \<open>length\<close> and \<open>address\<close> at offsets 0, 4 and 8.\<close>

definition fw_cfg_dma_write :: "u64 \<Rightarrow> u16 \<Rightarrow> u64 \<Rightarrow> u32 \<Rightarrow> a64_reg iobus \<Rightarrow> (bool \<times> a64_reg iobus) option" where
  "fw_cfg_dma_write access selector data len b =
     (let b = mmio_write32 access (bswap32 (push_bit 16 (ucast selector) OR FW_CFG_DMA_CTL_SELECT OR FW_CFG_DMA_CTL_WRITE)) b;
          b = mmio_write32 (access + 4) (bswap32 len) b;
          b = io_out (Mmio (access + 8)) (bswap64 data) b;
          b = io_out (Mmio FW_CFG_DMA_ADDR) (bswap64 access) b
      in do { (ctl, b) \<leftarrow> dma_poll access b; Some (ctl = 0, b) })"

record ramfb =
  rf_bus :: "a64_reg iobus"
  rf_mem :: mem
  rf_pmm :: pmm
  rf_fb :: fb_state

text \<open>\<open>ramfb_cfg_t\<close> is packed: 28 bytes.\<close>

definition store_ramfb_cfg :: "u64 \<Rightarrow> u64 \<Rightarrow> mem \<Rightarrow> mem" where
  "store_ramfb_cfg cfg buf m =
     (let m = store64 cfg (bswap64 buf) m;
          m = store32 (cfg + 8) (bswap32 RAMFB_FORMAT_XRGB8888) m;
          m = store32 (cfg + 12) 0 m;
          m = store32 (cfg + 16) (bswap32 RAMFB_WIDTH) m;
          m = store32 (cfg + 20) (bswap32 RAMFB_HEIGHT) m
      in store32 (cfg + 24) (bswap32 (RAMFB_WIDTH * RAMFB_BPP)) m)"

definition etc_ramfb :: "u8 list" where
  "etc_ramfb = [0x65, 0x74, 0x63, 0x2F, 0x72, 0x61, 0x6D, 0x66, 0x62]"

text \<open>The arguments are the addresses of the static descriptor and of the local configuration structure.\<close>

definition fb_init_a64 :: "u64 \<Rightarrow> u64 \<Rightarrow> ramfb \<Rightarrow> ramfb option" where
  "fb_init_a64 access cfg s =
     do {
       (sel, b) \<leftarrow> fw_cfg_find_file (etc_ramfb @ [0]) (rf_bus s);
       if sel = 0 then Some (s\<lparr>rf_bus := b\<rparr>)
       else
         let fb_size = ucast RAMFB_WIDTH * ucast RAMFB_HEIGHT * ucast RAMFB_BPP :: u64;
             frames = (fb_size + PMM_FRAME_SIZE - 1) div PMM_FRAME_SIZE;
             (buf, p) = pmm_alloc_frames frames (rf_pmm s)
         in if buf = 0 then Some (s\<lparr>rf_bus := b, rf_pmm := p\<rparr>)
            else
              let m = store_ramfb_cfg cfg buf (rf_mem s)
              in do {
                   (written, b) \<leftarrow> fw_cfg_dma_write access sel cfg 28 b;
                   if \<not> written then Some (s\<lparr>rf_bus := b, rf_pmm := p, rf_mem := m\<rparr>)
                   else Some (s\<lparr>rf_bus := b, rf_pmm := p, rf_mem := m,
                          rf_fb := \<lparr>fbs_present = True, fbs_addr = buf, fbs_pitch = RAMFB_WIDTH * RAMFB_BPP,
                            fbs_width = RAMFB_WIDTH, fbs_height = RAMFB_HEIGHT\<rparr>\<rparr>)
                 }
     }"

section \<open>Byte order\<close>

lemma bit_byte: "bit (0xFF :: u32) n \<longleftrightarrow> n < 8" "bit (0xFF00 :: u32) n \<longleftrightarrow> 8 \<le> n \<and> n < 16"
proof -
  have "(0xFF :: u32) = mask 8" "(0xFF00 :: u32) = push_bit 8 (mask 8)" by (simp_all add: mask_eq_exp_minus_1)
  then show "bit (0xFF :: u32) n \<longleftrightarrow> n < 8" "bit (0xFF00 :: u32) n \<longleftrightarrow> 8 \<le> n \<and> n < 16"
    by (auto simp only: bit_mask_iff bit_push_bit_iff possible_bit_word word_size; simp)+
qed

lemma bit_bswap32: "bit (bswap32 v) n \<longleftrightarrow> n < 32 \<and> bit v (24 - 8 * (n div 8) + n mod 8)"
proof (cases "n < 32")
  case True
  consider "n < 8" | "8 \<le> n" "n < 16" | "16 \<le> n" "n < 24" | "24 \<le> n" "n < 32" using True by linarith
  then show ?thesis
  proof cases
    case 1
    then have "n div 8 = 0" "n mod 8 = n" by simp_all
    then show ?thesis unfolding bswap32_def bit_or_iff bit_and_iff bit_push_bit_iff bit_drop_bit_eq o_apply bit_byte using 1 by (auto simp: add.commute)
  next
    case 2
    then have "n div 8 = 1" "n mod 8 = n - 8" by (simp_all add: div_nat_eqI le_mod_geq)
    then show ?thesis unfolding bswap32_def bit_or_iff bit_and_iff bit_push_bit_iff bit_drop_bit_eq o_apply bit_byte using 2 by (auto simp: add.commute)
  next
    case 3
    then have "n div 8 = 2" "n mod 8 = n - 16" by (simp_all add: div_nat_eqI le_mod_geq)
    then show ?thesis unfolding bswap32_def bit_or_iff bit_and_iff bit_push_bit_iff bit_drop_bit_eq o_apply bit_byte using 3 by (auto simp: add.commute)
  next
    case 4
    then have "n div 8 = 3" "n mod 8 = n - 24" by (simp_all add: div_nat_eqI le_mod_geq)
    then show ?thesis unfolding bswap32_def bit_or_iff bit_and_iff bit_push_bit_iff bit_drop_bit_eq o_apply bit_byte using 4 by (auto simp: add.commute)
  qed
qed (auto dest: bit_imp_le_length)

lemma bswap32_twice [simp]: "bswap32 (bswap32 v) = v"
proof (rule bit_word_eqI)
  fix n assume "n < LENGTH(32)"
  then have n: "n < 32" by simp
  let ?k = "24 - 8 * (n div 8) + n mod 8"
  have d: "n div 8 \<le> 3" using n by (simp add: div_le_dividend less_Suc_eq_le [symmetric] div_less_iff_less_mult)
  then have e: "?k = 8 * (3 - n div 8) + n mod 8" by (simp add: right_diff_distrib')
  have "?k div 8 = 3 - n div 8" "?k mod 8 = n mod 8" unfolding e by simp_all
  moreover have "?k < 32" using d mod_less_divisor [of 8 n] by simp
  moreover have "24 - 8 * (3 - n div 8) + n mod 8 = n" using d by (simp add: right_diff_distrib')
  ultimately show "bit (bswap32 (bswap32 v)) n = bit v n" using n by (simp add: bit_bswap32)
qed

lemma bswap64_halves:
  "ucast (bswap64 v) = bswap32 (ucast (drop_bit 32 v))" "ucast (drop_bit 32 (bswap64 v)) = bswap32 (ucast v)"
  by (rule bit_word_eqI; simp add: bswap64_def bit_simps bit_bswap32)+

lemma bswap64_twice [simp]: "bswap64 (bswap64 v) = v"
proof -
  have "bswap64 (bswap64 v) = push_bit 32 (ucast (ucast (drop_bit 32 v) :: u32)) OR ucast (ucast v :: u32)"
    unfolding bswap64_def [of "bswap64 v"] bswap64_halves by simp
  also have "\<dots> = v" by (rule bit_word_eqI) (auto simp: bit_simps)
  finally show ?thesis .
qed

lemma bswap_zero [simp]: "bswap32 0 = 0"
  by (simp add: bswap32_def)

section \<open>The configuration structure\<close>

lemma load_store_gap:
  assumes "j + n \<le> k \<or> k + length bs \<le> j" "j + n < 2 ^ 32" "k + length bs < 2 ^ 32"
  shows "load_bytes n (store_bytes bs (c + of_nat k) m) (c + of_nat j) = load_bytes n m (c + of_nat j)"
proof (rule load_store_other)
  fix i assume i: "i < n"
  have w: "unat (of_nat (j + i) :: u64) = j + i" "unat (of_nat k :: u64) = k"
    using assms i by (auto intro!: unat_of_nat_eq simp del: of_nat_add)
  have e: "c + of_nat j + of_nat i - (c + of_nat k) = (of_nat (j + i) - of_nat k :: u64)" by simp
  show "length bs \<le> unat (c + of_nat j + of_nat i - (c + of_nat k))"
  proof (cases "k \<le> j + i")
    case True
    then have "unat (of_nat (j + i) - of_nat k :: u64) = j + i - k" using w by (simp add: unat_minus_simple del: of_nat_add)
    then show ?thesis unfolding e using True assms(1) i by auto
  next
    case False
    then have "unat (of_nat (j + i) - of_nat k :: u64) = 2 ^ 64 + (j + i) - k"
      using w assms(3) by (subst unat_sub_if_size) (simp add: word_size word_le_nat_alt del: of_nat_add)
    then show ?thesis unfolding e using False assms by simp
  qed
qed

lemma store_ramfb_cfg_fields:
  "bswap64 (load64 (store_ramfb_cfg cfg buf m) cfg) = buf"
  "bswap32 (load32 (store_ramfb_cfg cfg buf m) (cfg + 8)) = RAMFB_FORMAT_XRGB8888"
  "bswap32 (load32 (store_ramfb_cfg cfg buf m) (cfg + 16)) = RAMFB_WIDTH"
  "bswap32 (load32 (store_ramfb_cfg cfg buf m) (cfg + 20)) = RAMFB_HEIGHT"
  "bswap32 (load32 (store_ramfb_cfg cfg buf m) (cfg + 24)) = RAMFB_WIDTH * RAMFB_BPP"
proof -
  have g32: "load32 (store32 (cfg + of_nat k) v m) (cfg + of_nat j) = load32 m (cfg + of_nat j)"
    if "j + 4 \<le> k \<or> k + 4 \<le> j" "j + 4 < 2 ^ 32" "k + 4 < 2 ^ 32" for j k v m
    using load_store_gap [of j 4 k "word_bytes 4 v" cfg m] that by (simp add: load32_def store32_def)
  have g64: "load64 (store32 (cfg + of_nat k) v m) cfg = load64 m cfg" if "8 \<le> k" "k + 4 < 2 ^ 32" for k v m
    using load_store_gap [of 0 8 k "word_bytes 4 v" cfg m] that by (simp add: load64_def store32_def)
  note offs = g64 [of 8, simplified] g64 [of 12, simplified] g64 [of 16, simplified] g64 [of 20, simplified] g64 [of 24, simplified]
    g32 [of 8 12, simplified] g32 [of 8 16, simplified] g32 [of 8 20, simplified] g32 [of 8 24, simplified]
    g32 [of 16 20, simplified] g32 [of 16 24, simplified] g32 [of 20 24, simplified]
  show "bswap64 (load64 (store_ramfb_cfg cfg buf m) cfg) = buf"
    "bswap32 (load32 (store_ramfb_cfg cfg buf m) (cfg + 8)) = RAMFB_FORMAT_XRGB8888"
    "bswap32 (load32 (store_ramfb_cfg cfg buf m) (cfg + 16)) = RAMFB_WIDTH"
    "bswap32 (load32 (store_ramfb_cfg cfg buf m) (cfg + 20)) = RAMFB_HEIGHT"
    "bswap32 (load32 (store_ramfb_cfg cfg buf m) (cfg + 24)) = RAMFB_WIDTH * RAMFB_BPP"
    unfolding store_ramfb_cfg_def Let_def by (simp_all add: offs)
qed

section \<open>The firmware directory\<close>

record fw_file =
  fwf_size :: u32
  fwf_select :: u16
  fwf_name :: "u8 list"

definition be_bytes :: "nat \<Rightarrow> 'a::len word \<Rightarrow> u8 list" where
  "be_bytes n w = rev (word_bytes n w)"

definition fw_entry :: "fw_file \<Rightarrow> u8 list" where
  "fw_entry f = be_bytes 4 (fwf_size f) @ be_bytes 2 (fwf_select f) @ [0, 0] @ fwf_name f @ replicate (56 - length (fwf_name f)) 0"

definition fw_dir :: "fw_file list \<Rightarrow> u8 list" where
  "fw_dir fs = be_bytes 4 (of_nat (length fs) :: u32) @ concat (map fw_entry fs)"

definition fw_file_ok :: "fw_file \<Rightarrow> bool" where
  "fw_file_ok f \<longleftrightarrow> length (fwf_name f) < 56 \<and> 0 \<notin> set (fwf_name f)"

text \<open>How many data bytes have been read since a selector was last written.\<close>

fun data_pos :: "a64_reg io_event list \<Rightarrow> nat \<Rightarrow> nat" where
  "data_pos [] n = n"
| "data_pos (Out r v # es) n = data_pos es (if r = Mmio FW_CFG_SELECTOR then 0 else n)"
| "data_pos (In r v # es) n = data_pos es (if r = Mmio FW_CFG_DATA then Suc n else n)"

lemma data_pos_append: "data_pos (xs @ ys) n = data_pos ys (data_pos xs n)"
  by (induction xs n rule: data_pos.induct) simp_all

text \<open>What the driver relies on: after the directory has been selected, reads of the data register deliver
  it byte by byte, and a DMA request has completed without an error by the time it is polled.\<close>

definition fw_cfg_device :: "fw_file list \<Rightarrow> u64 \<Rightarrow> (a64_reg io_event list \<Rightarrow> a64_reg \<Rightarrow> u64) \<Rightarrow> bool" where
  "fw_cfg_device fs access dev \<longleftrightarrow>
     (\<forall>log. Out (Mmio FW_CFG_SELECTOR) (ucast (bswap16 FW_CFG_FILE_DIR)) \<in> set log \<and> data_pos log 0 < length (fw_dir fs)
        \<longrightarrow> dev log (Mmio FW_CFG_DATA) = ucast (fw_dir fs ! data_pos log 0))
     \<and> (\<forall>log v. dev (log @ [Out (Mmio FW_CFG_DMA_ADDR) v]) (Mmio access) = 0)"

definition selected :: "a64_reg iobus \<Rightarrow> bool" where
  "selected b \<longleftrightarrow> Out (Mmio FW_CFG_SELECTOR) (ucast (bswap16 FW_CFG_FILE_DIR)) \<in> set (io_log b)"

lemma byte_round: "ucast (ucast (x :: u8) :: u64) = x"
  by (rule bit_word_eqI) (simp add: bit_simps)

lemma fw_read_dir:
  assumes "fw_cfg_device fs access (io_dev b)" "selected b" "data_pos (io_log b) 0 + n \<le> length (fw_dir fs)"
  shows "\<exists>b'. fw_read n b = (take n (drop (data_pos (io_log b) 0) (fw_dir fs)), b') \<and> selected b' \<and> io_dev b' = io_dev b
    \<and> data_pos (io_log b') 0 = data_pos (io_log b) 0 + n"
  using assms
proof (induction n arbitrary: b)
  case (Suc n)
  let ?p = "data_pos (io_log b) 0" and ?v = "io_dev b (io_log b) (Mmio FW_CFG_DATA)"
  define c where "c = b\<lparr>io_log := io_log b @ [In (Mmio FW_CFG_DATA) ?v]\<rparr>"
  have lt: "?p < length (fw_dir fs)" using Suc.prems(3) by simp
  have v: "?v = ucast (fw_dir fs ! ?p)" using Suc.prems(1,2) lt by (simp add: fw_cfg_device_def selected_def)
  have r: "fw_cfg_read_byte b = (fw_dir fs ! ?p, c)"
    using v byte_round [of "fw_dir fs ! ?p"] by (simp add: fw_cfg_read_byte_def mmio_read8_def io_in_def c_def Let_def)
  have c: "io_dev c = io_dev b" "selected c" "data_pos (io_log c) 0 = Suc ?p"
    using Suc.prems(2) by (simp_all add: c_def selected_def data_pos_append)
  obtain b' where b': "fw_read n c = (take n (drop (Suc ?p) (fw_dir fs)), b')" "selected b'" "io_dev b' = io_dev b"
      "data_pos (io_log b') 0 = Suc ?p + n"
    using Suc.IH [of c] Suc.prems c by auto
  have "take (Suc n) (drop ?p (fw_dir fs)) = fw_dir fs ! ?p # take n (drop (Suc ?p) (fw_dir fs))"
    using lt by (simp add: Cons_nth_drop_Suc [symmetric])
  then show ?case using r b' by simp
qed auto

lemma str_eq_fb_eq:
  assumes "0 \<notin> set a" "0 \<notin> set b"
  shows "str_eq_fb (a @ 0 # r) (b @ [0]) = Some (a = b)"
  using assms
proof (induction a arbitrary: b)
  case Nil then show ?case by (cases b) auto
next
  case (Cons x a) then show ?case by (cases b) auto
qed

lemma length_fw_entry: "fw_file_ok f \<Longrightarrow> length (fw_entry f) = 64"
  by (simp add: fw_entry_def fw_file_ok_def be_bytes_def)

lemma fw_entry_parts:
  assumes "fw_file_ok f"
  shows "push_bit 8 (ucast (fw_entry f ! 4)) OR ucast (fw_entry f ! 5) = fwf_select f"
    "\<exists>r. drop 8 (fw_entry f) = fwf_name f @ 0 # r"
proof -
  have l: "length (be_bytes n w) = n" for n and w :: "'a::len word" by (simp add: be_bytes_def)
  have "fw_entry f ! 4 = be_bytes 2 (fwf_select f) ! 0" "fw_entry f ! 5 = be_bytes 2 (fwf_select f) ! 1"
    by (simp_all add: fw_entry_def nth_append l)
  then have "fw_entry f ! 4 = ucast (drop_bit 8 (fwf_select f))" "fw_entry f ! 5 = ucast (fwf_select f)"
    by (simp_all add: be_bytes_def word_bytes_def numeral_2_eq_2)
  then show "push_bit 8 (ucast (fw_entry f ! 4)) OR ucast (fw_entry f ! 5) = fwf_select f"
    by (intro bit_word_eqI) (auto simp: bit_simps)
  have "drop 8 (fw_entry f) = fwf_name f @ replicate (56 - length (fwf_name f)) 0"
    by (simp add: fw_entry_def l)
  moreover have "56 - length (fwf_name f) = Suc (55 - length (fwf_name f))" using assms unfolding fw_file_ok_def by arith
  ultimately show "\<exists>r. drop 8 (fw_entry f) = fwf_name f @ 0 # r" by auto
qed

text \<open>The selector of the first file with a name, or 0.\<close>

definition selector_of :: "fw_file list \<Rightarrow> u8 list \<Rightarrow> u16" where
  "selector_of fs name = (case find (\<lambda>f. fwf_name f = name) fs of None \<Rightarrow> 0 | Some f \<Rightarrow> fwf_select f)"

lemma find_loop_dir:
  assumes "fw_cfg_device fs access (io_dev b)" "selected b" "list_all fw_file_ok gs" "0 \<notin> set name"
    "drop (data_pos (io_log b) 0) (fw_dir fs) = concat (map fw_entry gs)"
  shows "\<exists>b'. find_loop (length gs) (name @ [0]) b = Some (selector_of gs name, b') \<and> io_dev b' = io_dev b"
  using assms
proof (induction gs arbitrary: b)
  case Nil then show ?case by (simp add: selector_of_def)
next
  case (Cons g gs)
  let ?p = "data_pos (io_log b) 0"
  have g: "fw_file_ok g" using Cons.prems(3) by simp
  have d: "drop ?p (fw_dir fs) = fw_entry g @ concat (map fw_entry gs)" using Cons.prems(5) by simp
  have "length (drop ?p (fw_dir fs)) \<ge> 64" unfolding d using length_fw_entry [OF g] by simp
  then have len: "?p + 64 \<le> length (fw_dir fs)" by simp
  obtain b' where b': "fw_read 64 b = (take 64 (drop ?p (fw_dir fs)), b')" "selected b'" "io_dev b' = io_dev b"
      "data_pos (io_log b') 0 = ?p + 64"
    using fw_read_dir [OF Cons.prems(1,2) len] by blast
  have t: "take 64 (drop ?p (fw_dir fs)) = fw_entry g" unfolding d using length_fw_entry [OF g] by simp
  have "drop (?p + 64) (fw_dir fs) = drop 64 (drop ?p (fw_dir fs))" by (simp add: add.commute)
  then have rest: "drop (data_pos (io_log b') 0) (fw_dir fs) = concat (map fw_entry gs)"
    unfolding b'(4) d using length_fw_entry [OF g] by simp
  obtain r where r: "drop 8 (fw_entry g) = fwf_name g @ 0 # r" using fw_entry_parts(2) [OF g] by blast
  have eq: "str_eq_fb (drop 8 (fw_entry g)) (name @ [0]) = Some (fwf_name g = name)"
    unfolding r using g Cons.prems(4) by (intro str_eq_fb_eq) (simp_all add: fw_file_ok_def)
  obtain b'' where "find_loop (length gs) (name @ [0]) b' = Some (selector_of gs name, b'')" "io_dev b'' = io_dev b"
    using Cons.IH [of b'] Cons.prems(1,3,4) b'(2,3) rest by auto
  then show ?case using b'(1,3) t eq fw_entry_parts(1) [OF g] by (simp add: selector_of_def Let_def)
qed

lemma find_file_dir:
  assumes "fw_cfg_device fs access (io_dev b)" "list_all fw_file_ok fs" "0 \<notin> set name" "length fs < 2 ^ 32"
  shows "\<exists>b'. fw_cfg_find_file (name @ [0]) b = Some (selector_of fs name, b') \<and> io_dev b' = io_dev b"
proof -
  define c where "c = fw_cfg_select FW_CFG_FILE_DIR b"
  have c: "selected c" "data_pos (io_log c) 0 = 0" "io_dev c = io_dev b"
    by (simp_all add: c_def selected_def fw_cfg_select_def io_out_def data_pos_append)
  have len: "data_pos (io_log c) 0 + 4 \<le> length (fw_dir fs)" by (simp add: c(2) fw_dir_def be_bytes_def)
  obtain b' where b': "fw_read 4 c = (take 4 (fw_dir fs), b')" "selected b'" "io_dev b' = io_dev b" "data_pos (io_log b') 0 = 4"
    using fw_read_dir [OF _ c(1) len] assms(1) c by auto
  have t: "take 4 (fw_dir fs) = be_bytes 4 (of_nat (length fs) :: u32)" "drop 4 (fw_dir fs) = concat (map fw_entry fs)"
    by (simp_all add: fw_dir_def be_bytes_def)
  have "fold (\<lambda>x c. push_bit 8 c OR ucast x) (be_bytes 4 w) (0 :: u32) = w" for w :: u32
    using bytes_word_bytes [of 4 w] by (simp add: be_bytes_def bytes_word_def foldr_conv_fold or.commute)
  then have count: "unat (fold (\<lambda>x c. push_bit 8 c OR ucast x) (take 4 (fw_dir fs)) (0 :: u32)) = length fs"
    unfolding t using assms(4) by (simp add: unat_of_nat_eq)
  obtain b'' where "find_loop (length fs) (name @ [0]) b' = Some (selector_of fs name, b'')" "io_dev b'' = io_dev b"
    using find_loop_dir [of fs access b' fs name] assms b' t(2) by auto
  then show ?thesis using b'(1) count by (simp add: fw_cfg_find_file_def c_def Let_def)
qed

section \<open>Initialisation\<close>

lemma dma_write_done:
  assumes "fw_cfg_device fs access (io_dev b)"
  shows "\<exists>b'. fw_cfg_dma_write access sel data len b = Some (True, b') \<and> io_dev b' = io_dev b"
proof -
  define c where "c = io_out (Mmio (access + 8)) (bswap64 data) (mmio_write32 (access + 4) (bswap32 len)
      (mmio_write32 access (bswap32 (push_bit 16 (ucast sel) OR FW_CFG_DMA_CTL_SELECT OR FW_CFG_DMA_CTL_WRITE)) b))"
  let ?d = "io_out (Mmio FW_CFG_DMA_ADDR) (bswap64 access) c"
  have dev: "io_dev c = io_dev b" by (simp add: c_def mmio_write32_def)
  have "io_dev ?d (io_log ?d) (Mmio access) = 0"
    using assms dev by (simp add: fw_cfg_device_def io_out_def)
  then obtain b' where b': "mmio_read32 access ?d = (0, b')" "io_dev b' = io_dev b"
    using dev by (simp add: mmio_read32_def io_in_def Let_def)
  then have "dma_poll access ?d = Some (0, b')" by (subst dma_poll.simps) (simp add: Let_def)
  then show ?thesis using b'(2) by (simp add: fw_cfg_dma_write_def c_def Let_def)
qed

text \<open>A framebuffer in use: it occupies frames that were free before, its rows hold their pixels, and the
  description the device got is that of the framebuffer the drawing code uses.\<close>

definition ramfb_ready :: "u64 \<Rightarrow> ramfb \<Rightarrow> ramfb \<Rightarrow> bool" where
  "ramfb_ready cfg s s' \<longleftrightarrow>
     (let fb = rf_fb s'; m = rf_mem s'
      in fbs_present fb
       \<and> (\<forall>a. unat (fbs_addr fb) \<le> a \<and> a < unat (fbs_addr fb) + unat (fbs_pitch fb) * unat (fbs_height fb)
            \<longrightarrow> a div 4096 \<in> free_set (rf_pmm s) - free_set (rf_pmm s'))
       \<and> 4 * unat (fbs_width fb) \<le> unat (fbs_pitch fb)
       \<and> bswap64 (load64 m cfg) = fbs_addr fb \<and> bswap32 (load32 m (cfg + 8)) = RAMFB_FORMAT_XRGB8888
       \<and> bswap32 (load32 m (cfg + 16)) = fbs_width fb \<and> bswap32 (load32 m (cfg + 20)) = fbs_height fb
       \<and> bswap32 (load32 m (cfg + 24)) = fbs_pitch fb)"

text \<open>Property C37. The aarch64 framebuffer is set up consistently: with a fw_cfg device that lists a
  \<open>etc/ramfb\<close> file and enough contiguous free frames, \<open>fb_init\<close> succeeds; the framebuffer lies wholly in
  frames that were free and no longer are, its rows hold their pixels, and the big-endian description
  handed to the device names exactly the address, width, height, stride and pixel format that the
  drawing code will use. Without such a file nothing but the device bus changes.\<close>

theorem ramfb_set_up:
  assumes dev: "fw_cfg_device fs access (io_dev (rf_bus s))" "list_all fw_file_ok fs" "length fs < 2 ^ 32"
    and p: "pmm_ok (rf_pmm s)" "run_at (rf_pmm s) n 469"
  shows "if selector_of fs etc_ramfb = 0 then \<exists>b. fb_init_a64 access cfg s = Some (s\<lparr>rf_bus := b\<rparr>)
     else \<exists>s'. fb_init_a64 access cfg s = Some s' \<and> ramfb_ready cfg s s'"
proof -
  have z: "0 \<notin> set etc_ramfb" by (simp add: etc_ramfb_def)
  obtain b where b: "fw_cfg_find_file (etc_ramfb @ [0]) (rf_bus s) = Some (selector_of fs etc_ramfb, b)" "io_dev b = io_dev (rf_bus s)"
    using find_file_dir [OF dev(1,2) z dev(3)] by blast
  have inv: "pmm_inv (rf_pmm s)" using p(1) by (simp add: pmm_ok_def)
  have c: "unat (469 :: u64) = 469" "(469 :: u64) \<noteq> 0" by simp_all
  obtain k p' where k: "run_at (rf_pmm s) k 469" "pmm_alloc_frames 469 (rf_pmm s) = (of_nat k * 4096, p')"
      "free_set p' = free_set (rf_pmm s) - {k..<k + 469}"
    using pmm_alloc_frames_cases [OF inv c(2)] p(2) unfolding c by metis
  note m = run_at_bound [OF k(1)]
  have u: "unat (of_nat k * 4096 :: u64) = k * 4096" using unat_of_free(3) inv m(2) by (auto simp: pmm_inv_def)
  have "0 < k" using m(2) p(1) by (cases k) (auto simp: pmm_ok_def)
  then have nz: "(of_nat k * 4096 :: u64) \<noteq> 0" using u by (auto simp: word_unat_eq_iff)
  obtain b' where b': "fw_cfg_dma_write access (selector_of fs etc_ramfb) cfg 28 b = Some (True, b')"
    using dma_write_done [of fs access b "selector_of fs etc_ramfb" cfg 28] dev(1) b(2) by auto
  let ?s = "s\<lparr>rf_bus := b', rf_pmm := p', rf_mem := store_ramfb_cfg cfg (of_nat k * 4096) (rf_mem s),
      rf_fb := \<lparr>fbs_present = True, fbs_addr = of_nat k * 4096, fbs_pitch = RAMFB_WIDTH * RAMFB_BPP,
        fbs_width = RAMFB_WIDTH, fbs_height = RAMFB_HEIGHT\<rparr>\<rparr>"
  have frames: "(ucast RAMFB_WIDTH * ucast RAMFB_HEIGHT * ucast RAMFB_BPP + PMM_FRAME_SIZE - 1) div PMM_FRAME_SIZE = (469 :: u64)"
    by (simp add: RAMFB_WIDTH_def RAMFB_HEIGHT_def RAMFB_BPP_def PMM_FRAME_SIZE_def)
  have "fb_init_a64 access cfg s = (if selector_of fs etc_ramfb = 0 then Some (s\<lparr>rf_bus := b\<rparr>) else Some ?s)"
    unfolding fb_init_a64_def Let_def frames using b(1) k(2) nz b' by simp
  moreover have "ramfb_ready cfg s ?s"
  proof -
    have "a div 4096 \<in> free_set (rf_pmm s) - free_set p'" if "k * 4096 \<le> a" "a < k * 4096 + 1920000" for a
    proof -
      have "k \<le> a div 4096" "a div 4096 < k + 469" using that by (simp_all add: div_less_iff_less_mult less_eq_div_iff_mult_less_eq)
      then show ?thesis using k(3) run_at_member [OF k(1)] by auto
    qed
    then show ?thesis
      unfolding ramfb_ready_def Let_def using u by (simp add: store_ramfb_cfg_fields) (simp add: RAMFB_WIDTH_def RAMFB_HEIGHT_def RAMFB_BPP_def)
  qed
  ultimately show ?thesis by (cases "selector_of fs etc_ramfb = 0") auto
qed

text \<open>A concrete device with two files, and two megabytes of free memory.\<close>

definition demo_files :: "fw_file list" where
  "demo_files = [\<lparr>fwf_size = 4, fwf_select = 0x20, fwf_name = [0x61]\<rparr>, \<lparr>fwf_size = 28, fwf_select = 0x21, fwf_name = etc_ramfb\<rparr>]"

definition demo_fw_dev :: "a64_reg io_event list \<Rightarrow> a64_reg \<Rightarrow> u64" where
  "demo_fw_dev log r = (if r = Mmio FW_CFG_DATA then ucast (fw_dir demo_files ! data_pos log 0) else 0)"

definition demo_ramfb :: ramfb where
  "demo_ramfb = \<lparr>rf_bus = \<lparr>io_log = [], io_dev = demo_fw_dev\<rparr>, rf_mem = (\<lambda>_. 0),
     rf_pmm = pmm_init [\<lparr>region_base = 0x100000, region_length = 0x200000\<rparr>] 0x0 0x1000,
     rf_fb = \<lparr>fbs_present = False, fbs_addr = 0, fbs_pitch = 0, fbs_width = 0, fbs_height = 0\<rparr>\<rparr>"

lemma demo_ramfb_pmm: "free_set (rf_pmm demo_ramfb) = {256..<768}" "pmm_ok (rf_pmm demo_ramfb)"
proof -
  have e: "bitmap_end [\<lparr>region_base = 0x100000, region_length = 0x200000\<rparr>] 0x1000 = 0x1060"
    by (simp add: bitmap_end_def ALIGN_UP_def highest_address_def PMM_FRAME_SIZE_def)
  show f: "free_set (rf_pmm demo_ramfb) = {256..<768}"
    by (simp add: demo_ramfb_def pmm_init_spec usable_frames_def frames_of_def highest_address_def e) auto
  show "pmm_ok (rf_pmm demo_ramfb)" using f unfolding pmm_ok_def by (simp add: demo_ramfb_def pmm_init_spec)
qed

theorem ramfb_set_up_witness:
  "\<exists>s'. fb_init_a64 0x40090000 0x40095000 demo_ramfb = Some s' \<and> ramfb_ready 0x40095000 demo_ramfb s'"
proof -
  have d: "fw_cfg_device demo_files 0x40090000 (io_dev (rf_bus demo_ramfb))"
    by (simp add: fw_cfg_device_def demo_ramfb_def demo_fw_dev_def fw_regs)
  have f: "list_all fw_file_ok demo_files" "length demo_files < 2 ^ 32" "selector_of demo_files etc_ramfb \<noteq> 0"
    by (simp_all add: demo_files_def fw_file_ok_def etc_ramfb_def selector_of_def)
  have r: "run_at (rf_pmm demo_ramfb) 256 469" by (simp add: run_at_def demo_ramfb_pmm)
  show ?thesis using ramfb_set_up [OF d f(1,2) demo_ramfb_pmm(2) r, of "0x40095000"] f(3) by simp
qed

end
