(* ===== verification/Virtio.thy ===== *)
theory Virtio
  imports Mem Heap Ports
begin

text \<open>
  The virtio-mmio transport, \<^verbatim>\<open>arch/aarch64/drivers/virtio.c\<close>: probing a device, its one split virtqueue, and
  the two ways of using it. The queue lives in memory that the device reads and writes on its own. That
  activity is an argument: \<open>vs_dma t log m\<close> is the memory after the device has acted on \<open>m\<close>, at the driver's
  \<open>t\<close>-th look at the used ring, after the register accesses \<open>log\<close>. A busy-wait that the device never
  answers is \<open>None\<close>. The busy-wait reads the used index again in every round, as if the C pointer to it were
  volatile; it is not, and a compiler may read it once.
\<close>

section \<open>Constants\<close>

definition VIRTIO_DEV_BLOCK :: u32 where "VIRTIO_DEV_BLOCK = 2"
definition VIRTIO_DEV_INPUT :: u32 where "VIRTIO_DEV_INPUT = 18"
definition VIRTQ_DESC_F_NEXT :: u16 where "VIRTQ_DESC_F_NEXT = 1"
definition VIRTQ_DESC_F_WRITE :: u16 where "VIRTQ_DESC_F_WRITE = 2"
definition VIRTIO_MMIO_BASE0 :: u64 where "VIRTIO_MMIO_BASE0 = 0x0a000000"
definition VIRTIO_MMIO_STRIDE :: u64 where "VIRTIO_MMIO_STRIDE = 0x200"
definition VIRTIO_MMIO_SLOTS :: nat where "VIRTIO_MMIO_SLOTS = 32"
definition VIRTIO_MMIO_MAGIC_VALUE :: u32 where "VIRTIO_MMIO_MAGIC_VALUE = 0x000"
definition VIRTIO_MMIO_VERSION :: u32 where "VIRTIO_MMIO_VERSION = 0x004"
definition VIRTIO_MMIO_DEVICE_ID :: u32 where "VIRTIO_MMIO_DEVICE_ID = 0x008"
definition VIRTIO_MMIO_DRIVER_FEATURES :: u32 where "VIRTIO_MMIO_DRIVER_FEATURES = 0x020"
definition VIRTIO_MMIO_DRIVER_FEATURES_SEL :: u32 where "VIRTIO_MMIO_DRIVER_FEATURES_SEL = 0x024"
definition VIRTIO_MMIO_QUEUE_SEL :: u32 where "VIRTIO_MMIO_QUEUE_SEL = 0x030"
definition VIRTIO_MMIO_QUEUE_NUM_MAX :: u32 where "VIRTIO_MMIO_QUEUE_NUM_MAX = 0x034"
definition VIRTIO_MMIO_QUEUE_NUM :: u32 where "VIRTIO_MMIO_QUEUE_NUM = 0x038"
definition VIRTIO_MMIO_QUEUE_READY :: u32 where "VIRTIO_MMIO_QUEUE_READY = 0x044"
definition VIRTIO_MMIO_QUEUE_NOTIFY :: u32 where "VIRTIO_MMIO_QUEUE_NOTIFY = 0x050"
definition VIRTIO_MMIO_STATUS :: u32 where "VIRTIO_MMIO_STATUS = 0x070"
definition VIRTIO_MMIO_QUEUE_DESC_LOW :: u32 where "VIRTIO_MMIO_QUEUE_DESC_LOW = 0x080"
definition VIRTIO_MMIO_QUEUE_DESC_HIGH :: u32 where "VIRTIO_MMIO_QUEUE_DESC_HIGH = 0x084"
definition VIRTIO_MMIO_QUEUE_AVAIL_LOW :: u32 where "VIRTIO_MMIO_QUEUE_AVAIL_LOW = 0x090"
definition VIRTIO_MMIO_QUEUE_AVAIL_HIGH :: u32 where "VIRTIO_MMIO_QUEUE_AVAIL_HIGH = 0x094"
definition VIRTIO_MMIO_QUEUE_USED_LOW :: u32 where "VIRTIO_MMIO_QUEUE_USED_LOW = 0x0a0"
definition VIRTIO_MMIO_QUEUE_USED_HIGH :: u32 where "VIRTIO_MMIO_QUEUE_USED_HIGH = 0x0a4"
definition VIRTIO_MMIO_CONFIG :: u32 where "VIRTIO_MMIO_CONFIG = 0x100"
definition VIRTIO_MAGIC :: u32 where "VIRTIO_MAGIC = 0x74726976"
definition VIRTIO_STATUS_ACKNOWLEDGE :: u32 where "VIRTIO_STATUS_ACKNOWLEDGE = 1"
definition VIRTIO_STATUS_DRIVER :: u32 where "VIRTIO_STATUS_DRIVER = 2"
definition VIRTIO_STATUS_DRIVER_OK :: u32 where "VIRTIO_STATUS_DRIVER_OK = 4"
definition VIRTIO_STATUS_FEATURES_OK :: u32 where "VIRTIO_STATUS_FEATURES_OK = 8"
definition QUEUE_SIZE :: u16 where "QUEUE_SIZE = 8"

lemmas virtio_regs = VIRTIO_MMIO_MAGIC_VALUE_def VIRTIO_MMIO_VERSION_def VIRTIO_MMIO_DEVICE_ID_def VIRTIO_MMIO_DRIVER_FEATURES_def
  VIRTIO_MMIO_DRIVER_FEATURES_SEL_def VIRTIO_MMIO_QUEUE_SEL_def VIRTIO_MMIO_QUEUE_NUM_MAX_def VIRTIO_MMIO_QUEUE_NUM_def
  VIRTIO_MMIO_QUEUE_READY_def VIRTIO_MMIO_QUEUE_NOTIFY_def VIRTIO_MMIO_STATUS_def VIRTIO_MMIO_QUEUE_DESC_LOW_def
  VIRTIO_MMIO_QUEUE_DESC_HIGH_def VIRTIO_MMIO_QUEUE_AVAIL_LOW_def VIRTIO_MMIO_QUEUE_AVAIL_HIGH_def
  VIRTIO_MMIO_QUEUE_USED_LOW_def VIRTIO_MMIO_QUEUE_USED_HIGH_def VIRTIO_MMIO_CONFIG_def

section \<open>State\<close>

record virtq_desc =
  vd_addr :: u64
  vd_len :: u32
  vd_flags :: u16
  vd_next :: u16

record virtio_device =
  mmio_base :: u64
  queue_size :: u16
  vq_desc :: u64
  vq_avail :: u64
  vq_used :: u64
  next_desc :: u16
  used_seen :: u16

record vsys =
  vs_bus :: "a64_reg iobus"
  vs_mem :: mem
  vs_heap :: heap
  vs_time :: nat
  vs_dma :: "nat \<Rightarrow> a64_reg io_event list \<Rightarrow> mem \<Rightarrow> mem"

definition vs_alloc :: "('x) vsys_scheme \<Rightarrow> physaddr \<times> ('x) vsys_scheme" where
  "vs_alloc s = (let (a, p) = pmm_alloc_frame (heap_pmm (vs_heap s)) in (a, s\<lparr>vs_heap := (vs_heap s)\<lparr>heap_pmm := p\<rparr>\<rparr>))"

definition vs_kmalloc :: "usize \<Rightarrow> ('x) vsys_scheme \<Rightarrow> (u64 \<times> ('x) vsys_scheme) option" where
  "vs_kmalloc n s = do { (p, h) \<leftarrow> kmalloc n (vs_heap s); Some (p, s\<lparr>vs_heap := h\<rparr>) }"

definition mmio_read :: "u64 \<Rightarrow> u32 \<Rightarrow> ('x) vsys_scheme \<Rightarrow> u32 \<times> ('x) vsys_scheme" where
  "mmio_read base off s = (let (v, b) = mmio_read32 (base + ucast off) (vs_bus s) in (v, s\<lparr>vs_bus := b\<rparr>))"

definition mmio_write :: "u64 \<Rightarrow> u32 \<Rightarrow> u32 \<Rightarrow> ('x) vsys_scheme \<Rightarrow> ('x) vsys_scheme" where
  "mmio_write base off v s = s\<lparr>vs_bus := mmio_write32 (base + ucast off) v (vs_bus s)\<rparr>"

definition avail_idx :: "virtio_device \<Rightarrow> u64" where "avail_idx d = vq_avail d + 2"
definition avail_ring :: "virtio_device \<Rightarrow> u64" where "avail_ring d = vq_avail d + 4"
definition used_idx :: "virtio_device \<Rightarrow> u64" where "used_idx d = vq_used d + 2"
definition used_ring :: "virtio_device \<Rightarrow> u64" where "used_ring d = vq_used d + 4"

section \<open>Probing\<close>

text \<open>The slots \<open>i, \<dots>, i + n - 1\<close>; the result 0 is \<open>NULL\<close>.\<close>

primrec slot_scan :: "nat \<Rightarrow> nat \<Rightarrow> u32 \<Rightarrow> u32 \<Rightarrow> u32 \<Rightarrow> ('x) vsys_scheme \<Rightarrow> u64 \<times> ('x) vsys_scheme" where
  "slot_scan 0 i seen device_id index s = (0, s)"
| "slot_scan (Suc n) i seen device_id index s =
     (let candidate = VIRTIO_MMIO_BASE0 + of_nat i * VIRTIO_MMIO_STRIDE;
          (magic, s) = mmio_read candidate VIRTIO_MMIO_MAGIC_VALUE s
      in if magic \<noteq> VIRTIO_MAGIC then slot_scan n (i + 1) seen device_id index s
         else
           let (did, s) = mmio_read candidate VIRTIO_MMIO_DEVICE_ID s
           in if did \<noteq> device_id then slot_scan n (i + 1) seen device_id index s
              else if seen = index then (candidate, s)
              else slot_scan n (i + 1) (seen + 1) device_id index s)"

definition find_slot :: "u32 \<Rightarrow> u32 \<Rightarrow> ('x) vsys_scheme \<Rightarrow> u64 \<times> ('x) vsys_scheme" where
  "find_slot device_id index s = slot_scan VIRTIO_MMIO_SLOTS 0 0 device_id index s"

definition clear_rings :: "u64 \<Rightarrow> u64 \<Rightarrow> u64 \<Rightarrow> mem \<Rightarrow> mem" where
  "clear_rings desc_p avail_p used_p m =
     fold (\<lambda>i m. ((m(desc_p + of_nat i := 0))(avail_p + of_nat i := 0))(used_p + of_nat i := 0)) [0..<4096] m"

text \<open>The status and feature handshake up to the question whether the device accepts the features.\<close>

definition negotiate :: "u64 \<Rightarrow> ('x) vsys_scheme \<Rightarrow> ('x) vsys_scheme" where
  "negotiate base s =
     (let s = mmio_write base VIRTIO_MMIO_STATUS 0 s;
          s = mmio_write base VIRTIO_MMIO_STATUS VIRTIO_STATUS_ACKNOWLEDGE s;
          s = mmio_write base VIRTIO_MMIO_STATUS (VIRTIO_STATUS_ACKNOWLEDGE OR VIRTIO_STATUS_DRIVER) s;
          s = mmio_write base VIRTIO_MMIO_DRIVER_FEATURES_SEL 0 s;
          s = mmio_write base VIRTIO_MMIO_DRIVER_FEATURES 0 s;
          s = mmio_write base VIRTIO_MMIO_DRIVER_FEATURES_SEL 1 s;
          s = mmio_write base VIRTIO_MMIO_DRIVER_FEATURES 1 s
      in mmio_write base VIRTIO_MMIO_STATUS (VIRTIO_STATUS_ACKNOWLEDGE OR VIRTIO_STATUS_DRIVER OR VIRTIO_STATUS_FEATURES_OK) s)"

definition announce_queue :: "u64 \<Rightarrow> u64 \<Rightarrow> u64 \<Rightarrow> u64 \<Rightarrow> ('x) vsys_scheme \<Rightarrow> ('x) vsys_scheme" where
  "announce_queue base desc_frame avail_frame used_frame s =
     (let s = mmio_write base VIRTIO_MMIO_QUEUE_DESC_LOW (ucast desc_frame) s;
          s = mmio_write base VIRTIO_MMIO_QUEUE_DESC_HIGH (ucast (drop_bit 32 desc_frame)) s;
          s = mmio_write base VIRTIO_MMIO_QUEUE_AVAIL_LOW (ucast avail_frame) s;
          s = mmio_write base VIRTIO_MMIO_QUEUE_AVAIL_HIGH (ucast (drop_bit 32 avail_frame)) s;
          s = mmio_write base VIRTIO_MMIO_QUEUE_USED_LOW (ucast used_frame) s;
          s = mmio_write base VIRTIO_MMIO_QUEUE_USED_HIGH (ucast (drop_bit 32 used_frame)) s;
          s = mmio_write base VIRTIO_MMIO_QUEUE_READY 1 s
      in mmio_write base VIRTIO_MMIO_STATUS (VIRTIO_STATUS_ACKNOWLEDGE OR VIRTIO_STATUS_DRIVER
           OR VIRTIO_STATUS_FEATURES_OK OR VIRTIO_STATUS_DRIVER_OK) s)"

text \<open>\<open>None\<close> is the result \<open>false\<close>, which leaves \<open>*dev\<close> alone.\<close>

definition virtio_mmio_probe_nth :: "u32 \<Rightarrow> u32 \<Rightarrow> ('x) vsys_scheme \<Rightarrow> virtio_device option \<times> ('x) vsys_scheme" where
  "virtio_mmio_probe_nth device_id index s =
     (let (base, s) = find_slot device_id index s
      in if base = 0 then (None, s)
         else let (version, s) = mmio_read base VIRTIO_MMIO_VERSION s
         in if version \<noteq> 2 then (None, s)
         else let s = negotiate base s; (status, s) = mmio_read base VIRTIO_MMIO_STATUS s
         in if status AND VIRTIO_STATUS_FEATURES_OK = 0 then (None, s)
         else let s = mmio_write base VIRTIO_MMIO_QUEUE_SEL 0 s; (qmax, s) = mmio_read base VIRTIO_MMIO_QUEUE_NUM_MAX s
         in if qmax < ucast QUEUE_SIZE then (None, s)
         else let s = mmio_write base VIRTIO_MMIO_QUEUE_NUM (ucast QUEUE_SIZE) s;
                  (desc_frame, s) = vs_alloc s;
                  (avail_frame, s) = vs_alloc s;
                  (used_frame, s) = vs_alloc s
         in if desc_frame = 0 \<or> avail_frame = 0 \<or> used_frame = 0 then (None, s)
         else let s = s\<lparr>vs_mem := clear_rings desc_frame avail_frame used_frame (vs_mem s)\<rparr>;
                  s = announce_queue base desc_frame avail_frame used_frame s
         in (Some \<lparr>mmio_base = base, queue_size = QUEUE_SIZE, vq_desc = desc_frame, vq_avail = avail_frame,
                   vq_used = used_frame, next_desc = 0, used_seen = 0\<rparr>, s))"

definition virtio_mmio_probe :: "u32 \<Rightarrow> ('x) vsys_scheme \<Rightarrow> virtio_device option \<times> ('x) vsys_scheme" where
  "virtio_mmio_probe device_id s = virtio_mmio_probe_nth device_id 0 s"

definition virtio_config_read8 :: "virtio_device \<Rightarrow> u32 \<Rightarrow> ('x) vsys_scheme \<Rightarrow> u8 \<times> ('x) vsys_scheme" where
  "virtio_config_read8 dev off s =
     (let (v, b) = mmio_read8 (mmio_base dev + ucast VIRTIO_MMIO_CONFIG + ucast off) (vs_bus s) in (v, s\<lparr>vs_bus := b\<rparr>))"

definition virtio_config_write8 :: "virtio_device \<Rightarrow> u32 \<Rightarrow> u8 \<Rightarrow> ('x) vsys_scheme \<Rightarrow> ('x) vsys_scheme" where
  "virtio_config_write8 dev off v s =
     s\<lparr>vs_bus := mmio_write8 (mmio_base dev + ucast VIRTIO_MMIO_CONFIG + ucast off) v (vs_bus s)\<rparr>"

section \<open>The virtqueue\<close>

definition publish :: "virtio_device \<Rightarrow> u16 \<Rightarrow> ('x) vsys_scheme \<Rightarrow> ('x) vsys_scheme" where
  "publish dev desc_index s =
     (let slot = load16 (vs_mem s) (avail_idx dev) mod queue_size dev;
          m = store16 (avail_ring dev + 2 * ucast slot) desc_index (vs_mem s);
          m = store16 (avail_idx dev) (load16 m (avail_idx dev) + 1) m
      in mmio_write (mmio_base dev) VIRTIO_MMIO_QUEUE_NOTIFY 0 (s\<lparr>vs_mem := m\<rparr>))"

definition store_desc :: "u64 \<Rightarrow> virtq_desc \<Rightarrow> mem \<Rightarrow> mem" where
  "store_desc p d m =
     (let m = store64 p (vd_addr d) m;
          m = store32 (p + 8) (vd_len d) m;
          m = store16 (p + 12) (vd_flags d) m
      in store16 (p + 14) (vd_next d) m)"

definition link_descs :: "virtio_device \<Rightarrow> virtq_desc list \<Rightarrow> mem \<Rightarrow> mem" where
  "link_descs dev descs m =
     fold (\<lambda>i. store_desc (vq_desc dev + 16 * of_nat i)
         ((descs ! i)\<lparr>vd_flags := vd_flags (descs ! i) OR (if i + 1 < length descs then VIRTQ_DESC_F_NEXT else 0),
                      vd_next := (if i + 1 < length descs then of_nat (i + 1) else 0)\<rparr>))
       [0..<length descs] m"

text \<open>The device acts, then the driver looks.\<close>

definition look :: "('x) vsys_scheme \<Rightarrow> ('x) vsys_scheme" where
  "look s = s\<lparr>vs_mem := vs_dma s (vs_time s) (io_log (vs_bus s)) (vs_mem s), vs_time := vs_time s + 1\<rparr>"

partial_function (option) wait_used :: "virtio_device \<Rightarrow> ('x) vsys_scheme \<Rightarrow> ('x) vsys_scheme option" where
  "wait_used dev s =
     (let s = look s
      in if load16 (vs_mem s) (used_idx dev) = used_seen dev then wait_used dev s else Some s)"

definition virtio_submit_and_wait :: "virtio_device \<Rightarrow> virtq_desc list \<Rightarrow> ('x) vsys_scheme \<Rightarrow> (u32 \<times> virtio_device \<times> ('x) vsys_scheme) option" where
  "virtio_submit_and_wait dev descs s =
     do {
       let s = s\<lparr>vs_mem := link_descs dev descs (vs_mem s)\<rparr>;
       let s = publish dev 0 s;
       s \<leftarrow> wait_used dev s;
       let len = load32 (vs_mem s) (used_ring dev + 8 * ucast (used_seen dev mod queue_size dev) + 4);
       Some (len, dev\<lparr>used_seen := used_seen dev + 1\<rparr>, s)
     }"

definition virtio_poll_used :: "virtio_device \<Rightarrow> ('x) vsys_scheme \<Rightarrow> (u16 \<times> u32) option \<times> virtio_device \<times> ('x) vsys_scheme" where
  "virtio_poll_used dev s =
     (let s = look s
      in if load16 (vs_mem s) (used_idx dev) = used_seen dev then (None, dev, s)
         else
           let p = used_ring dev + 8 * ucast (used_seen dev mod queue_size dev);
               id = load32 (vs_mem s) p;
               len = load32 (vs_mem s) (p + 4)
           in (Some (ucast id, len), dev\<lparr>used_seen := used_seen dev + 1\<rparr>, s))"

definition virtio_publish_avail :: "virtio_device \<Rightarrow> u16 \<Rightarrow> ('x) vsys_scheme \<Rightarrow> ('x) vsys_scheme" where
  "virtio_publish_avail dev desc_index s = publish dev desc_index s"

end
