(* ===== verification/Regions.thy ===== *)
theory Regions
  imports Mem
begin

text \<open>
  Framing for byte memory: when the bytes that an access touches avoid the bytes that a store wrote, the
  store is invisible to it. Regions are given by a base address and a length; addresses wrap.
\<close>

text \<open>The \<open>n\<close> bytes at \<open>b\<close> avoid the \<open>k\<close> bytes at \<open>a\<close>.\<close>

definition clear_of :: "u64 \<Rightarrow> nat \<Rightarrow> u64 \<Rightarrow> nat \<Rightarrow> bool" where
  "clear_of a k b n \<longleftrightarrow> (\<forall>i < n. k \<le> unat (b + of_nat i - a))"

lemma clear_of_load:
  "clear_of a (length bs) b n \<Longrightarrow> load_bytes n (store_bytes bs a m) b = load_bytes n m b"
  by (rule load_store_other) (simp add: clear_of_def)

lemma clear_of_sub:
  assumes "clear_of a k b n" "p + k' \<le> k" "q + n' \<le> n"
  shows "clear_of (a + of_nat p) k' (b + of_nat q) n'"
  unfolding clear_of_def
proof (intro allI impI)
  fix i assume i: "i < n'"
  then have d: "k \<le> unat (b + of_nat (q + i) - a)" using assms(1,3) by (simp add: clear_of_def del: of_nat_add)
  then have kb: "k < 2 ^ 64" using u64_lt [of "b + of_nat (q + i) - a"] by linarith
  then have p: "unat (of_nat p :: u64) = p" using assms(2) by (intro unat_of_nat_eq) simp
  have "b + of_nat q + of_nat i - (a + of_nat p) = (b + of_nat (q + i) - a) - of_nat p" by simp
  then have "unat (b + of_nat q + of_nat i - (a + of_nat p)) = unat (b + of_nat (q + i) - a) - p"
    using d assms(2) p by (simp only: unat_minus_simple)
  then show "k' \<le> unat (b + of_nat q + of_nat i - (a + of_nat p))" using d assms(2) by simp
qed

lemma clear_of_gap:
  assumes "j + n \<le> k \<or> k + l \<le> j" "j + n < 2 ^ 32" "k + l < 2 ^ 32"
  shows "clear_of (c + of_nat k) l (c + of_nat j) n"
  unfolding clear_of_def
proof (intro allI impI)
  fix i assume i: "i < n"
  have w: "unat (of_nat (j + i) :: u64) = j + i" "unat (of_nat k :: u64) = k"
    using assms i by (auto intro!: unat_of_nat_eq simp del: of_nat_add)
  have e: "c + of_nat j + of_nat i - (c + of_nat k) = (of_nat (j + i) - of_nat k :: u64)" by simp
  show "l \<le> unat (c + of_nat j + of_nat i - (c + of_nat k))"
  proof (cases "k \<le> j + i")
    case True
    then have "unat (of_nat (j + i) - of_nat k :: u64) = j + i - k" using w by (simp add: unat_minus_simple del: of_nat_add)
    then show ?thesis unfolding e using True assms(1) i by auto
  next
    case False
    then have "unat (of_nat (j + i) - of_nat k :: u64) = 2 ^ 64 + (j + i) - k"
      using w assms(3) by (subst unat_sub_if_size) (simp add: word_size word_le_nat_alt del: of_nat_add)
    then show ?thesis unfolding e using False assms by simp
  qed
qed

lemma clear_of_byte: "clear_of a k b n \<Longrightarrow> length bs \<le> k \<Longrightarrow> i < n \<Longrightarrow> store_bytes bs a m (b + of_nat i) = m (b + of_nat i)"
  by (fastforce simp: clear_of_def store_bytes_def)

text \<open>Two regions that are apart, in both directions.\<close>

definition apart :: "u64 \<Rightarrow> nat \<Rightarrow> u64 \<Rightarrow> nat \<Rightarrow> bool" where
  "apart a k b n \<longleftrightarrow> clear_of a k b n \<and> clear_of b n a k"

lemma apart_sym: "apart a k b n \<longleftrightarrow> apart b n a k"
  by (auto simp: apart_def)

lemma apart_sub:
  assumes "apart a k b n" "p + k' \<le> k" "q + n' \<le> n"
  shows "apart (a + of_nat p) k' (b + of_nat q) n'"
  using assms clear_of_sub [of a k b n p k' q n'] clear_of_sub [of b n a k q n' p k'] by (simp add: apart_def)

lemma apart_gap:
  assumes "j + n \<le> k \<or> k + l \<le> j" "j + n < 2 ^ 32" "k + l < 2 ^ 32"
  shows "apart (c + of_nat k) l (c + of_nat j) n"
  unfolding apart_def using clear_of_gap [OF assms] clear_of_gap [of k l j n c] assms by auto

section \<open>Loads of every width\<close>

lemma load_frame [simp]:
  "apart a 8 b 8 \<Longrightarrow> load64 (store64 a v64 m) b = load64 m b" "apart a 4 b 8 \<Longrightarrow> load64 (store32 a v32 m) b = load64 m b"
  "apart a 2 b 8 \<Longrightarrow> load64 (store16 a v16 m) b = load64 m b"
  "apart a 8 b 4 \<Longrightarrow> load32 (store64 a v64 m) b = load32 m b" "apart a 4 b 4 \<Longrightarrow> load32 (store32 a v32 m) b = load32 m b"
  "apart a 2 b 4 \<Longrightarrow> load32 (store16 a v16 m) b = load32 m b"
  "apart a 8 b 2 \<Longrightarrow> load16 (store64 a v64 m) b = load16 m b" "apart a 4 b 2 \<Longrightarrow> load16 (store32 a v32 m) b = load16 m b"
  "apart a 2 b 2 \<Longrightarrow> load16 (store16 a v16 m) b = load16 m b"
  unfolding load64_def load32_def load16_def store64_def store32_def store16_def apart_def
  by (subst clear_of_load; simp)+

lemma load_frame_bytes:
  assumes "apart a (length bs) b n"
  shows "n = 8 \<Longrightarrow> load64 (store_bytes bs a m) b = load64 m b" "n = 4 \<Longrightarrow> load32 (store_bytes bs a m) b = load32 m b"
    "n = 2 \<Longrightarrow> load16 (store_bytes bs a m) b = load16 m b" "load_bytes n (store_bytes bs a m) b = load_bytes n m b"
  using clear_of_load [of a bs b n m] assms by (auto simp: apart_def load64_def load32_def load16_def)

lemma bytes_frame:
  assumes "apart a k b n"
  shows "k = 8 \<Longrightarrow> load_bytes n (store64 a v64 m) b = load_bytes n m b" "k = 4 \<Longrightarrow> load_bytes n (store32 a v32 m) b = load_bytes n m b"
    "k = 2 \<Longrightarrow> load_bytes n (store16 a v16 m) b = load_bytes n m b"
  using assms by (auto simp: apart_def store64_def store32_def store16_def intro!: clear_of_load)

end
