(* ===== verification/Virtio_blk.thy ===== *)
theory Virtio_blk
  imports Virtio Regions
begin

text \<open>
  The read-only disk driver of the aarch64 kernel, \<^verbatim>\<open>arch/aarch64/drivers/virtio_blk.c\<close>, on the transport of
  theory Virtio, and what a virtio block device does with the request it finds in the queue.
\<close>

section \<open>The driver\<close>

definition VIRTIO_BLK_T_IN :: u32 where "VIRTIO_BLK_T_IN = 0"

record blk =
  disk_present :: bool
  blk_dev :: virtio_device
  req_hdr :: u64
  req_status :: u64

definition virtio_blk_init :: "blk \<Rightarrow> ('x) vsys_scheme \<Rightarrow> (blk \<times> ('x) vsys_scheme) option" where
  "virtio_blk_init b s =
     (case virtio_mmio_probe VIRTIO_DEV_BLOCK s of
        (None, s) \<Rightarrow> Some (b\<lparr>disk_present := False\<rparr>, s)
      | (Some dev, s) \<Rightarrow>
          do {
            (hdr, s) \<leftarrow> vs_kmalloc 16 s;
            (status, s) \<leftarrow> vs_kmalloc 1 s;
            Some (b\<lparr>disk_present := True, blk_dev := dev, req_hdr := hdr, req_status := status\<rparr>, s)
          })"

definition virtio_blk_available :: "blk \<Rightarrow> bool" where
  "virtio_blk_available b = disk_present b"

definition store_req_hdr :: "u64 \<Rightarrow> u32 \<Rightarrow> mem \<Rightarrow> mem" where
  "store_req_hdr hdr lba m =
     (let m = store32 hdr VIRTIO_BLK_T_IN m;
          m = store32 (hdr + 4) 0 m
      in store64 (hdr + 8) (ucast lba) m)"

definition virtio_blk_read_sector :: "blk \<Rightarrow> u32 \<Rightarrow> u64 \<Rightarrow> ('x) vsys_scheme \<Rightarrow> (bool \<times> blk \<times> ('x) vsys_scheme) option" where
  "virtio_blk_read_sector b lba buf s =
     (if \<not> disk_present b then Some (False, b, s)
      else
        let s = s\<lparr>vs_mem := store_req_hdr (req_hdr b) lba (vs_mem s)\<rparr>;
            descs = [\<lparr>vd_addr = req_hdr b, vd_len = 16, vd_flags = 0, vd_next = 0\<rparr>,
                     \<lparr>vd_addr = buf, vd_len = 512, vd_flags = VIRTQ_DESC_F_WRITE, vd_next = 0\<rparr>,
                     \<lparr>vd_addr = req_status b, vd_len = 1, vd_flags = VIRTQ_DESC_F_WRITE, vd_next = 0\<rparr>]
        in do {
             (len, dev, s) \<leftarrow> virtio_submit_and_wait (blk_dev b) descs s;
             Some (vs_mem s (req_status b) = 0, b\<lparr>blk_dev := dev\<rparr>, s)
           })"

section \<open>What a block device does\<close>

definition read_desc :: "mem \<Rightarrow> virtio_device \<Rightarrow> u16 \<Rightarrow> virtq_desc" where
  "read_desc m dev i =
     (let p = vq_desc dev + 16 * ucast i
      in \<lparr>vd_addr = load64 m p, vd_len = load32 m (p + 8), vd_flags = load16 m (p + 12), vd_next = load16 m (p + 14)\<rparr>)"

text \<open>It takes the head most recently published, follows the chain, checks that it is a read request, and
  then delivers the sector, a zero status byte and a used element.\<close>

definition blk_done :: "(u64 \<Rightarrow> u8 list) \<Rightarrow> virtio_device \<Rightarrow> mem \<Rightarrow> mem" where
  "blk_done D dev m =
     (let h = load16 m (avail_ring dev + 2 * ucast ((load16 m (avail_idx dev) - 1) mod queue_size dev));
          d0 = read_desc m dev h;
          d1 = read_desc m dev (vd_next d0);
          d2 = read_desc m dev (vd_next d1)
      in if vd_flags d0 = VIRTQ_DESC_F_NEXT \<and> vd_len d0 = 16 \<and> load32 m (vd_addr d0) = 0
            \<and> vd_flags d1 = VIRTQ_DESC_F_NEXT OR VIRTQ_DESC_F_WRITE \<and> vd_len d1 = 512
            \<and> vd_flags d2 = VIRTQ_DESC_F_WRITE \<and> vd_len d2 = 1
         then
           let u = load16 m (used_idx dev);
               p = used_ring dev + 8 * ucast (u mod queue_size dev);
               m = store_bytes (D (load64 m (vd_addr d0 + 8))) (vd_addr d1) m;
               m = store_bytes [0] (vd_addr d2) m;
               m = store32 p (ucast h) m;
               m = store32 (p + 4) 513 m
           in store16 (used_idx dev) (u + 1) m
         else m)"

text \<open>After a notification it completes the request within a finite number of looks.\<close>

definition blk_device :: "(u64 \<Rightarrow> u8 list) \<Rightarrow> virtio_device \<Rightarrow> (nat \<Rightarrow> a64_reg io_event list \<Rightarrow> mem \<Rightarrow> mem) \<Rightarrow> bool" where
  "blk_device D dev dma \<longleftrightarrow> (\<forall>l. length (D l) = 512) \<and>
     (\<forall>t log m. \<exists>n. (\<forall>k < n. dma (t + k) (log @ [Out (Mmio (mmio_base dev + 0x50)) 0]) m = m)
        \<and> dma (t + n) (log @ [Out (Mmio (mmio_base dev + 0x50)) 0]) m = blk_done D dev m)"

section \<open>The queue operations, region by region\<close>

lemma store_desc_frame:
  assumes "apart p 16 q n"
  shows "load_bytes n (store_desc p d m) q = load_bytes n m q"
proof -
  have "apart p 8 q n" "apart (p + 8) 4 q n" "apart (p + 12) 2 q n" "apart (p + 14) 2 q n"
    using apart_sub [OF assms, of 0 8 0 n] apart_sub [OF assms, of 8 4 0 n] apart_sub [OF assms, of 12 2 0 n]
      apart_sub [OF assms, of 14 2 0 n] by simp_all
  then show ?thesis by (simp add: store_desc_def Let_def bytes_frame)
qed

lemma read_store_desc:
  "load64 (store_desc p d m) p = vd_addr d" "load32 (store_desc p d m) (p + 8) = vd_len d"
  "load16 (store_desc p d m) (p + 12) = vd_flags d" "load16 (store_desc p d m) (p + 14) = vd_next d"
proof -
  have "apart (p + 8) 4 p 8" "apart (p + 12) 2 p 8" "apart (p + 14) 2 p 8" "apart (p + 12) 2 (p + 8) 4"
    "apart (p + 14) 2 (p + 8) 4" "apart (p + 14) 2 (p + 12) 2"
    using apart_gap [of 0 8 8 4 p] apart_gap [of 0 8 12 2 p] apart_gap [of 0 8 14 2 p] apart_gap [of 8 4 12 2 p]
      apart_gap [of 8 4 14 2 p] apart_gap [of 12 2 14 2 p] by simp_all
  then show "load64 (store_desc p d m) p = vd_addr d" "load32 (store_desc p d m) (p + 8) = vd_len d"
    "load16 (store_desc p d m) (p + 12) = vd_flags d" "load16 (store_desc p d m) (p + 14) = vd_next d"
    by (simp_all add: store_desc_def Let_def)
qed

text \<open>Two memories with the same descriptor hold the same descriptor.\<close>

lemma read_desc_cong:
  assumes "load_bytes 16 m' (vq_desc dev + 16 * ucast i) = load_bytes 16 m (vq_desc dev + 16 * ucast i)"
  shows "read_desc m' dev i = read_desc m dev i"
proof -
  let ?p = "vq_desc dev + 16 * ucast i"
  have part: "load_bytes n m (?p + of_nat q) = take n (drop q (load_bytes 16 m ?p))" if "q + n \<le> 16" for m n q
    using that by (intro nth_equalityI) (auto simp: load_bytes_def add.assoc)
  show ?thesis
    using part [of 0 8] part [of 8 4] part [of 12 2] part [of 14 2] assms
    by (simp add: read_desc_def Let_def load64_def load32_def load16_def)
qed

lemma link_descs_frame:
  assumes "apart (vq_desc dev) 4096 q n" "length descs \<le> 8"
  shows "load_bytes n (link_descs dev descs m) q = load_bytes n m q"
proof -
  have "apart (vq_desc dev + 16 * of_nat i) 16 q n" if "i < 8" for i
    using apart_sub [OF assms(1), of "16 * i" 16 0 n] that by simp
  then have "load_bytes n (fold (\<lambda>i. store_desc (vq_desc dev + 16 * of_nat i) (d i)) xs m) q = load_bytes n m q"
    if "set xs \<subseteq> {..<8}" for d xs m
    using that by (induction xs arbitrary: m) (simp_all add: store_desc_frame)
  then show ?thesis using assms(2) by (simp add: link_descs_def subset_iff)
qed

text \<open>The three-descriptor chain as the device reads it.\<close>

lemma link_descs_3:
  defines "m' \<equiv> \<lambda>dev a b c m. link_descs dev [a, b, c] m"
  shows "read_desc (m' dev a b c m) dev 0 = a\<lparr>vd_flags := vd_flags a OR VIRTQ_DESC_F_NEXT, vd_next := 1\<rparr>"
    "read_desc (m' dev a b c m) dev 1 = b\<lparr>vd_flags := vd_flags b OR VIRTQ_DESC_F_NEXT, vd_next := 2\<rparr>"
    "read_desc (m' dev a b c m) dev 2 = c\<lparr>vd_next := 0\<rparr>"
proof -
  let ?p = "vq_desc dev"
  let ?a = "a\<lparr>vd_flags := vd_flags a OR VIRTQ_DESC_F_NEXT, vd_next := 1\<rparr>" and ?b = "b\<lparr>vd_flags := vd_flags b OR VIRTQ_DESC_F_NEXT, vd_next := 2\<rparr>"
  have l: "m' dev a b c m = store_desc (?p + 32) (c\<lparr>vd_next := 0\<rparr>) (store_desc (?p + 16) ?b (store_desc ?p ?a m))"
    by (simp add: m'_def link_descs_def upt_rec numeral_2_eq_2)
  have r: "read_desc (store_desc (?p + 16 * ucast i) d m) dev i = d" for i d m
    by (simp add: read_desc_def read_store_desc Let_def)
  have f: "read_desc (store_desc (?p + 16 * ucast j) d m) dev i = read_desc m dev i"
    if "apart (?p + 16 * ucast j) 16 (?p + 16 * ucast i) 16" for i j :: u16 and d m
    by (rule read_desc_cong) (rule store_desc_frame [OF that])
  have ap: "apart (?p + 32) 16 ?p 16" "apart (?p + 16) 16 ?p 16" "apart (?p + 32) 16 (?p + 16) 16"
    using apart_gap [of 0 16 32 16 ?p] apart_gap [of 0 16 16 16 ?p] apart_gap [of 16 16 32 16 ?p] by simp_all
  show "read_desc (m' dev a b c m) dev 0 = ?a"
    unfolding l using f [of 2 0] f [of 1 0] r [of 0] ap by simp
  show "read_desc (m' dev a b c m) dev 1 = ?b"
    unfolding l using f [of 2 1] r [of 1] ap by simp
  show "read_desc (m' dev a b c m) dev 2 = c\<lparr>vd_next := 0\<rparr>"
    unfolding l using r [of 2] by simp
qed

definition published :: "virtio_device \<Rightarrow> u16 \<Rightarrow> mem \<Rightarrow> mem" where
  "published dev i m =
     store16 (avail_idx dev) (load16 m (avail_idx dev) + 1) (store16 (avail_ring dev + 2 * ucast (load16 m (avail_idx dev) mod queue_size dev)) i m)"

lemma slot_small:
  assumes "queue_size dev = 8"
  shows "unat (x mod queue_size dev) < 8"
  using assms by (simp add: unat_mod_distrib)

lemma ring_apart:
  assumes "queue_size dev = 8"
  shows "apart (avail_ring dev + 2 * ucast (x mod queue_size dev)) 2 (avail_idx dev) 2"
proof -
  let ?k = "unat (x mod queue_size dev)"
  have "apart (vq_avail dev + of_nat (4 + 2 * ?k)) 2 (vq_avail dev + of_nat 2) 2"
    using slot_small [OF assms, of x] by (intro apart_gap) simp_all
  then show ?thesis by (simp add: avail_ring_def avail_idx_def add.assoc)
qed

lemma publish_eq:
  assumes "queue_size dev = 8"
  shows "publish dev i s = mmio_write (mmio_base dev) VIRTIO_MMIO_QUEUE_NOTIFY 0 (s\<lparr>vs_mem := published dev i (vs_mem s)\<rparr>)"
  using ring_apart [OF assms] by (simp add: publish_def published_def Let_def)

lemma published_head:
  assumes "queue_size dev = 8"
  shows "load16 (published dev i m) (avail_ring dev + 2 * ucast ((load16 (published dev i m) (avail_idx dev) - 1) mod queue_size dev)) = i"
    "load16 (published dev i m) (avail_idx dev) = load16 m (avail_idx dev) + 1"
proof -
  show 1: "load16 (published dev i m) (avail_idx dev) = load16 m (avail_idx dev) + 1" by (simp add: published_def)
  show "load16 (published dev i m) (avail_ring dev + 2 * ucast ((load16 (published dev i m) (avail_idx dev) - 1) mod queue_size dev)) = i"
    unfolding 1 using ring_apart [OF assms, of "load16 m (avail_idx dev)"] by (simp add: published_def apart_sym)
qed

lemma published_frame:
  assumes "queue_size dev = 8" "apart (vq_avail dev) 4096 q n"
  shows "load_bytes n (published dev i m) q = load_bytes n m q"
proof -
  let ?k = "unat (load16 m (avail_idx dev) mod queue_size dev)"
  have "apart (avail_ring dev + 2 * ucast (load16 m (avail_idx dev) mod queue_size dev)) 2 q n"
    using apart_sub [OF assms(2), of "4 + 2 * ?k" 2 0 n] slot_small [OF assms(1), of "load16 m (avail_idx dev)"]
    by (simp add: avail_ring_def add.assoc)
  moreover have "apart (avail_idx dev) 2 q n" using apart_sub [OF assms(2), of 2 2 0 n] by (simp add: avail_idx_def)
  ultimately show ?thesis by (simp add: published_def bytes_frame)
qed

lemma req_hdr_fields: "load32 (store_req_hdr h lba m) h = 0" "load64 (store_req_hdr h lba m) (h + 8) = ucast lba"
proof -
  have "apart (h + 4) 4 h 4" "apart (h + 8) 8 h 4" using apart_gap [of 0 4 4 4 h] apart_gap [of 0 4 8 8 h] by simp_all
  then show "load32 (store_req_hdr h lba m) h = 0" "load64 (store_req_hdr h lba m) (h + 8) = ucast lba"
    by (simp_all add: store_req_hdr_def Let_def VIRTIO_BLK_T_IN_def)
qed

lemma req_hdr_frame:
  assumes "apart h 16 q n"
  shows "load_bytes n (store_req_hdr h lba m) q = load_bytes n m q"
  using apart_sub [OF assms, of 0 4 0 n] apart_sub [OF assms, of 4 4 0 n] apart_sub [OF assms, of 8 8 0 n]
  by (simp add: store_req_hdr_def Let_def bytes_frame)

lemma wait_used_looks:
  assumes "\<forall>k < n. dma (t + k) log m = m" "load16 m (used_idx dev) = used_seen dev"
    "load16 (dma (t + n) log m) (used_idx dev) \<noteq> used_seen dev"
    "vs_dma s = dma" "vs_time s = t" "io_log (vs_bus s) = log" "vs_mem s = m"
  shows "\<exists>s'. wait_used dev s = Some s' \<and> vs_mem s' = dma (t + n) log m \<and> vs_dma s' = dma"
  using assms
proof (induction n arbitrary: s t)
  case 0
  then show ?case by (subst wait_used.simps) (simp add: Let_def look_def)
next
  case (Suc n)
  have 0: "dma t log m = m" using Suc.prems(1) [rule_format, of 0] by simp
  have "wait_used dev s = wait_used dev (look s)"
    using Suc.prems 0 by (subst wait_used.simps) (simp add: Let_def look_def)
  moreover have "\<exists>s'. wait_used dev (look s) = Some s' \<and> vs_mem s' = dma (Suc t + n) log m \<and> vs_dma s' = dma"
    using Suc.prems 0 by (intro Suc.IH) (auto simp: look_def)
  ultimately show ?case by simp
qed

section \<open>A request from end to end\<close>

definition blk_regions :: "blk \<Rightarrow> u64 \<Rightarrow> (u64 \<times> nat) list" where
  "blk_regions b buf = [(vq_desc (blk_dev b), 4096), (vq_avail (blk_dev b), 4096), (vq_used (blk_dev b), 4096),
     (req_hdr b, 16), (req_status b, 1), (buf, 512)]"

definition blk_ready :: "blk \<Rightarrow> u64 \<Rightarrow> mem \<Rightarrow> bool" where
  "blk_ready b buf m \<longleftrightarrow> disk_present b \<and> queue_size (blk_dev b) = 8
     \<and> load16 m (used_idx (blk_dev b)) = used_seen (blk_dev b)
     \<and> sorted_wrt (\<lambda>(a, k) (c, n). apart a k c n) (blk_regions b buf)"

text \<open>The driver's half of the request: what is in memory when the device is notified.\<close>

definition blk_request :: "blk \<Rightarrow> u32 \<Rightarrow> u64 \<Rightarrow> mem \<Rightarrow> mem" where
  "blk_request b lba buf m =
     published (blk_dev b) 0 (link_descs (blk_dev b)
       [\<lparr>vd_addr = req_hdr b, vd_len = 16, vd_flags = 0, vd_next = 0\<rparr>,
        \<lparr>vd_addr = buf, vd_len = 512, vd_flags = VIRTQ_DESC_F_WRITE, vd_next = 0\<rparr>,
        \<lparr>vd_addr = req_status b, vd_len = 1, vd_flags = VIRTQ_DESC_F_WRITE, vd_next = 0\<rparr>] (store_req_hdr (req_hdr b) lba m))"

lemma blk_request_frame:
  assumes "queue_size (blk_dev b) = 8" "apart (vq_desc (blk_dev b)) 4096 q n" "apart (vq_avail (blk_dev b)) 4096 q n" "apart (req_hdr b) 16 q n"
  shows "load_bytes n (blk_request b lba buf m) q = load_bytes n m q"
  using assms by (simp add: blk_request_def published_frame link_descs_frame req_hdr_frame)

lemma blk_request_parsed:
  fixes lba :: u32
  assumes "blk_ready b buf m"
  defines "dev \<equiv> blk_dev b" and "m2 \<equiv> blk_request b lba buf m"
  shows "load16 m2 (avail_ring dev + 2 * ucast ((load16 m2 (avail_idx dev) - 1) mod queue_size dev)) = 0"
    "read_desc m2 dev 0 = \<lparr>vd_addr = req_hdr b, vd_len = 16, vd_flags = VIRTQ_DESC_F_NEXT, vd_next = 1\<rparr>"
    "read_desc m2 dev 1 = \<lparr>vd_addr = buf, vd_len = 512, vd_flags = VIRTQ_DESC_F_WRITE OR VIRTQ_DESC_F_NEXT, vd_next = 2\<rparr>"
    "read_desc m2 dev 2 = \<lparr>vd_addr = req_status b, vd_len = 1, vd_flags = VIRTQ_DESC_F_WRITE, vd_next = 0\<rparr>"
    "load32 m2 (req_hdr b) = 0" "load64 m2 (req_hdr b + 8) = ucast lba" "load16 m2 (used_idx dev) = used_seen dev"
proof -
  have q: "queue_size dev = 8" and u: "load16 m (used_idx dev) = used_seen dev"
    and ap: "apart (vq_desc dev) 4096 (vq_avail dev) 4096" "apart (vq_desc dev) 4096 (vq_used dev) 4096" "apart (vq_desc dev) 4096 (req_hdr b) 16"
      "apart (vq_avail dev) 4096 (vq_used dev) 4096" "apart (vq_avail dev) 4096 (req_hdr b) 16" "apart (vq_used dev) 4096 (req_hdr b) 16"
    using assms(1) by (simp_all add: blk_ready_def blk_regions_def dev_def)
  define m1 where "m1 = link_descs dev
       [\<lparr>vd_addr = req_hdr b, vd_len = 16, vd_flags = 0, vd_next = 0\<rparr>,
        \<lparr>vd_addr = buf, vd_len = 512, vd_flags = VIRTQ_DESC_F_WRITE, vd_next = 0\<rparr>,
        \<lparr>vd_addr = req_status b, vd_len = 1, vd_flags = VIRTQ_DESC_F_WRITE, vd_next = 0\<rparr>] (store_req_hdr (req_hdr b) lba m)"
  have m2: "m2 = published dev 0 m1" by (simp add: m2_def blk_request_def m1_def dev_def)
  show "load16 m2 (avail_ring dev + 2 * ucast ((load16 m2 (avail_idx dev) - 1) mod queue_size dev)) = 0"
    unfolding m2 by (rule published_head [OF q])
  have d: "read_desc m2 dev i = read_desc m1 dev i" if "unat i < 8" for i
  proof (rule read_desc_cong)
    have "apart (vq_avail dev) 4096 (vq_desc dev + 16 * ucast i) 16"
      using apart_sub [OF ap(1) [unfolded apart_sym [of "vq_desc dev"]], of 0 4096 "16 * unat i" 16] that by simp
    then show "load_bytes 16 m2 (vq_desc dev + 16 * ucast i) = load_bytes 16 m1 (vq_desc dev + 16 * ucast i)"
      unfolding m2 by (rule published_frame [OF q])
  qed
  show "read_desc m2 dev 0 = \<lparr>vd_addr = req_hdr b, vd_len = 16, vd_flags = VIRTQ_DESC_F_NEXT, vd_next = 1\<rparr>"
    "read_desc m2 dev 1 = \<lparr>vd_addr = buf, vd_len = 512, vd_flags = VIRTQ_DESC_F_WRITE OR VIRTQ_DESC_F_NEXT, vd_next = 2\<rparr>"
    "read_desc m2 dev 2 = \<lparr>vd_addr = req_status b, vd_len = 1, vd_flags = VIRTQ_DESC_F_WRITE, vd_next = 0\<rparr>"
    using d [of 0] d [of 1] d [of 2] by (simp_all add: m1_def link_descs_3)
  have h: "load_bytes n m2 (req_hdr b + of_nat k) = load_bytes n (store_req_hdr (req_hdr b) lba m) (req_hdr b + of_nat k)" if "k + n \<le> 16" for n k
  proof -
    have "apart (vq_avail dev) 4096 (req_hdr b + of_nat k) n" "apart (vq_desc dev) 4096 (req_hdr b + of_nat k) n"
      using apart_sub [OF ap(5), of 0 4096 k n] apart_sub [OF ap(3), of 0 4096 k n] that by simp_all
    then show ?thesis unfolding m2 m1_def using q by (simp add: published_frame link_descs_frame)
  qed
  show "load32 m2 (req_hdr b) = 0" "load64 m2 (req_hdr b + 8) = ucast lba"
    using h [of 0 4] h [of 8 8] req_hdr_fields [of "req_hdr b" lba m] by (simp_all add: load32_def load64_def)
  have "apart (vq_desc dev) 4096 (used_idx dev) 2" "apart (vq_avail dev) 4096 (used_idx dev) 2" "apart (req_hdr b) 16 (used_idx dev) 2"
    using apart_sub [OF ap(2), of 0 4096 2 2] apart_sub [OF ap(4), of 0 4096 2 2] apart_sub [OF ap(6) [unfolded apart_sym [of "vq_used dev"]], of 0 16 2 2]
    by (simp_all add: used_idx_def)
  then have "load_bytes 2 m2 (used_idx dev) = load_bytes 2 m (used_idx dev)"
    unfolding m2_def using q by (intro blk_request_frame) (simp_all add: dev_def)
  then show "load16 m2 (used_idx dev) = used_seen dev" using u by (simp add: load16_def)
qed

lemma blk_device_used_seen: "blk_device D (dev\<lparr>used_seen := x\<rparr>) dma = blk_device D dev dma"
proof -
  have "blk_done D (dev\<lparr>used_seen := x\<rparr>) m = blk_done D dev m" for m
    by (simp add: blk_done_def read_desc_def avail_ring_def avail_idx_def used_ring_def used_idx_def Let_def)
  then show ?thesis by (simp add: blk_device_def)
qed

text \<open>The device's half: the sector, the status and the used element, and nothing else.\<close>

lemma blk_done_effect:
  fixes lba :: u32
  assumes r: "blk_ready b buf m" and D: "\<forall>l. length (D l) = 512"
  defines "m2 \<equiv> blk_request b lba buf m"
  defines "m3 \<equiv> blk_done D (blk_dev b) m2"
  shows "load_bytes 512 m3 buf = D (ucast lba)" "m3 (req_status b) = 0"
    "load16 m3 (used_idx (blk_dev b)) = used_seen (blk_dev b) + 1"
    "apart (vq_used (blk_dev b)) 4096 q n \<Longrightarrow> apart (req_status b) 1 q n \<Longrightarrow> apart buf 512 q n \<Longrightarrow> load_bytes n m3 q = load_bytes n m2 q"
proof -
  let ?dev = "blk_dev b"
  let ?u = "used_seen ?dev" and ?p = "used_ring ?dev + 8 * ucast (used_seen ?dev mod queue_size ?dev)"
  note parsed = blk_request_parsed [OF r, of lba, folded m2_def]
  have ap: "apart (vq_used ?dev) 4096 (req_status b) 1" "apart (vq_used ?dev) 4096 buf 512" "apart (req_status b) 1 buf 512"
    and q8: "queue_size ?dev = 8" using r by (simp_all add: blk_ready_def blk_regions_def)
  have m3: "m3 = store16 (used_idx ?dev) (?u + 1) (store32 (?p + 4) 513 (store32 ?p 0
      (store_bytes [0] (req_status b) (store_bytes (D (ucast lba)) buf m2))))"
    unfolding m3_def blk_done_def Let_def parsed by (simp add: parsed or.commute)
  have k: "unat (?u mod queue_size ?dev) < 8" by (rule slot_small [OF q8])
  have used: "apart ?p 4 q n" "apart (?p + 4) 4 q n" "apart (used_idx ?dev) 2 q n" if "apart (vq_used ?dev) 4096 q n" for q n
    using apart_sub [OF that, of "4 + 8 * unat (?u mod queue_size ?dev)" 4 0 n]
      apart_sub [OF that, of "4 + 8 * unat (?u mod queue_size ?dev) + 4" 4 0 n] apart_sub [OF that, of 2 2 0 n] k
    by (simp_all add: used_ring_def used_idx_def ac_simps)
  have rest: "load_bytes n m3 q = load_bytes n (store_bytes [0] (req_status b) (store_bytes (D (ucast lba)) buf m2)) q"
    if "apart (vq_used ?dev) 4096 q n" for q n
    unfolding m3 using used [OF that] by (simp add: bytes_frame)
  show "load_bytes 512 m3 buf = D (ucast lba)"
    using rest [OF ap(2)] load_frame_bytes(4) [of "req_status b" "[0]" buf 512 "store_bytes (D (ucast lba)) buf m2"] ap(3)
      load_store_same [of "D (ucast lba)" buf m2] D by simp
  have "load_bytes 1 m3 (req_status b) = [0]"
    using rest [OF ap(1)] load_store_same [of "[0]" "req_status b"] by simp
  then show "m3 (req_status b) = 0" by (simp add: load_bytes_def)
  show "load16 m3 (used_idx ?dev) = ?u + 1" by (simp add: m3)
  show "load_bytes n m3 q = load_bytes n m2 q"
    if "apart (vq_used ?dev) 4096 q n" "apart (req_status b) 1 q n" "apart buf 512 q n"
    using rest [OF that(1)] load_frame_bytes(4) [of "req_status b" "[0]" q n] load_frame_bytes(4) [of buf "D (ucast lba)" q n] that D by simp
qed

text \<open>A whole request.\<close>

lemma blk_read_ok:
  assumes "blk_ready b buf (vs_mem s)" "blk_device D (blk_dev b) (vs_dma s)"
  shows "\<exists>b' s'. virtio_blk_read_sector b lba buf s = Some (True, b', s')
     \<and> load_bytes 512 (vs_mem s') buf = D (ucast lba)
     \<and> blk_ready b' buf (vs_mem s') \<and> blk_device D (blk_dev b') (vs_dma s')
     \<and> (\<forall>q n. (\<forall>(a, k) \<in> set (blk_regions b buf). apart a k q n) \<longrightarrow> load_bytes n (vs_mem s') q = load_bytes n (vs_mem s) q)"
proof -
  let ?dev = "blk_dev b" and ?notify = "Out (Mmio (mmio_base (blk_dev b) + 0x50)) 0" and ?m = "vs_mem s"
  let ?m2 = "blk_request b lba buf ?m"
  have q8: "queue_size ?dev = 8" and pres: "disk_present b" using assms(1) by (simp_all add: blk_ready_def)
  have D: "\<forall>l. length (D l) = 512" using assms(2) by (simp add: blk_device_def)
  define s2 where "s2 = mmio_write (mmio_base ?dev) VIRTIO_MMIO_QUEUE_NOTIFY 0 (s\<lparr>vs_mem := ?m2\<rparr>)"
  have s2: "vs_mem s2 = ?m2" "vs_dma s2 = vs_dma s" "io_log (vs_bus s2) = io_log (vs_bus s) @ [?notify]"
    by (simp_all add: s2_def mmio_write_def mmio_write32_def io_out_def VIRTIO_MMIO_QUEUE_NOTIFY_def)
  note eff = blk_done_effect [OF assms(1) D, where lba = lba]
  obtain n where n: "\<forall>k < n. vs_dma s (vs_time s2 + k) (io_log (vs_bus s2)) ?m2 = ?m2"
      "vs_dma s (vs_time s2 + n) (io_log (vs_bus s2)) ?m2 = blk_done D ?dev ?m2"
    using assms(2) unfolding blk_device_def s2(3) by metis
  have "load16 ?m2 (used_idx ?dev) = used_seen ?dev" using blk_request_parsed [OF assms(1)] by blast
  then obtain s3 where s3: "wait_used ?dev s2 = Some s3" "vs_mem s3 = blk_done D ?dev ?m2" "vs_dma s3 = vs_dma s"
    using wait_used_looks [of n "vs_dma s" "vs_time s2" "io_log (vs_bus s2)" ?m2 ?dev s2] n s2(1,2) eff(3) by auto
  have "virtio_blk_read_sector b lba buf s = Some (vs_mem s3 (req_status b) = 0, b\<lparr>blk_dev := ?dev\<lparr>used_seen := used_seen ?dev + 1\<rparr>\<rparr>, s3)"
    using pres s3(1) by (simp add: virtio_blk_read_sector_def virtio_submit_and_wait_def publish_eq [OF q8] s2_def blk_request_def Let_def)
  moreover have "blk_ready (b\<lparr>blk_dev := ?dev\<lparr>used_seen := used_seen ?dev + 1\<rparr>\<rparr>) buf (vs_mem s3)"
    using assms(1) eff(3) s3(2) by (simp add: blk_ready_def blk_regions_def used_idx_def)
  moreover have "load_bytes n (vs_mem s3) q = load_bytes n ?m q" if "\<forall>(a, k) \<in> set (blk_regions b buf). apart a k q n" for q n
  proof -
    have ap: "apart (vq_desc ?dev) 4096 q n" "apart (vq_avail ?dev) 4096 q n" "apart (vq_used ?dev) 4096 q n"
      "apart (req_hdr b) 16 q n" "apart (req_status b) 1 q n" "apart buf 512 q n" using that by (simp_all add: blk_regions_def)
    show ?thesis unfolding s3(2) eff(4) [OF ap(3,5,6)] by (rule blk_request_frame [OF q8 ap(1,2,4)])
  qed
  ultimately show ?thesis using eff(1,2) s3(2,3) assms(2) by (simp add: blk_device_used_seen)
qed

text \<open>Property C31. Reading a disk sector on aarch64 works end to end: with a virtio block device behind the queue and
  the driver's buffers apart from one another, \<open>virtio_blk_read_sector\<close> returns true with exactly the addressed
  sector in the caller's buffer, leaves the queue ready for the next request, and changes no memory
  outside the queue, the request header, the status byte and the buffer.\<close>

theorem virtio_blk_reads_sector:
  assumes "blk_ready b buf (vs_mem s)" "blk_device D (blk_dev b) (vs_dma s)"
  shows "\<exists>b' s'. virtio_blk_read_sector b lba buf s = Some (True, b', s')
     \<and> load_bytes 512 (vs_mem s') buf = D (ucast lba)
     \<and> blk_ready b' buf (vs_mem s') \<and> blk_device D (blk_dev b') (vs_dma s')
     \<and> (\<forall>q n. (\<forall>(a, k) \<in> set (blk_regions b buf). apart a k q n) \<longrightarrow> load_bytes n (vs_mem s') q = load_bytes n (vs_mem s) q)"
  by (rule blk_read_ok [OF assms])

text \<open>A concrete disk whose sector \<open>l\<close> is filled with the low byte of \<open>l\<close>, served at the first look.\<close>

definition demo_disk :: "u64 \<Rightarrow> u8 list" where
  "demo_disk l = replicate 512 (ucast l)"

definition demo_blk :: blk where
  "demo_blk = \<lparr>disk_present = True, blk_dev = \<lparr>mmio_base = 0x0a000000, queue_size = 8, vq_desc = 0x10000, vq_avail = 0x11000,
     vq_used = 0x12000, next_desc = 0, used_seen = 0\<rparr>, req_hdr = 0x20000, req_status = 0x20100\<rparr>"

definition demo_vsys :: vsys where
  "demo_vsys = \<lparr>vs_bus = \<lparr>io_log = [], io_dev = (\<lambda>_ _. 0)\<rparr>, vs_mem = (\<lambda>_. 0), vs_heap = demo_heap, vs_time = 0,
     vs_dma = (\<lambda>_ _ m. blk_done demo_disk (blk_dev demo_blk) m)\<rparr>"

lemma apart_numerals:
  assumes "j + n \<le> k \<or> k + l \<le> j" "j + n < 2 ^ 32" "k + l < 2 ^ 32"
  shows "apart (of_nat k) l (of_nat j) n"
  using apart_gap [OF assms, of 0] by simp

theorem virtio_blk_reads_sector_witness:
  "\<exists>b' s'. virtio_blk_read_sector demo_blk 7 0x30000 demo_vsys = Some (True, b', s')
     \<and> load_bytes 512 (vs_mem s') 0x30000 = replicate 512 7"
proof -
  have z: "load16 (\<lambda>_. 0) a = 0" for a
    by (simp add: load16_def load_bytes_def bytes_word_def numeral_2_eq_2)
  note ap = apart_numerals [of "0x11000" 4096 "0x10000" 4096] apart_numerals [of "0x12000" 4096 "0x10000" 4096]
    apart_numerals [of "0x20000" 16 "0x10000" 4096] apart_numerals [of "0x20100" 1 "0x10000" 4096] apart_numerals [of "0x30000" 512 "0x10000" 4096]
    apart_numerals [of "0x12000" 4096 "0x11000" 4096] apart_numerals [of "0x20000" 16 "0x11000" 4096]
    apart_numerals [of "0x20100" 1 "0x11000" 4096] apart_numerals [of "0x30000" 512 "0x11000" 4096]
    apart_numerals [of "0x20000" 16 "0x12000" 4096] apart_numerals [of "0x20100" 1 "0x12000" 4096] apart_numerals [of "0x30000" 512 "0x12000" 4096]
    apart_numerals [of "0x20100" 1 "0x20000" 16] apart_numerals [of "0x30000" 512 "0x20000" 16] apart_numerals [of "0x30000" 512 "0x20100" 1]
  have r: "blk_ready demo_blk 0x30000 (vs_mem demo_vsys)"
    using ap by (simp add: blk_ready_def blk_regions_def demo_blk_def demo_vsys_def z)
  have d: "blk_device demo_disk (blk_dev demo_blk) (vs_dma demo_vsys)"
    unfolding blk_device_def demo_vsys_def by (auto simp: demo_disk_def intro: exI [of _ 0])
  show ?thesis using virtio_blk_reads_sector [OF r d, of 7] by (auto simp: demo_disk_def)
qed

end
