(* ===== verification/Virtio_input.thy ===== *)
theory Virtio_input
  imports Virtio_blk Mouse "HOL-Library.Sublist"
begin

text \<open>
  The driver half of \<^verbatim>\<open>arch/aarch64/drivers/virtio_input.c\<close>: finding the keyboard and the mouse among
  the virtio-input devices by their names, the pool of event buffers behind each queue, and the two
  polling entry points. What one event does to the keyboard and to the cursor is in theories Keyboard
  and Mouse; the size of the framebuffer is an argument, as there.
\<close>

section \<open>State\<close>

definition VIRTIO_INPUT_CFG_ID_NAME :: u8 where "VIRTIO_INPUT_CFG_ID_NAME = 1"

record vinput =
  vi_keyboard :: keyboard
  vi_mouse :: mouse
  kbd_dev :: virtio_device
  mouse_dev :: virtio_device
  kbd_present :: bool
  mouse_present :: bool
  kbd_bufs :: u64
  mouse_bufs :: u64

section \<open>Names\<close>

text \<open>A \<open>char*\<close> is the list of the bytes from it to the end of its array; \<open>ch\<close> reads through it.\<close>

fun ch :: "u8 list \<Rightarrow> u8" where
  "ch [] = 0"
| "ch (c # _) = c"

function match_here :: "u8 list \<Rightarrow> u8 list \<Rightarrow> bool" where
  "match_here h n = (if ch h \<noteq> 0 \<and> ch n \<noteq> 0 \<and> ch h = ch n then match_here (tl h) (tl n) else ch n = 0)"
  by auto
termination
proof (relation "measure (\<lambda>(h, n). length h)")
  show "((tl h, tl n), (h, n)) \<in> measure (\<lambda>(h, n). length h)" if "ch h \<noteq> 0 \<and> ch n \<noteq> 0 \<and> ch h = ch n" for h n
    using that by (cases h) simp_all
qed simp

declare match_here.simps [simp del]

fun str_contains :: "u8 list \<Rightarrow> u8 list \<Rightarrow> bool" where
  "str_contains [] needle = False"
| "str_contains (c # h) needle =
     (if c = 0 then False else if match_here (c # h) needle then True else str_contains h needle)"

definition str_Keyboard :: "u8 list" where "str_Keyboard = [75, 101, 121, 98, 111, 97, 114, 100, 0]"
definition str_Mouse :: "u8 list" where "str_Mouse = [77, 111, 117, 115, 101, 0]"

section \<open>Event buffers\<close>

definition seed_queue :: "virtio_device \<Rightarrow> u64 \<Rightarrow> ('x) vsys_scheme \<Rightarrow> ('x) vsys_scheme" where
  "seed_queue dev bufs s =
     fold (\<lambda>i s. virtio_publish_avail dev (of_nat i)
         (s\<lparr>vs_mem := store_desc (vq_desc dev + 16 * of_nat i)
              \<lparr>vd_addr = bufs + 8 * of_nat i, vd_len = 8, vd_flags = VIRTQ_DESC_F_WRITE, vd_next = 0\<rparr> (vs_mem s)\<rparr>))
       [0..<unat (queue_size dev)] s"

definition load_event :: "mem \<Rightarrow> u64 \<Rightarrow> virtio_input_event" where
  "load_event m p = \<lparr>ev_type = load16 m p, ev_code = load16 m (p + 2), ev_value = load32 m (p + 4)\<rparr>"

definition poll_event :: "virtio_device \<Rightarrow> u64 \<Rightarrow> ('x) vsys_scheme \<Rightarrow> virtio_input_event option \<times> virtio_device \<times> ('x) vsys_scheme" where
  "poll_event dev bufs s =
     (case virtio_poll_used dev s of
        (None, dev, s) \<Rightarrow> (None, dev, s)
      | (Some (idx, len), dev, s) \<Rightarrow>
          let e = load_event (vs_mem s) (bufs + 8 * ucast idx) in (Some e, dev, virtio_publish_avail dev idx s))"

section \<open>Finding the devices\<close>

text \<open>The bytes \<open>b, \<dots>, b + k - 1\<close> of the name in the configuration space.\<close>

primrec name_bytes :: "nat \<Rightarrow> u8 \<Rightarrow> virtio_device \<Rightarrow> ('x) vsys_scheme \<Rightarrow> u8 list \<times> ('x) vsys_scheme" where
  "name_bytes 0 b dev s = ([], s)"
| "name_bytes (Suc k) b dev s =
     (let (c, s) = virtio_config_read8 dev (8 + ucast b) s; (cs, s) = name_bytes k (b + 1) dev s in (c # cs, s))"

definition device_name :: "virtio_device \<Rightarrow> ('x) vsys_scheme \<Rightarrow> u8 list \<times> ('x) vsys_scheme" where
  "device_name dev s =
     (let s = virtio_config_write8 dev 0 VIRTIO_INPUT_CFG_ID_NAME s;
          s = virtio_config_write8 dev 1 0 s;
          (sz, s) = virtio_config_read8 dev 2 s;
          n = (if sz < 128 then sz else 128);
          (name, s) = name_bytes (unat n) 0 dev s
      in (name @ [0], s))"

definition claim :: "virtio_device \<Rightarrow> vinput \<Rightarrow> ('x) vsys_scheme \<Rightarrow> (vinput \<times> ('x) vsys_scheme) option" where
  "claim candidate v s =
     (let (name, s) = device_name candidate s
      in if \<not> kbd_present v \<and> str_contains name str_Keyboard then
           do {
             (bufs, s) \<leftarrow> vs_kmalloc (8 * ucast (queue_size candidate)) s;
             Some (v\<lparr>kbd_dev := candidate, kbd_present := True, kbd_bufs := bufs\<rparr>, seed_queue candidate bufs s)
           }
         else if \<not> mouse_present v \<and> str_contains name str_Mouse then
           do {
             (bufs, s) \<leftarrow> vs_kmalloc (8 * ucast (queue_size candidate)) s;
             Some (v\<lparr>mouse_dev := candidate, mouse_present := True, mouse_bufs := bufs\<rparr>, seed_queue candidate bufs s)
           }
         else Some (v, s))"

partial_function (option) input_scan :: "u32 \<Rightarrow> vinput \<Rightarrow> ('x) vsys_scheme \<Rightarrow> (vinput \<times> ('x) vsys_scheme) option" where
  "input_scan i v s =
     (if kbd_present v \<and> mouse_present v then Some (v, s)
      else case virtio_mmio_probe_nth VIRTIO_DEV_INPUT i s of
             (None, s) \<Rightarrow> Some (v, s)
           | (Some candidate, s) \<Rightarrow> do { (v, s) \<leftarrow> claim candidate v s; input_scan (i + 1) v s })"

definition virtio_input_init :: "u32 \<Rightarrow> u32 \<Rightarrow> vinput \<Rightarrow> ('x) vsys_scheme \<Rightarrow> (vinput \<times> ('x) vsys_scheme) option" where
  "virtio_input_init fb_width fb_height v s =
     input_scan 0 (v\<lparr>vi_mouse := (vi_mouse v)\<lparr>mouse_x := fb_width div 2, mouse_y := fb_height div 2\<rparr>\<rparr>) s"

section \<open>Polling\<close>

partial_function (option) kbd_drain :: "virtio_device \<Rightarrow> u64 \<Rightarrow> keyboard \<Rightarrow> ('x) vsys_scheme \<Rightarrow> (keyboard \<times> virtio_device \<times> ('x) vsys_scheme) option" where
  "kbd_drain dev bufs k s =
     (case poll_event dev bufs s of
        (None, dev, s) \<Rightarrow> Some (k, dev, s)
      | (Some e, dev, s) \<Rightarrow> kbd_drain dev bufs (handle_kbd_event e k) s)"

definition virtio_keyboard_getchar :: "vinput \<Rightarrow> ('x) vsys_scheme \<Rightarrow> (u8 \<times> vinput \<times> ('x) vsys_scheme) option" where
  "virtio_keyboard_getchar v s =
     do {
       (v, s) \<leftarrow> (if kbd_present v then
                   do { (k, dev, s) \<leftarrow> kbd_drain (kbd_dev v) (kbd_bufs v) (vi_keyboard v) s;
                        Some (v\<lparr>vi_keyboard := k, kbd_dev := dev\<rparr>, s) }
                 else Some (v, s));
       let (c, r) = kb_pop (kb_ring (vi_keyboard v));
       Some (c, v\<lparr>vi_keyboard := (vi_keyboard v)\<lparr>kb_ring := r\<rparr>\<rparr>, s)
     }"

partial_function (option) mouse_drain :: "u32 \<Rightarrow> u32 \<Rightarrow> virtio_device \<Rightarrow> u64 \<Rightarrow> mouse \<Rightarrow> ('x) vsys_scheme \<Rightarrow> (mouse \<times> virtio_device \<times> ('x) vsys_scheme) option" where
  "mouse_drain fb_width fb_height dev bufs m s =
     (case poll_event dev bufs s of
        (None, dev, s) \<Rightarrow> Some (m, dev, s)
      | (Some e, dev, s) \<Rightarrow> mouse_drain fb_width fb_height dev bufs (handle_mouse_event fb_width fb_height e m) s)"

definition virtio_mouse_get_state :: "u32 \<Rightarrow> u32 \<Rightarrow> vinput \<Rightarrow> ('x) vsys_scheme \<Rightarrow> ((i32 \<times> i32 \<times> u8) option \<times> vinput \<times> ('x) vsys_scheme) option" where
  "virtio_mouse_get_state fb_width fb_height v s =
     do {
       (v, s) \<leftarrow> (if mouse_present v then
                   do { (m, dev, s) \<leftarrow> mouse_drain fb_width fb_height (mouse_dev v) (mouse_bufs v) (vi_mouse v) s;
                        Some (v\<lparr>vi_mouse := m, mouse_dev := dev\<rparr>, s) }
                 else Some (v, s));
       let m = vi_mouse v;
       if \<not> mouse_dirty m then Some (None, v, s)
       else Some (Some (mouse_x m, mouse_y m, mouse_buttons m), v\<lparr>vi_mouse := m\<lparr>mouse_dirty := False\<rparr>\<rparr>, s)
     }"

section \<open>Substring search\<close>

definition cstr :: "u8 list \<Rightarrow> u8 list" where
  "cstr xs = takeWhile (\<lambda>c. c \<noteq> 0) xs"

lemma match_here_prefix: "match_here h n \<longleftrightarrow> prefix (cstr n) (cstr h)"
proof (induction h n rule: match_here.induct)
  case (1 h n)
  show ?case
  proof (cases "ch h \<noteq> 0 \<and> ch n \<noteq> 0 \<and> ch h = ch n")
    case True
    then obtain c h' n' where hn: "h = c # h'" "n = c # n'" "c \<noteq> 0" by (cases h; cases n) auto
    have "match_here h n \<longleftrightarrow> match_here h' n'" by (subst match_here.simps) (simp add: hn)
    then show ?thesis using 1 True hn by (simp add: cstr_def)
  next
    case False
    then show ?thesis by (subst match_here.simps) (cases h; cases n; auto simp: cstr_def)
  qed
qed

lemma str_contains_sublist: "str_contains h n \<longleftrightarrow> cstr h \<noteq> [] \<and> sublist (cstr n) (cstr h)"
proof (induction h)
  case (Cons c h)
  have "prefix (cstr n) [] \<Longrightarrow> prefix (cstr n) xs" "sublist (cstr n) [] \<Longrightarrow> prefix (cstr n) xs" for xs by simp_all
  then show ?case using Cons by (auto simp: cstr_def match_here_prefix sublist_Cons_right)
qed (simp add: cstr_def)

section \<open>The scan ends\<close>

text \<open>Whatever the slots answer, there is no match for an index of 32 or more.\<close>

lemma slot_scan_none:
  assumes "unat seen + n \<le> unat index"
  shows "fst (slot_scan n i seen did index s) = 0"
  using assms
proof (induction n arbitrary: i seen s)
  case (Suc n)
  have ne: "seen \<noteq> index" using Suc.prems by auto
  have "unat (seen + 1) = unat seen + 1" using Suc.prems u32_lt [of index] by (simp add: unat_word_ariths)
  then have "unat (seen + 1) + n \<le> unat index" using Suc.prems by simp
  then show ?case using Suc.IH Suc.prems ne by (simp add: Let_def split: prod.split)
qed simp

lemma find_slot_none: "32 \<le> unat index \<Longrightarrow> fst (find_slot did index s) = 0"
  by (simp add: find_slot_def VIRTIO_MMIO_SLOTS_def slot_scan_none)

lemma probe_none: "32 \<le> unat index \<Longrightarrow> fst (virtio_mmio_probe_nth did index s) = None"
  using find_slot_none [of index did s] by (simp add: virtio_mmio_probe_nth_def case_prod_beta)

section \<open>Register traffic leaves the heap alone\<close>

lemma mmio_heap [simp]:
  "vs_heap (mmio_write base off v s) = vs_heap s" "vs_heap (snd (mmio_read base off s)) = vs_heap s"
  "vs_heap (virtio_config_write8 dev off8 v8 s) = vs_heap s" "vs_heap (snd (virtio_config_read8 dev off8 s)) = vs_heap s"
  "vs_heap (negotiate base s) = vs_heap s" "vs_heap (announce_queue base a b c s) = vs_heap s"
  "vs_heap (publish dev i s) = vs_heap s"
  by (simp_all add: mmio_write_def mmio_read_def virtio_config_write8_def virtio_config_read8_def negotiate_def
      announce_queue_def publish_def Let_def split: prod.split)

lemma slot_scan_heap [simp]: "vs_heap (snd (slot_scan n i seen did index s)) = vs_heap s"
  by (induction n arbitrary: i seen s) (simp_all add: Let_def case_prod_beta)

lemma name_bytes_heap [simp]: "vs_heap (snd (name_bytes k b dev s)) = vs_heap s"
  by (induction k arbitrary: b s) (simp_all add: Let_def case_prod_beta)

lemma device_name_heap [simp]: "vs_heap (snd (device_name dev s)) = vs_heap s"
  by (simp add: device_name_def Let_def case_prod_beta)

lemma seed_queue_heap [simp]: "vs_heap (seed_queue dev bufs s) = vs_heap s"
proof -
  have "vs_heap (fold (\<lambda>i s. virtio_publish_avail dev (f i) (s\<lparr>vs_mem := g i s\<rparr>)) xs s) = vs_heap s" for xs f g and s :: "'a vsys_scheme"
    by (induction xs arbitrary: s) (simp_all add: virtio_publish_avail_def)
  then show ?thesis by (simp add: seed_queue_def)
qed

lemma vs_alloc_heap: "heap_inv (vs_heap s) \<Longrightarrow> heap_inv (vs_heap (snd (vs_alloc s)))"
  by (auto simp: vs_alloc_def case_prod_beta intro!: heap_inv_shrink(1) dest: heap_inv_pmm pmm_alloc_frame_shrinks [OF _ prod.collapse [symmetric]])

lemma probe_heap:
  assumes "heap_inv (vs_heap s)"
  shows "heap_inv (vs_heap (snd (virtio_mmio_probe_nth did index s)))"
  using assms by (simp add: virtio_mmio_probe_nth_def find_slot_def Let_def case_prod_beta vs_alloc_heap)

lemma probe_queue_size: "fst (virtio_mmio_probe_nth did index s) = Some dev \<Longrightarrow> queue_size dev = 8"
  by (auto simp: virtio_mmio_probe_nth_def Let_def case_prod_beta QUEUE_SIZE_def split: if_splits)

lemma claim_returns:
  assumes "heap_inv (vs_heap s)" "queue_size dev = 8"
  obtains v' s' where "claim dev v s = Some (v', s')" "heap_inv (vs_heap s')" "vi_mouse v' = vi_mouse v" "vi_keyboard v' = vi_keyboard v"
proof -
  obtain name s1 where n: "device_name dev s = (name, s1)" by (cases "device_name dev s")
  have h: "heap_inv (vs_heap s1)" using assms(1) device_name_heap [of dev s] by (simp add: n)
  obtain p h' where k: "kmalloc 64 (vs_heap s1) = Some (p, h')" "heap_inv h'" by (rule kmalloc_returns [OF h, of 64]) auto
  have vk: "vs_kmalloc (8 * ucast (queue_size dev)) s1 = Some (p, s1\<lparr>vs_heap := h'\<rparr>)" using k(1) assms(2) by (simp add: vs_kmalloc_def)
  consider (kbd) "\<not> kbd_present v \<and> str_contains name str_Keyboard"
    | (mouse) "\<not> (\<not> kbd_present v \<and> str_contains name str_Keyboard)" "\<not> mouse_present v \<and> str_contains name str_Mouse"
    | (other) "\<not> (\<not> kbd_present v \<and> str_contains name str_Keyboard)" "\<not> (\<not> mouse_present v \<and> str_contains name str_Mouse)"
    by blast
  then show thesis
  proof cases
    case kbd
    then have "claim dev v s = Some (v\<lparr>kbd_dev := dev, kbd_present := True, kbd_bufs := p\<rparr>, seed_queue dev p (s1\<lparr>vs_heap := h'\<rparr>))"
      by (simp add: claim_def n vk)
    then show thesis by (rule that) (simp_all add: k(2))
  next
    case mouse
    then have "claim dev v s = Some (v\<lparr>mouse_dev := dev, mouse_present := True, mouse_bufs := p\<rparr>, seed_queue dev p (s1\<lparr>vs_heap := h'\<rparr>))"
      by (auto simp: claim_def n vk)
    then show thesis by (rule that) (simp_all add: k(2))
  next
    case other
    then have "claim dev v s = Some (v, s1)" by (auto simp: claim_def n)
    then show thesis by (rule that) (simp_all add: h)
  qed
qed

lemma input_scan_returns:
  assumes "heap_inv (vs_heap s)" "unat i + n = 32"
  shows "\<exists>v' s'. input_scan i v s = Some (v', s') \<and> heap_inv (vs_heap s') \<and> vi_mouse v' = vi_mouse v \<and> vi_keyboard v' = vi_keyboard v"
  using assms
proof (induction n arbitrary: i v s)
  case 0
  then have "fst (virtio_mmio_probe_nth VIRTIO_DEV_INPUT i s) = None" by (intro probe_none) simp
  then show ?case using 0(1) probe_heap [of s VIRTIO_DEV_INPUT i]
    by (subst input_scan.simps) (auto split: prod.split)
next
  case (Suc n)
  obtain r s1 where p: "virtio_mmio_probe_nth VIRTIO_DEV_INPUT i s = (r, s1)" by (cases "virtio_mmio_probe_nth VIRTIO_DEV_INPUT i s")
  have h: "heap_inv (vs_heap s1)" using probe_heap [OF Suc.prems(1), of VIRTIO_DEV_INPUT i] by (simp add: p)
  show ?case
  proof (cases "kbd_present v \<and> mouse_present v \<or> r = None")
    case True
    then show ?thesis using Suc.prems(1) h by (subst input_scan.simps) (auto simp: p)
  next
    case False
    then obtain dev where r: "r = Some dev" by auto
    then have q: "queue_size dev = 8" using probe_queue_size [of VIRTIO_DEV_INPUT i s dev] by (simp add: p)
    obtain v' s' where c: "claim dev v s1 = Some (v', s')" "heap_inv (vs_heap s')" "vi_mouse v' = vi_mouse v" "vi_keyboard v' = vi_keyboard v"
      by (rule claim_returns [OF h q])
    have "unat (i + 1) + n = 32" using Suc.prems(2) by (simp add: unat_word_ariths)
    from Suc.IH [OF c(2) this, of v'] show ?thesis using False r c by (subst input_scan.simps) (auto simp: p)
  qed
qed

section \<open>Draining a queue\<close>

text \<open>The buffers that the device has filled and the driver has not looked at, oldest first, and the events in them.\<close>

definition used_ids :: "virtio_device \<Rightarrow> mem \<Rightarrow> u16 list" where
  "used_ids dev m = map (\<lambda>k. ucast (load32 m (used_ring dev + 8 * ucast ((used_seen dev + of_nat k) mod queue_size dev))))
     [0..<unat (load16 m (used_idx dev) - used_seen dev)]"

definition pending :: "virtio_device \<Rightarrow> u64 \<Rightarrow> mem \<Rightarrow> virtio_input_event list" where
  "pending dev bufs m = map (\<lambda>j. load_event m (bufs + 8 * ucast j)) (used_ids dev m)"

text \<open>The last \<open>n\<close> buffers handed to the device.\<close>

definition posted :: "virtio_device \<Rightarrow> nat \<Rightarrow> mem \<Rightarrow> u16 list" where
  "posted dev n m = map (\<lambda>k. load16 m (avail_ring dev + 2 * ucast ((load16 m (avail_idx dev) - of_nat n + of_nat k) mod queue_size dev))) [0..<n]"

text \<open>The device is quiet while the driver drains, it named only buffers of the pool, and the ring that the
  driver writes is apart from what it reads.\<close>

definition drainable :: "virtio_device \<Rightarrow> u64 \<Rightarrow> ('x) vsys_scheme \<Rightarrow> bool" where
  "drainable dev bufs s \<longleftrightarrow> queue_size dev = 8 \<and> (\<forall>t log m. vs_dma s t log m = m)
     \<and> (\<forall>x :: u16. load32 (vs_mem s) (used_ring dev + 8 * ucast (x mod 8)) < 8)
     \<and> apart (vq_avail dev) 4096 (vq_used dev) 4096 \<and> apart (vq_avail dev) 4096 bufs 64"

lemma load_event_cong:
  assumes "load_bytes 8 m' p = load_bytes 8 m p"
  shows "load_event m' p = load_event m p"
proof -
  have part: "load_bytes n m (p + of_nat q) = take n (drop q (load_bytes 8 m p))" if "q + n \<le> 8" for m n q
    using that by (intro nth_equalityI) (auto simp: load_bytes_def add.assoc)
  show ?thesis using part [of 0 2] part [of 2 2] part [of 4 4] assms by (simp add: load_event_def load16_def load32_def)
qed

lemma published_reads:
  assumes "drainable dev bufs s"
  shows "load16 (published dev i m) (used_idx dev) = load16 m (used_idx dev)"
    "load32 (published dev i m) (used_ring dev + 8 * ucast ((x :: u16) mod 8)) = load32 m (used_ring dev + 8 * ucast (x mod 8))"
    "unat (j :: u16) < 8 \<Longrightarrow> load_event (published dev i m) (bufs + 8 * ucast j) = load_event m (bufs + 8 * ucast j)"
proof -
  have q: "queue_size dev = 8" and u: "apart (vq_avail dev) 4096 (vq_used dev) 4096" and b: "apart (vq_avail dev) 4096 bufs 64"
    using assms by (simp_all add: drainable_def)
  have k: "unat (x mod 8) < 8" using slot_small [OF q, of x] q by simp
  have ap: "apart (vq_avail dev) 4096 (used_idx dev) 2" "apart (vq_avail dev) 4096 (used_ring dev + 8 * ucast (x mod 8)) 4"
    using apart_sub [OF u, of 0 4096 2 2] apart_sub [OF u, of 0 4096 "4 + 8 * unat (x mod 8)" 4] k
    by (simp_all add: used_idx_def used_ring_def add.assoc)
  show "load16 (published dev i m) (used_idx dev) = load16 m (used_idx dev)"
    unfolding load16_def published_frame [OF q ap(1)] ..
  show "load32 (published dev i m) (used_ring dev + 8 * ucast (x mod 8)) = load32 m (used_ring dev + 8 * ucast (x mod 8))"
    unfolding load32_def published_frame [OF q ap(2)] ..
  show "load_event (published dev i m) (bufs + 8 * ucast j) = load_event m (bufs + 8 * ucast j)" if "unat j < 8"
  proof (rule load_event_cong, rule published_frame [OF q])
    show "apart (vq_avail dev) 4096 (bufs + 8 * ucast j) 8" using apart_sub [OF b, of 0 4096 "8 * unat j" 8] that by simp
  qed
qed

lemma used_id_small: "drainable dev bufs s \<Longrightarrow> unat (ucast (load32 (vs_mem s) (used_ring dev + 8 * ucast ((x :: u16) mod 8))) :: u16) < 8"
proof -
  assume "drainable dev bufs s"
  then have "unat (load32 (vs_mem s) (used_ring dev + 8 * ucast (x mod 8))) < 8" by (simp add: drainable_def word_less_nat_alt)
  then show ?thesis by (simp add: unsigned_ucast_eq take_bit_eq_mod)
qed

lemma look_quiet: "drainable dev bufs s \<Longrightarrow> vs_mem (look s) = vs_mem s \<and> vs_dma (look s) = vs_dma s"
  by (simp add: look_def drainable_def)

lemma poll_event_step:
  assumes d: "drainable dev bufs s"
  shows "used_ids dev (vs_mem s) = [] \<Longrightarrow> poll_event dev bufs s = (None, dev, look s)"
    "used_ids dev (vs_mem s) = j # js \<Longrightarrow> \<exists>dev' s'. poll_event dev bufs s = (Some (load_event (vs_mem s) (bufs + 8 * ucast j)), dev', s')
      \<and> vs_mem s' = published dev j (vs_mem s) \<and> dev' = dev\<lparr>used_seen := used_seen dev + 1\<rparr> \<and> drainable dev' bufs s'
      \<and> used_ids dev' (vs_mem s') = js \<and> pending dev' bufs (vs_mem s') = map (\<lambda>j. load_event (vs_mem s) (bufs + 8 * ucast j)) js"
proof -
  let ?m = "vs_mem s" and ?n = "unat (load16 (vs_mem s) (used_idx dev) - used_seen dev)"
  have q: "queue_size dev = 8" using d by (simp add: drainable_def)
  show "poll_event dev bufs s = (None, dev, look s)" if "used_ids dev ?m = []"
  proof -
    have "?n = 0" using that by (simp add: used_ids_def)
    then have "load16 ?m (used_idx dev) = used_seen dev" by (simp add: unat_eq_zero)
    then show ?thesis using look_quiet [OF d] by (simp add: poll_event_def virtio_poll_used_def Let_def)
  qed
  show "\<exists>dev' s'. poll_event dev bufs s = (Some (load_event ?m (bufs + 8 * ucast j)), dev', s')
      \<and> vs_mem s' = published dev j ?m \<and> dev' = dev\<lparr>used_seen := used_seen dev + 1\<rparr> \<and> drainable dev' bufs s'
      \<and> used_ids dev' (vs_mem s') = js \<and> pending dev' bufs (vs_mem s') = map (\<lambda>j. load_event ?m (bufs + 8 * ucast j)) js"
    if u: "used_ids dev ?m = j # js"
  proof -
    obtain k where k: "?n = Suc k" using u by (cases ?n) (simp_all add: used_ids_def)
    let ?dev = "dev\<lparr>used_seen := used_seen dev + 1\<rparr>" and ?s = "publish dev j (look s)"
    have ne: "load16 ?m (used_idx dev) \<noteq> used_seen dev" using k by auto
    have j: "j = ucast (load32 ?m (used_ring dev + 8 * ucast (used_seen dev mod 8)))"
      using u unfolding used_ids_def k by (simp add: upt_conv_Cons q del: upt_Suc)
    have pe: "publish ?dev i t = publish dev i t" for i and t :: "'a vsys_scheme" by (simp add: publish_def avail_idx_def avail_ring_def)
    have ev: "poll_event dev bufs s = (Some (load_event ?m (bufs + 8 * ucast j)), ?dev, ?s)"
      using ne look_quiet [OF d] by (simp add: poll_event_def virtio_poll_used_def virtio_publish_avail_def Let_def j q pe)
    have m: "vs_mem ?s = published dev j ?m" "vs_dma ?s = vs_dma s"
      using look_quiet [OF d] by (simp_all add: publish_eq [OF q] mmio_write_def)
    have d': "drainable ?dev bufs ?s"
      using d by (simp add: drainable_def m published_reads(2) [OF d] used_ring_def) (simp add: published_reads(2) [OF d, unfolded used_ring_def])
    have ids: "used_ids ?dev (published dev j ?m) = js"
    proof -
      have n': "unat (load16 ?m (used_idx dev) - (used_seen dev + 1)) = k"
        using k ne unat_minus_one [of "load16 ?m (used_idx dev) - used_seen dev"] by (simp add: diff_diff_eq [symmetric])
      have "js = map (\<lambda>i. ucast (load32 ?m (used_ring dev + 8 * ucast ((used_seen dev + of_nat i) mod queue_size dev)))) [Suc 0..<Suc k]"
        using u unfolding used_ids_def k by (simp add: upt_conv_Cons del: upt_Suc)
      also have "\<dots> = map (\<lambda>i. ucast (load32 ?m (used_ring dev + 8 * ucast ((used_seen dev + 1 + of_nat i) mod queue_size dev)))) [0..<k]"
        unfolding map_Suc_upt [symmetric] by (simp add: add.assoc)
      finally show ?thesis
        using n' published_reads(1) [OF d] published_reads(2) [OF d] by (simp add: used_ids_def q used_idx_def used_ring_def)
    qed
    have "load_event (published dev j ?m) (bufs + 8 * ucast i) = load_event ?m (bufs + 8 * ucast i)" if "i \<in> set js" for i
    proof -
      have "i \<in> set (used_ids dev ?m)" using that u by simp
      then have "unat i < 8" using used_id_small [OF d] by (auto simp: used_ids_def q)
      then show ?thesis by (rule published_reads(3) [OF d])
    qed
    then show ?thesis using ev m(1) d' ids by (auto simp: pending_def)
  qed
qed

lemma slot_unat: "unat ((b + of_nat k) mod 8 :: u16) = (unat b + k) mod 8"
proof -
  have "unat (b + of_nat k) = (unat b + k) mod 65536" by (simp add: unat_word_ariths unsigned_of_nat take_bit_eq_mod mod_add_right_eq)
  moreover have "(unat b + k) mod 65536 mod 8 = (unat b + k) mod 8" by (rule mod_mod_cancel) simp
  ultimately show ?thesis by (simp add: unat_mod_distrib)
qed

lemma published_other_slot:
  fixes x :: u16
  assumes "queue_size dev = 8" "unat (x mod 8) \<noteq> unat (load16 m (avail_idx dev) mod 8)"
  shows "load16 (published dev i m) (avail_ring dev + 2 * ucast (x mod 8)) = load16 m (avail_ring dev + 2 * ucast (x mod 8))"
proof -
  let ?j = "unat (x mod 8)" and ?k = "unat (load16 m (avail_idx dev) mod 8)"
  have lt: "?j < 8" "?k < 8" using slot_small [OF assms(1)] by (simp_all add: assms(1))
  have "apart (vq_avail dev + of_nat (4 + 2 * ?k)) 2 (vq_avail dev + of_nat (4 + 2 * ?j)) 2"
    using assms(2) lt by (intro apart_gap) auto
  then have "apart (avail_ring dev + 2 * ucast (load16 m (avail_idx dev) mod 8)) 2 (avail_ring dev + 2 * ucast (x mod 8)) 2"
    by (simp add: avail_ring_def add.assoc)
  moreover have "apart (avail_idx dev) 2 (avail_ring dev + 2 * ucast (x mod 8)) 2"
    using ring_apart [OF assms(1), of x] by (simp add: apart_sym assms(1))
  ultimately show ?thesis by (simp add: published_def assms(1))
qed

lemma mod_8_apart: "k < n \<Longrightarrow> n < 8 \<Longrightarrow> (b + n) mod 8 \<noteq> (b + k) mod (8 :: nat)"
  by (auto simp: mod_eq_dvd_iff_nat dest: dvd_imp_le)

lemma published_all:
  assumes "queue_size dev = 8"
  shows "load16 (fold (published dev) js m) (avail_idx dev) = load16 m (avail_idx dev) + of_nat (length js)"
  by (induction js arbitrary: m) (simp_all add: published_head [OF assms])

lemma posted_all:
  assumes q: "queue_size dev = 8" and "length js \<le> 8"
  shows "posted dev (length js) (fold (published dev) js m) = js"
  using assms(2)
proof (induction js rule: rev_induct)
  case (snoc j js)
  let ?m = "fold (published dev) js m" and ?n = "length js"
  let ?a = "load16 ?m (avail_idx dev)"
  have IH: "posted dev ?n ?m = js" using snoc by simp
  have old: "load16 (published dev j ?m) (avail_ring dev + 2 * ucast ((?a - of_nat ?n + of_nat k) mod 8))
      = load16 ?m (avail_ring dev + 2 * ucast ((?a - of_nat ?n + of_nat k) mod 8))" if "k < ?n" for k
  proof (rule published_other_slot [OF q])
    have "unat (?a mod 8) = (unat (?a - of_nat ?n) + ?n) mod 8" using slot_unat [of "?a - of_nat ?n" ?n] by simp
    moreover have "(unat (?a - of_nat ?n) + ?n) mod 8 \<noteq> (unat (?a - of_nat ?n) + k) mod 8"
      using that snoc.prems by (intro mod_8_apart) simp_all
    ultimately show "unat ((?a - of_nat ?n + of_nat k) mod 8) \<noteq> unat (?a mod 8)" unfolding slot_unat by simp
  qed
  have "posted dev (Suc ?n) (published dev j ?m) = posted dev ?n ?m @ [j]"
    using old published_head [OF q, of j ?m] by (simp add: posted_def q)
  then show ?case using IH by simp
qed (simp add: posted_def)

text \<open>A polling loop: it takes events off the queue until there is none, and handles each.\<close>

locale event_loop =
  fixes drain :: "virtio_device \<Rightarrow> u64 \<Rightarrow> 'k \<Rightarrow> ('x) vsys_scheme \<Rightarrow> ('k \<times> virtio_device \<times> ('x) vsys_scheme) option"
    and handle :: "virtio_input_event \<Rightarrow> 'k \<Rightarrow> 'k"
  assumes drain_step: "drain dev bufs k s =
    (case poll_event dev bufs s of (None, dev, s) \<Rightarrow> Some (k, dev, s) | (Some e, dev, s) \<Rightarrow> drain dev bufs (handle e k) s)"
begin

lemma drain_all:
  assumes "drainable dev bufs s"
  shows "\<exists>dev' s'. drain dev bufs k s = Some (fold handle (pending dev bufs (vs_mem s)) k, dev', s')
    \<and> vs_mem s' = fold (published dev) (used_ids dev (vs_mem s)) (vs_mem s)
    \<and> (\<exists>x. dev' = dev\<lparr>used_seen := x\<rparr>) \<and> drainable dev' bufs s' \<and> pending dev' bufs (vs_mem s') = []"
  using assms
proof (induction "used_ids dev (vs_mem s)" arbitrary: dev s k)
  case Nil
  then have u: "used_ids dev (vs_mem s) = []" by simp
  have "drain dev bufs k s = Some (k, dev, look s)" by (subst drain_step) (simp add: poll_event_step(1) [OF Nil.prems u])
  moreover have "\<exists>x. dev = dev\<lparr>used_seen := x\<rparr>" by (rule exI [of _ "used_seen dev"]) simp
  moreover have "drainable dev bufs (look s)" using Nil.prems look_quiet [OF Nil.prems] by (simp add: drainable_def)
  moreover have "vs_mem (look s) = vs_mem s" using look_quiet [OF Nil.prems] by simp
  ultimately show ?case using u by (simp add: pending_def)
next
  case (Cons j js)
  have u: "used_ids dev (vs_mem s) = j # js" using Cons.hyps(2) by simp
  obtain dev1 s1 where 1: "poll_event dev bufs s = (Some (load_event (vs_mem s) (bufs + 8 * ucast j)), dev1, s1)"
      "vs_mem s1 = published dev j (vs_mem s)" "dev1 = dev\<lparr>used_seen := used_seen dev + 1\<rparr>" "drainable dev1 bufs s1"
      "used_ids dev1 (vs_mem s1) = js" "pending dev1 bufs (vs_mem s1) = map (\<lambda>j. load_event (vs_mem s) (bufs + 8 * ucast j)) js"
    using poll_event_step(2) [OF Cons.prems u] by blast
  have same: "published dev1 i m = published dev i m" for i m by (simp add: published_def 1(3) avail_idx_def avail_ring_def)
  then have pub: "published dev1 = published dev" by blast
  obtain dev' s' x where r: "drain dev1 bufs (handle (load_event (vs_mem s) (bufs + 8 * ucast j)) k) s1
        = Some (fold handle (pending dev1 bufs (vs_mem s1)) (handle (load_event (vs_mem s) (bufs + 8 * ucast j)) k), dev', s')"
      "vs_mem s' = fold (published dev) js (published dev j (vs_mem s))" "dev' = dev1\<lparr>used_seen := x\<rparr>"
      "drainable dev' bufs s'" "pending dev' bufs (vs_mem s') = []"
    using Cons.hyps(1) [OF 1(5) [symmetric] 1(4), of "handle (load_event (vs_mem s) (bufs + 8 * ucast j)) k"] 1(2,5) pub by auto
  have d: "dev' = dev\<lparr>used_seen := x\<rparr>" by (simp add: r(3) 1(3))
  have pd: "pending dev bufs (vs_mem s) = load_event (vs_mem s) (bufs + 8 * ucast j) # pending dev1 bufs (vs_mem s1)"
    unfolding 1(6) by (simp add: pending_def u)
  have "drain dev bufs k s = Some (fold handle (pending dev bufs (vs_mem s)) k, dev', s')"
    by (subst drain_step) (simp add: 1(1) r(1) pd)
  then show ?case using r(2,4,5) d u by auto
qed

end

interpretation kbd_loop: event_loop kbd_drain handle_kbd_event
  by unfold_locales (rule kbd_drain.simps)

interpretation mouse_loop: event_loop "mouse_drain w h" "handle_mouse_event w h" for w h
  by unfold_locales (rule mouse_drain.simps)

section \<open>Properties\<close>

text \<open>Looking for the input devices ends, whatever the 32 slots answer and however many devices there
  are: \<open>virtio_input_init\<close> returns, the heap is intact, the cursor is in the middle of the screen and
  no key has been queued.\<close>

theorem virtio_input_init_returns:
  assumes "heap_inv (vs_heap s)"
  shows "\<exists>v' s'. virtio_input_init fb_width fb_height v s = Some (v', s') \<and> heap_inv (vs_heap s')
     \<and> vi_mouse v' = (vi_mouse v)\<lparr>mouse_x := fb_width div 2, mouse_y := fb_height div 2\<rparr> \<and> vi_keyboard v' = vi_keyboard v"
  using input_scan_returns [OF assms, of 0 32 "v\<lparr>vi_mouse := (vi_mouse v)\<lparr>mouse_x := fb_width div 2, mouse_y := fb_height div 2\<rparr>\<rparr>"]
  by (simp add: virtio_input_init_def)

definition demo_vinput :: vinput where
  "demo_vinput = \<lparr>vi_keyboard = \<lparr>kb_ring = empty_ring, shift_held = False\<rparr>, vi_mouse = demo_mouse, kbd_dev = blk_dev demo_blk,
     mouse_dev = blk_dev demo_blk, kbd_present = True, mouse_present = False, kbd_bufs = 0x20000, mouse_bufs = 0\<rparr>"

theorem virtio_input_init_returns_witness:
  "\<exists>v' s'. virtio_input_init 640 480 (demo_vinput\<lparr>kbd_present := False\<rparr>) demo_vsys = Some (v', s') \<and> mouse_x (vi_mouse v') = 320"
proof -
  have "heap_inv (vs_heap demo_vsys)" using demo_heap_rep by (auto simp: heap_inv_def demo_vsys_def)
  from virtio_input_init_returns [OF this, of 640 480 "demo_vinput\<lparr>kbd_present := False\<rparr>"] show ?thesis by auto
qed

text \<open>Property C39. Polling the keyboard takes every event that the device has completed, in the order of
  the used ring, applies it once, hands exactly those buffers back to the device in the same order, and leaves
  nothing pending; the loop returns. The device is quiet meanwhile and at most its 8 buffers are pending.\<close>

theorem virtio_keyboard_drains:
  assumes "kbd_present v" "drainable (kbd_dev v) (kbd_bufs v) s" "length (used_ids (kbd_dev v) (vs_mem s)) \<le> 8"
  shows "\<exists>c v' s'. virtio_keyboard_getchar v s = Some (c, v', s')
       \<and> (let k = fold handle_kbd_event (pending (kbd_dev v) (kbd_bufs v) (vs_mem s)) (vi_keyboard v) in
          (c, vi_keyboard v') = (fst (kb_pop (kb_ring k)), k\<lparr>kb_ring := snd (kb_pop (kb_ring k))\<rparr>))
       \<and> pending (kbd_dev v') (kbd_bufs v') (vs_mem s') = []
       \<and> posted (kbd_dev v) (length (used_ids (kbd_dev v) (vs_mem s))) (vs_mem s') = used_ids (kbd_dev v) (vs_mem s)"
proof -
  have q: "queue_size (kbd_dev v) = 8" using assms(2) by (simp add: drainable_def)
  obtain dev s1 where 1: "kbd_drain (kbd_dev v) (kbd_bufs v) (vi_keyboard v) s
        = Some (fold handle_kbd_event (pending (kbd_dev v) (kbd_bufs v) (vs_mem s)) (vi_keyboard v), dev, s1)"
      "vs_mem s1 = fold (published (kbd_dev v)) (used_ids (kbd_dev v) (vs_mem s)) (vs_mem s)" "pending dev (kbd_bufs v) (vs_mem s1) = []"
    using kbd_loop.drain_all [OF assms(2), of "vi_keyboard v"] by blast
  show ?thesis
    using assms(1) 1 posted_all [OF q assms(3)] by (simp add: virtio_keyboard_getchar_def Let_def case_prod_beta)
qed

text \<open>The same for the mouse; the caller sees the state after the last event.\<close>

theorem virtio_mouse_drains:
  assumes "mouse_present v" "drainable (mouse_dev v) (mouse_bufs v) s" "length (used_ids (mouse_dev v) (vs_mem s)) \<le> 8"
  shows "\<exists>r v' s'. virtio_mouse_get_state w h v s = Some (r, v', s')
       \<and> (let m = fold (handle_mouse_event w h) (pending (mouse_dev v) (mouse_bufs v) (vs_mem s)) (vi_mouse v) in
          r = (if mouse_dirty m then Some (mouse_x m, mouse_y m, mouse_buttons m) else None) \<and> vi_mouse v' = m\<lparr>mouse_dirty := False\<rparr>)
       \<and> pending (mouse_dev v') (mouse_bufs v') (vs_mem s') = []
       \<and> posted (mouse_dev v) (length (used_ids (mouse_dev v) (vs_mem s))) (vs_mem s') = used_ids (mouse_dev v) (vs_mem s)"
proof -
  have q: "queue_size (mouse_dev v) = 8" using assms(2) by (simp add: drainable_def)
  obtain dev s1 where 1: "mouse_drain w h (mouse_dev v) (mouse_bufs v) (vi_mouse v) s
        = Some (fold (handle_mouse_event w h) (pending (mouse_dev v) (mouse_bufs v) (vs_mem s)) (vi_mouse v), dev, s1)"
      "vs_mem s1 = fold (published (mouse_dev v)) (used_ids (mouse_dev v) (vs_mem s)) (vs_mem s)" "pending dev (mouse_bufs v) (vs_mem s1) = []"
    using mouse_loop.drain_all [OF assms(2), of w h "vi_mouse v"] by blast
  show ?thesis
    using assms(1) 1 posted_all [OF q assms(3)] by (simp add: virtio_mouse_get_state_def Let_def)
qed

text \<open>A keyboard whose device has put a press of the A key into buffer 0 and a release of it into buffer 1.\<close>

definition demo_events :: mem where
  "demo_events = (\<lambda>_. 0)(0x20000 := 1, 0x20002 := 30, 0x20004 := 1, 0x20008 := 1, 0x2000a := 30, 0x12002 := 2, 0x1200c := 1)"

lemma load_bytes_n: "load_bytes 2 m a = [m a, m (a + 1)]" "load_bytes 4 m a = [m a, m (a + 1), m (a + 2), m (a + 3)]"
  by (simp_all add: load_bytes_def upt_rec)

lemma demo_used: "load32 demo_events (used_ring (blk_dev demo_blk) + 8 * ucast ((x :: u16) mod 8)) < 8"
proof -
  have "load32 demo_events (0x12004 + 8 * of_nat k) < 8" if "k < 8" for k
  proof -
    have "k \<in> {0, 1, 2, 3, 4, 5, 6, 7}" using that by auto
    then show ?thesis by (elim insertE emptyE) (simp_all add: load32_def load_bytes_n bytes_word_def demo_events_def)
  qed
  moreover have "unat (x mod 8) < 8" by (simp add: unat_mod_distrib)
  ultimately have "load32 demo_events (0x12004 + 8 * of_nat (unat (x mod 8))) < 8" .
  then show ?thesis by (simp add: demo_blk_def used_ring_def)
qed

lemma demo_used_ids: "used_ids (blk_dev demo_blk) demo_events = [0, 1]"
proof -
  have "load16 demo_events (used_idx (blk_dev demo_blk)) = 2"
    by (simp add: load16_def load_bytes_n bytes_word_def demo_events_def demo_blk_def used_idx_def)
  moreover have "load32 demo_events (used_ring (blk_dev demo_blk)) = 0" "load32 demo_events (used_ring (blk_dev demo_blk) + 8) = 1"
    by (simp_all add: load32_def load_bytes_n bytes_word_def demo_events_def demo_blk_def used_ring_def)
  ultimately show ?thesis by (simp add: used_ids_def demo_blk_def upt_rec)
qed

lemma demo_pending:
  "pending (blk_dev demo_blk) 0x20000 demo_events = [\<lparr>ev_type = 1, ev_code = 30, ev_value = 1\<rparr>, \<lparr>ev_type = 1, ev_code = 30, ev_value = 0\<rparr>]"
proof -
  have "load_event demo_events 0x20000 = \<lparr>ev_type = 1, ev_code = 30, ev_value = 1\<rparr>"
    by (simp add: load_event_def load32_def load16_def load_bytes_n bytes_word_def demo_events_def)
  moreover have "load_event demo_events 0x20008 = \<lparr>ev_type = 1, ev_code = 30, ev_value = 0\<rparr>"
    by (simp add: load_event_def load32_def load16_def load_bytes_n bytes_word_def demo_events_def)
  ultimately show ?thesis by (simp add: pending_def demo_used_ids)
qed

lemma demo_key:
  "fst (kb_pop (kb_ring (fold handle_kbd_event [\<lparr>ev_type = 1, ev_code = 30, ev_value = 1\<rparr>, \<lparr>ev_type = 1, ev_code = 30, ev_value = 0\<rparr>]
      \<lparr>kb_ring = empty_ring, shift_held = False\<rparr>))) = 97"
  by (simp add: handle_kbd_event_def EV_KEY_def KEY_LEFTSHIFT_def KEY_RIGHTSHIFT_def scancode_ascii_a64_def kb_push_def kb_pop_def
        empty_ring_def KB_BUF_SIZE_def)

theorem virtio_keyboard_drains_witness:
  "\<exists>v' s'. virtio_keyboard_getchar demo_vinput (demo_vsys\<lparr>vs_mem := demo_events, vs_dma := (\<lambda>_ _ m. m)\<rparr>) = Some (97, v', s')
     \<and> posted (kbd_dev demo_vinput) 2 (vs_mem s') = [0, 1]"
proof -
  let ?s = "demo_vsys\<lparr>vs_mem := demo_events, vs_dma := (\<lambda>_ _ m. m)\<rparr>"
  have v: "kbd_dev demo_vinput = blk_dev demo_blk" "kbd_bufs demo_vinput = 0x20000" "kbd_present demo_vinput"
    "vi_keyboard demo_vinput = \<lparr>kb_ring = empty_ring, shift_held = False\<rparr>" by (simp_all add: demo_vinput_def)
  have "apart 0x11000 4096 0x12000 4096" "apart 0x11000 4096 0x20000 64"
    using apart_numerals [of "0x12000" 4096 "0x11000" 4096] apart_numerals [of "0x20000" 64 "0x11000" 4096] by simp_all
  moreover have "vq_avail (blk_dev demo_blk) = 0x11000" "vq_used (blk_dev demo_blk) = 0x12000" "queue_size (blk_dev demo_blk) = 8"
    by (simp_all add: demo_blk_def)
  ultimately have d: "drainable (kbd_dev demo_vinput) (kbd_bufs demo_vinput) ?s" using demo_used by (simp add: drainable_def v)
  from virtio_keyboard_drains [OF v(3) d] show ?thesis
    unfolding v Let_def using demo_key by (auto simp: demo_used_ids demo_pending numeral_2_eq_2)
qed

end
