(* ===== verification/Machine_a64.thy ===== *)
theory Machine_a64
  imports Kernel Syscall Timer Ramfb Virtio_blk Virtio_input
begin

text \<open>
  The aarch64 implementation of the interface, \<^verbatim>\<open>arch/aarch64/arch.c\<close>. The drivers share one register bus, memory and
  heap; each gets its view of the machine state and the state takes back what it changed. Addresses
  chosen by the linker or the compiler and the behaviour of the embedded user program are the
  fields of \<open>a64_env\<close>; the program's writes to the console are \<open>ae_user_io\<close>.
\<close>

section \<open>State\<close>

record a64 =
  ma_proc :: "cpu_a64 proc"
  ma_mair :: u64
  ma_tcr :: u64
  ma_sctlr :: u64
  ma_vbar :: u64
  ma_bus :: "a64_reg iobus"
  ma_time :: nat
  ma_dma :: "nat \<Rightarrow> a64_reg io_event list \<Rightarrow> mem \<Rightarrow> mem"
  ma_fb :: fb_state
  ma_blk :: blk
  ma_input :: vinput
  ma_reload :: u32
  ma_ticks :: u64
  ma_thread_at :: "u64 \<rightharpoonup> thread"
  ma_current :: u64
  ma_next_id :: u64
  ma_enabled :: bool

record a64_env =
  ae_boot_l1_table :: u64
  ae_vector_table :: u64
  ae_kernel_start :: physaddr
  ae_kernel_end :: physaddr
  ae_thread_trampoline :: u64
  ae_trampoline :: u64
  ae_hang :: u64
  ae_params :: u64
  ae_hello_start :: u64
  ae_hello_end :: u64
  ae_user :: "user_ctx \<Rightarrow> cpu_a64 proc \<Rightarrow> (i32 \<times> cpu_a64 proc) option"
  ae_user_io :: "a64_reg iobus \<Rightarrow> a64_reg iobus"
  ae_fw_access :: u64
  ae_fw_cfg :: u64
  ae_sector :: u64
  ae_buf :: "u8 list"

definition AARCH64_RAM_BASE :: u64 where "AARCH64_RAM_BASE = 0x40000000"
definition AARCH64_RAM_SIZE :: u64 where "AARCH64_RAM_SIZE = 1024 * 1024 * 1024"

text \<open>What the drivers see of the machine.\<close>

definition ma_sched :: "a64 \<Rightarrow> cpu_a64 sched" where
  "ma_sched s = \<lparr>sched_heap = vm_heap (ma_proc s), sched_cpu = proc_cpu (ma_proc s), thread_at = ma_thread_at s,
     current = ma_current s, next_id = ma_next_id s, sched_enabled = ma_enabled s\<rparr>"

definition ma_set_sched :: "cpu_a64 sched \<Rightarrow> a64 \<Rightarrow> a64" where
  "ma_set_sched c s = s\<lparr>ma_proc := (ma_proc s)\<lparr>vm_heap := sched_heap c, proc_cpu := sched_cpu c\<rparr>, ma_thread_at := thread_at c,
     ma_current := current c, ma_next_id := next_id c, ma_enabled := sched_enabled c\<rparr>"

definition ma_set_heap :: "heap \<Rightarrow> a64 \<Rightarrow> a64" where
  "ma_set_heap h s = s\<lparr>ma_proc := (ma_proc s)\<lparr>vm_heap := h\<rparr>\<rparr>"

definition ma_set_mem :: "mem \<Rightarrow> a64 \<Rightarrow> a64" where
  "ma_set_mem m s = s\<lparr>ma_proc := (ma_proc s)\<lparr>vm_mem := m\<rparr>\<rparr>"

definition ma_vsys :: "a64 \<Rightarrow> vsys" where
  "ma_vsys s = \<lparr>vs_bus = ma_bus s, vs_mem = vm_mem (ma_proc s), vs_heap = vm_heap (ma_proc s), vs_time = ma_time s, vs_dma = ma_dma s\<rparr>"

definition ma_set_vsys :: "vsys \<Rightarrow> a64 \<Rightarrow> a64" where
  "ma_set_vsys v s = s\<lparr>ma_bus := vs_bus v, ma_proc := (ma_proc s)\<lparr>vm_mem := vs_mem v, vm_heap := vs_heap v\<rparr>,
     ma_time := vs_time v, ma_dma := vs_dma v\<rparr>"

definition ma_timer :: "a64 \<Rightarrow> cpu_a64 a64_timer" where
  "ma_timer s = \<lparr>t_bus = ma_bus s, reload_ticks = ma_reload s, gt_ticks = ma_ticks s, gt_sched = ma_sched s\<rparr>"

section \<open>Operations\<close>

definition arch_name_a64 :: "u8 list" where
  "arch_name_a64 = c_string ''aarch64''"

definition arch_early_init_a64 :: "a64_env \<Rightarrow> a64 \<Rightarrow> a64" where
  "arch_early_init_a64 e s =
     (let b = aarch64_mmu_init (ae_boot_l1_table e)
            (vm.extend (vm.truncate (ma_proc s)) (boot_vm.fields (ma_mair s) (ma_tcr s) (ma_sctlr s)));
          s = s\<lparr>ma_proc := vm.extend (vm.truncate b) (vm.more (ma_proc s)), ma_mair := mair_el1 b, ma_tcr := tcr_el1 b, ma_sctlr := sctlr_el1 b\<rparr>
      in s\<lparr>ma_bus := uart_init (ma_bus s)\<rparr>)"

definition arch_console_init_a64 :: "a64 \<Rightarrow> a64" where "arch_console_init_a64 s = s"
definition arch_console_clear_a64 :: "a64 \<Rightarrow> a64" where "arch_console_clear_a64 s = s"

definition arch_console_putc_a64 :: "u8 \<Rightarrow> a64 \<Rightarrow> a64 option" where
  "arch_console_putc_a64 c s = do { b \<leftarrow> uart_putc c (ma_bus s); Some (s\<lparr>ma_bus := b\<rparr>) }"

definition puts_a64 :: "u8 list \<Rightarrow> a64 \<Rightarrow> a64 option" where
  "puts_a64 str s = do { b \<leftarrow> console_puts (\<lambda>c b. Option.bind b (uart_putc c)) str (Some (ma_bus s)); Some (s\<lparr>ma_bus := b\<rparr>) }"

text \<open>The report on the embedded program.\<close>

definition report_exit_a64 :: "u8 list \<Rightarrow> i32 \<Rightarrow> a64 \<Rightarrow> a64 option" where
  "report_exit_a64 buf exit_code s =
     (if sint exit_code < 0 then puts_a64 (c_string ''USERLAND: LOAD FAILED'' @ [10]) s
      else
        do {
          s \<leftarrow> puts_a64 (c_string ''USERLAND: EXIT '') s;
          b \<leftarrow> put_dec_a64 buf (\<lambda>c b. Option.bind b (uart_putc c)) exit_code (Some (ma_bus s));
          b \<leftarrow> b;
          puts_a64 [10] (s\<lparr>ma_bus := b\<rparr>)
        })"

definition arch_late_init_a64 :: "a64_env \<Rightarrow> a64 \<Rightarrow> ((u8 list \<times> a64) + a64) option" where
  "arch_late_init_a64 e s =
     do {
       (ok, p) \<leftarrow> vmm_selftest_a64 (ma_proc s);
       let s = s\<lparr>ma_proc := p\<rparr>;
       s \<leftarrow> puts_a64 (if ok then c_string ''VMM: OK'' @ [10] else c_string ''VMM: FAIL'' @ [10]) s;
       if \<not> ok then Some (Inl (c_string ''VMM self-test failed'', s))
       else do {
         let hello_size = ae_hello_end e - ae_hello_start e;
         (exit_code, p) \<leftarrow> process_run_a64 (ae_trampoline e) (ae_hang e) (ae_params e) (ae_user e) (ae_hello_start e) hello_size (ma_proc s);
         let s = s\<lparr>ma_proc := p, ma_bus := ae_user_io e (ma_bus s)\<rparr>;
         s \<leftarrow> report_exit_a64 (ae_buf e) exit_code s;
         (blk, v) \<leftarrow> virtio_blk_init (ma_blk s) (ma_vsys s);
         let s = (ma_set_vsys v s)\<lparr>ma_blk := blk\<rparr>;
         f \<leftarrow> fb_init_a64 (ae_fw_access e) (ae_fw_cfg e)
           \<lparr>rf_bus = ma_bus s, rf_mem = vm_mem (ma_proc s), rf_pmm = vm_pmm (ma_proc s), rf_fb = ma_fb s\<rparr>;
         let s = s\<lparr>ma_bus := rf_bus f, ma_fb := rf_fb f,
           ma_proc := (ma_proc s)\<lparr>vm_mem := rf_mem f, vm_heap := (vm_heap (ma_proc s))\<lparr>heap_pmm := rf_pmm f\<rparr>\<rparr>\<rparr>;
         s \<leftarrow> puts_a64 (if fb_available_a64 (ma_fb s) then c_string ''FB: OK'' @ [10] else c_string ''FB: NOT AVAILABLE'' @ [10]) s;
         (i, v) \<leftarrow> virtio_input_init (fb_width_a64 (ma_fb s)) (fb_height_a64 (ma_fb s)) (ma_input s) (ma_vsys s);
         Some (Inr ((ma_set_vsys v s)\<lparr>ma_input := i\<rparr>))
       }
     }"

definition arch_keyboard_getchar_a64 :: "a64 \<Rightarrow> (u8 \<times> a64) option" where
  "arch_keyboard_getchar_a64 s =
     do { (c, i, v) \<leftarrow> virtio_keyboard_getchar (ma_input s) (ma_vsys s); Some (c, (ma_set_vsys v s)\<lparr>ma_input := i\<rparr>) }"

definition arch_mouse_get_state_a64 :: "a64 \<Rightarrow> ((i32 \<times> i32 \<times> u8) option \<times> a64) option" where
  "arch_mouse_get_state_a64 s =
     do {
       (r, i, v) \<leftarrow> virtio_mouse_get_state (fb_width_a64 (ma_fb s)) (fb_height_a64 (ma_fb s)) (ma_input s) (ma_vsys s);
       Some (r, (ma_set_vsys v s)\<lparr>ma_input := i\<rparr>)
     }"

definition arch_gfx_available_a64 :: "a64 \<Rightarrow> bool" where "arch_gfx_available_a64 s = fb_available_a64 (ma_fb s)"
definition arch_gfx_width_a64 :: "a64 \<Rightarrow> u32" where "arch_gfx_width_a64 s = fb_width_a64 (ma_fb s)"
definition arch_gfx_height_a64 :: "a64 \<Rightarrow> u32" where "arch_gfx_height_a64 s = fb_height_a64 (ma_fb s)"

definition arch_gfx_put_pixel_a64 :: "a64 \<Rightarrow> u32 \<Rightarrow> u32 \<Rightarrow> u32 \<Rightarrow> mem \<Rightarrow> mem" where
  "arch_gfx_put_pixel_a64 s x y rgb = fb_put_pixel_a64 (ma_fb s) x y rgb"

definition arch_gfx_fill_rect_a64 :: "a64 \<Rightarrow> fill_op" where
  "arch_gfx_fill_rect_a64 s x y w h rgb = fb_fill_rect_a64 (ma_fb s) x y w h rgb"

definition arch_gfx_draw_line_a64 :: "a64 \<Rightarrow> int \<Rightarrow> int \<Rightarrow> int \<Rightarrow> int \<Rightarrow> u32 \<Rightarrow> mem \<Rightarrow> mem option" where
  "arch_gfx_draw_line_a64 s = fb_draw_line_a64 (ma_fb s)"

definition arch_gfx_draw_string_a64 :: "a64 \<Rightarrow> text_op" where
  "arch_gfx_draw_string_a64 s x y str fg bg = fb_draw_string_a64 (ma_fb s) x y str fg bg"

definition arch_interrupts_init_a64 :: "a64_env \<Rightarrow> a64 \<Rightarrow> a64" where
  "arch_interrupts_init_a64 e s =
     (let s = s\<lparr>ma_vbar := ae_vector_table e\<rparr> in s\<lparr>ma_bus := gic_init (ma_bus s)\<rparr>)"

definition set_daif :: "bool \<Rightarrow> a64 \<Rightarrow> a64" where
  "set_daif clear s = s\<lparr>ma_proc := (ma_proc s)\<lparr>proc_cpu := (proc_cpu (ma_proc s))\<lparr>daif_clear := clear\<rparr>\<rparr>\<rparr>"

definition arch_interrupts_enable_a64 :: "a64 \<Rightarrow> a64" where
  "arch_interrupts_enable_a64 s = set_daif True s"

definition arch_interrupts_disable_a64 :: "a64 \<Rightarrow> a64" where
  "arch_interrupts_disable_a64 s = set_daif False s"

definition arch_mm_init_a64 :: "a64_env \<Rightarrow> u64 \<Rightarrow> u64 \<Rightarrow> a64 \<Rightarrow> a64" where
  "arch_mm_init_a64 e boot_magic boot_info s =
     (let region = \<lparr>region_base = AARCH64_RAM_BASE, region_length = AARCH64_RAM_SIZE\<rparr>;
          p = pmm_init [region] (ae_kernel_start e) (ae_kernel_end e);
          s = ma_set_heap ((vm_heap (ma_proc s))\<lparr>heap_pmm := p\<rparr>) s
      in s\<lparr>ma_proc := vmm_init_a64 (ma_proc s)\<rparr>)"

definition arch_get_total_ram_a64 :: "a64 \<Rightarrow> u64" where
  "arch_get_total_ram_a64 s = AARCH64_RAM_SIZE"

text \<open>\<open>wfe\<close> and \<open>yield\<close> change nothing that is modelled.\<close>

definition arch_cpu_halt_a64 :: "a64 \<Rightarrow> a64" where "arch_cpu_halt_a64 s = s"
definition arch_cpu_relax_a64 :: "a64 \<Rightarrow> a64" where "arch_cpu_relax_a64 s = s"

definition arch_timer_init_a64 :: "u32 \<Rightarrow> a64 \<Rightarrow> a64 option" where
  "arch_timer_init_a64 hz s =
     do { t \<leftarrow> generic_timer_init hz (ma_timer s); Some (s\<lparr>ma_bus := t_bus t, ma_reload := reload_ticks t\<rparr>) }"

definition arch_timer_ticks_a64 :: "a64 \<Rightarrow> u64" where
  "arch_timer_ticks_a64 s = generic_timer_ticks (ma_timer s)"

definition arch_disk_available_a64 :: "a64 \<Rightarrow> bool" where
  "arch_disk_available_a64 s = virtio_blk_available (ma_blk s)"

text \<open>A sector arrives in the caller's buffer at \<open>buf\<close>.\<close>

definition arch_disk_read_sector_a64 :: "u64 \<Rightarrow> a64 \<Rightarrow> disk" where
  "arch_disk_read_sector_a64 buf s lba =
     (case virtio_blk_read_sector (ma_blk s) lba buf (ma_vsys s) of
        Some (True, b, v) \<Rightarrow> Some (load_bytes 512 (vs_mem v) buf)
      | _ \<Rightarrow> None)"

text \<open>A block device that answers with the sectors of an image is a disk that holds the image.\<close>

lemma blk_disk_image:
  assumes "blk_ready (ma_blk s) buf (vs_mem (ma_vsys s))" "blk_device D (blk_dev (ma_blk s)) (vs_dma (ma_vsys s))"
    and "\<forall>l :: u32. (unat l + 1) * 512 \<le> length img \<longrightarrow> D (ucast l) = take 512 (drop (unat l * 512) img)"
  shows "image_disk img \<subseteq>\<^sub>m arch_disk_read_sector_a64 buf s"
  unfolding map_le_def
proof
  fix l assume "l \<in> dom (image_disk img)"
  then have l: "(unat l + 1) * 512 \<le> length img" by (simp add: image_disk_def dom_def split: if_splits)
  obtain b v where "virtio_blk_read_sector (ma_blk s) l buf (ma_vsys s) = Some (True, b, v)" "load_bytes 512 (vs_mem v) buf = D (ucast l)"
    using blk_read_ok [OF assms(1,2), of l] by blast
  then show "image_disk img l = arch_disk_read_sector_a64 buf s l"
    using l assms(3) by (simp add: image_disk_def arch_disk_read_sector_a64_def)
qed

section \<open>The interface, implemented\<close>

definition arch_aarch64 :: "a64_env \<Rightarrow> (cpu_a64, a64) arch" where
  "arch_aarch64 e = \<lparr>
     op_name = arch_name_a64, op_early_init = arch_early_init_a64 e, op_late_init = arch_late_init_a64 e,
     op_console_init = arch_console_init_a64, op_console_putc = arch_console_putc_a64, op_console_clear = arch_console_clear_a64,
     op_keyboard_getchar = arch_keyboard_getchar_a64, op_mouse_get_state = arch_mouse_get_state_a64,
     op_gfx_available = arch_gfx_available_a64, op_gfx_width = arch_gfx_width_a64, op_gfx_height = arch_gfx_height_a64,
     op_gfx_put_pixel = arch_gfx_put_pixel_a64, op_gfx_fill_rect = arch_gfx_fill_rect_a64,
     op_gfx_draw_line = arch_gfx_draw_line_a64, op_gfx_draw_string = arch_gfx_draw_string_a64,
     op_interrupts_init = arch_interrupts_init_a64 e, op_interrupts_enable = arch_interrupts_enable_a64,
     op_interrupts_disable = arch_interrupts_disable_a64,
     op_mm_init = (\<lambda>magic info s. Some (arch_mm_init_a64 e magic info s)), op_get_total_ram = arch_get_total_ram_a64,
     op_cpu_halt = arch_cpu_halt_a64, op_cpu_relax = arch_cpu_relax_a64,
     op_timer_init = arch_timer_init_a64, op_timer_ticks = arch_timer_ticks_a64,
     op_threads = arch_a64 (ae_thread_trampoline e),
     op_disk_available = arch_disk_available_a64, op_disk = arch_disk_read_sector_a64 (ae_sector e),
     sh_mem = (\<lambda>s. vm_mem (ma_proc s)), sh_set_mem = ma_set_mem, sh_heap = (\<lambda>s. vm_heap (ma_proc s)), sh_set_heap = ma_set_heap,
     sh_sched = ma_sched, sh_set_sched = ma_set_sched\<rparr>"

lemmas ma_defs = ma_sched_def ma_set_sched_def ma_set_heap_def ma_set_mem_def

text \<open>A UART whose transmit FIFO drains.\<close>

definition uart_idle :: "a64 \<Rightarrow> bool" where
  "uart_idle s \<longleftrightarrow> uart_drains (io_dev (ma_bus s))"

interpretation a64_machine: machine "arch_aarch64 e" uart_idle "\<lambda>s. outs (io_log (ma_bus s))" "\<lambda>c l. l @ [(Mmio UART0_BASE, ucast c)]"
  "\<lambda>s b. s\<lparr>ma_bus := b\<rparr>" for e
proof (unfold_locales, goal_cases)
  case (1 s c)
  then obtain b where "uart_putc c (ma_bus s) = Some b" "io_dev b = io_dev (ma_bus s)"
    "outs (io_log b) = outs (io_log (ma_bus s)) @ [(Mmio UART0_BASE, ucast c)]"
    using uart_putc_ready [of "ma_bus s" c] by (auto simp: uart_idle_def)
  then show ?case using 1 by (simp add: arch_aarch64_def arch_console_putc_a64_def uart_idle_def)
next
  case (2 s s')
  from fun_cong [OF 2] show ?case by (cases s; cases s') (simp add: arch_aarch64_def)
next
  case (6 s s' h)
  from fun_cong [OF 6] show ?case by (cases s; cases s') (simp add: arch_aarch64_def ma_set_heap_def)
qed (simp_all add: arch_aarch64_def ma_defs uart_idle_def)

section \<open>Memory\<close>

lemma rest_a64: "(\<lambda>b. s\<lparr>ma_bus := b\<rparr>) = (\<lambda>b. s'\<lparr>ma_bus := b\<rparr>) \<Longrightarrow> s = s'\<lparr>ma_bus := ma_bus s\<rparr>"
  by (drule fun_cong [of _ _ "ma_bus s"]) simp

lemma fold_emit: "fold (\<lambda>c l. l @ [f c]) cs l = l @ map f cs"
  by (induction cs arbitrary: l) simp_all

text \<open>The frame allocator over the one region.\<close>

lemma ram_frames:
  assumes "0x40010000 \<le> unat ks" "unat ks \<le> unat ke" "unat ke < 0x40400000"
  defines "p \<equiv> pmm_init [\<lparr>region_base = AARCH64_RAM_BASE, region_length = AARCH64_RAM_SIZE\<rparr>] ks ke"
    and "u \<equiv> (unat ke + 7) div 8 * 8 + 0x10000"
  shows "pmm_ok p" "free_set p = {0x40000..<0x80000} - {unat ks div 4096..<u div 4096}" "run_at p 0x40000 16"
    "\<forall>m < 0x40000. \<not> run_at p m 16" "frames_touched (unat ks) (unat ke) \<inter> free_set p = {}"
    "bitmap_frames p \<inter> {0x40000..<0x40010} = {}" "4096 dvd unat ke \<Longrightarrow> bitmap_apart p"
proof -
  let ?rs = "[\<lparr>region_base = AARCH64_RAM_BASE, region_length = AARCH64_RAM_SIZE\<rparr>]"
  have h: "highest_address ?rs = 0x80000000" "usable_frames ?rs = {0x40000..<0x80000}"
    by (simp_all add: highest_address_def usable_frames_def frames_of_def AARCH64_RAM_BASE_def AARCH64_RAM_SIZE_def)
  have a: "unat (ALIGN_UP ke 8) = (unat ke + 7) div 8 * 8" using ALIGN_UP_8 [of ke] assms(3) by simp
  have up: "unat ke \<le> (unat ke + 7) div 8 * 8" "(unat ke + 7) div 8 * 8 \<le> unat ke + 7" by linarith+
  have be: "bitmap_end ?rs ke = ALIGN_UP ke 8 + 0x10000" by (simp add: bitmap_end_def h)
  have e: "unat (bitmap_end ?rs ke) = u" using a up assms(3) unfolding be u_def by (simp add: unat_plus_simple)
  show f: "free_set p = {0x40000..<0x80000} - {unat ks div 4096..<u div 4096}"
    unfolding p_def pmm_init_spec(4) h frames_of_def e by auto
  have k: "0x40010 \<le> unat ks div 4096" using div_le_mono [OF assms(1), of 4096] by simp
  then show "run_at p 0x40000 16" unfolding run_at_def f by auto
  have "m \<in> {m..<m + 16}" for m :: nat by simp
  then show "\<forall>m < 0x40000. \<not> run_at p m 16" unfolding run_at_def f by fastforce
  show "pmm_ok p" using f by (simp add: pmm_ok_def) (simp add: p_def pmm_init_spec)
  have "x div 4096 < u div 4096" if "x < unat ke" for x
  proof -
    have "x div 4096 \<le> unat ke div 4096" using that by (intro div_le_mono) simp
    moreover have "(unat ke + 4096) div 4096 \<le> u div 4096" using up(1) unfolding u_def by (intro div_le_mono) simp
    ultimately show ?thesis by simp
  qed
  then show "frames_touched (unat ks) (unat ke) \<inter> free_set p = {}" unfolding f frames_touched_def by (auto intro: div_le_mono)
  have "0x40010 \<le> x div 4096" if "unat (ALIGN_UP ke 8) \<le> x" for x
    using div_le_mono [of "0x40010000" x 4096] that assms(1,2) up(1) unfolding a by simp
  then show "bitmap_frames p \<inter> {0x40000..<0x40010} = {}"
    unfolding p_def bitmap_frames_def frames_touched_def pmm_init_spec(3) by fastforce
  show "bitmap_apart p" if al: "4096 dvd unat ke"
  proof -
    obtain q where q: "unat ke = 4096 * q" using al by (elim dvdE)
    have "(4096 * q + 7) div 8 = 512 * q" by simp
    then have "u = 4096 * (q + 16)" unfolding u_def q by simp
    then have "4096 dvd unat (bitmap_end ?rs ke)" unfolding e by (rule dvdI)
    then show ?thesis unfolding p_def using assms(2,3) by (intro pmm_init_apart(3)) simp_all
  qed
qed

text \<open>The lowest run is the one taken.\<close>

lemma first_run:
  assumes "pmm_ok p" "run_at p n 16" "\<forall>m < n. \<not> run_at p m 16" "pmm_alloc_frames 16 p = (a, q)"
  shows "unat a = n * 4096" "free_set q = free_set p - {n..<n + 16}"
proof -
  have inv: "pmm_inv p" "(16 :: u64) \<noteq> 0" using assms(1) by (simp_all add: pmm_ok_def)
  then have "unat a = n * 4096 \<and> free_set q = free_set p - {n..<n + 16}"
  proof (cases rule: pmm_alloc_frames_cases)
    case (found m q')
    then have "m = n" using assms(2,3) by (cases m n rule: linorder_cases) auto
    moreover have "n \<in> free_set p" using assms(2) by (auto simp: run_at_def)
    ultimately show ?thesis using found(3,5) assms(4) unat_of_free(3) [of p n] inv(1) by simp
  next
    case full
    then show ?thesis using assms(2) by simp
  qed
  then show "unat a = n * 4096" "free_set q = free_set p - {n..<n + 16}" by simp_all
qed

text \<open>Property C3. On aarch64 the kernel gets its memory: with a UART whose transmit FIFO drains and a kernel image anywhere from 64 KB
  into memory up to its first 4 MB (\<^verbatim>\<open>linker.ld\<close> puts it at \<^verbatim>\<open>0x40080000\<close>), the first steps of \<open>kernel_main\<close> return,
  the UART has been sent exactly the banner, the installed gigabyte in decimal and the report that the heap works, and the heap
  is left sound and empty in the first 16 frames of memory. The free frames are exactly the rest of the gigabyte
  without the frames from the start of the image up to, not including, the one in which the bitmap ends; so no frame that the image touches is
  free or in the heap, and the heap does not touch the bitmap. When the image ends on a frame boundary no free frame touches the bitmap either.\<close>

theorem kernel_memory_a64:
  assumes r: "uart_idle s" "length buf = 21" "arena_list (vm_heap (ma_proc s)) = 0"
    and k: "0x40010000 \<le> unat (ae_kernel_start e)" "unat (ae_kernel_start e) \<le> unat (ae_kernel_end e)" "unat (ae_kernel_end e) < 0x40400000"
  shows "\<exists>s'. kernel_memory (arch_aarch64 e) buf magic info s = Some s' \<and> heap_inv (vm_heap (ma_proc s')) \<and> live (vm_heap (ma_proc s')) = {}
    \<and> outs (io_log (ma_bus s')) = outs (io_log (ma_bus s)) @ map (\<lambda>c. (Mmio UART0_BASE, ucast c))
        ([10] @ c_string ''MegKer'' @ [10] @ c_string ''RAM: 1024 MB'' @ [10] @ c_string ''Heap: OK'' @ [10])
    \<and> heap_frames (vm_heap (ma_proc s')) = {0x40000..<0x40010}
    \<and> free_set (vm_pmm (ma_proc s')) = {0x40010..<0x80000}
        - {unat (ae_kernel_start e) div 4096..<((unat (ae_kernel_end e) + 7) div 8 * 8 + 0x10000) div 4096}
    \<and> frames_touched (unat (ae_kernel_start e)) (unat (ae_kernel_end e)) \<inter> (free_set (vm_pmm (ma_proc s')) \<union> heap_frames (vm_heap (ma_proc s'))) = {}
    \<and> bitmap_frames (vm_pmm (ma_proc s')) \<inter> heap_frames (vm_heap (ma_proc s')) = {}
    \<and> (4096 dvd unat (ae_kernel_end e) \<longrightarrow> bitmap_clear (vm_heap (ma_proc s')))"
proof -
  let ?A = "arch_aarch64 e" and ?r = "\<lambda>s b. s\<lparr>ma_bus := b\<rparr>" and ?s1 = "arch_mm_init_a64 e magic info s"
  define p where "p = pmm_init [\<lparr>region_base = AARCH64_RAM_BASE, region_length = AARCH64_RAM_SIZE\<rparr>] (ae_kernel_start e) (ae_kernel_end e)"
  note f = ram_frames [OF k, folded p_def]
  have mm: "\<exists>t. op_mm_init ?A magic info s0 = Some t \<and> uart_idle t \<and> outs (io_log (ma_bus t)) = outs (io_log (ma_bus s0)) \<and> heap_pmm (sh_heap ?A t) = p
      \<and> arena_list (sh_heap ?A t) = 0 \<and> ?r t = ?r ?s1 \<and> op_get_total_ram ?A t = AARCH64_RAM_SIZE"
    if "uart_idle s0" "?r s0 = ?r s" for s0
  proof -
    have "vm_heap (ma_proc s0) = vm_heap (ma_proc s)" using a64_machine.rest_heap [OF that(2)] by (simp add: arch_aarch64_def)
    moreover have "?r (arch_mm_init_a64 e magic info s0) = ?r ?s1"
      using fun_cong [OF that(2)] by (cases s0; cases s) (simp add: arch_mm_init_a64_def ma_set_heap_def)
    ultimately show ?thesis using that(1) r(3)
      by (simp add: arch_aarch64_def arch_get_total_ram_a64_def) (simp add: arch_mm_init_a64_def ma_set_heap_def vmm_init_a64_def uart_idle_def p_def)
  qed
  have ram: "op_get_total_ram ?A s0 = op_get_total_ram ?A s2" for s0 s2 by (simp add: arch_aarch64_def arch_get_total_ram_a64_def)
  obtain s' a h where m: "kernel_memory ?A buf magic info s = Some s'" "fresh_heap a h" "sh_heap ?A s' = h" "pmm_alloc_frames 16 p = (a, heap_pmm h)"
    "outs (io_log (ma_bus s')) = fold (\<lambda>c l. l @ [(Mmio UART0_BASE, ucast c)]) ([10] @ c_string ''MegKer'' @ [10] @ c_string ''RAM: ''
       @ shown (unat AARCH64_RAM_SIZE div (1024 * 1024)) @ c_string '' MB'' @ [10] @ c_string ''Heap: OK'' @ [10]) (outs (io_log (ma_bus s)))"
    using a64_machine.memory_ok [OF r(1,2) mm f(1,3) ram] by blast
  have "shown (unat AARCH64_RAM_SIZE div (1024 * 1024)) = c_string ''1024''"
    by (simp add: AARCH64_RAM_SIZE_def shown_def dec_digits.simps c_string_def)
  then have out: "outs (io_log (ma_bus s')) = outs (io_log (ma_bus s)) @ map (\<lambda>c. (Mmio UART0_BASE, ucast c))
      ([10] @ c_string ''MegKer'' @ [10] @ c_string ''RAM: 1024 MB'' @ [10] @ c_string ''Heap: OK'' @ [10])"
    using m(5) by (simp add: fold_emit) (simp add: c_string_def)
  note w = first_run [OF f(1,3,4) m(4)]
  have hf: "heap_frames h = {0x40000..<0x40010}" using fresh_frames [OF m(2)] w(1) by simp
  have fs: "free_set (heap_pmm h) = {0x40010..<0x80000}
      - {unat (ae_kernel_start e) div 4096..<((unat (ae_kernel_end e) + 7) div 8 * 8 + 0x10000) div 4096}"
    unfolding w(2) f(2) by auto
  have bf: "bitmap_frames (heap_pmm h) = bitmap_frames p" by (rule alloc_run_bitmap(1) [OF f(1) m(4)])
  have sub: "free_set (heap_pmm h) \<union> heap_frames h \<subseteq> free_set p" using f(3) w(2) unfolding hf run_at_def by auto
  have im: "frames_touched (unat (ae_kernel_start e)) (unat (ae_kernel_end e)) \<inter> (free_set (heap_pmm h) \<union> heap_frames h) = {}" using f(5) sub by blast
  have cl: "4096 dvd unat (ae_kernel_end e) \<longrightarrow> bitmap_clear h" using f(7) fresh_clear [OF m(2) f(1) _ m(4)] by blast
  have inv: "heap_inv h" "live h = {}" using m(2) by (simp_all add: fresh_heap_def)
  have sh: "vm_heap (ma_proc s') = h" using m(3) by (simp add: arch_aarch64_def)
  show ?thesis by (rule exI [of _ s'], unfold sh, intro conjI m(1) inv out hf fs im cl) (simp add: bf hf f(6))
qed

text \<open>A machine before \<open>kernel_main\<close>, with a kernel linked as \<^verbatim>\<open>linker.ld\<close> does.\<close>

definition demo_a64_env :: a64_env where
  "demo_a64_env = \<lparr>ae_boot_l1_table = 0x40090000, ae_vector_table = 0x40080800, ae_kernel_start = 0x40080000, ae_kernel_end = 0x400A5120,
     ae_thread_trampoline = 0x40081000, ae_trampoline = 0x40081100, ae_hang = 0x40081140, ae_params = 0x40095000, ae_hello_start = 0x40091000,
     ae_hello_end = 0x40092000, ae_user = (\<lambda>_ s. Some (0, s)), ae_user_io = id, ae_fw_access = 0x40096000, ae_fw_cfg = 0x40097000,
     ae_sector = 0x40098000, ae_buf = replicate 11 0\<rparr>"

definition demo_a64 :: a64 where
  "demo_a64 = \<lparr>ma_proc = \<lparr>vm_mem = (\<lambda>_. 0), vm_heap = \<lparr>heap_pmm = demo_pmm, arena_list = 0, arena_at = (\<lambda>_. None), block_at = (\<lambda>_. None)\<rparr>,
     kernel_root = 0, root_reg = 0, as_at = (\<lambda>_. None), tlb_log = [], proc_cpu = demo_cpu_a64 0x40099000, kernel_return_sp = 0, process_exit_code = 0\<rparr>,
     ma_mair = 0, ma_tcr = 0, ma_sctlr = 0, ma_vbar = 0, ma_bus = demo_uart, ma_time = 0, ma_dma = (\<lambda>_ _ m. m),
     ma_fb = \<lparr>fbs_present = False, fbs_addr = 0, fbs_pitch = 0, fbs_width = 0, fbs_height = 0\<rparr>, ma_blk = demo_blk\<lparr>disk_present := False\<rparr>,
     ma_input = demo_vinput\<lparr>kbd_present := False\<rparr>, ma_reload = 0, ma_ticks = 0, ma_thread_at = (\<lambda>_. None), ma_current = 0, ma_next_id = 0,
     ma_enabled = False\<rparr>"

theorem kernel_memory_a64_witness:
  "\<exists>s'. kernel_memory (arch_aarch64 demo_a64_env) (replicate 21 0) 0 0x48000000 demo_a64 = Some s' \<and> live (vm_heap (ma_proc s')) = {}
     \<and> length (outs (io_log (ma_bus s'))) = 30 \<and> free_set (vm_pmm (ma_proc s')) = {0x40010..<0x40080} \<union> {0x400B5..<0x80000}"
proof -
  have d: "uart_idle demo_a64" "arena_list (vm_heap (ma_proc demo_a64)) = 0" "outs (io_log (ma_bus demo_a64)) = []"
    using demo_uart_drains by (simp_all add: uart_idle_def demo_a64_def) (simp add: demo_uart_def)
  have e: "unat (ae_kernel_start demo_a64_env) = 0x40080000" "unat (ae_kernel_end demo_a64_env) = 0x400A5120" by (simp_all add: demo_a64_env_def)
  have "length (replicate 21 (0 :: u8)) = 21" by simp
  note x = kernel_memory_a64 [OF d(1) this d(2), of demo_a64_env 0 "0x48000000", unfolded e d(3)]
  have u: "{0x40010..<0x80000} - {0x40080000 div 4096..<((0x400A5120 + 7) div 8 * 8 + 0x10000) div 4096} = {0x40010..<0x40080} \<union> {0x400B5..<0x80000 :: nat}" by auto
  obtain s' where s': "kernel_memory (arch_aarch64 demo_a64_env) (replicate 21 0) 0 0x48000000 demo_a64 = Some s'" "live (vm_heap (ma_proc s')) = {}"
    "outs (io_log (ma_bus s')) = [] @ map (\<lambda>c. (Mmio UART0_BASE, ucast c))
        ([10] @ c_string ''MegKer'' @ [10] @ c_string ''RAM: 1024 MB'' @ [10] @ c_string ''Heap: OK'' @ [10])"
    "free_set (vm_pmm (ma_proc s')) = {0x40010..<0x40080} \<union> {0x400B5..<0x80000}" using x unfolding u by auto
  have "length (outs (io_log (ma_bus s'))) = 30" unfolding s'(3) by (simp add: c_string_def)
  then show ?thesis using s'(1,2,4) by blast
qed

end
