(* ===== verification/Spec2Isabelle.thy ===== *)
theory Spec2Isabelle
  imports Irq_x86 Machine_a64
begin

text \<open>
  This development verifies MegKer, a small kernel for x86\_64 and aarch64. It follows the C sources (with \<^verbatim>\<open>tools/mkfs.py\<close>
  and the assembler of the context switch and of the entry into user mode) function by function.

  \<^bold>\<open>The program.\<close> The boot loader enters \<open>kernel_main\<close> (\<^verbatim>\<open>kernel/kernel.c\<close>), which calls the architecture only through the
  functions of \<^verbatim>\<open>include/arch/arch.h\<close>. It brings up the console, hands the memory map to the physical memory manager, checks
  the heap, sets up interrupts and the timer, lets the architecture test its virtual memory and run a first user process
  from an ELF image, shows a file of the disk's file system, and starts the scheduler with two threads: the boot thread, which
  goes on to draw the windows or to echo the keyboard, and the blinker. Timer interrupts switch between them.

  \<^bold>\<open>Theories and sources.\<close> Each theory's own opening text has the details.

  \<^item> Prelude: the integer types and alignment macros of \<^verbatim>\<open>include/kernel/types.h\<close> as words, and generic lemmas. Mem and Regions:
    byte-addressed little-endian memory and framing. Ports: port and register access (\<^verbatim>\<open>include/arch/x86_64/io.h\<close>); a device is
    a function from the history of accesses to its answer.
  \<^item> Pmm (\<^verbatim>\<open>mm/pmm.c\<close>) and Heap (\<^verbatim>\<open>mm/heap.c\<close>): the frame bitmap and the first-fit allocator with its arenas. Abstractions:
    \<open>free_set\<close>, the free frames, and \<open>live\<close>, the allocated buffers; invariants \<open>pmm_inv\<close> and \<open>heap_inv\<close>.
  \<^item> Multiboot (\<^verbatim>\<open>arch/x86_64/mm/multiboot2.c\<close>): from the boot loader's memory map to the regions of the frame allocator.
  \<^item> PageTable, Vmm\_x86 (\<^verbatim>\<open>arch/x86_64/mm/vmm.c\<close>, \<^verbatim>\<open>paging.c\<close>), Vmm\_a64 (\<^verbatim>\<open>arch/aarch64/mm/vmm.c\<close>, \<^verbatim>\<open>mmu_boot.c\<close>): trees of tables
    independent of the entry format, and the two managers as instances. Spaces: the life of an address space, and the self-tests of
    the two \<^verbatim>\<open>arch.c\<close>.
  \<^item> Loader, Process (\<^verbatim>\<open>arch/*/process.c\<close>, \<^verbatim>\<open>usermode.asm\<close>, \<^verbatim>\<open>usermode.S\<close>), Syscall (\<^verbatim>\<open>arch/*/syscall.c\<close>), Userland
    (\<^verbatim>\<open>userland/*.c\<close>): the ELF loader, launch and return of a process, its system calls, and the two programs.
  \<^item> Switch (\<^verbatim>\<open>arch/*/sched.c\<close> and \<^verbatim>\<open>context_switch\<close>), Sched (\<^verbatim>\<open>kernel/sched.c\<close>), Timer (\<^verbatim>\<open>pit.c\<close>, \<^verbatim>\<open>timer.c\<close>, \<^verbatim>\<open>gic.c\<close>, \<^verbatim>\<open>irq.c\<close>): threads
    in a ring, switched by the clock. Invariants \<open>sched_rep\<close> and \<open>sched_inv\<close>, and reachability under \<open>sched_step\<close>.
  \<^item> Descriptors (\<^verbatim>\<open>gdt.c\<close>, \<^verbatim>\<open>tss.c\<close>), Interrupts (\<^verbatim>\<open>idt.c\<close>), Irq\_x86: segment and interrupt tables, the dispatcher, and the
    dispatcher with the kernel's handlers on the kernel's whole state.
  \<^item> Keyboard, Mouse, Console, Ata (drivers of \<^verbatim>\<open>arch/x86_64/drivers\<close> and their aarch64 counterparts), Virtio, Virtio\_blk,
    Virtio\_input, Ramfb (\<^verbatim>\<open>arch/aarch64/drivers\<close>), Font, Framebuffer: input, text, disks and graphics.
  \<^item> Vfs (\<^verbatim>\<open>fs/vfs.c\<close>, \<^verbatim>\<open>tools/mkfs.py\<close>) and Gui (\<^verbatim>\<open>gui/gui.c\<close>): the read-only file system with the builder of its images, and the
    window compositor.
  \<^item> Kernel (\<^verbatim>\<open>kernel/kernel.c\<close>), Machine\_x86 (\<^verbatim>\<open>arch/x86_64/arch.c\<close>), Machine\_a64 (\<^verbatim>\<open>arch/aarch64/arch.c\<close>): the kernel over the record
    \<open>arch\<close> of the interface's functions, and its two implementations on records of all the drivers' states. This theory has what
    spans all of them.

  \<^bold>\<open>Interfaces.\<close> Where one part relies on another, a locale states the contract and is interpreted on the definitions of the part that
  provides it: \<open>paging\<close> (entry formats), \<open>user_space\<close> and \<open>space_life\<close> (virtual memory for the loader, the processes and the self-tests; both
  managers), \<open>context_switcher\<close> (both architectures), \<open>clock\<close> (interval timer, generic timer, and the timer interrupt of the whole x86\_64
  kernel), the bounded queue of the two keyboards, \<open>gfx\<close> (both framebuffers), frames for the heap, and \<open>machine\<close> (both
  architectures for the kernel).

  \<^bold>\<open>What is shown.\<close> Memory: the frame allocator hands out the lowest free frame or run, only frames of available memory between the
  limits, and none of the kernel image or the bitmap when the bitmap ends on a frame boundary; heap buffers are disjoint and \<open>kfree\<close> releases exactly one. Virtual memory: mapping and translation
  agree, spaces are isolated, destroying one frees exactly its tables, the self-test passes and has no lasting effect. Processes:
  the loader refines a map from addresses to bytes; \<open>process_run\<close> returns with the kernel's registers, translations and heap buffers as they were; the program \<^verbatim>\<open>hello.c\<close> draws its string and
  exits; system calls touch nothing outside the framebuffer. Threads: the ring invariant in all reachable states, round-robin order
  under interrupts, context switches that resume where they left off. Drivers: sectors read are the disk's, rings are first-in-first-out, drawing
  stays in bounds, searches and line drawing end. Files: what \<^verbatim>\<open>mkfs.py\<close> packs is read back, and shown by the boot
  sequence. Boot: \<open>kernel_main\<close> reaches its idle loop with the documented text on the screen, and timer interrupts then alternate
  between the two threads.

  \<^bold>\<open>Conventions.\<close> C integers are words of their width, and signed ones are read with \<open>sint\<close>. \<open>None\<close> is a fault (a pointer
  without an object, a write outside a buffer), undefined behaviour, or a loop that does not end; loops that may run forever are partial
  functions, and the theorems state that a result is produced. There is no fuel; the limits in the model are those of the code (100000 polls of a
  disk, 64 memory regions, four windows, 256 slots of a ring). Addresses chosen by the linker or compiler, the initial contents of
  stack buffers, devices, and what a process does in user mode are arguments. Names that both architectures define carry a suffix.
  Local memory of the processor's stacks (\<open>mem_x86\<close>, \<open>mem_a64\<close>) is kept apart from the byte memory of pages and devices, and so are the heap's
  headers: the code never accesses one through the other as long as the allocators' invariants hold. The bitmap of the frame allocator
  is kept apart from the frames it hands out; this is faithful as long as no byte of it lies in a free frame or in one of the heap
  (\<open>bitmap_apart\<close>, \<open>bitmap_clear\<close>). \<open>pmm_init\<close> gives it when the bitmap ends on a frame boundary, and the statements
  about the kernel from its boot on that speak of the heap assume or prove it. In general it fails: \<^verbatim>\<open>linker.ld\<close> does not align the end of the image, \<open>mark_range\<close> rounds the end of the
  reservation down, and on x86\_64 the first frame handed out is then the one with the bitmap's last bytes
  (\<open>pmm_init_bitmap_tail_handed_out\<close>). Arithmetic on signed coordinates wraps where C leaves it undefined, and
  where the code does not
  check that the allocation of a stack or buffer succeeded (\<open>thread_create\<close>, \<open>process_run\<close>, the input driver), its writes near
  address 0 are ordinary writes of the model and not \<open>None\<close>.

  \<^bold>\<open>Not modelled.\<close> The assembler that runs before \<open>kernel_main\<close> and that saves registers around interrupt handlers, the linker scripts and the
  \<^verbatim>\<open>Makefile\<close>; caches and the translation buffer beyond the log of flushes; interrupts between the steps of \<open>kernel_main\<close> before its idle loop (the
  scheduler is not enabled until the last of them, so a tick only counts), and the interleaving of handlers with the polling of
  their buffers. A sector read during boot is a function of the state in which the reading starts, so the effect of the reads on the
  controller's log is dropped. The empty directories for other architectures have no code.
\<close>

section \<open>Booting\<close>

lemma kernel_up:
  assumes t: "text_machine e info ts (k_hw k)" and buf: "length buf = 21" and v: "\<not> available (k_vfs k)"
  shows "\<exists>k' t. kernel_main (arch_x86_64 e) blinker buf filebuf MULTIBOOT2_BOOTLOADER_MAGIC info k = Some (Up k')
    \<and> kernel_state k' = KERNEL_STATE_RUNNING
    \<and> mx_vga (k_hw k') = fold arch_console_putc ([10] @ c_string ''MegKer'' @ [10] @ c_string ''RAM: ''
        @ shown (unat (available_ram (map_entries ts)) div (1024 * 1024)) @ c_string '' MB'' @ [10] @ c_string ''Heap: OK'' @ [10])
        (arch_console_init (mx_vga (k_hw k)))
    \<and> iflag (proc_cpu (mx_proc (k_hw k'))) \<and> irq_handlers (mx_irqs (k_hw k')) ! 0 = Some H_pit_tick
    \<and> irq_handlers (mx_irqs (k_hw k')) ! 1 = Some H_keyboard_irq
    \<and> mx_enabled (k_hw k') \<and> sched_inv (mx_sched (k_hw k')) [mx_current (k_hw k'), t]
    \<and> (\<exists>c. mx_thread_at (k_hw k') (mx_current (k_hw k')) = Some c \<and> t_state c = THREAD_RUNNING)
    \<and> (\<exists>n. mx_thread_at (k_hw k') t = Some n \<and> t_state n = THREAD_READY
         \<and> t_sp n = t_stack_base n + THREAD_STACK_SIZE - 56 \<and> mem_x86 (proc_cpu (mx_proc (k_hw k'))) (t_sp n + 24) = blinker
         \<and> mem_x86 (proc_cpu (mx_proc (k_hw k'))) (t_sp n + 48) = xe_thread_trampoline e)
    \<and> (bitmap_apart (pmm_init (concat (map clip (map_entries ts))) (xe_kernel_start e) (xe_kernel_end e))
         \<longrightarrow> bitmap_clear (vm_heap (mx_proc (k_hw k'))))"
proof -
  let ?A = "arch_x86_64 e"
  define s0 where "s0 = op_console_init ?A (op_early_init ?A (k_hw k))"
  have s0: "mx_proc s0 = mx_proc (k_hw k)" "mx_boot s0 = mx_boot (k_hw k)" "mx_irqs s0 = mx_irqs (k_hw k)"
    "mx_vga s0 = arch_console_init (mx_vga (k_hw k))"
    by (simp_all add: s0_def arch_x86_64_def arch_early_init_x86_def Let_def case_prod_beta)
  have tm: "text_machine e info ts s0" using t by (simp add: text_machine_def s0)
  obtain a h b p w where m: "kernel_memory ?A buf MULTIBOOT2_BOOTLOADER_MAGIC info s0 = Some (s0\<lparr>mx_vga := w, mx_boot := b, mx_proc := p\<lparr>vm_heap := h\<rparr>\<rparr>)"
    "proc_cpu p = proc_cpu (mx_proc s0)" "w = fold arch_console_putc ([10] @ c_string ''MegKer'' @ [10] @ c_string ''RAM: '' @ shown (unat (available_ram (map_entries ts)) div (1024 * 1024))
       @ c_string '' MB'' @ [10] @ c_string ''Heap: OK'' @ [10]) (mx_vga s0)" "fresh_heap a h" "free_set (heap_pmm h) \<subseteq> {256..<262144}" "\<not> fb_present (framebuffer_info b)"
    "bitmap_apart (pmm_init (concat (map clip (map_entries ts))) (xe_kernel_start e) (xe_kernel_end e)) \<longrightarrow> bitmap_clear h"
    by (rule memory_text [OF tm buf])
  define s1 where "s1 = s0\<lparr>mx_vga := w, mx_boot := b, mx_proc := p\<lparr>vm_heap := h\<rparr>\<rparr>"
  have s1: "mx_vga s1 = w" "mx_boot s1 = b" "vm_heap (mx_proc s1) = h" "mx_irqs s1 = mx_irqs (k_hw k)" by (simp_all add: s1_def s0)
  have "\<not> fb_present (framebuffer_info (mx_boot s1))" "\<forall>log. io_dev (irq_bus (mx_irqs s1)) log ATA_STATUS = 0xFF"
    using m(6) t s1(2,4) by (simp_all add: text_machine_def)
  then obtain s3 s4 where 3: "op_timer_init ?A 100 (op_interrupts_enable ?A (op_interrupts_init ?A s1)) = Some s3" and 4: "op_late_init ?A s3 = Some (Inr s4)"
    and f4: "\<not> op_gfx_available ?A s4" "\<not> op_disk_available ?A s4" and h4: "sh_heap ?A s4 = vm_heap (mx_proc s1)" "mx_vga s4 = mx_vga s1" "iflag (proc_cpu (mx_proc s4))"
      "irq_handlers (mx_irqs s4) = (irq_handlers (mx_irqs s1))[0 := Some H_pit_tick, 1 := Some H_keyboard_irq]"
    by (rule devices_text)
  have 5: "show_file ?A filebuf (k\<lparr>k_hw := s4\<rparr>) = Some (k\<lparr>k_hw := s4\<rparr>)"
    using f4 v by (simp add: show_file_def vfs_init_def vfs_available_def)
  have "fresh_heap a (sh_heap ?A s4)" using m(4) h4(1) s1(3) by simp
  then obtain s5 t5 where s5: "start_threads ?A blinker s4 = Some s5" "bitmap_clear (sh_heap ?A s4) \<longrightarrow> bitmap_clear (vm_heap (mx_proc s5))" and ring: "mx_enabled s5" "sched_inv (mx_sched s5) [mx_current s5, t5]"
    "\<exists>c. mx_thread_at s5 (mx_current s5) = Some c \<and> t_state c = THREAD_RUNNING"
    "\<exists>n. mx_thread_at s5 t5 = Some n \<and> t_state n = THREAD_READY \<and> t_sp n = t_stack_base n + THREAD_STACK_SIZE - 56
      \<and> mem_x86 (proc_cpu (mx_proc s5)) (t_sp n + 24) = blinker \<and> mem_x86 (proc_cpu (mx_proc s5)) (t_sp n + 48) = xe_thread_trampoline e"
    by (rule threads_text)
  have clear: "bitmap_apart (pmm_init (concat (map clip (map_entries ts))) (xe_kernel_start e) (xe_kernel_end e))
    \<longrightarrow> bitmap_clear (vm_heap (mx_proc s5))" using m(7) s5(2) h4(1) s1(3) by simp
  have main: "kernel_main ?A blinker buf filebuf MULTIBOOT2_BOOTLOADER_MAGIC info k = Some (Up (k\<lparr>k_gui := k_gui k, k_hw := s5, kernel_state := KERNEL_STATE_RUNNING\<rparr>))"
    using m(1) 3 4 5 s5(1) f4(1) by (simp add: kernel_main_def gui_init_def flip: s0_def s1_def)
  have "length (irq_handlers (mx_irqs (k_hw k))) = 16" using t by (simp add: text_machine_def)
  then have irqs: "irq_handlers (mx_irqs s5) ! 0 = Some H_pit_tick" "irq_handlers (mx_irqs s5) ! 1 = Some H_keyboard_irq"
    using start_threads_x86(2) [OF s5(1)] h4(4) s1(4) by simp_all
  show ?thesis
    by (rule exI [of _ "k\<lparr>k_gui := k_gui k, k_hw := s5, kernel_state := KERNEL_STATE_RUNNING\<rparr>"], rule exI [of _ t5], intro conjI main)
      (use ring irqs clear start_threads_x86 [OF s5(1)] h4(2,3) s1(1) m(3) s0(4) in simp_all)
qed

text \<open>Property C1. The kernel boots. On an x86\_64 machine without framebuffer and disk whose boot loader describes memory with room
  for the first heap arena, and where no frame that the allocator starts with touches its own bitmap (as when the bitmap ends on a
  frame boundary), \<open>kernel_main\<close> reaches its idle loop in the running state; the screen shows exactly the
  banner, the amount of memory in megabytes and the report that the heap works; interrupts are enabled
  and the timer and keyboard handlers installed; and the scheduler is on, with a sound heap whose frames, like the free ones, are
  clear of the bitmap, and a ring of two live threads, the boot thread running and the blinker ready to be switched to.\<close>

theorem kernel_boots:
  assumes t: "text_machine e info ts (k_hw k)" and buf: "length buf = 21" and v: "\<not> available (k_vfs k)"
    and apart: "bitmap_apart (pmm_init (concat (map clip (map_entries ts))) (xe_kernel_start e) (xe_kernel_end e))"
  shows "\<exists>k' t. kernel_main (arch_x86_64 e) blinker buf filebuf MULTIBOOT2_BOOTLOADER_MAGIC info k = Some (Up k')
    \<and> kernel_state k' = KERNEL_STATE_RUNNING
    \<and> mx_vga (k_hw k') = fold arch_console_putc ([10] @ c_string ''MegKer'' @ [10] @ c_string ''RAM: ''
        @ shown (unat (available_ram (map_entries ts)) div (1024 * 1024)) @ c_string '' MB'' @ [10] @ c_string ''Heap: OK'' @ [10])
        (arch_console_init (mx_vga (k_hw k)))
    \<and> iflag (proc_cpu (mx_proc (k_hw k'))) \<and> irq_handlers (mx_irqs (k_hw k')) ! 0 = Some H_pit_tick
    \<and> irq_handlers (mx_irqs (k_hw k')) ! 1 = Some H_keyboard_irq
    \<and> mx_enabled (k_hw k') \<and> sched_inv (mx_sched (k_hw k')) [mx_current (k_hw k'), t]
    \<and> (\<exists>c. mx_thread_at (k_hw k') (mx_current (k_hw k')) = Some c \<and> t_state c = THREAD_RUNNING)
    \<and> (\<exists>n. mx_thread_at (k_hw k') t = Some n \<and> t_state n = THREAD_READY
         \<and> t_sp n = t_stack_base n + THREAD_STACK_SIZE - 56 \<and> mem_x86 (proc_cpu (mx_proc (k_hw k'))) (t_sp n + 24) = blinker
         \<and> mem_x86 (proc_cpu (mx_proc (k_hw k'))) (t_sp n + 48) = xe_thread_trampoline e)
    \<and> bitmap_clear (vm_heap (mx_proc (k_hw k')))"
  using kernel_up [OF t buf v, of blinker filebuf] apart by blast

text \<open>A machine with 7 MB of memory.\<close>

definition demo_x86_env :: x86_env where
  "demo_x86_env = \<lparr>xe_gdt = 0x10A000, xe_tss = 0x10A100, xe_kernel_stack = 0x10B000, xe_kernel_start = 0x100000, xe_kernel_end = 0x10FF00,
     xe_isr_stubs = (\<lambda>n. 0x101000 + 16 * of_nat n), xe_irq_stubs = (\<lambda>n. 0x102000 + 16 * of_nat n), xe_isr128 = 0x103000, xe_idt = 0x10C000,
     xe_thread_trampoline = 0x104000, xe_trampoline = 0x104100, xe_hang = 0x104140, xe_flags = 2, xe_params = 0x10D000,
     xe_hello_start = 0x108000, xe_hello_end = 0x109000, xe_user = (\<lambda>_ s. Some (0, s)), xe_buf = replicate 32 0, xe_tmp = replicate 10 0\<rparr>"

definition demo_x86 :: x86 where
  "demo_x86 = \<lparr>mx_proc = demo_proc\<lparr>vm_mem := demo_mb2, vm_heap := \<lparr>heap_pmm = demo_pmm, arena_list = 0, arena_at = (\<lambda>_. None), block_at = (\<lambda>_. None)\<rparr>\<rparr>,
     mx_gdt = boot_gdt, mx_tss = \<lparr>rsp0 = 0, rsp1 = 0, rsp2 = 0, ists = replicate 7 0, iomap_base = 0\<rparr>,
     mx_vga = \<lparr>vga_cells = (\<lambda>_. 0), cursor_row = 0, cursor_col = 0\<rparr>, mx_boot = mb2_start,
     mx_irqs = \<lparr>irq_bus = \<lparr>io_log = [], io_dev = (\<lambda>_ _. 0xFF)\<rparr>, irq_handlers = replicate 16 None, idt = idt blank_irqs, idtr = None\<rparr>,
     mx_kbd = \<lparr>kb_ring = empty_ring, shift_held = False\<rparr>, mx_mouse = \<lparr>ps2_state = demo_mouse, packet = [0, 0, 0], packet_index = 0\<rparr>,
     mx_disk = False, mx_fb = None, mx_ticks = 0, mx_thread_at = (\<lambda>_. None), mx_current = 0, mx_next_id = 0, mx_enabled = False\<rparr>"

definition demo_kernel_start :: "x86 kernel" where
  "demo_kernel_start = \<lparr>kernel_state = KERNEL_STATE_BOOT, k_vfs = \<lparr>available = False, sb = read_superblock (replicate 512 0)\<rparr>, k_gui = boot_gui, k_hw = demo_x86\<rparr>"

lemma demo_clip:
  "concat (map clip (map_entries demo_tags)) = [\<lparr>region_base = 0x100000, region_length = 0x700000\<rparr>]"
  "length (map_entries demo_tags) \<le> 64" "\<not> fb_present (fb_of demo_tags (framebuffer_info mb2_start))" by code_simp+

lemma demo_text: "text_machine demo_x86_env 0x9000 demo_tags demo_x86"
proof -
  have "run_at (pmm_init [\<lparr>region_base = 0x100000, region_length = 0x700000\<rparr>] 0x100000 0x10FF00) 512 16"
    by (simp add: run_at_def pmm_init_spec usable_frames_def frames_of_def highest_address_def bitmap_end_def ALIGN_UP_def PMM_FRAME_SIZE_def) auto
  then show ?thesis using demo_clip demo_items unfolding text_machine_def
    by (auto simp: demo_x86_def demo_x86_env_def demo_proc_def mb2_start_def)
qed

lemma demo_apart: "bitmap_apart (pmm_init (concat (map clip (map_entries demo_tags))) (xe_kernel_start demo_x86_env) (xe_kernel_end demo_x86_env))"
  unfolding demo_clip
  by (rule pmm_init_apart(3)) (simp_all add: demo_x86_env_def bitmap_end_def highest_address_def PMM_FRAME_SIZE_def ALIGN_UP_def)

theorem kernel_boots_witness:
  "\<exists>k'. kernel_main (arch_x86_64 demo_x86_env) 0x105000 (replicate 21 0) (replicate 128 0) MULTIBOOT2_BOOTLOADER_MAGIC 0x9000 demo_kernel_start = Some (Up k')
     \<and> mx_vga (k_hw k') = fold arch_console_putc ([10] @ c_string ''MegKer'' @ [10] @ c_string ''RAM: 7 MB'' @ [10] @ c_string ''Heap: OK'' @ [10])
         (arch_console_init (mx_vga demo_x86)) \<and> bitmap_clear (vm_heap (mx_proc (k_hw k')))"
proof -
  have h: "k_hw demo_kernel_start = demo_x86" by (simp add: demo_kernel_start_def)
  have r: "available_ram (map_entries demo_tags) = 0x700000" by code_simp
  have s: "shown (unat (0x700000 :: u64) div (1024 * 1024)) = [55]" by (simp add: shown_def dec_digits.simps)
  have "text_machine demo_x86_env 0x9000 demo_tags (k_hw demo_kernel_start)" using demo_text h by simp
  from kernel_boots [OF this _ _ demo_apart, of "replicate 21 0" "0x105000" "replicate 128 0", unfolded r s h] show ?thesis
    by (auto simp: demo_kernel_start_def c_string_def)
qed

text \<open>Property C2. The booted kernel runs its threads by preemption: on the same machine, after any number \<open>n\<close> of timer interrupts from the
  idle loop on, each of which goes through the whole dispatcher, nothing has faulted, the tick counter has advanced by \<open>n\<close>, and
  the boot thread and the blinker run in turn.\<close>

theorem booted_kernel_preempts:
  assumes "text_machine e info ts (k_hw k)" "length buf = 21" "\<not> available (k_vfs k)"
  shows "\<exists>k' t. kernel_main (arch_x86_64 e) blinker buf filebuf MULTIBOOT2_BOOTLOADER_MAGIC info k = Some (Up k')
    \<and> (\<forall>n. \<exists>k''. iter_opt (timer_irq e regs) n k' = Some k'' \<and> mx_ticks (k_hw k'') = mx_ticks (k_hw k') + of_nat n
         \<and> mx_current (k_hw k'') = (if even n then mx_current (k_hw k') else t))"
proof -
  obtain k' t where up: "kernel_main (arch_x86_64 e) blinker buf filebuf MULTIBOOT2_BOOTLOADER_MAGIC info k = Some (Up k')"
    and p: "irq_handlers (mx_irqs (k_hw k')) ! 0 = Some H_pit_tick" "mx_enabled (k_hw k')" "sched_inv (mx_sched (k_hw k')) [mx_current (k_hw k'), t]"
    using kernel_up [OF assms, of blinker filebuf] by (elim exE conjE)
  have r: "sched_rep (mx_sched (k_hw k')) [mx_current (k_hw k'), t]" "sched_enabled (mx_sched (k_hw k'))"
    using p by (simp_all add: sched_inv_def mx_sched_def)
  have "\<exists>k''. iter_opt (timer_irq e regs) n k' = Some k'' \<and> mx_ticks (k_hw k'') = mx_ticks (k_hw k') + of_nat n
      \<and> mx_current (k_hw k'') = (if even n then mx_current (k_hw k') else t)" for n
  proof -
    have "[mx_current (k_hw k'), t] ! (n mod 2) = (if even n then mx_current (k_hw k') else t)" by (auto simp: even_iff_mod_2_eq_zero odd_iff_mod_2_eq_one)
    then show ?thesis using x86_clock.runs_within [where e = e and regs = regs and k = n, OF p(1) r] by (auto simp: mx_sched_def numeral_2_eq_2)
  qed
  then show ?thesis using up by blast
qed

theorem booted_kernel_preempts_witness:
  "\<exists>k' k''. kernel_main (arch_x86_64 demo_x86_env) 0x105000 (replicate 21 0) (replicate 128 0) MULTIBOOT2_BOOTLOADER_MAGIC 0x9000 demo_kernel_start = Some (Up k')
     \<and> iter_opt (timer_irq demo_x86_env (demo_regs 32)) 250 k' = Some k'' \<and> mx_current (k_hw k'') = mx_current (k_hw k')"
proof -
  have "text_machine demo_x86_env 0x9000 demo_tags (k_hw demo_kernel_start)" using demo_text by (simp add: demo_kernel_start_def)
  then obtain k' t where "kernel_main (arch_x86_64 demo_x86_env) 0x105000 (replicate 21 0) (replicate 128 0) MULTIBOOT2_BOOTLOADER_MAGIC 0x9000 demo_kernel_start = Some (Up k')"
    "\<forall>n. \<exists>k''. iter_opt (timer_irq demo_x86_env (demo_regs 32)) n k' = Some k'' \<and> mx_ticks (k_hw k'') = mx_ticks (k_hw k') + of_nat n
      \<and> mx_current (k_hw k'') = (if even n then mx_current (k_hw k') else t)"
    using booted_kernel_preempts [of demo_x86_env "0x9000" demo_tags demo_kernel_start "replicate 21 0" "0x105000" "replicate 128 0" "demo_regs 32"]
    by (auto simp: demo_kernel_start_def)
  from this(1) spec [OF this(2), of 250] show ?thesis by (auto simp del: iter_opt.simps)
qed

section \<open>The self-test of virtual memory\<close>

text \<open>Property C7. The x86\_64 self-test of virtual memory passes and has no lasting effect: over sound kernel page tables that leave
  the test address unmapped, with room for a new space and a few free frames, it reports success (the word written
  through the new space is read back, the kernel's space still does not map the address and the new one maps it to
  the frame), afterwards the kernel's space is active again with all its translations unchanged, every heap
  buffer is as before, and no frame has become free that was not.\<close>

theorem vmm_selftest_passes:
  assumes "ready x86_fmt 3 (kernel_root s) s" "card (tset x86_fmt (vm_mem s) 3 (kernel_root s)) \<le> card (free_set (vm_pmm s))"
    and "heap_inv (vm_heap s)" "vmm_create_address_space s = Some (as, s1)"
    and "unblocked x86_fmt (vm_mem s) 3 (kernel_root s) 0x50000000" "vmm_translate Kernel_space 0x50000000 s = Some 0" "4 \<le> card (free_set (vm_pmm s1))"
  shows "\<exists>s'. vmm_selftest_x86 s = Some (True, s') \<and> heap_inv (vm_heap s') \<and> live (vm_heap s') = live (vm_heap s)
    \<and> free_set (vm_pmm s') \<subseteq> free_set (vm_pmm s) \<and> kernel_root s' = kernel_root s \<and> root_reg s' = kernel_root s
    \<and> (\<forall>v. vmm_translate Kernel_space v s' = vmm_translate Kernel_space v s)"
proof -
  have k: "as_root Kernel_space s = Some (kernel_root s)" by (simp add: as_root_def)
  have c: "card (sp_tframes x86_fmt 3 Kernel_space s) \<le> card (free_set (vm_pmm s))"
    using assms(1,2) tset_card [of x86_fmt "vm_mem s" 3 "kernel_root s"] k by (simp add: sp_tframes_def ready_def)
  have g: "sp_good x86_fmt 3 Kernel_space s" "sp_room x86_fmt 3 Kernel_space s 0x50000000" using assms(1,5) k by (simp_all add: sp_good_def sp_room_def)
  have n: "unat (0x50000000 :: u64) < 2 ^ 48" "4096 dvd unat (0x50000000 :: u64)" "Suc 3 \<le> card (free_set (vm_pmm s1))" using assms(7) by simp_all
  show ?thesis unfolding vmm_selftest_x86_def
    by (rule x86_life.selftest_ok [OF g(1) c assms(3,4) g(2) n(1,2) assms(6) n(3)])
qed

text \<open>The same on aarch64, with three levels of tables.\<close>

theorem vmm_selftest_passes_a64:
  assumes "ready a64_fmt 2 (kernel_root s) s" "card (tset a64_fmt (vm_mem s) 2 (kernel_root s)) \<le> card (free_set (vm_pmm s))"
    and "heap_inv (vm_heap s)" "vmm_create_address_space_a64 s = Some (as, s1)"
    and "unblocked a64_fmt (vm_mem s) 2 (kernel_root s) 0x80000000" "vmm_translate_a64 Kernel_space 0x80000000 s = Some 0" "3 \<le> card (free_set (vm_pmm s1))"
  shows "\<exists>s'. vmm_selftest_a64 s = Some (True, s') \<and> heap_inv (vm_heap s') \<and> live (vm_heap s') = live (vm_heap s)
    \<and> free_set (vm_pmm s') \<subseteq> free_set (vm_pmm s) \<and> kernel_root s' = kernel_root s \<and> root_reg s' = kernel_root s
    \<and> (\<forall>v. vmm_translate_a64 Kernel_space v s' = vmm_translate_a64 Kernel_space v s)"
proof -
  have k: "as_root Kernel_space s = Some (kernel_root s)" by (simp add: as_root_def)
  have c: "card (sp_tframes a64_fmt 2 Kernel_space s) \<le> card (free_set (vm_pmm s))"
    using assms(1,2) tset_card [of a64_fmt "vm_mem s" 2 "kernel_root s"] k by (simp add: sp_tframes_def ready_def)
  have g: "sp_good a64_fmt 2 Kernel_space s" "sp_room a64_fmt 2 Kernel_space s 0x80000000" using assms(1,5) k by (simp_all add: sp_good_def sp_room_def)
  have n: "unat (0x80000000 :: u64) < 2 ^ 39" "4096 dvd unat (0x80000000 :: u64)" "Suc 2 \<le> card (free_set (vm_pmm s1))" using assms(7) by simp_all
  show ?thesis unfolding vmm_selftest_a64_def
    by (rule a64_life.selftest_ok [OF g(1) c assms(3,4) g(2) n(1,2) assms(6) n(3)])
qed

theorem vmm_selftest_passes_witness: "\<exists>s'. vmm_selftest_x86 demo_proc = Some (True, s') \<and> root_reg s' = 0x1000"
proof -
  obtain s1 where d: "vmm_create_address_space demo_proc = Some (Heap_space 0x3030, s1)"
    "loadable x86_fmt 3 (Heap_space 0x3030) {2} 0x2000 demo_ehdr USER_STACK_TOP s1" by (rule demo_process_parts)
  have c: "card (tset x86_fmt (vm_mem demo_proc) 3 (kernel_root demo_proc)) \<le> card (free_set (vm_pmm demo_proc))"
    by (simp add: demo_kernel(3,4) demo_proc_pmm)
  have f: "4 \<le> card (free_set (vm_pmm s1))" using d(2) by (simp add: loadable_def)
  have z: "vmm_translate Kernel_space 0x50000000 demo_proc = Some 0"
    by (simp add: vmm_translate_lookup as_root_def demo_kernel(4,5) x86.zero_absent)
  from vmm_selftest_passes [OF _ c demo_proc_heap_inv d(1) _ z f] demo_kernel(1,2,4) show ?thesis by auto
qed

section \<open>A file on the screen\<close>

text \<open>Property C8. From the image to the screen: when the disk's first sectors are those of an image made by \<^verbatim>\<open>mkfs.py\<close> that contains
  \<^verbatim>\<open>hello.txt\<close>, the boot sequence finds the file system and shows the file: the string it draws, or prints on a machine
  without graphics, lies in the 128-byte buffer and consists of the first 127 bytes of the file followed by a NUL. The condition on the
  disk holds of both machines: of the ATA driver over a drive, and of the virtio driver over a block device, that answers with the
  sectors of the image (\<open>ata_disk_image\<close>, \<open>blk_disk_image\<close>).\<close>

theorem hello_file_shown:
  assumes "mkfs files = Some img" "files = ys @ (path, d) # zs" "file_name path = c_string ''hello.txt''" "c_string ''hello.txt'' \<notin> file_name ` fst ` set ys"
    and "\<forall>f \<in> set files. 0 \<notin> set (fst f)" "length img \<le> 512 * 2 ^ 32" "length d + 511 < 2 ^ 32" "length filebuf = 128"
    and "op_disk_available A (k_hw k)" "image_disk img \<subseteq>\<^sub>m op_disk A (k_hw k)"
  shows "\<exists>buf k'. length buf = 128 \<and> take (min (length d) 127) buf = take 127 d \<and> buf ! min (length d) 127 = 0
    \<and> vfs_available (k_vfs k') \<and> k_hw k' = k_hw k
    \<and> show_file A filebuf k = (if op_gfx_available A (k_hw k)
         then Some (k'\<lparr>k_hw := draw_string A 10 30 buf 0x0000FFFF 0x00102030 (k_hw k)\<rparr>)
         else map_option (\<lambda>s. k'\<lparr>k_hw := s\<rparr>) (puts A buf (k_hw k)))"
proof -
  let ?n = "min (length d) 127" and ?dk = "op_disk A (k_hw k)" and ?v = "vfs_init True (op_disk A (k_hw k)) (k_vfs k)"
  have r: "vfs_read_file ?dk ?v (c_string ''hello.txt'' @ [0]) filebuf 127 =
      Some (True, take ?n d @ drop ?n filebuf, Some (of_nat (length d)))"
    using mkfs_read_back [OF assms(1,2) _ assms(5,10,6,7), of 127 filebuf "k_vfs k"] assms(3,4,8) by simp
  then have av: "vfs_available ?v" by (simp add: vfs_read_file_def vfs_available_def split: if_splits)
  have u: "unat (of_nat (length d) :: u32) = length d" by (rule unat_of_nat_eq) (use assms(7) in simp)
  have sh: "(of_nat (length d) :: u32) < 127 \<longleftrightarrow> length d < 127" using u by (simp add: word_less_nat_alt)
  let ?b = "(take ?n d @ drop ?n filebuf)[?n := 0]"
  have b: "length ?b = 128" "take ?n ?b = take 127 d" "?b ! ?n = 0" using assms(8) by (auto simp: min_def)
  show ?thesis
    by (rule exI [of _ ?b], rule exI [of _ "k\<lparr>k_vfs := ?v\<rparr>"])
      (use b av r sh assms(8,9) in \<open>simp add: show_file_def Let_def map_conv_bind_option comp_def min_def u\<close>)
qed

definition hello_files :: "(u8 list \<times> u8 list) list" where
  "hello_files = [(c_string ''build/hello.txt'', c_string ''Hi'')]"

lemma hello_mkfs: "\<exists>img. mkfs hello_files = Some img \<and> length img = 1536"
  by (simp add: mkfs_def hello_files_def c_string_def pack_I_def encode_entry_def encode_ascii_def file_name_def ljust_def
      pad_sector_def sectors_of_def Let_def)

text \<open>The 7 MB machine with an ATA drive that holds an image.\<close>

definition demo_x86_disk :: "u8 list \<Rightarrow> x86" where
  "demo_x86_disk img = demo_x86\<lparr>mx_disk := True, mx_irqs := (mx_irqs demo_x86)\<lparr>irq_bus :=
     \<lparr>io_log = [], io_dev = demo_drive (\<lambda>l. sector_words (take 512 (drop (unat l * 512) img)))\<rparr>\<rparr>\<rparr>"

lemma demo_x86_disk_holds:
  assumes "length img \<le> 512 * 2 ^ 28"
  shows "image_disk img \<subseteq>\<^sub>m op_disk (arch_x86_64 demo_x86_env) (demo_x86_disk img)"
proof -
  have "sector_bytes (sector_words (take 512 (drop (n * 512) img))) = take 512 (drop (n * 512) img)" if "(n + 1) * 512 \<le> length img" for n
    using that by (intro sector_bytes_words) simp
  then have "\<forall>l :: u32. (unat l + 1) * 512 \<le> length img \<longrightarrow> sector_bytes (sector_words (take 512 (drop (unat l * 512) img))) = take 512 (drop (unat l * 512) img)"
    by blast
  moreover have "ata_drive (\<lambda>l. sector_words (take 512 (drop (unat l * 512) img))) (io_dev (irq_bus (mx_irqs (demo_x86_disk img))))" "mx_disk (demo_x86_disk img)"
    by (simp_all add: demo_x86_disk_def demo_drive_ok)
  ultimately have "image_disk img \<subseteq>\<^sub>m arch_disk_read_sector_x86 (demo_x86_disk img)" using assms by - (rule ata_disk_image)
  then show ?thesis by (simp add: arch_x86_64_def)
qed

theorem hello_file_shown_witness:
  "\<exists>img buf s'. mkfs hello_files = Some img \<and> take 3 buf = c_string ''Hi'' @ [0]
     \<and> map_option k_hw (show_file (arch_x86_64 demo_x86_env) (replicate 128 7) (demo_kernel_start\<lparr>k_hw := demo_x86_disk img\<rparr>)) = Some s'
     \<and> mx_vga s' = fold arch_console_putc (c_string ''Hi'') (mx_vga demo_x86)"
proof -
  obtain img where img: "mkfs hello_files = Some img" "length img = 1536" using hello_mkfs by blast
  let ?A = "arch_x86_64 demo_x86_env" and ?k = "demo_kernel_start\<lparr>k_hw := demo_x86_disk img\<rparr>"
  have f: "hello_files = [] @ (c_string ''build/hello.txt'', c_string ''Hi'') # []" "file_name (c_string ''build/hello.txt'') = c_string ''hello.txt''"
    by (simp_all add: hello_files_def file_name_def c_string_def)
  have k: "k_hw ?k = demo_x86_disk img" "mx_vga (demo_x86_disk img) = mx_vga demo_x86" by (simp_all add: demo_x86_disk_def)
  have g: "\<not> op_gfx_available ?A (k_hw ?k)" "op_disk_available ?A (k_hw ?k)"
    unfolding k by (simp_all add: arch_x86_64_def arch_gfx_available_x86_def arch_disk_available_x86_def ata_available_def demo_x86_disk_def demo_x86_def fb_available_def)
  have dk: "image_disk img \<subseteq>\<^sub>m op_disk ?A (k_hw ?k)" unfolding k by (rule demo_x86_disk_holds) (simp add: img(2))
  have h: "\<exists>buf k'. length buf = 128 \<and> take (min (length (c_string ''Hi'')) 127) buf = take 127 (c_string ''Hi'') \<and> buf ! min (length (c_string ''Hi'')) 127 = 0
      \<and> vfs_available (k_vfs k') \<and> k_hw k' = k_hw ?k
      \<and> show_file ?A (replicate 128 7) ?k = (if op_gfx_available ?A (k_hw ?k)
         then Some (k'\<lparr>k_hw := draw_string ?A 10 30 buf 0x0000FFFF 0x00102030 (k_hw ?k)\<rparr>)
         else map_option (\<lambda>s. k'\<lparr>k_hw := s\<rparr>) (puts ?A buf (k_hw ?k)))"
    by (rule hello_file_shown [OF img(1) f _ _ _ _ _ g(2) dk]) (use img(2) in \<open>simp_all add: hello_files_def c_string_def\<close>)
  have two: "min (length (c_string ''Hi'')) 127 = 2" "take 127 (c_string ''Hi'') = c_string ''Hi''" by (simp_all add: c_string_def)
  obtain buf k' where b: "length buf = 128" "take 2 buf = c_string ''Hi''" "buf ! 2 = 0"
    "show_file ?A (replicate 128 7) ?k = map_option (\<lambda>s. k'\<lparr>k_hw := s\<rparr>) (puts ?A buf (k_hw ?k))"
    using h unfolding two if_not_P [OF g(1)] by (elim exE conjE)
  have t3: "take 3 buf = c_string ''Hi'' @ [0]" using b(1-3) take_Suc_conv_app_nth [of 2 buf] by (simp add: numeral_3_eq_3 numeral_2_eq_2)
  then have "buf = c_string ''Hi'' @ 0 # drop 3 buf" using append_take_drop_id [of 3 buf] by simp
  moreover have "takeWhile (\<lambda>c. c \<noteq> 0) (c_string ''Hi'' @ 0 # xs) = c_string ''Hi''" for xs by (simp add: c_string_def)
  ultimately have tw: "takeWhile (\<lambda>c. c \<noteq> 0) buf = c_string ''Hi''" by metis
  obtain s' where s': "puts ?A buf (k_hw ?k) = Some s'" "mx_vga s' = fold arch_console_putc (c_string ''Hi'') (mx_vga demo_x86)"
    using x86_machine.puts_ok [OF TrueI, of demo_x86_env buf "k_hw ?k"] unfolding tw k by blast
  have "map_option k_hw (show_file ?A (replicate 128 7) ?k) = Some s'" unfolding b(4) s'(1) by simp
  with img(1) t3 s'(2) show ?thesis by blast
qed

section \<open>The blinker\<close>

text \<open>The blinker keeps time: started with \<open>last_tick = L\<close>, and as long as no round of its loop misses a tick, after any
  number of rounds it has toggled exactly once for every full 100 ticks since \<open>L\<close>, so its square is on or off according to the
  parity of the elapsed seconds.\<close>

theorem blinker_period:
  assumes "steady L (map (\<lambda>s. unat (op_timer_ticks A s)) ss)" "L < 2 ^ 64"
  shows "blink_rounds A (on, of_nat L) ss =
    (let q = (last (L # map (\<lambda>s. unat (op_timer_ticks A s)) ss) - L) div 100 in (on \<noteq> odd q, of_nat (L + 100 * q)))"
  using blink_from [of L A ss L 0 on] assms by (simp add: Let_def)

lemma steady_upt: "t \<le> a \<Longrightarrow> a \<le> t + 1 \<Longrightarrow> steady t [a..<a + n]"
proof (induction n arbitrary: a t)
  case (Suc n)
  have "[a..<a + Suc n] = a # [Suc a..<Suc a + n]" by (simp add: upt_conv_Cons del: upt_Suc)
  then show ?case using Suc.IH [of a "Suc a"] Suc.prems by simp
qed simp

theorem blinker_period_witness:
  "blink_rounds (arch_x86_64 demo_x86_env) (False, 5) (map (\<lambda>n. demo_x86\<lparr>mx_ticks := of_nat n\<rparr>) [5..<200]) = (True, 105)"
proof -
  let ?A = "arch_x86_64 demo_x86_env" and ?ss = "map (\<lambda>n. demo_x86\<lparr>mx_ticks := of_nat n\<rparr>) [5..<200]"
  have t: "map (\<lambda>s. unat (op_timer_ticks ?A s)) ?ss = [5..<200]"
    by (rule nth_equalityI) (simp_all add: arch_x86_64_def arch_timer_ticks_x86_def pit_get_ticks_def unat_of_nat_eq)
  have "last (5 # [5..<200 :: nat]) = 199" by (simp add: last_upt)
  then show ?thesis using blinker_period [of 5 ?A ?ss False, unfolded t] steady_upt [of 5 5 195] by (simp add: Let_def)
qed

end
